(* ===== verification/Prelude.thy ===== *)
theory Prelude
  imports Main "HOL-Library.Word" "HOL-Library.Multiset"
begin

text \<open>
  What every component of the development shares: the machine types of the code, the memory
  image of integers, and the lemma collections the component proofs simplify with.

  The code is compiled for a little-endian host (\<open>ORDER_NATIVE == ORDER_LITTLE_ENDIAN\<close> in
  Mona/Memory/Bytes.h), so the bytes of an integer variable, as \<open>memcpy\<close> sees them, are the
  list \<open>le_bytes n w\<close>, and reading them back is \<open>of_le\<close>. Text is a HOL \<open>string\<close> (a list of
  8-bit characters, as \<open>std::string\<close>), binary data is a list of bytes.
\<close>

unbundle bit_operations_syntax

type_synonym byte = "8 word"
type_synonym u16 = "16 word"
type_synonym u32 = "32 word"
type_synonym u64 = "64 word"

named_theorems wire \<open>memory images of integers and byte orders\<close>
named_theorems mem \<open>operations on buffers, packets and pools\<close>

section \<open>Little-endian memory images\<close>

primrec le_bytes :: "nat \<Rightarrow> 'a::len word \<Rightarrow> byte list" where
  "le_bytes 0 w = []"
| "le_bytes (Suc n) w = ucast w # le_bytes n (drop_bit 8 w)"

primrec of_le :: "byte list \<Rightarrow> 'a::len word" where
  "of_le [] = 0"
| "of_le (b # bs) = ucast b OR push_bit 8 (of_le bs)"

lemma le_bytes_numeral [simp]:
  "le_bytes (numeral k) w = ucast w # le_bytes (pred_numeral k) (drop_bit 8 w)"
  by (simp add: numeral_eq_Suc)

lemma length_le_bytes [simp]: "length (le_bytes n w) = n"
  by (induction n arbitrary: w) auto

lemma split_low_byte:
  fixes w :: "'a::len word"
  shows "ucast (ucast w :: byte) OR push_bit 8 (take_bit n (drop_bit 8 w)) = take_bit (n + 8) w"
  by (rule bit_word_eqI) (auto simp: bit_simps not_le not_less)

lemma of_le_le_bytes [wire]: "of_le (le_bytes n w) = take_bit (8 * n) w"
  by (induction n arbitrary: w)
     (simp_all add: split_low_byte mult.commute add.commute)

lemma of_le_bytes_full [wire]:
  fixes w :: "'a::len word"
  shows "LENGTH('a) \<le> 8 * n \<Longrightarrow> of_le (le_bytes n w) = w"
  by (simp add: of_le_le_bytes take_bit_word_eq_self)

section \<open>Bit by bit\<close>

text \<open>
  An equation between words of a fixed width is decided bit by bit: \<open>word_eq_bits\<close> with
  \<open>simp add: bit_blast\<close>, which unrolls the range of bit positions.
\<close>

lemma word_eq_bits:
  fixes a b :: "'a::len word"
  shows "list_all (\<lambda>n. bit a n = bit b n) [0..<LENGTH('a)] \<Longrightarrow> a = b"
  by (rule bit_word_eqI) (auto simp: list_all_iff)

lemma upt_0_numeral: "[0..<numeral k] = 0 # [Suc 0..<numeral k]"
  by (simp add: upt_conv_Cons)

lemma upt_1_numeral:
  "[Suc 0..<numeral k] = (if 1 < (numeral k :: nat) then Suc 0 # [2..<numeral k] else [])"
  by (simp add: upt_conv_Cons numeral_2_eq_2)

lemmas bit_blast = upt_0_numeral upt_1_numeral bit_simps

lemma unat_exp: "n < LENGTH('a) \<Longrightarrow> unat (2 ^ n :: 'a::len word) = 2 ^ n"
proof -
  assume n: "n < LENGTH('a)"
  have "unat (2 ^ n :: 'a word) = unat (push_bit n (1 :: 'a word))"
    by (simp add: push_bit_eq_mult)
  also have "\<dots> = take_bit LENGTH('a) (push_bit n (unat (1 :: 'a word)))"
    by (rule unsigned_push_bit_eq)
  also have "\<dots> = 2 ^ n"
    using n by (simp add: push_bit_eq_mult take_bit_nat_eq_self)
  finally show ?thesis .
qed

text \<open>The highest set bit of a 32-bit word, and the power of two it stands for.\<close>

lemma top_bit:
  fixes x :: u32
  assumes "x \<noteq> 0"
  obtains n where "n < 32" "bit x n" "\<And>m. bit x m \<Longrightarrow> m \<le> n"
proof -
  have "\<exists>n. bit x n" using assms by (metis bit_eq_iff bit_0_eq bot_apply bot_bool_def)
  moreover have "\<forall>n. bit x n \<longrightarrow> n \<le> 32" using bit_imp_le_length [of x] by (auto intro: less_imp_le)
  ultimately have *: "bit x (Greatest (bit x))" "\<And>m. bit x m \<Longrightarrow> m \<le> Greatest (bit x)"
    by (auto intro: GreatestI_ex_nat Greatest_le_nat)
  moreover have "Greatest (bit x) < 32" using bit_imp_le_length [OF *(1)] by simp
  ultimately show thesis using that by blast
qed

lemma top_bit_bounds:
  fixes x :: u32
  assumes "bit x n" "\<And>m. bit x m \<Longrightarrow> m \<le> n"
  shows "2 ^ n \<le> unat x \<and> unat x < 2 ^ Suc n"
proof -
  have "take_bit (Suc n) x = x"
    by (rule bit_word_eqI) (use assms in \<open>auto simp: bit_simps less_Suc_eq_le\<close>)
  then have "take_bit (Suc n) (unat x) = unat x" by (metis unsigned_take_bit_eq)
  then have "unat x < 2 ^ Suc n" by (metis take_bit_nat_less_exp)
  moreover have "2 ^ n \<le> unat x"
  proof (rule ccontr)
    assume "\<not> 2 ^ n \<le> unat x"
    then have "\<not> bit (unat x) n" by (simp add: bit_iff_odd)
    with assms(1) show False by (simp add: bit_unsigned_iff)
  qed
  ultimately show ?thesis by simp
qed

section \<open>Lists\<close>

lemma take_drop_cons: "i < length xs \<Longrightarrow> drop i xs = xs ! i # drop (Suc i) xs"
  by (simp add: Cons_nth_drop_Suc)

lemma list_all_lt_upt: "list_all P [0..<n] \<Longrightarrow> i < n \<Longrightarrow> P i"
  by (simp add: list_all_iff)

lemma list_all_uptD: "list_all P [m..<n] \<Longrightarrow> m \<le> i \<Longrightarrow> i < n \<Longrightarrow> P i"
  by (simp add: list_all_iff)

lemma all_256: "list_all P [0..<256] \<Longrightarrow> (x :: nat) < 256 \<Longrightarrow> P x"
  by (rule list_all_lt_upt)

section \<open>Characters\<close>

text \<open>\<open>code c\<close> is the value of \<open>(unsigned char)c\<close>, \<open>schar c\<close> the value of a (signed) \<open>char\<close>.\<close>

definition code :: "char \<Rightarrow> nat" where
  "code c = of_char c"

definition schar :: "char \<Rightarrow> int" where
  "schar c = (if code c < 128 then int (code c) else int (code c) - 256)"

definition chr :: "nat \<Rightarrow> char" where
  "chr n = char_of n"

lemma code_lt [simp]: "code c < 256"
  using of_char_mod_256 [of c, where 'a = nat] by (simp add: code_def)

lemma code_not_ge [simp]: "\<not> 256 \<le> code c"
  by (simp add: not_le)

lemma chr_code [simp]: "chr (code c) = c"
  by (simp add: chr_def code_def)

lemma code_chr [simp]: "code (chr n) = n mod 256"
  by (simp add: chr_def code_def)

lemma code_inject [simp]: "code a = code b \<longleftrightarrow> a = b"
  by (simp add: code_def)

lemma chr_eq_iff: "n < 256 \<Longrightarrow> chr n = d \<longleftrightarrow> n = code d"
  by (metis chr_code code_chr mod_less)

text \<open>A statement about one character holds when it holds for the 256 codes.\<close>

lemma char_by_cases: "list_all (\<lambda>n. P (chr n)) [0..<256] \<Longrightarrow> P c"
  using all_256 [of "\<lambda>n. P (chr n)" "code c"] by simp

end
