(* ===== verification/Allocator.thy ===== *)
theory Allocator
  imports Prelude
begin

text \<open>
  Mona/Memory/Buffer.cpp (\<open>Buffer::Allocator::Alloc\<close>, \<open>Free\<close>) and Mona/Memory/BufferPool.cpp,
  BufferPool.h: the sizes buffers are allocated with, where their memory comes from and returns
  to, and the pool of recycled buffers, one stack per power of two.

  The heap behind \<open>new char[]\<close> and \<open>delete[]\<close> is a counter of addresses and the size of every
  live block; deleting an address that is not live, indexing \<open>_buffers\<close> out of its 28 entries
  and copying more entries than a stack holds are undefined behaviour, the value \<open>None\<close>.
  The lemmas show that \<open>Alloc\<close> rounds to the least power of two, that the pool's index function is
  the logarithm on these sizes, and that pool and plain allocator both keep the contract of the
  locale \<open>buffer_allocator\<close>: blocks handed out are large enough, live and not handed out twice.
\<close>

section \<open>Sizes and routes\<close>

datatype alloc_route = Empty_Static | New_Char | Get_Alloc

definition upper_pow2 :: "u32 \<Rightarrow> u32" where
  "upper_pow2 sz =
     (let capacity = sz - 1;
          capacity = capacity OR drop_bit 1 capacity;
          capacity = capacity OR drop_bit 2 capacity;
          capacity = capacity OR drop_bit 4 capacity;
          capacity = capacity OR drop_bit 8 capacity;
          capacity = capacity OR drop_bit 16 capacity;
          capacity = capacity + 1
      in if capacity \<noteq> 0 then capacity else sz)"

text \<open>\<open>Alloc\<close>: \<open>locked\<close> is the result of \<open>TryLock()\<close>; the size is changed in place.\<close>

definition Alloc :: "bool \<Rightarrow> u32 \<Rightarrow> u32 \<times> alloc_route" where
  "Alloc locked sz =
     (if sz \<le> 16 then
        (if sz = 0 then (sz, Empty_Static)
         else (16, if \<not> locked then New_Char else Get_Alloc))
      else
        (let sz = upper_pow2 sz
         in if sz > 0x80000000 then (sz, New_Char)
            else (sz, if \<not> locked then New_Char else Get_Alloc)))"

datatype free_route = Free_Nothing | Delete_Char | Get_Free

definition Free :: "bool \<Rightarrow> bool \<Rightarrow> u32 \<Rightarrow> free_route" where
  "Free locked isEmpty sz =
     (if sz = 0 then (if \<not> isEmpty then Delete_Char else Free_Nothing)
      else if sz AND (sz - 1) \<noteq> 0 \<or> \<not> locked then Delete_Char
      else Get_Free)"

definition computeIndex :: "u32 \<Rightarrow> nat" where
  "computeIndex capacity =
     (let capacity = capacity - 1;
          capacity = push_bit 3 capacity - capacity;
          capacity = push_bit 8 capacity - capacity;
          capacity = push_bit 8 capacity - capacity;
          capacity = push_bit 8 capacity - capacity
      in [100, 101, 99, 12, 99, 102, 25, 99, 13, 99, 99, 99, 103, 18, 26, 99,
          99, 99, 16, 14, 7, 99, 9, 99, 99, 0, 99, 3, 99, 19, 27, 99,
          11, 99, 24, 99, 99, 99, 17, 99, 15, 6, 8, 99, 2, 99, 99, 10,
          23, 99, 99, 5, 99, 1, 99, 22, 99, 4, 21, 99, 20, 99, 28, 99] ! unat (drop_bit 26 capacity))"

section \<open>The heap of \<open>new char[]\<close>\<close>

record heap =
  nxt :: nat
  blk :: "nat \<Rightarrow> nat option"

definition heap_ok :: "heap \<Rightarrow> bool" where
  "heap_ok h \<longleftrightarrow> 0 < nxt h \<and> (\<forall>a. blk h a \<noteq> None \<longrightarrow> 0 < a \<and> a < nxt h)"

definition heap_new :: "nat \<Rightarrow> heap \<Rightarrow> nat \<times> heap" where
  "heap_new n h = (nxt h, h\<lparr>nxt := Suc (nxt h), blk := (blk h)(nxt h := Some n)\<rparr>)"

definition heap_delete :: "nat \<Rightarrow> heap \<Rightarrow> heap option" where
  "heap_delete a h =
     (case blk h a of None \<Rightarrow> None | Some n \<Rightarrow> Some (h\<lparr>blk := (blk h)(a := None)\<rparr>))"

fun heap_delete_all :: "nat list \<Rightarrow> heap \<Rightarrow> heap option" where
  "heap_delete_all [] h = Some h"
| "heap_delete_all (a # as) h =
     (case heap_delete a h of None \<Rightarrow> None | Some h' \<Rightarrow> heap_delete_all as h')"

section \<open>The stacks of the pool\<close>

text \<open>The C++ vector of addresses, its back last; address 0 is NULL.\<close>

record Buffers =
  stack :: "nat list"
  minSize :: nat
  maxSize :: nat

definition Buffers_empty :: Buffers where
  "Buffers_empty = \<lparr>stack = [], minSize = 0, maxSize = 0\<rparr>"

definition Buffers_pop :: "Buffers \<Rightarrow> nat option \<times> Buffers" where
  "Buffers_pop b =
     (if stack b = [] then (None, b)
      else (let buffer = last (stack b); b' = b\<lparr>stack := butlast (stack b)\<rparr>
            in (Some buffer,
                if length (stack b') < minSize b' then b'\<lparr>minSize := length (stack b')\<rparr> else b')))"

definition Buffers_push :: "nat \<Rightarrow> Buffers \<Rightarrow> Buffers" where
  "Buffers_push buffer b =
     (let b' = b\<lparr>stack := stack b @ [buffer]\<rparr>
      in if length (stack b') > maxSize b' then b'\<lparr>maxSize := length (stack b')\<rparr> else b')"

definition vector_resize :: "nat \<Rightarrow> nat list \<Rightarrow> nat list" where
  "vector_resize n xs = take n xs @ replicate (n - length xs) 0"

definition Buffers_manage :: "nat list \<Rightarrow> Buffers \<Rightarrow> (nat list \<times> Buffers) option" where
  "Buffers_manage gc b =
     (if minSize b > length (stack b) then None
      else
        (let gc' = gc @ drop (length (stack b) - minSize b) (stack b);
             m = length (stack b) - minSize b
         in Some (gc', b\<lparr>stack := vector_resize m (vector_resize (maxSize b) (stack b)),
                         minSize := m, maxSize := 0\<rparr>)))"

type_synonym pool = "Buffers list"

definition BufferPool_init :: pool where
  "BufferPool_init = replicate 28 Buffers_empty"

definition BufferPool_alloc :: "u32 \<Rightarrow> heap \<times> pool \<Rightarrow> (nat \<times> heap \<times> pool) option" where
  "BufferPool_alloc capacity = (\<lambda>(h, p).
     let i = computeIndex capacity
     in if i \<ge> length p then None
        else (case Buffers_pop (p ! i) of
                (Some buffer, b) \<Rightarrow>
                   if buffer \<noteq> 0 then Some (buffer, h, p[i := b])
                   else (case heap_new (unat capacity) h of (a, h') \<Rightarrow> Some (a, h', p[i := b]))
              | (None, b) \<Rightarrow>
                   (case heap_new (unat capacity) h of (a, h') \<Rightarrow> Some (a, h', p[i := b]))))"

definition BufferPool_free :: "nat \<Rightarrow> u32 \<Rightarrow> heap \<times> pool \<Rightarrow> (heap \<times> pool) option" where
  "BufferPool_free buffer capacity = (\<lambda>(h, p).
     let i = computeIndex capacity
     in if i \<ge> length p then None else Some (h, p[i := Buffers_push buffer (p ! i)]))"

text \<open>One turn of the collector thread (\<open>BufferPool::run\<close>): every stack in turn.\<close>

fun BufferPool_collect :: "pool \<Rightarrow> heap \<Rightarrow> (pool \<times> heap) option" where
  "BufferPool_collect [] h = Some ([], h)"
| "BufferPool_collect (b # bs) h =
     (case Buffers_manage [] b of None \<Rightarrow> None
      | Some (gc, b') \<Rightarrow>
          (case heap_delete_all gc h of None \<Rightarrow> None
           | Some h' \<Rightarrow>
               (case BufferPool_collect bs h' of None \<Rightarrow> None
                | Some (bs', h'') \<Rightarrow> Some (b' # bs', h''))))"

text \<open>The allocator used when no pool is set: \<open>Allocator::alloc\<close>, \<open>Allocator::free\<close>.\<close>

definition Allocator_alloc :: "u32 \<Rightarrow> heap \<times> unit \<Rightarrow> (nat \<times> heap \<times> unit) option" where
  "Allocator_alloc capacity = (\<lambda>(h, u).
     case heap_new (unat capacity) h of (a, h') \<Rightarrow> Some (a, h', u))"

definition Allocator_free :: "nat \<Rightarrow> u32 \<Rightarrow> heap \<times> unit \<Rightarrow> (heap \<times> unit) option" where
  "Allocator_free buffer capacity = (\<lambda>(h, u).
     case heap_delete buffer h of None \<Rightarrow> None | Some h' \<Rightarrow> Some (h', u))"

text \<open>What a buffer does with them (address 0 stands for \<open>&_Empty\<close>): constructor and destructor.\<close>

definition Buffer_acquire ::
  "(u32 \<Rightarrow> heap \<times> 's \<Rightarrow> (nat \<times> heap \<times> 's) option) \<Rightarrow> bool \<Rightarrow> u32 \<Rightarrow> heap \<times> 's
    \<Rightarrow> (u32 \<times> nat \<times> heap \<times> 's) option" where
  "Buffer_acquire alloc locked sz = (\<lambda>(h, s).
     case Alloc locked sz of
       (n, Empty_Static) \<Rightarrow> Some (n, 0, h, s)
     | (n, New_Char) \<Rightarrow> (case heap_new (unat n) h of (a, h') \<Rightarrow> Some (n, a, h', s))
     | (n, Get_Alloc) \<Rightarrow> map_option (\<lambda>(a, h', s'). (n, a, h', s')) (alloc n (h, s)))"

definition Buffer_release ::
  "(nat \<Rightarrow> u32 \<Rightarrow> heap \<times> 's \<Rightarrow> (heap \<times> 's) option) \<Rightarrow> bool \<Rightarrow> nat \<Rightarrow> u32 \<Rightarrow> heap \<times> 's
    \<Rightarrow> (heap \<times> 's) option" where
  "Buffer_release free locked a sz = (\<lambda>(h, s).
     case Free locked (a = 0) sz of
       Free_Nothing \<Rightarrow> Some (h, s)
     | Delete_Char \<Rightarrow> map_option (\<lambda>h'. (h', s)) (heap_delete a h)
     | Get_Free \<Rightarrow> free a sz (h, s))"

section \<open>Sizes are rounded to the least power of two\<close>

lemma window_double:
  "(\<exists>j. j < s \<and> P (n + j)) \<or> (\<exists>j. j < s \<and> P (n + s + j)) \<longleftrightarrow> (\<exists>j. j < 2 * s \<and> P (n + j :: nat))"
  (is "?L \<longleftrightarrow> ?R")
proof
  assume ?L
  then show ?R
  proof
    assume "\<exists>j. j < s \<and> P (n + j)"
    then obtain j where "j < s" "P (n + j)" by blast
    then show ?R by (intro exI [of _ j]) simp
  next
    assume "\<exists>j. j < s \<and> P (n + s + j)"
    then obtain j where "j < s" "P (n + (s + j))" by (auto simp: add.assoc)
    then show ?R by (intro exI [of _ "s + j"]) simp
  qed
next
  assume ?R
  then obtain j where j: "j < 2 * s" "P (n + j)" by blast
  show ?L
  proof (cases "j < s")
    case True
    with j show ?thesis by blast
  next
    case False
    then have "n + j = n + s + (j - s)" "j - s < s" using j by simp_all
    with j show ?thesis by metis
  qed
qed

lemma smear_step:
  fixes x y :: u32
  assumes "\<And>n. bit y n \<longleftrightarrow> (\<exists>j. j < s \<and> bit x (n + j))"
  shows "bit (y OR drop_bit s y) n \<longleftrightarrow> (\<exists>j. j < 2 * s \<and> bit x (n + j))"
  using window_double [of s "bit x" n] by (simp add: bit_simps assms add.commute)

definition smear :: "u32 \<Rightarrow> u32" where
  "smear c =
     (let c = c OR drop_bit 1 c; c = c OR drop_bit 2 c; c = c OR drop_bit 4 c;
          c = c OR drop_bit 8 c in c OR drop_bit 16 c)"

lemma bit_smear: "bit (smear x) n \<longleftrightarrow> (\<exists>m. n \<le> m \<and> bit x m)"
proof -
  have s0: "bit x n \<longleftrightarrow> (\<exists>j. j < 1 \<and> bit x (n + j))" for n by simp
  note s1 = smear_step [OF s0, simplified]
  note s2 = smear_step [OF s1, simplified]
  note s4 = smear_step [OF s2, simplified]
  note s8 = smear_step [OF s4, simplified]
  note s16 = smear_step [OF s8, simplified]
  have "bit (smear x) n \<longleftrightarrow> (\<exists>j. j < 32 \<and> bit x (n + j))"
    by (simp add: smear_def Let_def s16)
  also have "\<dots> \<longleftrightarrow> (\<exists>m. n \<le> m \<and> bit x m)"
  proof
    assume "\<exists>m. n \<le> m \<and> bit x m"
    then obtain m where "n \<le> m" "bit x m" by blast
    moreover from this have "m < 32" using bit_imp_le_length [of x m] by simp
    ultimately show "\<exists>j. j < 32 \<and> bit x (n + j)" by (intro exI [of _ "m - n"]) simp
  qed (auto intro: le_add1)
  finally show ?thesis .
qed

lemma smear_mask:
  assumes "bit x n" "\<And>m. bit x m \<Longrightarrow> m \<le> n"
  shows "smear x = mask (Suc n)"
proof (rule bit_word_eqI)
  fix k
  assume k: "k < LENGTH(32)"
  show "bit (smear x) k \<longleftrightarrow> bit (mask (Suc n) :: u32) k"
    using assms k by (auto simp: bit_smear bit_simps less_Suc_eq_le intro: le_trans)
qed

lemma upper_pow2_smear: "upper_pow2 sz = (if smear (sz - 1) + 1 = 0 then sz else smear (sz - 1) + 1)"
  by (simp add: upper_pow2_def smear_def Let_def)

lemma upper_pow2_spec:
  assumes "1 < unat sz" "unat sz \<le> 2 ^ 31"
  shows "\<exists>k\<le>31. unat (upper_pow2 sz) = 2 ^ k \<and> unat sz \<le> 2 ^ k \<and> 2 ^ k < 2 * unat sz"
proof -
  have u: "unat (sz - 1) = unat sz - 1" using assms by (metis One_nat_def unat_1 unat_sub_if' less_imp_le)
  then have "sz - 1 \<noteq> 0" using assms by (metis unat_0 zero_less_diff less_numeral_extra(3))
  then obtain n where n: "n < 32" "bit (sz - 1) n" "\<And>m. bit (sz - 1) m \<Longrightarrow> m \<le> n" by (rule top_bit) blast
  have b: "2 ^ n \<le> unat sz - 1" "unat sz - 1 < 2 ^ Suc n" using top_bit_bounds [OF n(2,3)] u by auto
  have "n < 31"
  proof (rule ccontr)
    assume "\<not> n < 31"
    then have "(2::nat) ^ 31 \<le> 2 ^ n" by (intro power_increasing) auto
    then show False using b assms by simp
  qed
  have "smear (sz - 1) + 1 = 2 ^ Suc n"
    by (simp only: smear_mask [OF n(2,3)] mask_eq_exp_minus_1) simp
  moreover have un: "unat (2 ^ Suc n :: u32) = 2 ^ Suc n"
    using \<open>n < 31\<close> by (intro unat_exp) simp
  moreover have "(2 ^ Suc n :: u32) \<noteq> 0" using un by (metis unat_0 power_not_zero zero_neq_numeral)
  ultimately have "unat (upper_pow2 sz) = 2 ^ Suc n" by (simp add: upper_pow2_smear)
  then show ?thesis using b assms \<open>n < 31\<close> by (intro exI [of _ "Suc n"]) auto
qed

lemma upper_pow2_big:
  assumes "2 ^ 31 < unat sz"
  shows "upper_pow2 sz = sz"
proof -
  have u: "unat (sz - 1) = unat sz - 1" using assms by (metis One_nat_def unat_1 unat_sub_if' less_imp_le le_less_trans one_le_numeral one_le_power)
  then have "sz - 1 \<noteq> 0" using assms by (metis unat_0 diff_is_0_eq one_le_numeral one_le_power less_le_trans not_less)
  then obtain n where n: "n < 32" "bit (sz - 1) n" "\<And>m. bit (sz - 1) m \<Longrightarrow> m \<le> n" by (rule top_bit) blast
  have b: "2 ^ n \<le> unat sz - 1" "unat sz - 1 < 2 ^ Suc n" using top_bit_bounds [OF n(2,3)] u by auto
  have "n = 31"
  proof (rule ccontr)
    assume "n \<noteq> 31"
    then have "(2::nat) ^ Suc n \<le> 2 ^ 31" using n(1) by (intro power_increasing) auto
    then show False using b assms by simp
  qed
  have "smear (sz - 1) + 1 = 2 ^ Suc n"
    by (simp only: smear_mask [OF n(2,3)] mask_eq_exp_minus_1) simp
  then show ?thesis using \<open>n = 31\<close> by (simp add: upper_pow2_smear)
qed

text \<open>
  \<open>Alloc\<close> never shrinks the size, and what it asks of the allocator (\<open>Get()->alloc\<close>) is always a
  power of two from 16 bytes to 2 GB.
\<close>

lemma Alloc_spec:
  assumes "Alloc locked sz = (n, r)"
  shows "unat sz \<le> unat n \<and> (sz \<noteq> 0 \<longrightarrow> 16 \<le> unat n) \<and>
    (r = Get_Alloc \<longrightarrow> (\<exists>k. 4 \<le> k \<and> k \<le> 31 \<and> n = 2 ^ k))"
proof (cases "sz \<le> 16")
  case True
  then have "unat sz \<le> 16" by (simp add: word_le_nat_alt)
  moreover have "(16 :: u32) = 2 ^ 4" by simp
  ultimately show ?thesis using assms True
    by (auto simp: Alloc_def unsigned_eq_0_iff split: if_splits intro!: exI [of _ 4])
next
  case False
  then have sz: "16 < unat sz" by (simp add: word_le_nat_alt not_le word_less_nat_alt)
  show ?thesis
  proof (cases "unat sz \<le> 2 ^ 31")
    case True
    then obtain k where k: "k \<le> 31" "unat (upper_pow2 sz) = 2 ^ k" "unat sz \<le> 2 ^ k"
      using upper_pow2_spec [of sz] sz by auto
    then have "(2::nat) ^ 4 < 2 ^ k" using sz by simp
    then have "4 \<le> k" by (simp only: power_strict_increasing_iff)
    moreover have "upper_pow2 sz = 2 ^ k" using k by (simp add: word_unat_eq_iff unat_exp)
    moreover have "n = upper_pow2 sz" using assms False by (auto simp: Alloc_def Let_def split: if_splits)
    ultimately show ?thesis using k sz by auto
  next
    case big: False
    then show ?thesis using assms False sz upper_pow2_big [of sz]
      by (auto simp: Alloc_def Let_def word_less_nat_alt split: if_splits)
  qed
qed

lemma pow2_test:
  fixes x :: u32
  assumes "x \<noteq> 0" "x AND (x - 1) = 0"
  shows "\<exists>k\<le>31. x = 2 ^ k"
proof -
  obtain k where k: "k < 32" "bit x k" "\<And>m. bit x m \<Longrightarrow> m \<le> k" using top_bit [OF assms(1)] by blast
  have b: "2 ^ k \<le> unat x" "unat x < 2 ^ Suc k" using top_bit_bounds [OF k(2,3)] by auto
  have "unat x = 2 ^ k"
  proof (rule ccontr)
    assume "unat x \<noteq> 2 ^ k"
    moreover have "unat (x - 1) = unat x - 1"
      using assms(1) by (metis One_nat_def Suc_leI unat_1 unat_eq_0 unat_sub_if' neq0_conv)
    ultimately have "unat (x - 1) div 2 ^ k = 1" using b by (intro div_nat_eqI) auto
    then have "bit (unat (x - 1)) k" by (simp add: bit_iff_odd)
    then have "bit (x - 1) k" by (simp add: bit_unsigned_iff)
    then have "bit (x AND (x - 1)) k" using k(2) by (simp add: bit_simps)
    then show False using assms(2) by simp
  qed
  then have "x = 2 ^ k" using k(1) by (simp add: word_unat_eq_iff unat_exp)
  then show ?thesis using k(1) by (intro exI [of _ k]) simp
qed

section \<open>The stacks keep their bookkeeping\<close>

definition buffers_ok :: "Buffers \<Rightarrow> bool" where
  "buffers_ok b \<longleftrightarrow> minSize b \<le> length (stack b) \<and>
     (length (stack b) = minSize b \<or> length (stack b) \<le> maxSize b)"

lemma buffers_ok_empty [mem]: "buffers_ok Buffers_empty"
  by (simp add: buffers_ok_def Buffers_empty_def)

lemma Buffers_pop_ok [mem]: "buffers_ok b \<Longrightarrow> Buffers_pop b = (r, b') \<Longrightarrow> buffers_ok b'"
  by (auto simp: Buffers_pop_def buffers_ok_def Let_def split: if_splits)

lemma Buffers_push_ok [mem]: "buffers_ok b \<Longrightarrow> buffers_ok (Buffers_push a b)"
  by (auto simp: Buffers_push_def buffers_ok_def Let_def)

lemma Buffers_pop_stack:
  "Buffers_pop b = (r, b') \<Longrightarrow>
   (r = None \<and> stack b = [] \<and> b' = b) \<or> (\<exists>a. r = Some a \<and> stack b = stack b' @ [a])"
  by (auto simp: Buffers_pop_def Let_def split: if_splits)

lemma stack_Buffers_push [simp]: "stack (Buffers_push a b) = stack b @ [a]"
  by (simp add: Buffers_push_def Let_def)

lemma Buffers_manage_ok:
  assumes "buffers_ok b"
  shows "\<exists>b'. Buffers_manage gc b = Some (gc @ drop (length (stack b) - minSize b) (stack b), b') \<and>
     stack b' = take (length (stack b) - minSize b) (stack b) \<and> buffers_ok b'"
proof -
  let ?m = "length (stack b) - minSize b"
  have "vector_resize ?m (vector_resize (maxSize b) (stack b)) = take ?m (stack b)"
    using assms by (auto simp: buffers_ok_def vector_resize_def min_def)
  with assms show ?thesis by (simp add: Buffers_manage_def buffers_ok_def Let_def)
qed

section \<open>Index of a size in the pool\<close>

lemma computeIndex_pow2: "4 \<le> k \<Longrightarrow> k \<le> 31 \<Longrightarrow> computeIndex (2 ^ k) = k - 4"
  by (rule list_all_uptD [where m = 4 and n = 32]) (simp_all add: computeIndex_def Let_def)

lemma computeIndex_small: "k < 4 \<Longrightarrow> 28 \<le> computeIndex (2 ^ k)"
  by (rule list_all_uptD [where m = 0 and n = 4])
     (simp_all add: computeIndex_def Let_def upt_0_numeral upt_1_numeral)

section \<open>The contract of an allocator\<close>

locale buffer_allocator =
  fixes ok :: "heap \<times> 's \<Rightarrow> bool"
    and parked :: "'s \<Rightarrow> nat set"
    and alloc :: "u32 \<Rightarrow> heap \<times> 's \<Rightarrow> (nat \<times> heap \<times> 's) option"
    and free :: "nat \<Rightarrow> u32 \<Rightarrow> heap \<times> 's \<Rightarrow> (heap \<times> 's) option"
  assumes ok_heap: "ok (h, s) \<Longrightarrow> heap_ok h"
    and parked_live: "ok (h, s) \<Longrightarrow> a \<in> parked s \<Longrightarrow> blk h a \<noteq> None"
    and ok_new: "ok (h, s) \<Longrightarrow> ok (snd (heap_new n h), s)"
    and ok_delete: "ok (h, s) \<Longrightarrow> a \<notin> parked s \<Longrightarrow> heap_delete a h = Some h' \<Longrightarrow> ok (h', s)"
    and alloc_law: "ok (h, s) \<Longrightarrow> 4 \<le> k \<Longrightarrow> k \<le> 31 \<Longrightarrow>
      \<exists>a h' s' n. alloc (2 ^ k) (h, s) = Some (a, h', s') \<and> ok (h', s') \<and> a \<noteq> 0 \<and>
        a \<notin> parked s' \<and> blk h' a = Some n \<and> 2 ^ k \<le> n \<and> (blk h a = None \<or> a \<in> parked s)"
    and free_law: "ok (h, s) \<Longrightarrow> 4 \<le> k \<Longrightarrow> k \<le> 31 \<Longrightarrow> a \<noteq> 0 \<Longrightarrow> a \<notin> parked s \<Longrightarrow>
      blk h a = Some n \<Longrightarrow> 2 ^ k \<le> n \<Longrightarrow>
      \<exists>h' s'. free a (2 ^ k) (h, s) = Some (h', s') \<and> ok (h', s')"
begin

text \<open>Memory acquired with a size is released with it, whichever of the two calls gets the lock.\<close>

lemma new_block:
  assumes "ok (h, s)"
  shows "ok (snd (heap_new n h), s) \<and> nxt h \<noteq> 0 \<and> nxt h \<notin> parked s \<and> blk h (nxt h) = None"
proof -
  have "heap_ok h" using assms by (rule ok_heap)
  then have "blk h (nxt h) = None" "nxt h \<noteq> 0" by (auto simp: heap_ok_def)
  then show ?thesis using assms parked_live ok_new by blast
qed

lemma acquired:
  assumes ok: "ok (h, s)" and acq: "Buffer_acquire alloc locked sz (h, s) = Some (n, a, h', s')"
    and nz: "sz \<noteq> 0"
  shows "ok (h', s') \<and> unat sz \<le> unat n \<and> a \<noteq> 0 \<and> a \<notin> parked s' \<and>
    (blk h a = None \<or> a \<in> parked s) \<and> (\<exists>m. blk h' a = Some m \<and> unat n \<le> m)"
proof -
  obtain r where al: "Alloc locked sz = (n, r)"
    using acq by (auto simp: Buffer_acquire_def split: prod.splits alloc_route.splits)
  have sz: "unat sz \<le> unat n" using Alloc_spec [OF al] by simp
  show ?thesis
  proof (cases r)
    case Empty_Static
    then show ?thesis using al nz by (auto simp: Alloc_def Let_def split: if_splits)
  next
    case New_Char
    then show ?thesis
      using acq al sz new_block [OF ok, of "unat n"] by (auto simp: Buffer_acquire_def heap_new_def)
  next
    case Get_Alloc
    then obtain k where "4 \<le> k" "k \<le> 31" "n = 2 ^ k" using Alloc_spec [OF al] by auto
    then show ?thesis
      using acq al sz Get_Alloc alloc_law [OF ok, of k]
      by (fastforce simp: Buffer_acquire_def unat_exp)
  qed
qed

lemma acquire_returns: "ok (h, s) \<Longrightarrow> \<exists>n a h' s'. Buffer_acquire alloc locked sz (h, s) = Some (n, a, h', s')"
proof (cases "Alloc locked sz")
  case (Pair n r)
  assume ok: "ok (h, s)"
  show ?thesis
  proof (cases r)
    case Get_Alloc
    then obtain k where "4 \<le> k" "k \<le> 31" "n = 2 ^ k" using Alloc_spec [OF Pair] by auto
    then show ?thesis using Pair Get_Alloc alloc_law [OF ok, of k] by (auto simp: Buffer_acquire_def)
  qed (use Pair in \<open>simp_all add: Buffer_acquire_def heap_new_def\<close>)
qed

lemma released:
  assumes ok: "ok (h, s)" and a: "a \<noteq> 0" "a \<notin> parked s" "blk h a = Some m" "unat sz \<le> m"
    and sz: "16 \<le> unat sz"
  shows "\<exists>h' s'. Buffer_release free locked a sz (h, s) = Some (h', s') \<and> ok (h', s')"
proof (cases "Free locked (a = 0) sz")
  case Free_Nothing
  then show ?thesis using ok by (simp add: Buffer_release_def)
next
  case Delete_Char
  moreover obtain h' where "heap_delete a h = Some h'" using a by (simp add: heap_delete_def)
  ultimately show ?thesis using ok_delete [OF ok a(2)] by (simp add: Buffer_release_def)
next
  case Get_Free
  then obtain k where k: "k \<le> 31" "sz = 2 ^ k"
    using pow2_test [of sz] by (auto simp: Free_def split: if_splits)
  then have "(2::nat) ^ 4 \<le> 2 ^ k" using sz by (simp add: unat_exp)
  then have "4 \<le> k" by (simp only: power_increasing_iff)
  then show ?thesis
    using Get_Free k a free_law [OF ok, of k a m] by (simp add: Buffer_release_def unat_exp)
qed

end

section \<open>The plain allocator keeps the contract\<close>

lemma heap_new_ok: "heap_ok h \<Longrightarrow> heap_ok (snd (heap_new n h))"
  by (auto simp: heap_ok_def heap_new_def split: if_splits intro: less_SucI)

lemma heap_delete_ok: "heap_ok h \<Longrightarrow> heap_delete a h = Some h' \<Longrightarrow> heap_ok h'"
  by (auto simp: heap_ok_def heap_delete_def split: option.splits if_splits)

definition Allocator_ok :: "heap \<times> unit \<Rightarrow> bool" where
  "Allocator_ok = (\<lambda>(h, u). heap_ok h)"

interpretation plain: buffer_allocator Allocator_ok "\<lambda>_. {}" Allocator_alloc Allocator_free
proof
  fix h and s :: unit and k a n
  show "Allocator_ok (h, s) \<Longrightarrow> \<exists>a h' s' n. Allocator_alloc (2 ^ k) (h, s) = Some (a, h', s') \<and>
      Allocator_ok (h', s') \<and> a \<noteq> 0 \<and> a \<notin> {} \<and> blk h' a = Some n \<and> 2 ^ k \<le> n \<and> (blk h a = None \<or> a \<in> {})"
    if "4 \<le> k" "k \<le> 31"
    using that heap_new_ok [of h "2 ^ k"]
    by (auto simp: Allocator_alloc_def Allocator_ok_def heap_new_def unat_exp heap_ok_def)
  show "Allocator_ok (h, s) \<Longrightarrow> blk h a = Some n \<Longrightarrow>
      \<exists>h' s'. Allocator_free a (2 ^ k) (h, s) = Some (h', s') \<and> Allocator_ok (h', s')"
    using heap_delete_ok [of h a] by (auto simp: Allocator_free_def Allocator_ok_def heap_delete_def)
qed (auto simp: Allocator_ok_def intro: heap_new_ok heap_delete_ok)

section \<open>The pool keeps the contract\<close>

definition parked_in :: "pool \<Rightarrow> nat list" where
  "parked_in p = concat (map stack p)"

definition stack_fits :: "heap \<Rightarrow> nat \<Rightarrow> Buffers \<Rightarrow> bool" where
  "stack_fits h i b \<longleftrightarrow> buffers_ok b \<and> (\<forall>a \<in> set (stack b). \<exists>n. blk h a = Some n \<and> 2 ^ (i + 4) \<le> n)"

definition BufferPool_ok :: "heap \<times> pool \<Rightarrow> bool" where
  "BufferPool_ok = (\<lambda>(h, p).
     heap_ok h \<and> length p = 28 \<and> distinct (parked_in p) \<and> (\<forall>i < 28. stack_fits h i (p ! i)))"

lemma pool_split:
  assumes "i < length p"
  obtains xs ys where "p = xs @ p ! i # ys" "length xs = i" "\<And>b. p[i := b] = xs @ b # ys"
  using assms id_take_nth_drop [of i p] upd_conv_take_nth_drop [of i p]
  by (metis length_take min.absorb4)

lemma stack_fits_mono:
  "stack_fits h i b \<Longrightarrow> (\<And>a. a \<in> set (stack b) \<Longrightarrow> blk h' a = blk h a) \<Longrightarrow> stack_fits h' i b"
  by (auto simp: stack_fits_def)

lemma parked_nth: "i < length p \<Longrightarrow> a \<in> set (stack (p ! i)) \<Longrightarrow> a \<in> set (parked_in p)"
  by (auto simp: parked_in_def)

lemma pool_parked_live: "BufferPool_ok (h, p) \<Longrightarrow> a \<in> set (parked_in p) \<Longrightarrow> blk h a \<noteq> None"
  by (fastforce simp: BufferPool_ok_def parked_in_def stack_fits_def in_set_conv_nth)

lemma pool_heap_change:
  assumes "BufferPool_ok (h, p)" "heap_ok h'" "\<And>a. a \<in> set (parked_in p) \<Longrightarrow> blk h' a = blk h a"
  shows "BufferPool_ok (h', p)"
proof -
  have "stack_fits h' i (p ! i)" if "i < 28" for i
    by (rule stack_fits_mono [of h]) (use assms that parked_nth in \<open>auto simp: BufferPool_ok_def\<close>)
  then show ?thesis using assms by (simp add: BufferPool_ok_def)
qed

lemma pool_ok_new: "BufferPool_ok (h, p) \<Longrightarrow> BufferPool_ok (snd (heap_new n h), p)"
proof (rule pool_heap_change)
  assume ok: "BufferPool_ok (h, p)"
  then have "heap_ok h" by (simp add: BufferPool_ok_def)
  then show "heap_ok (snd (heap_new n h))" by (rule heap_new_ok)
  fix a
  assume "a \<in> set (parked_in p)"
  with pool_parked_live [OF ok] have "a \<noteq> nxt h" using \<open>heap_ok h\<close> by (auto simp: heap_ok_def)
  then show "blk (snd (heap_new n h)) a = blk h a" by (simp add: heap_new_def)
qed

lemma pool_ok_delete:
  assumes "BufferPool_ok (h, p)" "a \<notin> set (parked_in p)" "heap_delete a h = Some h'"
  shows "BufferPool_ok (h', p)"
proof (rule pool_heap_change [OF assms(1)])
  show "heap_ok h'" using assms heap_delete_ok by (auto simp: BufferPool_ok_def)
  show "blk h' b = blk h b" if "b \<in> set (parked_in p)" for b
    using that assms by (auto simp: heap_delete_def split: option.splits)
qed

lemma pool_pop:
  assumes ok: "BufferPool_ok (h, p)" and i: "i < 28" and pop: "Buffers_pop (p ! i) = (r, b)"
  shows "BufferPool_ok (h, p[i := b]) \<and>
    (\<forall>a. r = Some a \<longrightarrow> a \<in> set (parked_in p) \<and> a \<notin> set (parked_in (p[i := b])) \<and>
       (\<exists>n. blk h a = Some n \<and> 2 ^ (i + 4) \<le> n))"
proof -
  have len: "length p = 28" and fits: "stack_fits h i (p ! i)" using ok i by (auto simp: BufferPool_ok_def)
  then obtain xs ys where p: "p = xs @ p ! i # ys" and u: "p[i := b] = xs @ b # ys"
    using pool_split [of i p] i by metis
  have d: "distinct (parked_in (xs @ p ! i # ys))" using ok p by (simp add: BufferPool_ok_def)
  have b_ok: "buffers_ok b" using fits pop Buffers_pop_ok by (auto simp: stack_fits_def)
  note cases = Buffers_pop_stack [OF pop]
  have "set (stack b) \<subseteq> set (stack (p ! i))" using cases by auto
  then have "stack_fits h i b" using fits b_ok by (auto simp: stack_fits_def)
  moreover have "distinct (parked_in (p[i := b]))"
    using d cases u by (auto simp: parked_in_def)
  ultimately have "BufferPool_ok (h, p[i := b])"
    using ok len i by (auto simp: BufferPool_ok_def nth_list_update)
  moreover have "a \<in> set (parked_in p) \<and> a \<notin> set (parked_in (p[i := b])) \<and>
       (\<exists>n. blk h a = Some n \<and> 2 ^ (i + 4) \<le> n)" if r: "r = Some a" for a
  proof -
    have s: "stack (p ! i) = stack b @ [a]" using cases r by auto
    then have "a \<notin> set (parked_in (xs @ b # ys))" using d by (auto simp: parked_in_def)
    moreover have "a \<in> set (parked_in p)" using s i len by (intro parked_nth [of i]) auto
    ultimately show ?thesis using fits s u by (auto simp: stack_fits_def)
  qed
  ultimately show ?thesis by blast
qed

lemma pool_push:
  assumes ok: "BufferPool_ok (h, p)" and i: "i < 28" and a: "a \<notin> set (parked_in p)"
    and n: "blk h a = Some n" "2 ^ (i + 4) \<le> n"
  shows "BufferPool_ok (h, p[i := Buffers_push a (p ! i)])"
proof -
  have len: "length p = 28" and fits: "stack_fits h i (p ! i)" using ok i by (auto simp: BufferPool_ok_def)
  then obtain xs ys where p: "p = xs @ p ! i # ys"
    and u: "p[i := Buffers_push a (p ! i)] = xs @ Buffers_push a (p ! i) # ys"
    using pool_split [of i p] i by metis
  have d: "distinct (parked_in (xs @ p ! i # ys))" "a \<notin> set (parked_in (xs @ p ! i # ys))"
    using ok p a by (simp_all add: BufferPool_ok_def)
  have "stack_fits h i (Buffers_push a (p ! i))"
    using fits n Buffers_push_ok by (auto simp: stack_fits_def)
  moreover have "distinct (parked_in (p[i := Buffers_push a (p ! i)]))"
    using d u by (auto simp: parked_in_def)
  ultimately show ?thesis using ok len i by (auto simp: BufferPool_ok_def nth_list_update)
qed

lemma pool_alloc_law:
  assumes ok: "BufferPool_ok (h, p)" and k: "4 \<le> k" "k \<le> 31"
  shows "\<exists>a h' p' n. BufferPool_alloc (2 ^ k) (h, p) = Some (a, h', p') \<and> BufferPool_ok (h', p') \<and>
    a \<noteq> 0 \<and> a \<notin> set (parked_in p') \<and> blk h' a = Some n \<and> 2 ^ k \<le> n \<and>
    (blk h a = None \<or> a \<in> set (parked_in p))"
proof -
  let ?i = "k - 4"
  have i: "?i < 28" and ki: "?i + 4 = k" using k by auto
  have len: "length p = 28" and hok: "heap_ok h" using ok by (auto simp: BufferPool_ok_def)
  obtain r b where pop: "Buffers_pop (p ! ?i) = (r, b)" by fastforce
  note law = pool_pop [OF ok i pop]
  show ?thesis
  proof (cases r)
    case None
    have fresh: "nxt h \<noteq> 0" "blk h (nxt h) = None" using hok by (auto simp: heap_ok_def)
    then have "nxt h \<notin> set (parked_in (p[?i := b]))" using pool_parked_live law by blast
    moreover have "BufferPool_ok (snd (heap_new (2 ^ k) h), p[?i := b])" using law pool_ok_new by blast
    ultimately show ?thesis using None pop fresh i k len
      by (auto simp: BufferPool_alloc_def computeIndex_pow2 heap_new_def unat_exp Let_def)
  next
    case (Some a)
    then have a: "a \<in> set (parked_in p)" "a \<notin> set (parked_in (p[?i := b]))"
      "\<exists>n. blk h a = Some n \<and> 2 ^ k \<le> n" using law ki by auto
    then have "a \<noteq> 0" using hok by (auto simp: heap_ok_def)
    then show ?thesis using Some pop a law i k len
      by (auto simp: BufferPool_alloc_def computeIndex_pow2 Let_def)
  qed
qed

lemma pool_free_law:
  assumes ok: "BufferPool_ok (h, p)" and k: "4 \<le> k" "k \<le> 31"
    and a: "a \<notin> set (parked_in p)" "blk h a = Some n" "2 ^ k \<le> n"
  shows "\<exists>h' p'. BufferPool_free a (2 ^ k) (h, p) = Some (h', p') \<and> BufferPool_ok (h', p')"
proof -
  have "k - 4 < 28" "length p = 28" using k ok by (auto simp: BufferPool_ok_def)
  then show ?thesis
    using pool_push [OF ok, of "k - 4" a n] a k
    by (auto simp: BufferPool_free_def computeIndex_pow2 Let_def)
qed

interpretation pool: buffer_allocator BufferPool_ok "\<lambda>p. set (parked_in p)" BufferPool_alloc BufferPool_free
proof (unfold_locales, goal_cases)
  case (1 h p)
  then show ?case by (simp add: BufferPool_ok_def)
next
  case (2 h p a)
  then show ?case by (rule pool_parked_live)
next
  case (3 h p n)
  then show ?case by (rule pool_ok_new)
next
  case (4 h p a h')
  then show ?case by (rule pool_ok_delete)
next
  case (5 h p k)
  then show ?case by (rule pool_alloc_law)
next
  case (6 h p k a n)
  then show ?case by (intro pool_free_law) simp_all
qed

section \<open>The collector\<close>

lemma heap_delete_all_live:
  "distinct as \<Longrightarrow> (\<And>a. a \<in> set as \<Longrightarrow> blk h a \<noteq> None) \<Longrightarrow>
   \<exists>h'. heap_delete_all as h = Some h' \<and> nxt h' = nxt h \<and>
     (\<forall>b. blk h' b = (if b \<in> set as then None else blk h b))"
proof (induction as arbitrary: h)
  case (Cons a as)
  obtain n where n: "blk h a = Some n" using Cons.prems(2) [of a] by auto
  let ?h = "h\<lparr>blk := (blk h)(a := None)\<rparr>"
  have "\<exists>h'. heap_delete_all as ?h = Some h' \<and> nxt h' = nxt ?h \<and>
     (\<forall>b. blk h' b = (if b \<in> set as then None else blk ?h b))"
    by (rule Cons.IH) (use Cons.prems in auto)
  then show ?case using n Cons.prems by (auto simp: heap_delete_def)
qed simp

text \<open>One collection: what each stack keeps and what it gives back.\<close>

lemma BufferPool_collect_spec:
  "distinct (concat (map stack p)) \<Longrightarrow> \<forall>b \<in> set p. buffers_ok b \<Longrightarrow>
   \<forall>a \<in> set (concat (map stack p)). blk h a \<noteq> None \<Longrightarrow>
   \<exists>p' h'. BufferPool_collect p h = Some (p', h') \<and> nxt h' = nxt h \<and>
     map stack p' = map (\<lambda>b. take (length (stack b) - minSize b) (stack b)) p \<and>
     (\<forall>b \<in> set p'. buffers_ok b) \<and>
     (\<forall>a. blk h' a = (if a \<in> set (concat (map (\<lambda>b. drop (length (stack b) - minSize b) (stack b)) p))
                     then None else blk h a))"
proof (induction p arbitrary: h)
  case (Cons b p)
  let ?gc = "drop (length (stack b) - minSize b) (stack b)"
  obtain b' where b': "Buffers_manage [] b = Some (?gc, b')"
      "stack b' = take (length (stack b) - minSize b) (stack b)" "buffers_ok b'"
    using Buffers_manage_ok [of b "[]"] Cons.prems(2) by auto
  have "distinct ?gc" "\<And>a. a \<in> set ?gc \<Longrightarrow> blk h a \<noteq> None"
    using Cons.prems by (auto dest: in_set_dropD)
  then obtain h1 where h1: "heap_delete_all ?gc h = Some h1" "nxt h1 = nxt h"
      "\<And>a. blk h1 a = (if a \<in> set ?gc then None else blk h a)"
    using heap_delete_all_live [of ?gc h] by auto
  have "\<exists>p' h'. BufferPool_collect p h1 = Some (p', h') \<and> nxt h' = nxt h1 \<and>
     map stack p' = map (\<lambda>b. take (length (stack b) - minSize b) (stack b)) p \<and>
     (\<forall>b \<in> set p'. buffers_ok b) \<and>
     (\<forall>a. blk h' a = (if a \<in> set (concat (map (\<lambda>b. drop (length (stack b) - minSize b) (stack b)) p))
                     then None else blk h1 a))"
    by (rule Cons.IH) (use Cons.prems h1 in \<open>auto dest: in_set_dropD\<close>)
  then show ?case using b' h1 by auto
qed auto

lemma pool_ok_stacks:
  assumes "BufferPool_ok (h, p)"
  shows "distinct (concat (map stack p))" "\<forall>b \<in> set p. buffers_ok b"
    "\<forall>a \<in> set (concat (map stack p)). blk h a \<noteq> None"
  using assms pool_parked_live [OF assms]
  by (auto simp: BufferPool_ok_def parked_in_def stack_fits_def in_set_conv_nth)

lemma take_drop_parts:
  assumes "distinct (concat (map f xs))"
  shows "distinct (concat (map (\<lambda>b. take (m b) (f b)) xs))"
    "set (concat (map (\<lambda>b. take (m b) (f b)) xs)) \<inter> set (concat (map (\<lambda>b. drop (m b) (f b)) xs)) = {}"
    "set (concat (map (\<lambda>b. drop (m b) (f b)) xs)) \<subseteq> set (concat (map f xs))"
proof -
  have sub: "set (concat (map (\<lambda>b. take (m b) (f b)) xs)) \<subseteq> set (concat (map f xs))"
      "set (concat (map (\<lambda>b. drop (m b) (f b)) xs)) \<subseteq> set (concat (map f xs))" for xs
    by (auto dest: in_set_takeD in_set_dropD)
  show "set (concat (map (\<lambda>b. drop (m b) (f b)) xs)) \<subseteq> set (concat (map f xs))" by (rule sub)
  have both: "distinct (concat (map (\<lambda>b. take (m b) (f b)) xs)) \<and>
      set (concat (map (\<lambda>b. take (m b) (f b)) xs)) \<inter> set (concat (map (\<lambda>b. drop (m b) (f b)) xs)) = {}"
    using assms
  proof (induction xs)
    case (Cons x xs)
    have d: "distinct (f x)" "distinct (concat (map f xs))" "set (f x) \<inter> set (concat (map f xs)) = {}"
      using Cons.prems by auto
    have td: "set (take (m x) (f x)) \<subseteq> set (f x)" "set (drop (m x) (f x)) \<subseteq> set (f x)"
        "set (take (m x) (f x)) \<inter> set (drop (m x) (f x)) = {}"
      using d(1) by (auto intro: set_take_subset set_drop_subset dest: in_set_takeD in_set_dropD
          simp: set_take_disj_set_drop_if_distinct)
    note IH = Cons.IH [OF d(2)]
    have "distinct (take (m x) (f x))" using d(1) by simp
    moreover have "set (take (m x) (f x)) \<inter> set (concat (map (\<lambda>b. take (m b) (f b)) xs)) = {}"
      using td sub [of xs] d(3) by blast
    moreover have "set (take (m x) (f x)) \<inter> set (concat (map (\<lambda>b. drop (m b) (f b)) xs)) = {}"
      using td sub [of xs] d(3) by blast
    moreover have "set (concat (map (\<lambda>b. take (m b) (f b)) xs)) \<inter> set (drop (m x) (f x)) = {}"
      using td sub [of xs] d(3) by blast
    ultimately show ?case using IH td(3)
      by (simp only: list.map concat.simps distinct_append set_append Int_Un_distrib Int_Un_distrib2 Un_empty)
  qed simp
  then show "distinct (concat (map (\<lambda>b. take (m b) (f b)) xs))" by blast
  from both show "set (concat (map (\<lambda>b. take (m b) (f b)) xs)) \<inter> set (concat (map (\<lambda>b. drop (m b) (f b)) xs)) = {}"
    by blast
qed

section \<open>Properties\<close>

text \<open>
  for a request of more than 16 bytes and at most 2 GB, \<open>Allocator::Alloc\<close> replaces the size by
  the least power of two that is not smaller, whether or not it gets the lock.
\<close>

theorem Alloc_least_power_of_two:
  assumes "16 < unat sz" "unat sz \<le> 2 ^ 31"
  shows "\<exists>k\<le>31. unat (fst (Alloc locked sz)) = 2 ^ k \<and> unat sz \<le> 2 ^ k \<and> 2 ^ k < 2 * unat sz"
proof -
  have "\<not> sz \<le> 16" using assms(1) by (simp add: word_le_nat_alt)
  then have "fst (Alloc locked sz) = upper_pow2 sz" by (simp add: Alloc_def Let_def)
  with upper_pow2_spec [of sz] assms show ?thesis by simp
qed

theorem Alloc_least_power_of_two_witness:
  "\<exists>k\<le>31. unat (fst (Alloc True 100)) = 2 ^ k \<and> 100 \<le> (2::nat) ^ k \<and> (2::nat) ^ k < 200"
  using Alloc_least_power_of_two [of 100 True] by simp

text \<open>
  C4: with the pool installed, acquiring memory for any non-zero size and releasing it with the
  size \<open>Alloc\<close> gave never fails, whichever of the two calls finds the lock taken: the block is at
  least as large as asked, was not in use, and the pool stays well formed (no block pooled twice,
  every pooled block live and large enough for the stack it is in).
\<close>

theorem pool_acquire_release:
  assumes "BufferPool_ok (h, p)" "sz \<noteq> 0"
  shows "\<exists>n a h1 p1 h2 p2. Buffer_acquire BufferPool_alloc l1 sz (h, p) = Some (n, a, h1, p1) \<and>
    unat sz \<le> unat n \<and> (\<exists>m. blk h1 a = Some m \<and> unat n \<le> m) \<and>
    (blk h a = None \<or> a \<in> set (parked_in p)) \<and> a \<notin> set (parked_in p1) \<and>
    Buffer_release BufferPool_free l2 a n (h1, p1) = Some (h2, p2) \<and> BufferPool_ok (h2, p2)"
proof -
  obtain n a h1 p1 where acq: "Buffer_acquire BufferPool_alloc l1 sz (h, p) = Some (n, a, h1, p1)"
    using pool.acquire_returns [OF assms(1)] by blast
  obtain r where "Alloc l1 sz = (n, r)"
    using acq by (auto simp: Buffer_acquire_def split: prod.splits alloc_route.splits)
  then have n: "16 \<le> unat n" using Alloc_spec assms(2) by blast
  note got = pool.acquired [OF assms(1) acq assms(2)]
  then obtain m where m: "blk h1 a = Some m" "unat n \<le> m" by blast
  then obtain h2 p2 where "Buffer_release BufferPool_free l2 a n (h1, p1) = Some (h2, p2)"
      "BufferPool_ok (h2, p2)"
    using pool.released [of h1 p1 a m n l2] got n by auto
  with acq got m show ?thesis by auto
qed

lemma BufferPool_init_ok: "BufferPool_ok (\<lparr>nxt = 1, blk = Map.empty\<rparr>, BufferPool_init)"
  by (simp add: BufferPool_ok_def heap_ok_def BufferPool_init_def parked_in_def Buffers_empty_def
      stack_fits_def buffers_ok_def)

theorem pool_acquire_release_witness:
  "\<exists>n a h1 p1. Buffer_acquire BufferPool_alloc True 20 (\<lparr>nxt = 1, blk = Map.empty\<rparr>, BufferPool_init)
     = Some (n, a, h1, p1) \<and> unat (20 :: u32) \<le> unat n"
  using pool_acquire_release [OF BufferPool_init_ok, of 20 True True] by force

text \<open>
  one pass of the pool's collector thread over a well-formed pool never fails (no block is
  deleted twice, no stack is read out of bounds): every stack keeps the blocks below its low-water
  mark \<open>size - minSize\<close>, exactly the others are deleted, and the pool stays well formed.
\<close>

theorem pool_collect_safe:
  assumes ok: "BufferPool_ok (h, p)"
  shows "\<exists>p' h'. BufferPool_collect p h = Some (p', h') \<and> BufferPool_ok (h', p') \<and>
    map stack p' = map (\<lambda>b. take (length (stack b) - minSize b) (stack b)) p \<and>
    (\<forall>a. a \<notin> set (parked_in p) \<longrightarrow> blk h' a = blk h a)"
proof -
  from BufferPool_collect_spec [OF pool_ok_stacks [OF ok]]
  obtain p' h' where c: "BufferPool_collect p h = Some (p', h')" "nxt h' = nxt h"
      "map stack p' = map (\<lambda>b. take (length (stack b) - minSize b) (stack b)) p"
      "\<forall>b \<in> set p'. buffers_ok b"
      and blk': "\<forall>a. blk h' a = (if a \<in> set (concat (map (\<lambda>b. drop (length (stack b) - minSize b) (stack b)) p))
                     then None else blk h a)"
    by (elim exE conjE) (rule that)
  note blk = blk' [rule_format]
  have len: "length p' = 28" using arg_cong [OF c(3), of length] ok by (simp add: BufferPool_ok_def)
  have nth: "stack (p' ! i) = take (length (stack (p ! i)) - minSize (p ! i)) (stack (p ! i))"
    if "i < 28" for i
    using that c(3) len ok nth_map [of i p' stack] by (simp add: BufferPool_ok_def)
  note td = take_drop_parts [OF pool_ok_stacks(1) [OF ok], of "\<lambda>b. length (stack b) - minSize b"]
  have parked': "parked_in p' = concat (map (\<lambda>b. take (length (stack b) - minSize b) (stack b)) p)"
    using c(3) by (simp add: parked_in_def)
  have kept: "blk h' a = blk h a" if "a \<in> set (parked_in p') \<or> a \<notin> set (parked_in p)" for a
  proof -
    have "a \<notin> set (concat (map (\<lambda>b. drop (length (stack b) - minSize b) (stack b)) p))"
      using that td(2,3) unfolding parked' unfolding parked_in_def by blast
    then show ?thesis by (simp only: blk if_False)
  qed
  have "heap_ok h'" using ok c(2) blk by (auto simp: BufferPool_ok_def heap_ok_def split: if_splits)
  moreover have "stack_fits h' i (p' ! i)" if i: "i < 28" for i
  proof -
    have "stack_fits h i (p ! i)" using ok i by (simp add: BufferPool_ok_def)
    moreover have "p' ! i \<in> set p'" using i len by simp
    moreover have "blk h' a = blk h a" if "a \<in> set (stack (p' ! i))" for a
      using that i len by (intro kept disjI1 parked_nth) auto
    ultimately show ?thesis
      using c(4) nth [OF i] by (auto simp: stack_fits_def dest: in_set_takeD)
  qed
  moreover have "distinct (parked_in p')" using td(1) parked' by simp
  ultimately have "BufferPool_ok (h', p')" using len by (simp add: BufferPool_ok_def)
  with c kept show ?thesis by blast
qed

lemma one_parked_ok:
  "BufferPool_ok (\<lparr>nxt = 2, blk = [1 \<mapsto> 16]\<rparr>, BufferPool_init[0 := Buffers_push 1 (BufferPool_init ! 0)])"
proof (rule pool_push [where n = 16])
  show "BufferPool_ok (\<lparr>nxt = 2, blk = [1 \<mapsto> 16]\<rparr>, BufferPool_init)"
    by (simp add: BufferPool_ok_def heap_ok_def BufferPool_init_def parked_in_def Buffers_empty_def
        stack_fits_def buffers_ok_def)
qed (simp_all add: parked_in_def BufferPool_init_def Buffers_empty_def)

theorem pool_collect_safe_witness:
  "\<exists>p' h'. BufferPool_collect (BufferPool_init[0 := Buffers_push 1 (BufferPool_init ! 0)])
      \<lparr>nxt = 2, blk = [1 \<mapsto> 16]\<rparr> = Some (p', h') \<and> BufferPool_ok (h', p')"
  using pool_collect_safe [OF one_parked_ok] by blast

end
