(* ===== verification/Buffers.thy ===== *)
theory Buffers
  imports Allocator
begin

text \<open>
  Mona/Memory/Buffer.cpp, Buffer.h: the growable byte buffer. \<open>bmem\<close> is the memory \<open>_data - _offset\<close>
  points to (None when \<open>_data\<close> is NULL, the null buffer), \<open>boff\<close>, \<open>bsize\<close>, \<open>bcap\<close> are \<open>_offset\<close>,
  \<open>_size\<close>, \<open>_capacity\<close>, and \<open>bown\<close> says that \<open>_buffer\<close> is not NULL. The code moves \<open>_data\<close> and
  \<open>_offset\<close> together, so \<open>_data\<close> is position \<open>boff\<close> of the memory. A cell is None before it is
  first written. The \<open>uint32_t\<close> fields are numbers below \<open>2 ^ 32\<close>, and the one sum the code does
  not guard (\<open>_size + size\<close> in \<open>append\<close>) wraps. A \<open>FATAL_ERROR\<close> and an access out of the memory
  are values of \<open>fault\<close>.
  The lemmas give the invariant of the fields and the contents after every operation, as operations
  on the list of cells between \<open>data()\<close> and \<open>data() + size()\<close>.
\<close>

datatype fault = Static_Exceeded | Out_Of_Bounds

type_synonym cell = "byte option"

record buffer =
  bmem :: "cell list option"
  boff :: nat
  bsize :: nat
  bcap :: nat
  bown :: bool

definition content :: "buffer \<Rightarrow> cell list" where
  "content b = (case bmem b of None \<Rightarrow> [] | Some m \<Rightarrow> take (bsize b) (drop (boff b) m))"

section \<open>Memory accesses\<close>

definition mem_store :: "nat \<Rightarrow> cell list \<Rightarrow> cell list \<Rightarrow> fault + cell list" where
  "mem_store pos cs m =
     (if pos + length cs \<le> length m then Inr (take pos m @ cs @ drop (pos + length cs) m)
      else Inl Out_Of_Bounds)"

definition mem_load :: "nat \<Rightarrow> nat \<Rightarrow> cell list \<Rightarrow> fault + cell list" where
  "mem_load pos n m = (if pos + n \<le> length m then Inr (take n (drop pos m)) else Inl Out_Of_Bounds)"

definition mem_move :: "nat \<Rightarrow> nat \<Rightarrow> nat \<Rightarrow> cell list \<Rightarrow> fault + cell list" where
  "mem_move dst src n m = (case mem_load src n m of Inl e \<Rightarrow> Inl e | Inr cs \<Rightarrow> mem_store dst cs m)"

section \<open>Operations\<close>

definition alloc_size :: "nat \<Rightarrow> nat" where
  "alloc_size n = unat (fst (Alloc True (of_nat n)))"

definition Buffer_new :: "nat \<Rightarrow> buffer" where
  "Buffer_new n = \<lparr>bmem = Some (replicate (alloc_size n) None), boff = 0, bsize = n,
     bcap = alloc_size n, bown = True\<rparr>"

definition Buffer_from :: "byte list \<Rightarrow> fault + buffer" where
  "Buffer_from bs =
     (case mem_store 0 (map Some bs) (replicate (alloc_size (length bs)) None) of
        Inl e \<Rightarrow> Inl e
      | Inr m \<Rightarrow> Inr \<lparr>bmem = Some m, boff = 0, bsize = length bs, bcap = alloc_size (length bs),
                      bown = True\<rparr>)"

definition Buffer_static :: "nat \<Rightarrow> cell list option \<Rightarrow> buffer" where
  "Buffer_static n m = \<lparr>bmem = m, boff = 0, bsize = n, bcap = n, bown = False\<rparr>"

definition Buffer_Null :: buffer where
  "Buffer_Null = Buffer_static 0 None"

definition resize :: "nat \<Rightarrow> bool \<Rightarrow> buffer \<Rightarrow> fault + buffer" where
  "resize sz preserveData b =
     (if sz \<le> bcap b then
        (let b1 = (if boff b \<noteq> 0 \<and> \<not> preserveData
                   then b\<lparr>bcap := bcap b + boff b, boff := 0\<rparr> else b)
         in Inr (b1\<lparr>bsize := sz\<rparr>))
      else
        (let oldData = boff b;
             b1 = (if boff b \<noteq> 0 then b\<lparr>bcap := bcap b + boff b, boff := 0\<rparr> else b)
         in if boff b \<noteq> 0 \<and> sz \<le> bcap b1 then
              (if preserveData then
                 (case mem_move 0 oldData (bsize b) (case bmem b of None \<Rightarrow> [] | Some m \<Rightarrow> m) of
                    Inl e \<Rightarrow> Inl e
                  | Inr m \<Rightarrow> Inr (b1\<lparr>bmem := Some m, bsize := sz\<rparr>))
               else Inr (b1\<lparr>bsize := sz\<rparr>))
            else if \<not> bown b then Inl Static_Exceeded
            else
              (let cap = alloc_size sz; fresh = replicate cap None
               in (if preserveData then
                     (case mem_load oldData (bsize b) (case bmem b of None \<Rightarrow> [] | Some m \<Rightarrow> m) of
                        Inl e \<Rightarrow> Inl e
                      | Inr cs \<Rightarrow>
                          (case mem_store 0 cs fresh of
                             Inl e \<Rightarrow> Inl e
                           | Inr m \<Rightarrow> Inr (b1\<lparr>bmem := Some m, bcap := cap, bsize := sz\<rparr>)))
                   else Inr (b1\<lparr>bmem := Some fresh, bcap := cap, bsize := sz\<rparr>)))))"

definition clear :: "buffer \<Rightarrow> fault + buffer" where
  "clear b = resize 0 False b"

text \<open>The two \<open>append\<close>s: the old size is kept, the size grows, the bytes are copied after it.\<close>

definition append_cells :: "cell list \<Rightarrow> nat \<Rightarrow> buffer \<Rightarrow> fault + buffer" where
  "append_cells cs n b =
     (if bmem b = None then Inr b
      else
        (let oldSize = bsize b
         in case resize ((bsize b + n) mod 2 ^ 32) True b of
              Inl e \<Rightarrow> Inl e
            | Inr b1 \<Rightarrow>
                (case bmem b1 of None \<Rightarrow> Inl Out_Of_Bounds
                 | Some m \<Rightarrow>
                     (case mem_store (boff b1 + oldSize) cs m of
                        Inl e \<Rightarrow> Inl e
                      | Inr m' \<Rightarrow> Inr (b1\<lparr>bmem := Some m'\<rparr>)))))"

definition append_data :: "byte list \<Rightarrow> buffer \<Rightarrow> fault + buffer" where
  "append_data bs b = append_cells (map Some bs) (length bs) b"

definition append_fill :: "nat \<Rightarrow> byte \<Rightarrow> buffer \<Rightarrow> fault + buffer" where
  "append_fill n v b = append_cells (replicate n (Some v)) n b"

definition clip :: "nat \<Rightarrow> buffer \<Rightarrow> fault + buffer" where
  "clip offset b =
     (if offset \<ge> bsize b then clear b
      else if offset \<noteq> 0 then
        Inr (b\<lparr>boff := boff b + offset, bsize := bsize b - offset, bcap := bcap b - offset\<rparr>)
      else Inr b)"

text \<open>What the destructor gives back: \<open>Allocator::Free(_buffer, _capacity)\<close>.\<close>

definition Buffer_destroy ::
  "(nat \<Rightarrow> u32 \<Rightarrow> heap \<times> 's \<Rightarrow> (heap \<times> 's) option) \<Rightarrow> bool \<Rightarrow> nat \<Rightarrow> buffer \<Rightarrow> heap \<times> 's
    \<Rightarrow> (heap \<times> 's) option" where
  "Buffer_destroy free locked addr b hs =
     (if bown b then Buffer_release free locked addr (of_nat (bcap b)) hs else Some hs)"

section \<open>Invariant\<close>

definition buffer_inv :: "buffer \<Rightarrow> bool" where
  "buffer_inv b \<longleftrightarrow> bsize b \<le> bcap b \<and> boff b + bcap b < 2 ^ 32 \<and>
     (case bmem b of None \<Rightarrow> boff b + bcap b = 0 \<and> \<not> bown b | Some m \<Rightarrow> boff b + bcap b = length m)"

lemma alloc_size_bounds: "n < 2 ^ 32 \<Longrightarrow> n \<le> alloc_size n \<and> alloc_size n < 2 ^ 32"
proof -
  assume n: "n < 2 ^ 32"
  obtain m r where a: "Alloc True (of_nat n) = (m, r)" by fastforce
  have "unat (of_nat n :: u32) = n" using n by (simp add: unat_of_nat take_bit_nat_eq_self)
  then show ?thesis
    using Alloc_spec [OF a] a unsigned_less [of m] by (simp add: alloc_size_def)
qed

lemma content_static [simp]: "bmem b = None \<Longrightarrow> content b = []"
  by (simp add: content_def)

lemma buffer_inv_new: "n < 2 ^ 32 \<Longrightarrow> buffer_inv (Buffer_new n)"
  using alloc_size_bounds [of n] by (simp add: Buffer_new_def buffer_inv_def)

lemma length_content: "buffer_inv b \<Longrightarrow> length (content b) = bsize b"
  by (auto simp: buffer_inv_def content_def split: option.splits)

lemma resize_ok:
  assumes inv: "buffer_inv b" and sz: "sz < 2 ^ 32" and own: "bown b \<or> sz \<le> boff b + bcap b"
  shows "\<exists>b'. resize sz p b = Inr b' \<and> buffer_inv b' \<and> bsize b' = sz \<and>
     (bmem b' = None \<longleftrightarrow> bmem b = None) \<and> bown b' = bown b \<and>
     (\<not> bown b \<longrightarrow> boff b' + bcap b' = boff b + bcap b) \<and>
     (p \<longrightarrow> take (bsize b) (content b') = take sz (content b))"
proof (cases "bmem b")
  case None
  then show ?thesis using inv own by (auto simp: resize_def buffer_inv_def content_def)
next
  case (Some m)
  note al = alloc_size_bounds [OF sz]
  have len: "boff b + bcap b = length m" "bsize b \<le> bcap b" "length m < 2 ^ 32"
    using inv Some by (auto simp: buffer_inv_def)
  show ?thesis
  proof (cases "sz \<le> bcap b")
    case True
    then show ?thesis using inv Some by (auto simp: resize_def buffer_inv_def content_def min_def)
  next
    case False
    then show ?thesis using Some len own al
      by (auto simp: resize_def Let_def mem_move_def mem_load_def mem_store_def buffer_inv_def content_def min_def)
  qed
qed

lemma resize_fails:
  assumes "buffer_inv b" "\<not> bown b" "boff b + bcap b < sz"
  shows "resize sz p b = Inl Static_Exceeded"
  using assms by (auto simp: resize_def Let_def)

text \<open>\<open>room b n\<close>: \<open>n\<close> more bytes neither wrap the 32-bit size nor pass the end of a static buffer.\<close>

definition room :: "buffer \<Rightarrow> nat \<Rightarrow> bool" where
  "room b n \<longleftrightarrow> bmem b \<noteq> None \<and> bsize b + n < 2 ^ 32 \<and> (bown b \<or> bsize b + n \<le> boff b + bcap b)"

lemma mem_store_content:
  assumes inv: "buffer_inv b" and m: "bmem b = Some m" and n: "bsize b = k + length cs"
  shows "\<exists>m'. mem_store (boff b + k) cs m = Inr m' \<and> buffer_inv (b\<lparr>bmem := Some m'\<rparr>) \<and>
    content (b\<lparr>bmem := Some m'\<rparr>) = take k (content b) @ cs"
proof -
  have le: "boff b + k + length cs \<le> length m" "boff b + bcap b = length m" "bsize b \<le> bcap b"
      "length m < 2 ^ 32"
    using assms by (auto simp: buffer_inv_def)
  then have "k \<le> length m - boff b" by simp
  then show ?thesis
    using m n le by (simp add: mem_store_def buffer_inv_def content_def drop_take)
qed

lemma append_cells_ok:
  assumes inv: "buffer_inv b" and r: "room b (length cs)"
  shows "\<exists>b'. append_cells cs (length cs) b = Inr b' \<and> buffer_inv b' \<and> content b' = content b @ cs \<and>
    bown b' = bown b \<and> bmem b' \<noteq> None \<and> bsize b' = bsize b + length cs \<and>
    (\<not> bown b \<longrightarrow> boff b' + bcap b' = boff b + bcap b)"
proof -
  let ?n = "bsize b + length cs"
  have sz: "?n < 2 ^ 32" "?n mod 2 ^ 32 = ?n" using r by (auto simp: room_def)
  obtain b1 where b1: "resize ?n True b = Inr b1" "buffer_inv b1" "bsize b1 = ?n"
      "bmem b1 \<noteq> None" "bown b1 = bown b" "\<not> bown b \<longrightarrow> boff b1 + bcap b1 = boff b + bcap b"
      "take (bsize b) (content b1) = take ?n (content b)"
    using resize_ok [OF inv sz(1), of True] r by (auto simp: room_def)
  obtain m where m: "bmem b1 = Some m" using b1(4) by auto
  obtain m' where m': "mem_store (boff b1 + bsize b) cs m = Inr m'"
      "buffer_inv (b1\<lparr>bmem := Some m'\<rparr>)"
      "content (b1\<lparr>bmem := Some m'\<rparr>) = take (bsize b) (content b1) @ cs"
    using mem_store_content [OF b1(2) m b1(3)] by blast
  have "take ?n (content b) = content b" using length_content [OF inv] by simp
  then show ?thesis using b1 m m' r sz by (auto simp: append_cells_def room_def Let_def)
qed

lemma clip_ok:
  assumes inv: "buffer_inv b"
  shows "\<exists>b'. clip n b = Inr b' \<and> buffer_inv b' \<and> content b' = drop n (content b) \<and> bown b' = bown b \<and>
    (bmem b' = None \<longleftrightarrow> bmem b = None)"
proof (cases "n \<ge> bsize b")
  case True
  obtain b' where "resize 0 False b = Inr b'" "buffer_inv b'" "bsize b' = 0" "bown b' = bown b"
      "bmem b' = None \<longleftrightarrow> bmem b = None"
    using resize_ok [OF inv, of 0 False] by auto
  then show ?thesis using True length_content [OF inv] length_content [of b']
    by (auto simp: clip_def clear_def)
next
  case False
  then show ?thesis using inv
    by (auto simp: clip_def buffer_inv_def content_def drop_take add.commute split: option.splits)
qed

section \<open>The contract of a byte sink\<close>

text \<open>What \<open>BinaryWriter\<close> relies on when it appends to its buffer.\<close>

primrec put_all :: "(byte list \<Rightarrow> 's \<Rightarrow> fault + 's) \<Rightarrow> byte list list \<Rightarrow> 's \<Rightarrow> fault + 's" where
  "put_all put [] s = Inr s"
| "put_all put (bs # bss) s = (case put bs s of Inl e \<Rightarrow> Inl e | Inr s' \<Rightarrow> put_all put bss s')"

locale byte_sink =
  fixes ok :: "'s \<Rightarrow> bool" and fits :: "'s \<Rightarrow> nat \<Rightarrow> bool" and bytes :: "'s \<Rightarrow> cell list"
    and put :: "byte list \<Rightarrow> 's \<Rightarrow> fault + 's"
  assumes put_law: "ok s \<Longrightarrow> fits s (length bs) \<Longrightarrow>
      \<exists>s'. put bs s = Inr s' \<and> ok s' \<and> bytes s' = bytes s @ map Some bs \<and>
        (\<forall>n. fits s (length bs + n) \<longrightarrow> fits s' n)"
    and fits_mono: "fits s n \<Longrightarrow> m \<le> n \<Longrightarrow> fits s m"
begin

lemma put_all_law:
  "ok s \<Longrightarrow> fits s (length (concat bss)) \<Longrightarrow>
   \<exists>s'. put_all put bss s = Inr s' \<and> ok s' \<and> bytes s' = bytes s @ map Some (concat bss) \<and>
     (\<forall>n. fits s (length (concat bss) + n) \<longrightarrow> fits s' n)"
proof (induction bss arbitrary: s)
  case (Cons bs bss)
  then have "fits s (length bs)" by (auto intro: fits_mono)
  then obtain s1 where s1: "put bs s = Inr s1" "ok s1" "bytes s1 = bytes s @ map Some bs"
      "\<And>n. fits s (length bs + n) \<Longrightarrow> fits s1 n"
    using put_law Cons.prems(1) by blast
  then have "fits s1 (length (concat bss))" using Cons.prems(2) by simp
  then obtain s2 where "put_all put bss s1 = Inr s2" "ok s2" "bytes s2 = bytes s1 @ map Some (concat bss)"
      "\<And>n. fits s1 (length (concat bss) + n) \<Longrightarrow> fits s2 n"
    using Cons.IH s1(2) by blast
  then show ?case using s1 by (auto simp: add.assoc)
qed auto

end

interpretation sink: byte_sink buffer_inv room content append_data
proof
  fix b and bs :: "byte list"
  assume ok: "buffer_inv b" and r: "room b (length bs)"
  then obtain b' where "append_cells (map Some bs) (length bs) b = Inr b'" "buffer_inv b'"
      "content b' = content b @ map Some bs" "bown b' = bown b" "bmem b' \<noteq> None"
      "bsize b' = bsize b + length bs" "\<not> bown b \<longrightarrow> boff b' + bcap b' = boff b + bcap b"
    using append_cells_ok [of b "map Some bs"] by auto
  then show "\<exists>b'. append_data bs b = Inr b' \<and> buffer_inv b' \<and> content b' = content b @ map Some bs \<and>
      (\<forall>n. room b (length bs + n) \<longrightarrow> room b' n)"
    by (auto simp: append_data_def room_def add.assoc)
qed (auto simp: room_def)

section \<open>Properties\<close>

text \<open>
  C3: \<open>append\<close> and \<open>clip\<close> refine the operations on the sequence of bytes the buffer stands for.
  On a well-formed buffer with room (the new size fits 32 bits, and a static buffer's capacity),
  \<open>append\<close> succeeds and adds the bytes behind the old contents, wherever \<open>clip\<close> had moved the
  start and whether the memory is moved, reused or reallocated; \<open>clip(n)\<close> drops the first \<open>n\<close> bytes.
\<close>

theorem buffer_append_clip_refine:
  assumes "buffer_inv b"
  shows "(room b (length bs) \<longrightarrow> (\<exists>b'. append_data bs b = Inr b' \<and> buffer_inv b' \<and>
            content b' = content b @ map Some bs)) \<and>
         (\<exists>b'. clip n b = Inr b' \<and> buffer_inv b' \<and> content b' = drop n (content b))"
  using sink.put_law [of b bs] clip_ok [of b n] assms by blast

theorem buffer_append_clip_refine_witness:
  "\<exists>b'. append_data [1, 2] (Buffer_new 3) = Inr b' \<and> content b' = content (Buffer_new 3) @ [Some 1, Some 2]"
proof -
  have "room (Buffer_new 3) (length [1, 2 :: byte])" by (simp add: room_def Buffer_new_def)
  with buffer_append_clip_refine [OF buffer_inv_new, of 3 "[1, 2]" 0] show ?thesis by auto
qed

text \<open>
  \<open>resize\<close> with \<open>preserveData\<close> keeps the invariant and every byte that fits the new size, and
  fails only when a static buffer is asked for more than its memory.
\<close>

theorem buffer_resize_preserves:
  assumes inv: "buffer_inv b" and sz: "sz < 2 ^ 32"
  shows "(case resize sz True b of
            Inl e \<Rightarrow> e = Static_Exceeded \<and> \<not> bown b \<and> boff b + bcap b < sz
          | Inr b' \<Rightarrow> buffer_inv b' \<and> bsize b' = sz \<and> take (bsize b) (content b') = take sz (content b))"
proof (cases "bown b \<or> sz \<le> boff b + bcap b")
  case True
  then show ?thesis using resize_ok [OF inv sz True, of True] by auto
next
  case False
  then show ?thesis using resize_fails [OF inv, of sz True] by auto
qed

theorem buffer_resize_preserves_witness:
  "(case resize 100 True (Buffer_new 3) of Inl e \<Rightarrow> False | Inr b' \<Rightarrow> buffer_inv b' \<and> bsize b' = 100)"
  using buffer_resize_preserves [OF buffer_inv_new, of 3 100]
  by (auto simp: Buffer_new_def split: sum.splits)

text \<open>
  \<open>append\<close> does not check that the new size fits \<open>uint32_t\<close>. When it does not, the buffer is
  not grown (the wrapped size is smaller than the old one) and the copy leaves the buffer's memory.
\<close>

theorem buffer_append_overflow:
  assumes inv: "buffer_inv b" and m: "bmem b \<noteq> None"
    and n: "length bs < 2 ^ 32" "2 ^ 32 \<le> bsize b + length bs"
  shows "append_data bs b = Inl Out_Of_Bounds"
proof -
  let ?n = "(bsize b + length bs) mod 2 ^ 32"
  have lt: "bsize b < 2 ^ 32" using inv by (auto simp: buffer_inv_def split: option.splits)
  then have "?n = bsize b + length bs - 2 ^ 32"
    using n by (simp add: le_mod_geq)
  then have small: "?n \<le> bcap b" using n inv by (auto simp: buffer_inv_def)
  obtain mm where mm: "bmem b = Some mm" using m by auto
  have "boff b + bcap b < 2 ^ 32" "boff b + bcap b = length mm" using inv mm by (auto simp: buffer_inv_def)
  with n have "\<not> boff b + bsize b + length bs \<le> length mm" by simp
  then show ?thesis using small mm
    by (simp add: append_data_def append_cells_def resize_def mem_store_def Let_def)
qed

theorem buffer_append_overflow_witness:
  "append_data (replicate (2 ^ 32 - 1) 0) (Buffer_new 3) = Inl Out_Of_Bounds"
proof -
  have "bmem (Buffer_new 3) \<noteq> None" "bsize (Buffer_new 3) = 3" by (simp_all add: Buffer_new_def)
  then show ?thesis by (intro buffer_append_overflow buffer_inv_new) simp_all
qed

text \<open>
  the destructor frees with \<open>_capacity\<close>, which \<open>clip\<close> has reduced. A buffer of 32 bytes clipped
  by 24 is given back to the pool as a block of 8 bytes, whose index is outside the pool's 28 stacks:
  the call is undefined, whatever the block, the heap and the pool.
\<close>

theorem clipped_buffer_destroy_undefined:
  assumes "a \<noteq> 0" "length p = 28"
  shows "\<exists>b. clip 24 (Buffer_new 32) = Inr b \<and> buffer_inv b \<and> bsize b = 8 \<and>
    Buffer_destroy BufferPool_free True a b (h, p) = None"
proof -
  have 32: "alloc_size 32 = 32"
    by (simp add: alloc_size_def Alloc_def upper_pow2_def Let_def)
  have "buffer_inv (Buffer_new 32)" by (rule buffer_inv_new) simp
  with clip_ok [of "Buffer_new 32" 24]
  obtain b where b: "clip 24 (Buffer_new 32) = Inr b" "buffer_inv b" by blast
  then have f: "bcap b = 8" "bsize b = 8" "bown b"
    by (auto simp: clip_def Buffer_new_def 32)
  have "28 \<le> computeIndex 8" using computeIndex_small [of 3] by simp
  then have "BufferPool_free a 8 (h, p) = None" using assms by (simp add: BufferPool_free_def Let_def)
  then have "Buffer_destroy BufferPool_free True a b (h, p) = None"
    using assms f by (simp add: Buffer_destroy_def Buffer_release_def Free_def)
  with b f show ?thesis by blast
qed

theorem clipped_buffer_destroy_undefined_witness:
  "\<exists>b. clip 24 (Buffer_new 32) = Inr b \<and>
    Buffer_destroy BufferPool_free True 1 b (\<lparr>nxt = 2, blk = [1 \<mapsto> 32]\<rparr>, BufferPool_init) = None"
  using clipped_buffer_destroy_undefined [of 1 BufferPool_init "\<lparr>nxt = 2, blk = [1 \<mapsto> 32]\<rparr>"]
  by (auto simp: BufferPool_init_def)

end
