(* ===== verification/Bytes_Order.thy ===== *)
theory Bytes_Order
  imports Prelude
begin

text \<open>
  Mona/Memory/Bytes.h: the byte orders (\<open>Flip16\<close> to \<open>Flip64\<close>, the generic \<open>Flip\<close>), the
  conversions from and to network order on a little-endian host, and \<open>Get7BitSize\<close>.
  The lemmas show that a flip reverses the bytes of the memory image and is its own inverse.
\<close>

datatype Order = ORDER_BIG_ENDIAN | ORDER_LITTLE_ENDIAN

definition ORDER_NETWORK :: Order where "ORDER_NETWORK = ORDER_BIG_ENDIAN"
definition ORDER_NATIVE :: Order where "ORDER_NATIVE = ORDER_LITTLE_ENDIAN"

definition Flip16 :: "u16 \<Rightarrow> u16" where
  "Flip16 value = (drop_bit 8 value AND 0x00FF) OR (push_bit 8 value AND 0xFF00)"

definition Flip24 :: "u32 \<Rightarrow> u32" where
  "Flip24 value = (drop_bit 16 value AND 0x000000FF) OR (value AND 0x0000FF00)
     OR (push_bit 16 value AND 0x00FF0000)"

definition Flip32 :: "u32 \<Rightarrow> u32" where
  "Flip32 value = (drop_bit 24 value AND 0x000000FF) OR (drop_bit 8 value AND 0x0000FF00)
     OR (push_bit 8 value AND 0x00FF0000) OR (push_bit 24 value AND 0xFF000000)"

definition Flip64 :: "u64 \<Rightarrow> u64" where
  "Flip64 value =
     (let hi = ucast (drop_bit 32 value) :: u32; lo = ucast (value AND 0xFFFFFFFF) :: u32
      in (ucast (Flip32 hi) :: u64) OR push_bit 32 (ucast (Flip32 lo) :: u64))"

text \<open>The generic \<open>Flip\<close> swaps the bytes from both ends of the value's memory.\<close>

function Flip_swap :: "nat \<Rightarrow> nat \<Rightarrow> byte list \<Rightarrow> byte list" where
  "Flip_swap lo hi m =
     (if lo < hi then Flip_swap (lo + 1) (hi - 1) (m[lo := m ! hi, hi := m ! lo]) else m)"
  by pat_completeness auto
termination
  by (relation "measure (\<lambda>(lo, hi, m). hi - lo)") auto

declare Flip_swap.simps [simp del]

definition Flip :: "byte list \<Rightarrow> byte list" where
  "Flip m = (if m = [] then m else Flip_swap 0 (length m - 1) m)"

definition From16BigEndian :: "u16 \<Rightarrow> u16" where
  "From16BigEndian value = (if ORDER_NATIVE = ORDER_BIG_ENDIAN then value else Flip16 value)"
definition From24BigEndian :: "u32 \<Rightarrow> u32" where
  "From24BigEndian value = (if ORDER_NATIVE = ORDER_BIG_ENDIAN then value else Flip24 value)"
definition From32BigEndian :: "u32 \<Rightarrow> u32" where
  "From32BigEndian value = (if ORDER_NATIVE = ORDER_BIG_ENDIAN then value else Flip32 value)"
definition From64BigEndian :: "u64 \<Rightarrow> u64" where
  "From64BigEndian value = (if ORDER_NATIVE = ORDER_BIG_ENDIAN then value else Flip64 value)"
definition From16LittleEndian :: "u16 \<Rightarrow> u16" where
  "From16LittleEndian value = (if ORDER_NATIVE = ORDER_LITTLE_ENDIAN then value else Flip16 value)"
definition From24LittleEndian :: "u32 \<Rightarrow> u32" where
  "From24LittleEndian value = (if ORDER_NATIVE = ORDER_LITTLE_ENDIAN then value else Flip24 value)"
definition From32LittleEndian :: "u32 \<Rightarrow> u32" where
  "From32LittleEndian value = (if ORDER_NATIVE = ORDER_LITTLE_ENDIAN then value else Flip32 value)"
definition From64LittleEndian :: "u64 \<Rightarrow> u64" where
  "From64LittleEndian value = (if ORDER_NATIVE = ORDER_LITTLE_ENDIAN then value else Flip64 value)"

definition From16Network :: "u16 \<Rightarrow> u16" where "From16Network value = From16BigEndian value"
definition From24Network :: "u32 \<Rightarrow> u32" where "From24Network value = From24BigEndian value"
definition From32Network :: "u32 \<Rightarrow> u32" where "From32Network value = From32BigEndian value"
definition From64Network :: "u64 \<Rightarrow> u64" where "From64Network value = From64BigEndian value"
definition To16Network :: "u16 \<Rightarrow> u16" where "To16Network value = From16BigEndian value"
definition To24Network :: "u32 \<Rightarrow> u32" where "To24Network value = From24BigEndian value"
definition To32Network :: "u32 \<Rightarrow> u32" where "To32Network value = From32BigEndian value"
definition To64Network :: "u64 \<Rightarrow> u64" where "To64Network value = From64BigEndian value"

lemmas order_defs =
  From16BigEndian_def From24BigEndian_def From32BigEndian_def From64BigEndian_def
  From16LittleEndian_def From24LittleEndian_def From32LittleEndian_def From64LittleEndian_def
  From16Network_def From24Network_def From32Network_def From64Network_def
  To16Network_def To24Network_def To32Network_def To64Network_def
  ORDER_NATIVE_def ORDER_NETWORK_def

text \<open>
  \<open>Get7BitSize<ValueType>(value, bytes)\<close>: the loop is \<open>while ((value >>= 7) && result++ < bytes)\<close>,
  with \<open>result\<close> incremented only when the shifted value is not zero. \<open>bytes\<close> is
  \<open>sizeof(ValueType) + 1\<close> by default; \<open>result\<close> and \<open>bytes\<close> are 8-bit in the code, and \<open>result\<close>
  never passes \<open>bytes + 1 \<le> 256\<close>.
\<close>

function Get7Bit_loop :: "'a::len word \<Rightarrow> nat \<Rightarrow> nat \<Rightarrow> 'a word \<times> nat" where
  "Get7Bit_loop value result bytes =
     (let value' = drop_bit 7 value in
      if value' = 0 then (value', result)
      else if result < bytes then Get7Bit_loop value' (result + 1) bytes
      else (value', result + 1))"
  by pat_completeness auto
termination
  by (relation "measure (\<lambda>(value, result, bytes). bytes - result)") auto

declare Get7Bit_loop.simps [simp del]

definition Get7BitSize :: "nat \<Rightarrow> 'a::len word \<Rightarrow> nat" where
  "Get7BitSize bytes value =
     (case Get7Bit_loop value 1 bytes of (rest, result) \<Rightarrow> result - (if rest \<noteq> 0 then 1 else 0))"

section \<open>Flips reverse the memory image\<close>

lemma Flip16_Flip16 [simp]: "Flip16 (Flip16 w) = w"
  by (rule word_eq_bits) (simp add: Flip16_def bit_blast)

lemma Flip24_Flip24: "Flip24 (Flip24 w) = take_bit 24 w"
  by (rule word_eq_bits) (simp add: Flip24_def bit_blast)

lemma Flip32_Flip32 [simp]: "Flip32 (Flip32 w) = w"
  by (rule word_eq_bits) (simp add: Flip32_def bit_blast)

lemma bit_Flip64:
  "bit (Flip64 w) n \<longleftrightarrow>
     (n < 32 \<and> bit (Flip32 (ucast (drop_bit 32 w))) n) \<or>
     (32 \<le> n \<and> n < 64 \<and> bit (Flip32 (ucast (w AND 0xFFFFFFFF))) (n - 32))"
  by (auto simp: Flip64_def Let_def bit_simps dest: bit_imp_le_length)

lemma Flip64_Flip64 [simp]: "Flip64 (Flip64 w) = w"
  by (rule word_eq_bits) (simp add: bit_Flip64 Flip32_def bit_blast)

lemma le_bytes_Flip16: "le_bytes 2 (Flip16 w) = rev (le_bytes 2 w)"
  by (simp, intro conjI word_eq_bits) (simp_all add: Flip16_def bit_blast)

lemma le_bytes_Flip24: "le_bytes 3 (Flip24 w) = rev (le_bytes 3 w)"
  by (simp, intro conjI word_eq_bits) (simp_all add: Flip24_def bit_blast)

lemma le_bytes_Flip32: "le_bytes 4 (Flip32 w) = rev (le_bytes 4 w)"
  by (simp, intro conjI word_eq_bits) (simp_all add: Flip32_def bit_blast)

lemma le_bytes_Flip64: "le_bytes 8 (Flip64 w) = rev (le_bytes 8 w)"
  by (simp, intro conjI word_eq_bits) (simp_all add: bit_Flip64 Flip32_def bit_blast)

text \<open>The generic \<open>Flip\<close>, on the memory of a value, is list reversal.\<close>

lemma length_Flip_swap [simp]: "length (Flip_swap lo hi m) = length m"
  by (induction lo hi m rule: Flip_swap.induct) (subst Flip_swap.simps, simp)

lemma nth_Flip_swap:
  "hi < length m \<Longrightarrow> i < length m \<Longrightarrow>
   Flip_swap lo hi m ! i = (if lo \<le> i \<and> i \<le> hi then m ! (lo + hi - i) else m ! i)"
proof (induction lo hi m rule: Flip_swap.induct)
  case (1 lo hi m)
  show ?case
  proof (cases "lo < hi")
    case True
    let ?m = "m[lo := m ! hi, hi := m ! lo]"
    have "Flip_swap lo hi m ! i = Flip_swap (lo + 1) (hi - 1) ?m ! i"
      using True by (subst Flip_swap.simps) simp
    also have "\<dots> = (if lo + 1 \<le> i \<and> i \<le> hi - 1 then ?m ! (lo + 1 + (hi - 1) - i) else ?m ! i)"
      using 1 True by simp
    finally show ?thesis using True 1 by (auto simp: nth_list_update)
  next
    case False
    then show ?thesis using 1 by (subst Flip_swap.simps) (auto intro: arg_cong [of _ _ "(!) m"])
  qed
qed

lemma Flip_rev: "Flip m = rev m"
  by (cases "m = []") (auto simp: Flip_def nth_Flip_swap rev_nth intro!: nth_equalityI)

section \<open>The 7-bit size\<close>

lemma Get7Bit_loop_bound: "result \<le> bytes \<Longrightarrow> snd (Get7Bit_loop value result bytes) \<le> bytes + 1"
  by (induction "value" result bytes rule: Get7Bit_loop.induct)
     (subst Get7Bit_loop.simps, simp add: Let_def)

end
