(* ===== verification/Binary_Reader.thy ===== *)
theory Binary_Reader
  imports Bytes_Order
begin

text \<open>
  Mona/Format/BinaryReader.h, BinaryReader.cpp: a cursor over a block of bytes. \<open>rdata\<close> is the memory
  from \<open>_data\<close>, \<open>rend\<close> and \<open>rcur\<close> are \<open>_end - _data\<close> and \<open>_current - _data\<close>, \<open>rsize\<close> and \<open>rflip\<close> are
  \<open>_size\<close> and \<open>_flipBytes\<close>. Every read returns its value with the moved reader. \<open>double\<close> and \<open>float\<close>
  are their memory images (8 and 4 bytes), which is all the code looks at.
  The lemmas show that no operation moves the cursor out of the block, and what each read does to
  \<open>remaining\<close>, the bytes between the cursor and the end.
\<close>

record reader =
  rflip :: bool
  rdata :: "byte list"
  rend :: nat
  rcur :: nat
  rsize :: nat

definition BinaryReader :: "byte list \<Rightarrow> nat \<Rightarrow> Order \<Rightarrow> reader" where
  "BinaryReader d n byteOrder =
     \<lparr>rflip = (byteOrder \<noteq> ORDER_NATIVE), rdata = d, rend = n, rcur = 0, rsize = n\<rparr>"

definition BinaryReader_available :: "reader \<Rightarrow> nat" where
  "BinaryReader_available r = rend r - rcur r"

definition BinaryReader_position :: "reader \<Rightarrow> nat" where
  "BinaryReader_position r = rcur r"

definition BinaryReader_reset :: "nat \<Rightarrow> reader \<Rightarrow> reader" where
  "BinaryReader_reset pos r = r\<lparr>rcur := (if pos > rsize r then rsize r else pos)\<rparr>"

definition BinaryReader_next :: "nat \<Rightarrow> reader \<Rightarrow> nat \<times> reader" where
  "BinaryReader_next n r =
     (let n' = (if n > BinaryReader_available r then BinaryReader_available r else n)
      in (n', r\<lparr>rcur := rcur r + n'\<rparr>))"

definition BinaryReader_shrink :: "nat \<Rightarrow> reader \<Rightarrow> nat \<times> reader" where
  "BinaryReader_shrink available r =
     (let rest = BinaryReader_available r
      in if available > rest then (rest, r)
         else (available, r\<lparr>rend := rcur r + available, rsize := rcur r + available\<rparr>))"

text \<open>\<open>read(size, value)\<close>: \<open>value\<close> is returned as it is when fewer than \<open>size\<close> bytes are left.\<close>

definition BinaryReader_read :: "nat \<Rightarrow> byte list \<Rightarrow> reader \<Rightarrow> byte list \<times> reader" where
  "BinaryReader_read n v r =
     (let available = BinaryReader_available r
      in if n > available then (v, r\<lparr>rcur := rcur r + available\<rparr>)
         else (take n (drop (rcur r) (rdata r)) @ drop n v, r\<lparr>rcur := rcur r + n\<rparr>))"

definition BinaryReader_read8 :: "reader \<Rightarrow> byte \<times> reader" where
  "BinaryReader_read8 r =
     (if rcur r = rend r then (0, r) else (rdata r ! rcur r, r\<lparr>rcur := rcur r + 1\<rparr>))"

definition BinaryReader_readBool :: "reader \<Rightarrow> bool \<times> reader" where
  "BinaryReader_readBool r =
     (if rcur r = rend r then (False, r) else (rdata r ! rcur r \<noteq> 0, r\<lparr>rcur := rcur r + 1\<rparr>))"

definition BinaryReader_read16 :: "reader \<Rightarrow> u16 \<times> reader" where
  "BinaryReader_read16 r = (case BinaryReader_read 2 (le_bytes 2 (0 :: u16)) r of (m, r') \<Rightarrow>
     (if rflip r' then Flip16 (of_le m) else of_le m, r'))"

definition BinaryReader_read24 :: "reader \<Rightarrow> u32 \<times> reader" where
  "BinaryReader_read24 r = (case BinaryReader_read 3 (le_bytes 4 (0 :: u32)) r of (m, r') \<Rightarrow>
     (if rflip r' then Flip24 (of_le m) else of_le m, r'))"

definition BinaryReader_read32 :: "reader \<Rightarrow> u32 \<times> reader" where
  "BinaryReader_read32 r = (case BinaryReader_read 4 (le_bytes 4 (0 :: u32)) r of (m, r') \<Rightarrow>
     (if rflip r' then Flip32 (of_le m) else of_le m, r'))"

definition BinaryReader_read64 :: "reader \<Rightarrow> u64 \<times> reader" where
  "BinaryReader_read64 r = (case BinaryReader_read 8 (le_bytes 8 (0 :: u64)) r of (m, r') \<Rightarrow>
     (if rflip r' then Flip64 (of_le m) else of_le m, r'))"

definition BinaryReader_readDouble :: "reader \<Rightarrow> byte list \<times> reader" where
  "BinaryReader_readDouble r = (case BinaryReader_read 8 (replicate 8 0) r of (m, r') \<Rightarrow>
     (if rflip r' then Flip m else m, r'))"

definition BinaryReader_readFloat :: "reader \<Rightarrow> byte list \<times> reader" where
  "BinaryReader_readFloat r = (case BinaryReader_read 4 (replicate 4 0) r of (m, r') \<Rightarrow>
     (if rflip r' then Flip m else m, r'))"

text \<open>\<open>readString\<close>: the scan for the terminating 0, then \<open>read\<close> into the resized string, then \<open>next()\<close>.\<close>

function readString_scan :: "nat \<Rightarrow> reader \<Rightarrow> nat" where
  "readString_scan current r =
     (if current < rend r \<and> rdata r ! current \<noteq> 0 then readString_scan (current + 1) r else current)"
  by pat_completeness auto
termination
  by (relation "measure (\<lambda>(current, r). rend r - current)") auto

declare readString_scan.simps [simp del]

definition BinaryReader_readString :: "reader \<Rightarrow> byte list \<times> reader" where
  "BinaryReader_readString r =
     (let n = readString_scan (rcur r) r - rcur r
      in case BinaryReader_read n (replicate n 0) r of (value, r') \<Rightarrow>
           (value, snd (BinaryReader_next 1 r')))"

text \<open>
  \<open>read7Bit<NumType>\<close>: the loop runs while bytes are available. \<open>byte & 0x7F\<close> has the promoted type
  (32 bits for the types up to 32 bits), and shifting it by that width or more is undefined: None.
\<close>

function read7_loop :: "'a::len word \<Rightarrow> nat \<Rightarrow> reader \<Rightarrow> ('a word \<times> reader) option" where
  "read7_loop result bits r =
     (if rcur r < rend r then
        (let byte = rdata r ! rcur r; r' = r\<lparr>rcur := rcur r + 1\<rparr>
         in if bits \<ge> max 32 LENGTH('a) then None
            else
              (let result' = result OR push_bit bits (ucast (byte AND 0x7F))
               in if byte AND 0x80 = 0 then Some (result', r') else read7_loop result' (bits + 7) r'))
      else Some (result, r))"
  by pat_completeness auto
termination
  by (relation "measure (\<lambda>(result, bits, r). rend r - rcur r)") auto

declare read7_loop.simps [simp del]

definition BinaryReader_read7Bit_unsigned :: "reader \<Rightarrow> ('a::len word \<times> reader) option" where
  "BinaryReader_read7Bit_unsigned r = read7_loop 0 0 r"

text \<open>For a signed type \<open>result >>= 1\<close> is the arithmetic shift.\<close>

definition read7_unsign :: "'a::len word \<Rightarrow> 'a word" where
  "read7_unsign result =
     (let isNegative = bit result 0; result' = signed_drop_bit 1 result
      in if isNegative then - result' else result')"

definition BinaryReader_read7Bit_signed :: "reader \<Rightarrow> ('a::len word \<times> reader) option" where
  "BinaryReader_read7Bit_signed r = map_option (map_prod read7_unsign id) (read7_loop 0 0 r)"

section \<open>The cursor stays in the block\<close>

definition reader_inv :: "reader \<Rightarrow> bool" where
  "reader_inv r \<longleftrightarrow> rcur r \<le> rend r \<and> rend r \<le> length (rdata r) \<and> rsize r = rend r"

definition remaining :: "reader \<Rightarrow> byte list" where
  "remaining r = take (rend r - rcur r) (drop (rcur r) (rdata r))"

lemma reader_inv_new: "n \<le> length d \<Longrightarrow> reader_inv (BinaryReader d n ord)"
  by (simp add: BinaryReader_def reader_inv_def)

lemma remaining_new [simp]: "remaining (BinaryReader d n ord) = take n d"
  by (simp add: BinaryReader_def remaining_def)

lemma length_remaining: "reader_inv r \<Longrightarrow> length (remaining r) = BinaryReader_available r"
  by (auto simp: reader_inv_def remaining_def BinaryReader_available_def min_def)

lemma reader_advance:
  assumes "reader_inv r" "n \<le> BinaryReader_available r"
  shows "reader_inv (r\<lparr>rcur := rcur r + n\<rparr>) \<and> remaining (r\<lparr>rcur := rcur r + n\<rparr>) = drop n (remaining r)"
  using assms by (auto simp: reader_inv_def remaining_def BinaryReader_available_def drop_take add.commute)

lemma BinaryReader_read_ok:
  assumes "reader_inv r" "n \<le> BinaryReader_available r"
  shows "BinaryReader_read n v r = (take n (remaining r) @ drop n v, r\<lparr>rcur := rcur r + n\<rparr>)"
  using assms by (auto simp: BinaryReader_read_def remaining_def BinaryReader_available_def min_def Let_def)

lemma BinaryReader_read_short:
  assumes "reader_inv r" "BinaryReader_available r < n"
  shows "BinaryReader_read n v r = (v, r\<lparr>rcur := rend r\<rparr>)"
  using assms by (auto simp: BinaryReader_read_def BinaryReader_available_def reader_inv_def Let_def)

lemma remaining_Cons:
  assumes "reader_inv r" "rcur r \<noteq> rend r"
  shows "remaining r = rdata r ! rcur r # remaining (r\<lparr>rcur := rcur r + 1\<rparr>)"
proof -
  have lt: "rcur r < length (rdata r)" "rend r - rcur r = Suc (rend r - (rcur r + 1))"
    using assms by (auto simp: reader_inv_def)
  then show ?thesis by (simp add: remaining_def take_drop_cons [OF lt(1)])
qed

lemma remaining_Nil: "reader_inv r \<Longrightarrow> remaining r = [] \<longleftrightarrow> rcur r = rend r"
  by (auto simp: remaining_def reader_inv_def)

text \<open>Where the cursor is when the bytes left are \<open>bs @ rest\<close> and \<open>bs\<close> is read.\<close>

definition ready :: "reader \<Rightarrow> byte list \<Rightarrow> bool" where
  "ready r bs \<longleftrightarrow> reader_inv r \<and> remaining r = bs"

lemma ready_read:
  assumes "ready r (bs @ rest)"
  shows "BinaryReader_read (length bs) v r =
       (bs @ drop (length bs) v, r\<lparr>rcur := rcur r + length bs\<rparr>) \<and>
     ready (r\<lparr>rcur := rcur r + length bs\<rparr>) rest"
proof -
  have r: "reader_inv r" "remaining r = bs @ rest" using assms by (auto simp: ready_def)
  then have "length bs \<le> BinaryReader_available r" using length_remaining [OF r(1)] by simp
  then show ?thesis
    using BinaryReader_read_ok [OF r(1), of "length bs" v] reader_advance [OF r(1), of "length bs"] r
    by (auto simp: ready_def)
qed

lemma ready_Cons:
  assumes "ready r (b # rest)"
  shows "rcur r < rend r \<and> rdata r ! rcur r = b \<and> ready (r\<lparr>rcur := rcur r + 1\<rparr>) rest"
proof -
  have r: "reader_inv r" "remaining r = b # rest" using assms by (auto simp: ready_def)
  then have ne: "rcur r \<noteq> rend r" using remaining_Nil by fastforce
  show ?thesis
    using remaining_Cons [OF r(1) ne] r reader_advance [OF r(1), of 1] ne
    by (auto simp: ready_def reader_inv_def BinaryReader_available_def)
qed

text \<open>Reading moves the cursor forward, inside the block, on the same data and order.\<close>

definition moved :: "reader \<Rightarrow> reader \<Rightarrow> bool" where
  "moved r r' \<longleftrightarrow> reader_inv r' \<and> rcur r \<le> rcur r' \<and> rdata r' = rdata r \<and> rend r' = rend r \<and>
     rsize r' = rsize r \<and> rflip r' = rflip r"

lemma moved_trans: "moved r r' \<Longrightarrow> moved r' r'' \<Longrightarrow> moved r r''"
  by (auto simp: moved_def)

lemma moved_read: "reader_inv r \<Longrightarrow> moved r (snd (BinaryReader_read n v r))"
  by (auto simp: moved_def reader_inv_def BinaryReader_read_def BinaryReader_available_def Let_def)

lemma moved_read_pair: "reader_inv r \<Longrightarrow> BinaryReader_read n v r = (m, r') \<Longrightarrow> moved r r'"
  using moved_read [of r n v] by simp

lemma moved_next: "reader_inv r \<Longrightarrow> moved r (snd (BinaryReader_next n r))"
  by (auto simp: moved_def reader_inv_def BinaryReader_next_def BinaryReader_available_def Let_def)

lemma moved_read7_loop: "reader_inv r \<Longrightarrow> read7_loop v k r = Some (w, r') \<Longrightarrow> moved r r'"
proof (induction v k r arbitrary: w r' rule: read7_loop.induct)
  case (1 v k r)
  let ?r = "r\<lparr>rcur := rcur r + 1\<rparr>"
  show ?case
  proof (cases "rcur r < rend r")
    case True
    then have s: "moved r ?r" using 1(2) by (auto simp: moved_def reader_inv_def)
    then have "reader_inv ?r" by (simp add: moved_def)
    with 1 True have "moved ?r r' \<or> r' = ?r"
      by (subst (asm) (2) read7_loop.simps) (auto simp: Let_def split: if_splits)
    with s show ?thesis using moved_trans by blast
  next
    case False
    with 1 show ?thesis by (subst (asm) (2) read7_loop.simps) (auto simp: moved_def)
  qed
qed

end
