(* ===== verification/Binary_Writer.thy ===== *)
theory Binary_Writer
  imports Buffers Binary_Reader
begin

text \<open>
  Mona/Format/BinaryWriter.h, BinaryWriter.cpp: what is written goes behind the contents of a
  \<open>Buffer\<close> (theory Buffers); \<open>woffset\<close> is the size the buffer had when the writer was built, so that
  the writer's own \<open>data()\<close> starts there. A writer built on a block of memory owns a static buffer.
  The lemmas reduce every write to the bytes it appends (\<open>encode\<close>), through the laws of \<open>byte_sink\<close>,
  and then the reads of theory Binary_Reader to the inverse of \<open>encode\<close>: a message, whatever its
  fields and its byte order, is read back as it was written.
\<close>

record writer =
  wflip :: bool
  wbuf :: buffer
  woffset :: nat

definition BinaryWriter :: "buffer \<Rightarrow> Order \<Rightarrow> writer" where
  "BinaryWriter b byteOrder = \<lparr>wflip = (byteOrder \<noteq> ORDER_NATIVE), wbuf = b, woffset = bsize b\<rparr>"

definition BinaryWriter_static :: "cell list \<Rightarrow> nat \<Rightarrow> Order \<Rightarrow> fault + writer" where
  "BinaryWriter_static m n byteOrder =
     (case resize 0 False (Buffer_static n (Some m)) of
        Inl e \<Rightarrow> Inl e
      | Inr b \<Rightarrow> Inr \<lparr>wflip = (byteOrder \<noteq> ORDER_NATIVE), wbuf = b, woffset = 0\<rparr>)"

definition BinaryWriter_append :: "byte list \<Rightarrow> writer \<Rightarrow> fault + writer" where
  "BinaryWriter_append bs w =
     (case append_data bs (wbuf w) of Inl e \<Rightarrow> Inl e | Inr b \<Rightarrow> Inr (w\<lparr>wbuf := b\<rparr>))"

definition BinaryWriter_append_fill :: "nat \<Rightarrow> byte \<Rightarrow> writer \<Rightarrow> fault + writer" where
  "BinaryWriter_append_fill n v w =
     (case append_fill n v (wbuf w) of Inl e \<Rightarrow> Inl e | Inr b \<Rightarrow> Inr (w\<lparr>wbuf := b\<rparr>))"

definition write8 :: "byte \<Rightarrow> writer \<Rightarrow> fault + writer" where
  "write8 v w = BinaryWriter_append [v] w"

definition write16 :: "u16 \<Rightarrow> writer \<Rightarrow> fault + writer" where
  "write16 v w = BinaryWriter_append (le_bytes 2 (if wflip w then Flip16 v else v)) w"

definition write24 :: "u32 \<Rightarrow> writer \<Rightarrow> fault + writer" where
  "write24 v w = BinaryWriter_append (le_bytes 3 (if wflip w then Flip24 v else v)) w"

definition write32 :: "u32 \<Rightarrow> writer \<Rightarrow> fault + writer" where
  "write32 v w = BinaryWriter_append (le_bytes 4 (if wflip w then Flip32 v else v)) w"

definition write64 :: "u64 \<Rightarrow> writer \<Rightarrow> fault + writer" where
  "write64 v w = BinaryWriter_append (le_bytes 8 (if wflip w then Flip64 v else v)) w"

text \<open>\<open>writeDouble\<close> and \<open>writeFloat\<close>, on the memory image of the value.\<close>

definition writeDouble :: "byte list \<Rightarrow> writer \<Rightarrow> fault + writer" where
  "writeDouble m w = BinaryWriter_append (if wflip w then Flip m else m) w"

definition writeFloat :: "byte list \<Rightarrow> writer \<Rightarrow> fault + writer" where
  "writeFloat m w = BinaryWriter_append (if wflip w then Flip m else m) w"

definition writeBool :: "bool \<Rightarrow> writer \<Rightarrow> fault + writer" where
  "writeBool v w = write8 (if v then 1 else 0) w"

text \<open>\<open>writeString(const char*, size)\<close> ends the text with a 0, \<open>writeString(const string&)\<close> does not.\<close>

definition writeString_raw :: "byte list \<Rightarrow> writer \<Rightarrow> fault + writer" where
  "writeString_raw bs w = BinaryWriter_append bs w"

definition writeString :: "byte list \<Rightarrow> writer \<Rightarrow> fault + writer" where
  "writeString bs w = (case BinaryWriter_append bs w of Inl e \<Rightarrow> Inl e | Inr w' \<Rightarrow> write8 0 w')"

text \<open>\<open>write7Bit\<close>: \<open>while (value >>= 7)\<close> writes a byte with the high bit, the last has none.\<close>

lemma unat_shift7:
  fixes v :: "'a::len word"
  assumes "drop_bit 7 v \<noteq> 0"
  shows "unat (drop_bit 7 v) < unat v"
proof -
  have "unat (drop_bit 7 v) = drop_bit 7 (unat v)"
    by (simp only: unsigned_drop_bit_eq take_bit_nat_eq_self [OF unsigned_less])
  moreover have "0 < unat v" using assms by (cases "v = 0") (simp_all add: unat_gt_0)
  then have "drop_bit 7 (unat v) < unat v" by (simp add: drop_bit_eq_div)
  ultimately show ?thesis by (simp only:)
qed

function write7_loop :: "'a::len word \<Rightarrow> byte \<Rightarrow> writer \<Rightarrow> fault + writer" where
  "write7_loop value byte w =
     (let value' = drop_bit 7 value in
      if value' \<noteq> 0 then
        (case write8 (0x80 OR byte) w of
           Inl e \<Rightarrow> Inl e
         | Inr w' \<Rightarrow> write7_loop value' (ucast value' AND 0x7F) w')
      else write8 byte w)"
  by pat_completeness auto
termination
  by (relation "measure (\<lambda>(value, byte, w). unat value)") (auto intro: unat_shift7)

declare write7_loop.simps [simp del]

definition write7Bit_unsigned :: "'a::len word \<Rightarrow> writer \<Rightarrow> fault + writer" where
  "write7Bit_unsigned value w = write7_loop value (ucast value AND 0x7F) w"

text \<open>
  The sign is moved to the lowest bit. The negation is two's complement: at the one value it
  overflows for (\<open>- 2 ^ (n - 2)\<close> and its shift \<open>INT_MIN\<close>) the code relies on the compiler.
\<close>

definition write7_sign :: "'a::len word \<Rightarrow> 'a word" where
  "write7_sign value =
     (let isNegative = sint value < 0; value' = push_bit 1 value
      in if isNegative then (- value') OR 1 else value')"

definition write7Bit_signed :: "'a::len word \<Rightarrow> writer \<Rightarrow> fault + writer" where
  "write7Bit_signed value w = write7Bit_unsigned (write7_sign value) w"

definition BinaryWriter_data :: "writer \<Rightarrow> cell list" where
  "BinaryWriter_data w = drop (woffset w) (content (wbuf w))"

definition BinaryWriter_size :: "writer \<Rightarrow> nat" where
  "BinaryWriter_size w = bsize (wbuf w) - woffset w"

definition BinaryWriter_resize :: "nat \<Rightarrow> writer \<Rightarrow> fault + writer" where
  "BinaryWriter_resize n w =
     (if bmem (wbuf w) = None then Inr w
      else (case resize ((woffset w + n) mod 2 ^ 32) True (wbuf w) of
              Inl e \<Rightarrow> Inl e | Inr b \<Rightarrow> Inr (w\<lparr>wbuf := b\<rparr>)))"

definition BinaryWriter_next :: "nat \<Rightarrow> writer \<Rightarrow> fault + writer" where
  "BinaryWriter_next n w = BinaryWriter_resize ((BinaryWriter_size w + n) mod 2 ^ 32) w"

definition BinaryWriter_clear :: "nat \<Rightarrow> writer \<Rightarrow> fault + writer" where
  "BinaryWriter_clear n w = BinaryWriter_resize n w"

definition BinaryWriter_buffer :: "nat \<Rightarrow> writer \<Rightarrow> fault + (nat \<times> writer)" where
  "BinaryWriter_buffer n w =
     (let oldSize = bsize (wbuf w)
      in case resize ((oldSize + n) mod 2 ^ 32) True (wbuf w) of
           Inl e \<Rightarrow> Inl e
         | Inr b \<Rightarrow> Inr (oldSize, w\<lparr>wbuf := b\<rparr>))"

section \<open>Every write is an append\<close>

text \<open>The bytes of \<open>write7Bit\<close>, seven bits at a time.\<close>

function enc7 :: "'a::len word \<Rightarrow> byte list" where
  "enc7 v = (let v' = drop_bit 7 v in
     if v' \<noteq> 0 then (0x80 OR (ucast v AND 0x7F)) # enc7 v' else [ucast v AND 0x7F])"
  by pat_completeness auto
termination
  by (relation "measure unat") (auto intro: unat_shift7)

declare enc7.simps [simp del]

definition wfits :: "writer \<Rightarrow> nat \<Rightarrow> bool" where
  "wfits w n \<longleftrightarrow> room (wbuf w) n"

definition writer_inv :: "writer \<Rightarrow> bool" where
  "writer_inv w \<longleftrightarrow> buffer_inv (wbuf w) \<and> woffset w \<le> bsize (wbuf w)"

interpretation wsink: byte_sink writer_inv wfits "\<lambda>w. content (wbuf w)" BinaryWriter_append
proof
  fix w and bs :: "byte list"
  assume w: "writer_inv w" "wfits w (length bs)"
  then obtain b where b: "append_data bs (wbuf w) = Inr b" "buffer_inv b"
      "content b = content (wbuf w) @ map Some bs" "\<forall>n. room (wbuf w) (length bs + n) \<longrightarrow> room b n"
    using sink.put_law [of "wbuf w" bs] by (auto simp: writer_inv_def wfits_def)
  have "bsize (wbuf w) \<le> bsize b"
    using b w length_content [of b] length_content [of "wbuf w"] by (simp add: writer_inv_def)
  with b w show "\<exists>w'. BinaryWriter_append bs w = Inr w' \<and> writer_inv w' \<and>
      content (wbuf w') = content (wbuf w) @ map Some bs \<and> (\<forall>n. wfits w (length bs + n) \<longrightarrow> wfits w' n)"
    by (auto simp: BinaryWriter_append_def writer_inv_def wfits_def)
qed (auto simp: wfits_def intro: sink.fits_mono)

text \<open>\<open>appends f bs w\<close>: the operation \<open>f\<close> on \<open>w\<close> is the append of \<open>bs\<close>, and keeps order and offset.\<close>

definition appends :: "(writer \<Rightarrow> fault + writer) \<Rightarrow> byte list \<Rightarrow> writer \<Rightarrow> bool" where
  "appends f bs w \<longleftrightarrow> (writer_inv w \<and> wfits w (length bs) \<longrightarrow>
     (\<exists>w'. f w = Inr w' \<and> writer_inv w' \<and> content (wbuf w') = content (wbuf w) @ map Some bs \<and>
        wflip w' = wflip w \<and> woffset w' = woffset w \<and>
        (\<forall>n. wfits w (length bs + n) \<longrightarrow> wfits w' n)))"

lemma appends_append: "appends (BinaryWriter_append bs) bs w"
proof -
  have "BinaryWriter_append bs w = Inr w' \<Longrightarrow> wflip w' = wflip w \<and> woffset w' = woffset w" for w'
    by (auto simp: BinaryWriter_append_def split: sum.splits)
  then show ?thesis using wsink.put_law [of w bs] by (fastforce simp: appends_def)
qed

lemma appends_seq:
  assumes f: "appends f as w" and g: "\<And>w'. wflip w' = wflip w \<Longrightarrow> appends g bs w'"
  shows "appends (\<lambda>w. case f w of Inl e \<Rightarrow> Inl e | Inr w' \<Rightarrow> g w') (as @ bs) w"
  unfolding appends_def
proof (intro impI)
  assume w: "writer_inv w \<and> wfits w (length (as @ bs))"
  then have "wfits w (length as)" by (auto intro: wsink.fits_mono)
  then obtain w1 where w1: "f w = Inr w1" "writer_inv w1"
      "content (wbuf w1) = content (wbuf w) @ map Some as" "wflip w1 = wflip w"
      "woffset w1 = woffset w" "\<And>n. wfits w (length as + n) \<Longrightarrow> wfits w1 n"
    using f w by (auto simp: appends_def)
  then have "wfits w1 (length bs)" using w by simp
  then obtain w2 where "g w1 = Inr w2" "writer_inv w2"
      "content (wbuf w2) = content (wbuf w1) @ map Some bs" "wflip w2 = wflip w1"
      "woffset w2 = woffset w1" "\<And>n. wfits w1 (length bs + n) \<Longrightarrow> wfits w2 n"
    using g [OF w1(4)] w1(2) by (auto simp: appends_def)
  then show "\<exists>w'. (case f w of Inl e \<Rightarrow> Inl e | Inr w' \<Rightarrow> g w') = Inr w' \<and> writer_inv w' \<and>
      content (wbuf w') = content (wbuf w) @ map Some (as @ bs) \<and> wflip w' = wflip w \<and>
      woffset w' = woffset w \<and> (\<forall>n. wfits w (length (as @ bs) + n) \<longrightarrow> wfits w' n)"
    using w1 by (auto simp: add.assoc)
qed

lemma appends_write8: "appends (write8 v) [v] w"
  unfolding write8_def by (rule appends_append)

lemma appends_write7_loop: "b = ucast v AND 0x7F \<Longrightarrow> appends (write7_loop v b) (enc7 v) w"
proof (induction v arbitrary: b w rule: enc7.induct)
  case (1 v b w)
  let ?v = "drop_bit 7 v"
  show ?case
  proof (cases "?v = 0")
    case True
    then show ?thesis using appends_write8 [of b w] 1(2)
      by (simp add: enc7.simps [of v] write7_loop.simps [of v, abs_def] appends_def Let_def)
  next
    case False
    have "appends (\<lambda>w. case write8 (0x80 OR b) w of Inl e \<Rightarrow> Inl e
         | Inr w' \<Rightarrow> write7_loop ?v (ucast ?v AND 0x7F) w') ([0x80 OR b] @ enc7 ?v) w"
      using False by (intro appends_seq appends_write8 1(1)) simp_all
    then show ?thesis using False 1(2)
      by (simp add: enc7.simps [of v] write7_loop.simps [of v, abs_def] appends_def Let_def)
  qed
qed

section \<open>The 7-bit code is its own inverse\<close>

lemma seven_bits:
  fixes x :: byte
  shows "(0x80 OR (x AND 0x7F)) AND 0x7F = x AND 0x7F" "(0x80 OR (x AND 0x7F)) AND 0x80 = 0x80"
    "(x AND 0x7F) AND 0x80 = 0" "(x AND 0x7F) AND 0x7F = x AND 0x7F"
  by (rule word_eq_bits, simp add: bit_blast)+

lemma ucast_low7: "ucast (ucast (v :: 'a::len word) AND 0x7F :: byte) = (take_bit 7 v :: 'a word)"
proof -
  have "(ucast v AND 0x7F :: byte) = take_bit 7 (ucast v)"
    by (rule word_eq_bits) (simp add: bit_blast)
  then show ?thesis by (simp only:) (rule bit_word_eqI, auto simp: bit_simps)
qed

lemma take_bit_step:
  fixes V :: "'a::len word"
  shows "take_bit k V OR push_bit k (take_bit 7 (drop_bit k V)) = take_bit (k + 7) V"
  by (rule bit_word_eqI) (auto simp: bit_simps)

lemma drop_bit_0_take: "drop_bit k V = 0 \<Longrightarrow> take_bit k V = (V :: 'a::len word)"
  using bits_ident [of k V] by simp

lemma drop_bit_nz: "drop_bit k (V :: 'a::len word) \<noteq> 0 \<Longrightarrow> k < LENGTH('a)"
  by (rule ccontr) (auto simp: bit_eq_iff bit_simps dest: bit_imp_le_length)

lemma read7_loop_enc7:
  fixes V :: "'a::len word"
  assumes "ready r (enc7 (drop_bit k V) @ rest)" "k < LENGTH('a)"
  shows "\<exists>r'. read7_loop (take_bit k V) k r = Some (V, r') \<and> ready r' rest \<and> rflip r' = rflip r"
  using assms
proof (induction "LENGTH('a) - k" arbitrary: k r rule: less_induct)
  case less
  let ?v = "drop_bit k V"
  let ?r = "r\<lparr>rcur := rcur r + 1\<rparr>"
  have shift: "drop_bit 7 ?v = drop_bit (k + 7) V" by (simp add: add.commute)
  have lim: "\<not> max 32 LENGTH('a) \<le> k" using less.prems(2) by simp
  show ?case
  proof (cases "drop_bit (k + 7) V = 0")
    case True
    then have e: "ready r ((ucast ?v AND 0x7F) # rest)"
      using less.prems(1) enc7.simps [of ?v] by (simp add: shift Let_def del: drop_bit_drop_bit)
    then show ?thesis
      using ready_Cons [OF e] lim True
      by (simp add: read7_loop.simps [of _ _ r] seven_bits ucast_low7 take_bit_step drop_bit_0_take Let_def)
  next
    case False
    then have e: "ready r ((0x80 OR (ucast ?v AND 0x7F)) # (enc7 (drop_bit (k + 7) V) @ rest))"
      using less.prems(1) enc7.simps [of ?v] by (simp add: shift Let_def del: drop_bit_drop_bit)
    have "k + 7 < LENGTH('a)" using False by (rule drop_bit_nz)
    then show ?thesis
      using less.hyps [of "k + 7" ?r] ready_Cons [OF e] lim
      by (simp add: read7_loop.simps [of _ _ r] seven_bits ucast_low7 take_bit_step Let_def)
  qed
qed

lemma read7Bit_enc7:
  assumes "ready r (enc7 (V :: 'a::len word) @ rest)"
  shows "\<exists>r'. BinaryReader_read7Bit_unsigned r = Some (V, r') \<and> ready r' rest \<and> rflip r' = rflip r"
  using read7_loop_enc7 [of r 0 V rest] assms by (simp add: BinaryReader_read7Bit_unsigned_def)

lemma sign_bit_back:
  fixes u :: "'a::len word"
  assumes w: "2 \<le> LENGTH('a)" and u: "\<not> bit u (LENGTH('a) - 1)" "\<not> bit u (LENGTH('a) - 2)"
  shows "signed_drop_bit 1 (push_bit 1 u OR (if b then 1 else 0)) = u"
proof (rule bit_word_eqI)
  fix n assume n: "n < LENGTH('a)"
  show "bit (signed_drop_bit 1 (push_bit 1 u OR (if b then 1 else 0))) n = bit u n"
  proof (cases "LENGTH('a) - 1 \<le> n")
    case True
    then have "n = LENGTH('a) - 1" using n by simp
    moreover have "LENGTH('a) - Suc (Suc 0) = LENGTH('a) - 2" by simp
    ultimately show ?thesis using u w by (auto simp: bit_simps simp del: push_bit_Suc)
  next
    case False
    then show ?thesis using n w by (auto simp: bit_simps simp del: push_bit_Suc)
  qed
qed

lemma sint_of_int_small:
  "\<bar>i\<bar> < 2 ^ (LENGTH('a) - 2) \<Longrightarrow> sint (of_int i :: 'a::len word) = i"
proof -
  assume i: "\<bar>i\<bar> < 2 ^ (LENGTH('a) - 2)"
  have "\<bar>i\<bar> < 2 ^ (LENGTH('a) - 1)" by (rule less_le_trans [OF i]) simp
  then have "- (2 ^ (LENGTH('a) - 1)) \<le> i" "i < 2 ^ (LENGTH('a) - 1)" by simp_all
  then show ?thesis by (simp add: signed_of_int signed_take_bit_int_eq_self)
qed

lemma read7_write7_sign:
  fixes i :: int
  assumes w: "2 \<le> LENGTH('a::len)" and i: "\<bar>i\<bar> < 2 ^ (LENGTH('a) - 2)"
  shows "read7_unsign (write7_sign (of_int i :: 'a word)) = of_int i"
proof -
  have no_bit: "\<not> bit (of_int \<bar>i\<bar> :: 'a word) n" if "LENGTH('a) - 2 \<le> n" for n
  proof -
    have "\<bar>i\<bar> < 2 ^ n" by (rule less_le_trans [OF i]) (use that in simp)
    then have "\<not> bit \<bar>i\<bar> n" by (simp add: bit_iff_odd)
    then show ?thesis by (simp add: bit_word_of_int_iff)
  qed
  have undo: "signed_drop_bit 1 (push_bit 1 (of_int \<bar>i\<bar> :: 'a word) OR (if b then 1 else 0)) = of_int \<bar>i\<bar>" for b
    by (rule sign_bit_back) (use w no_bit in auto)
  note s = sint_of_int_small [OF i]
  show ?thesis
  proof (cases "i < 0")
    case True
    then have "write7_sign (of_int i :: 'a word) = push_bit 1 (of_int \<bar>i\<bar>) OR 1"
      using s by (simp add: write7_sign_def push_bit_eq_mult)
    then show ?thesis using undo [of True] True w by (simp add: read7_unsign_def bit_simps Let_def del: push_bit_Suc)
  next
    case False
    then have "write7_sign (of_int i :: 'a word) = push_bit 1 (of_int \<bar>i\<bar>)"
      using s by (simp add: write7_sign_def)
    then show ?thesis using undo [of False] False w by (simp add: read7_unsign_def bit_simps Let_def del: push_bit_Suc)
  qed
qed

end
