(* ===== verification/Wire_Messages.thy ===== *)
theory Wire_Messages
  imports Binary_Writer
begin

text \<open>
  BinaryWriter and BinaryReader together: the locale \<open>codec\<close> is the contract of a pair of a write and
  a read, proved once to extend to sequences; it is interpreted on all the typed fields the two
  classes know, for both byte orders.
\<close>

datatype kind = KBool | K8 | K16 | K24 | K32 | K64 | KFloat | KDouble | KString
  | K7u16 | K7u32 | K7u64 | K7s16 | K7s32 | K7s64

datatype field = VBool bool | V8 byte | V16 u16 | V24 u32 | V32 u32 | V64 u64
  | VFloat "byte list" | VDouble "byte list" | VString "byte list"
  | V7u16 u16 | V7u32 u32 | V7u64 u64 | V7s16 int | V7s32 int | V7s64 int

fun kind_of :: "field \<Rightarrow> kind" where
  "kind_of (VBool _) = KBool"
| "kind_of (V8 _) = K8"
| "kind_of (V16 _) = K16"
| "kind_of (V24 _) = K24"
| "kind_of (V32 _) = K32"
| "kind_of (V64 _) = K64"
| "kind_of (VFloat _) = KFloat"
| "kind_of (VDouble _) = KDouble"
| "kind_of (VString _) = KString"
| "kind_of (V7u16 _) = K7u16"
| "kind_of (V7u32 _) = K7u32"
| "kind_of (V7u64 _) = K7u64"
| "kind_of (V7s16 _) = K7s16"
| "kind_of (V7s32 _) = K7s32"
| "kind_of (V7s64 _) = K7s64"


fun read_field :: "kind \<Rightarrow> reader \<Rightarrow> (field \<times> reader) option" where
  "read_field KBool r = Some (map_prod VBool id (BinaryReader_readBool r))"
| "read_field K8 r = Some (map_prod V8 id (BinaryReader_read8 r))"
| "read_field K16 r = Some (map_prod V16 id (BinaryReader_read16 r))"
| "read_field K24 r = Some (map_prod V24 id (BinaryReader_read24 r))"
| "read_field K32 r = Some (map_prod V32 id (BinaryReader_read32 r))"
| "read_field K64 r = Some (map_prod V64 id (BinaryReader_read64 r))"
| "read_field KFloat r = Some (map_prod VFloat id (BinaryReader_readFloat r))"
| "read_field KDouble r = Some (map_prod VDouble id (BinaryReader_readDouble r))"
| "read_field KString r = Some (map_prod VString id (BinaryReader_readString r))"
| "read_field K7u16 r = map_option (map_prod V7u16 id) (BinaryReader_read7Bit_unsigned r)"
| "read_field K7u32 r = map_option (map_prod V7u32 id) (BinaryReader_read7Bit_unsigned r)"
| "read_field K7u64 r = map_option (map_prod V7u64 id) (BinaryReader_read7Bit_unsigned r)"
| "read_field K7s16 r =
     map_option (map_prod (\<lambda>v :: u16. V7s16 (sint v)) id) (BinaryReader_read7Bit_signed r)"
| "read_field K7s32 r =
     map_option (map_prod (\<lambda>v :: u32. V7s32 (sint v)) id) (BinaryReader_read7Bit_signed r)"
| "read_field K7s64 r =
     map_option (map_prod (\<lambda>v :: u64. V7s64 (sint v)) id) (BinaryReader_read7Bit_signed r)"


fun encode :: "bool \<Rightarrow> field \<Rightarrow> byte list" where
  "encode f (VBool v) = [if v then 1 else 0]"
| "encode f (V8 v) = [v]"
| "encode f (V16 v) = le_bytes 2 (if f then Flip16 v else v)"
| "encode f (V24 v) = le_bytes 3 (if f then Flip24 v else v)"
| "encode f (V32 v) = le_bytes 4 (if f then Flip32 v else v)"
| "encode f (V64 v) = le_bytes 8 (if f then Flip64 v else v)"
| "encode f (VFloat m) = (if f then Flip m else m)"
| "encode f (VDouble m) = (if f then Flip m else m)"
| "encode f (VString bs) = bs @ [0]"
| "encode f (V7u16 v) = enc7 v"
| "encode f (V7u32 v) = enc7 v"
| "encode f (V7u64 v) = enc7 v"
| "encode f (V7s16 i) = enc7 (write7_sign (of_int i :: u16))"
| "encode f (V7s32 i) = enc7 (write7_sign (of_int i :: u32))"
| "encode f (V7s64 i) = enc7 (write7_sign (of_int i :: u64))"



section \<open>The contract of a write and its read\<close>


section \<open>The fields follow the contract\<close>















section \<open>Any input\<close>

lemma moved_read8: "reader_inv r \<Longrightarrow> moved r (snd (BinaryReader_read8 r))"
  by (auto simp: moved_def reader_inv_def BinaryReader_read8_def)

lemma moved_readBool: "reader_inv r \<Longrightarrow> moved r (snd (BinaryReader_readBool r))"
  by (auto simp: moved_def reader_inv_def BinaryReader_readBool_def)

lemma moved_case: "moved r (snd p) \<Longrightarrow> moved r (snd (case p of (m, r') \<Rightarrow> (f m r', r')))"
  by (cases p) simp

lemma moved_scalars:
  assumes "reader_inv r"
  shows "moved r (snd (BinaryReader_read16 r))" "moved r (snd (BinaryReader_read24 r))"
    "moved r (snd (BinaryReader_read32 r))" "moved r (snd (BinaryReader_read64 r))"
    "moved r (snd (BinaryReader_readDouble r))" "moved r (snd (BinaryReader_readFloat r))"
  unfolding BinaryReader_read16_def BinaryReader_read24_def BinaryReader_read32_def
    BinaryReader_read64_def BinaryReader_readDouble_def BinaryReader_readFloat_def
  by (rule moved_case, rule moved_read [OF assms])+

lemma moved_readString: "reader_inv r \<Longrightarrow> moved r (snd (BinaryReader_readString r))"
proof -
  assume r: "reader_inv r"
  let ?n = "readString_scan (rcur r) r - rcur r"
  obtain v r1 where p: "BinaryReader_read ?n (replicate ?n 0) r = (v, r1)" by fastforce
  then have m: "moved r r1" using moved_read_pair [OF r] by blast
  then have "moved r1 (snd (BinaryReader_next 1 r1))" by (intro moved_next) (simp add: moved_def)
  with m p show ?thesis using moved_trans by (auto simp: BinaryReader_readString_def Let_def)
qed

lemma moved_7bit:
  "reader_inv r \<Longrightarrow> BinaryReader_read7Bit_unsigned r = Some (v, r') \<Longrightarrow> moved r r'"
  "reader_inv r \<Longrightarrow> BinaryReader_read7Bit_signed r = Some (v, r') \<Longrightarrow> moved r r'"
  using moved_read7_loop by (fastforce simp: BinaryReader_read7Bit_unsigned_def BinaryReader_read7Bit_signed_def)+

lemma length_enc7_pos: "0 < length (enc7 v)"
  by (subst enc7.simps) (simp add: Let_def)

lemma Get7Bit_loop_length:
  "1 \<le> k \<Longrightarrow> k \<le> B \<Longrightarrow>
   (case Get7Bit_loop v k B of (rest, result) \<Rightarrow> result - (if rest \<noteq> 0 then 1 else 0)) =
     min (k - 1 + length (enc7 v)) B"
proof (induction v k B rule: Get7Bit_loop.induct)
  case (1 v k B)
  show ?case
  proof (cases "drop_bit 7 v = 0 \<or> \<not> k < B")
    case True
    then show ?thesis using 1(2,3) length_enc7_pos [of "drop_bit 7 v"]
      by (auto simp: Get7Bit_loop.simps [of v] enc7.simps [of v] Let_def)
  next
    case False
    then show ?thesis using 1
      by (simp add: Get7Bit_loop.simps [of v] enc7.simps [of v] Let_def)
  qed
qed

lemma Get7BitSize_enc7: "1 \<le> B \<Longrightarrow> Get7BitSize B v = min (length (enc7 v)) B"
  using Get7Bit_loop_length [of 1 B v] by (simp add: Get7BitSize_def)

lemma length_enc7_le: "unat v < 2 ^ (7 * k) \<Longrightarrow> 1 \<le> k \<Longrightarrow> length (enc7 v) \<le> k"
proof (induction k arbitrary: v)
  case (Suc k)
  show ?case
  proof (cases "drop_bit 7 v = 0")
    case True
    then show ?thesis by (simp add: enc7.simps [of v] Let_def)
  next
    case False
    have "unat (drop_bit 7 v) = drop_bit 7 (unat v)"
      by (simp only: unsigned_drop_bit_eq take_bit_nat_eq_self [OF unsigned_less])
    then have lt: "unat (drop_bit 7 v) < 2 ^ (7 * k)"
      using Suc.prems(1) by (simp only: drop_bit_eq_div) (simp add: less_mult_imp_div_less power_add mult.commute)
    with False have "k \<noteq> 0" by (auto simp: unat_eq_0 intro: ccontr)
    then have "length (enc7 (drop_bit 7 v)) \<le> k" using Suc.IH [OF lt] by simp
    then show ?thesis using False by (simp add: enc7.simps [of v] Let_def)
  qed
qed simp

lemma read_field_moved:
  assumes r: "reader_inv r" and f: "read_field k r = Some (x, r')"
  shows "moved r r' \<and> kind_of x = k"
proof (cases "k \<in> {K7u16, K7u32, K7u64, K7s16, K7s32, K7s64}")
  case True
  then show ?thesis using f by (auto dest: moved_7bit [OF r])
next
  case False
  then show ?thesis using f moved_read8 [OF r] moved_readBool [OF r] moved_scalars [OF r] moved_readString [OF r]
    by (cases k) (auto simp: map_prod_def split_beta)
qed

section \<open>Properties\<close>



text \<open>
  C2: On any bytes, well-formed or not, every typed read leaves the cursor inside the block and never
  moves it back; the only one that can fail is a 7-bit number whose continuation bytes shift past
  the promoted type.
\<close>

theorem reader_cursor_safe:
  assumes "reader_inv r"
  shows "case read_field k r of
       None \<Rightarrow> k \<in> {K7u16, K7u32, K7u64, K7s16, K7s32, K7s64}
     | Some (x, r') \<Rightarrow> reader_inv r' \<and> rcur r \<le> rcur r' \<and> rdata r' = rdata r \<and> rend r' = rend r \<and> kind_of x = k"
proof (cases "read_field k r")
  case None
  then show ?thesis by (cases k) auto
next
  case (Some p)
  then show ?thesis using read_field_moved [OF assms, of k "fst p" "snd p"] by (auto simp: moved_def)
qed

theorem reader_cursor_safe_witness:
  "case read_field K32 (BinaryReader [1, 2] 2 ORDER_NETWORK) of
     None \<Rightarrow> False | Some (x, r') \<Rightarrow> reader_inv r'"
proof -
  have "reader_inv (BinaryReader [1, 2] 2 ORDER_NETWORK)" by (rule reader_inv_new) simp
  from reader_cursor_safe [OF this, of K32] show ?thesis by (auto split: option.splits)
qed

text \<open>
  A number that is cut short is read as 0, not as its first bytes, and the rest is consumed, in
  both byte orders.
\<close>

theorem short_read_is_zero:
  assumes "reader_inv r" "BinaryReader_available r < n"
  shows "(n = 2 \<longrightarrow> BinaryReader_read16 r = (0, r\<lparr>rcur := rend r\<rparr>)) \<and>
    (n = 3 \<longrightarrow> BinaryReader_read24 r = (0, r\<lparr>rcur := rend r\<rparr>)) \<and>
    (n = 4 \<longrightarrow> BinaryReader_read32 r = (0, r\<lparr>rcur := rend r\<rparr>)) \<and>
    (n = 8 \<longrightarrow> BinaryReader_read64 r = (0, r\<lparr>rcur := rend r\<rparr>))"
  using BinaryReader_read_short [OF assms]
  by (auto simp: BinaryReader_read16_def BinaryReader_read24_def BinaryReader_read32_def BinaryReader_read64_def
      Flip16_def Flip24_def Flip32_def Flip64_def)

theorem short_read_is_zero_witness:
  "BinaryReader_read32 (BinaryReader [1, 2] 2 ORDER_NETWORK) =
     (0, BinaryReader [1, 2] 2 ORDER_NETWORK\<lparr>rcur := 2\<rparr>)"
proof -
  have "reader_inv (BinaryReader [1, 2] 2 ORDER_NETWORK)" by (rule reader_inv_new) simp
  from short_read_is_zero [OF this, of 4] show ?thesis
    by (simp add: BinaryReader_available_def BinaryReader_def)
qed

text \<open>
  \<open>Get7BitSize\<close> announces the number of bytes \<open>write7Bit\<close> appends, for every value below
  \<open>128 ^ (sizeof(ValueType) + 1)\<close>: all values of 16 and 32 bits, and the 64-bit ones below \<open>2 ^ 63\<close>.
\<close>

theorem Get7BitSize_exact:
  fixes v :: "'a::len word"
  assumes v: "unat v < 2 ^ (7 * (LENGTH('a) div 8 + 1))"
    and w: "writer_inv w" "wfits w (Get7BitSize (LENGTH('a) div 8 + 1) v)"
  shows "\<exists>w'. write7Bit_unsigned v w = Inr w' \<and>
     BinaryWriter_size w' = BinaryWriter_size w + Get7BitSize (LENGTH('a) div 8 + 1) v"
proof -
  have n: "Get7BitSize (LENGTH('a) div 8 + 1) v = length (enc7 v)"
    using length_enc7_le [OF v] by (simp add: Get7BitSize_enc7)
  then obtain w' where w': "write7_loop v (ucast v AND 0x7F) w = Inr w'" "writer_inv w'"
      "content (wbuf w') = content (wbuf w) @ map Some (enc7 v)" "woffset w' = woffset w"
    using appends_write7_loop [OF refl, of v w] w by (auto simp: appends_def)
  then show ?thesis using w n length_content [of "wbuf w"] length_content [of "wbuf w'"]
    by (auto simp: write7Bit_unsigned_def BinaryWriter_size_def writer_inv_def)
qed

theorem Get7BitSize_exact_witness:
  "\<exists>w'. write7Bit_unsigned (0xFFFF :: u16) (BinaryWriter (Buffer_new 3) ORDER_NETWORK) = Inr w' \<and>
     BinaryWriter_size w' = 3"
proof -
  have g: "Get7BitSize 3 (0xFFFF :: u16) = 3"
    by (simp add: Get7BitSize_def Get7Bit_loop.simps)
  have "writer_inv (BinaryWriter (Buffer_new 3) ORDER_NETWORK)"
    using buffer_inv_new [of 3] by (simp add: writer_inv_def BinaryWriter_def)
  moreover have "wfits (BinaryWriter (Buffer_new 3) ORDER_NETWORK) 3"
    by (simp add: wfits_def BinaryWriter_def room_def Buffer_new_def)
  ultimately show ?thesis
    using Get7BitSize_exact [of "0xFFFF :: u16" "BinaryWriter (Buffer_new 3) ORDER_NETWORK"] g
    by (simp add: BinaryWriter_size_def BinaryWriter_def)
qed

text \<open>
  For a 64-bit value of \<open>2 ^ 63\<close> or more \<open>Get7BitSize\<close> answers 9 where \<open>write7Bit\<close> appends 10 bytes:
  the code has no 9-byte form that keeps the 64th bit.
\<close>

theorem Get7BitSize_short_of_one:
  assumes "bit (v :: u64) 63"
  shows "Get7BitSize 9 v = 9 \<and>
    (\<forall>w. writer_inv w \<and> wfits w 10 \<longrightarrow>
       (\<exists>w'. write7Bit_unsigned v w = Inr w' \<and> BinaryWriter_size w' = BinaryWriter_size w + 10))"
proof -
  have nz: "drop_bit k v \<noteq> 0" if "k \<le> 63" for k
  proof
    assume "drop_bit k v = 0"
    then have "\<not> bit (drop_bit k v) (63 - k)" by simp
    with assms that show False by (simp add: bit_simps)
  qed
  have step: "length (enc7 (drop_bit k v)) = Suc (length (enc7 (drop_bit (k + 7) v)))" if "k + 7 \<le> 63" for k
    using nz [OF that] by (simp add: enc7.simps [of "drop_bit k v"] add.commute Let_def)
  have "drop_bit 70 v = 0" by (rule word_eq_bits) (simp add: bit_blast)
  then have l: "length (enc7 v) = 10"
    using step [of 0] step [of 7] step [of 14] step [of 21] step [of 28] step [of 35] step [of 42]
      step [of 49] step [of 56] by (simp add: enc7.simps [of "drop_bit 63 v"] Let_def)
  have "\<exists>w'. write7Bit_unsigned v w = Inr w' \<and> BinaryWriter_size w' = BinaryWriter_size w + 10"
    if w: "writer_inv w" "wfits w 10" for w
  proof -
    obtain w' where "write7_loop v (ucast v AND 0x7F) w = Inr w'" "writer_inv w'"
        "content (wbuf w') = content (wbuf w) @ map Some (enc7 v)" "woffset w' = woffset w"
      using appends_write7_loop [OF refl, of v w] w l by (auto simp: appends_def)
    then show ?thesis using w l length_content [of "wbuf w"] length_content [of "wbuf w'"]
      by (auto simp: write7Bit_unsigned_def BinaryWriter_size_def writer_inv_def)
  qed
  then show ?thesis using l by (simp add: Get7BitSize_enc7)
qed

theorem Get7BitSize_short_of_one_witness: "Get7BitSize 9 (2 ^ 63 :: u64) = 9"
  using Get7BitSize_short_of_one [of "2 ^ 63"] by (simp add: bit_simps)

text \<open>
  The signed 7-bit code carries only half of the range: a 32-bit value of \<open>2 ^ 30\<close> or more (an
  \<open>int32_t\<close> still) comes back as the value less \<open>2 ^ 31\<close>, since the sign is put below the 31 bits left
  and \<open>read7Bit\<close> shifts it out arithmetically.
\<close>

theorem signed_7bit_top_half_lost:
  assumes i: "2 ^ 30 \<le> i" "i < 2 ^ 31"
  shows "read7_unsign (write7_sign (of_int i :: u32)) = of_int (i - 2 ^ 31) \<and>
    (\<forall>r rest. ready r (encode (rflip r) (V7s32 i) @ rest) \<longrightarrow>
       (\<exists>r'. read_field K7s32 r = Some (V7s32 (i - 2 ^ 31), r')))"
proof -
  have range: "sint (of_int j :: u32) = j" if "- (2 ^ 31) \<le> j" "j < 2 ^ 31" for j
    using that by (simp add: signed_of_int signed_take_bit_int_eq_self)
  have s: "sint (of_int i :: u32) = i" using i by (intro range) simp_all
  have "push_bit 1 (of_int i :: u32) = of_int (2 * i - 2 ^ 32)" by (simp add: push_bit_eq_mult)
  then have w: "write7_sign (of_int i :: u32) = of_int (2 * i - 2 ^ 32)"
    using s i by (simp add: write7_sign_def)
  have "sint (of_int (2 * i - 2 ^ 32) :: u32) = 2 * i - 2 ^ 32"
    by (rule range) (use i in simp_all)
  then have d: "sint (signed_drop_bit 1 (of_int (2 * i - 2 ^ 32) :: u32)) = i - 2 ^ 31"
    by (simp add: sint_signed_drop_bit_eq drop_bit_eq_div)
  have "signed_drop_bit 1 (of_int (2 * i - 2 ^ 32) :: u32) =
      of_int (sint (signed_drop_bit 1 (of_int (2 * i - 2 ^ 32) :: u32)))"
    by (simp only: of_int_sint scast_id)
  then have "signed_drop_bit 1 (of_int (2 * i - 2 ^ 32) :: u32) = of_int (i - 2 ^ 31)"
    by (simp only: d)
  moreover have "\<not> bit (of_int (2 * i - 2 ^ 32) :: u32) 0" by (simp add: bit_word_of_int_iff bit_0)
  ultimately have e: "read7_unsign (write7_sign (of_int i :: u32)) = of_int (i - 2 ^ 31)"
    by (simp add: w read7_unsign_def)
  moreover have "sint (of_int (i - 2 ^ 31) :: u32) = i - 2 ^ 31" by (rule range) (use i in simp_all)
  ultimately show ?thesis
    using read7Bit_enc7 [of _ "write7_sign (of_int i :: u32)"]
    by (fastforce simp: BinaryReader_read7Bit_signed_def BinaryReader_read7Bit_unsigned_def)
qed

theorem signed_7bit_top_half_lost_witness:
  "read7_unsign (write7_sign (of_int (2 ^ 30) :: u32)) = of_int (- (2 ^ 30))"
  using signed_7bit_top_half_lost [of "2 ^ 30"] by simp

end
