(* ===== verification/Ascii.thy ===== *)
theory Ascii
  imports Prelude
begin

text \<open>
  Mona/Mona.h and Mona/Mona.cpp: the character classes (\<open>ASCII::_CharacterTypes\<close> and the
  \<open>isXXX\<close> wrappers), the case conversions, the saturating conversion \<open>range\<close>, and the two
  backward searches \<open>strrstr\<close> and \<open>strrpbrk\<close>. The lemmas give each class as the interval of
  codes it stands for, for all 256 characters.
\<close>

section \<open>Character classes\<close>

definition CONTROL :: nat where "CONTROL = 0x0001"
definition BLANK :: nat where "BLANK = 0x0002"
definition SPACE :: nat where "SPACE = 0x0004"
definition PUNCT :: nat where "PUNCT = 0x0008"
definition DIGIT :: nat where "DIGIT = 0x0010"
definition HEXDIGIT :: nat where "HEXDIGIT = 0x0020"
definition ALPHA :: nat where "ALPHA = 0x0040"
definition LOWER :: nat where "LOWER = 0x0080"
definition UPPER :: nat where "UPPER = 0x0100"
definition GRAPH :: nat where "GRAPH = 0x0200"
definition PRINT :: nat where "PRINT = 0x0400"
definition XML :: nat where "XML = 0x0800"

definition CharacterTypes :: "nat list" where
  "CharacterTypes = [
    CONTROL,
    CONTROL,
    CONTROL,
    CONTROL,
    CONTROL,
    CONTROL,
    CONTROL,
    CONTROL,
    CONTROL,
    CONTROL OR SPACE OR BLANK,
    CONTROL OR SPACE,
    CONTROL OR SPACE,
    CONTROL OR SPACE,
    CONTROL OR SPACE,
    CONTROL,
    CONTROL,
    CONTROL,
    CONTROL,
    CONTROL,
    CONTROL,
    CONTROL,
    CONTROL,
    CONTROL,
    CONTROL,
    CONTROL,
    CONTROL,
    CONTROL,
    CONTROL,
    CONTROL,
    CONTROL,
    CONTROL,
    CONTROL,
    SPACE OR BLANK OR PRINT,
    PUNCT OR GRAPH OR PRINT,
    PUNCT OR GRAPH OR PRINT,
    PUNCT OR GRAPH OR PRINT,
    PUNCT OR GRAPH OR PRINT,
    PUNCT OR GRAPH OR PRINT,
    PUNCT OR GRAPH OR PRINT,
    PUNCT OR GRAPH OR PRINT,
    PUNCT OR GRAPH OR PRINT,
    PUNCT OR GRAPH OR PRINT,
    PUNCT OR GRAPH OR PRINT,
    PUNCT OR GRAPH OR PRINT,
    PUNCT OR GRAPH OR PRINT,
    PUNCT OR GRAPH OR PRINT OR XML,
    PUNCT OR GRAPH OR PRINT OR XML,
    PUNCT OR GRAPH OR PRINT,
    DIGIT OR HEXDIGIT OR GRAPH OR PRINT OR XML,
    DIGIT OR HEXDIGIT OR GRAPH OR PRINT OR XML,
    DIGIT OR HEXDIGIT OR GRAPH OR PRINT OR XML,
    DIGIT OR HEXDIGIT OR GRAPH OR PRINT OR XML,
    DIGIT OR HEXDIGIT OR GRAPH OR PRINT OR XML,
    DIGIT OR HEXDIGIT OR GRAPH OR PRINT OR XML,
    DIGIT OR HEXDIGIT OR GRAPH OR PRINT OR XML,
    DIGIT OR HEXDIGIT OR GRAPH OR PRINT OR XML,
    DIGIT OR HEXDIGIT OR GRAPH OR PRINT OR XML,
    DIGIT OR HEXDIGIT OR GRAPH OR PRINT OR XML,
    PUNCT OR GRAPH OR PRINT OR XML,
    PUNCT OR GRAPH OR PRINT,
    PUNCT OR GRAPH OR PRINT,
    PUNCT OR GRAPH OR PRINT,
    PUNCT OR GRAPH OR PRINT,
    PUNCT OR GRAPH OR PRINT,
    PUNCT OR GRAPH OR PRINT,
    HEXDIGIT OR ALPHA OR UPPER OR GRAPH OR PRINT OR XML,
    HEXDIGIT OR ALPHA OR UPPER OR GRAPH OR PRINT OR XML,
    HEXDIGIT OR ALPHA OR UPPER OR GRAPH OR PRINT OR XML,
    HEXDIGIT OR ALPHA OR UPPER OR GRAPH OR PRINT OR XML,
    HEXDIGIT OR ALPHA OR UPPER OR GRAPH OR PRINT OR XML,
    HEXDIGIT OR ALPHA OR UPPER OR GRAPH OR PRINT OR XML,
    ALPHA OR UPPER OR GRAPH OR PRINT OR XML,
    ALPHA OR UPPER OR GRAPH OR PRINT OR XML,
    ALPHA OR UPPER OR GRAPH OR PRINT OR XML,
    ALPHA OR UPPER OR GRAPH OR PRINT OR XML,
    ALPHA OR UPPER OR GRAPH OR PRINT OR XML,
    ALPHA OR UPPER OR GRAPH OR PRINT OR XML,
    ALPHA OR UPPER OR GRAPH OR PRINT OR XML,
    ALPHA OR UPPER OR GRAPH OR PRINT OR XML,
    ALPHA OR UPPER OR GRAPH OR PRINT OR XML,
    ALPHA OR UPPER OR GRAPH OR PRINT OR XML,
    ALPHA OR UPPER OR GRAPH OR PRINT OR XML,
    ALPHA OR UPPER OR GRAPH OR PRINT OR XML,
    ALPHA OR UPPER OR GRAPH OR PRINT OR XML,
    ALPHA OR UPPER OR GRAPH OR PRINT OR XML,
    ALPHA OR UPPER OR GRAPH OR PRINT OR XML,
    ALPHA OR UPPER OR GRAPH OR PRINT OR XML,
    ALPHA OR UPPER OR GRAPH OR PRINT OR XML,
    ALPHA OR UPPER OR GRAPH OR PRINT OR XML,
    ALPHA OR UPPER OR GRAPH OR PRINT OR XML,
    ALPHA OR UPPER OR GRAPH OR PRINT OR XML,
    PUNCT OR GRAPH OR PRINT,
    PUNCT OR GRAPH OR PRINT,
    PUNCT OR GRAPH OR PRINT,
    PUNCT OR GRAPH OR PRINT,
    PUNCT OR GRAPH OR PRINT OR XML,
    PUNCT OR GRAPH OR PRINT,
    HEXDIGIT OR ALPHA OR LOWER OR GRAPH OR PRINT OR XML,
    HEXDIGIT OR ALPHA OR LOWER OR GRAPH OR PRINT OR XML,
    HEXDIGIT OR ALPHA OR LOWER OR GRAPH OR PRINT OR XML,
    HEXDIGIT OR ALPHA OR LOWER OR GRAPH OR PRINT OR XML,
    HEXDIGIT OR ALPHA OR LOWER OR GRAPH OR PRINT OR XML,
    HEXDIGIT OR ALPHA OR LOWER OR GRAPH OR PRINT OR XML,
    ALPHA OR LOWER OR GRAPH OR PRINT OR XML,
    ALPHA OR LOWER OR GRAPH OR PRINT OR XML,
    ALPHA OR LOWER OR GRAPH OR PRINT OR XML,
    ALPHA OR LOWER OR GRAPH OR PRINT OR XML,
    ALPHA OR LOWER OR GRAPH OR PRINT OR XML,
    ALPHA OR LOWER OR GRAPH OR PRINT OR XML,
    ALPHA OR LOWER OR GRAPH OR PRINT OR XML,
    ALPHA OR LOWER OR GRAPH OR PRINT OR XML,
    ALPHA OR LOWER OR GRAPH OR PRINT OR XML,
    ALPHA OR LOWER OR GRAPH OR PRINT OR XML,
    ALPHA OR LOWER OR GRAPH OR PRINT OR XML,
    ALPHA OR LOWER OR GRAPH OR PRINT OR XML,
    ALPHA OR LOWER OR GRAPH OR PRINT OR XML,
    ALPHA OR LOWER OR GRAPH OR PRINT OR XML,
    ALPHA OR LOWER OR GRAPH OR PRINT OR XML,
    ALPHA OR LOWER OR GRAPH OR PRINT OR XML,
    ALPHA OR LOWER OR GRAPH OR PRINT OR XML,
    ALPHA OR LOWER OR GRAPH OR PRINT OR XML,
    ALPHA OR LOWER OR GRAPH OR PRINT OR XML,
    ALPHA OR LOWER OR GRAPH OR PRINT OR XML,
    PUNCT OR GRAPH OR PRINT,
    PUNCT OR GRAPH OR PRINT,
    PUNCT OR GRAPH OR PRINT,
    PUNCT OR GRAPH OR PRINT,
    CONTROL]"

definition Is :: "char \<Rightarrow> nat \<Rightarrow> bool" where
  "Is value type =
     (if code value AND 0x80 \<noteq> 0 then False else CharacterTypes ! code value AND type \<noteq> 0)"

definition isalnum :: "char \<Rightarrow> bool" where "isalnum value = Is value (ALPHA OR DIGIT)"
definition isalpha :: "char \<Rightarrow> bool" where "isalpha value = Is value ALPHA"
definition isblank :: "char \<Rightarrow> bool" where "isblank value = Is value BLANK"
definition iscntrl :: "char \<Rightarrow> bool" where "iscntrl value = Is value CONTROL"
definition isdigit :: "char \<Rightarrow> bool" where "isdigit value = Is value DIGIT"
definition isgraph :: "char \<Rightarrow> bool" where "isgraph value = Is value GRAPH"
definition islower :: "char \<Rightarrow> bool" where "islower value = Is value LOWER"
definition isprint :: "char \<Rightarrow> bool" where "isprint value = Is value PRINT"
definition ispunct :: "char \<Rightarrow> bool" where "ispunct value = Is value PUNCT"
definition isspace :: "char \<Rightarrow> bool" where "isspace value = Is value SPACE"
definition isupper :: "char \<Rightarrow> bool" where "isupper value = Is value UPPER"
definition isxdigit :: "char \<Rightarrow> bool" where "isxdigit value = Is value HEXDIGIT"
definition isxml :: "char \<Rightarrow> bool" where "isxml value = Is value XML"

definition toLower :: "char \<Rightarrow> char" where
  "toLower value = (if Is value UPPER then chr (code value + 32) else value)"
definition toUpper :: "char \<Rightarrow> char" where
  "toUpper value = (if Is value LOWER then chr (code value - 32) else value)"
definition tolower :: "char \<Rightarrow> char" where "tolower value = toLower value"
definition toupper :: "char \<Rightarrow> char" where "toupper value = toUpper value"

section \<open>Saturating conversion\<close>

text \<open>
  \<open>range<RangeType, Type>\<close>: \<open>lo\<close> and \<open>hi\<close> (\<open>Min\<close> and \<open>Max\<close> in the code) are the limits of \<open>RangeType\<close>, and \<open>conv\<close> is
  \<open>static_cast<Type>\<close>, which is not the identity when \<open>Type\<close> is narrower or of other sign.
\<close>

definition range_to :: "(int \<Rightarrow> int) \<Rightarrow> int \<Rightarrow> int \<Rightarrow> int \<Rightarrow> int" where
  "range_to conv lo hi number =
     (if number > conv hi then hi else if number < conv lo then lo else number)"

definition cast_unsigned :: "nat \<Rightarrow> int \<Rightarrow> int" where
  "cast_unsigned w x = x mod 2 ^ w"

definition cast_signed :: "nat \<Rightarrow> int \<Rightarrow> int" where
  "cast_signed w x = (x + 2 ^ (w - 1)) mod 2 ^ w - 2 ^ (w - 1)"

section \<open>Backward searches\<close>

text \<open>\<open>strrstr\<close>: the last position where \<open>what\<close> occurs in \<open>where\<close>, as an index.\<close>

fun strrstr_loop :: "string \<Rightarrow> string \<Rightarrow> nat \<Rightarrow> nat option" where
  "strrstr_loop s what 0 = (if take (length what) s = what then Some 0 else None)"
| "strrstr_loop s what (Suc v) =
     (if take (length what) (drop (Suc v) s) = what then Some (Suc v)
      else strrstr_loop s what v)"

definition strrstr :: "string \<Rightarrow> string \<Rightarrow> nat option" where
  "strrstr s what =
     (if length what > length s then None
      else strrstr_loop s what (length s - length what))"

text \<open>\<open>strrpbrk\<close>: the last position holding one of the markers.\<close>

fun strrpbrk_loop :: "string \<Rightarrow> string \<Rightarrow> nat \<Rightarrow> nat option" where
  "strrpbrk_loop value markers 0 = None"
| "strrpbrk_loop value markers (Suc v) =
     (if value ! v \<in> set markers then Some v else strrpbrk_loop value markers v)"

definition strrpbrk :: "string \<Rightarrow> string \<Rightarrow> nat option" where
  "strrpbrk value markers = strrpbrk_loop value markers (length value)"

section \<open>The classes as intervals\<close>

text \<open>Each class is decided for the 256 characters, once; the component proofs use these facts.\<close>

lemmas flag_defs =
  CONTROL_def BLANK_def SPACE_def PUNCT_def DIGIT_def HEXDIGIT_def ALPHA_def LOWER_def
  UPPER_def GRAPH_def PRINT_def XML_def

lemma sign_bit: "n < 256 \<Longrightarrow> n AND 0x80 \<noteq> 0 \<longleftrightarrow> 128 \<le> (n :: nat)"
  by (rule all_256 [of "\<lambda>n. n AND 0x80 \<noteq> 0 \<longleftrightarrow> 128 \<le> n"]) (simp_all add: upt_0_numeral upt_1_numeral)

lemma Is_code:
  "Is c m \<longleftrightarrow> code c < 128 \<and> CharacterTypes ! code c AND m \<noteq> 0"
  using sign_bit [OF code_lt, of c] by (cases "code c < 128") (simp_all add: Is_def)

lemma CharacterTypes_values: "CharacterTypes = [
    Suc 0, Suc 0, Suc 0, Suc 0, Suc 0, Suc 0, Suc 0, Suc 0, Suc 0, 7, 5, 5,
    5, 5, Suc 0, Suc 0, Suc 0, Suc 0, Suc 0, Suc 0, Suc 0, Suc 0, Suc 0, Suc 0,
    Suc 0, Suc 0, Suc 0, Suc 0, Suc 0, Suc 0, Suc 0, Suc 0, 1030, 1544, 1544, 1544,
    1544, 1544, 1544, 1544, 1544, 1544, 1544, 1544, 1544, 3592, 3592, 1544,
    3632, 3632, 3632, 3632, 3632, 3632, 3632, 3632, 3632, 3632, 3592, 1544,
    1544, 1544, 1544, 1544, 1544, 3936, 3936, 3936, 3936, 3936, 3936, 3904,
    3904, 3904, 3904, 3904, 3904, 3904, 3904, 3904, 3904, 3904, 3904, 3904,
    3904, 3904, 3904, 3904, 3904, 3904, 3904, 1544, 1544, 1544, 1544, 3592,
    1544, 3808, 3808, 3808, 3808, 3808, 3808, 3776, 3776, 3776, 3776, 3776,
    3776, 3776, 3776, 3776, 3776, 3776, 3776, 3776, 3776, 3776, 3776, 3776,
    3776, 3776, 3776, 1544, 1544, 1544, 1544, Suc 0]"
  by (simp add: CharacterTypes_def flag_defs)

lemma length_CharacterTypes: "length CharacterTypes = 128"
  by (simp add: CharacterTypes_def)

lemma Is_class:
  assumes tbl: "list_all2 (\<lambda>n t. (t AND m \<noteq> 0) = Q n) [0..<128] CharacterTypes"
    and hi: "\<And>n. 128 \<le> n \<Longrightarrow> \<not> Q n"
  shows "Is c m \<longleftrightarrow> Q (code c)"
proof (cases "code c < 128")
  case True
  then have "(CharacterTypes ! code c AND m \<noteq> 0) = Q (code c)"
    using list_all2_nthD [OF tbl, of "code c"] by simp
  with True show ?thesis by (simp add: Is_code)
next
  case False
  then show ?thesis using hi [of "code c"] by (simp add: Is_code)
qed

lemmas class_simps = CharacterTypes_values flag_defs upt_0_numeral upt_1_numeral

lemma isdigit_iff: "isdigit c \<longleftrightarrow> 48 \<le> code c \<and> code c \<le> 57"
  unfolding isdigit_def by (rule Is_class) (simp_all add: class_simps)

lemma isupper_iff: "isupper c \<longleftrightarrow> 65 \<le> code c \<and> code c \<le> 90"
  unfolding isupper_def by (rule Is_class) (simp_all add: class_simps)

lemma islower_iff: "islower c \<longleftrightarrow> 97 \<le> code c \<and> code c \<le> 122"
  unfolding islower_def by (rule Is_class) (simp_all add: class_simps)

lemma isalpha_iff:
  "isalpha c \<longleftrightarrow> (65 \<le> code c \<and> code c \<le> 90) \<or> (97 \<le> code c \<and> code c \<le> 122)"
  unfolding isalpha_def by (rule Is_class) (simp_all add: class_simps)

lemma isalnum_iff:
  "isalnum c \<longleftrightarrow> (48 \<le> code c \<and> code c \<le> 57) \<or> (65 \<le> code c \<and> code c \<le> 90)
     \<or> (97 \<le> code c \<and> code c \<le> 122)"
  unfolding isalnum_def by (rule Is_class) (simp_all add: class_simps)

lemma isspace_iff: "isspace c \<longleftrightarrow> (9 \<le> code c \<and> code c \<le> 13) \<or> code c = 32"
  unfolding isspace_def by (rule Is_class) (simp_all add: class_simps)

lemma isblank_iff: "isblank c \<longleftrightarrow> code c = 9 \<or> code c = 32"
  unfolding isblank_def by (rule Is_class) (simp_all add: class_simps)

lemma iscntrl_iff: "iscntrl c \<longleftrightarrow> code c < 32 \<or> code c = 127"
  unfolding iscntrl_def by (rule Is_class) (simp_all add: class_simps)

lemma isxdigit_iff:
  "isxdigit c \<longleftrightarrow> (48 \<le> code c \<and> code c \<le> 57) \<or> (65 \<le> code c \<and> code c \<le> 70)
     \<or> (97 \<le> code c \<and> code c \<le> 102)"
  unfolding isxdigit_def by (rule Is_class) (simp_all add: class_simps)

lemma ispunct_iff:
  "ispunct c \<longleftrightarrow> (33 \<le> code c \<and> code c \<le> 47) \<or> (58 \<le> code c \<and> code c \<le> 64)
     \<or> (91 \<le> code c \<and> code c \<le> 96) \<or> (123 \<le> code c \<and> code c \<le> 126)"
  unfolding ispunct_def by (rule Is_class) (simp_all add: class_simps)

lemma isxml_iff:
  "isxml c \<longleftrightarrow> (45 \<le> code c \<and> code c \<le> 46) \<or> (48 \<le> code c \<and> code c \<le> 58)
     \<or> (65 \<le> code c \<and> code c \<le> 90) \<or> code c = 95 \<or> (97 \<le> code c \<and> code c \<le> 122)"
  unfolding isxml_def by (rule Is_class) (simp_all add: class_simps)

lemma code_toLower:
  "code (toLower c) = (if 65 \<le> code c \<and> code c \<le> 90 then code c + 32 else code c)"
  using isupper_iff [of c] by (simp add: toLower_def isupper_def)

lemma code_toUpper:
  "code (toUpper c) = (if 97 \<le> code c \<and> code c \<le> 122 then code c - 32 else code c)"
  using islower_iff [of c] by (auto simp: toUpper_def islower_def)

lemma toLower_idem [simp]: "toLower (toLower c) = toLower c"
proof -
  have "code (toLower (toLower c)) = code (toLower c)"
    by (simp add: code_toLower)
  then show ?thesis by simp
qed

lemma range_to_bounds:
  "conv hi = hi \<Longrightarrow> conv lo = lo \<Longrightarrow> lo \<le> hi \<Longrightarrow>
   lo \<le> range_to conv lo hi n \<and> range_to conv lo hi n \<le> hi"
  by (simp add: range_to_def)

lemma strrpbrk_loop_Some:
  "strrpbrk_loop s ms n = Some i \<Longrightarrow>
   i < n \<and> s ! i \<in> set ms \<and> (\<forall>j. i < j \<and> j < n \<longrightarrow> s ! j \<notin> set ms)"
  by (induction n) (auto split: if_splits simp: less_Suc_eq)

lemma strrpbrk_loop_None: "strrpbrk_loop s ms n = None \<longleftrightarrow> (\<forall>j < n. s ! j \<notin> set ms)"
  by (induction n) (auto simp: less_Suc_eq)

lemma strrstr_loop_Some:
  "strrstr_loop s what n = Some i \<Longrightarrow>
   i \<le> n \<and> take (length what) (drop i s) = what \<and>
   (\<forall>j. i < j \<and> j \<le> n \<longrightarrow> take (length what) (drop j s) \<noteq> what)"
  by (induction n) (auto split: if_splits simp: le_Suc_eq)

end
