(* ===== verification/Std_Map.thy ===== *)
theory Std_Map
  imports Prelude
begin

text \<open>
  \<open>std::map<Key, Value, Compare>\<close> as the code uses it: the entries in the order of the comparison,
  found and replaced by equivalence (neither key before the other). The comparison is an argument
  of the operations; what the standard demands of it is the locale \<open>strict_weak_order\<close>, and the laws
  of the operations are proved inside it.
\<close>

definition eqv :: "('k \<Rightarrow> 'k \<Rightarrow> bool) \<Rightarrow> 'k \<Rightarrow> 'k \<Rightarrow> bool" where
  "eqv lt a b \<longleftrightarrow> \<not> lt a b \<and> \<not> lt b a"

fun mfind :: "('k \<Rightarrow> 'k \<Rightarrow> bool) \<Rightarrow> 'k \<Rightarrow> ('k \<times> 'v) list \<Rightarrow> 'v option" where
  "mfind lt k [] = None"
| "mfind lt k ((j, v) # m) = (if lt k j then None else if lt j k then mfind lt k m else Some v)"

text \<open>\<open>m[k] = v\<close>: an equivalent key that is there stays as it is.\<close>

fun mput :: "('k \<Rightarrow> 'k \<Rightarrow> bool) \<Rightarrow> 'k \<Rightarrow> 'v \<Rightarrow> ('k \<times> 'v) list \<Rightarrow> ('k \<times> 'v) list" where
  "mput lt k v [] = [(k, v)]"
| "mput lt k v ((j, w) # m) =
     (if lt k j then (k, v) # (j, w) # m else if lt j k then (j, w) # mput lt k v m else (j, v) # m)"

fun merase :: "('k \<Rightarrow> 'k \<Rightarrow> bool) \<Rightarrow> 'k \<Rightarrow> ('k \<times> 'v) list \<Rightarrow> ('k \<times> 'v) list" where
  "merase lt k [] = []"
| "merase lt k ((j, w) # m) =
     (if lt k j then (j, w) # m else if lt j k then (j, w) # merase lt k m else m)"

text \<open>The entries from \<open>lower_bound(k)\<close>, from \<open>upper_bound(k)\<close>, to the end.\<close>

definition mlower :: "('k \<Rightarrow> 'k \<Rightarrow> bool) \<Rightarrow> 'k \<Rightarrow> ('k \<times> 'v) list \<Rightarrow> ('k \<times> 'v) list" where
  "mlower lt k m = dropWhile (\<lambda>(j, _). lt j k) m"

definition mupper :: "('k \<Rightarrow> 'k \<Rightarrow> bool) \<Rightarrow> 'k \<Rightarrow> ('k \<times> 'v) list \<Rightarrow> ('k \<times> 'v) list" where
  "mupper lt k m = dropWhile (\<lambda>(j, _). \<not> lt k j) m"

definition msorted :: "('k \<Rightarrow> 'k \<Rightarrow> bool) \<Rightarrow> ('k \<times> 'v) list \<Rightarrow> bool" where
  "msorted lt m = sorted_wrt (\<lambda>p q. lt (fst p) (fst q)) m"

lemma msorted_Nil [simp]: "msorted lt []"
  by (simp add: msorted_def)

lemma msorted_Cons [simp]:
  "msorted lt ((j, w) # m) \<longleftrightarrow> (\<forall>(k, v) \<in> set m. lt j k) \<and> msorted lt m"
  by (auto simp: msorted_def)

lemma keys_mput: "fst ` set (mput lt k v m) \<subseteq> insert k (fst ` set m)"
proof (induction m)
  case (Cons p m)
  then show ?case by (cases p) (simp, blast)
qed simp

lemma set_merase_subset: "set (merase lt k m) \<subseteq> set m"
proof (induction m)
  case (Cons p m)
  then show ?case by (cases p) (simp, blast)
qed simp

locale strict_weak_order =
  fixes lt :: "'k \<Rightarrow> 'k \<Rightarrow> bool"
  assumes irrefl: "\<not> lt a a"
    and trans: "lt a b \<Longrightarrow> lt b c \<Longrightarrow> lt a c"
    and cotrans: "lt a c \<Longrightarrow> lt a b \<or> lt b c"
begin

lemma asym: "lt a b \<Longrightarrow> \<not> lt b a"
  using irrefl trans by blast

lemma eqv_refl [simp]: "eqv lt a a"
  by (simp add: eqv_def irrefl)

lemma eqv_sym: "eqv lt a b \<longleftrightarrow> eqv lt b a"
  by (auto simp: eqv_def)

lemma eqv_trans: "eqv lt a b \<Longrightarrow> eqv lt b c \<Longrightarrow> eqv lt a c"
  using cotrans by (auto simp: eqv_def)

lemma eqv_left: "eqv lt a b \<Longrightarrow> lt a c \<longleftrightarrow> lt b c"
  using cotrans [of a c b] cotrans [of b c a] by (auto simp: eqv_def)

lemma eqv_right: "eqv lt a b \<Longrightarrow> lt c a \<longleftrightarrow> lt c b"
  using cotrans [of c a b] cotrans [of c b a] by (auto simp: eqv_def)

lemma lt_cases:
  obtains "lt k j" "\<not> lt j k" "\<not> eqv lt k j" "\<not> eqv lt j k"
    | "lt j k" "\<not> lt k j" "\<not> eqv lt k j" "\<not> eqv lt j k"
    | "eqv lt k j" "eqv lt j k" "\<not> lt j k" "\<not> lt k j"
  using asym by (auto simp: eqv_def)

lemma msorted_mput: "msorted lt m \<Longrightarrow> msorted lt (mput lt k v m)"
proof (induction m)
  case (Cons p m)
  obtain j w where p: "p = (j, w)" by fastforce
  have m: "\<forall>(i, u) \<in> set m. lt j i" "msorted lt (mput lt k v m)" "msorted lt m"
    using Cons by (auto simp: p)
  show ?case
  proof (cases rule: lt_cases [of k j])
    case 1
    then have "lt k i" if "(i, u) \<in> set m" for i u using m(1) that trans by blast
    then show ?thesis using 1 m by (auto simp: p)
  next
    case 2
    have "lt j i" if "(i, u) \<in> set (mput lt k v m)" for i u
    proof -
      have "i \<in> fst ` set (mput lt k v m)" using that by force
      then have "i = k \<or> i \<in> fst ` set m" using keys_mput [of lt k v m] by blast
      then show ?thesis using 2 m(1) by auto
    qed
    then show ?thesis using 2 m by (auto simp: p)
  next
    case 3
    then show ?thesis using m by (auto simp: p)
  qed
qed simp

lemma msorted_merase: "msorted lt m \<Longrightarrow> msorted lt (merase lt k m)"
proof (induction m)
  case (Cons p m)
  then show ?case using set_merase_subset [of lt k m] by (cases p) auto
qed simp

lemma mfind_iff:
  "msorted lt m \<Longrightarrow> mfind lt k m = Some v \<longleftrightarrow> (\<exists>j. (j, v) \<in> set m \<and> eqv lt k j)"
proof (induction m)
  case (Cons p m)
  obtain j w where p: "p = (j, w)" by fastforce
  have s: "\<And>i u. (i, u) \<in> set m \<Longrightarrow> lt j i" "msorted lt m" using Cons.prems by (auto simp: p)
  show ?case
  proof (cases rule: lt_cases [of k j])
    case 1
    then have "\<not> eqv lt k i" if "(i, u) \<in> set m" for i u
      using trans [OF 1(1) s(1) [OF that]] by (simp add: eqv_def)
    then show ?thesis using 1 by (auto simp: p)
  next
    case 2
    then show ?thesis using Cons.IH [OF s(2)] by (auto simp: p)
  next
    case 3
    then have "\<not> eqv lt k i" if "(i, u) \<in> set m" for i u
      using s(1) [OF that] eqv_left [OF 3(1), of i] by (simp add: eqv_def)
    then show ?thesis using 3 by (auto simp: p)
  qed
qed simp

lemma mfind_None: "msorted lt m \<Longrightarrow> mfind lt k m = None \<longleftrightarrow> (\<forall>(j, v) \<in> set m. \<not> eqv lt k j)"
proof -
  assume "msorted lt m"
  from mfind_iff [OF this, of k] show ?thesis by (cases "mfind lt k m") force+
qed

lemma mfind_mput: "msorted lt m \<Longrightarrow> mfind lt j (mput lt k v m) = (if eqv lt j k then Some v else mfind lt j m)"
proof (induction m)
  case (Cons p m)
  obtain i w where p: "p = (i, w)" by fastforce
  have s: "msorted lt m" using Cons.prems by (simp add: p)
  show ?case
  proof (cases rule: lt_cases [of k i])
    case 1
    then show ?thesis
      using trans [of j k i] by (auto simp: p eqv_def)
  next
    case 2
    have "eqv lt j k \<Longrightarrow> lt i j \<and> \<not> lt j i" using 2 eqv_right [of j k i] asym by blast
    then show ?thesis using 2 Cons.IH [OF s] by (auto simp: p)
  next
    case 3
    then show ?thesis using eqv_right [OF 3(1), of j] eqv_left [OF 3(1), of j] by (auto simp: p eqv_def)
  qed
qed (auto simp: eqv_def)

lemma set_merase:
  "msorted lt m \<Longrightarrow> set (merase lt k m) = {(j, v) \<in> set m. \<not> eqv lt k j}"
proof (induction m)
  case (Cons p m)
  obtain i w where p: "p = (i, w)" by fastforce
  have s: "\<And>j u. (j, u) \<in> set m \<Longrightarrow> lt i j" "msorted lt m" using Cons.prems by (auto simp: p)
  show ?case
  proof (cases rule: lt_cases [of k i])
    case 1
    then have "\<not> eqv lt k j" if "(j, u) \<in> set m" for j u
      using trans [OF 1(1) s(1) [OF that]] by (simp add: eqv_def)
    then show ?thesis using 1 by (auto simp: p)
  next
    case 2
    then show ?thesis using Cons.IH [OF s(2)] by (auto simp: p)
  next
    case 3
    then have "\<not> eqv lt k j" if "(j, u) \<in> set m" for j u
      using s(1) [OF that] eqv_left [OF 3(1), of j] by (simp add: eqv_def)
    then show ?thesis using 3 by (auto simp: p)
  qed
qed simp

lemma mfind_merase:
  assumes s: "msorted lt m"
  shows "mfind lt j (merase lt k m) = (if eqv lt j k then None else mfind lt j m)"
proof (rule option.expand)
  have iff: "mfind lt j (merase lt k m) = Some v \<longleftrightarrow> \<not> eqv lt j k \<and> mfind lt j m = Some v" for v
  proof -
    have h: "eqv lt j i \<Longrightarrow> eqv lt k i \<longleftrightarrow> eqv lt j k" for i
      by (metis eqv_sym eqv_trans)
    show ?thesis
      by (simp add: mfind_iff [OF msorted_merase [OF s]] mfind_iff [OF s] set_merase [OF s]) (use h in blast)
  qed
  show "(mfind lt j (merase lt k m) = None) = ((if eqv lt j k then None else mfind lt j m) = None)"
    using iff by (cases "mfind lt j m"; cases "mfind lt j (merase lt k m)") auto
  show "the (mfind lt j (merase lt k m)) = the (if eqv lt j k then None else mfind lt j m)"
    if "mfind lt j (merase lt k m) \<noteq> None" "(if eqv lt j k then None else mfind lt j m) \<noteq> None"
    using iff that by (cases "mfind lt j (merase lt k m)") auto
qed

text \<open>Putting a new key adds one entry.\<close>

lemma set_mput_new:
  "\<forall>(j, w) \<in> set m. \<not> eqv lt k j \<Longrightarrow> set (mput lt k v m) = insert (k, v) (set m)"
proof (induction m)
  case (Cons p m)
  then show ?case by (cases p; cases rule: lt_cases [of k "fst p"]) auto
qed simp

lemma set_mlower: "msorted lt m \<Longrightarrow> set (mlower lt k m) = {(j, v) \<in> set m. \<not> lt j k}"
proof (induction m)
  case (Cons p m)
  obtain i w where p: "p = (i, w)" by fastforce
  have s: "\<And>j u. (j, u) \<in> set m \<Longrightarrow> lt i j" "msorted lt m" using Cons.prems by (auto simp: p)
  show ?case
  proof (cases "lt i k")
    case True
    then show ?thesis using Cons.IH [OF s(2)] by (auto simp: p mlower_def)
  next
    case False
    then have "\<not> lt j k" if "(j, u) \<in> set m" for j u using trans [OF s(1) [OF that]] by blast
    then show ?thesis using False by (auto simp: p mlower_def)
  qed
qed (simp add: mlower_def)

lemma set_mupper: "msorted lt m \<Longrightarrow> set (mupper lt k m) = {(j, v) \<in> set m. lt k j}"
proof (induction m)
  case (Cons p m)
  obtain i w where p: "p = (i, w)" by fastforce
  have s: "\<And>j u. (j, u) \<in> set m \<Longrightarrow> lt i j" "msorted lt m" using Cons.prems by (auto simp: p)
  show ?case
  proof (cases "lt k i")
    case False
    then show ?thesis using Cons.IH [OF s(2)] by (auto simp: p mupper_def)
  next
    case True
    then have "lt k j" if "(j, u) \<in> set m" for j u using trans [OF True s(1) [OF that]] by blast
    then show ?thesis using True by (auto simp: p mupper_def)
  qed
qed (simp add: mupper_def)

end

end
