(* ===== verification/Strings.thy ===== *)
theory Strings
  imports Ascii Std_Map "HOL-Library.List_Lexorder"
begin

text \<open>
  Mona/Format/String.h, String.cpp: comparison, trimming, splitting, replacement, UTF-8 encoding. A
  text given as a pointer and a size is the list of characters it stands for: the first \<open>size\<close> ones,
  or the ones before the terminating 0 when \<open>size\<close> is \<open>npos\<close> (\<open>str_view\<close>). A count is an option, None
  for \<open>npos\<close>, which no text reaches.
  The lemmas show that the case-insensitive comparison is the lexicographic order of the lowered
  texts up to their first 0, hence a strict weak order (the interpretation \<open>icomparator\<close> of
  \<open>strict_weak_order\<close>, on which every map of the program with \<open>IComparator\<close> rests).
\<close>

definition NUL :: char where "NUL = chr 0"

definition cstr :: "string \<Rightarrow> string" where
  "cstr s = takeWhile (\<lambda>c. c \<noteq> NUL) s"

definition str_view :: "string \<Rightarrow> nat option \<Rightarrow> string" where
  "str_view s n = (case n of None \<Rightarrow> cstr s | Some k \<Rightarrow> take k s)"

section \<open>Comparison\<close>

text \<open>The character under a pointer into a text with its terminating 0, with the upper case lowered.\<close>

definition fold_case :: "string \<Rightarrow> int" where
  "fold_case s = (let v = (case s of [] \<Rightarrow> 0 | c # _ \<Rightarrow> int (code c))
                  in if 65 \<le> v \<and> v \<le> 90 then v - (65 - 97) else v)"

definition dec :: "nat option \<Rightarrow> nat option" where
  "dec n = map_option (\<lambda>k. k - 1) n"

function ICompare_loop :: "string \<Rightarrow> nat option \<Rightarrow> string \<Rightarrow> nat option \<Rightarrow> int" where
  "ICompare_loop data size' value count' =
     (if count' = Some 0 then 0
      else
        (let v = fold_case value
         in if size' = Some 0 then - v
            else
              (let d = fold_case data
               in if d \<noteq> 0 \<and> d = v then ICompare_loop (tl data) (dec size') (tl value) (dec count')
                  else d - v)))"
  by pat_completeness auto
termination
  by (relation "measure (\<lambda>(data, _). length data)") (auto simp: fold_case_def split: list.splits)

declare ICompare_loop.simps [simp del]

definition ICompare :: "string option \<Rightarrow> nat option \<Rightarrow> string option \<Rightarrow> nat option \<Rightarrow> int" where
  "ICompare data size' value count' =
     (case (data, value) of
        (None, None) \<Rightarrow> 0
      | (None, Some _) \<Rightarrow> -1
      | (Some _, None) \<Rightarrow> 1
      | (Some d, Some v) \<Rightarrow> ICompare_loop d size' v count')"

definition IEqual :: "string \<Rightarrow> nat option \<Rightarrow> string \<Rightarrow> bool" where
  "IEqual data size' value \<longleftrightarrow> ICompare (Some data) size' (Some value) None = 0"

definition IComparator :: "string \<Rightarrow> string \<Rightarrow> bool" where
  "IComparator a b \<longleftrightarrow> ICompare (Some a) (Some (length a)) (Some b) None < 0"

text \<open>\<open>std::string::compare\<close>: by the characters as unsigned, then by length.\<close>

definition Comparator :: "string \<Rightarrow> string \<Rightarrow> bool" where
  "Comparator a b \<longleftrightarrow> List.map code a < List.map code b"

definition IsTrue :: "string \<Rightarrow> bool" where
  "IsTrue s \<longleftrightarrow> IEqual s (Some (length s)) ''1'' \<or> IEqual s (Some (length s)) ''true'' \<or>
     IEqual s (Some (length s)) ''yes'' \<or> IEqual s (Some (length s)) ''on''"

definition IsFalse :: "string \<Rightarrow> bool" where
  "IsFalse s \<longleftrightarrow> IEqual s (Some (length s)) ''0'' \<or> IEqual s (Some (length s)) ''false'' \<or>
     IEqual s (Some (length s)) ''no'' \<or> IEqual s (Some (length s)) ''off'' \<or>
     IEqual s (Some (length s)) ''null''"

text \<open>\<open>strncmp(a, b, n) == 0\<close> and \<open>strncasecmp\<close>: equal up to \<open>n\<close> characters or a common 0.\<close>

definition strncmp_eq :: "string \<Rightarrow> string \<Rightarrow> nat \<Rightarrow> bool" where
  "strncmp_eq a b n \<longleftrightarrow> cstr (take n a) = cstr (take n b)"

definition strncasecmp_eq :: "string \<Rightarrow> string \<Rightarrow> nat \<Rightarrow> bool" where
  "strncasecmp_eq a b n \<longleftrightarrow> List.map toLower (cstr (take n a)) = List.map toLower (cstr (take n b))"

definition startsWith :: "string \<Rightarrow> string \<Rightarrow> bool" where
  "startsWith v p = (if length v < length p then False else strncmp_eq v p (length p))"
definition istartsWith :: "string \<Rightarrow> string \<Rightarrow> bool" where
  "istartsWith v p = (if length v < length p then False else strncasecmp_eq v p (length p))"
definition endsWith :: "string \<Rightarrow> string \<Rightarrow> bool" where
  "endsWith v p = (if length v < length p then False
     else strncmp_eq (drop (length v - length p) v) p (length p))"
definition iendsWith :: "string \<Rightarrow> string \<Rightarrow> bool" where
  "iendsWith v p = (if length v < length p then False
     else strncasecmp_eq (drop (length v - length p) v) p (length p))"

definition String_toLower :: "string \<Rightarrow> string" where
  "String_toLower s = List.map tolower s"
definition String_toUpper :: "string \<Rightarrow> string" where
  "String_toUpper s = List.map toupper s"

section \<open>Trimming and splitting\<close>

fun TrimLeft :: "string \<Rightarrow> string" where
  "TrimLeft [] = []"
| "TrimLeft (c # cs) = (if isspace c then TrimLeft cs else c # cs)"

fun TrimRight_loop :: "string \<Rightarrow> nat \<Rightarrow> nat" where
  "TrimRight_loop s 0 = 0"
| "TrimRight_loop s (Suc n) = (if isspace (s ! n) then TrimRight_loop s n else Suc n)"

definition TrimRight :: "string \<Rightarrow> string" where
  "TrimRight s = take (TrimRight_loop s (length s)) s"

definition Trim :: "string \<Rightarrow> string" where
  "Trim s = TrimRight (TrimLeft s)"

text \<open>
  \<open>Split\<close>: \<open>forEach\<close> is the callback, on a state of the caller; a false answer ends the loop with
  \<open>npos\<close> (None). \<open>strchr(separators, c)\<close> also finds the terminating 0, so an embedded 0 separates.
\<close>

definition is_sep :: "string \<Rightarrow> char \<Rightarrow> bool" where
  "is_sep separators c \<longleftrightarrow> c \<in> set (cstr separators) \<or> c = NUL"

lemma length_TrimLeft: "length (TrimLeft s) \<le> length s"
  by (induction s) auto

function Split_loop :: "string \<Rightarrow> bool \<Rightarrow> bool \<Rightarrow> (nat \<Rightarrow> string \<Rightarrow> 's \<Rightarrow> bool \<times> 's) \<Rightarrow> nat \<Rightarrow> string \<Rightarrow> 's
    \<Rightarrow> nat option \<times> 's" where
  "Split_loop separators ignore_empty trim forEach n value st =
     (let value1 = (if trim then TrimLeft value else value);
          token = takeWhile (\<lambda>c. \<not> is_sep separators c) value1;
          rest = dropWhile (\<lambda>c. \<not> is_sep separators c) value1;
          token' = (if trim then TrimRight token else token);
          (ok, n', st') =
            (if \<not> ignore_empty \<or> token' \<noteq> [] then
               (case forEach n token' st of (b, s) \<Rightarrow> (b, n + 1, s))
             else (True, n, st))
      in if \<not> ok then (None, st')
         else if rest = [] then (Some n', st')
         else Split_loop separators ignore_empty trim forEach n' (tl rest) st')"
  by pat_completeness auto
termination
proof (relation "measure (\<lambda>(_, _, _, _, _, value, _). length value)", goal_cases)
  case (2 separators ignore_empty trim forEach n v st value1 token rest)
  have "length rest \<le> length value1" "length value1 \<le> length v"
    using 2 length_TrimLeft [of v] length_dropWhile_le by auto
  moreover have "length (tl rest) < length rest" using 2 by (cases rest) auto
  ultimately show ?case by simp
qed simp

declare Split_loop.simps [simp del]

definition Split :: "string \<Rightarrow> string \<Rightarrow> bool \<Rightarrow> bool \<Rightarrow> (nat \<Rightarrow> string \<Rightarrow> 's \<Rightarrow> bool \<times> 's) \<Rightarrow> 's
    \<Rightarrow> nat option \<times> 's" where
  "Split value separators ignore_empty trim forEach st =
     Split_loop separators ignore_empty trim forEach 0 value st"

text \<open>\<open>Split(value, separators, values)\<close>: the callback appends every token to the list.\<close>

definition Split_collect :: "nat \<Rightarrow> string \<Rightarrow> string list \<Rightarrow> bool \<times> string list" where
  "Split_collect index token values = (True, values @ [token])"

definition Split_list :: "string \<Rightarrow> string \<Rightarrow> bool \<Rightarrow> bool \<Rightarrow> string list" where
  "Split_list value separators ignore_empty trim =
     snd (Split value separators ignore_empty trim Split_collect [])"

section \<open>Replacement\<close>

text \<open>\<open>std::string::find\<close> from the start of a text.\<close>

fun str_find :: "string \<Rightarrow> string \<Rightarrow> nat option" where
  "str_find what s =
     (if take (length what) s = what then Some 0
      else case s of [] \<Rightarrow> None | _ # cs \<Rightarrow> map_option Suc (str_find what cs))"

declare str_find.simps [simp del]

lemma take_eq_length: "take (length w) s = w \<Longrightarrow> length w \<le> length s"
  by (metis length_take min.cobounded1)

lemma str_find_bound: "str_find what s = Some pos \<Longrightarrow> pos + length what \<le> length s"
proof (induction s arbitrary: pos)
  case Nil
  then show ?case by (subst (asm) str_find.simps) (auto split: if_splits)
next
  case (Cons c cs)
  then show ?case using take_eq_length [of what "c # cs"]
    by (subst (asm) (2) str_find.simps) (auto split: if_splits)
qed

text \<open>An empty \<open>what\<close> is found for ever and the loop does not end: None.\<close>

function replace_loop :: "string \<Rightarrow> string \<Rightarrow> string \<Rightarrow> string" where
  "replace_loop what with s =
     (if what = [] then s
      else case str_find what s of
             None \<Rightarrow> s
           | Some pos \<Rightarrow> take pos s @ with @ replace_loop what with (drop (pos + length what) s))"
  by pat_completeness auto
termination
proof (relation "measure (\<lambda>(what, with, s). length s)", goal_cases)
  case (2 what "with" s pos)
  then have "0 < length what" "pos + length what \<le> length s" by (auto dest: str_find_bound)
  then have "length s - (pos + length what) < length s" by linarith
  then show ?case by simp
qed simp

declare replace_loop.simps [simp del]

definition String_replace :: "string \<Rightarrow> string \<Rightarrow> string \<Rightarrow> string option" where
  "String_replace str what with = (if what = [] then None else Some (replace_loop what with str))"

section \<open>Latin-1 to UTF-8\<close>

definition ToUTF8_char :: "char \<Rightarrow> string option" where
  "ToUTF8_char value =
     (if schar value \<ge> 0 then None
      else Some [chr ((drop_bit 6 (code value) AND 0x1F) OR 0xC0), chr ((code value AND 0x3F) OR 0x80)])"

text \<open>\<open>onEncoded\<close> is the callback: the pieces, in order. \<open>pend\<close> is the text from \<open>begin\<close> to \<open>value\<close>.\<close>

fun ToUTF8_loop :: "string \<Rightarrow> string \<Rightarrow> string list" where
  "ToUTF8_loop pend [] = (if pend \<noteq> [] then [pend] else [])"
| "ToUTF8_loop pend (c # cs) =
     (case ToUTF8_char c of
        None \<Rightarrow> ToUTF8_loop (pend @ [c]) cs
      | Some enc \<Rightarrow> (if pend \<noteq> [] then [pend] else []) @ [enc] @ ToUTF8_loop [] cs)"

definition ToUTF8 :: "string \<Rightarrow> nat option \<Rightarrow> string list" where
  "ToUTF8 value n = ToUTF8_loop [] (str_view value n)"

section \<open>ShortPath\<close>

fun ShortPath_scan :: "string \<Rightarrow> nat \<Rightarrow> nat option \<Rightarrow> nat \<times> nat option" where
  "ShortPath_scan path 0 name = (0, name)"
| "ShortPath_scan path (Suc cur) name =
     (if path ! cur = CHR ''/'' \<or> path ! cur = CHR 0x5C then
        (case name of
           Some _ \<Rightarrow> (cur + 1, name)
         | None \<Rightarrow> ShortPath_scan path cur (Some cur))
      else ShortPath_scan path cur name)"

definition ShortPath :: "string \<Rightarrow> string" where
  "ShortPath path =
     (case ShortPath_scan path (length path) None of
        (cur, Some name) \<Rightarrow>
          (if IEqual (drop cur path) (Some (name - cur)) ''sources'' \<or> IEqual (drop cur path) (Some (name - cur)) ''mona''
           then drop (name + 1) path else drop cur path)
      | (cur, None) \<Rightarrow> drop cur path)"

section \<open>The comparison is the order of the lowered texts\<close>

lemma cstr_Nil [simp]: "cstr [] = []"
  by (simp add: cstr_def)

lemma cstr_Cons: "cstr (c # s) = (if c = NUL then [] else c # cstr s)"
  by (simp add: cstr_def)

lemma cstr_cstr [simp]: "cstr (cstr s) = cstr s"
  by (induction s) (auto simp: cstr_Cons)

lemma NUL_notin_cstr [simp]: "NUL \<notin> set (cstr s)"
  by (auto simp: cstr_def dest: set_takeWhileD)

lemma cstr_id: "NUL \<notin> set s \<Longrightarrow> cstr s = s"
  by (induction s) (auto simp: cstr_Cons)

lemma code_NUL [simp]: "code NUL = 0"
  by (simp add: NUL_def)

lemma code_0 [simp]: "code c = 0 \<longleftrightarrow> c = NUL"
  using code_inject [of c NUL] by simp

lemma code_pos [simp]: "0 < code c \<longleftrightarrow> c \<noteq> NUL"
  using code_0 [of c] by linarith

lemma tolower_eq: "tolower = toLower"
  by (rule ext) (simp add: tolower_def)

lemma toLower_eq_iff: "toLower a = toLower b \<longleftrightarrow> code (toLower a) = code (toLower b)"
  by simp

definition ikey :: "string \<Rightarrow> nat list" where
  "ikey s = List.map (\<lambda>c. code (toLower c)) (cstr s)"

lemma fold_case_Nil [simp]: "fold_case [] = 0"
  by (simp add: fold_case_def)

lemma fold_case_Cons [simp]: "fold_case (c # s) = int (code (toLower c))"
  by (simp add: fold_case_def code_toLower Let_def)

lemma toLower_NUL [simp]: "toLower NUL = NUL"
proof -
  have "code (toLower NUL) = code NUL" by (simp add: code_toLower)
  then show ?thesis by simp
qed

lemma toLower_NUL_iff [simp]: "toLower c = NUL \<longleftrightarrow> c = NUL"
proof -
  have "code (toLower c) = 0 \<longleftrightarrow> code c = 0" by (auto simp: code_toLower)
  then show ?thesis by simp
qed

lemma ikey_Cons: "ikey (c # s) = (if c = NUL then [] else code (toLower c) # ikey s)"
  by (simp add: ikey_def cstr_Cons)

lemma ikey_Nil [simp]: "ikey [] = []"
  by (simp add: ikey_def)

lemma ICompare_loop_key:
  "ICompare_loop a (Some (length a)) b None < 0 \<longleftrightarrow> ikey a < ikey b"
  "ICompare_loop a (Some (length a)) b None = 0 \<longleftrightarrow> ikey a = ikey b"
proof (induction a arbitrary: b)
  case Nil
  { case 1 show ?case
      by (cases b) (auto simp: ICompare_loop.simps ikey_Cons) }
  { case 2 show ?case
      by (cases b) (auto simp: ICompare_loop.simps ikey_Cons) }
next
  case (Cons x a)
  { case 1 show ?case
      using Cons.IH by (cases b) (auto simp: ICompare_loop.simps [of "x # a"] ikey_Cons dec_def) }
  { case 2 show ?case
      using Cons.IH by (cases b) (auto simp: ICompare_loop.simps [of "x # a"] ikey_Cons dec_def) }
qed

lemma IComparator_key: "IComparator a b \<longleftrightarrow> ikey a < ikey b"
  by (simp add: IComparator_def ICompare_def ICompare_loop_key)

lemma IEqual_key: "IEqual a (Some (length a)) b \<longleftrightarrow> ikey a = ikey b"
  by (simp add: IEqual_def ICompare_def ICompare_loop_key)

interpretation icomparator: strict_weak_order IComparator
  by unfold_locales (auto simp: IComparator_key)

interpretation comparator: strict_weak_order Comparator
  by unfold_locales (auto simp: Comparator_def)

lemma eqv_IComparator: "eqv IComparator a b \<longleftrightarrow> ikey a = ikey b"
  by (auto simp: eqv_def IComparator_key)

section \<open>Trimming\<close>

lemma TrimLeft_dropWhile: "TrimLeft s = dropWhile isspace s"
  by (induction s) auto

lemma TrimRight_loop_bound: "TrimRight_loop s n \<le> n"
  by (induction n) auto

lemma TrimRight_loop_spaces: "TrimRight_loop s n \<le> i \<Longrightarrow> i < n \<Longrightarrow> isspace (s ! i)"
  by (induction n) (auto split: if_splits simp: less_Suc_eq)

lemma TrimRight_loop_stop: "TrimRight_loop s n = Suc k \<Longrightarrow> \<not> isspace (s ! k)"
  by (induction n) (auto split: if_splits)

text \<open>The text is the trimmed text between two runs of spaces.\<close>

lemma TrimRight_split: "\<exists>r. s = TrimRight s @ r \<and> (\<forall>c \<in> set r. isspace c)"
proof -
  let ?n = "TrimRight_loop s (length s)"
  have "\<forall>c \<in> set (drop ?n s). isspace c"
    using TrimRight_loop_spaces [of s "length s"] by (auto simp: in_set_conv_nth)
  then show ?thesis by (intro exI [of _ "drop ?n s"]) (simp add: TrimRight_def)
qed

lemma TrimRight_last: "TrimRight s \<noteq> [] \<Longrightarrow> \<not> isspace (last (TrimRight s))"
proof -
  assume ne: "TrimRight s \<noteq> []"
  let ?n = "TrimRight_loop s (length s)"
  have le: "?n \<le> length s" by (rule TrimRight_loop_bound)
  obtain k where k: "?n = Suc k" using ne by (cases ?n) (auto simp: TrimRight_def)
  have "last (take (Suc k) s) = s ! k" using le k by (simp add: take_Suc_conv_app_nth)
  then show ?thesis using TrimRight_loop_stop [OF k] k by (simp add: TrimRight_def)
qed

lemma TrimLeft_hd: "TrimLeft s \<noteq> [] \<Longrightarrow> \<not> isspace (hd (TrimLeft s))"
  by (induction s) auto

lemma TrimLeft_split: "\<exists>l. s = l @ TrimLeft s \<and> (\<forall>c \<in> set l. isspace c)"
  by (intro exI [of _ "takeWhile isspace s"]) (auto simp: TrimLeft_dropWhile dest: set_takeWhileD)

lemma Trim_split:
  "\<exists>l r. s = l @ Trim s @ r \<and> (\<forall>c \<in> set (l @ r). isspace c)"
proof -
  obtain l where l: "s = l @ TrimLeft s" "\<forall>c \<in> set l. isspace c" using TrimLeft_split by blast
  obtain r where r: "TrimLeft s = TrimRight (TrimLeft s) @ r" "\<forall>c \<in> set r. isspace c"
    using TrimRight_split by blast
  have "s = l @ Trim s @ r" using l(1) r(1) by (simp add: Trim_def)
  then show ?thesis using l(2) r(2) by (intro exI [of _ l] exI [of _ r]) auto
qed

lemma Trim_ends:
  assumes "Trim s \<noteq> []"
  shows "\<not> isspace (hd (Trim s)) \<and> \<not> isspace (last (Trim s))"
proof -
  have r: "TrimRight (TrimLeft s) \<noteq> []" using assms by (simp add: Trim_def)
  obtain t where t: "TrimLeft s = TrimRight (TrimLeft s) @ t" using TrimRight_split by blast
  then have "hd (TrimLeft s) = hd (TrimRight (TrimLeft s))" "TrimLeft s \<noteq> []"
    using r by (metis hd_append2, auto)
  then show ?thesis using TrimLeft_hd [of s] TrimRight_last [OF r] by (simp add: Trim_def)
qed

section \<open>Splitting\<close>

text \<open>Tokens put back together with the separators between them.\<close>

fun glue :: "string list \<Rightarrow> string \<Rightarrow> string" where
  "glue (t # ts) (c # cs) = t @ c # glue ts cs"
| "glue [t] [] = t"
| "glue _ _ = []"

definition token_ok :: "string \<Rightarrow> bool \<Rightarrow> bool \<Rightarrow> string \<Rightarrow> bool" where
  "token_ok separators ignore_empty trim t \<longleftrightarrow>
     (\<forall>c \<in> set t. \<not> is_sep separators c) \<and> (ignore_empty \<longrightarrow> t \<noteq> []) \<and>
     (trim \<and> t \<noteq> [] \<longrightarrow> \<not> isspace (hd t) \<and> \<not> isspace (last t))"

lemma TrimRight_hd: "TrimRight s \<noteq> [] \<Longrightarrow> hd (TrimRight s) = hd s"
  using TrimRight_split [of s] by (metis hd_append2)

lemma set_TrimRight: "set (TrimRight s) \<subseteq> set s"
  by (simp add: TrimRight_def set_take_subset)

lemma token_ok_scan:
  assumes "token = takeWhile (\<lambda>c. \<not> is_sep seps c) (if trim then TrimLeft v else v)"
    and "t = (if trim then TrimRight token else token)" "\<not> ie \<or> t \<noteq> []"
  shows "token_ok seps ie trim t"
proof -
  have "\<forall>c \<in> set t. \<not> is_sep seps c"
    using assms(1,2) set_TrimRight [of token] by (auto dest: set_takeWhileD split: if_splits)
  moreover have "\<not> isspace (hd t) \<and> \<not> isspace (last t)" if "trim" "t \<noteq> []"
  proof -
    have t: "t = TrimRight token" "token \<noteq> []" using that assms(2) by (auto simp: TrimRight_def)
    then have "hd token = hd (TrimLeft v)" "TrimLeft v \<noteq> []"
      using assms(1) that(1) by (cases "TrimLeft v", auto split: if_splits)+
    then show ?thesis using t that(2) TrimLeft_hd [of v] TrimRight_last [of token] TrimRight_hd [of token]
      by auto
  qed
  ultimately show ?thesis using assms(3) by (auto simp: token_ok_def)
qed

lemma Split_loop_collect:
  "\<exists>toks. Split_loop seps ie trim Split_collect n v acc = (Some (n + length toks), acc @ toks) \<and>
     list_all (token_ok seps ie trim) toks \<and>
     (\<not> ie \<and> \<not> trim \<longrightarrow> (\<exists>cs. length toks = Suc (length cs) \<and> list_all (is_sep seps) cs \<and> v = glue toks cs))"
proof (induction "length v" arbitrary: v n acc rule: less_induct)
  case less
  let ?v = "if trim then TrimLeft v else v"
  let ?tok = "takeWhile (\<lambda>c. \<not> is_sep seps c) ?v"
  let ?rest = "dropWhile (\<lambda>c. \<not> is_sep seps c) ?v"
  let ?t = "if trim then TrimRight ?tok else ?tok"
  let ?new = "if \<not> ie \<or> ?t \<noteq> [] then [?t] else []"
  have ok: "list_all (token_ok seps ie trim) ?new"
    using token_ok_scan [OF refl refl, of ie trim seps v] by simp
  have split: "?v = ?tok @ ?rest" by simp
  show ?case
  proof (cases "?rest = []")
    case True
    then have "Split_loop seps ie trim Split_collect n v acc = (Some (n + length ?new), acc @ ?new)"
      by (subst Split_loop.simps) (simp add: Split_collect_def Let_def)
    moreover have "?tok = ?v" using split True by (metis append_Nil2)
    then have "v = glue ?new []" if "\<not> ie \<and> \<not> trim"
      by (intro sym [of "glue ?new []"]) (use that in simp)
    ultimately show ?thesis using ok
      by (intro exI [of _ ?new] conjI impI exI [of _ "[]"]) simp_all
  next
    case False
    then obtain c rest where r: "?rest = c # rest" by (cases ?rest) auto
    have "length ?v \<le> length v" using length_TrimLeft [of v] by simp
    moreover have "length ?v = length ?tok + length ?rest" using arg_cong [OF split, of length] by (simp only: length_append)
    ultimately have "length rest < length v" using r by simp
    from less [OF this, of "n + length ?new" "acc @ ?new"] obtain toks where
      t: "Split_loop seps ie trim Split_collect (n + length ?new) rest (acc @ ?new) =
            (Some (n + length ?new + length toks), (acc @ ?new) @ toks)"
        "list_all (token_ok seps ie trim) toks"
        "\<not> ie \<and> \<not> trim \<longrightarrow> (\<exists>cs. length toks = Suc (length cs) \<and> list_all (is_sep seps) cs \<and> rest = glue toks cs)"
      by blast
    have "Split_loop seps ie trim Split_collect n v acc =
        Split_loop seps ie trim Split_collect (n + length ?new) rest (acc @ ?new)"
      using r by (subst Split_loop.simps) (simp add: Split_collect_def Let_def)
    moreover have "\<exists>cs. length (?new @ toks) = Suc (length cs) \<and> list_all (is_sep seps) cs \<and> v = glue (?new @ toks) cs"
      if plain: "\<not> ie \<and> \<not> trim"
    proof -
      obtain cs where cs: "length toks = Suc (length cs)" "list_all (is_sep seps) cs" "rest = glue toks cs"
        using t(3) plain by blast
      have "is_sep seps c" using hd_dropWhile [of "\<lambda>c. \<not> is_sep seps c" ?v] r by simp
      moreover have s2: "?v = ?tok @ c # rest" using split by (simp only: r)
      have "v = ?tok @ c # rest" using s2 plain by (simp only: if_False simp_thms)
      ultimately show ?thesis using cs plain by (intro exI [of _ "c # cs"]) simp
    qed
    ultimately show ?thesis using t(1,2) ok
      by (intro exI [of _ "?new @ toks"]) (simp add: add.assoc)
  qed
qed

section \<open>Replacement and encoding\<close>

lemma str_find_Some: "str_find what s = Some pos \<Longrightarrow> take (length what) (drop pos s) = what"
proof (induction s arbitrary: pos)
  case Nil
  then show ?case by (subst (asm) str_find.simps) (auto split: if_splits)
next
  case (Cons c cs)
  then show ?case by (subst (asm) (2) str_find.simps) (auto split: if_splits)
qed

lemma replace_loop_same: "replace_loop what what s = s"
proof (induction "length s" arbitrary: s rule: less_induct)
  case less
  show ?case
  proof (cases "what = [] \<or> str_find what s = None")
    case True
    then show ?thesis by (subst replace_loop.simps) auto
  next
    case False
    then obtain pos where pos: "what \<noteq> []" "str_find what s = Some pos" by auto
    let ?r = "drop (pos + length what) s"
    have "length ?r < length s" using str_find_bound [OF pos(2)] pos(1) by (cases what) auto
    then have "replace_loop what what ?r = ?r" by (rule less)
    moreover have "what @ ?r = drop pos s"
      using str_find_Some [OF pos(2)] append_take_drop_id [of "length what" "drop pos s"]
      by (simp add: add.commute)
    ultimately show ?thesis using pos by (subst replace_loop.simps) simp
  qed
qed

text \<open>A two-byte UTF-8 decoder, as the reference of the encoder.\<close>

fun utf8_decode :: "string \<Rightarrow> nat list" where
  "utf8_decode [] = []"
| "utf8_decode [c] = [code c]"
| "utf8_decode (c # d # cs) =
     (if code c < 128 then code c # utf8_decode (d # cs)
      else ((code c mod 32) * 64 + code d mod 64) # utf8_decode cs)"

lemma ToUTF8_char_cases:
  "(code c < 128 \<and> ToUTF8_char c = None) \<or>
   (\<exists>a b. ToUTF8_char c = Some [a, b] \<and> 128 \<le> code a \<and> code a mod 32 * 64 + code b mod 64 = code c)"
proof -
  have "list_all (\<lambda>n. n < 128 \<or>
     (let a = (drop_bit 6 n AND 0x1F) OR 0xC0; b = (n AND 0x3F) OR 0x80
      in a < 256 \<and> b < 256 \<and> 128 \<le> a \<and> a mod 32 * 64 + b mod 64 = n)) [0..<256]"
    by (simp add: upt_0_numeral upt_1_numeral numeral_3_eq_3 [symmetric])
  from all_256 [OF this, of "code c"] show ?thesis
    by (auto simp: not_le ToUTF8_char_def schar_def Let_def)
qed

lemma utf8_decode_ascii: "code c < 128 \<Longrightarrow> utf8_decode (c # cs) = code c # utf8_decode cs"
  by (cases cs) auto

lemma utf8_decode_ascii_append:
  "\<forall>c \<in> set xs. code c < 128 \<Longrightarrow> utf8_decode (xs @ ys) = List.map code xs @ utf8_decode ys"
  by (induction xs) (auto simp: utf8_decode_ascii)

lemma ToUTF8_loop_decode:
  "\<forall>c \<in> set pend. code c < 128 \<Longrightarrow>
   utf8_decode (concat (ToUTF8_loop pend s)) = List.map code (pend @ s)"
proof (induction pend s rule: ToUTF8_loop.induct)
  case (1 pend)
  then show ?case using utf8_decode_ascii_append [of pend "[]"] by simp
next
  case (2 pend c cs)
  consider "code c < 128" "ToUTF8_char c = None"
    | a b where "ToUTF8_char c = Some [a, b]" "128 \<le> code a" "code a mod 32 * 64 + code b mod 64 = code c"
    using ToUTF8_char_cases [of c] by force
  then show ?case
  proof cases
    case 1
    then show ?thesis using 2 by simp
  next
    case 2
    then have "utf8_decode (pend @ [a, b] @ concat (ToUTF8_loop [] cs)) =
        List.map code pend @ code c # List.map code cs"
      using "2.IH"(2) "2.prems" by (simp add: utf8_decode_ascii_append)
    then show ?thesis using 2(1) by (cases pend) (simp_all del: utf8_decode.simps)
  qed
qed

section \<open>Properties\<close>

text \<open>
  The case-insensitive comparison is a strict weak order on texts, and two texts are equivalent in
  it exactly when they are the same up to the case of ASCII letters (and their first 0): what every
  \<open>map<string, ..., String::IComparator>\<close> of the program needs.
\<close>

theorem IComparator_strict_weak:
  "strict_weak_order IComparator \<and>
   (NUL \<notin> set a \<and> NUL \<notin> set b \<longrightarrow>
     (\<not> IComparator a b \<and> \<not> IComparator b a \<longleftrightarrow> String_toLower a = String_toLower b))"
proof -
  have "List.map (\<lambda>c. code (toLower c)) a = List.map (\<lambda>c. code (toLower c)) b \<longleftrightarrow>
      List.map toLower a = List.map toLower b"
    using inj_map_eq_map [of code "List.map toLower a" "List.map toLower b"] by (simp add: inj_def comp_def)
  then show ?thesis
    using icomparator.strict_weak_order_axioms eqv_IComparator [of a b]
    by (auto simp: eqv_def ikey_def cstr_id String_toLower_def tolower_eq)
qed

theorem IComparator_strict_weak_witness:
  "\<not> IComparator ''Ab'' ''aB'' \<and> \<not> IComparator ''aB'' ''Ab''"
proof -
  have codes: "code (CHR ''A'') = 65" "code (CHR ''a'') = 97" "code (CHR ''B'') = 66" "code (CHR ''b'') = 98"
    by (simp_all add: code_def)
  then have "CHR ''A'' \<noteq> NUL" "CHR ''a'' \<noteq> NUL" "CHR ''B'' \<noteq> NUL" "CHR ''b'' \<noteq> NUL"
    by (metis code_NUL zero_neq_numeral)+
  moreover have "toLower (CHR ''A'') = toLower (CHR ''a'')" "toLower (CHR ''b'') = toLower (CHR ''B'')"
    unfolding toLower_eq_iff code_toLower by (simp_all only: codes) simp_all
  then have "String_toLower ''Ab'' = String_toLower ''aB''"
    by (simp only: String_toLower_def tolower_eq list.map)
  ultimately show ?thesis using IComparator_strict_weak [of "''Ab''" "''aB''"] by simp
qed

text \<open>
  \<open>Split\<close> gives the callback only tokens without a separator, trimmed and not empty when the
  options ask for it, answers their number, and with no option loses nothing: the tokens with the
  separators between them are the text.
\<close>

theorem Split_tokens:
  "\<exists>toks. Split s seps ie trim Split_collect [] = (Some (length toks), toks) \<and>
     list_all (token_ok seps ie trim) toks \<and>
     (\<not> ie \<and> \<not> trim \<longrightarrow>
        (\<exists>cs. length toks = Suc (length cs) \<and> list_all (is_sep seps) cs \<and> s = glue toks cs))"
  using Split_loop_collect [of seps ie trim 0 s "[]"] by (simp add: Split_def)

theorem Split_tokens_witness:
  "\<exists>toks. Split ''a=b'' ''='' False False Split_collect [] = (Some (length toks), toks) \<and>
     (\<exists>cs. length toks = Suc (length cs) \<and> list_all (is_sep ''='') cs \<and> ''a=b'' = glue toks cs)"
  using Split_tokens [of "''a=b''" "''=''" False False] by auto

text \<open>
  \<open>Trim\<close> removes exactly the two runs of spaces around the text: what is left neither starts nor
  ends with a space, and only spaces are gone.
\<close>

theorem Trim_exact:
  "(\<exists>l r. s = l @ Trim s @ r \<and> (\<forall>c \<in> set (l @ r). isspace c)) \<and>
   (Trim s \<noteq> [] \<longrightarrow> \<not> isspace (hd (Trim s)) \<and> \<not> isspace (last (Trim s)))"
  using Trim_split [of s] Trim_ends [of s] by blast

theorem Trim_exact_witness: "\<exists>l r. '' a '' = l @ Trim '' a '' @ r"
  using Trim_exact [of "'' a ''"] by blast

text \<open>
  \<open>ToUTF8\<close> encodes every Latin-1 text so that a UTF-8 decoder finds the same characters.
\<close>

theorem ToUTF8_decodes:
  "utf8_decode (concat (ToUTF8 s n)) = List.map code (str_view s n)"
  using ToUTF8_loop_decode [of "[]" "str_view s n"] by (simp add: ToUTF8_def)

end
