(* ===== verification/Insertion_Map.thy ===== *)
theory Insertion_Map
  imports Strings
begin

text \<open>
  Mona/Util/InsertionMap.h: a map that is iterated in the order of insertion. \<open>iorder\<close> is the list
  \<open>_order\<close> of nodes (a node has an identity, its place in memory, which an iterator holds), \<open>imap\<close>
  is \<open>_map\<close>, from the keys to the nodes, and \<open>inext\<close> the place of the next node. An iterator is a node
  or \<open>end()\<close> (None).
  The lemmas show that the list and the index stay in step (\<open>imap_inv\<close>), and that every operation is
  the operation on the sequence of entries (\<open>entries\<close>) a reader of the class expects.
\<close>

record ('k, 'v) insertion_map =
  iorder :: "(nat \<times> 'k \<times> 'v) list"
  imap :: "('k \<times> nat) list"
  inext :: nat

definition InsertionMap_new :: "('k, 'v) insertion_map" where
  "InsertionMap_new = \<lparr>iorder = [], imap = [], inext = 0\<rparr>"

definition emplace_back :: "('k \<Rightarrow> 'k \<Rightarrow> bool) \<Rightarrow> 'k \<Rightarrow> 'v \<Rightarrow> ('k, 'v) insertion_map \<Rightarrow> ('k, 'v) insertion_map" where
  "emplace_back lt k v m = m\<lparr>iorder := iorder m @ [(inext m, k, v)], imap := mput lt k (inext m) (imap m),
     inext := inext m + 1\<rparr>"

definition node_set :: "nat \<Rightarrow> 'v \<Rightarrow> (nat \<times> 'k \<times> 'v) list \<Rightarrow> (nat \<times> 'k \<times> 'v) list" where
  "node_set i v xs = List.map (\<lambda>(j, k, w). if j = i then (j, k, v) else (j, k, w)) xs"

definition InsertionMap_insert :: "('k \<Rightarrow> 'k \<Rightarrow> bool) \<Rightarrow> 'k \<Rightarrow> 'v \<Rightarrow> ('k, 'v) insertion_map
    \<Rightarrow> (nat \<times> bool) \<times> ('k, 'v) insertion_map" where
  "InsertionMap_insert lt k v m =
     (case mfind lt k (imap m) of
        Some i \<Rightarrow> ((i, False), m)
      | None \<Rightarrow> ((inext m, True), emplace_back lt k v m))"

definition InsertionMap_emplace :: "('k \<Rightarrow> 'k \<Rightarrow> bool) \<Rightarrow> 'k \<Rightarrow> 'v \<Rightarrow> ('k, 'v) insertion_map
    \<Rightarrow> (nat \<times> bool) \<times> ('k, 'v) insertion_map" where
  "InsertionMap_emplace lt k v m =
     (case mfind lt k (imap m) of
        Some i \<Rightarrow> ((i, False), m)
      | None \<Rightarrow> ((inext m, True), emplace_back lt k v m))"

definition InsertionMap_insert_or_assign :: "('k \<Rightarrow> 'k \<Rightarrow> bool) \<Rightarrow> 'k \<Rightarrow> 'v \<Rightarrow> ('k, 'v) insertion_map
    \<Rightarrow> (nat \<times> bool) \<times> ('k, 'v) insertion_map" where
  "InsertionMap_insert_or_assign lt k v m =
     (case mfind lt k (imap m) of
        Some i \<Rightarrow> ((i, False), m\<lparr>iorder := node_set i v (iorder m)\<rparr>)
      | None \<Rightarrow> ((inext m, True), emplace_back lt k v m))"

text \<open>\<open>operator[]\<close>: the node whose value is referred to, \<open>dflt\<close> being \<open>Value{}\<close>.\<close>

definition InsertionMap_subscript :: "('k \<Rightarrow> 'k \<Rightarrow> bool) \<Rightarrow> 'v \<Rightarrow> 'k \<Rightarrow> ('k, 'v) insertion_map
    \<Rightarrow> nat \<times> ('k, 'v) insertion_map" where
  "InsertionMap_subscript lt dflt k m =
     (case mfind lt k (imap m) of
        None \<Rightarrow> (inext m, emplace_back lt k dflt m)
      | Some i \<Rightarrow> (i, m))"

definition node_value :: "nat \<Rightarrow> ('k, 'v) insertion_map \<Rightarrow> 'v option" where
  "node_value i m = map_option snd (map_of (iorder m) i)"

text \<open>\<open>at\<close>: None is the exception \<open>out_of_range\<close>.\<close>

definition InsertionMap_at :: "('k \<Rightarrow> 'k \<Rightarrow> bool) \<Rightarrow> 'k \<Rightarrow> ('k, 'v) insertion_map \<Rightarrow> 'v option" where
  "InsertionMap_at lt k m =
     (case mfind lt k (imap m) of None \<Rightarrow> None | Some i \<Rightarrow> node_value i m)"

definition InsertionMap_find :: "('k \<Rightarrow> 'k \<Rightarrow> bool) \<Rightarrow> 'k \<Rightarrow> ('k, 'v) insertion_map \<Rightarrow> nat option" where
  "InsertionMap_find lt k m = mfind lt k (imap m)"

definition InsertionMap_lower_bound :: "('k \<Rightarrow> 'k \<Rightarrow> bool) \<Rightarrow> 'k \<Rightarrow> ('k, 'v) insertion_map \<Rightarrow> nat option" where
  "InsertionMap_lower_bound lt k m = (case mlower lt k (imap m) of [] \<Rightarrow> None | (_, i) # _ \<Rightarrow> Some i)"

definition InsertionMap_upper_bound :: "('k \<Rightarrow> 'k \<Rightarrow> bool) \<Rightarrow> 'k \<Rightarrow> ('k, 'v) insertion_map \<Rightarrow> nat option" where
  "InsertionMap_upper_bound lt k m = (case mupper lt k (imap m) of [] \<Rightarrow> None | (_, i) # _ \<Rightarrow> Some i)"

definition InsertionMap_erase_key :: "('k \<Rightarrow> 'k \<Rightarrow> bool) \<Rightarrow> 'k \<Rightarrow> ('k, 'v) insertion_map \<Rightarrow> ('k, 'v) insertion_map" where
  "InsertionMap_erase_key lt k m =
     (case mfind lt k (imap m) of
        Some i \<Rightarrow> m\<lparr>iorder := filter (\<lambda>(j, _). j \<noteq> i) (iorder m), imap := merase lt k (imap m)\<rparr>
      | None \<Rightarrow> m)"

fun next_node :: "nat \<Rightarrow> (nat \<times> 'k \<times> 'v) list \<Rightarrow> nat option" where
  "next_node i [] = None"
| "next_node i ((j, _) # xs) = (if j = i then (case xs of [] \<Rightarrow> None | (l, _) # _ \<Rightarrow> Some l) else next_node i xs)"

text \<open>\<open>erase(iterator)\<close>: the outer None is an iterator that is not of this map.\<close>

definition InsertionMap_erase_at :: "('k \<Rightarrow> 'k \<Rightarrow> bool) \<Rightarrow> nat option \<Rightarrow> ('k, 'v) insertion_map
    \<Rightarrow> (nat option \<times> ('k, 'v) insertion_map) option" where
  "InsertionMap_erase_at lt pos m =
     (case pos of
        None \<Rightarrow> Some (None, m)
      | Some i \<Rightarrow>
          (case map_of (iorder m) i of
             None \<Rightarrow> None
           | Some (k, _) \<Rightarrow>
               Some (next_node i (iorder m),
                 m\<lparr>imap := merase lt k (imap m), iorder := filter (\<lambda>(j, _). j \<noteq> i) (iorder m)\<rparr>)))"

definition InsertionMap_clear :: "('k, 'v) insertion_map \<Rightarrow> ('k, 'v) insertion_map" where
  "InsertionMap_clear m = m\<lparr>iorder := [], imap := []\<rparr>"

definition InsertionMap_copy :: "('k \<Rightarrow> 'k \<Rightarrow> bool) \<Rightarrow> ('k, 'v) insertion_map \<Rightarrow> ('k, 'v) insertion_map" where
  "InsertionMap_copy lt other =
     fold (\<lambda>(_, k, v) m. snd (InsertionMap_insert lt k v m)) (iorder other) InsertionMap_new"

definition InsertionMap_assign :: "('k \<Rightarrow> 'k \<Rightarrow> bool) \<Rightarrow> ('k, 'v) insertion_map \<Rightarrow> ('k, 'v) insertion_map
    \<Rightarrow> ('k, 'v) insertion_map" where
  "InsertionMap_assign lt other m =
     fold (\<lambda>(_, k, v) m. snd (InsertionMap_insert lt k v m)) (iorder other) (InsertionMap_clear m)"

definition InsertionMap_swap :: "('k, 'v) insertion_map \<Rightarrow> ('k, 'v) insertion_map
    \<Rightarrow> ('k, 'v) insertion_map \<times> ('k, 'v) insertion_map" where
  "InsertionMap_swap m other = (other, m)"

section \<open>The sequence of entries\<close>

definition entries :: "('k, 'v) insertion_map \<Rightarrow> ('k \<times> 'v) list" where
  "entries m = List.map snd (iorder m)"

definition imap_inv :: "('k \<Rightarrow> 'k \<Rightarrow> bool) \<Rightarrow> ('k, 'v) insertion_map \<Rightarrow> bool" where
  "imap_inv lt m \<longleftrightarrow> msorted lt (imap m) \<and> distinct (List.map fst (iorder m)) \<and>
     (\<forall>(i, _) \<in> set (iorder m). i < inext m) \<and>
     set (imap m) = (\<lambda>(i, k, v). (k, i)) ` set (iorder m)"

fun elookup :: "('k \<Rightarrow> 'k \<Rightarrow> bool) \<Rightarrow> 'k \<Rightarrow> ('k \<times> 'v) list \<Rightarrow> 'v option" where
  "elookup lt k [] = None"
| "elookup lt k ((j, v) # es) = (if eqv lt k j then Some v else elookup lt k es)"

definition einsert :: "('k \<Rightarrow> 'k \<Rightarrow> bool) \<Rightarrow> 'k \<Rightarrow> 'v \<Rightarrow> ('k \<times> 'v) list \<Rightarrow> ('k \<times> 'v) list" where
  "einsert lt k v es = (if elookup lt k es = None then es @ [(k, v)] else es)"

definition eassign :: "('k \<Rightarrow> 'k \<Rightarrow> bool) \<Rightarrow> 'k \<Rightarrow> 'v \<Rightarrow> ('k \<times> 'v) list \<Rightarrow> ('k \<times> 'v) list" where
  "eassign lt k v es =
     (if elookup lt k es = None then es @ [(k, v)]
      else List.map (\<lambda>(j, w). if eqv lt k j then (j, v) else (j, w)) es)"

definition eremove :: "('k \<Rightarrow> 'k \<Rightarrow> bool) \<Rightarrow> 'k \<Rightarrow> ('k \<times> 'v) list \<Rightarrow> ('k \<times> 'v) list" where
  "eremove lt k es = filter (\<lambda>(j, _). \<not> eqv lt k j) es"

lemma imap_invD:
  assumes "imap_inv lt m"
  shows "msorted lt (imap m)" "distinct (List.map fst (iorder m))"
    "(i, k, v) \<in> set (iorder m) \<Longrightarrow> i < inext m"
    "(k, i) \<in> set (imap m) \<longleftrightarrow> (\<exists>v. (i, k, v) \<in> set (iorder m))"
proof -
  show "msorted lt (imap m)" "distinct (List.map fst (iorder m))" using assms by (simp_all add: imap_inv_def)
  show "(i, k, v) \<in> set (iorder m) \<Longrightarrow> i < inext m" using assms by (auto simp: imap_inv_def)
  have "set (imap m) = (\<lambda>(i, k, v). (k, i)) ` set (iorder m)" using assms by (simp add: imap_inv_def)
  then have "(k, i) \<in> set (imap m) \<longleftrightarrow> (k, i) \<in> (\<lambda>(i, k, v). (k, i)) ` set (iorder m)" by (simp only:)
  then show "(k, i) \<in> set (imap m) \<longleftrightarrow> (\<exists>v. (i, k, v) \<in> set (iorder m))" by (force simp: image_iff)
qed

lemma imap_inv_new: "imap_inv lt InsertionMap_new"
  by (simp add: imap_inv_def InsertionMap_new_def)

lemma elookup_None: "elookup lt k es = None \<longleftrightarrow> (\<forall>(j, v) \<in> set es. \<not> eqv lt k j)"
  by (induction es) (auto split: if_splits)

text \<open>The entry of the first key, in the order of the comparison, that has a property.\<close>

definition first_key :: "('k \<Rightarrow> 'k \<Rightarrow> bool) \<Rightarrow> ('k \<Rightarrow> bool) \<Rightarrow> ('k \<times> 'v) option \<Rightarrow> ('k \<times> 'v) list \<Rightarrow> bool" where
  "first_key lt P e es \<longleftrightarrow>
     (case e of
        None \<Rightarrow> \<forall>(j, _) \<in> set es. \<not> P j
      | Some (j, v) \<Rightarrow> (j, v) \<in> set es \<and> P j \<and> (\<forall>(j', _) \<in> set es. P j' \<longrightarrow> \<not> lt j' j))"

context strict_weak_order
begin

text \<open>A node found by key is the only one whose key is equivalent.\<close>

lemma mfind_node:
  assumes inv: "imap_inv lt m" and f: "mfind lt k (imap m) = Some i"
  obtains j v where "(i, j, v) \<in> set (iorder m)" "eqv lt k j"
    "\<And>i' j' v'. (i', j', v') \<in> set (iorder m) \<Longrightarrow> eqv lt k j' \<longleftrightarrow> i' = i"
proof -
  note s = imap_invD(1) [OF inv]
  obtain j where j: "(j, i) \<in> set (imap m)" "eqv lt k j" using f mfind_iff [OF s] by blast
  then obtain v where v: "(i, j, v) \<in> set (iorder m)" using imap_invD(4) [OF inv] by blast
  have "eqv lt k j' \<longleftrightarrow> i' = i" if n: "(i', j', v') \<in> set (iorder m)" for i' j' v'
  proof
    assume "eqv lt k j'"
    then have "mfind lt k (imap m) = Some i'" using n imap_invD(4) [OF inv, of j' i'] mfind_iff [OF s] by blast
    then show "i' = i" using f by simp
  next
    assume "i' = i"
    then have "(j', v') = (j, v)" using n v imap_invD(2) [OF inv] by (metis eq_key_imp_eq_value)
    then show "eqv lt k j'" using j(2) by simp
  qed
  with that v j(2) show thesis by blast
qed

lemma mfind_no_node:
  assumes inv: "imap_inv lt m"
  shows "mfind lt k (imap m) = None \<longleftrightarrow> (\<forall>(i, j, v) \<in> set (iorder m). \<not> eqv lt k j)"
  using mfind_None [OF imap_invD(1) [OF inv], of k] imap_invD(4) [OF inv] by fastforce

lemma elookup_entries_None:
  "imap_inv lt m \<Longrightarrow> elookup lt k (entries m) = None \<longleftrightarrow> mfind lt k (imap m) = None"
  by (auto simp: elookup_None mfind_no_node entries_def)

lemma emplace_back_ok:
  assumes inv: "imap_inv lt m" and f: "mfind lt k (imap m) = None"
  shows "imap_inv lt (emplace_back lt k v m) \<and> entries (emplace_back lt k v m) = entries m @ [(k, v)]"
proof -
  have "\<forall>(j, w) \<in> set (imap m). \<not> eqv lt k j" using f mfind_None [OF imap_invD(1) [OF inv]] by blast
  from set_mput_new [OF this, of "inext m"]
  have "set (mput lt k (inext m) (imap m)) = insert (k, inext m) ((\<lambda>(i, k, v). (k, i)) ` set (iorder m))"
    using inv by (simp add: imap_inv_def)
  moreover have "inext m \<notin> fst ` set (iorder m)" using inv by (auto simp: imap_inv_def)
  ultimately show ?thesis using inv msorted_mput [OF imap_invD(1) [OF inv], of k "inext m"]
    by (auto simp: imap_inv_def emplace_back_def entries_def)
qed

lemma erase_ok:
  assumes inv: "imap_inv lt m" and f: "mfind lt k (imap m) = Some i"
  defines "m' \<equiv> m\<lparr>iorder := filter (\<lambda>(j, _). j \<noteq> i) (iorder m), imap := merase lt k (imap m)\<rparr>"
  shows "imap_inv lt m' \<and> entries m' = eremove lt k (entries m)"
proof -
  note s = imap_invD(1) [OF inv]
  obtain j v where n: "(i, j, v) \<in> set (iorder m)" "eqv lt k j"
      "\<And>i' j' v'. (i', j', v') \<in> set (iorder m) \<Longrightarrow> eqv lt k j' \<longleftrightarrow> i' = i"
    using mfind_node [OF inv f] by blast
  have "(k', i') \<in> set (imap m') \<longleftrightarrow> (\<exists>v'. (i', k', v') \<in> set (iorder m'))" for k' i'
    using n(3) [of i' k'] imap_invD(4) [OF inv, of k' i'] by (auto simp: m'_def set_merase [OF s])
  then have "set (imap m') = (\<lambda>(i, k, v). (k, i)) ` set (iorder m')"
    by (force simp: image_iff)
  moreover have "distinct (List.map fst (iorder m'))"
    using imap_invD(2) [OF inv] by (simp add: m'_def distinct_map_filter)
  moreover have "entries m' = eremove lt k (entries m)"
    unfolding m'_def entries_def eremove_def
    by (simp add: filter_map comp_def, rule arg_cong [of _ _ "List.map _"], rule filter_cong) (use n(3) in auto)
  ultimately show ?thesis using inv msorted_merase [OF s, of k]
    by (auto simp: imap_inv_def m'_def)
qed

lemma node_set_ok:
  fixes v :: 'v
  assumes inv: "imap_inv lt m" and f: "mfind lt k (imap m) = Some i"
  defines "m' \<equiv> m\<lparr>iorder := node_set i v (iorder m)\<rparr>"
  shows "imap_inv lt m' \<and> entries m' = List.map (\<lambda>(j, w). if eqv lt k j then (j, v) else (j, w)) (entries m)"
proof -
  obtain j u where "(i, j, u) \<in> set (iorder m)" "eqv lt k j" and n: "\<And>i' j' v'. (i', j', v') \<in> set (iorder m) \<Longrightarrow> eqv lt k j' \<longleftrightarrow> i' = i"
    using mfind_node [OF inv f] by blast
  have "List.map fst (iorder m') = List.map fst (iorder m)"
    by (auto simp: m'_def node_set_def)
  moreover have "(\<lambda>(i, k, v). (k, i)) ` set (iorder m') = (\<lambda>(i, k, v). (k, i)) ` set (iorder m)"
    by (auto simp: m'_def node_set_def image_image intro!: image_cong)
  moreover have "\<forall>(i, _) \<in> set (iorder m'). i < inext m'"
    using inv by (auto simp: imap_inv_def m'_def node_set_def split: if_splits)
  moreover have "imap m' = imap m" "inext m' = inext m" by (simp_all add: m'_def)
  ultimately have "imap_inv lt m'" using inv by (simp add: imap_inv_def)
  moreover have "entries m' = List.map snd (node_set i v (iorder m))" by (simp add: m'_def entries_def)
  moreover have "\<dots> = List.map (\<lambda>(j, w). if eqv lt k j then (j, v) else (j, w)) (entries m)"
    unfolding entries_def node_set_def map_map
  proof (rule map_cong [OF refl])
    fix x assume "x \<in> set (iorder m)"
    moreover obtain i' j' v' where "x = (i', j', v')" using prod_cases3 by blast
    ultimately show "(snd \<circ> (\<lambda>(j, k, w). if j = i then (j, k, v) else (j, k, w))) x =
        ((\<lambda>(j, w). if eqv lt k j then (j, v) else (j, w)) \<circ> snd) x"
      using n [of i' j' v'] by simp
  qed
  ultimately show ?thesis by simp
qed

lemma node_lookup:
  assumes inv: "imap_inv lt m" and f: "mfind lt k (imap m) = Some i"
  shows "node_value i m = elookup lt k (entries m)"
proof -
  obtain j v where n: "(i, j, v) \<in> set (iorder m)" "eqv lt k j"
      "\<And>i' j' v'. (i', j', v') \<in> set (iorder m) \<Longrightarrow> eqv lt k j' \<longleftrightarrow> i' = i"
    using mfind_node [OF inv f] by blast
  have look: "elookup lt k (List.map snd xs) = map_option snd (map_of xs i)"
    if "\<forall>(i', j', v') \<in> set xs. eqv lt k j' \<longleftrightarrow> i' = i" for xs
    using that by (induction xs) auto
  have "\<forall>(i', j', v') \<in> set (iorder m). eqv lt k j' \<longleftrightarrow> i' = i" using n(3) by blast
  from look [OF this] show ?thesis by (simp add: node_value_def entries_def)
qed

lemma insert_ok:
  assumes inv: "imap_inv lt m"
  shows "imap_inv lt (snd (InsertionMap_insert lt k v m)) \<and>
    entries (snd (InsertionMap_insert lt k v m)) = einsert lt k v (entries m)"
  using emplace_back_ok [OF inv, of k v] elookup_entries_None [OF inv, of k] inv
  by (auto simp: InsertionMap_insert_def einsert_def split: option.splits)

lemma assign_ok:
  assumes inv: "imap_inv lt m"
  shows "imap_inv lt (snd (InsertionMap_insert_or_assign lt k v m)) \<and>
    entries (snd (InsertionMap_insert_or_assign lt k v m)) = eassign lt k v (entries m)"
proof (cases "mfind lt k (imap m)")
  case None
  then show ?thesis using emplace_back_ok [OF inv None, of v] elookup_entries_None [OF inv, of k]
    by (simp add: InsertionMap_insert_or_assign_def eassign_def)
next
  case (Some i)
  then have "elookup lt k (entries m) \<noteq> None" using elookup_entries_None [OF inv, of k] by simp
  then show ?thesis using node_set_ok [OF inv Some, of v] Some
    by (simp only: InsertionMap_insert_or_assign_def eassign_def option.case snd_conv if_False)
qed

lemma remove_ok:
  assumes inv: "imap_inv lt m"
  shows "imap_inv lt (InsertionMap_erase_key lt k m) \<and>
    entries (InsertionMap_erase_key lt k m) = eremove lt k (entries m)"
proof (cases "mfind lt k (imap m)")
  case None
  then have "\<forall>(j, v) \<in> set (entries m). \<not> eqv lt k j"
    using elookup_entries_None [OF inv, of k] elookup_None [of lt k "entries m"] by simp
  then have "eremove lt k (entries m) = entries m" by (auto simp: eremove_def filter_id_conv)
  then show ?thesis using None inv by (simp add: InsertionMap_erase_key_def)
next
  case (Some i)
  then show ?thesis using erase_ok [OF inv Some] by (simp only: InsertionMap_erase_key_def option.case)
qed

lemma at_ok:
  assumes inv: "imap_inv lt m"
  shows "InsertionMap_at lt k m = elookup lt k (entries m)"
  using elookup_entries_None [OF inv, of k] node_lookup [OF inv, of k]
  by (cases "mfind lt k (imap m)") (simp_all add: InsertionMap_at_def)

text \<open>What the operations that give an iterator point at.\<close>

lemma mfind_emplace_back:
  assumes inv: "imap_inv lt m"
  shows "mfind lt k (imap (emplace_back lt k v m)) = Some (inext m)"
  using mfind_mput [OF imap_invD(1) [OF inv], of k k "inext m"] by (simp add: emplace_back_def)

lemma insert_result:
  assumes inv: "imap_inv lt m" and i: "InsertionMap_insert lt k v m = ((i, new), m')"
  shows "new = (elookup lt k (entries m) = None) \<and> node_value i m' = elookup lt k (entries m')"
proof (cases "mfind lt k (imap m)")
  case None
  then have "i = inext m" "new" "m' = emplace_back lt k v m" using i by (auto simp: InsertionMap_insert_def)
  then show ?thesis
    using node_lookup [of m' k i] emplace_back_ok [OF inv None, of v] mfind_emplace_back [OF inv, of k v] None
      elookup_entries_None [OF inv, of k] by simp
next
  case (Some j)
  then show ?thesis using i node_lookup [OF inv Some] elookup_entries_None [OF inv, of k] by (auto simp: InsertionMap_insert_def)
qed

lemma assign_result:
  assumes inv: "imap_inv lt m" and i: "InsertionMap_insert_or_assign lt k v m = ((i, new), m')"
  shows "new = (elookup lt k (entries m) = None) \<and> node_value i m' = elookup lt k (entries m')"
proof (cases "mfind lt k (imap m)")
  case None
  then have "InsertionMap_insert_or_assign lt k v m = InsertionMap_insert lt k v m"
    by (simp add: InsertionMap_insert_or_assign_def InsertionMap_insert_def)
  then show ?thesis using insert_result [OF inv i [unfolded \<open>InsertionMap_insert_or_assign lt k v m = InsertionMap_insert lt k v m\<close>]] by simp
next
  case (Some j)
  then have m': "i = j" "\<not> new" "m' = m\<lparr>iorder := node_set j v (iorder m)\<rparr>" using i
    by (auto simp: InsertionMap_insert_or_assign_def)
  then have "mfind lt k (imap m') = Some i" using Some by simp
  then show ?thesis using node_lookup [of m' k i] node_set_ok [OF inv Some, of v] m' Some elookup_entries_None [OF inv, of k]
    by simp
qed

lemma subscript_insert: "InsertionMap_subscript lt v k m = (fst (fst (InsertionMap_insert lt k v m)), snd (InsertionMap_insert lt k v m))"
  by (simp add: InsertionMap_subscript_def InsertionMap_insert_def split: option.split)

lemma next_node_after: "i \<notin> fst ` set xs \<Longrightarrow> next_node i (xs @ (i, e) # ys) = (case ys of [] \<Rightarrow> None | (j, _) # _ \<Rightarrow> Some j)"
  by (induction xs) auto

lemma erase_at_ok:
  assumes inv: "imap_inv lt m" and e: "InsertionMap_erase_at lt (Some i) m = Some (after, m')"
  shows "imap_inv lt m' \<and> (\<exists>xs e ys. iorder m = xs @ (i, e) # ys \<and> entries m' = List.map snd (xs @ ys) \<and>
    after = (case ys of [] \<Rightarrow> None | (j, _) # _ \<Rightarrow> Some j))"
proof -
  obtain k v where n: "map_of (iorder m) i = Some (k, v)" "after = next_node i (iorder m)"
      "m' = m\<lparr>imap := merase lt k (imap m), iorder := filter (\<lambda>(j, _). j \<noteq> i) (iorder m)\<rparr>"
    using e by (auto simp: InsertionMap_erase_at_def split: option.splits)
  obtain xs ys where o: "iorder m = xs @ (i, k, v) # ys" using split_list [OF map_of_SomeD [OF n(1)]] by blast
  have d: "i \<notin> fst ` set xs" "i \<notin> fst ` set ys" using imap_invD(2) [OF inv] by (auto simp: o)
  have "filter (\<lambda>(j, _). j \<noteq> i) xs = xs" "filter (\<lambda>(j, _). j \<noteq> i) ys = ys"
    using d by (force simp: filter_id_conv)+
  then have es: "entries m' = List.map snd (xs @ ys)" by (simp add: n(3) entries_def o)
  have "(k, i) \<in> set (imap m)" using imap_invD(4) [OF inv, of k i] o by auto
  then have "mfind lt k (imap m) = Some i" using mfind_iff [OF imap_invD(1) [OF inv]] eqv_refl by blast
  moreover have "m' = m\<lparr>iorder := filter (\<lambda>(j, _). j \<noteq> i) (iorder m), imap := merase lt k (imap m)\<rparr>" by (simp add: n(3))
  ultimately have "imap_inv lt m'" using erase_ok [OF inv] by simp
  moreover have "after = (case ys of [] \<Rightarrow> None | (j, _) # _ \<Rightarrow> Some j)" unfolding n(2) o by (rule next_node_after [OF d(1)])
  ultimately show ?thesis using o es by blast
qed

lemma sorted_first_least:
  assumes "msorted lt xs" "\<And>j. (j, i) \<in> set (imap m) \<Longrightarrow> (\<exists>v. (i, j, v) \<in> set (iorder m))" "distinct (List.map fst (iorder m))"
    and "xs = (j, i) # rest" "(j, i) \<in> set (imap m)"
  shows "\<exists>v. map_of (iorder m) i = Some (j, v) \<and> (\<forall>(j', i') \<in> set xs. \<not> lt j' j)"
proof -
  obtain v where "(i, j, v) \<in> set (iorder m)" using assms(2,5) by blast
  then have "map_of (iorder m) i = Some (j, v)" using assms(3) by simp
  moreover have "\<forall>(j', i') \<in> set xs. \<not> lt j' j" using assms(1) asym irrefl by (auto simp: assms(4))
  ultimately show ?thesis by blast
qed

lemma bound_ok:
  assumes inv: "imap_inv lt m" and xs: "msorted lt xs" "set xs = {(j, i) \<in> set (imap m). P j}"
  shows "first_key lt P (Option.bind (case xs of [] \<Rightarrow> None | (_, i) # _ \<Rightarrow> Some i) (map_of (iorder m))) (entries m)"
proof (cases xs)
  case Nil
  have "\<not> P j" if "(i, j, v) \<in> set (iorder m)" for i j v
    using that imap_invD(4) [OF inv, of j i] xs(2) by (auto simp: Nil)
  then show ?thesis by (auto simp: Nil first_key_def entries_def)
next
  case (Cons x rest)
  obtain j i where x: "x = (j, i)" by (cases x)
  have m: "(j, i) \<in> set (imap m)" "P j" using xs(2) by (auto simp: Cons x)
  obtain v where v: "map_of (iorder m) i = Some (j, v)" "\<forall>(j', i') \<in> set xs. \<not> lt j' j"
    using sorted_first_least [OF xs(1) _ imap_invD(2) [OF inv] _ m(1), of rest] imap_invD(4) [OF inv] by (auto simp: Cons x)
  have "\<not> lt j' j" if "(i', j', v') \<in> set (iorder m)" "P j'" for i' j' v'
    using that imap_invD(4) [OF inv, of j' i'] xs(2) v(2) by blast
  then show ?thesis using v(1) m(2) map_of_SomeD [OF v(1)] by (force simp: Cons x first_key_def entries_def)
qed

lemma msorted_dropWhile: "msorted lt xs \<Longrightarrow> msorted lt (dropWhile P xs)"
  unfolding msorted_def by (metis sorted_wrt_append takeWhile_dropWhile_id)

lemma bounds_ok:
  assumes inv: "imap_inv lt m"
  shows "first_key lt (\<lambda>j. \<not> lt j k) (Option.bind (InsertionMap_lower_bound lt k m) (map_of (iorder m))) (entries m)"
    and "first_key lt (\<lambda>j. lt k j) (Option.bind (InsertionMap_upper_bound lt k m) (map_of (iorder m))) (entries m)"
  using bound_ok [OF inv, of "mlower lt k (imap m)" "\<lambda>j. \<not> lt j k"] bound_ok [OF inv, of "mupper lt k (imap m)" "\<lambda>j. lt k j"]
    set_mlower [OF imap_invD(1) [OF inv], of k] set_mupper [OF imap_invD(1) [OF inv], of k] imap_invD(1) [OF inv]
  by (simp_all add: InsertionMap_lower_bound_def InsertionMap_upper_bound_def mlower_def mupper_def msorted_dropWhile)

text \<open>The keys of the entries are pairwise inequivalent.\<close>

definition edistinct :: "('k \<times> 'v) list \<Rightarrow> bool" where
  "edistinct es \<longleftrightarrow> sorted_wrt (\<lambda>p q. \<not> eqv lt (fst p) (fst q)) es"

lemma inv_edistinct:
  assumes inv: "imap_inv lt m"
  shows "edistinct (entries m)"
  unfolding edistinct_def sorted_wrt_iff_nth_less
proof (intro allI impI)
  fix a b assume ab: "a < b" "b < length (entries m)"
  let ?x = "iorder m ! a" let ?y = "iorder m ! b"
  have len: "a < length (iorder m)" "b < length (iorder m)" using ab by (auto simp: entries_def)
  obtain i k v where x: "?x = (i, k, v)" using prod_cases3 by blast
  obtain i' k' v' where y: "?y = (i', k', v')" using prod_cases3 by blast
  have mem: "(i, k, v) \<in> set (iorder m)" "(i', k', v') \<in> set (iorder m)"
    using len x y nth_mem by metis+
  then have "(k, i) \<in> set (imap m)" using imap_invD(4) [OF inv] by blast
  then have "mfind lt k (imap m) = Some i" using mfind_iff [OF imap_invD(1) [OF inv]] eqv_refl by blast
  then have "eqv lt k k' \<longleftrightarrow> i' = i" using mfind_node [OF inv] mem(2) by metis
  moreover have "i \<noteq> i'"
    using nth_eq_iff_index_eq [OF imap_invD(2) [OF inv], of a b] ab(1) len x y by auto
  ultimately show "\<not> eqv lt (fst (entries m ! a)) (fst (entries m ! b))"
    using len x y by (simp add: entries_def)
qed

lemma copy_loop:
  "imap_inv lt m \<Longrightarrow> edistinct (entries m @ List.map snd xs) \<Longrightarrow>
   imap_inv lt (fold (\<lambda>(_, k, v) m. snd (InsertionMap_insert lt k v m)) xs m) \<and>
   entries (fold (\<lambda>(_, k, v) m. snd (InsertionMap_insert lt k v m)) xs m) = entries m @ List.map snd xs"
proof (induction xs arbitrary: m)
  case (Cons x xs)
  obtain i k v where x: "x = (i, k, v)" using prod_cases3 by blast
  let ?m = "snd (InsertionMap_insert lt k v m)"
  have "elookup lt k (entries m) = None"
    using Cons.prems(2) eqv_sym by (fastforce simp: elookup_None edistinct_def sorted_wrt_append x)
  then have "entries ?m = entries m @ [(k, v)]" "imap_inv lt ?m"
    using insert_ok [OF Cons.prems(1), of k v] by (auto simp: einsert_def)
  then show ?case using Cons.IH [of ?m] Cons.prems(2) by (simp add: x)
qed simp

text \<open>The operations with what they answer.\<close>

lemma insert_full:
  assumes "imap_inv lt m"
  shows "case InsertionMap_insert lt k v m of ((i, new), m') \<Rightarrow>
    imap_inv lt m' \<and> entries m' = einsert lt k v (entries m) \<and>
    new = (elookup lt k (entries m) = None) \<and> node_value i m' = elookup lt k (entries m')"
  using insert_ok [OF assms, of k v] insert_result [OF assms, of k v] by (cases "InsertionMap_insert lt k v m") auto

lemma emplace_insert: "InsertionMap_emplace lt k v m = InsertionMap_insert lt k v m"
  by (simp add: InsertionMap_emplace_def InsertionMap_insert_def)

lemma subscript_full:
  assumes "imap_inv lt m"
  shows "case InsertionMap_subscript lt v k m of (i, m') \<Rightarrow>
    imap_inv lt m' \<and> entries m' = einsert lt k v (entries m) \<and> node_value i m' = elookup lt k (entries m')"
  using insert_full [OF assms, of k v] unfolding subscript_insert by (cases "InsertionMap_insert lt k v m") auto

lemma assign_full:
  assumes "imap_inv lt m"
  shows "case InsertionMap_insert_or_assign lt k v m of ((i, new), m') \<Rightarrow>
    imap_inv lt m' \<and> entries m' = eassign lt k v (entries m) \<and>
    new = (elookup lt k (entries m) = None) \<and> node_value i m' = elookup lt k (entries m')"
  using assign_ok [OF assms, of k v] assign_result [OF assms, of k v]
  by (cases "InsertionMap_insert_or_assign lt k v m") auto

lemma find_lookup:
  assumes "imap_inv lt m"
  shows "Option.bind (InsertionMap_find lt k m) (\<lambda>i. node_value i m) = elookup lt k (entries m)"
  using at_ok [OF assms, of k] by (simp add: InsertionMap_at_def InsertionMap_find_def split: option.splits)

lemma erase_at_full:
  assumes "imap_inv lt m"
  shows "case InsertionMap_erase_at lt pos m of
      None \<Rightarrow> \<exists>i. pos = Some i \<and> i \<notin> fst ` set (iorder m)
    | Some (after, m') \<Rightarrow>
        imap_inv lt m' \<and>
        (case pos of
           None \<Rightarrow> after = None \<and> m' = m
         | Some i \<Rightarrow> \<exists>xs e ys. iorder m = xs @ (i, e) # ys \<and> entries m' = List.map snd (xs @ ys) \<and>
             after = (case ys of [] \<Rightarrow> None | (j, _) # _ \<Rightarrow> Some j))"
proof (cases pos)
  case None
  then show ?thesis using assms by (simp add: InsertionMap_erase_at_def)
next
  case (Some i)
  show ?thesis
  proof (cases "InsertionMap_erase_at lt pos m")
    case None
    then show ?thesis by (simp add: Some InsertionMap_erase_at_def map_of_eq_None_iff split: option.splits prod.splits)
  next
    case e: (Some r)
    then show ?thesis using erase_at_ok [OF assms, of i "fst r" "snd r"] by (cases r) (simp add: Some)
  qed
qed

lemma copy_full:
  assumes "imap_inv lt p" "entries p = []" "imap_inv lt q"
  shows "imap_inv lt (fold (\<lambda>(_, k, v) m. snd (InsertionMap_insert lt k v m)) (iorder q) p) \<and>
    entries (fold (\<lambda>(_, k, v) m. snd (InsertionMap_insert lt k v m)) (iorder q) p) = entries q"
proof -
  have "edistinct (entries p @ List.map snd (iorder q))"
    using inv_edistinct [OF assms(3)] by (simp add: assms(2)) (simp add: entries_def)
  from copy_loop [OF assms(1) this] show ?thesis by (simp add: assms(2)) (simp add: entries_def)
qed

end

lemma clear_full: "imap_inv lt (InsertionMap_clear m)" "entries (InsertionMap_clear m) = []" "entries InsertionMap_new = []"
  by (simp_all add: InsertionMap_clear_def InsertionMap_new_def imap_inv_def entries_def)

section \<open>Properties\<close>

text \<open>
  C5: On a map whose list and index are in step, for any comparison that is a strict weak order, every operation but the
  moves of iterators keeps them in step and is the operation on the sequence of entries: \<open>insert\<close>, \<open>emplace\<close> and
  \<open>operator[]\<close> add behind unless an equivalent key is there, \<open>insert_or_assign\<close> replaces the value in its place, and
  what they give points at the entry of the key; both \<open>erase\<close> remove the entry and keep the order of the others, and
  \<open>erase(iterator)\<close> gives the entry behind; \<open>at\<close> and \<open>find\<close> look the key up; the bounds give the first key
  not before, and after, the one asked; \<open>clear\<close> leaves nothing, a copy and an assignment have the same entries in the same
  order, and \<open>swap\<close> exchanges.
\<close>

theorem InsertionMap_refines:
  assumes lt: "strict_weak_order lt" and inv: "imap_inv lt m" and other: "imap_inv lt m2"
  shows "(case InsertionMap_insert lt k v m of ((i, new), m') \<Rightarrow>
       imap_inv lt m' \<and> entries m' = einsert lt k v (entries m) \<and>
       new = (elookup lt k (entries m) = None) \<and> node_value i m' = elookup lt k (entries m')) \<and>
    (case InsertionMap_emplace lt k v m of ((i, new), m') \<Rightarrow>
       imap_inv lt m' \<and> entries m' = einsert lt k v (entries m) \<and>
       new = (elookup lt k (entries m) = None) \<and> node_value i m' = elookup lt k (entries m')) \<and>
    (case InsertionMap_subscript lt v k m of (i, m') \<Rightarrow>
       imap_inv lt m' \<and> entries m' = einsert lt k v (entries m) \<and> node_value i m' = elookup lt k (entries m')) \<and>
    (case InsertionMap_insert_or_assign lt k v m of ((i, new), m') \<Rightarrow>
       imap_inv lt m' \<and> entries m' = eassign lt k v (entries m) \<and>
       new = (elookup lt k (entries m) = None) \<and> node_value i m' = elookup lt k (entries m')) \<and>
    (let m' = InsertionMap_erase_key lt k m in imap_inv lt m' \<and> entries m' = eremove lt k (entries m)) \<and>
    (case InsertionMap_erase_at lt pos m of
       None \<Rightarrow> \<exists>i. pos = Some i \<and> i \<notin> fst ` set (iorder m)
     | Some (after, m') \<Rightarrow>
         imap_inv lt m' \<and>
         (case pos of
            None \<Rightarrow> after = None \<and> m' = m
          | Some i \<Rightarrow> \<exists>xs e ys. iorder m = xs @ (i, e) # ys \<and> entries m' = List.map snd (xs @ ys) \<and>
              after = (case ys of [] \<Rightarrow> None | (j, _) # _ \<Rightarrow> Some j))) \<and>
    InsertionMap_at lt k m = elookup lt k (entries m) \<and>
    Option.bind (InsertionMap_find lt k m) (\<lambda>i. node_value i m) = elookup lt k (entries m) \<and>
    first_key lt (\<lambda>j. \<not> lt j k) (Option.bind (InsertionMap_lower_bound lt k m) (map_of (iorder m))) (entries m) \<and>
    first_key lt (\<lambda>j. lt k j) (Option.bind (InsertionMap_upper_bound lt k m) (map_of (iorder m))) (entries m) \<and>
    (let m' = InsertionMap_clear m in imap_inv lt m' \<and> entries m' = []) \<and>
    (let m' = InsertionMap_copy lt m in imap_inv lt m' \<and> entries m' = entries m) \<and>
    (let m' = InsertionMap_assign lt m2 m in imap_inv lt m' \<and> entries m' = entries m2) \<and>
    InsertionMap_swap m m2 = (m2, m)"
  using strict_weak_order.insert_full [OF lt inv, of k v] strict_weak_order.emplace_insert [OF lt, of k v m]
    strict_weak_order.subscript_full [OF lt inv, of k v] strict_weak_order.assign_full [OF lt inv, of k v]
    strict_weak_order.remove_ok [OF lt inv, of k] strict_weak_order.erase_at_full [OF lt inv, of pos]
    strict_weak_order.at_ok [OF lt inv, of k] strict_weak_order.find_lookup [OF lt inv, of k]
    strict_weak_order.bounds_ok [OF lt inv, of k] clear_full
    strict_weak_order.copy_full [OF lt imap_inv_new clear_full(3) inv]
    strict_weak_order.copy_full [OF lt clear_full(1,2) other]
  unfolding Let_def InsertionMap_copy_def InsertionMap_assign_def InsertionMap_swap_def by metis

theorem InsertionMap_refines_witness:
  "entries (snd (InsertionMap_insert IComparator ''b'' 1 InsertionMap_new)) = [(''b'', 1 :: nat)] \<and>
   (case InsertionMap_insert IComparator ''b'' (1 :: nat) InsertionMap_new of ((i, new), m') \<Rightarrow> new \<and> node_value i m' = Some 1)"
proof -
  note law = InsertionMap_refines [OF icomparator.strict_weak_order_axioms imap_inv_new imap_inv_new,
      where k = "''b''" and v = "1 :: nat", THEN conjunct1]
  show ?thesis using law by (auto simp: einsert_def entries_def InsertionMap_new_def eqv_IComparator split: prod.splits)
qed

end
