(* ===== verification/Bit_Reader.thy ===== *)
theory Bit_Reader
  imports Prelude
begin

text \<open>
  Mona/Format/BitReader.h, BitReader.cpp: a cursor over the bits of a block, the most significant bit of
  a byte first. \<open>qcur\<close> and \<open>qend\<close> are \<open>_current - _data\<close> and \<open>_end - _data\<close>, \<open>qbit\<close> is \<open>_bit\<close>.
  The lemmas relate every operation to \<open>bit_stream\<close>, the bits left to read.
\<close>

record bit_reader =
  qdata :: "byte list"
  qend :: nat
  qcur :: nat
  qsize :: nat
  qbit :: nat

definition BitReader :: "byte list \<Rightarrow> nat \<Rightarrow> bit_reader" where
  "BitReader d n = \<lparr>qdata = d, qend = n, qcur = 0, qsize = n, qbit = 0\<rparr>"

text \<open>\<open>++_bit == 8\<close>: to the next byte.\<close>

definition bit_advance :: "bit_reader \<Rightarrow> bit_reader" where
  "bit_advance r = (if qbit r + 1 = 8 then r\<lparr>qbit := 0, qcur := qcur r + 1\<rparr> else r\<lparr>qbit := qbit r + 1\<rparr>)"

definition BitReader_read :: "bit_reader \<Rightarrow> bool \<times> bit_reader" where
  "BitReader_read r =
     (if qcur r = qend r then (False, r)
      else (qdata r ! qcur r AND drop_bit (qbit r) 0x80 \<noteq> 0, bit_advance r))"

text \<open>\<open>read<ResultType>(count)\<close>: \<open>mx\<close> is \<open>numeric_limits<ResultType>::max()\<close>.\<close>

fun read_bits_loop :: "'a::len word \<Rightarrow> nat \<Rightarrow> 'a word \<Rightarrow> bit_reader \<Rightarrow> 'a word \<times> bit_reader" where
  "read_bits_loop mx 0 result r = (result, r)"
| "read_bits_loop mx (Suc n) result r =
     (if qcur r = qend r then (result, r)
      else
        (let result' = push_bit 1 result; (b, r') = BitReader_read r
         in if \<not> b then read_bits_loop mx n result' r'
            else if n \<ge> LENGTH('a) then (mx, r')
            else read_bits_loop mx n (result' OR 1) r'))"

definition BitReader_read_bits :: "'a::len word \<Rightarrow> nat \<Rightarrow> bit_reader \<Rightarrow> 'a word \<times> bit_reader" where
  "BitReader_read_bits mx count' r = read_bits_loop mx count' 0 r"

definition BitReader_position :: "bit_reader \<Rightarrow> nat" where
  "BitReader_position r = qcur r * 8 + qbit r"

text \<open>\<open>available()\<close> is a \<open>uint64_t\<close>, and the subtraction is not guarded.\<close>

definition BitReader_available :: "bit_reader \<Rightarrow> nat" where
  "BitReader_available r = nat ((int ((qend r - qcur r) * 8) - int (qbit r)) mod 2 ^ 64)"

fun BitReader_next :: "nat \<Rightarrow> bit_reader \<Rightarrow> nat \<times> bit_reader" where
  "BitReader_next 0 r = (0, r)"
| "BitReader_next (Suc n) r =
     (if qcur r = qend r then (0, r)
      else (case BitReader_next n (bit_advance r) of (gotten, r') \<Rightarrow> (gotten + 1, r')))"

definition BitReader_reset :: "nat \<Rightarrow> bit_reader \<Rightarrow> bit_reader" where
  "BitReader_reset pos r =
     (let bytes = (pos div 8) mod 2 ^ 32
      in r\<lparr>qcur := (if bytes > qsize r then qsize r else bytes), qbit := pos mod 8\<rparr>)"

definition BitReader_shrink :: "nat \<Rightarrow> bit_reader \<Rightarrow> nat \<times> bit_reader" where
  "BitReader_shrink available r =
     (let rest = BitReader_available r
      in if available > rest then (rest, r)
         else (available,
               r\<lparr>qend := qcur r + available div 8, qsize := qcur r + available div 8, qbit := available mod 8\<rparr>))"

section \<open>The bits left to read\<close>

definition bits_of_byte :: "byte \<Rightarrow> bool list" where
  "bits_of_byte b = List.map (\<lambda>i. bit b (7 - i)) [0..<8]"

definition bit_stream :: "bit_reader \<Rightarrow> bool list" where
  "bit_stream r = drop (qbit r) (concat (List.map bits_of_byte (take (qend r - qcur r) (drop (qcur r) (qdata r)))))"

definition bit_inv :: "bit_reader \<Rightarrow> bool" where
  "bit_inv r \<longleftrightarrow> qcur r \<le> qend r \<and> qend r \<le> length (qdata r) \<and> qsize r = qend r \<and> qend r < 2 ^ 32 \<and>
     qbit r < 8 \<and> (qcur r = qend r \<longrightarrow> qbit r = 0)"

lemma bit_inv_new: "n \<le> length d \<Longrightarrow> n < 2 ^ 32 \<Longrightarrow> bit_inv (BitReader d n)"
  by (simp add: bit_inv_def BitReader_def)

lemma length_bits_of_byte [simp]: "length (bits_of_byte b) = 8"
  by (simp add: bits_of_byte_def)

lemma length_concat_bits: "length (concat (List.map bits_of_byte bs)) = 8 * length bs"
  by (induction bs) auto

lemma length_bit_stream: "bit_inv r \<Longrightarrow> length (bit_stream r) = (qend r - qcur r) * 8 - qbit r"
  by (auto simp: bit_stream_def length_concat_bits bit_inv_def min_def)

lemma bit_available: "bit_inv r \<Longrightarrow> BitReader_available r = length (bit_stream r)"
proof -
  assume r: "bit_inv r"
  have le: "qbit r \<le> (qend r - qcur r) * 8" using r by (cases "qcur r = qend r") (auto simp: bit_inv_def)
  have "(qend r - qcur r) * 8 < 2 ^ 64" using r by (auto simp: bit_inv_def)
  with le show ?thesis using length_bit_stream [OF r]
    by (simp add: BitReader_available_def of_nat_diff [symmetric] nat_mod_distrib)
qed

lemma bit_stream_empty: "bit_inv r \<Longrightarrow> bit_stream r = [] \<longleftrightarrow> qcur r = qend r"
proof -
  assume r: "bit_inv r"
  have "bit_stream r = [] \<longleftrightarrow> length (bit_stream r) = 0" by simp
  also have "\<dots> \<longleftrightarrow> qcur r = qend r" using r by (auto simp: length_bit_stream bit_inv_def)
  finally show ?thesis .
qed

lemma mask_bit: "k < 8 \<Longrightarrow> (b :: byte) AND drop_bit k 0x80 \<noteq> 0 \<longleftrightarrow> bit b (7 - k)"
proof -
  assume "k < 8"
  moreover have "drop_bit k (0x80 :: byte) = push_bit (7 - k) 1" if "k < 8"
  proof -
    have "list_all (\<lambda>k. drop_bit k (0x80 :: byte) = push_bit (7 - k) 1) [0..<8]"
      by (simp add: upt_0_numeral upt_1_numeral)
    then show ?thesis using that by (rule list_all_lt_upt)
  qed
  ultimately show ?thesis by (simp add: bit_iff_and_push_bit_not_eq_0)
qed

lemma bit_advance_ok:
  assumes r: "bit_inv r" and ne: "qcur r \<noteq> qend r"
  shows "bit_inv (bit_advance r) \<and>
    bit_stream r = bit (qdata r ! qcur r) (7 - qbit r) # bit_stream (bit_advance r) \<and>
    qdata (bit_advance r) = qdata r \<and> qend (bit_advance r) = qend r"
proof -
  let ?f = "\<lambda>bs. concat (List.map bits_of_byte bs)"
  have c: "qcur r < qend r" "qcur r < length (qdata r)" "qbit r < 8"
    using r ne by (auto simp: bit_inv_def)
  then have d: "drop (qcur r) (qdata r) = qdata r ! qcur r # drop (Suc (qcur r)) (qdata r)"
    by (simp add: take_drop_cons)
  have e: "qend r - qcur r = Suc (qend r - Suc (qcur r))" using c by simp
  let ?rest = "?f (take (qend r - Suc (qcur r)) (drop (Suc (qcur r)) (qdata r)))"
  have s: "bit_stream r = drop (qbit r) (bits_of_byte (qdata r ! qcur r)) @ ?rest"
    using c by (simp add: bit_stream_def d e)
  have step: "drop (qbit r) (bits_of_byte (qdata r ! qcur r)) =
      bit (qdata r ! qcur r) (7 - qbit r) # drop (Suc (qbit r)) (bits_of_byte (qdata r ! qcur r))"
    using c(3) by (subst take_drop_cons) (simp_all add: bits_of_byte_def)
  show ?thesis
  proof (cases "qbit r + 1 = 8")
    case True
    then have "drop (Suc (qbit r)) (bits_of_byte (qdata r ! qcur r)) = []" by simp
    then show ?thesis using True s step c r
      by (auto simp: bit_advance_def bit_stream_def bit_inv_def)
  next
    case False
    then have "bit_stream (bit_advance r) = drop (Suc (qbit r)) (bits_of_byte (qdata r ! qcur r)) @ ?rest"
      using c by (simp add: bit_advance_def bit_stream_def d e)
    then show ?thesis using False s step c r
      by (auto simp: bit_advance_def bit_inv_def)
  qed
qed

lemma BitReader_read_ok:
  assumes r: "bit_inv r"
  shows "case bit_stream r of
      [] \<Rightarrow> BitReader_read r = (False, r)
    | b # bs \<Rightarrow> (\<exists>r'. BitReader_read r = (b, r') \<and> bit_inv r' \<and> bit_stream r' = bs)"
proof (cases "qcur r = qend r")
  case True
  then show ?thesis using bit_stream_empty [OF r] by (simp add: BitReader_read_def)
next
  case False
  then show ?thesis using bit_advance_ok [OF r False] mask_bit [of "qbit r"] r
    by (simp add: BitReader_read_def bit_inv_def)
qed

text \<open>The number a run of bits stands for, the first the most significant.\<close>

definition bits_value :: "bool list \<Rightarrow> nat" where
  "bits_value bs = foldl (\<lambda>a b. 2 * a + of_bool b) 0 bs"

lemma bits_value_append: "foldl (\<lambda>a b. 2 * a + of_bool b) n bs = n * 2 ^ length bs + bits_value bs"
  for n :: nat
proof (induction bs arbitrary: n)
  case (Cons b bs)
  show ?case
    using Cons [of "2 * n + of_bool b"] Cons [of "of_bool b"] by (simp add: bits_value_def algebra_simps)
qed (simp add: bits_value_def)

lemma bits_value_lt: "bits_value bs < 2 ^ length bs"
proof (induction bs)
  case (Cons b bs)
  have "bits_value (b # bs) = of_bool b * 2 ^ length bs + bits_value bs"
    using bits_value_append [of "of_bool b" bs] by (simp add: bits_value_def)
  also have "\<dots> < 2 ^ length (b # bs)" using Cons by (cases b) auto
  finally show ?case .
qed (simp add: bits_value_def)

lemma shift_in_bit:
  fixes v :: "'a::len word"
  shows "push_bit 1 v = of_nat (2 * unat v)" "push_bit 1 v OR 1 = of_nat (2 * unat v + 1)"
proof -
  show a: "push_bit 1 v = of_nat (2 * unat v)" by (simp add: push_bit_eq_mult mult.commute)
  have "push_bit 1 v OR 1 = push_bit 1 v + 1"
    using or_one_eq [of "push_bit 1 v"] by (simp add: even_push_bit_iff del: push_bit_Suc)
  then show "push_bit 1 v OR 1 = of_nat (2 * unat v + 1)" using a by simp
qed

lemma read_bits_loop_ok:
  fixes mx :: "'a::len word"
  assumes "bit_inv r" "n \<le> LENGTH('a)"
  shows "\<exists>r'. read_bits_loop mx n v r =
      (of_nat (foldl (\<lambda>a b. 2 * a + of_bool b) (unat v) (take n (bit_stream r))), r') \<and>
    bit_inv r' \<and> bit_stream r' = drop n (bit_stream r)"
  using assms
proof (induction n arbitrary: v r)
  case (Suc n)
  show ?case
  proof (cases "bit_stream r")
    case Nil
    then show ?thesis using bit_stream_empty [OF Suc.prems(1)] Suc.prems(1) by simp
  next
    case (Cons b bs)
    then obtain r' where r': "BitReader_read r = (b, r')" "bit_inv r'" "bit_stream r' = bs"
      using BitReader_read_ok [OF Suc.prems(1)] by auto
    have ne: "qcur r \<noteq> qend r" using Cons bit_stream_empty [OF Suc.prems(1)] by auto
    let ?v = "if b then push_bit 1 v OR 1 else push_bit 1 v"
    have unfold: "read_bits_loop mx (Suc n) v r = read_bits_loop mx n ?v r'"
      using ne r'(1) Suc.prems(2) by simp
    have val: "(of_nat (foldl (\<lambda>a b. 2 * a + of_bool b) (unat ?v) xs) :: 'a word) =
        of_nat (foldl (\<lambda>a b. 2 * a + of_bool b) (2 * unat v + of_bool b) xs)" for xs
    proof -
      have "?v = of_nat (2 * unat v + of_bool b)" using shift_in_bit [of v] by simp
      then have "(of_nat (unat ?v) :: 'a word) = of_nat (2 * unat v + of_bool b)" by simp
      then show ?thesis by (simp add: bits_value_append)
    qed
    show ?thesis using Suc.IH [OF r'(2), of ?v] Suc.prems(2) r'(3) Cons unfold val by auto
  qed
qed simp

lemma BitReader_next_ok:
  "bit_inv r \<Longrightarrow> \<exists>r'. BitReader_next n r = (min n (length (bit_stream r)), r') \<and> bit_inv r' \<and>
     bit_stream r' = drop n (bit_stream r)"
proof (induction n arbitrary: r)
  case (Suc n)
  show ?case
  proof (cases "qcur r = qend r")
    case True
    then show ?thesis using bit_stream_empty [OF Suc.prems] Suc.prems by simp
  next
    case False
    then obtain bs where bs: "bit_stream r = bit (qdata r ! qcur r) (7 - qbit r) # bs"
        "bit_inv (bit_advance r)" "bit_stream (bit_advance r) = bs"
      using bit_advance_ok [OF Suc.prems False] by blast
    then show ?thesis using Suc.IH [OF bs(2)] False by auto
  qed
qed simp

section \<open>Properties\<close>

text \<open>
  Reading \<open>count\<close> bits into an unsigned type that can hold them gives the number those bits stand
  for, most significant first (of as many as are left), and leaves the rest of the bits; \<open>next\<close> skips
  exactly the bits it says it has skipped. A single \<open>read()\<close> gives the first bit.
\<close>

theorem BitReader_reads_numbers:
  fixes mx :: "'a::len word"
  assumes r: "bit_inv r" and n: "n \<le> LENGTH('a)"
  shows "(\<exists>r'. BitReader_read_bits mx n r = (of_nat (bits_value (take n (bit_stream r))), r') \<and>
       bit_inv r' \<and> bit_stream r' = drop n (bit_stream r)) \<and>
    bits_value (take n (bit_stream r)) < 2 ^ LENGTH('a) \<and>
    (\<exists>r'. BitReader_next k r = (min k (BitReader_available r), r') \<and> bit_inv r' \<and>
       bit_stream r' = drop k (bit_stream r))"
proof -
  have "bits_value (take n (bit_stream r)) < 2 ^ length (take n (bit_stream r))" by (rule bits_value_lt)
  also have "\<dots> \<le> 2 ^ LENGTH('a)" using n by (intro power_increasing) auto
  finally show ?thesis
    using read_bits_loop_ok [OF r n, of mx 0] BitReader_next_ok [OF r, of k] bit_available [OF r]
    by (simp add: BitReader_read_bits_def bits_value_def)
qed

theorem BitReader_reads_numbers_witness:
  "\<exists>r'. BitReader_read_bits (0xFF :: byte) 4 (BitReader [0xA5] 1) = (of_nat (bits_value [True, False, True, False]), r')"
proof -
  have i: "bit_inv (BitReader [0xA5] 1)" by (rule bit_inv_new) simp_all
  have "list_all (\<lambda>i. bit (0xA5 :: byte) (7 - i) = ([True, False, True, False, False, True, False, True] ! i)) [0..<8]"
    by (simp add: upt_0_numeral upt_1_numeral)
  then have "take 4 (bit_stream (BitReader [0xA5] 1)) = [True, False, True, False]"
    by (simp add: bit_stream_def bits_of_byte_def BitReader_def upt_0_numeral upt_1_numeral)
  then show ?thesis using BitReader_reads_numbers [OF i, of 4 "0xFF :: byte" 0] by auto
qed

text \<open>
  \<open>shrink(n)\<close> answers \<open>n\<close> but leaves \<open>n\<close> bits only when \<open>n\<close> is a number of bytes: it cuts the end
  to whole bytes and stores \<open>n % 8\<close> as the read position in the current byte.
\<close>

theorem BitReader_shrink_bits:
  assumes r: "bit_inv r" and n: "n \<le> BitReader_available r"
  shows "\<exists>r'. BitReader_shrink n r = (n, r') \<and> (BitReader_available r' = n \<longleftrightarrow> n mod 8 = 0)"
proof -
  let ?r = "r\<lparr>qend := qcur r + n div 8, qsize := qcur r + n div 8, qbit := n mod 8\<rparr>"
  have lt: "n < 2 ^ 40"
    using n bit_available [OF r] length_bit_stream [OF r] r by (auto simp: bit_inv_def)
  have s: "BitReader_shrink n r = (n, ?r)" using n by (simp add: BitReader_shrink_def Let_def)
  have d: "n = n div 8 * 8 + n mod 8" by simp
  have h: "BitReader_available ?r = n \<longleftrightarrow> n mod 8 = 0"
  proof (cases "n mod 8 \<le> n div 8 * 8")
    case True
    have "BitReader_available ?r = nat (int (n div 8 * 8 - n mod 8) mod 2 ^ 64)"
      using True by (simp add: BitReader_available_def of_nat_diff)
    also have "\<dots> = (n div 8 * 8 - n mod 8) mod 2 ^ 64" by (simp add: nat_mod_distrib)
    also have "\<dots> = n div 8 * 8 - n mod 8" using lt by simp
    finally show ?thesis using d by linarith
  next
    case False
    then have "n div 8 = 0" using mod_less_divisor [of 8 n] by (cases "n div 8") auto
    then have z: "n div 8 = 0" "n mod 8 = n" "0 < n" "n < 8" using False by auto
    then have "BitReader_available ?r = nat (- int n mod 2 ^ 64)" by (simp add: BitReader_available_def)
    also have "- int n mod 2 ^ 64 = 2 ^ 64 - int n"
      using z zmod_zminus1_eq_if [of "int n" "2 ^ 64"] by simp
    finally have a: "BitReader_available ?r = 2 ^ 64 - n" using z(4) by (simp add: nat_diff_distrib)
    have b: "n < 2 ^ 64 - n" using z(4) by (simp add: less_diff_conv)
    have "BitReader_available ?r \<noteq> n" unfolding a by (rule less_imp_neq [OF b, symmetric])
    moreover have "n mod 8 \<noteq> 0" unfolding z(2) by (rule less_imp_neq [OF z(3), symmetric])
    ultimately show ?thesis by blast
  qed
  show ?thesis by (intro exI [of _ ?r] conjI s h)
qed

theorem BitReader_shrink_bits_witness:
  "\<exists>r'. BitReader_shrink 12 (BitReader [0x80, 0] 2) = (12, r') \<and> BitReader_available r' \<noteq> 12"
proof -
  have "bit_inv (BitReader [0x80, 0] 2)" by (rule bit_inv_new) simp_all
  from BitReader_shrink_bits [OF this, of 12] show ?thesis
    by (simp add: BitReader_available_def BitReader_def)
qed

end
