(* ===== verification/Utils.thy ===== *)
theory Utils
  imports Ascii Bytes_Order
begin

text \<open>
  Mona/Util/Util.h, Util.cpp: Base64, distances on circular ranges, the xorshift generator, the
  hexadecimal dump, the table of generators and the split of an environment line. The accumulator of
  Base64 keeps its 32 bits; the two static words of \<open>Random\<close> are an explicit state, whose first value
  (process identifier and clock) is a parameter.
  The lemmas show that Base64 is inverted, that adding a distance leads to the point it was taken to,
  and that the dump fills exactly the buffer it reserves.
\<close>

section \<open>Base64\<close>

definition B64Table :: string where
  "B64Table = ''ABCDEFGHIJKLMNOPQRSTUVWXYZabcdefghijklmnopqrstuvwxyz0123456789+/''"

definition ReverseB64Table :: "nat list" where
  "ReverseB64Table = [
    64, 64, 64, 64, 64, 64, 64, 64, 64, 64, 64, 64, 64, 64, 64, 64,
    64, 64, 64, 64, 64, 64, 64, 64, 64, 64, 64, 64, 64, 64, 64, 64,
    64, 64, 64, 64, 64, 64, 64, 64, 64, 64, 64, 62, 64, 64, 64, 63,
    52, 53, 54, 55, 56, 57, 58, 59, 60, 61, 64, 64, 64, 64, 64, 64,
    64, 0, 1, 2, 3, 4, 5, 6, 7, 8, 9, 10, 11, 12, 13, 14,
    15, 16, 17, 18, 19, 20, 21, 22, 23, 24, 25, 64, 64, 64, 64, 64,
    64, 26, 27, 28, 29, 30, 31, 32, 33, 34, 35, 36, 37, 38, 39, 40,
    41, 42, 43, 44, 45, 46, 47, 48, 49, 50, 51, 64, 64, 64, 64, 64]"

function ToBase64_emit :: "u32 \<Rightarrow> nat \<Rightarrow> string \<times> nat" where
  "ToBase64_emit accumulator bits =
     (if bits \<ge> 6 then
        (case ToBase64_emit accumulator (bits - 6) of
           (out, bits') \<Rightarrow> ((B64Table ! unat (drop_bit (bits - 6) accumulator AND 0x3F)) # out, bits'))
      else ([], bits))"
  by pat_completeness auto
termination
  by (relation "measure snd") auto

declare ToBase64_emit.simps [simp del]

fun ToBase64_loop :: "u32 \<Rightarrow> nat \<Rightarrow> byte list \<Rightarrow> string" where
  "ToBase64_loop accumulator bits [] =
     (if bits > 0 then [B64Table ! unat (push_bit (6 - bits) accumulator AND 0x3F)] else [])"
| "ToBase64_loop accumulator bits (b # bs) =
     (let accumulator' = push_bit 8 accumulator OR (ucast b AND 0xFF)
      in case ToBase64_emit accumulator' (bits + 8) of
           (out, bits') \<Rightarrow> out @ ToBase64_loop accumulator' bits' bs)"

text \<open>The text is written from the old size (or 0) on, and filled with \<open>=\<close> up to the reserved size.\<close>

definition ToBase64 :: "byte list \<Rightarrow> string \<Rightarrow> bool \<Rightarrow> string" where
  "ToBase64 data buffer app =
     (let old = (if app then buffer else []);
          enc = ToBase64_loop 0 0 data;
          reserved = (length data + 2) div 3 * 4
      in old @ enc @ replicate (reserved - length enc) (CHR ''=''))"

fun FromBase64_loop :: "u32 \<Rightarrow> nat \<Rightarrow> string \<Rightarrow> byte list option" where
  "FromBase64_loop accumulator bits [] = Some []"
| "FromBase64_loop accumulator bits (c # cs) =
     (if isspace c \<or> c = CHR ''='' then FromBase64_loop accumulator bits cs
      else if code c > 127 \<or> ReverseB64Table ! code c > 63 then None
      else
        (let accumulator' = push_bit 6 accumulator OR of_nat (ReverseB64Table ! code c);
             bits' = bits + 6
         in if bits' \<ge> 8 then
              map_option ((#) (ucast (drop_bit (bits' - 8) accumulator' AND 0xFF)))
                (FromBase64_loop accumulator' (bits' - 8) cs)
            else FromBase64_loop accumulator' bits' cs))"

text \<open>The answer and the buffer; a text with a character outside the alphabet leaves the old contents.\<close>

definition FromBase64 :: "string \<Rightarrow> byte list \<Rightarrow> bool \<Rightarrow> bool \<times> byte list" where
  "FromBase64 data buffer app =
     (let old = (if app then buffer else [])
      in case FromBase64_loop 0 0 data of
           None \<Rightarrow> (False, old)
         | Some out \<Rightarrow> (True, old @ out))"

section \<open>Distances\<close>

text \<open>
  On an unsigned type of \<open>LENGTH('a)\<close> bits; a distance is the word of its signed value.
  \<open>ceil(max / 2.0)\<close> is \<open>(max + 1) div 2\<close>.
\<close>

definition Distance :: "'a::len word \<Rightarrow> 'a word \<Rightarrow> 'a word" where
  "Distance pt1 pt2 =
     (let result = pt2 - pt1
      in if nat \<bar>sint result\<bar> > (2 ^ LENGTH('a) - 1 + 1) div 2 then pt1 - pt2 else result)"

definition Distance_range :: "'a::len word \<Rightarrow> 'a word \<Rightarrow> 'a word \<Rightarrow> 'a word \<Rightarrow> 'a word" where
  "Distance_range pt1 pt2 hi lo =
     (let result = pt2 - pt1; span = hi - lo
      in if nat \<bar>sint result\<bar> \<le> (unat span + 1) div 2 then result
         else if sint result > 0 then result - span - 1 else result + span + 1)"

function AddDistance_right :: "'a::len word \<Rightarrow> 'a word \<Rightarrow> 'a word \<Rightarrow> 'a word \<Rightarrow> 'a word" where
  "AddDistance_right pt distance hi lo =
     (let delta = hi - pt
      in if distance > delta then AddDistance_right lo (distance - (delta + 1)) hi lo
         else pt + distance)"
  by pat_completeness auto
termination
proof (relation "measure (\<lambda>(pt, distance, hi, lo). unat distance)", goal_cases)
  case (2 pt distance hi lo delta)
  then have lt: "unat delta < unat distance" by (simp add: word_less_nat_alt)
  then have "unat (delta + 1) = unat delta + 1"
  proof -
    have "unat delta + 1 < 2 ^ LENGTH('a)"
      by (rule le_less_trans [OF _ unsigned_less [of distance]]) (use lt in simp)
    then show ?thesis by (simp add: unat_word_ariths)
  qed
  then show ?case using lt by (simp add: unat_sub word_le_nat_alt)
qed simp

function AddDistance_left :: "'a::len word \<Rightarrow> 'a word \<Rightarrow> 'a word \<Rightarrow> 'a word \<Rightarrow> 'a word" where
  "AddDistance_left pt distance hi lo =
     (let delta = pt - lo
      in if distance > delta then AddDistance_left hi (distance - (delta + 1)) hi lo
         else pt - distance)"
  by pat_completeness auto
termination
proof (relation "measure (\<lambda>(pt, distance, hi, lo). unat distance)", goal_cases)
  case (2 pt distance hi lo delta)
  then have lt: "unat delta < unat distance" by (simp add: word_less_nat_alt)
  then have "unat (delta + 1) = unat delta + 1"
  proof -
    have "unat delta + 1 < 2 ^ LENGTH('a)"
      by (rule le_less_trans [OF _ unsigned_less [of distance]]) (use lt in simp)
    then show ?thesis by (simp add: unat_word_ariths)
  qed
  then show ?case using lt by (simp add: unat_sub word_le_nat_alt)
qed simp

declare AddDistance_right.simps [simp del] AddDistance_left.simps [simp del]

definition AddDistance :: "'a::len word \<Rightarrow> 'a word \<Rightarrow> 'a word \<Rightarrow> 'a word \<Rightarrow> 'a word" where
  "AddDistance pt distance hi lo =
     (if sint distance \<ge> 0 then AddDistance_right pt distance hi lo
      else AddDistance_left pt (- distance) hi lo)"

section \<open>Random numbers, generators, environment\<close>

text \<open>One call of \<open>Random\<close>, on the two static words.\<close>

definition Random :: "u64 \<times> u64 \<Rightarrow> u64 \<times> (u64 \<times> u64)" where
  "Random = (\<lambda>(A, B).
     (let x = A; y = B; A' = y;
          x' = x XOR push_bit 23 x;
          B' = x' XOR y XOR drop_bit 17 x' XOR drop_bit 26 y
      in (B' + y, (A', B'))))"

definition UInt8Generators :: "nat list" where
  "UInt8Generators = [
    0, 1, 1, 2, 1, 3, 5, 4, 5, 7, 7, 7, 7, 8, 9, 8,
    11, 11, 11, 12, 11, 13, 15, 14, 17, 14, 15, 17, 17, 18, 19, 19,
    21, 20, 21, 22, 23, 23, 23, 23, 27, 25, 25, 27, 27, 28, 27, 29,
    31, 30, 31, 32, 31, 33, 31, 34, 37, 35, 37, 36, 37, 38, 37, 40,
    41, 41, 41, 41, 41, 43, 43, 44, 43, 45, 47, 46, 47, 48, 47, 49,
    49, 50, 51, 51, 53, 53, 53, 55, 53, 55, 53, 55, 57, 56, 57, 59,
    59, 60, 61, 61, 63, 62, 61, 64, 63, 64, 67, 66, 67, 67, 69, 70,
    69, 70, 71, 71, 73, 71, 73, 74, 73, 75, 75, 76, 77, 77, 79, 78,
    79, 80, 79, 81, 83, 82, 83, 83, 83, 85, 85, 86, 87, 86, 89, 87,
    89, 91, 89, 92, 91, 92, 91, 93, 93, 95, 95, 96, 95, 97, 99, 98,
    99, 100, 101, 101, 101, 103, 103, 103, 103, 103, 103, 106, 105, 107, 109, 108,
    109, 109, 109, 111, 109, 112, 111, 113, 113, 114, 115, 116, 115, 118, 117, 118,
    119, 119, 121, 121, 121, 122, 125, 123, 123, 124, 125, 125, 125, 127, 127, 128,
    129, 129, 131, 130, 131, 133, 131, 133, 133, 134, 135, 134, 137, 137, 137, 138,
    137, 139, 141, 140, 139, 142, 141, 142, 143, 144, 145, 144, 147, 146, 149, 148,
    149, 149, 151, 149, 151, 151, 151, 153, 153, 154, 153, 155, 157, 156, 157, 158]"

text \<open>A line of the environment, cut at its first equals sign.\<close>

definition Environment_line :: "string \<Rightarrow> string \<times> string" where
  "Environment_line line =
     (let name = takeWhile (\<lambda>c. c \<noteq> CHR ''='') line
      in if name = line then (line, []) else (name, drop (length name + 1) line))"

section \<open>Dump\<close>

definition hex_digit :: "nat \<Rightarrow> char" where
  "hex_digit n = (if n < 10 then chr (48 + n) else chr (55 + n))"

text \<open>One line: a tab, 16 columns of two digits and a space, a space, 16 characters, a line feed.\<close>

definition Dump_line :: "byte list \<Rightarrow> string" where
  "Dump_line bs =
     [chr 9] @ concat (List.map (\<lambda>b. [hex_digit (unat (drop_bit 4 b)), hex_digit (unat (b AND 0x0F)), CHR '' '']) bs) @
     concat (replicate (16 - length bs) ''   '') @ '' '' @
     List.map (\<lambda>b. if b > 31 then chr (unat b) else CHR ''.'') bs @ replicate (16 - length bs) (CHR '' '') @ [chr 10]"

function Dump :: "byte list \<Rightarrow> string" where
  "Dump data = (if data = [] then [] else Dump_line (take 16 data) @ Dump (drop 16 data))"
  by pat_completeness auto
termination
  by (relation "measure length") (auto simp: neq_Nil_conv)

declare Dump.simps [simp del]

section \<open>Base64 is inverted\<close>

definition b64 :: "u32 \<Rightarrow> char" where
  "b64 w = B64Table ! unat w"

lemma table_inverse:
  assumes "n < 64"
  shows "ReverseB64Table ! code (B64Table ! n) = n" "code (B64Table ! n) < 128"
    "\<not> isspace (B64Table ! n)" "B64Table ! n \<noteq> CHR ''=''"
proof -
  have "list_all (\<lambda>n. let k = code (B64Table ! n) in ReverseB64Table ! k = n \<and> k < 128 \<and> 32 < k \<and> k \<noteq> 61) [0..<64]"
    by (simp add: upt_0_numeral upt_1_numeral B64Table_def ReverseB64Table_def code_def)
  from list_all_lt_upt [OF this assms]
  have *: "ReverseB64Table ! code (B64Table ! n) = n" "code (B64Table ! n) < 128"
    "32 < code (B64Table ! n)" "code (B64Table ! n) \<noteq> 61" by (simp_all add: Let_def)
  then show "ReverseB64Table ! code (B64Table ! n) = n" "code (B64Table ! n) < 128"
    "\<not> isspace (B64Table ! n)" by (simp_all add: isspace_iff)
  have "code (CHR ''='') = 61" by (simp add: code_def)
  with * show "B64Table ! n \<noteq> CHR ''=''" by metis
qed

lemma low6: "unat ((x :: u32) AND 0x3F) < 64"
proof -
  have "x AND 0x3F = take_bit 6 x" by (rule word_eq_bits) (simp add: bit_blast)
  then have "unat (x AND 0x3F) = take_bit 6 (unat x)" by (simp add: unsigned_take_bit_eq)
  also have "\<dots> < 2 ^ 6" by (rule take_bit_nat_less_exp)
  finally show ?thesis by simp
qed

lemma FromBase64_sextet:
  fixes x :: u32
  defines "c \<equiv> B64Table ! unat (x AND 0x3F)" and "A' A \<equiv> push_bit 6 A OR (x AND 0x3F)"
  shows "FromBase64_loop A 0 (c # cs) = FromBase64_loop (A' A) 6 cs"
    "FromBase64_loop A 6 (c # cs) =
       map_option ((#) (ucast (drop_bit 4 (A' A) AND 0xFF))) (FromBase64_loop (A' A) 4 cs)"
    "FromBase64_loop A 4 (c # cs) =
       map_option ((#) (ucast (drop_bit 2 (A' A) AND 0xFF))) (FromBase64_loop (A' A) 2 cs)"
    "FromBase64_loop A 2 (c # cs) =
       map_option ((#) (ucast (A' A AND 0xFF))) (FromBase64_loop (A' A) 0 cs)"
  using table_inverse [OF low6 [of x]] low6 [of x]
  by (simp_all add: c_def A'_def Let_def)

lemma FromBase64_padding: "FromBase64_loop A k (replicate n (CHR ''='')) = Some []"
  by (induction n) auto

lemma emits:
  "ToBase64_emit acc 8 = ([B64Table ! unat (drop_bit 2 acc AND 0x3F)], 2)"
  "ToBase64_emit acc 10 = ([B64Table ! unat (drop_bit 4 acc AND 0x3F)], 4)"
  "ToBase64_emit acc 12 = ([B64Table ! unat (drop_bit 6 acc AND 0x3F), B64Table ! unat (acc AND 0x3F)], 0)"
  by (simp_all add: ToBase64_emit.simps [of acc 8] ToBase64_emit.simps [of acc 10]
    ToBase64_emit.simps [of acc 12] ToBase64_emit.simps [of acc 6] ToBase64_emit.simps [of acc 2]
    ToBase64_emit.simps [of acc 4] ToBase64_emit.simps [of acc 0])

lemma triple_bytes:
  fixes a b c :: byte and acc A :: u32
  defines "x \<equiv> push_bit 8 acc OR (ucast a AND 0xFF)"
  defines "y \<equiv> push_bit 8 x OR (ucast b AND 0xFF)"
  defines "z \<equiv> push_bit 8 y OR (ucast c AND 0xFF)"
  defines "A1 \<equiv> push_bit 6 A OR (drop_bit 2 x AND 0x3F)"
  shows "ucast (drop_bit 4 (push_bit 6 A1 OR (drop_bit 4 y AND 0x3F)) AND 0xFF) = a" (is ?a)
  and   "ucast (drop_bit 4 (push_bit 6 A1 OR (push_bit 4 x AND 0x3F)) AND 0xFF) = a" (is ?b)
  and   "ucast (drop_bit 2 (push_bit 6 (push_bit 6 A1 OR (drop_bit 4 y AND 0x3F)) OR (drop_bit 6 z AND 0x3F)) AND 0xFF) = b" (is ?c)
  and   "ucast (drop_bit 2 (push_bit 6 (push_bit 6 A1 OR (drop_bit 4 y AND 0x3F)) OR (push_bit 2 y AND 0x3F)) AND 0xFF) = b" (is ?d)
  and   "ucast ((push_bit 6 (push_bit 6 (push_bit 6 A1 OR (drop_bit 4 y AND 0x3F)) OR (drop_bit 6 z AND 0x3F)) OR
        (z AND 0x3F)) AND 0xFF) = c" (is ?e)
proof -
  note d = A1_def z_def y_def x_def
  show ?a unfolding d by (rule word_eq_bits) (simp add: bit_blast numeral_2_eq_2 [symmetric] numeral_3_eq_3 [symmetric])
  show ?b unfolding d by (rule word_eq_bits) (simp add: bit_blast numeral_2_eq_2 [symmetric] numeral_3_eq_3 [symmetric])
  show ?c unfolding d by (rule word_eq_bits) (simp add: bit_blast numeral_2_eq_2 [symmetric] numeral_3_eq_3 [symmetric])
  show ?d unfolding d by (rule word_eq_bits) (simp add: bit_blast numeral_2_eq_2 [symmetric] numeral_3_eq_3 [symmetric])
  show ?e unfolding d by (rule word_eq_bits) (simp add: bit_blast numeral_2_eq_2 [symmetric] numeral_3_eq_3 [symmetric])
qed

lemma FromBase64_ToBase64_loop:
  "FromBase64_loop A 0 (ToBase64_loop acc 0 bs @ replicate n (CHR ''='')) = Some bs"
proof (induction "length bs" arbitrary: bs acc A rule: less_induct)
  case less
  consider "bs = []" | a where "bs = [a]" | a b where "bs = [a, b]" | a b c r where "bs = a # b # c # r"
    by (metis list.exhaust)
  then show ?case
  proof cases
    case 1
    then show ?thesis by (simp add: FromBase64_padding)
  next
    case 2
    then show ?thesis
      by (simp add: emits FromBase64_sextet FromBase64_padding triple_bytes Let_def
        del: FromBase64_loop.simps push_bit_push_bit drop_bit_drop_bit push_bit_or push_bit_and drop_bit_or drop_bit_and)
  next
    case 3
    then show ?thesis
      by (simp add: emits FromBase64_sextet FromBase64_padding triple_bytes Let_def
        del: FromBase64_loop.simps push_bit_push_bit drop_bit_drop_bit push_bit_or push_bit_and drop_bit_or drop_bit_and)
  next
    case 4
    then show ?thesis using less [of r]
      by (simp add: emits FromBase64_sextet triple_bytes Let_def
        del: FromBase64_loop.simps push_bit_push_bit drop_bit_drop_bit push_bit_or push_bit_and drop_bit_or drop_bit_and)
  qed
qed

lemma length_ToBase64_loop:
  "length (ToBase64_loop acc 0 bs) \<le> (length bs + 2) div 3 * 4"
proof (induction "length bs" arbitrary: bs acc rule: less_induct)
  case less
  consider "bs = []" | a where "bs = [a]" | a b where "bs = [a, b]" | a b c r where "bs = a # b # c # r"
    by (metis list.exhaust)
  then show ?case
  proof cases
    case 4
    then have "(length bs + 2) div 3 = (length r + 2) div 3 + 1" by simp
    then show ?thesis using 4 less [of r] by (simp add: emits Let_def)
  qed (simp_all add: emits Let_def)
qed

section \<open>Walking a circular range\<close>

lemma of_nat_diff_word: "b \<le> a \<Longrightarrow> (of_nat (a - b) :: 'a::len word) = of_nat a - of_nat b"
  by (simp add: of_nat_diff)

lemma unat_of_nat_lt: "n < 2 ^ LENGTH('a) \<Longrightarrow> unat (of_nat n :: 'a::len word) = n"
  by (simp add: unat_of_nat take_bit_nat_eq_self)

lemma AddDistance_right_in_range:
  fixes lo :: "'a::len word"
  assumes S: "S < 2 ^ LENGTH('a)" and a: "a \<le> S" and k: "k \<le> S"
  shows "AddDistance_right (lo + of_nat a) (of_nat k) (lo + of_nat S) lo =
    lo + of_nat (if a + k \<le> S then a + k else a + k - (S + 1))"
proof -
  have d: "lo + of_nat S - (lo + of_nat a) = (of_nat (S - a) :: 'a word)"
    using a by (simp add: of_nat_diff_word)
  have u: "unat (of_nat k :: 'a word) = k" "unat (of_nat (S - a) :: 'a word) = S - a"
    using S k by (simp_all add: unat_of_nat_lt)
  show ?thesis
  proof (cases "a + k \<le> S")
    case True
    then have "\<not> (of_nat k :: 'a word) > of_nat (S - a)" using u a by (simp add: word_less_nat_alt)
    then show ?thesis using True by (subst AddDistance_right.simps) (simp add: d Let_def add.assoc)
  next
    case False
    let ?k = "a + k - (S + 1)"
    have gt: "(of_nat k :: 'a word) > of_nat (S - a)" using u False a by (simp add: word_less_nat_alt)
    have e: "?k = k - (S - a + 1)" "S - a + 1 \<le> k" using a False by auto
    have e2: "of_nat k - (of_nat (S - a) + 1) = (of_nat ?k :: 'a word)"
      unfolding e(1) of_nat_diff_word [OF e(2)] by simp
    have step: "AddDistance_right (lo + of_nat a) (of_nat k) (lo + of_nat S) lo =
        AddDistance_right lo (of_nat ?k) (lo + of_nat S) lo"
      by (subst AddDistance_right.simps) (simp only: d Let_def gt if_True e2)
    have "unat (of_nat ?k :: 'a word) = ?k" "unat (of_nat S :: 'a word) = S"
      using S k a by (simp_all add: unat_of_nat_lt)
    then have "\<not> (of_nat ?k :: 'a word) > of_nat S" using k a by (simp add: word_less_nat_alt)
    then have "AddDistance_right lo (of_nat ?k) (lo + of_nat S) lo = lo + of_nat ?k"
      by (subst AddDistance_right.simps) (simp add: Let_def)
    then show ?thesis using step False by simp
  qed
qed

lemma AddDistance_left_in_range:
  fixes lo :: "'a::len word"
  assumes S: "S < 2 ^ LENGTH('a)" and a: "a \<le> S" and k: "k \<le> S"
  shows "AddDistance_left (lo + of_nat a) (of_nat k) (lo + of_nat S) lo =
    lo + of_nat (if k \<le> a then a - k else a + S + 1 - k)"
proof -
  have u: "unat (of_nat k :: 'a word) = k" "unat (of_nat a :: 'a word) = a"
    using S k a by (simp_all add: unat_of_nat_lt)
  show ?thesis
  proof (cases "k \<le> a")
    case True
    then have "\<not> (of_nat k :: 'a word) > of_nat a" using u by (simp add: word_less_nat_alt)
    then show ?thesis using True by (subst AddDistance_left.simps) (simp add: Let_def of_nat_diff_word)
  next
    case False
    let ?k = "k - (a + 1)"
    have gt: "(of_nat k :: 'a word) > of_nat a" using u False by (simp add: word_less_nat_alt)
    have e: "a + 1 \<le> k" using False by simp
    have "(of_nat ?k :: 'a word) = of_nat k - (of_nat a + 1)"
      unfolding of_nat_diff_word [OF e] by simp
    then have step: "AddDistance_left (lo + of_nat a) (of_nat k) (lo + of_nat S) lo =
        AddDistance_left (lo + of_nat S) (of_nat ?k) (lo + of_nat S) lo"
      using gt by (subst AddDistance_left.simps) (simp add: Let_def)
    have "unat (of_nat ?k :: 'a word) = ?k" "unat (of_nat S :: 'a word) = S"
      using S k by (simp_all add: unat_of_nat_lt)
    then have "\<not> (of_nat ?k :: 'a word) > of_nat S" using k by (simp add: word_less_nat_alt)
    then have "AddDistance_left (lo + of_nat S) (of_nat ?k) (lo + of_nat S) lo = lo + of_nat S - of_nat ?k"
      by (subst AddDistance_left.simps) (simp add: Let_def)
    also have "lo + of_nat S - of_nat ?k = lo + of_nat (S - ?k)"
      using k by (simp add: of_nat_diff_word)
    also have "S - ?k = a + S + 1 - k" using False k by simp
    finally show ?thesis using step False by simp
  qed
qed

lemma AddDistance_in_range:
  fixes lo :: "'a::len word"
  assumes S: "S < 2 ^ (LENGTH('a) - 1)" and a: "a \<le> S" and k: "\<bar>k\<bar> \<le> int S"
  shows "AddDistance (lo + of_nat a) (of_int k) (lo + of_nat S) lo =
    lo + of_nat (nat ((int a + k) mod (int S + 1)))"
proof -
  have S': "S < 2 ^ LENGTH('a)"
    by (rule less_le_trans [OF S]) simp
  have "int S < 2 ^ (LENGTH('a) - 1)" using S by (metis of_nat_less_iff of_nat_numeral of_nat_power)
  then have "- (2 ^ (LENGTH('a) - 1)) \<le> k" "k < 2 ^ (LENGTH('a) - 1)" using k by linarith+
  then have s: "sint (of_int k :: 'a word) = k"
    by (simp add: signed_of_int signed_take_bit_int_eq_self)
  show ?thesis
  proof (cases "k \<ge> 0")
    case True
    then obtain n where n: "k = int n" by (metis nonneg_int_cases)
    have "AddDistance (lo + of_nat a) (of_int k) (lo + of_nat S) lo =
        AddDistance_right (lo + of_nat a) (of_nat n) (lo + of_nat S) lo"
      using True s n by (simp add: AddDistance_def)
    also have "\<dots> = lo + of_nat (if a + n \<le> S then a + n else a + n - (S + 1))"
      using AddDistance_right_in_range [OF S' a, of n lo] k n by simp
    finally have A: "AddDistance (lo + of_nat a) (of_int k) (lo + of_nat S) lo =
        lo + of_nat (if a + n \<le> S then a + n else a + n - (S + 1))" .
    have "int (if a + n \<le> S then a + n else a + n - (S + 1)) = (int a + k) mod (int S + 1)"
    proof (cases "a + n \<le> S")
      case False
      have "(int a + k) mod (int S + 1) = (int a + k - (int S + 1)) mod (int S + 1)"
        by (rule minus_mod_self2 [symmetric])
      also have "\<dots> = int a + k - (int S + 1)"
        using a k n False by (intro mod_pos_pos_trivial) auto
      finally show ?thesis using False n by simp
    qed (simp add: n)
    then show ?thesis using A by (metis nat_int)
  next
    case False
    then obtain n where n: "k = - int n" by (metis minus_minus nonneg_int_cases linear neg_0_le_iff_le)
    have "AddDistance (lo + of_nat a) (of_int k) (lo + of_nat S) lo =
        AddDistance_left (lo + of_nat a) (of_nat n) (lo + of_nat S) lo"
      using False s n by (simp add: AddDistance_def)
    also have "\<dots> = lo + of_nat (if n \<le> a then a - n else a + S + 1 - n)"
      using AddDistance_left_in_range [OF S' a, of n lo] k n by simp
    finally have A: "AddDistance (lo + of_nat a) (of_int k) (lo + of_nat S) lo =
        lo + of_nat (if n \<le> a then a - n else a + S + 1 - n)" .
    have "int (if n \<le> a then a - n else a + S + 1 - n) = (int a + k) mod (int S + 1)"
    proof (cases "n \<le> a")
      case True
      then have "(int a + k) mod (int S + 1) = int a + k"
        using a n by (intro mod_pos_pos_trivial) auto
      then show ?thesis using True n by simp
    next
      case False
      have "(int a + k) mod (int S + 1) = (int a + k + (int S + 1)) mod (int S + 1)"
        by (rule mod_add_self2 [symmetric])
      also have "\<dots> = int a + k + (int S + 1)"
        using a k n False by (intro mod_pos_pos_trivial) auto
      finally show ?thesis using False k n by simp
    qed
    then show ?thesis using A by (metis nat_int)
  qed
qed

lemma Distance_range_step:
  fixes lo :: "'a::len word"
  assumes S: "S < 2 ^ (LENGTH('a) - 1)" and a: "a \<le> S" and b: "b \<le> S"
  shows "\<exists>k. Distance_range (lo + of_nat a) (lo + of_nat b) (lo + of_nat S) lo = of_int k \<and>
    \<bar>k\<bar> \<le> int ((S + 1) div 2) \<and> (int a + k) mod (int S + 1) = int b"
proof -
  let ?e = "int b - int a"
  have S': "S < 2 ^ LENGTH('a)"
    by (rule less_le_trans [OF S]) simp
  have r: "lo + of_nat b - (lo + of_nat a) = (of_int ?e :: 'a word)" by simp
  have "int S < 2 ^ (LENGTH('a) - 1)" using S by (metis of_nat_less_iff of_nat_numeral of_nat_power)
  then have e: "- (2 ^ (LENGTH('a) - 1)) \<le> ?e" "?e < 2 ^ (LENGTH('a) - 1)" using a b by linarith+
  have "sint (of_int i :: 'a word) = i" if "- (2 ^ (LENGTH('a) - 1)) \<le> i" "i < 2 ^ (LENGTH('a) - 1)" for i
    using that by (simp add: signed_of_int signed_take_bit_int_eq_self)
  note s = this [OF e]
  have span: "lo + of_nat S - lo = (of_nat S :: 'a word)" "unat (of_nat S :: 'a word) = S"
    using S' by (simp_all add: unat_of_nat_lt)
  have D: "Distance_range (lo + of_nat a) (lo + of_nat b) (lo + of_nat S) lo =
      (if nat \<bar>?e\<bar> \<le> (S + 1) div 2 then of_int ?e
       else if ?e > 0 then of_int ?e - of_nat S - 1 else of_int ?e + of_nat S + 1)"
    by (simp only: Distance_range_def Let_def r s span)
  have base: "int b mod (int S + 1) = int b" using b by (intro mod_pos_pos_trivial) auto
  consider "nat \<bar>?e\<bar> \<le> (S + 1) div 2" | "\<not> nat \<bar>?e\<bar> \<le> (S + 1) div 2" "?e > 0"
    | "\<not> nat \<bar>?e\<bar> \<le> (S + 1) div 2" "\<not> ?e > 0" by blast
  then show ?thesis
  proof cases
    case 1
    then show ?thesis using D base by (intro exI [of _ ?e]) auto
  next
    case 2
    have "int b - (int S + 1) = int a + (?e - int S - 1)" by simp
    then have "(int a + (?e - int S - 1)) mod (int S + 1) = int b"
      using base minus_mod_self2 [of "int b" "int S + 1"] by metis
    then show ?thesis using D 2 a b by (intro exI [of _ "?e - int S - 1"]) auto
  next
    case 3
    have "int b + (int S + 1) = int a + (?e + int S + 1)" by simp
    then have "(int a + (?e + int S + 1)) mod (int S + 1) = int b"
      using base mod_add_self2 [of "int b" "int S + 1"] by metis
    then show ?thesis using D 3 a b by (intro exI [of _ "?e + int S + 1"]) auto
  qed
qed

section \<open>Dump and generators\<close>

lemma length_Dump_line: "length bs \<le> 16 \<Longrightarrow> length (Dump_line bs) = 67"
proof -
  assume "length bs \<le> 16"
  moreover have "length (concat (List.map (\<lambda>b. [hex_digit (unat (drop_bit 4 b)), hex_digit (unat (b AND 0x0F)), CHR '' '']) bs)) = 3 * length bs"
    by (induction bs) auto
  moreover have "length (concat (replicate n ''   '')) = 3 * n" for n by (induction n) auto
  ultimately show ?thesis by (simp add: Dump_line_def)
qed

lemma UInt8Generators_gcd: "0 < n \<Longrightarrow> n < 256 \<Longrightarrow> gcd (UInt8Generators ! n) n = 1"
proof -
  assume n: "0 < n" "n < 256"
  have "list_all2 (\<lambda>g n. gcd g n = 1) (tl UInt8Generators) [1..<256]"
    by code_simp
  then have "gcd (tl UInt8Generators ! (n - 1)) ([1..<256] ! (n - 1)) = 1"
    using n list_all2_nthD2 [of _ _ "[1..<256]" "n - 1"] by fastforce
  moreover have "[1..<256] ! (n - 1) = n" using n by (simp add: nth_upt)
  moreover have "tl UInt8Generators ! (n - 1) = UInt8Generators ! n"
    using n by (simp add: nth_tl UInt8Generators_def del: upt_Suc)
  ultimately show ?thesis by simp
qed

lemma coprime_permutes:
  fixes g n :: nat
  assumes "coprime g n"
  shows "inj_on (\<lambda>k. k * g mod n) {..<n}"
proof (rule linorder_inj_onI')
  fix j k assume jk: "j \<in> {..<n}" "k \<in> {..<n}" "j < k"
  show "j * g mod n \<noteq> k * g mod n"
  proof
    assume "j * g mod n = k * g mod n"
    then have "n dvd k * g - j * g" using jk(3) mod_eq_dvd_iff_nat [of "j * g" "k * g" n] by simp
    then have "n dvd (k - j) * g" by (simp add: diff_mult_distrib)
    then have "n dvd k - j" using assms by (simp add: coprime_dvd_mult_left_iff coprime_commute)
    then show False using jk by (auto dest: dvd_imp_le)
  qed
qed

lemma shl_zero: "(x :: 'a::len word) XOR push_bit k x = 0 \<Longrightarrow> 0 < k \<Longrightarrow> x = 0"
proof (rule bit_word_eqI)
  fix n assume x: "x XOR push_bit k x = 0" "0 < k"
  have eq: "bit x m \<longleftrightarrow> k \<le> m \<and> m < LENGTH('a) \<and> bit x (m - k)" if "m < LENGTH('a)" for m
    using x(1) that by (metis (no_types) bit_0_eq bit_push_bit_iff bit_xor_iff bot_apply bot_bool_def possible_bit_word)
  show "n < LENGTH('a) \<Longrightarrow> bit x n \<longleftrightarrow> bit 0 n"
  proof (induction n rule: less_induct)
    case (less n)
    then show ?case using eq [of n] x(2) by (cases "k \<le> n") auto
  qed
qed

lemma shr_zero: "(x :: 'a::len word) XOR drop_bit k x = 0 \<Longrightarrow> 0 < k \<Longrightarrow> x = 0"
proof (rule bit_word_eqI)
  fix n assume x: "x XOR drop_bit k x = 0" "0 < k"
  have eq: "bit x m \<longleftrightarrow> bit x (m + k)" for m
    using x(1) by (metis (no_types) add.commute bit_0_eq bit_drop_bit_eq bit_xor_iff bot_apply bot_bool_def comp_apply)
  have "bit x n \<longleftrightarrow> bit x (n + j * k)" for j
    by (induction j) (auto simp: eq [symmetric] add.assoc [symmetric] add.commute [of k])
  from this [of "LENGTH('a)"] show "bit x n \<longleftrightarrow> bit 0 n"
    using x(2) bit_imp_le_length [of x "n + LENGTH('a) * k"] by (cases k) auto
qed

section \<open>Properties\<close>

text \<open>
  Base64 is inverted: \<open>FromBase64\<close> accepts what \<open>ToBase64\<close> writes, padding included, and gives the same
  bytes; the text is a whole number of groups of four, behind the old contents when appending.
\<close>

theorem base64_roundtrip:
  "FromBase64 (ToBase64 data [] False) [] False = (True, data) \<and>
   length (ToBase64 data [] False) = (length data + 2) div 3 * 4 \<and>
   ToBase64 data buffer True = buffer @ ToBase64 data [] False"
  using length_ToBase64_loop [of 0 data]
  by (simp add: FromBase64_def ToBase64_def FromBase64_ToBase64_loop Let_def)

text \<open>
  Walking from a point by the distance to another leads to that other point: on a circular range
  whose span is less than half the type, \<open>AddDistance(pt1, Distance(pt1, pt2, max, min), max, min)\<close> is
  \<open>pt2\<close>, and the distance is the shorter way round.
\<close>

theorem AddDistance_Distance:
  fixes pt1 pt2 hi lo :: "'a::len word"
  assumes "lo \<le> pt1" "pt1 \<le> hi" "lo \<le> pt2" "pt2 \<le> hi" and S: "unat (hi - lo) < 2 ^ (LENGTH('a) - 1)"
  shows "AddDistance pt1 (Distance_range pt1 pt2 hi lo) hi lo = pt2"
proof -
  have le: "lo \<le> hi" using assms by simp
  have u: "unat (hi - lo) = unat hi - unat lo" "unat (pt1 - lo) = unat pt1 - unat lo"
      "unat (pt2 - lo) = unat pt2 - unat lo"
    using assms le by (simp_all add: unat_sub word_le_nat_alt)
  let ?S = "unat (hi - lo)" let ?a = "unat (pt1 - lo)" let ?b = "unat (pt2 - lo)"
  have ab: "?a \<le> ?S" "?b \<le> ?S" using assms u by (auto simp: word_le_nat_alt)
  have e: "lo + of_nat ?S = hi" "lo + of_nat ?a = pt1" "lo + of_nat ?b = pt2" by simp_all
  obtain k where k: "Distance_range pt1 pt2 hi lo = of_int k" "\<bar>k\<bar> \<le> int ((?S + 1) div 2)"
      "(int ?a + k) mod (int ?S + 1) = int ?b"
    using Distance_range_step [OF S ab, of lo] e by auto
  show ?thesis
  proof (cases "?S = 0")
    case True
    then have "hi = lo" "pt1 = lo" "pt2 = lo" using assms u e by auto
    then show ?thesis
      by (simp add: Distance_range_def AddDistance_def AddDistance_right.simps Let_def)
  next
    case False
    then have "\<bar>k\<bar> \<le> int ?S" using k(2) by linarith
    from AddDistance_in_range [OF S ab(1) this, of lo] show ?thesis using k e by simp
  qed
qed

theorem AddDistance_Distance_witness:
  "AddDistance (90 :: byte) (Distance_range 90 10 100 0) 100 0 = 10"
  by (rule AddDistance_Distance) simp_all

text \<open>
  On a range wider than half the type the difference of the two points does not fit the signed
  result, and the distance is wrong: on 0..200 in 8 bits, \<open>Distance\<close> from 190 to 10 is 76 instead of 21.
\<close>

theorem Distance_wide_range:
  "Distance_range (190 :: byte) 10 200 0 = 76 \<and> AddDistance (190 :: byte) 76 200 0 \<noteq> 10 \<and>
   AddDistance (190 :: byte) 21 200 0 = 10"
  by (simp add: Distance_range_def AddDistance_def AddDistance_right.simps Let_def)

text \<open>
  \<open>Dump\<close> writes exactly the 67 characters per line of 16 bytes it reserves, whatever the size.
\<close>

theorem Dump_fills_buffer: "length (Dump data) = (length data + 15) div 16 * 67"
proof (induction data rule: Dump.induct)
  case (1 data)
  show ?case
  proof (cases "data = []")
    case True
    then show ?thesis by (simp add: Dump.simps)
  next
    case False
    then have "length (Dump data) = 67 + (length data - 16 + 15) div 16 * 67"
      using 1 by (subst Dump.simps) (simp add: length_Dump_line)
    moreover have "(length data + 15) div 16 = 1 + (length data - 16 + 15) div 16"
    proof (cases "16 \<le> length data")
      case True
      then have "length data + 15 = (length data - 16 + 15) + 16" by simp
      then show ?thesis by (metis add.commute div_add_self2 zero_neq_numeral)
    next
      case short: False
      then have "(length data + 15) div 16 = 1" using False by (intro div_nat_eqI) (auto simp: Suc_le_eq)
      then show ?thesis using short by simp
    qed
    ultimately show ?thesis by simp
  qed
qed

text \<open>
  Every entry of \<open>UInt8Generators\<close> generates its range: for each size \<open>n\<close> from 1 to 255, stepping by the
  entry visits every residue modulo \<open>n\<close> once.
\<close>

theorem UInt8Generators_permute:
  assumes "0 < n" "n < 256"
  shows "bij_betw (\<lambda>k. k * (UInt8Generators ! n) mod n) {..<n} {..<n}"
proof -
  have "gcd (UInt8Generators ! n) n = 1" using assms by (rule UInt8Generators_gcd)
  then have "coprime (UInt8Generators ! n) n" by (simp add: coprime_iff_gcd_eq_1)
  then have inj: "inj_on (\<lambda>k. k * (UInt8Generators ! n) mod n) {..<n}" by (rule coprime_permutes)
  moreover have "(\<lambda>k. k * (UInt8Generators ! n) mod n) ` {..<n} \<subseteq> {..<n}" using assms by auto
  ultimately show ?thesis by (simp add: bij_betw_def endo_inj_surj)
qed

theorem UInt8Generators_permute_witness:
  "bij_betw (\<lambda>k. k * (UInt8Generators ! 10) mod 10) {..<10} {..<10}"
  using UInt8Generators_permute [of 10] by simp

text \<open>
  The generator never falls into the state of two zeros, from which it would only give zeros.
\<close>

theorem Random_state_nonzero:
  assumes "st \<noteq> (0, 0)"
  shows "snd (Random st) \<noteq> (0, 0)"
proof
  obtain A B where st: "st = (A, B)" by fastforce
  let ?x = "A XOR push_bit 23 A"
  assume "snd (Random st) = (0, 0)"
  note c = this [unfolded Random_def st Let_def prod.case snd_conv prod.inject]
  note B = conjunct1 [OF c] and e = conjunct2 [OF c]
  have "?x XOR drop_bit 17 ?x = 0"
    using e by (simp only: B drop_bit_of_0 xor.right_neutral xor.left_neutral)
  then have "?x = 0" by (rule shr_zero) simp
  then have "A = 0" by (rule shl_zero) simp
  then show False using \<open>B = 0\<close> st assms by simp
qed

theorem Random_state_nonzero_witness: "snd (Random (1, 2)) \<noteq> (0, 0)"
  by (rule Random_state_nonzero) simp

end
