(* ===== verification/Crypto.thy ===== *)
theory Crypto
  imports Binary_Reader
begin

text \<open>
  Mona/Math/Crypto.h, Crypto.cpp: the bit rotations (\<open>Rotate8\<close> to \<open>Rotate64\<close>), the Internet checksum
  and the CRC32 of the code. Hashing and HMAC are calls of OpenSSL and are not modelled.
  The lemmas show that a rotation reverses the bits, that the checksum verifies the data it is appended
  to, and that the table-driven CRC is the division by the polynomial 0x04c11db7 bit by bit, which
  detects any error confined to one byte.
\<close>

section \<open>Rotations\<close>

definition Rotate8 :: "byte \<Rightarrow> byte" where
  "Rotate8 value =
     (let value = (drop_bit 1 value AND 0x55) OR push_bit 1 (value AND 0x55);
          value = (drop_bit 2 value AND 0x33) OR push_bit 2 (value AND 0x33)
      in drop_bit 4 value OR push_bit 4 value)"

definition Rotate16 :: "u16 \<Rightarrow> u16" where
  "Rotate16 value =
     (let value = (drop_bit 1 value AND 0x5555) OR push_bit 1 (value AND 0x5555);
          value = (drop_bit 2 value AND 0x3333) OR push_bit 2 (value AND 0x3333);
          value = (drop_bit 4 value AND 0x0F0F) OR push_bit 4 (value AND 0x0F0F)
      in drop_bit 8 value OR push_bit 8 value)"

definition Rotate24 :: "u32 \<Rightarrow> u32" where
  "Rotate24 value =
     (let value = (drop_bit 1 value AND 0x00555555) OR push_bit 1 (value AND 0x00555555);
          value = (drop_bit 2 value AND 0x00333333) OR push_bit 2 (value AND 0x00333333);
          value = (drop_bit 4 value AND 0x000F0F0F) OR push_bit 4 (value AND 0x000F0F0F)
      in Flip24 value)"

definition Rotate32 :: "u32 \<Rightarrow> u32" where
  "Rotate32 value =
     (let value = (drop_bit 1 value AND 0x55555555) OR push_bit 1 (value AND 0x55555555);
          value = (drop_bit 2 value AND 0x33333333) OR push_bit 2 (value AND 0x33333333);
          value = (drop_bit 4 value AND 0x0F0F0F0F) OR push_bit 4 (value AND 0x0F0F0F0F);
          value = (drop_bit 8 value AND 0x00FF00FF) OR push_bit 8 (value AND 0x00FF00FF)
      in drop_bit 16 value OR push_bit 16 value)"

definition Rotate64 :: "u64 \<Rightarrow> u64" where
  "Rotate64 value =
     (let value = (drop_bit 1 value AND 0x5555555555555555) OR push_bit 1 (value AND 0x5555555555555555);
          value = (drop_bit 2 value AND 0x3333333333333333) OR push_bit 2 (value AND 0x3333333333333333);
          value = (drop_bit 4 value AND 0x0F0F0F0F0F0F0F0F) OR push_bit 4 (value AND 0x0F0F0F0F0F0F0F0F);
          value = (drop_bit 8 value AND 0x00FF00FF00FF00FF) OR push_bit 8 (value AND 0x00FF00FF00FF00FF);
          value = (drop_bit 16 value AND 0x0000FFFF0000FFFF) OR push_bit 16 (value AND 0x0000FFFF0000FFFF)
      in drop_bit 32 value OR push_bit 32 value)"

section \<open>Internet checksum\<close>

function checksum_loop :: "u32 \<Rightarrow> reader \<Rightarrow> u32 \<times> reader" where
  "checksum_loop acc r =
     (if BinaryReader_available r > 0 then
        (if BinaryReader_available r = 1
         then (case BinaryReader_read8 r of (b, r') \<Rightarrow> checksum_loop (acc + ucast b) r')
         else (case BinaryReader_read16 r of (w, r') \<Rightarrow> checksum_loop (acc + ucast w) r'))
      else (acc, r))"
  by pat_completeness auto
termination
  by (relation "measure (\<lambda>(acc, r). BinaryReader_available r)")
     (auto simp: BinaryReader_available_def BinaryReader_read8_def BinaryReader_read16_def BinaryReader_read_def
        Let_def split: if_splits)

declare checksum_loop.simps [simp del]

definition ComputeChecksum :: "reader \<Rightarrow> u16 \<times> reader" where
  "ComputeChecksum r =
     (let pos = BinaryReader_position r;
          (acc, r1) = checksum_loop 0 r;
          r2 = BinaryReader_reset pos r1;
          acc = drop_bit 16 acc + (acc AND 0xffff);
          acc = acc + drop_bit 16 acc
      in (ucast (NOT acc), r2))"

section \<open>CRC32\<close>

definition ROTATE_INPUT :: byte where "ROTATE_INPUT = 1"
definition ROTATE_OUTPUT :: byte where "ROTATE_OUTPUT = 2"

definition CRC32 :: "u32 list" where
  "CRC32 =
    [0x00000000, 0x04c11db7, 0x09823b6e, 0x0d4326d9, 0x130476dc, 0x17c56b6b,
     0x1a864db2, 0x1e475005, 0x2608edb8, 0x22c9f00f, 0x2f8ad6d6, 0x2b4bcb61,
     0x350c9b64, 0x31cd86d3, 0x3c8ea00a, 0x384fbdbd, 0x4c11db70, 0x48d0c6c7,
     0x4593e01e, 0x4152fda9, 0x5f15adac, 0x5bd4b01b, 0x569796c2, 0x52568b75,
     0x6a1936c8, 0x6ed82b7f, 0x639b0da6, 0x675a1011, 0x791d4014, 0x7ddc5da3,
     0x709f7b7a, 0x745e66cd, 0x9823b6e0, 0x9ce2ab57, 0x91a18d8e, 0x95609039,
     0x8b27c03c, 0x8fe6dd8b, 0x82a5fb52, 0x8664e6e5, 0xbe2b5b58, 0xbaea46ef,
     0xb7a96036, 0xb3687d81, 0xad2f2d84, 0xa9ee3033, 0xa4ad16ea, 0xa06c0b5d,
     0xd4326d90, 0xd0f37027, 0xddb056fe, 0xd9714b49, 0xc7361b4c, 0xc3f706fb,
     0xceb42022, 0xca753d95, 0xf23a8028, 0xf6fb9d9f, 0xfbb8bb46, 0xff79a6f1,
     0xe13ef6f4, 0xe5ffeb43, 0xe8bccd9a, 0xec7dd02d, 0x34867077, 0x30476dc0,
     0x3d044b19, 0x39c556ae, 0x278206ab, 0x23431b1c, 0x2e003dc5, 0x2ac12072,
     0x128e9dcf, 0x164f8078, 0x1b0ca6a1, 0x1fcdbb16, 0x018aeb13, 0x054bf6a4,
     0x0808d07d, 0x0cc9cdca, 0x7897ab07, 0x7c56b6b0, 0x71159069, 0x75d48dde,
     0x6b93dddb, 0x6f52c06c, 0x6211e6b5, 0x66d0fb02, 0x5e9f46bf, 0x5a5e5b08,
     0x571d7dd1, 0x53dc6066, 0x4d9b3063, 0x495a2dd4, 0x44190b0d, 0x40d816ba,
     0xaca5c697, 0xa864db20, 0xa527fdf9, 0xa1e6e04e, 0xbfa1b04b, 0xbb60adfc,
     0xb6238b25, 0xb2e29692, 0x8aad2b2f, 0x8e6c3698, 0x832f1041, 0x87ee0df6,
     0x99a95df3, 0x9d684044, 0x902b669d, 0x94ea7b2a, 0xe0b41de7, 0xe4750050,
     0xe9362689, 0xedf73b3e, 0xf3b06b3b, 0xf771768c, 0xfa325055, 0xfef34de2,
     0xc6bcf05f, 0xc27dede8, 0xcf3ecb31, 0xcbffd686, 0xd5b88683, 0xd1799b34,
     0xdc3abded, 0xd8fba05a, 0x690ce0ee, 0x6dcdfd59, 0x608edb80, 0x644fc637,
     0x7a089632, 0x7ec98b85, 0x738aad5c, 0x774bb0eb, 0x4f040d56, 0x4bc510e1,
     0x46863638, 0x42472b8f, 0x5c007b8a, 0x58c1663d, 0x558240e4, 0x51435d53,
     0x251d3b9e, 0x21dc2629, 0x2c9f00f0, 0x285e1d47, 0x36194d42, 0x32d850f5,
     0x3f9b762c, 0x3b5a6b9b, 0x0315d626, 0x07d4cb91, 0x0a97ed48, 0x0e56f0ff,
     0x1011a0fa, 0x14d0bd4d, 0x19939b94, 0x1d528623, 0xf12f560e, 0xf5ee4bb9,
     0xf8ad6d60, 0xfc6c70d7, 0xe22b20d2, 0xe6ea3d65, 0xeba91bbc, 0xef68060b,
     0xd727bbb6, 0xd3e6a601, 0xdea580d8, 0xda649d6f, 0xc423cd6a, 0xc0e2d0dd,
     0xcda1f604, 0xc960ebb3, 0xbd3e8d7e, 0xb9ff90c9, 0xb4bcb610, 0xb07daba7,
     0xae3afba2, 0xaafbe615, 0xa7b8c0cc, 0xa379dd7b, 0x9b3660c6, 0x9ff77d71,
     0x92b45ba8, 0x9675461f, 0x8832161a, 0x8cf30bad, 0x81b02d74, 0x857130c3,
     0x5d8a9099, 0x594b8d2e, 0x5408abf7, 0x50c9b640, 0x4e8ee645, 0x4a4ffbf2,
     0x470cdd2b, 0x43cdc09c, 0x7b827d21, 0x7f436096, 0x7200464f, 0x76c15bf8,
     0x68860bfd, 0x6c47164a, 0x61043093, 0x65c52d24, 0x119b4be9, 0x155a565e,
     0x18197087, 0x1cd86d30, 0x029f3d35, 0x065e2082, 0x0b1d065b, 0x0fdc1bec,
     0x3793a651, 0x3352bbe6, 0x3e119d3f, 0x3ad08088, 0x2497d08d, 0x2056cd3a,
     0x2d15ebe3, 0x29d4f654, 0xc5a92679, 0xc1683bce, 0xcc2b1d17, 0xc8ea00a0,
     0xd6ad50a5, 0xd26c4d12, 0xdf2f6bcb, 0xdbee767c, 0xe3a1cbc1, 0xe760d676,
     0xea23f0af, 0xeee2ed18, 0xf0a5bd1d, 0xf464a0aa, 0xf9278673, 0xfde69bc4,
     0x89b8fd09, 0x8d79e0be, 0x803ac667, 0x84fbdbd0, 0x9abc8bd5, 0x9e7d9662,
     0x933eb0bb, 0x97ffad0c, 0xafb010b1, 0xab710d06, 0xa6322bdf, 0xa2f33668,
     0xbcb4666d, 0xb8757bda, 0xb5365d03, 0xb1f740b4]"

definition CRC32_step :: "byte \<Rightarrow> u32 \<Rightarrow> byte \<Rightarrow> u32" where
  "CRC32_step options crc b =
     (if options AND ROTATE_INPUT \<noteq> 0
      then push_bit 8 crc XOR CRC32 ! unat (drop_bit 24 crc XOR ucast (Rotate8 b))
      else push_bit 8 crc XOR CRC32 ! unat (drop_bit 24 crc XOR ucast b))"

definition ComputeCRC32 :: "byte list \<Rightarrow> byte \<Rightarrow> u32" where
  "ComputeCRC32 data options =
     (let crc = foldl (CRC32_step options) 0xffffffff data
      in if options AND ROTATE_OUTPUT \<noteq> 0 then Rotate32 crc else crc)"

section \<open>What a rotation does\<close>

lemma bit_Rotate8: "n < 8 \<Longrightarrow> bit (Rotate8 v) n = bit v (7 - n)"
  by (rule list_all_lt_upt [of "\<lambda>n. bit (Rotate8 v) n = bit v (7 - n)" 8 n])
     (simp_all add: Rotate8_def Let_def bit_blast numeral_2_eq_2 [symmetric] numeral_3_eq_3 [symmetric] del: push_bit_Suc)

lemma bit_Rotate16: "n < 16 \<Longrightarrow> bit (Rotate16 v) n = bit v (15 - n)"
  by (rule list_all_lt_upt [of "\<lambda>n. bit (Rotate16 v) n = bit v (15 - n)" 16 n])
     (simp_all add: Rotate16_def Let_def bit_blast numeral_2_eq_2 [symmetric] numeral_3_eq_3 [symmetric] del: push_bit_Suc)

lemma bit_Rotate24: "n < 24 \<Longrightarrow> bit (Rotate24 v) n = bit v (23 - n)"
  by (rule list_all_lt_upt [of "\<lambda>n. bit (Rotate24 v) n = bit v (23 - n)" 24 n])
     (simp_all add: Rotate24_def Flip24_def Let_def bit_blast numeral_2_eq_2 [symmetric] numeral_3_eq_3 [symmetric] del: push_bit_Suc)

lemma bit_Rotate32: "n < 32 \<Longrightarrow> bit (Rotate32 v) n = bit v (31 - n)"
  by (rule list_all_lt_upt [of "\<lambda>n. bit (Rotate32 v) n = bit v (31 - n)" 32 n])
     (simp_all add: Rotate32_def Let_def bit_blast numeral_2_eq_2 [symmetric] numeral_3_eq_3 [symmetric] del: push_bit_Suc)

lemma bit_Rotate64: "n < 64 \<Longrightarrow> bit (Rotate64 v) n = bit v (63 - n)"
  by (rule list_all_lt_upt [of "\<lambda>n. bit (Rotate64 v) n = bit v (63 - n)" 64 n])
     (simp_all add: Rotate64_def Let_def bit_blast numeral_2_eq_2 [symmetric] numeral_3_eq_3 [symmetric] del: push_bit_Suc)

section \<open>The CRC bit by bit\<close>

text \<open>One bit of the division by the polynomial: \<open>shift_poly\<close> without input, \<open>crc_bit\<close> with one bit of the message.\<close>

definition shift_poly :: "u32 \<Rightarrow> u32" where
  "shift_poly r = push_bit 1 r XOR (if bit r 31 then 0x04c11db7 else 0)"

definition crc_bit :: "u32 \<Rightarrow> bool \<Rightarrow> u32" where
  "crc_bit r m = push_bit 1 r XOR (if bit r 31 \<noteq> m then 0x04c11db7 else 0)"

definition bits_high_first :: "byte \<Rightarrow> bool list" where
  "bits_high_first b = map (bit b) [7, 6, 5, 4, 3, 2, 1, 0]"

definition bits_low_first :: "byte \<Rightarrow> bool list" where
  "bits_low_first b = map (bit b) [0, 1, 2, 3, 4, 5, 6, 7]"

definition crc_reference :: "bool list \<Rightarrow> u32" where
  "crc_reference bits = foldl crc_bit 0xffffffff bits"

lemma shift_poly_xor: "shift_poly (a XOR b) = shift_poly a XOR shift_poly b"
proof -
  have "push_bit 1 (a XOR b) = push_bit 1 a XOR push_bit 1 b" by (simp add: push_bit_xor)
  then show ?thesis
    by (cases "bit a 31"; cases "bit b 31") (simp_all add: shift_poly_def bit_xor_iff ac_simps del: push_bit_Suc)
qed

definition top_bit1 :: u32 where
  "top_bit1 = push_bit 31 1"

lemma bit_top_bit1 [simp]: "bit top_bit1 n \<longleftrightarrow> n = 31"
  by (auto simp only: top_bit1_def bit_push_bit_iff bit_1_iff) auto

lemma push_top_bit1: "push_bit 1 top_bit1 = 0"
  by (rule bit_word_eqI) (auto simp: bit_push_bit_iff simp del: push_bit_Suc)

lemma shift_poly_top: "shift_poly top_bit1 = 0x04c11db7"
  using push_top_bit1 by (simp add: shift_poly_def del: push_bit_Suc)

lemma shift_poly_0 [simp]: "shift_poly 0 = 0"
  by (simp add: shift_poly_def)

lemma crc_bit_shift: "crc_bit r m = shift_poly (r XOR (if m then top_bit1 else 0))"
proof (cases m)
  case True
  then have "crc_bit r m = shift_poly r XOR 0x04c11db7"
    by (cases "bit r 31") (simp_all add: crc_bit_def shift_poly_def ac_simps del: push_bit_Suc)
  then show ?thesis using True by (simp add: shift_poly_xor shift_poly_top)
qed (simp add: crc_bit_def shift_poly_def)

lemma shift_poly_low: "\<not> bit r 31 \<Longrightarrow> shift_poly r = push_bit 1 r"
  by (simp add: shift_poly_def)

text \<open>The message bits as a register, the first bit at the top.\<close>

fun top_bits :: "bool list \<Rightarrow> u32" where
  "top_bits [] = 0"
| "top_bits (m # ms) = (if m then top_bit1 else 0) XOR drop_bit 1 (top_bits ms)"

lemma bit_top_bits: "bit (top_bits ms) n \<longleftrightarrow> n < 32 \<and> 31 - n < length ms \<and> ms ! (31 - n)"
proof (induction ms arbitrary: n)
  case (Cons m ms)
  consider "n < 31" | "n = 31" | "31 < n" by linarith
  then show ?case
  proof cases
    case 1
    then have "31 - n = Suc (31 - Suc n)" by simp
    then show ?thesis using 1 by (simp add: Cons.IH bit_xor_iff bit_drop_bit_eq)
  next
    case 3
    then show ?thesis by (simp add: Cons.IH bit_xor_iff bit_drop_bit_eq)
  qed (simp add: Cons.IH bit_xor_iff bit_drop_bit_eq)
qed simp

lemma push_drop_1:
  fixes w :: "'a::len word"
  assumes "\<not> bit w 0"
  shows "push_bit 1 (drop_bit 1 w) = w"
proof (rule bit_word_eqI)
  fix n assume "n < LENGTH('a)"
  then show "bit (push_bit 1 (drop_bit 1 w)) n = bit w n"
    using assms by (cases n) (simp_all add: bit_push_bit_iff bit_drop_bit_eq del: push_bit_Suc)
qed

lemma crc_bits_shift:
  "length ms \<le> 32 \<Longrightarrow> foldl crc_bit r ms = (shift_poly ^^ length ms) (r XOR top_bits ms)"
proof (induction ms arbitrary: r)
  case (Cons m ms)
  have "\<not> bit (top_bits ms) 0" using Cons.prems by (simp add: bit_top_bits)
  then have "push_bit 1 (drop_bit 1 (top_bits ms)) = top_bits ms" by (rule push_drop_1)
  moreover have "\<not> bit (drop_bit 1 (top_bits ms)) 31" by (simp add: bit_drop_bit_eq bit_top_bits)
  ultimately have s: "shift_poly (drop_bit 1 (top_bits ms)) = top_bits ms" by (metis shift_poly_low)
  have "foldl crc_bit r (m # ms) = (shift_poly ^^ length ms) (crc_bit r m XOR top_bits ms)"
    using Cons by simp
  also have "crc_bit r m XOR top_bits ms =
      shift_poly ((r XOR (if m then top_bit1 else 0)) XOR drop_bit 1 (top_bits ms))"
    by (simp only: shift_poly_xor s crc_bit_shift)
  also have "(shift_poly ^^ length ms) \<dots> = (shift_poly ^^ length (m # ms)) (r XOR top_bits (m # ms))"
    by (simp add: funpow_swap1 ac_simps)
  finally show ?case .
qed simp

lemma shift_polys_xor: "(shift_poly ^^ n) (a XOR b) = (shift_poly ^^ n) a XOR (shift_poly ^^ n) b"
  by (induction n arbitrary: a b) (simp_all add: shift_poly_xor)

lemma shift_polys_low:
  "n + k \<le> 32 \<Longrightarrow> (shift_poly ^^ n) (take_bit k r) = push_bit n (take_bit k r)"
proof (induction n)
  case (Suc n)
  then have "\<not> bit (push_bit n (take_bit k r)) 31" by (auto simp: bit_push_bit_iff bit_take_bit_iff)
  then have "shift_poly (push_bit n (take_bit k r)) = push_bit 1 (push_bit n (take_bit k r))"
    by (rule shift_poly_low)
  also have "\<dots> = push_bit (Suc n) (take_bit k r)" by (simp only: push_bit_push_bit) simp
  finally show ?case using Suc by simp
qed simp

text \<open>The table by doubling: entry \<open>2 * i\<close> is a step on entry \<open>i\<close>, and \<open>2 * i + 1\<close> adds the polynomial.\<close>

fun doubles :: "u32 list \<Rightarrow> u32 list \<Rightarrow> bool" where
  "doubles (a # as) (e # f # rest) \<longleftrightarrow> e = shift_poly a \<and> f = e XOR 0x04c11db7 \<and> doubles as rest"
| "doubles [] rest \<longleftrightarrow> rest = []"
| "doubles _ _ \<longleftrightarrow> False"

lemma CRC32_doubles: "doubles (take 128 CRC32) CRC32"
  by code_simp

lemma doubles_nth:
  "doubles as bs \<Longrightarrow> i < length as \<Longrightarrow>
     bs ! (2 * i) = shift_poly (as ! i) \<and> bs ! Suc (2 * i) = shift_poly (as ! i) XOR 0x04c11db7"
proof (induction as bs arbitrary: i rule: doubles.induct)
  case (1 a as e f rest)
  then show ?case by (cases i) auto
qed auto

lemma length_CRC32 [simp]: "length CRC32 = 256"
  by (simp add: CRC32_def)

lemma shift_polys_1: "(shift_poly ^^ 8) (push_bit 24 1) = 0x04c11db7"
proof -
  have "push_bit 7 (push_bit 24 1) = top_bit1" by (simp only: push_bit_push_bit top_bit1_def) simp
  moreover have "take_bit 25 (push_bit 24 1) = (push_bit 24 1 :: u32)"
    by (rule bit_word_eqI) (auto simp only: bit_take_bit_iff bit_push_bit_iff bit_1_iff)
  ultimately have "(shift_poly ^^ 7) (push_bit 24 1) = top_bit1" using shift_polys_low [of 7 25 "push_bit 24 1"] by simp
  moreover have "(shift_poly ^^ 8) (push_bit 24 1) = shift_poly ((shift_poly ^^ 7) (push_bit 24 1))"
    by (simp add: numeral_eq_Suc)
  ultimately show ?thesis using shift_poly_top by simp
qed

lemma CRC32_nth: "i < 256 \<Longrightarrow> CRC32 ! i = (shift_poly ^^ 8) (push_bit 24 (of_nat i))"
proof (induction i rule: less_induct)
  case (less i)
  define j where "j = i div 2"
  show ?case
  proof (cases "i = 0")
    case True
    have "(shift_poly ^^ 8) 0 = 0" by (simp add: numeral_eq_Suc)
    then show ?thesis using True by (simp add: CRC32_def)
  next
    case False
    then have j: "j < 128" "j < i" using less.prems by (auto simp: j_def)
    have low: "\<not> bit (of_nat j :: u32) n" if "7 \<le> n" for n
    proof -
      have "(2 :: nat) ^ 7 \<le> 2 ^ n" using that by (rule power_increasing) simp
      then have "j < 2 ^ n" using j by simp
      then have "\<not> bit j n" by (simp add: bit_iff_odd)
      then show ?thesis unfolding bit_of_nat_iff by simp
    qed
    have "shift_poly (CRC32 ! j) = (shift_poly ^^ 8) (shift_poly (push_bit 24 (of_nat j)))"
      using less.IH [of j] j by (simp add: funpow_swap1)
    also have "shift_poly (push_bit 24 (of_nat j)) = push_bit 1 (push_bit 24 (of_nat j))"
      using low [of 7] by (intro shift_poly_low) (simp add: bit_push_bit_iff)
    also have "\<dots> = push_bit 24 (of_nat (2 * j))"
      by (simp only: push_bit_push_bit push_bit_eq_mult) (simp add: ac_simps)
    finally have e: "shift_poly (CRC32 ! j) = (shift_poly ^^ 8) (push_bit 24 (of_nat (2 * j)))" .
    have d: "CRC32 ! (2 * j) = shift_poly (CRC32 ! j)"
        "CRC32 ! Suc (2 * j) = shift_poly (CRC32 ! j) XOR 0x04c11db7"
      using doubles_nth [OF CRC32_doubles, of j] j by simp_all
    have "of_nat (Suc (2 * j)) = of_nat (2 * j) XOR (1 :: u32)"
      by (simp add: xor_one_eq)
    then have "(shift_poly ^^ 8) (push_bit 24 (of_nat (Suc (2 * j)))) = CRC32 ! Suc (2 * j)"
      using d e by (simp only: push_bit_xor shift_polys_xor shift_polys_1)
    moreover have "i = 2 * j \<or> i = Suc (2 * j)" by (auto simp: j_def)
    ultimately show ?thesis using d e by metis
  qed
qed

lemma power2_eq_256: "(2 :: nat) ^ 8 = 256"
  by simp

lemma CRC32_byte:
  "push_bit 8 crc XOR CRC32 ! unat (drop_bit 24 crc XOR ucast (b :: byte)) =
     (shift_poly ^^ 8) (crc XOR push_bit 24 (ucast b))"
proof -
  let ?h = "drop_bit 24 crc XOR ucast b :: u32"
  have "?h = take_bit 8 ?h"
    by (rule bit_word_eqI) (auto simp: bit_take_bit_iff bit_xor_iff bit_drop_bit_eq bit_ucast_iff dest: bit_imp_le_length)
  then have "unat ?h < 256" by (metis take_bit_nat_less_exp unsigned_take_bit_eq power2_eq_256)
  then have t: "CRC32 ! unat ?h = (shift_poly ^^ 8) (push_bit 24 ?h)" by (simp add: CRC32_nth)
  have "push_bit 8 crc = push_bit 8 (take_bit 24 crc)"
    by (rule bit_word_eqI) (auto simp: bit_push_bit_iff bit_take_bit_iff)
  then have "push_bit 8 crc = (shift_poly ^^ 8) (take_bit 24 crc)" using shift_polys_low [of 8 24 crc] by simp
  moreover have "crc XOR push_bit 24 (ucast b) = take_bit 24 crc XOR push_bit 24 ?h"
  proof (rule bit_word_eqI)
    fix n assume "n < LENGTH(32)"
    then have "n < 24 \<or> 24 + (n - 24) = n \<and> n < 32" by auto
    then show "bit (crc XOR push_bit 24 (ucast b)) n = bit (take_bit 24 crc XOR push_bit 24 ?h) n"
      by (elim disjE conjE) (simp_all add: bit_push_bit_iff bit_take_bit_iff bit_xor_iff bit_drop_bit_eq)
  qed
  ultimately show ?thesis by (simp only: t shift_polys_xor)
qed

lemma top_bits_high_first: "top_bits (bits_high_first b) = push_bit 24 (ucast b)"
  by (rule word_eq_bits) (simp add: bit_blast bit_top_bits bits_high_first_def)

lemma bits_Rotate8: "bits_high_first (Rotate8 b) = bits_low_first b"
  by (simp add: bits_high_first_def bits_low_first_def bit_Rotate8)

text \<open>The bits of a byte in the order the options ask for.\<close>

definition input_bits :: "byte \<Rightarrow> byte \<Rightarrow> bool list" where
  "input_bits options = (if options AND ROTATE_INPUT \<noteq> 0 then bits_low_first else bits_high_first)"

lemma length_input_bits [simp]: "length (input_bits options b) = 8"
  by (simp add: input_bits_def bits_low_first_def bits_high_first_def)

lemma CRC32_step_bits: "CRC32_step options crc b = foldl crc_bit crc (input_bits options b)"
proof -
  have l: "length (bits_high_first b) = 8" for b by (simp add: bits_high_first_def)
  have h: "foldl crc_bit crc (bits_high_first b) = (shift_poly ^^ 8) (crc XOR push_bit 24 (ucast b))" for b
    using crc_bits_shift [of "bits_high_first b" crc] l [of b] by (simp only: top_bits_high_first)
  show ?thesis
    by (simp add: CRC32_step_def input_bits_def CRC32_byte h flip: bits_Rotate8)
qed

lemma CRC32_steps_bits:
  "foldl (CRC32_step options) crc data = foldl crc_bit crc (concat (map (input_bits options) data))"
  by (induction data arbitrary: crc) (simp_all add: CRC32_step_bits)

lemma shift_poly_inj: "shift_poly x = shift_poly y \<Longrightarrow> x = y"
proof -
  assume "shift_poly x = shift_poly y"
  then have z: "shift_poly (x XOR y) = 0" by (simp add: shift_poly_xor)
  have "bit (shift_poly r) 0 = bit r 31" for r
    by (simp only: shift_poly_def bit_xor_iff bit_push_bit_iff) (cases "bit r 31"; simp)
  then have top: "\<not> bit (x XOR y) 31" using z by (metis bit_0_eq bot_apply bot_bool_def)
  then have p: "push_bit 1 (x XOR y) = 0" using z by (metis shift_poly_low)
  have "x XOR y = 0"
  proof (rule bit_word_eqI)
    fix n assume n: "n < LENGTH(32)"
    have "bit (push_bit 1 (x XOR y)) (Suc n) = bit (x XOR y) n" if "n < 31"
      using that by (simp only: bit_push_bit_iff) simp
    then show "bit (x XOR y) n = bit 0 n" using p top n by (cases "n = 31") auto
  qed
  then show ?thesis by (metis xor.assoc xor.left_neutral xor_self_eq)
qed

lemma shift_polys_inj: "(shift_poly ^^ n) x = (shift_poly ^^ n) y \<Longrightarrow> x = y"
  by (induction n arbitrary: x y) (auto dest!: shift_poly_inj)

lemma xor_left_cancel: "(a :: u32) XOR x = a XOR y \<longleftrightarrow> x = y"
  by (metis xor.assoc xor.left_neutral xor_self_eq)

lemma crc_bit_inj: "crc_bit x m = crc_bit y m \<Longrightarrow> x = y"
  by (metis crc_bit_shift shift_poly_inj xor.commute xor_left_cancel)

lemma crc_bits_inj: "foldl crc_bit x ms = foldl crc_bit y ms \<Longrightarrow> x = y"
  by (induction ms arbitrary: x y) (auto dest: crc_bit_inj)

lemma top_bits_inj:
  assumes "top_bits xs = top_bits ys" "length xs = length ys" "length xs \<le> 32"
  shows "xs = ys"
proof (rule nth_equalityI)
  fix i assume i: "i < length xs"
  define k where "k = 31 - i"
  have k: "31 - k = i" "k < 32" using i assms by (auto simp: k_def)
  have "bit (top_bits xs) k = bit (top_bits ys) k" using assms by simp
  then show "xs ! i = ys ! i" using i assms(2,3) by (simp add: bit_top_bits k)
qed (rule assms)

lemma input_bits_inj: "input_bits options a = input_bits options b \<Longrightarrow> a = b"
  by (rule word_eq_bits) (auto simp: bit_blast input_bits_def bits_low_first_def bits_high_first_def split: if_splits)

lemma input_bytes_inj:
  "length xs = length ys \<Longrightarrow> concat (map (input_bits options) xs) = concat (map (input_bits options) ys) \<Longrightarrow> xs = ys"
  by (induction xs ys rule: list_induct2) (auto dest: input_bits_inj)

lemma length_input_bytes [simp]: "length (concat (map (input_bits options) xs)) = 8 * length xs"
  by (induction xs) auto

lemma Rotate32_inj: "Rotate32 a = Rotate32 b \<Longrightarrow> a = b"
proof (rule bit_word_eqI)
  fix n assume e: "Rotate32 a = Rotate32 b" and "n < LENGTH(32)"
  then have n: "n < 32" by simp
  have "31 - n < 32" "31 - (31 - n) = n" using n by auto
  then show "bit a n = bit b n" using bit_Rotate32 [of "31 - n" a] bit_Rotate32 [of "31 - n" b] e by simp
qed

section \<open>The checksum as a sum\<close>

text \<open>The sum of the 16-bit numbers of a block of bytes, in network order or not; a last odd byte counts as a number.\<close>

fun sum16 :: "bool \<Rightarrow> byte list \<Rightarrow> nat" where
  "sum16 network (a # b # bs) =
     (if network then unat a * 256 + unat b else unat a + 256 * unat b) + sum16 network bs"
| "sum16 network [b] = unat b"
| "sum16 network [] = 0"

text \<open>The sum with the carries added back: the one's complement sum.\<close>

definition fold16 :: "nat \<Rightarrow> nat" where
  "fold16 s = (if s = 0 then 0 else (s - 1) mod 65535 + 1)"

lemma byte_bits: "8 \<le> n \<Longrightarrow> \<not> bit (b :: byte) n"
  using bit_imp_le_length [of b n] by auto

lemma unat_of_le_2: "unat (of_le [a, b] :: u16) = unat a + 256 * unat b"
proof -
  have t: "take_bit 16 (unat c) = unat c" for c :: byte
    by (rule take_bit_nat_eq_self) (rule less_le_trans [OF unsigned_less], simp)
  have u: "unat (ucast c :: u16) = unat c" for c :: byte by (simp add: unsigned_ucast_eq t)
  have "unat (of_le [a, b] :: u16) = unat a OR take_bit 16 (push_bit 8 (unat b))"
    by (simp add: unsigned_or_eq unsigned_push_bit_eq u)
  also have "take_bit 16 (push_bit 8 (unat b)) = push_bit 8 (unat b)"
    using unsigned_less [of b] by (intro take_bit_nat_eq_self) (simp add: push_bit_eq_mult)
  also have "unat a AND push_bit 8 (unat b) = 0"
    by (rule bit_eqI) (auto simp: bit_push_bit_iff bit_unsigned_iff bit_and_iff byte_bits)
  then have "unat a OR push_bit 8 (unat b) = unat a + push_bit 8 (unat b)"
    by (rule disjunctive_add_eq_or [symmetric])
  finally show ?thesis by (simp add: push_bit_eq_mult)
qed

lemma Flip16_of_le: "Flip16 (of_le [a, b]) = of_le [b, a]"
  by (rule word_eq_bits) (simp add: bit_blast Flip16_def byte_bits)

lemma checksum_word:
  "unat ((if network then Flip16 else id) (of_le [a, b])) =
    (if network then unat a * 256 + unat b else unat a + 256 * unat b)"
  by (simp only: Flip16_of_le unat_of_le_2 id_apply split: if_split) simp

lemma ucast_u16_of_nat: "ucast w = (of_nat (unat (w :: u16)) :: u32)"
  by simp

lemma checksum_loop_sum:
  assumes "reader_inv r"
  shows "checksum_loop acc r =
    (acc + of_nat (sum16 (rflip r) (remaining r)), r\<lparr>rcur := rend r\<rparr>)"
  using assms
proof (induction acc r rule: checksum_loop.induct)
  case (1 acc r)
  note inv = 1(3)
  note len = length_remaining [OF inv]
  consider (nil) "remaining r = []" | (one) b where "remaining r = [b]"
    | (two) a b rest where "remaining r = [a, b] @ rest"
    by (cases "remaining r" rule: remdups_adj.cases) auto
  then show ?case
  proof cases
    case nil
    then have "rcur r = rend r" using remaining_Nil [OF inv] by simp
    then show ?thesis using nil len by (simp add: checksum_loop.simps)
  next
    case one
    then have "ready r (b # [])" using inv by (simp add: ready_def)
    from ready_Cons [OF this] have b: "rcur r < rend r" "rdata r ! rcur r = b" 
      "ready (r\<lparr>rcur := rcur r + 1\<rparr>) []" by auto
    have a: "BinaryReader_available r = 1" using one len by simp
    have r8: "BinaryReader_read8 r = (b, r\<lparr>rcur := rcur r + 1\<rparr>)" using b by (simp add: BinaryReader_read8_def)
    have e: "rend r = rcur r + 1" using a by (simp add: BinaryReader_available_def)
    show ?thesis using a
      by (subst checksum_loop.simps) (simp add: r8 one e checksum_loop.simps BinaryReader_available_def)
  next
    case two
    then have "ready r ([a, b] @ rest)" using inv by (simp add: ready_def)
    from ready_read [OF this, of "le_bytes 2 (0 :: u16)"]
    have rd: "BinaryReader_read 2 (le_bytes 2 (0 :: u16)) r = ([a, b], r\<lparr>rcur := rcur r + 2\<rparr>)"
      and rest: "ready (r\<lparr>rcur := rcur r + 2\<rparr>) rest" by (auto simp: numeral_2_eq_2)
    let ?r = "r\<lparr>rcur := rcur r + 2\<rparr>"
    have a: "BinaryReader_available r > 1" using two len by simp
    let ?w = "if rflip r then Flip16 (of_le [a, b]) else of_le [a, b]"
    have r16: "BinaryReader_read16 r = (?w, ?r)"
      by (simp only: BinaryReader_read16_def rd prod.case) simp
    have "checksum_loop acc r = checksum_loop (acc + ucast ?w) ?r"
      using a by (subst checksum_loop.simps) (simp add: r16)
    also have "\<dots> = (acc + ucast ?w + of_nat (sum16 (rflip r) rest), r\<lparr>rcur := rend r\<rparr>)"
      using 1(2) [of ?w ?r] rest a r16 by (simp add: ready_def)
    also have "ucast ?w = (of_nat (unat ?w) :: u32)" by (rule ucast_u16_of_nat)
    also have "unat ?w = (if rflip r then unat a * 256 + unat b else unat a + 256 * unat b)"
      using checksum_word [of "rflip r" a b] by (cases "rflip r") simp_all
    finally show ?thesis by (simp only: two append_Cons append_Nil sum16.simps of_nat_add add.assoc)
  qed
qed

lemma fold16_carry:
  assumes "y = s div 65536 + s mod 65536" "s < 2 ^ 32"
  shows "(y + y div 65536) mod 65536 = fold16 s"
proof -
  have s: "s = 65535 * (s div 65536) + y" using assms(1) by simp
  have y: "y \<le> 131070" using assms by (simp add: less_mult_imp_div_less)
  consider "y = 0" | "0 < y" "y < 65536" | "65536 \<le> y" by linarith
  then show ?thesis
  proof cases
    case 1
    then have "s = 0" using s assms(1) by simp
    then show ?thesis using 1 by (simp add: fold16_def)
  next
    case 2
    then have "s - 1 = y - 1 + s div 65536 * 65535" using s by simp
    then have "(s - 1) mod 65535 = (y - 1) mod 65535" by (simp only: mod_mult_self1)
    moreover have "0 < s" using 2 s by simp
    ultimately show ?thesis using 2 by (simp add: fold16_def)
  next
    case 3
    then have "(s - 1) mod 65535 = (65535 * (s div 65536 + 1) + (y - 65536)) mod 65535" using s by simp
    also have "\<dots> = y - 65536" using y by (simp only: mod_mult_self4) (simp)
    finally have "fold16 s = y - 65535" using 3 s by (auto simp: fold16_def)
    moreover have "y div 65536 = 1" using 3 y by (intro div_nat_eqI) auto
    moreover have "(y + 1) mod 65536 = y + 1 - 65536" using 3 y by (simp add: le_mod_geq)
    ultimately show ?thesis using 3 by simp
  qed
qed

lemma not_u16: "unat (NOT w :: u16) = 65535 - unat w"
proof -
  have "w \<le> - 1" by simp
  then have "unat (- 1 - w) = unat (- 1 :: u16) - unat w" by (rule unat_sub)
  moreover have "NOT w = - 1 - w" by (simp add: not_eq_complement)
  moreover have "unat (- 1 :: u16) = 65535" by (simp add: unsigned_minus_1_eq_mask mask_eq_exp_minus_1)
  ultimately show ?thesis by simp
qed

lemma fold16_word:
  fixes x :: u32
  defines "y \<equiv> drop_bit 16 x + (x AND 0xffff)"
  shows "unat (ucast (NOT (y + drop_bit 16 y)) :: u16) = 65535 - fold16 (unat x)"
proof -
  have a: "unat (drop_bit 16 w) = unat w div 65536" for w :: u32
  proof -
    have "take_bit 32 (unat w) = unat w" using unsigned_less [of w] by (intro take_bit_nat_eq_self) simp
    then show ?thesis by (simp only: unsigned_drop_bit_eq) (simp add: drop_bit_eq_div)
  qed
  have m: "x AND 0xffff = take_bit 16 x" by (rule word_eq_bits) (simp add: bit_blast)
  have b: "unat (x AND 0xffff) = unat x mod 65536" by (simp only: m unsigned_take_bit_eq) (simp add: take_bit_eq_mod)
  have x: "unat x < 2 ^ 32" using unsigned_less [of x] by simp
  have q: "unat x div 65536 < 65536" using x by (simp add: less_mult_imp_div_less)
  have r: "unat x mod 65536 < 65536" by simp
  with q have "unat x div 65536 + unat x mod 65536 < 131072" by linarith
  then have "unat x div 65536 + unat x mod 65536 < 2 ^ 32" by simp
  then have y: "unat y = unat x div 65536 + unat x mod 65536"
    by (simp add: y_def unat_word_ariths a b)
  then have "unat y \<le> 131070" using q r by linarith
  then have "unat y + unat y div 65536 < 262142" using div_le_dividend [of "unat y" 65536] by linarith
  then have "unat y + unat y div 65536 < 2 ^ 32" by simp
  then have z: "unat (y + drop_bit 16 y) = unat y + unat y div 65536"
    by (simp add: unat_word_ariths a)
  have "ucast (NOT (y + drop_bit 16 y)) = NOT (ucast (y + drop_bit 16 y) :: u16)"
    by (rule word_eq_bits) (simp add: bit_blast)
  also have "unat \<dots> = 65535 - unat (ucast (y + drop_bit 16 y) :: u16)"
    by (rule not_u16)
  also have "unat (ucast (y + drop_bit 16 y) :: u16) = (unat y + unat y div 65536) mod 65536"
    using z by (simp add: unsigned_ucast_eq take_bit_eq_mod)
  also have "\<dots> = fold16 (unat x)" using x by (intro fold16_carry y)
  finally show ?thesis .
qed

lemma ComputeChecksum_value:
  assumes "reader_inv r" "rcur r \<le> rsize r" "sum16 (rflip r) (remaining r) < 2 ^ 32"
  shows "unat (fst (ComputeChecksum r)) = 65535 - fold16 (sum16 (rflip r) (remaining r))
    \<and> snd (ComputeChecksum r) = r"
proof -
  have u: "unat (of_nat (sum16 (rflip r) (remaining r)) :: u32) = sum16 (rflip r) (remaining r)"
    using assms(3) by (simp add: unat_of_nat)
  show ?thesis
    using fold16_word [of "of_nat (sum16 (rflip r) (remaining r))"] assms(1,2)
    by (simp add: ComputeChecksum_def checksum_loop_sum u BinaryReader_reset_def BinaryReader_position_def Let_def)
qed

lemma sum16_append: "even (length a) \<Longrightarrow> sum16 n (a @ b) = sum16 n a + sum16 n b"
  by (induction n a rule: sum16.induct) auto

lemma unat_byte: "unat (a :: byte) \<le> 255"
proof -
  have "unat a < 2 ^ LENGTH(8)" by (rule unsigned_less)
  then show ?thesis by simp
qed

lemma sum16_bound: "sum16 n a \<le> 65535 * ((length a + 1) div 2)"
proof (induction n a rule: sum16.induct)
  case (1 n a b bs)
  then show ?case using unat_byte [of a] unat_byte [of b] by auto
next
  case (2 n b)
  then show ?case using unat_byte [of b] by simp
qed simp

lemma sum16_word: "sum16 network (le_bytes 2 (if network then Flip16 w else w)) = unat w"
proof -
  have w: "le_bytes 2 w = [ucast w, ucast (drop_bit 8 w)]" by simp
  have "of_le (le_bytes 2 w) = w" by (rule of_le_bytes_full) simp
  then have "unat w = unat (of_le (le_bytes 2 w) :: u16)" by simp
  then have u: "unat w = unat (ucast w :: byte) + 256 * unat (ucast (drop_bit 8 w) :: byte)"
    by (simp only: w unat_of_le_2)
  show ?thesis
    by (cases network) (simp_all only: if_True if_False le_bytes_Flip16 w rev.simps append.simps sum16.simps u)
qed

lemma fold16_complement:
  "fold16 (s + (65535 - fold16 s)) = 65535"
proof (cases "s = 0")
  case False
  define k where "k = (s - 1) div 65535"
  have "s - 1 = k * 65535 + (s - 1) mod 65535" by (simp add: k_def)
  then have s: "s = k * 65535 + fold16 s" "fold16 s \<le> 65535" using False
    by (auto simp: fold16_def Suc_le_eq)
  then have "s + (65535 - fold16 s) - 1 = 65534 + k * 65535" by linarith
  then have "(s + (65535 - fold16 s) - 1) mod 65535 = 65534" by (simp only: mod_mult_self1) simp
  then show ?thesis using False by (simp add: fold16_def)
qed (simp add: fold16_def)

section \<open>Properties\<close>

text \<open>
  The rotations reverse the order of the bits of their type (of the low 24 bits for \<open>Rotate24\<close>).
\<close>

theorem Rotate_reverses_bits:
  "map (bit (Rotate8 a)) [0..<8] = rev (map (bit a) [0..<8]) \<and>
   map (bit (Rotate16 b)) [0..<16] = rev (map (bit b) [0..<16]) \<and>
   map (bit (Rotate24 c)) [0..<24] = rev (map (bit c) [0..<24]) \<and>
   map (bit (Rotate32 d)) [0..<32] = rev (map (bit d) [0..<32]) \<and>
   map (bit (Rotate64 e)) [0..<64] = rev (map (bit e) [0..<64])"
  by (intro conjI nth_equalityI)
     (simp_all add: rev_nth bit_Rotate8 bit_Rotate16 bit_Rotate24 bit_Rotate32 bit_Rotate64)

text \<open>
  Data followed by its Internet checksum verifies: for a block of even length below 64 kB read in
  either byte order, the checksum of the block with its checksum written after it, in the same order,
  is 0, and the reader is left where it was.
\<close>

theorem checksum_verifies:
  assumes "even (length d)" "length d < 2 ^ 16"
    and "c = fst (ComputeChecksum (BinaryReader d (length d) byteOrder))"
    and "d' = d @ le_bytes 2 (if byteOrder = ORDER_NATIVE then c else Flip16 c)"
  shows "ComputeChecksum (BinaryReader d' (length d') byteOrder) = (0, BinaryReader d' (length d') byteOrder)"
proof -
  let ?n = "byteOrder \<noteq> ORDER_NATIVE"
  let ?s = "sum16 ?n d"
  have new: "reader_inv (BinaryReader e (length e) byteOrder)" "rflip (BinaryReader e (length e) byteOrder) = ?n"
    "remaining (BinaryReader e (length e) byteOrder) = e"
    "rcur (BinaryReader e (length e) byteOrder) \<le> rsize (BinaryReader e (length e) byteOrder)" for e
    by (simp_all add: BinaryReader_def reader_inv_def remaining_def)
  have small: "sum16 ?n e < 2 ^ 32" if "length e \<le> 2 ^ 16 + 1" for e
    using sum16_bound [of ?n e] that by simp
  have c: "unat c = 65535 - fold16 ?s"
    using ComputeChecksum_value [OF new(1,4), of d] small [of d] assms(2,3) by (simp add: new)
  have "sum16 ?n d' = ?s + unat c"
    using assms(1,4) sum16_word [of ?n c]
    by (cases "byteOrder = ORDER_NATIVE") (simp_all only: sum16_append if_True if_False HOL.simp_thms)
  then have "fold16 (sum16 ?n d') = 65535" by (simp only: c fold16_complement)
  moreover have "length d' \<le> 2 ^ 16 + 1" using assms(2,4) by simp
  ultimately show ?thesis
    using ComputeChecksum_value [OF new(1,4), of d'] small [of d']
    by (auto simp: new prod_eq_iff unat_eq_zero)
qed

theorem checksum_verifies_witness:
  "ComputeChecksum (BinaryReader [1, 2, 0xFE, 0xFD] 4 ORDER_LITTLE_ENDIAN) =
    (0, BinaryReader [1, 2, 0xFE, 0xFD] 4 ORDER_LITTLE_ENDIAN)"
proof -
  have i: "reader_inv (BinaryReader [1, 2] 2 ORDER_LITTLE_ENDIAN)" by (simp add: BinaryReader_def reader_inv_def)
  have "unat (fst (ComputeChecksum (BinaryReader [1, 2] 2 ORDER_LITTLE_ENDIAN))) = 0xFDFE"
    using ComputeChecksum_value [OF i] by (simp add: fold16_def BinaryReader_def remaining_def ORDER_NATIVE_def)
  then have "fst (ComputeChecksum (BinaryReader [1, 2] 2 ORDER_LITTLE_ENDIAN)) = 0xFDFE"
    by (metis of_nat_numeral of_nat_unat ucast_id)
  then have e: "0xFDFE = fst (ComputeChecksum (BinaryReader [1, 2] (length [1, 2 :: byte]) ORDER_LITTLE_ENDIAN))"
    by (simp add: numeral_2_eq_2)
  have "ComputeChecksum (BinaryReader [1, 2, 0xFE, 0xFD] (length [1, 2, 0xFE, 0xFD :: byte]) ORDER_LITTLE_ENDIAN) =
      (0, BinaryReader [1, 2, 0xFE, 0xFD] (length [1, 2, 0xFE, 0xFD :: byte]) ORDER_LITTLE_ENDIAN)"
    by (rule checksum_verifies [OF _ _ e]) (simp_all add: ORDER_NATIVE_def)
  then show ?thesis by (simp add: numeral_eq_Suc)
qed

text \<open>
  C34: The table-driven CRC is the bit by bit division by the polynomial 0x04c11db7 from the register of
  ones: the bits of each byte enter from the high one, or from the low one with \<open>ROTATE_INPUT\<close>, and the
  bits of the remainder are reversed with \<open>ROTATE_OUTPUT\<close>.
\<close>

theorem CRC32_polynomial:
  "map (bit (ComputeCRC32 data options)) [0..<32] =
    (if options AND ROTATE_OUTPUT \<noteq> 0 then rev else id)
      (map (bit (crc_reference (concat (map
         (if options AND ROTATE_INPUT \<noteq> 0 then bits_low_first else bits_high_first) data)))) [0..<32])"
proof -
  have r: "map (bit (Rotate32 d)) [0..<32] = rev (map (bit d) [0..<32])" for d
    by (intro nth_equalityI) (simp_all add: rev_nth bit_Rotate32)
  show ?thesis
    unfolding ComputeCRC32_def CRC32_steps_bits crc_reference_def input_bits_def Let_def
    by (cases "options AND ROTATE_OUTPUT \<noteq> 0")
       (simp_all only: r if_True if_False id_apply HOL.simp_thms)
qed

text \<open>
  C35: The CRC detects every error confined to four consecutive bytes: two blocks that differ only there
  have different values.
\<close>

theorem CRC32_detects_burst:
  assumes "length x = length y" "length x \<le> 4" "x \<noteq> y"
  shows "ComputeCRC32 (p @ x @ q) options \<noteq> ComputeCRC32 (p @ y @ q) options"
proof
  assume "ComputeCRC32 (p @ x @ q) options = ComputeCRC32 (p @ y @ q) options"
  then have "foldl (CRC32_step options) 0xffffffff (p @ x @ q) = foldl (CRC32_step options) 0xffffffff (p @ y @ q)"
    by (auto simp: ComputeCRC32_def Let_def dest: Rotate32_inj split: if_splits)
  then have "foldl crc_bit r (concat (map (input_bits options) x)) = foldl crc_bit r (concat (map (input_bits options) y))"
    if "r = foldl (CRC32_step options) 0xffffffff p" for r
    using that by (auto simp: CRC32_steps_bits dest: crc_bits_inj)
  then have "top_bits (concat (map (input_bits options) x)) = top_bits (concat (map (input_bits options) y))"
    using assms by (auto simp: crc_bits_shift xor_left_cancel dest: shift_polys_inj)
  then have "x = y" using assms by (intro input_bytes_inj top_bits_inj) auto
  then show False using assms(3) by simp
qed

theorem CRC32_detects_burst_witness: "ComputeCRC32 ([7] @ [1] @ [9]) 0 \<noteq> ComputeCRC32 ([7] @ [2] @ [9]) 0"
  by (rule CRC32_detects_burst) simp_all

end
