(* ===== verification/Text_Codecs.thy ===== *)
theory Text_Codecs
  imports Strings
begin

text \<open>
  Mona/Format/String.h, String.cpp: numbers (\<open>tryNumber\<close> for the integral types), hexadecimal text
  (\<open>Append\<close> of a \<open>Hex\<close>, \<open>ToHex\<close>, which decodes) and percent-encoding (\<open>Append\<close> of a \<open>URI\<close>, \<open>FromURI\<close>).
  The \<open>long double\<close> accumulator of \<open>tryNumber\<close> is an exact number here: it is exact on the machine up
  to 64 bits, and what is above is clamped to the limits of the type.
  The lemmas show that printed numbers are read back (saturated to the type), that hexadecimal and
  percent-encoding are inverted, and where the code departs from that.
\<close>

section \<open>Numbers\<close>

datatype num_result = Not_A_Number | Number int bool | Undefined_Conversion

text \<open>\<open>int8_t value = *current - '0'\<close> and its adjustment for letters.\<close>

definition digit_value :: "char \<Rightarrow> int" where
  "digit_value c =
     (let v = cast_signed 8 (schar c - 48)
      in if v > 9 then (if v \<ge> 49 then v - 39 else v - 7) else v)"

text \<open>The loop; the answer is \<open>(beginning, negative, number, comma, partial)\<close>, \<open>partial\<close> when \<open>ex\<close> is set.\<close>

fun tryNumber_loop :: "nat \<Rightarrow> bool \<Rightarrow> bool \<Rightarrow> int \<Rightarrow> nat \<Rightarrow> string \<Rightarrow> bool \<times> bool \<times> int \<times> nat \<times> bool" where
  "tryNumber_loop base beginning negative number comma [] = (beginning, negative, number, comma, False)"
| "tryNumber_loop base beginning negative number comma (c # cs) =
     (if iscntrl c \<or> c = CHR '' '' then
        (if \<not> beginning then (beginning, negative, number, comma, True)
         else tryNumber_loop base beginning negative number comma cs)
      else if ispunct c then
        (if c = CHR ''-'' \<and> beginning then tryNumber_loop base beginning (\<not> negative) number comma cs
         else if c = CHR ''+'' \<and> beginning then tryNumber_loop base beginning negative number comma cs
         else if (c = CHR ''.'' \<or> c = CHR '','') \<and> \<not> beginning \<and> comma = 0
         then tryNumber_loop base beginning negative number 1 cs
         else (beginning, negative, number, comma, True))
      else
        (let v = digit_value c
         in if v \<ge> int base then (beginning, negative, number, comma, True)
            else tryNumber_loop base False negative (number * int base + v) ((comma * base) mod 2 ^ 64) cs))"

text \<open>\<open>(Type)number\<close>, towards zero; out of the type's range the conversion is undefined.\<close>

definition to_type :: "int \<Rightarrow> int \<Rightarrow> int \<Rightarrow> int \<Rightarrow> bool \<Rightarrow> num_result" where
  "to_type lo hi number den partial =
     (let t = (if number < 0 then - (- number div den) else number div den)
      in if lo \<le> t \<and> t \<le> hi then Number t partial else Undefined_Conversion)"

definition tryNumber :: "nat \<Rightarrow> int \<Rightarrow> int \<Rightarrow> string \<Rightarrow> num_result" where
  "tryNumber base lo hi value =
     (if base > 36 then Not_A_Number
      else
        (case tryNumber_loop base True False 0 0 (cstr value) of
           (beginning, negative, number, comma, partial) \<Rightarrow>
             (if beginning then Not_A_Number
              else
                (let den = (if comma \<noteq> 0 then int comma else 1);
                     neg = (if negative then 1 else 0);
                     number1 = (if number - neg * den > hi * den then (hi + neg) * den else number);
                     number2 = (if negative then (if lo = 0 then 0 else - number1) else number1)
                 in to_type lo hi number2 den partial))))"

definition toNumber :: "nat \<Rightarrow> int \<Rightarrow> int \<Rightarrow> string \<Rightarrow> int \<Rightarrow> int option" where
  "toNumber base lo hi value defaultValue =
     (case tryNumber base lo hi value of
        Number n _ \<Rightarrow> Some n | Not_A_Number \<Rightarrow> Some defaultValue | Undefined_Conversion \<Rightarrow> None)"

section \<open>Hexadecimal text\<close>

definition nibble_char :: "nat \<Rightarrow> nat \<Rightarrow> char" where
  "nibble_char ref v = chr (v + (if v > 9 then ref else 48))"

fun hex_trim :: "string \<Rightarrow> string \<times> bool" where
  "hex_trim [] = ([], False)"
| "hex_trim (c # cs) =
     (if drop_bit 4 (code c) > 0 then (c # cs, False)
      else if code c AND 0x0F > 0 then (c # cs, True)
      else hex_trim cs)"

fun hex_loop :: "bool \<Rightarrow> nat \<Rightarrow> bool \<Rightarrow> string \<Rightarrow> string" where
  "hex_loop cpp ref skipLeft [] = []"
| "hex_loop cpp ref skipLeft (c # cs) =
     (if cpp then [chr 92, CHR ''x''] else []) @
     (if skipLeft then [] else [nibble_char ref (drop_bit 4 (code c))]) @
     [nibble_char ref (code c AND 0x0F)] @ hex_loop cpp ref False cs"

definition Append_Hex :: "bool \<Rightarrow> bool \<Rightarrow> bool \<Rightarrow> string \<Rightarrow> string" where
  "Append_Hex cpp trim_left upper data =
     (let (d, skipLeft) = (if trim_left then hex_trim data else (data, False));
          ref = (if upper then 55 else 87)
      in hex_loop cpp ref skipLeft d)"

text \<open>
  \<open>ToHex\<close>: \<open>while (size-->0)\<close> and \<open>size-- ? ... : '0'\<close> on a \<open>size_t\<close>. After the last character of an odd
  text the second decrement wraps, and the loop reads past the text: None.
\<close>

definition nibble_value :: "char \<Rightarrow> int" where
  "nibble_value c = (let u = schar (toupper c) in u - (if u \<le> 57 then 48 else 55))"

definition hex_pair :: "char \<Rightarrow> char \<Rightarrow> char" where
  "hex_pair l r = chr (nat ((nibble_value l * 16) mod 256) OR nat (nibble_value r mod 16))"

fun ToHex_loop :: "string \<Rightarrow> nat \<Rightarrow> string option" where
  "ToHex_loop value n =
     (if n = 0 then Some []
      else
        (let n1 = n - 1 in
         case value of
           [] \<Rightarrow> None
         | l # value1 \<Rightarrow>
             (if n1 \<noteq> 0 then
                (case value1 of
                   [] \<Rightarrow> None
                 | r # value2 \<Rightarrow> map_option ((#) (hex_pair l r)) (ToHex_loop value2 (n1 - 1)))
              else map_option ((#) (hex_pair l (CHR ''0''))) (ToHex_loop value1 (2 ^ 64 - 1)))))"

declare ToHex_loop.simps [simp del]

definition ToHex :: "string \<Rightarrow> string option" where
  "ToHex value = ToHex_loop value (length value)"

section \<open>Percent-encoding\<close>

text \<open>\<open>sprintf("%2X")\<close> of a byte: two columns, filled with a space.\<close>

definition format_2X :: "nat \<Rightarrow> string" where
  "format_2X n = (if n < 16 then [CHR '' '', nibble_char 55 n] else [nibble_char 55 (n div 16), nibble_char 55 (n mod 16)])"

fun Append_URI :: "string \<Rightarrow> string" where
  "Append_URI [] = []"
| "Append_URI (c # cs) =
     (if isalnum c \<or> c = CHR ''-'' \<or> c = CHR ''_'' \<or> c = CHR ''.'' \<or> c = CHR ''~'' then [c]
      else CHR ''%'' # format_2X (code c)) @ Append_URI cs"

text \<open>\<open>FromURI(hi, lo, buffer)\<close>: whether the pair is hexadecimal, and what is appended.\<close>

definition uri_nibble :: "char \<Rightarrow> int" where
  "uri_nibble c = schar c - (if schar c \<le> 57 then 48 else 55)"

definition FromURI_pair :: "char \<Rightarrow> char \<Rightarrow> bool \<times> string" where
  "FromURI_pair hi lo =
     (if \<not> isxdigit hi \<or> \<not> isxdigit lo then (False, [CHR ''%'', hi, lo])
      else (True, [chr (nat ((uri_nibble hi * 16) mod 256) OR nat (uri_nibble lo mod 16))]))"

text \<open>\<open>FromURI(data, size, buffer)\<close>: \<open>hi\<close> is an \<open>int8_t\<close>, 0 before the first percent sign, -1 just after one.\<close>

definition FromURI_step :: "char \<Rightarrow> int \<times> bool \<times> string \<Rightarrow> int \<times> bool \<times> string" where
  "FromURI_step c = (\<lambda>(hi, oneDone, buffer).
     if c = CHR ''%'' then
       (-1, oneDone,
        if hi \<noteq> 0 then buffer @ [CHR ''%''] @ (if hi \<noteq> -1 then [chr (nat (hi mod 256))] else []) else buffer)
     else if hi = -1 \<and> schar c \<noteq> -1 then (schar c, oneDone, buffer)
     else if hi \<noteq> 0 then
       (case FromURI_pair (chr (nat (hi mod 256))) c of
          (done, out) \<Rightarrow> (hi, oneDone \<or> done, buffer @ out))
     else (hi, oneDone, buffer))"

definition FromURI :: "string \<Rightarrow> bool \<times> string" where
  "FromURI data = (case fold FromURI_step data (0, False, []) of (hi, oneDone, buffer) \<Rightarrow> (oneDone, buffer))"

section \<open>Printed numbers\<close>

text \<open>The decimal text of a number, as \<open>sprintf\<close> prints it.\<close>

fun dec_string :: "nat \<Rightarrow> string" where
  "dec_string n = (if n < 10 then [chr (48 + n)] else dec_string (n div 10) @ [chr (48 + n mod 10)])"

declare dec_string.simps [simp del]

definition int_string :: "int \<Rightarrow> string" where
  "int_string i = (if i < 0 then CHR ''-'' # dec_string (nat (- i)) else dec_string (nat i))"

lemma char_neq_code: "c \<noteq> d \<longleftrightarrow> code c \<noteq> code d"
  by simp

lemma digit_char:
  assumes "d < 10"
  shows "\<not> iscntrl (chr (48 + d))" "\<not> ispunct (chr (48 + d))" "chr (48 + d) \<noteq> CHR '' ''"
    "digit_value (chr (48 + d)) = int d" "chr (48 + d) \<noteq> NUL"
proof -
  have c: "code (chr (48 + d)) = 48 + d" using assms by simp
  show "\<not> iscntrl (chr (48 + d))" "\<not> ispunct (chr (48 + d))"
    using assms by (auto simp: iscntrl_iff ispunct_iff)
  show "digit_value (chr (48 + d)) = int d"
    using assms by (simp add: digit_value_def schar_def cast_signed_def)
  have "code (CHR '' '') = 32" by (simp add: code_def)
  then show "chr (48 + d) \<noteq> CHR '' ''" using c by force
  show "chr (48 + d) \<noteq> NUL" using c by force
qed

lemma tryNumber_loop_digit:
  assumes "d < 10"
  shows "tryNumber_loop 10 b neg n m (chr (48 + d) # cs) =
    tryNumber_loop 10 False neg (n * 10 + int d) ((m * 10) mod 2 ^ 64) cs"
  using digit_char [OF assms] assms by (simp add: Let_def)

lemma NUL_dec_string: "NUL \<notin> set (dec_string n)"
proof (induction n rule: dec_string.induct)
  case (1 n)
  then show ?case using digit_char(5) [of n] digit_char(5) [of "n mod 10"]
    by (subst dec_string.simps) auto
qed

lemma tryNumber_loop_dec:
  "tryNumber_loop 10 b neg n 0 (dec_string m @ cs) =
    tryNumber_loop 10 False neg (n * 10 ^ length (dec_string m) + int m) 0 cs"
proof (induction m arbitrary: b n cs rule: dec_string.induct)
  case (1 m)
  show ?case
  proof (cases "m < 10")
    case True
    then have e: "dec_string m = [chr (48 + m)]" by (subst dec_string.simps) simp
    show ?thesis using tryNumber_loop_digit [OF True, of b neg n 0 cs] by (simp add: e del: tryNumber_loop.simps)
  next
    case False
    then have e: "dec_string m = dec_string (m div 10) @ [chr (48 + m mod 10)]"
      by (subst dec_string.simps) simp
    let ?k = "length (dec_string (m div 10))"
    have d: "m mod 10 < 10" by simp
    have "int m = int (m div 10) * 10 + int (m mod 10)"
      by (metis div_mult_mod_eq of_nat_add of_nat_mult of_nat_numeral)
    then have v: "(n * 10 ^ ?k + int (m div 10)) * 10 + int (m mod 10) = n * 10 ^ Suc ?k + int m"
      by (simp add: algebra_simps)
    have "tryNumber_loop 10 b neg n 0 (dec_string m @ cs) =
        tryNumber_loop 10 False neg ((n * 10 ^ ?k + int (m div 10)) * 10 + int (m mod 10)) 0 cs"
      using 1 [OF False, of b n "chr (48 + m mod 10) # cs"] tryNumber_loop_digit [OF d]
      by (simp add: e del: tryNumber_loop.simps)
    then show ?thesis by (simp only: v) (simp add: e)
  qed
qed

lemma tryNumber_loop_int:
  "tryNumber_loop 10 True False 0 0 (cstr (int_string i)) = (False, i < 0, \<bar>i\<bar>, 0, False)"
proof (cases "i < 0")
  case True
  have m: "\<not> iscntrl (CHR ''-'')" "ispunct (CHR ''-'')" "CHR ''-'' \<noteq> NUL"
  proof -
    have c: "code (CHR ''-'') = 45" by (simp add: code_def)
    then show "\<not> iscntrl (CHR ''-'')" "ispunct (CHR ''-'')" by (simp_all add: iscntrl_iff ispunct_iff)
    show "CHR ''-'' \<noteq> NUL" using c by force
  qed
  then show ?thesis using True tryNumber_loop_dec [of True True 0 "nat (- i)" "[]"] NUL_dec_string [of "nat (- i)"]
    by (simp add: int_string_def cstr_Cons cstr_id)
next
  case False
  then show ?thesis using tryNumber_loop_dec [of True False 0 "nat i" "[]"] NUL_dec_string [of "nat i"]
    by (simp add: int_string_def cstr_id)
qed

section \<open>Hexadecimal digits\<close>

lemma nibbles: "n < 256 \<Longrightarrow> drop_bit 4 n = n div 16 \<and> n AND 0x0F = n mod 16 \<and> n div 16 * 16 OR n mod 16 = (n :: nat)"
proof -
  have "list_all (\<lambda>n :: nat. drop_bit 4 n = n div 16 \<and> n AND 0x0F = n mod 16 \<and> n div 16 * 16 OR n mod 16 = n) [0..<256]"
    by (simp add: upt_0_numeral upt_1_numeral numeral_3_eq_3 [symmetric])
  then show "n < 256 \<Longrightarrow> ?thesis" by (rule all_256)
qed

lemma nibble_value_char: "v < 16 \<Longrightarrow> ref = 55 \<or> ref = 87 \<Longrightarrow> nibble_value (nibble_char ref v) = int v"
  by (auto simp: nibble_value_def nibble_char_def schar_def toupper_def code_toUpper Let_def)

lemma hex_pair_nibbles:
  assumes "ref = 55 \<or> ref = 87"
  shows "hex_pair (nibble_char ref (drop_bit 4 (code c))) (nibble_char ref (code c AND 0x0F)) = c"
proof -
  have n: "drop_bit 4 (code c) = code c div 16" "code c AND 0x0F = code c mod 16"
      "code c div 16 * 16 OR code c mod 16 = code c"
    using nibbles [of "code c"] by auto
  have lt: "code c div 16 < 16" using code_lt [of c] by linarith
  moreover have "code c mod 16 < 16" by simp
  moreover have "nat (int (code c div 16) * 16 mod 256) = code c div 16 * 16"
    using lt by (simp add: nat_mod_distrib nat_mult_distrib)
  moreover have "nat (int (code c mod 16) mod 16) = code c mod 16" by (simp add: nat_mod_distrib)
  ultimately show ?thesis using assms lt by (simp add: hex_pair_def nibble_value_char n)
qed

lemma length_hex_loop: "length (hex_loop False ref False s) = 2 * length s"
  by (induction s) auto

lemma ToHex_hex_loop:
  assumes "ref = 55 \<or> ref = 87"
  shows "ToHex_loop (hex_loop False ref False s) (2 * length s) = Some s"
proof (induction s)
  case (Cons c s)
  then show ?case by (subst ToHex_loop.simps) (simp add: hex_pair_nibbles [OF assms])
qed (simp add: ToHex_loop.simps)

section \<open>Percent-encoding\<close>

text \<open>A percent-decoder as the reference: every sequence of a percent sign and two hexadecimal digits,
  decoded by the code's \<open>FromURI(hi, lo, buffer)\<close>, and any other character as it is.\<close>

fun percent_decode :: "string \<Rightarrow> string" where
  "percent_decode (p # h # l # cs) =
     (if p = CHR ''%'' then snd (FromURI_pair h l) @ percent_decode cs else p # percent_decode (h # l # cs))"
| "percent_decode cs = cs"

lemma uri_nibble_char:
  "v < 16 \<Longrightarrow> uri_nibble (nibble_char 55 v) = int v \<and> isxdigit (nibble_char 55 v)"
  by (auto simp: uri_nibble_def nibble_char_def schar_def isxdigit_iff)

lemma FromURI_pair_format:
  assumes "16 \<le> n" "n < 256"
  shows "FromURI_pair (nibble_char 55 (n div 16)) (nibble_char 55 (n mod 16)) = (True, [chr n])"
proof -
  have lt: "n div 16 < 16" using assms(2) by linarith
  have m: "n mod 16 < 16" by simp
  have "nat (int (n div 16) * 16 mod 256) = n div 16 * 16"
    using lt by (simp add: nat_mod_distrib nat_mult_distrib)
  moreover have "nat (int (n mod 16) mod 16) = n mod 16" by (simp add: nat_mod_distrib)
  ultimately show ?thesis
    using uri_nibble_char [OF lt] uri_nibble_char [OF m] nibbles [OF assms(2)]
    by (simp add: FromURI_pair_def nat_mult_distrib)
qed

lemma percent_decode_plain: "c \<noteq> CHR ''%'' \<Longrightarrow> percent_decode (c # cs) = c # percent_decode cs"
  by (cases cs; cases "tl cs") auto

lemma percent_decode_URI:
  "list_all (\<lambda>c. 16 \<le> code c) s \<Longrightarrow> percent_decode (Append_URI s) = s"
proof (induction s)
  case (Cons c s)
  have pc: "code (CHR ''%'') = 37" by (simp add: code_def)
  show ?case
  proof (cases "isalnum c \<or> c = CHR ''-'' \<or> c = CHR ''_'' \<or> c = CHR ''.'' \<or> c = CHR ''~''")
    case True
    have "c \<noteq> CHR ''%''"
    proof
      assume c: "c = CHR ''%''"
      then have "\<not> isalnum c" using pc by (simp add: isalnum_iff)
      then show False using True c by simp
    qed
    then show ?thesis using True Cons by (simp add: percent_decode_plain)
  next
    case False
    have "16 \<le> code c" using Cons.prems by simp
    then have "FromURI_pair (nibble_char 55 (code c div 16)) (nibble_char 55 (code c mod 16)) = (True, [c])"
      using FromURI_pair_format [of "code c"] by simp
    then show ?thesis using False Cons \<open>16 \<le> code c\<close> by (simp add: format_2X_def)
  qed
qed simp

section \<open>Properties\<close>

text \<open>
  A printed integer is read back exactly, and one outside the type is read as the nearest limit of
  the type (0 for a negative text and an unsigned type), for every type whose lower limit is 0 or the
  two's complement one.
\<close>

theorem tryNumber_saturates:
  assumes "0 < hi" "lo = 0 \<or> lo = - hi - 1"
  shows "tryNumber 10 lo hi (int_string i) =
    Number (if i > hi then hi else if i < lo then lo else i) False"
  using assms tryNumber_loop_int [of i]
  by (auto simp: tryNumber_def to_type_def Let_def)

theorem tryNumber_saturates_witness:
  "tryNumber 10 (-128) 127 (int_string (-200)) = Number (-128) False"
  using tryNumber_saturates [of 127 "-128" "-200"] by simp

text \<open>
  C0: \<open>tryNumber\<close> takes a byte above 0xAF for a digit: \<open>*current - '0'\<close> is negative for it, and only the
  upper bound of a digit is checked. The text \<open>5\<close> followed by the byte 0xFF is read as the number 1.
\<close>

theorem tryNumber_negative_digit:
  "tryNumber 10 0 255 [CHR ''5'', chr 0xFF] = Number 1 False"
proof -
  have "code (CHR ''5'') = 53" by (simp add: code_def)
  then have five: "CHR ''5'' = chr (48 + 5)" by simp (metis chr_code)
  have d: "digit_value (chr 0xFF) = -49" by (simp add: digit_value_def schar_def cast_signed_def Let_def)
  have o: "\<not> iscntrl (chr 0xFF)" "\<not> ispunct (chr 0xFF)" by (simp_all add: iscntrl_iff ispunct_iff)
  have "code (CHR '' '') = 32" by (simp add: code_def)
  then have sp: "chr 0xFF \<noteq> CHR '' ''" by (simp add: chr_eq_iff)
  have "chr 0xFF \<noteq> NUL" by (simp add: chr_eq_iff)
  then have "cstr [chr (48 + 5), chr 0xFF] = [chr (48 + 5), chr 0xFF]"
    using digit_char(5) [of 5] by (intro cstr_id) auto
  then show ?thesis unfolding five
    using tryNumber_loop_digit [of 5 True False 0 0 "[chr 0xFF]"] d o sp
    by (simp add: tryNumber_def to_type_def Let_def)
qed

text \<open>
  Hexadecimal text is inverted by \<open>ToHex\<close>: any data printed by \<open>Hex\<close> without prefix or trimming, in
  upper or lower case, is decoded to the same data.
\<close>

theorem ToHex_Append_Hex:
  "ToHex (Append_Hex False False upper s) = Some s"
  using ToHex_hex_loop [of "if upper then 55 else 87" s]
  by (simp add: ToHex_def Append_Hex_def length_hex_loop)

text \<open>
  \<open>ToHex\<close> of a text of odd length does not end inside the text: after the last character the count
  wraps and the loop reads past the end, although the code prepares a \<open>'0'\<close> for the missing digit.
\<close>

theorem ToHex_odd_overrun:
  assumes "odd (length s)" "length s < 2 ^ 64"
  shows "ToHex s = None"
proof -
  have "ToHex_loop s (length s) = None" if "odd (length s)" for s
    using that
  proof (induction "length s" arbitrary: s rule: less_induct)
    case less
    obtain l v where s: "s = l # v" using less.prems by (cases s) auto
    show ?case
    proof (cases v)
      case Nil
      then show ?thesis using s by (simp add: ToHex_loop.simps)
    next
      case (Cons r w)
      then have "ToHex_loop w (length w) = None" using less s by simp
      then show ?thesis using s Cons by (subst ToHex_loop.simps) simp
    qed
  qed
  then show ?thesis using assms by (simp add: ToHex_def)
qed

theorem ToHex_odd_overrun_witness: "ToHex ''ABC'' = None"
  using ToHex_odd_overrun [of "''ABC''"] by simp

text \<open>
  Percent-encoding is inverted by decoding each escape with \<open>FromURI(hi, lo, buffer)\<close>, for texts of
  characters from 16 on; below, the two-column format fills with a space and the escape is not
  hexadecimal.
\<close>

theorem URI_roundtrip:
  "(list_all (\<lambda>c. 16 \<le> code c) s \<longrightarrow> percent_decode (Append_URI s) = s) \<and>
   Append_URI [chr 10] = ''% A'' \<and> FromURI_pair (CHR '' '') (CHR ''A'') = (False, ''% A'')"
proof -
  have "code (CHR ''A'') = 65" by (simp add: code_def)
  then have n: "nibble_char 55 10 = CHR ''A''" by (simp add: nibble_char_def) (metis chr_code)
  have c: "code (CHR ''-'') = 45" "code (CHR ''_'') = 95" "code (CHR ''.'') = 46" "code (CHR ''~'') = 126"
    "code (CHR '' '') = 32" by (simp_all add: code_def)
  have "chr 10 \<noteq> CHR ''-''" "chr 10 \<noteq> CHR ''_''" "chr 10 \<noteq> CHR ''.''" "chr 10 \<noteq> CHR ''~''"
    by (simp_all add: chr_eq_iff c)
  moreover have "\<not> isalnum (chr 10)" by (simp add: isalnum_iff)
  ultimately have "Append_URI [chr 10] = ''% A''" by (simp add: format_2X_def n)
  moreover have "\<not> isxdigit (CHR '' '')" by (simp add: isxdigit_iff c)
  then have "FromURI_pair (CHR '' '') (CHR ''A'') = (False, ''% A'')" by (simp add: FromURI_pair_def)
  ultimately show ?thesis using percent_decode_URI by blast
qed

theorem URI_roundtrip_witness: "percent_decode (Append_URI ''a b'') = ''a b''"
  using URI_roundtrip [of "''a b''"] by (simp add: code_def)

text \<open>
  \<open>FromURI\<close> of a whole text never clears the first digit of an escape and has no branch for plain
  characters: after \<open>%41\<close> the next character is taken as another low digit, and a text without escapes
  gives nothing.
\<close>

theorem FromURI_drops_text:
  "FromURI ''%41B'' = (True, ''AK'') \<and> FromURI ''plain'' = (False, [])"
proof -
  have c: "code (CHR ''%'') = 37" "code (CHR ''4'') = 52" "code (CHR ''1'') = 49" "code (CHR ''B'') = 66"
    "code (CHR ''A'') = 65" "code (CHR ''K'') = 75" "code (CHR ''p'') = 112" "code (CHR ''l'') = 108"
    "code (CHR ''a'') = 97" "code (CHR ''i'') = 105" "code (CHR ''n'') = 110"
    by (simp_all add: code_def)
  show ?thesis
    by (simp add: FromURI_def FromURI_step_def FromURI_pair_def isxdigit_iff schar_def uri_nibble_def chr_eq_iff c)
qed

end
