(* ===== verification/Calendar.thy ===== *)
theory Calendar
  imports Text_Codecs "HOL-Library.Signed_Division"
begin

text \<open>
  Mona/Timing/Date.h, Date.cpp and the time of Mona/Timing/Time.h: the civil calendar. A date keeps a
  time (milliseconds since 1970) and its fields, refreshed lazily: the setters mark the date as changed
  and \<open>time()\<close> recomputes; a date with day 0 is not initialized. Divisions of signed numbers are
  \<open>sdiv\<close> and \<open>smod\<close>, towards zero as in C++. Times and years are integers: the double division
  \<open>floor(time / 86400000.0)\<close> of the code is the exact floor below 2 ^ 53 milliseconds (proved in
  Double_Dates), where the years fit 32 bits too. The local time zone is a parameter, the record \<open>zone\<close>, which Timezones provides.
  The lemmas show that the year loop ends and that the fields are the Gregorian date of any time, before
  and after the year 0, with the week day, and that \<open>time()\<close> inverts it.
\<close>

section \<open>Tables\<close>

definition GMT :: int where "GMT = 0x7FFFFFFF"
definition LOCAL :: int where "LOCAL = - 0x80000000"

definition WeekDayNames :: "string list" where
  "WeekDayNames = [''Sunday'', ''Monday'', ''Tuesday'', ''Wednesday'', ''Thursday'', ''Friday'', ''Saturday'']"

definition MonthNames :: "string list" where
  "MonthNames =
    [''January'', ''February'', ''March'', ''April'', ''May'', ''June'', ''July'', ''August'',
     ''September'', ''October'', ''November'', ''December'']"

definition MonthDays :: "bool \<Rightarrow> int list" where
  "MonthDays leap =
     (if leap then [0, 31, 60, 91, 121, 152, 182, 213, 244, 274, 305, 335]
      else [0, 31, 59, 90, 120, 151, 181, 212, 243, 273, 304, 334])"

definition IsLeapYear :: "int \<Rightarrow> bool" where
  "IsLeapYear year \<longleftrightarrow> year smod 400 = 0 \<or> year AND 3 = 0 \<and> year smod 100 \<noteq> 0"

definition LeapYears :: "int \<Rightarrow> int" where
  "LeapYears year =
     (let result = year sdiv 4 - year sdiv 100 + year sdiv 400 - 477
      in if year \<le> 0 then result - 1 else result)"

section \<open>The state of a date\<close>

record date =
  tm :: int
  dyear :: int
  dmonth :: nat
  dday :: nat
  dweekDay :: nat
  dhour :: nat
  dminute :: nat
  dsecond :: nat
  dmillisecond :: nat
  doffset :: int
  disDST :: bool
  disLocal :: bool
  dchanged :: bool

text \<open>
  The local time zone: the standard and the daylight offset, and the offset at a time, where the year
  kept by the date is consulted too.
\<close>

record zone =
  zone_offset :: int
  zone_dst :: int
  zone_at :: "int \<Rightarrow> int \<Rightarrow> int \<times> bool"

definition Date_from_time :: "int \<Rightarrow> int \<Rightarrow> date" where
  "Date_from_time time offset =
     \<lparr>tm = time, dyear = 0, dmonth = 0, dday = 0, dweekDay = 7, dhour = 0, dminute = 0, dsecond = 0,
      dmillisecond = 0, doffset = offset, disDST = False, disLocal = True, dchanged = False\<rparr>"

section \<open>From a time to the fields\<close>

definition computeWeekDay :: "int \<Rightarrow> date \<Rightarrow> date" where
  "computeWeekDay days d =
     (let days = days + 4;
          result = (if days < 0 then days + 1 else days) smod 7;
          result = (if days < 0 then result + 6 else result)
      in d\<lparr>dweekDay := nat (result mod 256)\<rparr>)"

text \<open>The loop on the year: \<open>(days, delta, _year)\<close> when \<open>days / 366\<close> is the year, as an offset from 1970.\<close>

definition year_delta :: "int \<Rightarrow> int" where
  "year_delta year = year - LeapYears (year + 1970)"

text \<open>The leap years from 1970 on, counted without truncation.\<close>

definition leap_count :: "int \<Rightarrow> int" where
  "leap_count y = y div 4 - y div 100 + y div 400 - 477"

lemma div_step:
  fixes y n :: int
  assumes "0 < n"
  shows "y div n = (y - 1) div n + (if n dvd y then 1 else 0)"
proof (cases "n dvd y")
  case True
  then obtain k where y: "y = n * k" by blast
  have "(y - 1) div n = ((n - 1) + (k - 1) * n) div n" using y by (simp add: algebra_simps)
  also have "\<dots> = (k - 1) + (n - 1) div n" using assms by (intro div_mult_self1) simp
  also have "(n - 1) div n = 0" using assms by (intro div_pos_pos_trivial) auto
  finally show ?thesis using True y assms by simp
next
  case False
  have "y div n = (y - 1) div n"
  proof (rule int_div_pos_eq [of _ _ _ "(y - 1) mod n + 1"])
    show "y = n * ((y - 1) div n) + ((y - 1) mod n + 1)" by (simp add: algebra_simps)
    show "0 \<le> (y - 1) mod n + 1" using assms by (simp add: add_nonneg_nonneg)
    show "(y - 1) mod n + 1 < n"
    proof (rule ccontr)
      assume "\<not> (y - 1) mod n + 1 < n"
      then have "(y - 1) mod n = n - 1" using pos_mod_bound [OF assms, of "y - 1"] by linarith
      then have "n dvd y - 1 - (n - 1)" by (metis mod_eq_dvd_iff mod_mod_trivial)
      then have "n dvd y - n" by (simp add: algebra_simps)
      then have "n dvd y" by (metis dvd_add_left_iff dvd_refl diff_add_cancel)
      with False show False by simp
    qed
  qed
  then show ?thesis using False by simp
qed

lemma sdiv_nonneg: "0 \<le> (y :: int) \<Longrightarrow> 0 < n \<Longrightarrow> y sdiv n = y div n"
  by (simp add: signed_divide_int_def sgn_if)

lemma sdiv_neg: "(y :: int) < 0 \<Longrightarrow> 0 < n \<Longrightarrow> y sdiv n = - ((- y) div n)"
  by (simp add: signed_divide_int_def sgn_if)

lemma sdiv_nonpos:
  fixes y n :: int
  assumes "y \<le> 0" "0 < n"
  shows "y sdiv n = (y - 1) div n + 1"
proof -
  show ?thesis
  proof (cases "y = 0")
    case True
    moreover have "(- 1) div n = - 1" using assms by (simp add: div_eq_minus1)
    ultimately show ?thesis by simp
  next
    case False
    then show ?thesis using assms div_step [of n y] by (simp add: signed_divide_int_eq_divide_int sgn_if)
  qed
qed

lemma IsLeapYear_iff: "IsLeapYear y \<longleftrightarrow> 4 dvd y \<and> \<not> 100 dvd y \<or> 400 dvd y"
proof -
  have m: "y smod n = 0 \<longleftrightarrow> n dvd y" if "0 < n" for n :: int
    using that by (auto simp: signed_modulo_int_def sgn_if dvd_eq_mod_eq_0 [symmetric] zmod_zminus1_eq_if)
  have "y AND 3 = take_bit 2 y" by (simp add: take_bit_eq_mask mask_eq_exp_minus_1)
  then have "y AND 3 = 0 \<longleftrightarrow> 4 dvd y" by (simp add: take_bit_eq_mod dvd_eq_mod_eq_0)
  moreover have "400 dvd y \<Longrightarrow> 4 dvd y" by (rule dvd_trans [of _ 400]) simp_all
  ultimately show ?thesis using m [of 400] m [of 100] by (auto simp: IsLeapYear_def)
qed

lemma leap_count_step: "leap_count y = leap_count (y - 1) + (if IsLeapYear y then 1 else 0)"
proof -
  have "400 dvd y \<Longrightarrow> 100 dvd y" "100 dvd y \<Longrightarrow> 4 dvd y" for y :: int
    by (auto elim: dvd_trans [rotated])
  then show ?thesis
    unfolding leap_count_def using div_step [of 4 y] div_step [of 100 y] div_step [of 400 y]
    by (auto simp: IsLeapYear_iff)
qed

lemma LeapYears_count: "LeapYears y = (if 0 < y then leap_count y else leap_count (y - 1))"
  using sdiv_nonneg [of y 4] sdiv_nonneg [of y 100] sdiv_nonneg [of y 400]
    sdiv_nonpos [of y 4] sdiv_nonpos [of y 100] sdiv_nonpos [of y 400]
  by (auto simp: LeapYears_def leap_count_def)

lemma not_leap_1: "\<not> IsLeapYear 1"
  by (simp add: IsLeapYear_iff)

lemma LeapYears_step: "LeapYears y \<le> LeapYears (y + 1) \<and> LeapYears (y + 1) \<le> LeapYears y + 1"
proof (cases "y = 0")
  case True
  have "leap_count 1 = leap_count (-1) + 1"
    by (simp add: leap_count_def)
  then show ?thesis by (simp add: LeapYears_count True)
next
  case False
  then show ?thesis using leap_count_step [of y] leap_count_step [of "y + 1"] by (auto simp: LeapYears_count)
qed

lemma year_delta_step: "year_delta y \<le> year_delta (y + 1) \<and> year_delta (y + 1) \<le> year_delta y + 1"
  using LeapYears_step [of "y + 1970"] by (simp add: year_delta_def add.commute add.left_commute) 

lemma LeapYears_mono: "a \<le> b \<Longrightarrow> LeapYears a \<le> LeapYears b"
proof (induction b rule: int_ge_induct)
  case (step i)
  then show ?case using LeapYears_step [of i] by linarith
qed simp

lemma year_delta_mono: "a \<le> b \<Longrightarrow> year_delta a \<le> year_delta b"
proof (induction b rule: int_ge_induct)
  case (step i)
  then show ?case using year_delta_step [of i] by linarith
qed simp

lemma LeapYears_1970 [simp]: "LeapYears 1970 = 0"
  by (simp add: LeapYears_count leap_count_def)

lemma year_delta_bounds: "0 \<le> y \<Longrightarrow> year_delta y \<le> y" "y \<le> 0 \<Longrightarrow> y \<le> year_delta y"
  using LeapYears_mono [of 1970 "y + 1970"] LeapYears_mono [of "y + 1970" 1970] by (auto simp: year_delta_def)

lemma sdiv_366_mono:
  assumes "(a :: int) \<le> b"
  shows "a sdiv 366 \<le> b sdiv 366"
proof -
  consider "0 \<le> a" | "a < 0" "0 \<le> b" | "b < 0" by linarith
  then show ?thesis
  proof cases
    case 2
    then have "0 \<le> (- a) div 366" "0 \<le> b div 366" by (simp_all add: pos_imp_zdiv_nonneg_iff)
    then show ?thesis using 2 by (simp add: sdiv_nonneg sdiv_neg)
  qed (use assms in \<open>auto simp: sdiv_nonneg sdiv_neg zdiv_mono1\<close>)
qed

definition year_next :: "int \<Rightarrow> int \<Rightarrow> int" where
  "year_next D y = (D + year_delta y) sdiv 366"

lemma year_next_mono: "a \<le> b \<Longrightarrow> year_next D a \<le> year_next D b"
  unfolding year_next_def using year_delta_mono [of a b] by (intro sdiv_366_mono) linarith

lemma year_next_up: "y < year_next D y \<Longrightarrow> y < \<bar>D\<bar>"
proof (rule ccontr)
  assume up: "y < year_next D y" and "\<not> y < \<bar>D\<bar>"
  then have y: "\<bar>D\<bar> \<le> y" by simp
  then have "D + year_delta y \<le> 2 * y" using year_delta_bounds(1) [of y] by linarith
  then have "year_next D y \<le> (2 * y) sdiv 366" unfolding year_next_def by (rule sdiv_366_mono)
  also have "\<dots> \<le> y" using y by (simp add: sdiv_nonneg)
  finally show False using up by simp
qed

lemma year_next_down: "year_next D y < y \<Longrightarrow> - \<bar>D\<bar> < y"
proof (rule ccontr)
  assume down: "year_next D y < y" and "\<not> - \<bar>D\<bar> < y"
  then have y: "y \<le> - \<bar>D\<bar>" by simp
  then have "2 * y \<le> D + year_delta y" using year_delta_bounds(2) [of y] by linarith
  then have "(2 * y) sdiv 366 \<le> year_next D y" unfolding year_next_def by (rule sdiv_366_mono)
  moreover have "y \<le> (2 * y) sdiv 366" using y by (cases "y = 0") (simp_all add: sdiv_neg)
  ultimately show False using down by simp
qed

definition year_measure :: "int \<Rightarrow> int \<Rightarrow> nat" where
  "year_measure D y =
     (if year_next D y = y then 0 else if y < year_next D y then nat (\<bar>D\<bar> - y) else nat (\<bar>D\<bar> + y))"

lemma year_measure_next: "year_next D y \<noteq> y \<Longrightarrow> year_measure D (year_next D y) < year_measure D y"
  using year_next_up [of y D] year_next_down [of D y]
    year_next_mono [of y "year_next D y" D] year_next_mono [of "year_next D y" y D]
  by (auto simp: year_measure_def)

function year_loop :: "int \<Rightarrow> int \<Rightarrow> int \<Rightarrow> int \<times> int" where
  "year_loop days delta yr =
     (let year = days sdiv 366
      in if year = yr then (days, yr)
         else
           (let days1 = days - delta;
                delta1 = year - LeapYears (year + 1970)
            in year_loop (days1 + delta1) delta1 year))"
  by pat_completeness auto
termination
proof (relation "measure (\<lambda>(days, delta, yr).
    if delta = year_delta yr then year_measure (days - delta) yr
    else Suc (year_measure (days - delta) (days sdiv 366)))", goal_cases)
  case (2 days delta yr year days1 delta1)
  then show ?case using year_measure_next [of "days - delta" yr]
    by (auto simp: year_delta_def [symmetric] year_next_def)
qed simp

declare year_loop.simps [simp del]

text \<open>The year and the day of the year (from 1) of a number of days since 1970, as \<open>Date::update\<close> computes them.\<close>

definition update_year :: "bool \<Rightarrow> int \<Rightarrow> int \<times> int" where
  "update_year negative days =
     (let days = (if negative then days else days + 1);
          (days, yr) = year_loop days 0 0;
          days = days smod 366;
          yr0 = yr + 1970;
          isLeap = IsLeapYear yr0;
          days = (if negative \<and> yr0 > 0 \<and> isLeap then days + 1 else days);
          yr1 = (if negative \<and> days < 0 then yr0 - 1 else yr0);
          days = (if negative then days + 1 else days);
          isLeap = (if yr1 \<noteq> yr0 then IsLeapYear yr1 else isLeap);
          days = (if \<not> negative then (if isLeap then days + 1 else days)
                  else if days \<le> 0 then days + (if isLeap then 366 else 365) else days)
      in (yr1, days))"

text \<open>The day of 1 January of a year, in days since 1970.\<close>

definition year_start :: "int \<Rightarrow> int" where
  "year_start y = 365 * (y - 1970) + leap_count (y - 1)"

definition year_length :: "int \<Rightarrow> int" where
  "year_length y = (if IsLeapYear y then 366 else 365)"

lemma year_start_step: "year_start (y + 1) = year_start y + year_length y"
  using leap_count_step [of y] by (simp add: year_start_def year_length_def)

lemma year_start_1970 [simp]: "year_start 1970 = 0"
  by (simp add: year_start_def leap_count_def)

lemma leap_count_mono: "a \<le> b \<Longrightarrow> leap_count a \<le> leap_count b"
proof (induction b rule: int_ge_induct)
  case (step i)
  then show ?case using leap_count_step [of "i + 1"] by (simp split: if_splits)
qed simp

lemma year_exists: "\<exists>y. year_start y \<le> n \<and> n < year_start (y + 1)"
proof (induction n rule: int_induct [of _ 0])
  case base
  have "year_start 1971 = 365" using year_start_step [of 1970] by (simp add: year_length_def IsLeapYear_iff)
  then show ?case by (intro exI [of _ 1970]) simp
next
  case (step1 i)
  then obtain y where y: "year_start y \<le> i" "i < year_start (y + 1)" by blast
  show ?case
  proof (cases "i + 1 < year_start (y + 1)")
    case True
    then show ?thesis using y by (intro exI [of _ y]) simp
  next
    case False
    then show ?thesis using y year_start_step [of "y + 1"]
      by (intro exI [of _ "y + 1"]) (auto simp: year_length_def)
  qed
next
  case (step2 i)
  then obtain y where y: "year_start y \<le> i" "i < year_start (y + 1)" by blast
  show ?case
  proof (cases "year_start y \<le> i - 1")
    case True
    then show ?thesis using y by (intro exI [of _ y]) simp
  next
    case False
    then show ?thesis using y year_start_step [of "y - 1"]
      by (intro exI [of _ "y - 1"]) (auto simp: year_length_def)
  qed
qed

lemma year_start_mono: "a \<le> b \<Longrightarrow> year_start a \<le> year_start b"
  using leap_count_mono [of "a - 1" "b - 1"] by (simp add: year_start_def)

lemma year_unique:
  assumes "year_start y \<le> n" "n < year_start (y + 1)" "year_start z \<le> n" "n < year_start (z + 1)"
  shows "y = z"
  using assms year_start_mono [of "y + 1" z] year_start_mono [of "z + 1" y] by linarith

lemma year_loop_next:
  "year_loop (D + year_delta y) (year_delta y) y =
     (if year_next D y = y then (D + year_delta y, y)
      else year_loop (D + year_delta (year_next D y)) (year_delta (year_next D y)) (year_next D y))"
  by (subst year_loop.simps) (simp add: Let_def year_next_def year_delta_def)

text \<open>From 1970 on, the loop goes up to the year.\<close>

lemma year_loop_up:
  assumes k: "0 \<le> k" "year_start (1970 + k) < D" "D \<le> year_start (1971 + k)" and "0 \<le> y" "y \<le> k"
  shows "year_loop (D + year_delta y) (year_delta y) y = (D + year_delta k, k)"
  using assms(4,5)
proof (induction "nat (k - y)" arbitrary: y rule: less_induct)
  case less
  have lk: "year_delta k = k - leap_count (1970 + k)"
    using k by (simp add: year_delta_def LeapYears_count add.commute)
  have D: "D \<le> 365 * (k + 1) + leap_count (1970 + k)" "365 * k + leap_count (1969 + k) < D"
    using k by (simp_all add: year_start_def)
  have step: "leap_count (1970 + k) \<le> leap_count (1969 + k) + 1" "leap_count (1969 + k) \<le> leap_count (1970 + k)"
    using leap_count_step [of "1970 + k"] by (simp_all split: if_splits)
  have "year_next D k = k"
    unfolding year_next_def lk using k(1) D step
    by (subst sdiv_nonneg) (auto intro!: int_div_pos_eq [of _ _ _ "D - 365 * k - leap_count (1970 + k)"])
  note fix_k = this
  show ?case
  proof (cases "y = k")
    case True
    then show ?thesis using fix_k by (simp add: year_loop_next)
  next
    case False
    then have y: "y < k" using less.prems by simp
    have "year_delta y = y - leap_count (1970 + y)"
      using less.prems by (simp add: year_delta_def LeapYears_count add.commute)
    moreover have "leap_count (1970 + y) \<le> leap_count (1969 + k)" using y by (intro leap_count_mono) simp
    moreover have "365 * y + 365 \<le> 365 * k" using y by simp
    ultimately have "366 * (y + 1) \<le> D + year_delta y" using D(2) by (simp add: algebra_simps)
    then have "(366 * (y + 1)) sdiv 366 \<le> year_next D y" unfolding year_next_def by (rule sdiv_366_mono)
    then have up: "y < year_next D y" using less.prems(1) by (simp add: sdiv_nonneg)
    have le: "year_next D y \<le> k" using year_next_mono [of y k D] fix_k less.prems by simp
    then show ?thesis
      using less.hyps [of "year_next D y"] up less.prems y by (simp add: year_loop_next)
  qed
qed

lemma update_year_positive:
  assumes "0 \<le> n" "year_start y \<le> n" "n < year_start (y + 1)"
  shows "update_year False n = (y, n - year_start y + 1)"
proof -
  define k where "k = y - 1970"
  have k: "0 \<le> k"
  proof (rule ccontr)
    assume "\<not> 0 \<le> k"
    then have "year_start (y + 1) \<le> year_start 1970" by (intro year_start_mono) (simp add: k_def)
    then show False using assms by simp
  qed
  have y: "y = 1970 + k" by (simp add: k_def)
  have d0: "year_delta 0 = 0" by (simp add: year_delta_def)
  have l: "year_loop (n + 1) 0 0 = (n + 1 + year_delta k, k)"
    using year_loop_up [of k "n + 1" 0] k assms by (simp add: d0 y add.commute)
  have lk: "year_delta k = k - leap_count y"
    using k by (simp add: year_delta_def LeapYears_count add.commute y)
  have s: "year_start y = 365 * k + leap_count (y - 1)" by (simp add: year_start_def k_def)
  define r where "r = n + 1 - year_start y - (if IsLeapYear y then 1 else 0)"
  have e: "n + 1 + year_delta k = r + k * 366"
    using leap_count_step [of y] by (simp add: lk r_def s)
  have "0 \<le> r" "r < 366"
    using assms year_start_step [of y] by (auto simp: r_def year_length_def split: if_splits)
  then have "(r + k * 366) smod 366 = r" using k by (simp add: signed_modulo_int_def sgn_if)
  then show ?thesis
    by (simp add: update_year_def l e Let_def add.commute [of k] y [symmetric]) (simp add: r_def)
qed

text \<open>Before 1970, the loop goes down to the year, or to the next one for its last days.\<close>

lemma year_loop_down:
  assumes T: "year_next n T = T" "T \<le> 0"
    and above: "\<And>y. T < y \<Longrightarrow> y \<le> 0 \<Longrightarrow> year_next n y < y" and "T \<le> y" "y \<le> 0"
  shows "year_loop (n + year_delta y) (year_delta y) y = (n + year_delta T, T)"
  using assms(4,5)
proof (induction "nat (y - T)" arbitrary: y rule: less_induct)
  case less
  show ?case
  proof (cases "y = T")
    case True
    then show ?thesis using T by (simp add: year_loop_next)
  next
    case False
    then have y: "T < y" "year_next n y < y" using less.prems above by auto
    have "T \<le> year_next n y" using year_next_mono [of T y n] T less.prems by simp
    then show ?thesis
      using less.hyps [of "year_next n y"] y less.prems by (simp add: year_loop_next)
  qed
qed

lemma sdiv_neg_mult: "0 \<le> r \<Longrightarrow> r < 366 \<Longrightarrow> 0 \<le> k \<Longrightarrow> (- (366 * k + r)) sdiv 366 = - (k :: int)"
proof -
  assume r: "0 \<le> r" "r < 366" "0 \<le> k"
  have "(366 * k + r) div 366 = k" using r by (intro int_div_pos_eq [of _ _ _ r]) simp_all
  then show ?thesis using r by (cases "366 * k + r = 0") (auto simp: signed_divide_int_def sgn_if)
qed

lemma smod_neg_mult: "0 \<le> r \<Longrightarrow> r < 366 \<Longrightarrow> 0 \<le> k \<Longrightarrow> (- (366 * k + r)) smod 366 = - (r :: int)"
proof -
  assume r: "0 \<le> r" "r < 366" "0 \<le> k"
  then have "(366 * k + r) mod 366 = r" by simp
  then show ?thesis using r by (cases "366 * k + r = 0") (auto simp: signed_modulo_int_def sgn_if)
qed

text \<open>\<open>c\<close> is what \<open>LeapYears\<close> of the following year counts beyond the leap years before it.\<close>

lemma LeapYears_excess:
  "LeapYears (y + 1) = leap_count y + (if 0 \<le> y \<and> IsLeapYear (y + 1) then 1 else 0)"
  using leap_count_step [of "y + 1"] by (auto simp: LeapYears_count)

lemma update_year_True:
  assumes "year_loop n 0 0 = (ds, yr)" "ds smod 366 = d" "yr + 1970 = y0"
    and "d1 = (if 0 < y0 \<and> IsLeapYear y0 then d + 1 else d)" "y1 = (if d1 < 0 then y0 - 1 else y0)"
  shows "update_year True n = (y1, if d1 + 1 \<le> 0 then d1 + 1 + year_length y1 else d1 + 1)"
  using assms by (simp add: update_year_def Let_def year_length_def)

lemma update_year_negative:
  assumes "n < 0" "year_start y \<le> n" "n < year_start (y + 1)"
  shows "update_year True n = (y, n - year_start y + 1)"
proof -
  define j where "j = 1969 - y"
  define f where "f = year_start (y + 1) - n"
  define c where "c = (if 0 \<le> y \<and> IsLeapYear (y + 1) then 1 else 0 :: int)"
  have j: "0 \<le> j"
  proof (rule ccontr)
    assume "\<not> 0 \<le> j"
    then have "year_start 1970 \<le> year_start y" by (intro year_start_mono) (simp add: j_def)
    then show False using assms by simp
  qed
  have y: "y = 1969 - j" by (simp add: j_def)
  have f: "0 < f" "f \<le> year_length y" using assms year_start_step [of y] by (auto simp: f_def)
  have n: "n = - 365 * j + leap_count y - f" by (simp add: f_def year_start_def y)
  have dj: "year_delta (- j) = - j - leap_count y - c"
    using LeapYears_excess [of y] by (simp add: year_delta_def c_def y)
  have dj1: "year_delta (- (j + 1)) = - (j + 1) - leap_count y + (if 0 < y then 0 else if IsLeapYear y then 1 else 0)"
    using LeapYears_excess [of "y - 1"] leap_count_step [of y] by (auto simp: year_delta_def y)
  have above: "year_next n z < z" if z: "- j < z" "z \<le> 0" for z
  proof -
    have "leap_count (1969 + z) \<le> LeapYears (1970 + z)"
      using LeapYears_excess [of "1969 + z"] by (simp split: if_splits)
    moreover have "leap_count y \<le> leap_count (1969 + z)" using z by (intro leap_count_mono) (simp add: y)
    moreover have "365 - 365 * j \<le> 365 * z" using z by simp
    ultimately have "n + year_delta z \<le> - (366 * (1 - z) + 0)"
      using f by (simp add: n year_delta_def add.commute)
    then have "year_next n z \<le> (- (366 * (1 - z) + 0)) sdiv 366" unfolding year_next_def by (rule sdiv_366_mono)
    also have "\<dots> = - (1 - z)" using z by (intro sdiv_neg_mult) simp_all
    finally show ?thesis by simp
  qed
  have d0: "year_delta 0 = 0" by (simp add: year_delta_def)
  have c01: "c = 0 \<or> c = 1 \<and> 0 \<le> y \<and> IsLeapYear (y + 1)" by (simp add: c_def)
  have len: "year_length y = 365 \<and> \<not> IsLeapYear y \<or> year_length y = 366 \<and> IsLeapYear y"
    by (simp add: year_length_def)
  have yd: "n - year_start y + 1 = year_length y - f + 1" using year_start_step [of y] by (simp add: f_def)
  show ?thesis
  proof (cases "f + c < 366")
    case True
    have e: "n + year_delta (- j) = - (366 * j + (f + c))" by (simp add: n dj)
    have "year_next n (- j) = - j"
      unfolding year_next_def e using True j f c01 by (intro sdiv_neg_mult) auto
    from year_loop_down [OF this _ above, of 0] j
    have l: "year_loop n 0 0 = (- (366 * j + (f + c)), - j)" by (simp add: d0 e)
    have m: "(- (366 * j + (f + c))) smod 366 = - (f + c)" using True j f c01 by (intro smod_neg_mult) auto
    have "- j + 1970 = y + 1" by (simp add: y)
    from update_year_True [OF l m this refl refl] show ?thesis
      unfolding yd using c01 len f not_leap_1 by (auto simp: c_def split: if_splits)
  next
    case False
    have two: "\<not> (IsLeapYear y \<and> IsLeapYear (y + 1))"
      using dvd_diff [of 4 "y + 1" y] dvd_trans [of 4 400 y] dvd_trans [of 4 400 "y + 1"]
      by (auto simp: IsLeapYear_iff)
    define r where "r = f - 365 - (if 0 < y then 0 else if IsLeapYear y then 1 else 0 :: int)"
    have r: "r = 0 \<and> (IsLeapYear y \<longrightarrow> \<not> 0 < y) \<or> r = 1 \<and> 0 < y \<and> IsLeapYear y"
      and last: "f = year_length y"
      using False f len c01 two not_leap_1 by (auto simp: r_def c_def split: if_splits)
    have e: "n + year_delta (- j) = - (366 * (j + 1) + (f + c - 366))" by (simp add: n dj)
    have "year_next n (- j) = - (j + 1)"
      unfolding year_next_def e using False j f c01 len by (intro sdiv_neg_mult) auto
    then have above': "year_next n z < z" if "- (j + 1) < z" "z \<le> 0" for z
      using above [of z] that by (cases "z = - j") auto
    have e1: "n + year_delta (- (j + 1)) = - (366 * (j + 1) + r)" unfolding dj1 by (simp add: n r_def)
    have "year_next n (- (j + 1)) = - (j + 1)"
      unfolding year_next_def e1 using r j by (intro sdiv_neg_mult) auto
    from year_loop_down [OF this _ above', of 0] j
    have l: "year_loop n 0 0 = (- (366 * (j + 1) + r), - (j + 1))" by (simp only: d0 e1) simp
    have m: "(- (366 * (j + 1) + r)) smod 366 = - r" using r j by (intro smod_neg_mult) auto
    have b: "- (j + 1) + 1970 = y" by (simp add: y)
    from update_year_True [OF l m b refl refl] show ?thesis
      unfolding yd last using r by auto
  qed
qed

end
