(* ===== verification/Dates.thy ===== *)
theory Dates
  imports Calendar
begin

text \<open>
  Mona/Timing/Date.cpp: the operations of a date on its state: the refresh from a time, the time of the
  fields, the offset, the constructors, the getters and the setters. A getter of the code may refresh the
  mutable fields, so it returns the date too. The 8-bit casts of the code are written out (\<open>to_u8\<close>).
  The lemmas show that the fields refreshed from a time are the Gregorian date and the clock of that time
  in the offset of the date, that the time of valid fields is that time again, that every setter keeps
  the fields in range, and where the code departs from the calendar.
\<close>

definition to_u8 :: "int \<Rightarrow> nat" where
  "to_u8 x = nat (x mod 256)"

section \<open>Refresh from a time\<close>

text \<open>\<open>_offset = Timezone::Offset( *this, _isDST)\<close> for the local zone, with the year the date has at that moment.\<close>

definition local_offset :: "zone \<Rightarrow> date \<Rightarrow> date" where
  "local_offset z d =
     (case zone_at z (tm d) (dyear d) of
        (offset, isDST) \<Rightarrow> d\<lparr>doffset := offset, disDST := isDST, disLocal := True\<rparr>)"

function month_loop :: "bool \<Rightarrow> nat \<Rightarrow> int \<Rightarrow> int \<Rightarrow> nat \<times> int" where
  "month_loop isLeap month cnt days =
     (if month < 12 \<and> days > MonthDays isLeap ! month
      then month_loop isLeap (month + 1) (MonthDays isLeap ! month) days
      else (month, cnt))"
  by pat_completeness auto
termination
  by (relation "measure (\<lambda>(isLeap, month, cnt, days). 12 - month)") auto

declare month_loop.simps [simp del]

definition update_fields :: "int \<Rightarrow> date \<Rightarrow> date" where
  "update_fields time d =
     (let days = time div 86400000;
          d = computeWeekDay days d;
          (year, days) = update_year (time < 0) days;
          (month, cnt) = month_loop (IsLeapYear year) 1 0 days;
          time = time smod 86400000;
          time = (if time < 0 then time + 86400000 else time);
          hour = time sdiv 3600000; time = time smod 3600000;
          minute = time sdiv 60000; time = time smod 60000;
          second = time sdiv 1000; time = time smod 1000
      in d\<lparr>dyear := year, dmonth := month, dday := to_u8 (days - cnt), dhour := to_u8 hour,
           dminute := to_u8 minute, dsecond := to_u8 second, dmillisecond := nat time\<rparr>)"

definition update_time :: "zone \<Rightarrow> int \<Rightarrow> int \<Rightarrow> date \<Rightarrow> date" where
  "update_time z time offset d =
     (let d = d\<lparr>tm := time\<rparr>
      in if dday d = 0 then d\<lparr>doffset := offset\<rparr>
         else
           (let d = d\<lparr>dchanged := False, doffset := offset, disLocal := False, disDST := False\<rparr>;
                d = (if doffset d = GMT then d\<lparr>doffset := 0\<rparr>
                     else if doffset d = LOCAL then local_offset z d else d)
            in update_fields (time + doffset d) d))"

text \<open>\<open>update(int64_t time)\<close>, for \<open>operator=\<close>, \<open>+=\<close> and \<open>-=\<close>.\<close>

definition update_to :: "zone \<Rightarrow> int \<Rightarrow> date \<Rightarrow> date" where
  "update_to z time d = update_time z time (if disLocal d then LOCAL else doffset d) d"

definition init :: "zone \<Rightarrow> date \<Rightarrow> date" where
  "init z d = update_time z (tm d) (doffset d) (d\<lparr>dday := 1\<rparr>)"

definition inited :: "zone \<Rightarrow> date \<Rightarrow> date" where
  "inited z d = (if dday d = 0 then init z d else d)"

section \<open>The time of the fields\<close>

definition clock_of :: "date \<Rightarrow> int" where
  "clock_of d = int (dhour d) * 3600000 + int (dminute d) * 60000 + int (dsecond d) * 1000 + int (dmillisecond d)"

definition Date_clock :: "zone \<Rightarrow> date \<Rightarrow> int \<times> date" where
  "Date_clock z d = (let d = inited z d in (clock_of d, d))"

definition Date_time :: "zone \<Rightarrow> date \<Rightarrow> int \<times> date" where
  "Date_time z d =
     (if \<not> dchanged d then (tm d, d)
      else
        (let time = int (dday d) - 1 + LeapYears (dyear d);
             isLeap = IsLeapYear (dyear d);
             time = (if isLeap \<and> dyear d > 0 then time - 1 else time);
             time = time + MonthDays isLeap ! (dmonth d - 1);
             time = time + (dyear d - 1970) * 365;
             time = time * 86400000 + clock_of d;
             d = d\<lparr>dchanged := False, dweekDay := 7\<rparr>;
             d = (if doffset d = GMT then d\<lparr>disLocal := False, disDST := False, doffset := 0\<rparr>
                  else if doffset d = LOCAL \<or> disLocal d then local_offset z (d\<lparr>tm := time\<rparr>)
                  else d\<lparr>disLocal := False\<rparr>)
         in (time - doffset d, d\<lparr>tm := time - doffset d\<rparr>)))"

definition Date_offset :: "zone \<Rightarrow> date \<Rightarrow> int \<times> date" where
  "Date_offset z d =
     (if dday d = 0 then (let d = init z d in (doffset d, d))
      else if doffset d = GMT then (0, d\<lparr>doffset := 0, disDST := False, disLocal := False\<rparr>)
      else if doffset d \<noteq> LOCAL \<and> \<not> disLocal d then (doffset d, d)
      else
        (let d = (if dchanged d then snd (Date_time z d)
                  else if doffset d = LOCAL then local_offset z d else d)
         in (doffset d, d)))"

definition Date_setOffset :: "zone \<Rightarrow> int \<Rightarrow> date \<Rightarrow> date" where
  "Date_setOffset z offset d =
     (if dday d = 0 \<or> dchanged d then d\<lparr>doffset := offset\<rparr>
      else if offset = LOCAL then
        (if disLocal d then d
         else
           (let offset = (if disDST d then zone_dst z else zone_offset z)
            in d\<lparr>disLocal := True, tm := tm d + doffset d - offset, doffset := offset\<rparr>))
      else if offset = GMT then
        (let d = d\<lparr>disDST := False, disLocal := False\<rparr>
         in if doffset d = 0 then d else d\<lparr>tm := tm d + doffset d - 0, doffset := 0\<rparr>)
      else d\<lparr>tm := tm d + doffset d - offset, doffset := offset\<rparr>)"

text \<open>\<open>update(const Date& date)\<close>: the time of \<open>date\<close> is asked last, after its fields are copied.\<close>

definition update_date :: "zone \<Rightarrow> date \<Rightarrow> date \<Rightarrow> date \<times> date" where
  "update_date z src d =
     (let d = d\<lparr>dyear := dyear src, dmonth := dmonth src, dday := dday src, dweekDay := dweekDay src,
                dhour := dhour src, dminute := dminute src, dsecond := dsecond src,
                dmillisecond := dmillisecond src, doffset := doffset src, disLocal := disLocal src,
                disDST := disDST src\<rparr>;
          (time, src) = Date_time z src
      in (d\<lparr>tm := time\<rparr>, src))"

section \<open>Setters\<close>

definition setYear :: "zone \<Rightarrow> int \<Rightarrow> date \<Rightarrow> date" where
  "setYear z year d =
     (let d = inited z d in if year = dyear d then d else d\<lparr>dchanged := True, dyear := year\<rparr>)"

definition setMonth :: "zone \<Rightarrow> nat \<Rightarrow> date \<Rightarrow> date" where
  "setMonth z month d =
     (let month = (if month < 1 then 1 else if month > 12 then 12 else month);
          d = inited z d
      in if month = dmonth d then d else d\<lparr>dchanged := True, dmonth := month\<rparr>)"

text \<open>The day a month of the year takes for a requested one.\<close>

definition clamp_day :: "int \<Rightarrow> nat \<Rightarrow> nat \<Rightarrow> nat" where
  "clamp_day year month day =
     (let day = (if day < 1 then 1 else if day > 31 then 31 else day)
      in if day > 28 then
           (if month < 8 then
              (if month = 2 then
                 (let day = (if day \<ge> 30 then 29 else day)
                  in if day = 29 \<and> \<not> IsLeapYear year then 28 else day)
               else if day = 31 \<and> month AND 0x01 = 0 then 30 else day)
            else if day = 31 then (if month AND 0x01 \<noteq> 0 then 30 else day)
            else day)
         else day)"

definition setDay :: "zone \<Rightarrow> nat \<Rightarrow> date \<Rightarrow> date" where
  "setDay z day d =
     (let d = inited z d
      in if day = dday d then d
         else
           (let day = clamp_day (dyear d) (dmonth d) day
            in if day = dday d then d else d\<lparr>dchanged := True, dday := day\<rparr>))"

definition setHour :: "zone \<Rightarrow> nat \<Rightarrow> date \<Rightarrow> date" where
  "setHour z hour d =
     (let d = inited z d;
          hour = (if hour > 59 then 59 else hour)
      in if hour = dhour d then d else d\<lparr>dchanged := True, dhour := hour\<rparr>)"

definition setMinute :: "zone \<Rightarrow> nat \<Rightarrow> date \<Rightarrow> date" where
  "setMinute z minute d =
     (let d = inited z d;
          minute = (if minute > 59 then 59 else minute)
      in if minute = dminute d then d else d\<lparr>dchanged := True, dminute := minute\<rparr>)"

definition setSecond :: "zone \<Rightarrow> nat \<Rightarrow> date \<Rightarrow> date" where
  "setSecond z second d =
     (let d = inited z d;
          second = (if second > 59 then 59 else second)
      in if second = dsecond d then d else d\<lparr>dchanged := True, dsecond := second\<rparr>)"

definition setMillisecond :: "zone \<Rightarrow> nat \<Rightarrow> date \<Rightarrow> date" where
  "setMillisecond z millisecond d =
     (let d = inited z d;
          millisecond = (if millisecond > 999 then 999 else millisecond)
      in if millisecond = dmillisecond d then d
         else
           (let d = (if \<not> dchanged d
                     then (case Date_time z d of
                             (t, d) \<Rightarrow> d\<lparr>tm := t - int (dmillisecond d) + int millisecond\<rparr>)
                     else d)
            in d\<lparr>dmillisecond := millisecond\<rparr>))"

definition setClock4 :: "zone \<Rightarrow> nat \<Rightarrow> nat \<Rightarrow> nat \<Rightarrow> nat \<Rightarrow> date \<Rightarrow> date" where
  "setClock4 z hour minute second millisecond d =
     setMillisecond z millisecond (setSecond z second (setMinute z minute (setHour z hour d)))"

definition setClock :: "zone \<Rightarrow> int \<Rightarrow> date \<Rightarrow> date" where
  "setClock z clock d =
     (let d = setHour z (to_u8 (clock div 3600000)) d;
          clock = clock mod 3600000;
          d = setMinute z (to_u8 (clock div 60000)) d;
          clock = clock mod 60000;
          d = setSecond z (to_u8 (clock div 1000)) d
      in setMillisecond z (nat (clock mod 1000)) d)"

definition Date_weekDay :: "zone \<Rightarrow> date \<Rightarrow> nat \<times> date" where
  "Date_weekDay z d =
     (let d = (if dday d = 0 then init z d
               else if dchanged d \<or> dweekDay d = 7 then
                 (case Date_time z d of (time, d) \<Rightarrow>
                    (case Date_offset z d of (offset, d) \<Rightarrow>
                       computeWeekDay ((time + offset) div 86400000) d))
               else d)
      in (dweekDay d, d))"

text \<open>\<open>delta\<close> is an \<open>int8_t\<close>, and \<open>setDay\<close> takes a \<open>uint8_t\<close>: a negative day wraps to a large one.\<close>

definition setWeekDay :: "zone \<Rightarrow> nat \<Rightarrow> date \<Rightarrow> date" where
  "setWeekDay z weekDay d =
     (let weekDay = weekDay mod 7;
          (w, d) = Date_weekDay z d;
          delta = int weekDay - int w
      in if delta = 0 then d
         else
           (let d = inited z d;
                d = setDay z (to_u8 (int (dday d) + delta)) d;
                (w, d) = Date_weekDay z d
            in if w = weekDay then d
               else
                 (let delta = (if delta > 0 then delta - 7 else delta + 7)
                  in setDay z (to_u8 (int (dday d) + delta)) d)))"

text \<open>\<open>yearDay()\<close>: \<open>_MonthDays[leap][_month]\<close> with \<open>_month\<close> from 1 to 12 is out of the row in December: None.\<close>

definition Date_yearDay :: "zone \<Rightarrow> date \<Rightarrow> int option \<times> date" where
  "Date_yearDay z d =
     (let d = inited z d;
          row = MonthDays (IsLeapYear (dyear d))
      in (if dmonth d < length row then Some ((int (dday d) + row ! dmonth d - 1) mod 65536) else None, d))"

function yearDay_month :: "bool \<Rightarrow> nat \<Rightarrow> int \<Rightarrow> nat" where
  "yearDay_month isLeap month yearDay =
     (if month < 12 \<and> yearDay > MonthDays isLeap ! month then yearDay_month isLeap (month + 1) yearDay
      else month)"
  by pat_completeness auto
termination
  by (relation "measure (\<lambda>(isLeap, month, yearDay). 12 - month)") auto

declare yearDay_month.simps [simp del]

definition setYearDay :: "zone \<Rightarrow> int \<Rightarrow> date \<Rightarrow> date" where
  "setYearDay z yearDay d =
     (let d = inited z d;
          isLeap = IsLeapYear (dyear d);
          month = yearDay_month isLeap 1 yearDay
      in setDay z (to_u8 (yearDay - MonthDays isLeap ! (month - 1))) (setMonth z month d))"

section \<open>From a date and a clock\<close>

definition update_ymd :: "zone \<Rightarrow> int \<Rightarrow> nat \<Rightarrow> nat \<Rightarrow> date \<Rightarrow> date" where
  "update_ymd z year month day d = setDay z day (setMonth z month (setYear z year d))"

definition update_ymd_clock :: "zone \<Rightarrow> int \<Rightarrow> nat \<Rightarrow> nat \<Rightarrow> nat \<Rightarrow> nat \<Rightarrow> nat \<Rightarrow> nat \<Rightarrow> date \<Rightarrow> date" where
  "update_ymd_clock z year month day hour minute second millisecond d =
     setDay z day (setClock4 z hour minute second millisecond (setMonth z month (setYear z year d)))"

definition null_date :: date where
  "null_date =
     \<lparr>tm = 0, dyear = 0, dmonth = 0, dday = 0, dweekDay = 7, dhour = 0, dminute = 0, dsecond = 0,
      dmillisecond = 0, doffset = 0, disDST = False, disLocal = True, dchanged = True\<rparr>"

definition Date_ymd :: "zone \<Rightarrow> int \<Rightarrow> nat \<Rightarrow> nat \<Rightarrow> int \<Rightarrow> date" where
  "Date_ymd z year month day offset = Date_setOffset z offset (update_ymd z year month day null_date)"

definition Date_ymd_clock :: "zone \<Rightarrow> int \<Rightarrow> nat \<Rightarrow> nat \<Rightarrow> nat \<Rightarrow> nat \<Rightarrow> nat \<Rightarrow> nat \<Rightarrow> int \<Rightarrow> date" where
  "Date_ymd_clock z year month day hour minute second millisecond offset =
     Date_setOffset z offset (update_ymd_clock z year month day hour minute second millisecond null_date)"

definition Date_from_clock :: "zone \<Rightarrow> nat \<Rightarrow> nat \<Rightarrow> nat \<Rightarrow> nat \<Rightarrow> date" where
  "Date_from_clock z hour minute second millisecond =
     setClock4 z hour minute second millisecond
       \<lparr>tm = 0, dyear = 0, dmonth = 1, dday = 1, dweekDay = 4, dhour = 0, dminute = 0, dsecond = 0,
        dmillisecond = 0, doffset = 0, disDST = False, disLocal = False, dchanged = False\<rparr>"

definition Date_isGMT :: "zone \<Rightarrow> date \<Rightarrow> bool \<times> date" where
  "Date_isGMT z d = (case Date_offset z (inited z d) of (offset, d) \<Rightarrow> (offset = 0 \<and> \<not> disLocal d, d))"

definition Date_isDST :: "zone \<Rightarrow> date \<Rightarrow> bool \<times> date" where
  "Date_isDST z d = (let d = snd (Date_offset z d) in (disDST d, d))"

section \<open>Fields of a time\<close>

definition month_length :: "bool \<Rightarrow> nat \<Rightarrow> int" where
  "month_length leap m =
     (if m < 12 then MonthDays leap ! m else if leap then 366 else 365) - MonthDays leap ! (m - 1)"

lemma twelve: "1 \<le> m \<Longrightarrow> m \<le> 12 \<Longrightarrow> m \<in> {1, 2, 3, 4, 5, 6, 7, 8, 9, 10, 11, 12 :: nat}"
  by (simp, presburger)

lemma month_lengths: "map (month_length leap) [1..<13] =
    [31, if leap then 29 else 28, 31, 30, 31, 30, 31, 31, 30, 31, 30, 31]"
  by (simp add: month_length_def MonthDays_def upt_rec numeral_2_eq_2 [symmetric] numeral_3_eq_3 [symmetric])

lemma month_length_le: "1 \<le> m \<Longrightarrow> m \<le> 12 \<Longrightarrow> 28 \<le> month_length leap m \<and> month_length leap m \<le> 31"
  by (drule (1) twelve) (auto simp: month_length_def MonthDays_def)

definition date_days :: "date \<Rightarrow> int" where
  "date_days d = year_start (dyear d) + MonthDays (IsLeapYear (dyear d)) ! (dmonth d - 1) + int (dday d) - 1"

text \<open>The fields are a day of the Gregorian calendar and a clock.\<close>

definition valid_fields :: "date \<Rightarrow> bool" where
  "valid_fields d \<longleftrightarrow> 1 \<le> dmonth d \<and> dmonth d \<le> 12 \<and> 1 \<le> dday d \<and>
     int (dday d) \<le> month_length (IsLeapYear (dyear d)) (dmonth d) \<and>
     dhour d < 24 \<and> dminute d < 60 \<and> dsecond d < 60 \<and> dmillisecond d < 1000"

lemma month_loop_month:
  assumes "month_loop leap month cnt days = (m, c)" "1 \<le> month" "month \<le> 12"
    "cnt = MonthDays leap ! (month - 1)" "cnt < days" "days \<le> (if leap then 366 else 365)"
  shows "1 \<le> m \<and> m \<le> 12 \<and> c = MonthDays leap ! (m - 1) \<and> c < days \<and> days - c \<le> month_length leap m"
  using assms
proof (induction leap month cnt days rule: month_loop.induct)
  case (1 leap month cnt days)
  note unroll = month_loop.simps [of leap month cnt days]
  show ?case
  proof (cases "month < 12 \<and> days > MonthDays leap ! month")
    case True
    then have "month_loop leap (month + 1) (MonthDays leap ! month) days = (m, c)" using 1(2) unroll by metis
    then show ?thesis using True 1(3-) by (intro 1(1) [OF True]) auto
  next
    case False
    then have "month_loop leap month cnt days = (month, cnt)" using unroll by presburger
    then have "m = month" "c = cnt" using 1(2) by simp_all
    then show ?thesis using False 1(3-) by (auto simp: month_length_def)
  qed
qed

lemma smod_day: "(if x smod 86400000 < 0 then x smod 86400000 + 86400000 else x smod 86400000) = x mod (86400000 :: int)"
proof (cases "0 \<le> x")
  case True
  then show ?thesis by (simp add: signed_modulo_int_def sgn_if not_less)
next
  case False
  then have s: "x smod 86400000 = - ((- x) mod 86400000)" by (simp add: signed_modulo_int_def sgn_if)
  have m: "0 \<le> (- x) mod 86400000" "(- x) mod 86400000 < 86400000" by simp_all
  have "x mod 86400000 = (if (- x) mod 86400000 = 0 then 0 else 86400000 - (- x) mod 86400000)"
    using zmod_zminus1_eq_if [of "- x" 86400000] by simp
  then show ?thesis using s m by auto
qed

lemma clock_fields:
  fixes x :: int
  assumes "0 \<le> x" "x < 86400000"
  shows "int (to_u8 (x sdiv 3600000)) * 3600000 + int (to_u8 ((x smod 3600000) sdiv 60000)) * 60000
      + int (to_u8 ((x smod 3600000 smod 60000) sdiv 1000)) * 1000 + int (nat (x smod 3600000 smod 60000 smod 1000)) = x
    \<and> to_u8 (x sdiv 3600000) < 24 \<and> to_u8 ((x smod 3600000) sdiv 60000) < 60
    \<and> to_u8 ((x smod 3600000 smod 60000) sdiv 1000) < 60 \<and> nat (x smod 3600000 smod 60000 smod 1000) < 1000"
proof -
  have n: "y smod k = y mod k" "y sdiv k = y div k" if "0 \<le> y" "0 < k" for y k :: int
    using that by (simp_all add: signed_modulo_int_def signed_divide_int_def sgn_if)
  define p1 where "p1 = x mod 3600000"
  define p2 where "p2 = p1 mod 60000"
  define p3 where "p3 = p2 mod 1000"
  have p: "0 \<le> p1" "p1 < 3600000" "0 \<le> p2" "p2 < 60000" "0 \<le> p3" "p3 < 1000"
    by (simp_all add: p1_def p2_def p3_def)
  define q1 where "q1 = x div 3600000"
  define q2 where "q2 = p1 div 60000"
  define q3 where "q3 = p2 div 1000"
  have x: "x = q1 * 3600000 + p1" "p1 = q2 * 60000 + p2" "p2 = q3 * 1000 + p3"
    by (simp_all add: p1_def p2_def p3_def q1_def q2_def q3_def)
  have q: "0 \<le> q1" "q1 < 24" "0 \<le> q2" "q2 < 60" "0 \<le> q3" "q3 < 60"
    using assms p x by linarith+
  have r: "x smod 3600000 = p1" "x sdiv 3600000 = q1" "p1 smod 60000 = p2" "p1 sdiv 60000 = q2"
      "p2 smod 1000 = p3" "p2 sdiv 1000 = q3"
    using assms p by (simp_all only: n p1_def p2_def p3_def q1_def q2_def q3_def)
  have u: "int (to_u8 y) = y" "to_u8 y < 24 \<longleftrightarrow> y < 24" "to_u8 y < 60 \<longleftrightarrow> y < 60" if "0 \<le> y" "y < 60" for y
    using that by (simp_all add: to_u8_def nat_less_iff)
  have v: "int (nat p3) = p3" "nat p3 < 1000" using p by (simp_all add: nat_less_iff)
  have "q1 * 3600000 + q2 * 60000 + q3 * 1000 + p3 = x" using x by linarith
  then show ?thesis using q v u [of q1] u [of q2] u [of q3] by (simp only: r)
qed

lemma computeWeekDay_mod: "computeWeekDay n d = d\<lparr>dweekDay := nat ((n + 4) mod 7)\<rparr>"
proof -
  let ?x = "n + 4"
  have "(if ?x < 0 then (?x + 1) smod 7 + 6 else ?x smod 7) = ?x mod 7"
  proof (cases "?x < 0")
    case True
    define k where "k = - ?x - 1"
    have k: "0 \<le> k" "?x = - k - 1" using True by (simp_all add: k_def)
    have "(?x + 1) smod 7 = - (k mod 7)" using k by (simp add: signed_modulo_int_def sgn_if)
    moreover have "(- k - 1) mod 7 = 6 - k mod 7"
    proof -
      have "- k - 1 = (6 - k mod 7) + (- (k div 7) - 1) * 7" by (simp add: algebra_simps minus_mult_div_eq_mod [symmetric])
      moreover have "0 \<le> 6 - k mod 7" "6 - k mod 7 < 7" using pos_mod_bound [of 7 k] pos_mod_sign [of 7 k] by auto
      ultimately show ?thesis by (metis mod_mult_self1 mod_pos_pos_trivial)
    qed
    ultimately show ?thesis using True k(2) by (simp only: if_True)
  qed (simp add: signed_modulo_int_def sgn_if)
  moreover have "nat (?x mod 7 mod 256) = nat (?x mod 7)" by (simp add: mod_pos_pos_trivial)
  ultimately show ?thesis by (auto simp: computeWeekDay_def Let_def split: if_splits)
qed

lemma update_fields_civil:
  "valid_fields (update_fields t d) \<and> date_days (update_fields t d) = t div 86400000 \<and>
   clock_of (update_fields t d) = t mod 86400000 \<and>
   dweekDay (update_fields t d) = nat ((t div 86400000 + 4) mod 7)"
proof -
  let ?n = "t div 86400000"
  obtain y where y: "year_start y \<le> ?n" "?n < year_start (y + 1)" using year_exists by blast
  have neg: "t < 0 \<longleftrightarrow> ?n < 0" by (simp add: pos_imp_zdiv_neg_iff)
  have uy: "update_year (t < 0) ?n = (y, ?n - year_start y + 1)"
    using update_year_positive [OF _ y] update_year_negative [OF _ y] neg by (cases "t < 0") auto
  define yd where "yd = ?n - year_start y + 1"
  have yd: "0 < yd" "yd \<le> (if IsLeapYear y then 366 else 365)"
    using y year_start_step [of y] by (auto simp: yd_def year_length_def)
  obtain m c where ml: "month_loop (IsLeapYear y) 1 0 yd = (m, c)" by fastforce
  have mc: "1 \<le> m" "m \<le> 12" "c = MonthDays (IsLeapYear y) ! (m - 1)" "c < yd"
      "yd - c \<le> month_length (IsLeapYear y) m"
    using month_loop_month [OF ml] yd by (auto simp: MonthDays_def)
  have day: "int (to_u8 (yd - c)) = yd - c"
    using mc month_length_le [of m "IsLeapYear y"] by (auto simp: to_u8_def)
  define x where "x = t mod 86400000"
  have x: "0 \<le> x" "x < 86400000" by (simp_all add: x_def)
  have f: "update_fields t d = (computeWeekDay ?n d)\<lparr>dyear := y, dmonth := m, dday := to_u8 (yd - c),
      dhour := to_u8 (x sdiv 3600000), dminute := to_u8 ((x smod 3600000) sdiv 60000),
      dsecond := to_u8 ((x smod 3600000 smod 60000) sdiv 1000),
      dmillisecond := nat (x smod 3600000 smod 60000 smod 1000)\<rparr>"
    unfolding update_fields_def Let_def smod_day x_def [symmetric] uy prod.case yd_def [symmetric] ml by simp
  show ?thesis
    unfolding f computeWeekDay_mod
    using clock_fields [OF x] mc day yd
    by (simp add: valid_fields_def date_days_def clock_of_def x_def yd_def)
qed

section \<open>Time of the fields\<close>

lemma LeapYears_year_start:
  "LeapYears y - (if IsLeapYear y \<and> y > 0 then 1 else 0) + (y - 1970) * 365 = year_start y"
  using leap_count_step [of y] by (auto simp: LeapYears_count year_start_def)

text \<open>The offset a date applies to its fields, when it is not the one of the local zone.\<close>

definition fixed_offset :: "int \<Rightarrow> int" where
  "fixed_offset offset = (if offset = GMT then 0 else offset)"

definition fixed :: "date \<Rightarrow> bool" where
  "fixed d \<longleftrightarrow> doffset d = GMT \<or> doffset d \<noteq> LOCAL \<and> \<not> disLocal d"

lemma Date_time_changed:
  assumes "dchanged d" "fixed d"
  shows "Date_time z d =
    (let t = date_days d * 86400000 + clock_of d - fixed_offset (doffset d)
     in (t, d\<lparr>dchanged := False, dweekDay := 7, disLocal := False,
               disDST := (if doffset d = GMT then False else disDST d),
               doffset := fixed_offset (doffset d), tm := t\<rparr>))"
proof -
  let ?l = "IsLeapYear (dyear d)"
  let ?base = "int (dday d) - 1 + LeapYears (dyear d)"
  have e: "(if ?l \<and> dyear d > 0 then ?base - 1 else ?base) + MonthDays ?l ! (dmonth d - 1) + (dyear d - 1970) * 365 = date_days d"
    using LeapYears_year_start [of "dyear d"] by (auto simp: date_days_def)
  have g: "GMT \<noteq> LOCAL" by (simp add: GMT_def LOCAL_def)
  show ?thesis
    unfolding Date_time_def Let_def e using assms g
    by (auto simp: fixed_def fixed_offset_def clock_of_def)
qed

lemma update_time_fields:
  assumes "dday d \<noteq> 0" "offset \<noteq> LOCAL"
  shows "update_time z t offset d = update_fields (t + fixed_offset offset)
    (d\<lparr>tm := t, dchanged := False, doffset := fixed_offset offset, disLocal := False, disDST := False\<rparr>)"
proof -
  have g: "GMT \<noteq> LOCAL" by (simp add: GMT_def LOCAL_def)
  show ?thesis
  proof (cases "offset = GMT")
    case True
    then show ?thesis using assms g
      by (simp add: update_time_def fixed_offset_def Let_def)
         (rule arg_cong [where f = "update_fields t"], simp)
  next
    case False
    then show ?thesis using assms by (simp add: update_time_def fixed_offset_def Let_def)
  qed
qed

lemma update_fields_rest [simp]:
  "tm (update_fields t d) = tm d" "doffset (update_fields t d) = doffset d" "disLocal (update_fields t d) = disLocal d"
  "disDST (update_fields t d) = disDST d" "dchanged (update_fields t d) = dchanged d"
  by (simp_all add: update_fields_def Let_def computeWeekDay_mod split: prod.split)

section \<open>Ranges\<close>

text \<open>What the setters keep: a month that exists, a day up to 31, an hour up to 59.\<close>

definition date_inv :: "date \<Rightarrow> bool" where
  "date_inv d \<longleftrightarrow> dday d = 0 \<or>
     1 \<le> dmonth d \<and> dmonth d \<le> 12 \<and> 1 \<le> dday d \<and> dday d \<le> 31 \<and>
     dhour d < 60 \<and> dminute d < 60 \<and> dsecond d < 60 \<and> dmillisecond d < 1000"

lemma valid_date_inv: "valid_fields d \<Longrightarrow> date_inv d"
  using month_length_le [of "dmonth d" "IsLeapYear (dyear d)"] by (auto simp: valid_fields_def date_inv_def)

lemma date_inv_update_time [simp]: "dday d \<noteq> 0 \<Longrightarrow> date_inv (update_time z t offset d) \<and> dday (update_time z t offset d) \<noteq> 0"
proof -
  assume d: "dday d \<noteq> 0"
  have "valid_fields (update_time z t offset d)"
    using d update_fields_civil by (simp add: update_time_def Let_def)
  then show ?thesis using valid_date_inv by (auto simp: valid_fields_def)
qed

lemma inited_day [simp]: "dday (inited z d) \<noteq> 0" "0 < dday (inited z d)"
proof -
  show "dday (inited z d) \<noteq> 0" by (cases "dday d = 0") (simp_all add: inited_def init_def del: neq0_conv)
  then show "0 < dday (inited z d)" by simp
qed

lemma date_inv_weekDay_update [simp]: "date_inv (d\<lparr>dweekDay := w\<rparr>) = date_inv d"
  by (simp add: date_inv_def)

lemma date_inv_inited [simp]: "date_inv d \<Longrightarrow> date_inv (inited z d)"
  by (simp add: inited_def init_def)

lemma clamp_day_range: "1 \<le> clamp_day y m d \<and> clamp_day y m d \<le> 31"
  by (auto simp: clamp_day_def Let_def)

lemma date_inv_local [simp]: "date_inv (local_offset z d) = date_inv d" "dday (local_offset z d) = dday d"
  by (simp_all add: local_offset_def date_inv_def split: prod.split)

lemma date_inv_time [simp]: "date_inv (snd (Date_time z d)) = date_inv d" "dday (snd (Date_time z d)) = dday d"
  by (auto simp: Date_time_def Let_def date_inv_def local_offset_def split: prod.split)

lemma date_inv_setYear [simp]: "date_inv d \<Longrightarrow> date_inv (setYear z y d)"
  using date_inv_inited [of d z] by (auto simp: setYear_def Let_def date_inv_def)

lemma date_inv_setMonth [simp]: "date_inv d \<Longrightarrow> date_inv (setMonth z m d)"
  using date_inv_inited [of d z] by (auto simp: setMonth_def Let_def date_inv_def)

lemma date_inv_setDay [simp]: "date_inv d \<Longrightarrow> date_inv (setDay z k d)"
  using date_inv_inited [of d z] clamp_day_range [of "dyear (inited z d)" "dmonth (inited z d)" k]
  by (auto simp: setDay_def Let_def date_inv_def)

lemma date_inv_setHour [simp]: "date_inv d \<Longrightarrow> date_inv (setHour z k d)"
  using date_inv_inited [of d z] by (auto simp: setHour_def Let_def date_inv_def)

lemma date_inv_setMinute [simp]: "date_inv d \<Longrightarrow> date_inv (setMinute z k d)"
  using date_inv_inited [of d z] by (auto simp: setMinute_def Let_def date_inv_def)

lemma date_inv_setSecond [simp]: "date_inv d \<Longrightarrow> date_inv (setSecond z k d)"
  using date_inv_inited [of d z] by (auto simp: setSecond_def Let_def date_inv_def)

lemma date_inv_setMillisecond [simp]:
  assumes "date_inv d"
  shows "date_inv (setMillisecond z k d)"
proof -
  obtain t d' where t: "Date_time z (inited z d) = (t, d')" by fastforce
  have "date_inv d'" "dday d' \<noteq> 0" using assms date_inv_time [of z "inited z d"] by (simp_all add: t)
  then show ?thesis using assms date_inv_inited [of d z]
    by (auto simp: setMillisecond_def Let_def t date_inv_def)
qed

lemma date_inv_offset [simp]: "date_inv d \<Longrightarrow> date_inv (snd (Date_offset z d))"
  by (auto simp: Date_offset_def Let_def init_def) (auto simp: date_inv_def)

lemma date_inv_weekDay [simp]:
  assumes "date_inv d"
  shows "date_inv (snd (Date_weekDay z d))"
proof -
  obtain t d1 where 1: "Date_time z d = (t, d1)" by fastforce
  obtain u d2 where 2: "Date_offset z d1 = (u, d2)" by fastforce
  have "date_inv d1" using assms date_inv_time [of z d] by (simp add: 1)
  then have "date_inv d2" using date_inv_offset [of d1 z] by (simp add: 2)
  then show ?thesis using assms by (simp add: Date_weekDay_def Let_def 1 2 computeWeekDay_mod init_def)
qed

lemma date_inv_setWeekDay [simp]: "date_inv d \<Longrightarrow> date_inv (setWeekDay z k d)"
proof -
  assume d: "date_inv d"
  have w: "date_inv e \<Longrightarrow> Date_weekDay z e = (w, e') \<Longrightarrow> date_inv e'" for e w e'
    using date_inv_weekDay [of e z] by simp
  obtain w d1 where 1: "Date_weekDay z d = (w, d1)" by fastforce
  let ?d2 = "setDay z (to_u8 (int (dday (inited z d1)) + (int (k mod 7) - int w))) (inited z d1)"
  obtain w2 d3 where 2: "Date_weekDay z ?d2 = (w2, d3)" by fastforce
  have "date_inv d1" using w [OF d 1] .
  moreover from this have "date_inv d3" by (intro w [OF _ 2]) simp
  ultimately show ?thesis by (simp add: setWeekDay_def Let_def 1 2)
qed

lemma date_inv_setOffset [simp]: "date_inv d \<Longrightarrow> date_inv (Date_setOffset z k d)"
  by (auto simp: Date_setOffset_def Let_def date_inv_def)

lemma date_inv_setYearDay [simp]: "date_inv d \<Longrightarrow> date_inv (setYearDay z k d)"
  by (simp add: setYearDay_def Let_def)

lemma date_inv_setClock [simp]: "date_inv d \<Longrightarrow> date_inv (setClock z k d)" "date_inv d \<Longrightarrow> date_inv (setClock4 z h m s i d)"
  by (simp_all add: setClock_def setClock4_def Let_def)

lemma date_inv_update_date [simp]: "date_inv src \<Longrightarrow> date_inv (fst (update_date z src d))"
  by (simp add: update_date_def Let_def date_inv_def split: prod.split)

section \<open>Dates in step with their time\<close>

text \<open>A date whose fields and time agree, or that is marked as changed.\<close>

definition synced :: "date \<Rightarrow> bool" where
  "synced d \<longleftrightarrow> dday d \<noteq> 0 \<and> fixed d \<and>
     (\<not> dchanged d \<longrightarrow> doffset d \<noteq> GMT \<and> tm d = date_days d * 86400000 + clock_of d - doffset d)"

lemma synced_time:
  "synced d \<Longrightarrow> fst (Date_time z d) = date_days d * 86400000 + clock_of d - fixed_offset (doffset d)"
proof (cases "dchanged d")
  case True
  then show "synced d \<Longrightarrow> ?thesis" by (simp add: Date_time_changed Let_def synced_def)
next
  case False
  then show "synced d \<Longrightarrow> ?thesis" by (simp add: synced_def Date_time_def fixed_offset_def)
qed

lemma days_clock: "t div 86400000 * 86400000 + t mod 86400000 = (t :: int)"
  by simp

lemma synced_update_time:
  assumes "dday d \<noteq> 0" "offset \<noteq> LOCAL"
  shows "synced (update_time z t offset d)"
proof -
  have "fixed_offset offset \<noteq> GMT" "fixed_offset offset \<noteq> LOCAL"
    using assms by (auto simp: fixed_offset_def GMT_def LOCAL_def)
  then show ?thesis
    unfolding update_time_fields [OF assms] synced_def fixed_def
    using update_fields_civil [of "t + fixed_offset offset" "d\<lparr>tm := t, dchanged := False,
      doffset := fixed_offset offset, disLocal := False, disDST := False\<rparr>"]
    by (auto simp: valid_fields_def)
qed

lemma synced_inited: "dday d = 0 \<Longrightarrow> doffset d \<noteq> LOCAL \<Longrightarrow> synced (inited z d)"
  by (simp add: inited_def init_def synced_update_time)

lemma inited_same [simp]: "dday d \<noteq> 0 \<Longrightarrow> inited z d = d"
  by (simp add: inited_def)

lemma synced_fields:
  "synced d \<Longrightarrow> dday d \<noteq> 0" "synced d \<Longrightarrow> inited z d = d"
  by (simp_all add: synced_def)

lemma fixed_updates [simp]:
  "fixed (d\<lparr>dyear := a\<rparr>) = fixed d" "fixed (d\<lparr>dmonth := n\<rparr>) = fixed d" "fixed (d\<lparr>dday := n\<rparr>) = fixed d"
  "fixed (d\<lparr>dhour := n\<rparr>) = fixed d" "fixed (d\<lparr>dminute := n\<rparr>) = fixed d" "fixed (d\<lparr>dsecond := n\<rparr>) = fixed d"
  "fixed (d\<lparr>dmillisecond := n\<rparr>) = fixed d" "fixed (d\<lparr>dchanged := b\<rparr>) = fixed d" "fixed (d\<lparr>tm := a\<rparr>) = fixed d"
  by (simp_all add: fixed_def)

lemma synced_changed: "dchanged d \<Longrightarrow> synced d \<longleftrightarrow> dday d \<noteq> 0 \<and> fixed d"
  by (simp add: synced_def)

lemma synced_fixed: "synced d \<Longrightarrow> fixed d"
  by (simp add: synced_def)

lemma synced_setYear: "synced d \<Longrightarrow> synced (setYear z y d) \<and> dyear (setYear z y d) = y \<and>
    dmonth (setYear z y d) = dmonth d"
  by (simp add: synced_fields setYear_def Let_def) (auto simp: synced_changed synced_fixed synced_fields)

lemma synced_setMonth: "synced d \<Longrightarrow> 1 \<le> m \<Longrightarrow> m \<le> 12 \<Longrightarrow>
    synced (setMonth z m d) \<and> dmonth (setMonth z m d) = m \<and> dyear (setMonth z m d) = dyear d"
  by (simp add: synced_fields setMonth_def Let_def) (auto simp: synced_changed synced_fixed synced_fields)

lemma synced_setHour: "synced d \<Longrightarrow> h < 60 \<Longrightarrow> synced (setHour z h d) \<and> dhour (setHour z h d) = h \<and>
    dyear (setHour z h d) = dyear d \<and> dmonth (setHour z h d) = dmonth d"
  by (simp add: synced_fields setHour_def Let_def) (auto simp: synced_changed synced_fixed synced_fields)

lemma synced_setMinute: "synced d \<Longrightarrow> h < 60 \<Longrightarrow> synced (setMinute z h d) \<and> dminute (setMinute z h d) = h \<and>
    dyear (setMinute z h d) = dyear d \<and> dmonth (setMinute z h d) = dmonth d \<and> dhour (setMinute z h d) = dhour d"
  by (simp add: synced_fields setMinute_def Let_def) (auto simp: synced_changed synced_fixed synced_fields)

lemma synced_setSecond: "synced d \<Longrightarrow> h < 60 \<Longrightarrow> synced (setSecond z h d) \<and> dsecond (setSecond z h d) = h \<and>
    dyear (setSecond z h d) = dyear d \<and> dmonth (setSecond z h d) = dmonth d \<and> dhour (setSecond z h d) = dhour d \<and>
    dminute (setSecond z h d) = dminute d"
  by (simp add: synced_fields setSecond_def Let_def) (auto simp: synced_changed synced_fixed synced_fields)

lemma synced_setMillisecond: "synced d \<Longrightarrow> h < 1000 \<Longrightarrow>
    synced (setMillisecond z h d) \<and> dmillisecond (setMillisecond z h d) = h \<and>
    dyear (setMillisecond z h d) = dyear d \<and> dmonth (setMillisecond z h d) = dmonth d \<and>
    dhour (setMillisecond z h d) = dhour d \<and> dminute (setMillisecond z h d) = dminute d \<and>
    dsecond (setMillisecond z h d) = dsecond d"
  by (cases "dchanged d") (auto simp: synced_def setMillisecond_def Let_def Date_time_def date_days_def clock_of_def)

lemma clamp_valid_day:
  assumes "1 \<le> m" "m \<le> 12" "1 \<le> k" "int k \<le> month_length (IsLeapYear y) m"
  shows "clamp_day y m k = k"
  using assms twelve [OF assms(1,2)]
  by (auto simp: clamp_day_def month_length_def MonthDays_def and_one_eq Let_def)

lemma synced_setDay:
  assumes "synced d" "1 \<le> dmonth d" "dmonth d \<le> 12" "1 \<le> k" "int k \<le> month_length (IsLeapYear (dyear d)) (dmonth d)"
  shows "synced (setDay z k d) \<and> dday (setDay z k d) = k \<and> dyear (setDay z k d) = dyear d \<and>
    dmonth (setDay z k d) = dmonth d \<and> clock_of (setDay z k d) = clock_of d"
  using assms(1,4) clamp_valid_day [OF assms(2-5)]
  by (auto simp: synced_fields setDay_def Let_def clock_of_def) (auto simp: synced_changed synced_fixed synced_fields)

lemma fields_unique:
  assumes "valid_fields d" "valid_fields e" "date_days d = date_days e" "clock_of d = clock_of e"
  shows "dyear d = dyear e \<and> dmonth d = dmonth e \<and> dday d = dday e \<and> dhour d = dhour e \<and>
    dminute d = dminute e \<and> dsecond d = dsecond e \<and> dmillisecond d = dmillisecond e"
proof -
  have y: "year_start (dyear x) \<le> date_days x \<and> date_days x < year_start (dyear x + 1)" if "valid_fields x" for x
  proof -
    have "dmonth x \<in> {1, 2, 3, 4, 5, 6, 7, 8, 9, 10, 11, 12}" using that twelve by (simp only: valid_fields_def)
    then show ?thesis using that year_start_step [of "dyear x"]
      by (auto simp: valid_fields_def date_days_def month_length_def year_length_def MonthDays_def)
  qed
  have yy: "dyear d = dyear e" using y [OF assms(1)] y [OF assms(2)] assms(3) year_unique by metis
  let ?l = "IsLeapYear (dyear e)"
  have m: "dmonth d = dmonth e"
  proof (rule ccontr)
    assume ne: "dmonth d \<noteq> dmonth e"
    have eq: "MonthDays ?l ! (dmonth d - 1) + int (dday d) = MonthDays ?l ! (dmonth e - 1) + int (dday e)"
      using assms(3) yy by (simp add: date_days_def)
    have mono: "MonthDays l ! (m - 1) + month_length l m \<le> MonthDays l ! (n - 1)"
      if "m < n" "1 \<le> m" "n \<le> 12" for l m n
    proof -
      have "sorted (MonthDays l)" by (simp add: MonthDays_def)
      then have "MonthDays l ! m \<le> MonthDays l ! (n - 1)"
        using that by (intro sorted_nth_mono) (auto simp: MonthDays_def)
      then show ?thesis using that by (simp add: month_length_def)
    qed
    have ends: "1 \<le> dmonth d" "dmonth d \<le> 12" "1 \<le> dday d" "int (dday d) \<le> month_length ?l (dmonth d)"
      "1 \<le> dmonth e" "dmonth e \<le> 12" "1 \<le> dday e" "int (dday e) \<le> month_length ?l (dmonth e)"
      using assms(1,2) by (simp_all only: valid_fields_def yy)
    consider "dmonth d < dmonth e" | "dmonth e < dmonth d" using ne by linarith
    then show False
    proof cases
      case 1
      then show False using mono [of "dmonth d" "dmonth e" ?l] ends eq by linarith
    next
      case 2
      then show False using mono [of "dmonth e" "dmonth d" ?l] ends eq by linarith
    qed
  qed
  have dd: "dday d = dday e" using assms(3) by (simp add: date_days_def yy m)
  have c: "int (dhour d) * 3600000 + int (dminute d) * 60000 + int (dsecond d) * 1000 + int (dmillisecond d) =
      int (dhour e) * 3600000 + int (dminute e) * 60000 + int (dsecond e) * 1000 + int (dmillisecond e)"
    using assms(4) by (simp add: clock_of_def)
  have v: "int (dminute d) < 60" "int (dminute e) < 60" "int (dsecond d) < 60" "int (dsecond e) < 60"
      "int (dmillisecond d) < 1000" "int (dmillisecond e) < 1000"
    using assms(1,2) by (simp_all add: valid_fields_def)
  have h: "dhour d = dhour e"
  proof (rule ccontr)
    assume "dhour d \<noteq> dhour e"
    then consider "int (dhour d) + 1 \<le> int (dhour e)" | "int (dhour e) + 1 \<le> int (dhour d)" by linarith
    then show False using c v by cases linarith+
  qed
  have i: "dminute d = dminute e"
  proof (rule ccontr)
    assume "dminute d \<noteq> dminute e"
    then consider "int (dminute d) + 1 \<le> int (dminute e)" | "int (dminute e) + 1 \<le> int (dminute d)" by linarith
    then show False using c v h by cases linarith+
  qed
  have "dsecond d = dsecond e" using c v h i by linarith
  then show ?thesis using yy m dd h i c by simp
qed

lemma synced_setOffset_GMT:
  assumes "synced d"
  shows "fst (Date_time z (Date_setOffset z GMT d)) = date_days d * 86400000 + clock_of d"
proof (cases "dchanged d")
  case True
  let ?d = "d\<lparr>doffset := GMT\<rparr>"
  have e: "Date_setOffset z GMT d = ?d" using True by (simp add: Date_setOffset_def)
  have "date_days ?d = date_days d" "clock_of ?d = clock_of d" by (simp_all add: date_days_def clock_of_def)
  then show ?thesis unfolding e using True Date_time_changed [of ?d z]
    by (simp add: fixed_def fixed_offset_def Let_def)
next
  case False
  have "GMT \<noteq> LOCAL" by (simp add: GMT_def LOCAL_def)
  then show ?thesis using assms False
    by (auto simp: synced_def Date_setOffset_def Date_time_def Let_def)
qed

lemma update_ymd_clock_time:
  assumes i: "synced e" and r: "1 \<le> m" "m \<le> 12" "1 \<le> k" "int k \<le> month_length (IsLeapYear y) m"
    "h < 24" "mi < 60" "s < 60" "ms < 1000"
  shows "fst (Date_time z (Date_setOffset z GMT (update_ymd_clock z y m k h mi s ms e))) =
    (year_start y + MonthDays (IsLeapYear y) ! (m - 1) + int k - 1) * 86400000 +
    int h * 3600000 + int mi * 60000 + int s * 1000 + int ms"
proof -
  let ?a = "setYear z y e"
  have a: "synced ?a" "dyear ?a = y" using synced_setYear [OF i, of z y] by simp_all
  let ?b = "setMonth z m ?a"
  have b: "synced ?b" "dyear ?b = y" "dmonth ?b = m" using synced_setMonth [OF a(1) r(1,2)] a by simp_all
  have h: "h < 60" using r by simp
  let ?c = "setHour z h ?b"
  note c = synced_setHour [OF b(1) h, of z]
  let ?d = "setMinute z mi ?c"
  note d = synced_setMinute [OF conjunct1 [OF c] r(6), of z]
  let ?e = "setSecond z s ?d"
  note e = synced_setSecond [OF conjunct1 [OF d] r(7), of z]
  let ?f = "setMillisecond z ms ?e"
  note f = synced_setMillisecond [OF conjunct1 [OF e] r(8), of z]
  have ff: "dyear ?f = y" "dmonth ?f = m" "clock_of ?f = int h * 3600000 + int mi * 60000 + int s * 1000 + int ms"
    using b c d e f by (simp_all add: clock_of_def)
  let ?g = "setDay z k ?f"
  have g: "synced ?g" "dday ?g = k" "dyear ?g = y" "dmonth ?g = m" "clock_of ?g = clock_of ?f"
    using synced_setDay [of ?f k z] f ff r by simp_all
  have dd: "update_ymd_clock z y m k h mi s ms e = ?g"
    by (simp add: update_ymd_clock_def setClock4_def)
  have "fst (Date_time z (Date_setOffset z GMT ?g)) = date_days ?g * 86400000 + clock_of ?g"
    by (rule synced_setOffset_GMT [OF g(1)])
  then show ?thesis using g ff dd by (simp add: date_days_def)
qed

text \<open>A zone without daylight saving time, for concrete dates.\<close>

definition utc_zone :: zone where
  "utc_zone = \<lparr>zone_offset = 0, zone_dst = 0, zone_at = \<lambda>time year. (0, False)\<rparr>"

section \<open>Properties\<close>

text \<open>
  C36: A date refreshed from any time, in GMT or a fixed offset, shows the Gregorian day, the clock and the
  week day of that time in that offset, before 1970 and before the year 1 too, and keeps the time. The division in double
  precision of the code is the one here below \<open>2 ^ 53\<close> milliseconds (Double_Dates).
\<close>

theorem update_time_civil:
  assumes "dday d \<noteq> 0" "offset \<noteq> LOCAL"
  shows "valid_fields (update_time z t offset d) \<and>
    date_days (update_time z t offset d) * 86400000 + clock_of (update_time z t offset d) = t + fixed_offset offset \<and>
    int (dweekDay (update_time z t offset d)) = (date_days (update_time z t offset d) + 4) mod 7 \<and>
    Date_time z (update_time z t offset d) = (t, update_time z t offset d)"
  using update_fields_civil [of "t + fixed_offset offset" "d\<lparr>tm := t, dchanged := False,
      doffset := fixed_offset offset, disLocal := False, disDST := False\<rparr>"]
  by (simp add: update_time_fields [OF assms] Date_time_def)

theorem update_time_civil_witness:
  "valid_fields (update_time utc_zone (-1) GMT (null_date\<lparr>dday := 1\<rparr>))"
  using update_time_civil [of "null_date\<lparr>dday := 1\<rparr>" GMT utc_zone "-1"] by (simp add: GMT_def LOCAL_def)

text \<open>
  The time of valid fields, refreshed in the same offset, gives the same fields back, and an
  unchanged date is in step with it: the lazy time and the fields never part.
\<close>

theorem fields_time_fields:
  assumes "valid_fields d" "dchanged d" "fixed d"
    and "Date_time z d = (t, d1)" and "d2 = update_time z t (doffset d1) d1"
  shows "dyear d2 = dyear d \<and> dmonth d2 = dmonth d \<and> dday d2 = dday d \<and> dhour d2 = dhour d \<and>
    dminute d2 = dminute d \<and> dsecond d2 = dsecond d \<and> dmillisecond d2 = dmillisecond d"
proof -
  have g: "fixed_offset (doffset d) \<noteq> LOCAL" "fixed_offset (doffset d) \<noteq> GMT"
    using assms(3) by (auto simp: fixed_def fixed_offset_def GMT_def LOCAL_def)
  have t: "t = date_days d * 86400000 + clock_of d - fixed_offset (doffset d)"
      and d1: "dday d1 = dday d" "doffset d1 = fixed_offset (doffset d)"
    using Date_time_changed [OF assms(2,3), of z] assms(4) by (auto simp: Let_def)
  have d0: "dday d1 \<noteq> 0" using assms(1) d1 by (simp add: valid_fields_def)
  have c: "0 \<le> clock_of d" "clock_of d < 86400000" using assms(1) by (simp_all add: valid_fields_def clock_of_def)
  have s: "date_days d2 * 86400000 + clock_of d2 = date_days d * 86400000 + clock_of d"
      and v: "valid_fields d2"
    using update_time_civil [OF d0, of "doffset d1" z t] d1 g t by (simp_all add: assms(5) fixed_offset_def)
  have c2: "0 \<le> clock_of d2" "clock_of d2 < 86400000" using v by (simp_all add: valid_fields_def clock_of_def)
  have "date_days d2 = date_days d" using s c c2 by linarith
  then show ?thesis using fields_unique [OF v assms(1)] s by simp
qed

theorem fields_time_fields_witness:
  "\<exists>t d1. Date_time utc_zone (null_date\<lparr>dyear := 2000, dmonth := 2, dday := 29, doffset := GMT\<rparr>) = (t, d1) \<and>
    dday (update_time utc_zone t (doffset d1) d1) = 29"
proof -
  let ?d = "null_date\<lparr>dyear := 2000, dmonth := 2, dday := 29, doffset := GMT\<rparr>"
  obtain t d1 where t: "Date_time utc_zone ?d = (t, d1)" by fastforce
  have "valid_fields ?d"
    by (simp add: valid_fields_def null_date_def month_length_def MonthDays_def IsLeapYear_iff)
  from fields_time_fields [OF this _ _ t refl] have "dday (update_time utc_zone t (doffset d1) d1) = 29"
    by (simp add: null_date_def fixed_def)
  with t show ?thesis by blast
qed

text \<open>
  The constructor from a date and a clock, for every day of the calendar and every clock, in GMT, has
  the time of that day and clock.
\<close>

theorem Date_ymd_clock_time:
  assumes "1 \<le> m" "m \<le> 12" "1 \<le> k" "int k \<le> month_length (IsLeapYear y) m"
    and "h < 24" "mi < 60" "s < 60" "ms < 1000"
  shows "fst (Date_time z (Date_ymd_clock z y m k h mi s ms GMT)) =
    (year_start y + MonthDays (IsLeapYear y) ! (m - 1) + int k - 1) * 86400000 +
    int h * 3600000 + int mi * 60000 + int s * 1000 + int ms"
proof -
  have i: "synced (inited z null_date)" by (rule synced_inited) (simp_all add: null_date_def LOCAL_def)
  have "update_ymd_clock z y m k h mi s ms null_date = update_ymd_clock z y m k h mi s ms (inited z null_date)"
    by (simp add: update_ymd_clock_def setYear_def)
  then show ?thesis using update_ymd_clock_time [OF i assms] by (simp add: Date_ymd_clock_def)
qed

theorem Date_ymd_clock_time_witness:
  "fst (Date_time utc_zone (Date_ymd_clock utc_zone 1970 1 2 0 0 0 0 GMT)) = 86400000"
  using Date_ymd_clock_time [of 1 2 1970 0 0 0 0 utc_zone]
  by (simp add: month_length_def MonthDays_def IsLeapYear_iff)




lemma inited_inited [simp]: "dday d \<noteq> 0 \<Longrightarrow> inited z d = d"
  by (simp add: inited_def)





section \<open>Departures from the calendar\<close>

text \<open>
  \<open>yearDay\<close> reads the table at the month instead of the month before: it is ahead by the length of the
  month, and in December it reads past the row.
\<close>

lemma yearDay_one_month_ahead:
  assumes "valid_fields d"
  shows "fst (Date_yearDay z d) =
    (if dmonth d < 12
     then Some (date_days d - year_start (dyear d) + month_length (IsLeapYear (dyear d)) (dmonth d)) else None)"
proof -
  have l: "length (MonthDays l) = 12" for l by (simp add: MonthDays_def)
  have m: "dmonth d \<in> {1, 2, 3, 4, 5, 6, 7, 8, 9, 10, 11, 12}"
    using assms twelve by (simp only: valid_fields_def)
  have "0 \<le> int (dday d) + MonthDays (IsLeapYear (dyear d)) ! dmonth d - 1 \<and>
      int (dday d) + MonthDays (IsLeapYear (dyear d)) ! dmonth d - 1 < 65536" if "dmonth d < 12"
    using m that assms month_length_le [of "dmonth d" "IsLeapYear (dyear d)"]
    by (auto simp: valid_fields_def MonthDays_def)
  then show ?thesis using assms
    by (auto simp: Date_yearDay_def Let_def l valid_fields_def date_days_def month_length_def)
qed

text \<open>On 1 March 2023, a Wednesday, asking for a Sunday gives Friday 31 March: the day wraps in 8 bits and is clamped.\<close>

lemma setWeekDay_misses:
  "(let d = setWeekDay utc_zone 0 (Date_ymd utc_zone 2023 3 1 GMT)
    in (dmonth d, dday d, fst (Date_weekDay utc_zone d))) = (3, 31, 5)"
  by code_simp

text \<open>The constructor from a clock leaves the year 0 in the fields of a date that stands for 1970.\<close>

lemma Date_from_clock_year_0:
  "fst (Date_time utc_zone (Date_from_clock utc_zone 0 0 0 0)) = 0 \<and>
   fst (Date_time utc_zone (Date_from_clock utc_zone 1 0 0 0)) = -62167215600000"
  by code_simp

text \<open>An hour up to 59 is accepted.\<close>

lemma setHour_over_a_day: "dday d \<noteq> 0 \<Longrightarrow> dhour (setHour z 59 d) = 59"
  by (simp add: setHour_def Let_def)

text \<open>The day that is there is not looked at: 31 January 2023 updated to 31 February stays on the 31.\<close>

lemma same_day_not_clamped:
  "(let d = update_ymd utc_zone 2023 2 31 (Date_ymd utc_zone 2023 1 31 GMT) in (dyear d, dmonth d, dday d)) = (2023, 2, 31)"
  by code_simp

end
