(* ===== verification/Timezones.thy ===== *)
theory Timezones
  imports Dates Binary_Reader
begin

text \<open>
  Mona/Timing/Timezone.h, Timezone.cpp: the table of zone abbreviations, the text of an offset, the rules
  and offsets of a TZ string, the transitions of a TZ database file, the time of a rule in a year and the
  offset of a local date. A TZ file is the list of its bytes; what the C library says of the host's zone
  (\<open>timezone\<close>, \<open>tzname\<close>), the environment and the files are arguments. The code before the POSIX branch of
  the constructor is for Windows and is not modelled. The dates of \<open>ruleToTime\<close> are in GMT and never ask
  for the local zone, so \<open>utc_zone\<close> stands for it.
  The lemmas show that the lookup of an abbreviation is the case-insensitive search in the table, that the
  printed offset is parsed back, which transition decides the offset of a time, and where the code departs
  from the TZ rules.
\<close>

section \<open>Zone abbreviations\<close>

definition Timezones_A_to_L :: "(string \<times> int \<times> bool) list" where
  "Timezones_A_to_L =
    [(''ACDT'', 10 * 3600000 + 1800000, True), (''ACST'', 9 * 3600000 + 1800000, False),
     (''ADT'', - 3 * 3600000, True), (''AEDT'', 11 * 3600000, True),
     (''AEST'', 10 * 3600000, False), (''AFT'', 4 * 3600000 + 1800000, False),
     (''AKDT'', - 8 * 3600000, True), (''AKST'', - 9 * 3600000, False),
     (''ALMT'', 6 * 3600000, False), (''AMT'', 4 * 3600000, False),
     (''AMST'', 5 * 3600000, True), (''ANAT'', 11 * 3600000, False),
     (''ANAST'', 12 * 3600000, True), (''AQTT'', 5 * 3600000, False),
     (''ART'', - 3 * 3600000, False), (''AST'', - 4 * 3600000, False),
     (''AWDT'', 9 * 3600000, True), (''AWST'', 8 * 3600000, False),
     (''AZOT'', - 3600000, False), (''AZOST'', 0, True),
     (''AZT'', 4 * 3600000, False), (''AZST'', 5 * 3600000, True),
     (''BNT'', 8 * 3600000, False), (''BDT'', 6 * 3600000, False),
     (''BOT'', - 4 * 3600000, False), (''BRT'', - 3 * 3600000, False),
     (''BRST'', - 2 * 3600000, True), (''BST'', 3600000, True),
     (''BTT'', 6 * 3600000, False), (''CAST'', 2 * 3600000, False),
     (''CAT'', 2 * 3600000, False), (''CCT'', 6 * 3600000 + 1800000, False),
     (''CDT'', - 5 * 3600000, True), (''CEDT'', 2 * 3600000, True),
     (''CEST'', 2 * 3600000, True), (''CET'', 3600000, False),
     (''CHADT'', 13 * 3600000 + 270000, True), (''CHAST'', 12 * 3600000 + 270000, False),
     (''CHOT'', 8 * 3600000, False), (''CHOST'', 9 * 3600000, True),
     (''CHST'', 10 * 3600000, False), (''CIT'', 8 * 3600000, False),
     (''CKT'', - 10 * 3600000, False), (''CLST'', - 3 * 3600000, True),
     (''CLT'', - 4 * 3600000, False), (''COT'', - 5 * 3600000, False),
     (''CST'', - 6 * 3600000, False), (''CT'', 8 * 3600000, False),
     (''CVT'', - 3600000, False), (''CWST'', 8 * 3600000 + 270000, False),
     (''CXT'', 7 * 3600000, False), (''DAVT'', 7 * 3600000, False),
     (''DDUT'', 10 * 3600000, False), (''EASST'', - 5 * 3600000, True),
     (''EAST'', - 6 * 3600000, False), (''EAT'', 3 * 3600000, False),
     (''ECT'', - 5 * 3600000, False), (''EDT'', - 4 * 3600000, True),
     (''EEDT'', 3 * 3600000, True), (''EEST'', 3 * 3600000, True),
     (''EET'', 2 * 3600000, False), (''EGT'', - 3600000, False),
     (''EGST'', 0, True), (''EST'', - 5 * 3600000, False),
     (''EIT'', 9 * 3600000, False), (''FJT'', 12 * 3600000, False),
     (''FJST'', 13 * 3600000, True), (''FKST'', - 3 * 3600000, True),
     (''FKT'', - 4 * 3600000, False), (''FNT'', - 2 * 3600000, False),
     (''GALT'', - 6 * 3600000, False), (''GAMT'', 9 * 3600000, False),
     (''GFT'', - 3 * 3600000, False), (''GILT'', 12 * 3600000, False),
     (''GST'', 4 * 3600000, False), (''GYT'', - 4 * 3600000, False),
     (''HADT'', - 9 * 3600000, True), (''HAST'', - 10 * 3600000, False),
     (''HKT'', 8 * 3600000, False), (''HOVT'', 7 * 3600000, False),
     (''HOVST'', 8 * 3600000, True), (''HST'', - 10 * 3600000, False),
     (''ICT'', 7 * 3600000, False), (''IDT'', 3 * 3600000, True),
     (''IOT'', 6 * 3600000, False), (''IRDT'', 4 * 3600000 + 1800000, True),
     (''IRKT'', 8 * 3600000, False), (''IRKST'', 9 * 3600000, True),
     (''IRST'', 3 * 3600000 + 1800000, False), (''IST'', 3600000, True),
     (''JST'', 9 * 3600000, False), (''KGT'', 6 * 3600000, False),
     (''KOST'', 11 * 3600000, False), (''KRAT'', 7 * 3600000, False),
     (''KRAST'', 8 * 3600000, True), (''KST'', 9 * 3600000, False),
     (''KUYT'', 4 * 3600000, False), (''LHDT'', 11 * 3600000, True),
     (''LHST'', 10 * 3600000 + 1800000, False), (''LINT'', 14 * 3600000, False),
     (''LKT'', 5 * 3600000 + 1800000, False)]"

definition Timezones_M_to_Z :: "(string \<times> int \<times> bool) list" where
  "Timezones_M_to_Z =
    [(''MAGT'', 11 * 3600000, False), (''MAGST'', 12 * 3600000, True),
     (''MART'', - 9 * 3600000 - 1800000, False), (''MAWT'', 5 * 3600000, False),
     (''MDT'', - 6 * 3600000, True), (''MeST'', - 8 * 3600000, False),
     (''MHT'', 12 * 3600000, False), (''MIST'', 11 * 3600000, False),
     (''MMT'', 6 * 3600000 + 1800000, False), (''MSD'', 4 * 3600000, True),
     (''MSK'', 3 * 3600000, False), (''MST'', - 7 * 3600000, False),
     (''MUT'', 4 * 3600000, False), (''MVT'', 5 * 3600000, False),
     (''MYT'', 8 * 3600000, False), (''NCT'', 11 * 3600000, False),
     (''NDT'', - 2 * 3600000 - 1800000, True), (''NFT'', 11 * 3600000 + 1800000, False),
     (''NOVT'', 6 * 3600000, False), (''NOVST'', 7 * 3600000, True),
     (''NPT'', 5 * 3600000 + 270000, False), (''NRT'', 12 * 3600000, False),
     (''NST'', - 3 * 3600000 - 1800000, False), (''NT'', - 3 * 3600000 - 1800000, False),
     (''NUT'', - 11 * 3600000, False), (''NZDT'', 13 * 3600000, True),
     (''NZST'', 12 * 3600000, False), (''OMST'', 6 * 3600000, False),
     (''OMSST'', 7 * 3600000, True), (''ORAT'', 5 * 3600000, False),
     (''PDT'', - 7 * 3600000, True), (''PET'', - 5 * 3600000, False),
     (''PETT'', 12 * 3600000, False), (''PETST'', 13 * 3600000, True),
     (''PGT'', 10 * 3600000, False), (''PHT'', 8 * 3600000, False),
     (''PHOT'', 13 * 3600000, False), (''PKT'', 5 * 3600000, False),
     (''PMDT'', - 2 * 3600000, True), (''PMST'', - 3 * 3600000, False),
     (''PONT'', 11 * 3600000, False), (''PST'', - 8 * 3600000, False),
     (''PWT'', 9 * 3600000, False), (''PYT'', - 4 * 3600000, False),
     (''PYST'', - 3 * 3600000, True), (''QYZT'', 6 * 3600000, False),
     (''RET'', 4 * 3600000, False), (''ROTT'', - 3 * 3600000, False),
     (''SAKT'', 11 * 3600000, False), (''SAKST'', 12 * 3600000, True),
     (''SAMT'', 4 * 3600000, False), (''SAST'', 2 * 3600000, False),
     (''SBT'', 11 * 3600000, False), (''SCT'', 4 * 3600000, False),
     (''SGT'', 8 * 3600000, False), (''SRT'', - 3 * 3600000, False),
     (''SLT'', 5 * 3600000 + 1800000, False), (''SST'', - 11 * 3600000, False),
     (''SYOT'', 3 * 3600000, False), (''TAHT'', - 10 * 3600000, False),
     (''TFT'', 5 * 3600000, False), (''TJT'', 5 * 3600000, False),
     (''TKT'', - 10 * 3600000, False), (''TLT'', 9 * 3600000, False),
     (''TMT'', 5 * 3600000, False), (''TOT'', 13 * 3600000, False),
     (''TRUT'', 10 * 3600000, False), (''TVT'', 12 * 3600000, False),
     (''ULAT'', 8 * 3600000, False), (''ULAST'', 9 * 3600000, True),
     (''UYST'', - 2 * 3600000, True), (''UYT'', - 3 * 3600000, False),
     (''UZT'', 5 * 3600000, False), (''VET'', - 4 * 3600000 - 1800000, False),
     (''VLAT'', 10 * 3600000, False), (''VLAST'', 11 * 3600000, True),
     (''VOLT'', 4 * 3600000, False), (''VOST'', 6 * 3600000, False),
     (''VUT'', 11 * 3600000, False), (''WAKT'', 12 * 3600000, False),
     (''WAT'', 3600000, False), (''WART'', - 4 * 3600000, False),
     (''WAST'', 2 * 3600000, True), (''WDT'', 9 * 3600000, True),
     (''WEDT'', 3600000, True), (''WEST'', 3600000, True),
     (''WET'', 0, False), (''WFT'', 12 * 3600000, False),
     (''WGT'', - 3 * 3600000, False), (''WGST'', - 2 * 3600000, True),
     (''WIT'', 7 * 3600000, False), (''WST'', 8 * 3600000, False),
     (''WT'', 0, False), (''YAKT'', 9 * 3600000, False),
     (''YAKST'', 10 * 3600000, True), (''YEKT'', 5 * 3600000, False),
     (''YEKST'', 6 * 3600000, True)]"

definition Timezone_list :: "(string \<times> int \<times> bool) list" where
  "Timezone_list = Timezones_A_to_L @ Timezones_M_to_Z"

text \<open>The \<open>std::map\<close> of an initializer list: an entry whose key is already there is not inserted.\<close>

definition map_insert :: "('k \<Rightarrow> 'k \<Rightarrow> bool) \<Rightarrow> ('k \<times> 'v) list \<Rightarrow> 'k \<times> 'v \<Rightarrow> ('k \<times> 'v) list" where
  "map_insert lt m e = (case mfind lt (fst e) m of None \<Rightarrow> mput lt (fst e) (snd e) m | Some _ \<Rightarrow> m)"

definition Timezones_map :: "(string \<times> int \<times> bool) list" where
  "Timezones_map = foldl (map_insert IComparator) [] Timezone_list"

definition is_code :: "string \<Rightarrow> string \<Rightarrow> bool" where
  "is_code abbr name \<longleftrightarrow> ICompare (Some abbr) None (Some name) None = 0"

text \<open>\<open>Offset(code, isDST)\<close>: \<open>isDST\<close> is left as it is for an unknown code.\<close>

definition Offset_code :: "string \<Rightarrow> bool \<Rightarrow> int \<times> bool" where
  "Offset_code abbr isDST =
     (if is_code abbr ''Z'' \<or> is_code abbr ''GMT'' \<or> is_code abbr ''UTC'' then (GMT, False)
      else (case mfind IComparator abbr Timezones_map of
              None \<Rightarrow> (GMT, isDST)
            | Some (offset, dst) \<Rightarrow> (offset, dst)))"

section \<open>Text of an offset\<close>

text \<open>\<open>%02d\<close> of a number that is not negative.\<close>

definition pad2 :: "nat \<Rightarrow> string" where
  "pad2 n = (if n < 10 then CHR ''0'' # dec_string n else dec_string n)"

definition Timezone_Format :: "int \<Rightarrow> bool \<Rightarrow> string" where
  "Timezone_Format offset bISO =
     (if offset = GMT then (if bISO then ''Z'' else ''GMT'')
      else
        (let value = \<bar>offset\<bar>
         in (if offset < 0 then ''-'' else ''+'') @ pad2 (nat (value div 3600000)) @
            (if bISO then '':'' else []) @ pad2 (nat (value mod 3600000 div 60000))))"

section \<open>TZ strings\<close>

datatype rule_type = TYPE_NONE | TYPE_ABSOLUTE | TYPE_JULIAN | TYPE_RELATIVE

record transition_rule =
  rmonth :: nat
  rweek :: nat
  rday :: nat
  rclock :: int
  rtype :: rule_type

definition no_rule :: transition_rule where
  "no_rule = \<lparr>rmonth = 0, rweek = 0, rday = 0, rclock = 0, rtype = TYPE_NONE\<rparr>"

text \<open>
  \<open>while (it != end && isdigit( *it)) x = x * 10 + unit * ( *it - '0')\<close>, in the arithmetic \<open>wrap\<close> of the
  variable; with whether a digit was there, and the rest of the text.
\<close>

fun digits :: "(int \<Rightarrow> int) \<Rightarrow> int \<Rightarrow> int \<Rightarrow> bool \<Rightarrow> string \<Rightarrow> int \<times> bool \<times> string" where
  "digits wrap unit x gotten [] = (x, gotten, [])"
| "digits wrap unit x gotten (c # cs) =
     (if isdigit c then digits wrap unit (wrap (x * 10 + unit * (schar c - 48))) True cs
      else (x, gotten, c # cs))"

definition u8 :: "int \<Rightarrow> int" where "u8 x = x mod 256"
definition i32 :: "int \<Rightarrow> int" where "i32 x = cast_signed 32 x"

text \<open>A field after a separator, when the separator is there.\<close>

definition field_after :: "char \<Rightarrow> (int \<Rightarrow> int) \<Rightarrow> int \<Rightarrow> int \<Rightarrow> string \<Rightarrow> int \<times> string" where
  "field_after sep wrap unit x s =
     (case s of
        c # cs \<Rightarrow> (if c = sep then (case digits wrap unit x False cs of (v, _, r) \<Rightarrow> (v, r)) else (x, s))
      | [] \<Rightarrow> (x, s))"

definition ParseTZOffset :: "string \<Rightarrow> int \<Rightarrow> int \<times> string" where
  "ParseTZOffset s defaultValue =
     (if s = [] then (defaultValue, s)
      else
        (let ahead = (hd s = CHR ''-'');
             s = (if ahead then tl s else s)
         in if s = [] then (defaultValue, s)
            else
              (case digits i32 3600000 0 False s of (result, gotten, s) \<Rightarrow>
                 if \<not> gotten then (defaultValue, s)
                 else
                   (case field_after CHR '':'' i32 60000 0 s of (temp, s1) \<Rightarrow>
                      let result = i32 (result + temp);
                          temp = (if s1 \<noteq> [] \<and> hd s1 = CHR '':'' then 0 else temp)
                      in (case field_after CHR '':'' i32 1000 temp s1 of (temp, s2) \<Rightarrow>
                            let result = i32 (result + temp)
                            in (if ahead then result else i32 (- result), s2))))))"

text \<open>
  \<open>ParseTZRule\<close>: month, week and day are 8-bit. The test \<open>*it == 'J' && ++it != end\<close> consumes the letter
  before it fails, and the text is at its end then.
\<close>

definition ParseTZRule_date :: "string \<Rightarrow> rule_type \<times> int \<times> int \<times> int \<times> string" where
  "ParseTZRule_date s =
     (case s of
        [] \<Rightarrow> (TYPE_NONE, 0, 0, 0, [])
      | c # cs \<Rightarrow>
          (if c = CHR ''J'' \<and> cs \<noteq> [] then
             (case digits u8 1 0 False cs of (day, _, r) \<Rightarrow>
                (if day > 0 then TYPE_JULIAN else TYPE_NONE, 0, 0, day, r))
           else if c = CHR ''M'' \<and> cs \<noteq> [] then
             (case digits u8 1 0 False cs of (month, _, r) \<Rightarrow>
                (case field_after CHR ''.'' u8 1 0 r of (week, r) \<Rightarrow>
                   (case field_after CHR ''.'' u8 1 0 r of (day, r) \<Rightarrow>
                      (if month > 0 \<and> week > 0 then TYPE_RELATIVE else TYPE_NONE, month, week, day, r))))
           else if c = CHR ''J'' \<or> c = CHR ''M'' then (TYPE_NONE, 0, 0, 0, [])
           else
             (case digits u8 1 0 False s of (day, _, r) \<Rightarrow>
                (if day > 0 then TYPE_ABSOLUTE else TYPE_NONE, 0, 0, day, r))))"

definition ParseTZRule :: "string \<Rightarrow> transition_rule \<Rightarrow> bool \<times> string \<times> transition_rule" where
  "ParseTZRule s rule =
     (if s = [] then (False, s, rule)
      else
        (case ParseTZRule_date s of (type, month, week, day, s) \<Rightarrow>
           if type = TYPE_NONE then (False, s, rule)
           else
             (let rule = rule\<lparr>rtype := type, rmonth := nat month, rweek := nat week, rday := nat day\<rparr>
              in case s of
                   c # cs \<Rightarrow>
                     (if c = CHR ''/'' then
                        (case digits u8 1 0 False cs of (month, gotten, s) \<Rightarrow>
                           if \<not> gotten then (True, s, rule\<lparr>rclock := month * 3600000\<rparr>)
                           else
                             (case field_after CHR '':'' u8 1 0 s of (week, s) \<Rightarrow>
                                (case field_after CHR '':'' u8 1000 0 s of (day, s) \<Rightarrow>
                                   (True, s, rule\<lparr>rclock :=
                                      (rclock rule + week * 60000 + day * 1000) mod 2 ^ 32\<rparr>))))
                      else (True, s, rule))
                 | [] \<Rightarrow> (True, s, rule))))"

section \<open>The zone\<close>

record timezone =
  tz_offset :: int
  tz_dstOffset :: int
  tz_name :: string
  tz_startDST :: transition_rule
  tz_endDST :: transition_rule
  tz_transitions :: "(int \<times> (int \<times> bool)) list"

definition ruleToTime :: "int \<Rightarrow> transition_rule \<Rightarrow> int" where
  "ruleToTime year rule =
     (let z = utc_zone;
          date = setClock z (rclock rule) (Date_ymd z year (rmonth rule) 1 GMT);
          day = rday rule;
          date =
            (case rtype rule of
               TYPE_JULIAN \<Rightarrow> setYearDay z (int (if day > 59 \<and> IsLeapYear year then day + 1 else day)) date
             | TYPE_ABSOLUTE \<Rightarrow> setYearDay z (int day) date
             | TYPE_RELATIVE \<Rightarrow>
                 (let date = setWeekDay z (day mod 256) date;
                      date = setDay z (to_u8 (int (dday date) + (int (rweek rule) - 1) * 7)) date
                  in setWeekDay z (day mod 256) date)
             | TYPE_NONE \<Rightarrow> date)
      in fst (Date_time z date))"

text \<open>
  \<open>offset(date, isDST)\<close> on the time, the offset and the year of the date: the transition at or before the
  time, the standard offset before the first one, and the rules after the last one.
\<close>

definition Timezone_offset :: "timezone \<Rightarrow> int \<Rightarrow> int \<Rightarrow> int \<Rightarrow> int \<times> bool" where
  "Timezone_offset tz time date_offset year =
     (if time < -1693785600 then (tz_offset tz, False)
      else
        (let time = time + date_offset
         in case mlower (<) time (tz_transitions tz) of
              [] \<Rightarrow>
                (if time < ruleToTime year (tz_startDST tz) \<or> time \<ge> ruleToTime year (tz_endDST tz)
                 then (tz_offset tz, False) else (tz_dstOffset tz, True))
            | (t, o1, dst) # _ \<Rightarrow>
                (if t \<noteq> time then
                   (case takeWhile (\<lambda>(k, _). k < time) (tz_transitions tz) of
                      [] \<Rightarrow> (tz_offset tz, False)
                    | before \<Rightarrow> snd (last before))
                 else (o1, dst))))"

text \<open>The local zone the dates ask: the offset of the date is 0 when they do.\<close>

definition zone_of :: "timezone \<Rightarrow> zone" where
  "zone_of tz = \<lparr>zone_offset = tz_offset tz, zone_dst = tz_dstOffset tz,
     zone_at = \<lambda>time year. Timezone_offset tz time 0 year\<rparr>"

section \<open>TZ database files\<close>

fun read_types :: "nat \<Rightarrow> reader \<Rightarrow> (int \<times> bool) list \<times> reader" where
  "read_types 0 r = ([], r)"
| "read_types (Suc n) r =
     (case BinaryReader_read32 r of (offset, r) \<Rightarrow>
        (case BinaryReader_read8 r of (dst, r) \<Rightarrow>
           (case read_types n (snd (BinaryReader_next 1 r)) of (types, r) \<Rightarrow>
              ((sint offset, dst \<noteq> 0) # types, r))))"

text \<open>
  The loop on the times: \<open>type\<close> points to the type of the next one, read without a check: None out of the
  file. \<open>width\<close> is \<open>sizeof(Type)\<close>, 4 or 8. The products are in the machine's width.
\<close>

fun read_times :: "nat \<Rightarrow> (int \<times> bool) list \<Rightarrow> nat \<Rightarrow> nat \<Rightarrow> reader \<Rightarrow> (int \<times> (int \<times> bool)) list
    \<Rightarrow> (reader \<times> (int \<times> (int \<times> bool)) list) option" where
  "read_times width types type 0 r m = Some (r, m)"
| "read_times width types type (Suc n) r m =
     (if type \<ge> length (rdata r) then None
      else
        (let i = unat (rdata r ! type)
         in if i \<ge> length types
            then read_times width types (type + 1) n (snd (BinaryReader_next width r)) m
            else
              (let (time, r) =
                     (if width = 4 then (case BinaryReader_read32 r of (t, r) \<Rightarrow> (sint t, r))
                      else (case BinaryReader_read64 r of (t, r) \<Rightarrow> (sint t, r)))
               in read_times width types (type + 1) n r
                    (mput (<) (cast_signed 64 (time * 1000))
                       (i32 (fst (types ! i) * 1000), snd (types ! i)) m))))"

definition readTZData :: "nat \<Rightarrow> reader \<Rightarrow> (int \<times> (int \<times> bool)) list
    \<Rightarrow> (bool \<times> reader \<times> (int \<times> (int \<times> bool)) list) option" where
  "readTZData width r m =
     (if BinaryReader_available r < 39 then Some (False, r, m)
      else
        (let r = snd (BinaryReader_next 15 r);
             (gmtSize, r) = BinaryReader_read32 r;
             (stdSize, r) = BinaryReader_read32 r;
             (leapSize, r) = BinaryReader_read32 r;
             (timeSize, r) = BinaryReader_read32 r;
             (typeSize, r) = BinaryReader_read32 r;
             (charSize, r) = BinaryReader_read32 r;
             position = BinaryReader_position r;
             r = snd (BinaryReader_next (nat (uint timeSize * (int width + 1) mod 2 ^ 32)) r)
         in if BinaryReader_available r < unat (typeSize * 6) then Some (False, r, m)
            else
              (let (types, r) = read_types (unat typeSize) r;
                   r = snd (BinaryReader_next (unat charSize) r);
                   stop = BinaryReader_position r;
                   r = BinaryReader_reset position r
               in case read_times width types (rcur r + unat timeSize * width) (unat timeSize) r m of
                    None \<Rightarrow> None
                  | Some (r, m) \<Rightarrow>
                      (let r = BinaryReader_reset stop r;
                           r = snd (BinaryReader_next (nat (uint leapSize * 2 * int width mod 2 ^ 32)) r);
                           r = snd (BinaryReader_next (unat stdSize) r);
                           r = snd (BinaryReader_next (unat gmtSize) r)
                       in Some (True, r, m)))))"

definition TZif :: "byte list" where
  "TZif = [0x54, 0x5A, 0x69, 0x66]"

text \<open>The text after the data: the last byte of the file becomes the terminating 0.\<close>

definition TZ_string :: "reader \<Rightarrow> string" where
  "TZ_string r =
     (let bytes = butlast (take (rend r - rcur r) (drop (rcur r) (rdata r)))
      in List.map (\<lambda>b. chr (unat b)) (takeWhile (\<lambda>b. b \<noteq> 0) bytes))"

definition drop_char :: "string \<Rightarrow> string" where
  "drop_char s = (if s \<noteq> [] then tl s else s)"

definition read_rules :: "string \<Rightarrow> timezone \<Rightarrow> timezone" where
  "read_rules value tz =
     (let s = dropWhile isalpha value;
          (offset, s) = ParseTZOffset s (tz_offset tz);
          s = dropWhile isalpha s;
          (dstOffset, s) = ParseTZOffset s (tz_dstOffset tz);
          s = drop_char s;
          (ok, s, start) = ParseTZRule s (tz_startDST tz);
          tz = tz\<lparr>tz_offset := offset, tz_dstOffset := dstOffset, tz_startDST := start\<rparr>
      in if ok then tz\<lparr>tz_endDST := snd (snd (ParseTZRule (drop_char s) (tz_endDST tz)))\<rparr> else tz)"

definition readTZDatabase :: "byte list option \<Rightarrow> timezone \<Rightarrow> (bool \<times> timezone) option" where
  "readTZDatabase file tz =
     (case file of
        None \<Rightarrow> Some (False, tz)
      | Some data \<Rightarrow>
          (if length data < 4 then Some (False, tz)
           else
             (let r = snd (BinaryReader_next 4 (BinaryReader data (length data) ORDER_BIG_ENDIAN))
              in if take 4 data \<noteq> TZif then Some (False, tz)
                 else
                   (case BinaryReader_read8 r of (version, r) \<Rightarrow>
                      (case readTZData 4 r (tz_transitions tz) of
                         None \<Rightarrow> None
                       | Some (ok, r, m) \<Rightarrow>
                           (case (if ok \<and> sint version \<ge> 0x32 \<and> BinaryReader_available r > 4 \<and>
                                     take 4 (drop (rcur r) (rdata r)) = TZif
                                  then (case readTZData 8 (snd (BinaryReader_next 5 r)) m of
                                          None \<Rightarrow> None | Some (_, r, m) \<Rightarrow> Some (r, m))
                                  else Some (r, m)) of
                              None \<Rightarrow> None
                            | Some (r, m) \<Rightarrow>
                                (let r = snd (BinaryReader_next 1 r);
                                     tz = tz\<lparr>tz_transitions := m\<rparr>
                                 in if BinaryReader_available r < 2 then Some (False, tz)
                                    else Some (True, read_rules (TZ_string r) tz))))))))"

section \<open>The local zone\<close>

text \<open>The candidate files, in order, until one is read; \<open>open_file\<close> gives the content of a file.\<close>

fun try_paths :: "(string \<Rightarrow> byte list option) \<Rightarrow> string list \<Rightarrow> timezone \<Rightarrow> (bool \<times> timezone) option" where
  "try_paths open_file [] tz = Some (False, tz)"
| "try_paths open_file (p # ps) tz =
     (case readTZDatabase (open_file p) tz of
        None \<Rightarrow> None
      | Some (True, tz) \<Rightarrow> Some (True, tz)
      | Some (False, tz) \<Rightarrow> try_paths open_file ps tz)"

fun fill_transitions :: "nat \<Rightarrow> int \<Rightarrow> timezone \<Rightarrow> timezone" where
  "fill_transitions 0 year tz = tz"
| "fill_transitions (Suc n) year tz =
     (let m = mput (<) (ruleToTime year (tz_startDST tz)) (tz_dstOffset tz, True) (tz_transitions tz);
          m = mput (<) (ruleToTime year (tz_endDST tz)) (tz_offset tz, False) m
      in fill_transitions n (year + 1) (tz\<lparr>tz_transitions := m\<rparr>))"

text \<open>
  \<open>secs\<close> and \<open>name\<close> are \<open>timezone\<close> and \<open>tzname[0]\<close> after \<open>tzset\<close>, \<open>tzdir\<close> the TZDIR variable as a folder,
  \<open>app\<close> the folder of the program, \<open>year\<close> the current year in GMT.
\<close>

definition zoneinfo_paths :: "string \<Rightarrow> string option \<Rightarrow> string option \<Rightarrow> string list" where
  "zoneinfo_paths name tzdir app =
     (case tzdir of None \<Rightarrow> [] | Some d \<Rightarrow> [d @ name]) @
     [''/usr/lib/zoneinfo/'' @ name, ''/usr/share/zoneinfo/'' @ name, ''zoneinfo/'' @ name] @
     (case app of None \<Rightarrow> [] | Some a \<Rightarrow> [a @ ''zoneinfo/'' @ name]) @
     [''/etc/localtime'']"

definition Timezone_local :: "(string \<Rightarrow> byte list option) \<Rightarrow> int \<Rightarrow> string \<Rightarrow> string option \<Rightarrow> string option
    \<Rightarrow> int \<Rightarrow> timezone option" where
  "Timezone_local open_file secs name tzdir app year =
     (let offset = i32 (- secs * 1000);
          tz = \<lparr>tz_offset = offset, tz_dstOffset = i32 (3600000 + offset), tz_name = name,
                tz_startDST = no_rule, tz_endDST = no_rule, tz_transitions = []\<rparr>
      in if name = [] then Some tz
         else
           (case try_paths open_file (zoneinfo_paths name tzdir app) tz of
              None \<Rightarrow> None
            | Some (True, tz) \<Rightarrow> Some tz
            | Some (False, tz) \<Rightarrow> Some (fill_transitions (nat (year + 20 - 1916)) 1916 tz)))"

section \<open>Lookup of an abbreviation\<close>

context strict_weak_order
begin

lemma map_insert_find:
  assumes "msorted lt m"
  shows "msorted lt (map_insert lt m e) \<and> mfind lt k (map_insert lt m e) =
    (case mfind lt k m of Some v \<Rightarrow> Some v | None \<Rightarrow> if eqv lt k (fst e) then Some (snd e) else None)"
proof (cases "mfind lt (fst e) m")
  case None
  have "mfind lt k m = None" if "eqv lt k (fst e)"
  proof -
    have "\<not> eqv lt k j" if "(j, v) \<in> set m" for j v
    proof
      assume "eqv lt k j"
      then have "eqv lt (fst e) j" using \<open>eqv lt k (fst e)\<close> eqv_sym eqv_trans by blast
      then show False using None that by (auto simp: mfind_None [OF assms])
    qed
    then show ?thesis by (auto simp: mfind_None [OF assms])
  qed
  then show ?thesis using assms None
    by (auto simp: map_insert_def msorted_mput mfind_mput split: option.splits)
next
  case (Some w)
  then have "mfind lt k m \<noteq> None" if "eqv lt k (fst e)"
  proof -
    obtain j where j: "(j, w) \<in> set m" "eqv lt (fst e) j" using Some by (auto simp: mfind_iff [OF assms])
    from eqv_trans [OF that j(2)] j(1) have "mfind lt k m = Some w" by (auto simp: mfind_iff [OF assms])
    then show ?thesis by simp
  qed
  then show ?thesis using assms Some by (auto simp: map_insert_def split: option.splits)
qed

text \<open>A map built from a list finds the first entry of the list with an equivalent key.\<close>

lemma foldl_insert_find:
  "msorted lt m \<Longrightarrow> mfind lt k (foldl (map_insert lt) m es) =
    (case mfind lt k m of Some v \<Rightarrow> Some v | None \<Rightarrow> map_option snd (List.find (\<lambda>e. eqv lt k (fst e)) es))"
proof (induction es arbitrary: m)
  case (Cons e es)
  then show ?case using map_insert_find [of m e k] by (auto split: option.splits)
qed (simp split: option.splits)

end

lemma set_mlower_nonempty:
  "\<exists>(k, v) \<in> set m. time \<le> (k :: int) \<Longrightarrow> mlower (<) time m \<noteq> []"
proof
  assume "\<exists>(k, v) \<in> set m. time \<le> k" "mlower (<) time m = []"
  then obtain k v where "(k, v) \<in> set m" "time \<le> k" by blast
  moreover from this have "k < time" using \<open>mlower (<) time m = []\<close> by (auto simp: mlower_def)
  ultimately show False by simp
qed

lemma case_list_nonempty: "xs \<noteq> [] \<Longrightarrow> (case xs of [] \<Rightarrow> a | y # ys \<Rightarrow> f (y # ys)) = f xs"
  by (cases xs) auto

section \<open>Transitions stay sorted\<close>

interpretation int_less: strict_weak_order "(<) :: int \<Rightarrow> int \<Rightarrow> bool"
  by unfold_locales auto

lemma read_times_sorted:
  "read_times width types type n r m = Some (r', m') \<Longrightarrow> msorted (<) m \<Longrightarrow> msorted (<) m'"
proof (induction width types type n r m rule: read_times.induct)
  case (2 width types type n r m)
  then show ?case
    by (auto simp: Let_def int_less.msorted_mput split: if_splits prod.splits)
qed simp

lemma readTZData_sorted:
  "readTZData width r m = Some (ok, r', m') \<Longrightarrow> msorted (<) m \<Longrightarrow> msorted (<) m'"
  by (auto simp: readTZData_def Let_def dest: read_times_sorted split: if_splits prod.splits option.splits)

lemma readTZDatabase_sorted:
  "readTZDatabase file tz = Some (ok, tz') \<Longrightarrow> msorted (<) (tz_transitions tz) \<Longrightarrow> msorted (<) (tz_transitions tz')"
  by (auto simp: readTZDatabase_def read_rules_def Let_def dest!: readTZData_sorted
      split: if_splits prod.splits option.splits)

lemma try_paths_sorted:
  "try_paths open_file ps tz = Some (ok, tz') \<Longrightarrow> msorted (<) (tz_transitions tz) \<Longrightarrow> msorted (<) (tz_transitions tz')"
  by (induction open_file ps tz rule: try_paths.induct)
     (auto dest: readTZDatabase_sorted split: option.splits prod.splits bool.splits)

lemma fill_transitions_sorted:
  "msorted (<) (tz_transitions tz) \<Longrightarrow> msorted (<) (tz_transitions (fill_transitions n year tz))"
  by (induction n year tz rule: fill_transitions.induct) (auto simp: Let_def int_less.msorted_mput)

section \<open>Properties\<close>

text \<open>
  Whatever TZ files the host has and whatever is in them, the transitions of the local zone are in
  strictly increasing order of time, so the binary search of \<open>offset\<close> is meaningful.
\<close>

theorem Timezone_local_sorted:
  assumes "Timezone_local open_file secs name tzdir app year = Some tz"
  shows "msorted (<) (tz_transitions tz)"
  using assms
  by (auto simp: Timezone_local_def Let_def intro!: fill_transitions_sorted
      dest!: try_paths_sorted split: if_splits option.splits bool.splits)

theorem Timezone_local_sorted_witness:
  "\<exists>tz. Timezone_local (\<lambda>_. None) 0 [] None None 2024 = Some tz \<and> msorted (<) (tz_transitions tz)"
proof -
  have "Timezone_local (\<lambda>_. None) 0 [] None None 2024 = Some \<lparr>tz_offset = i32 0, tz_dstOffset = i32 (3600000 + i32 0),
      tz_name = [], tz_startDST = no_rule, tz_endDST = no_rule, tz_transitions = []\<rparr>"
    by (simp add: Timezone_local_def Let_def)
  with Timezone_local_sorted [OF this] show ?thesis by blast
qed

text \<open>
  The offset of an abbreviation is the one of the first entry of the table with the same name up to the
  case of letters, whatever the order the map keeps them in; Z, GMT and UTC are GMT, and so is an unknown one.
\<close>

theorem Offset_code_table:
  "Offset_code abbr isDST =
    (if is_code abbr ''Z'' \<or> is_code abbr ''GMT'' \<or> is_code abbr ''UTC'' then (GMT, False)
     else (case List.find (\<lambda>(name, _). eqv IComparator abbr name) Timezone_list of
             None \<Rightarrow> (GMT, isDST) | Some (_, offset, dst) \<Rightarrow> (offset, dst)))"
  by (simp add: Offset_code_def Timezones_map_def icomparator.foldl_insert_find case_prod_unfold split: option.splits)

text \<open>
  Between the first and the last transition, the offset of a time is the one of the last transition at
  or before it; before the first transition it is the standard offset.
\<close>

theorem Timezone_offset_transition:
  assumes "msorted (<) (tz_transitions tz)" "-1693785600 \<le> time"
    and "\<exists>(k, v) \<in> set (tz_transitions tz). time \<le> k"
  shows "Timezone_offset tz time 0 year =
    (case filter (\<lambda>(k, _). k \<le> time) (tz_transitions tz) of
       [] \<Rightarrow> (tz_offset tz, False) | ts \<Rightarrow> snd (last ts))"
proof -
  let ?m = "tz_transitions tz"
  note srt = assms(1)
  have split: "?m = takeWhile (\<lambda>(k, _). k < time) ?m @ mlower (<) time ?m"
    by (simp add: mlower_def)
  obtain t v rest where l: "mlower (<) time ?m = (t, v) # rest"
    using assms(3) set_mlower_nonempty [of ?m time] by (cases "mlower (<) time ?m") auto
  have t: "time \<le> t" using l hd_dropWhile [of "\<lambda>(k, _). k < time" ?m] by (auto simp: mlower_def)
  let ?before = "takeWhile (\<lambda>(k, _). k < time) ?m"
  have "msorted (<) ((t, v) # rest)" using srt split l by (metis msorted_def sorted_wrt_append)
  then have rest: "filter (\<lambda>(k, _). k \<le> time) rest = []" using t by (force simp: filter_empty_conv)
  have before: "filter (\<lambda>(k, _). k \<le> time) ?before = ?before"
    by (rule filter_True) (auto dest: set_takeWhileD)
  have "filter (\<lambda>(k, _). k \<le> time) ?m = ?before @ (if t = time then [(t, v)] else [])"
    using t by (subst split) (simp add: before l rest)
  note all = this
  obtain o1 dst where v: "v = (o1, dst)" by fastforce
  show ?thesis
  proof (cases "t = time")
    case True
    then show ?thesis using assms(2) l all
      by (simp add: Timezone_offset_def v case_list_nonempty [where f = "\<lambda>ts. snd (last ts)"])
  next
    case False
    then have "filter (\<lambda>(k, _). k \<le> time) ?m = ?before" using all by simp
    then show ?thesis using assms(2) l False by (simp add: Timezone_offset_def v)
  qed
qed

theorem Timezone_offset_transition_witness:
  "Timezone_offset \<lparr>tz_offset = 0, tz_dstOffset = 3600000, tz_name = [], tz_startDST = no_rule, tz_endDST = no_rule,
      tz_transitions = [(10, 3600000, True), (20, 0, False)]\<rparr> 15 0 1970 = (3600000, True)"
  using Timezone_offset_transition [of "\<lparr>tz_offset = 0, tz_dstOffset = 3600000, tz_name = [], tz_startDST = no_rule,
      tz_endDST = no_rule, tz_transitions = [(10, 3600000, True), (20, 0, False)]\<rparr>" 15 1970] by simp

section \<open>Departures from the TZ rules\<close>

declare isdigit_iff [code]

text \<open>\<open>5:30\<close> west counts its minutes twice.\<close>

lemma ParseTZOffset_minutes_twice: "ParseTZOffset ''5:30'' 0 = (- 21600000, [])"
  by code_simp

text \<open>The hour of a rule is dropped: the last Sunday of October at 3 changes at 0.\<close>

lemma ParseTZRule_hour_lost: "rclock (snd (snd (ParseTZRule ''M10.5.0/3'' no_rule))) = 0"
  by code_simp

text \<open>The day of a Julian rule is read in 8 bits.\<close>

lemma ParseTZRule_day_wraps: "rday (snd (snd (ParseTZRule ''J300'' no_rule))) = 44"
  by code_simp

text \<open>The second Sunday of March 2023 is the 12th; the rule gives the 26th.\<close>

lemma ruleToTime_second_sunday:
  "(let rule = snd (snd (ParseTZRule ''M3.2.0'' no_rule)) in (rmonth rule, rweek rule, rday rule, rtype rule)) =
     (3, 2, 0, TYPE_RELATIVE)"
  "ruleToTime 2023 \<lparr>rmonth = 3, rweek = 2, rday = 0, rclock = 0, rtype = TYPE_RELATIVE\<rparr> =
     fst (Date_time utc_zone (Date_ymd utc_zone 2023 3 26 GMT))"
  by code_simp+

text \<open>
  The limit of 30 April 1916 is in seconds and compared with milliseconds: no transition counts before
  12 December 1969.
\<close>

lemma no_daylight_before_1969:
  "time < fst (Date_time utc_zone (Date_ymd utc_zone 1969 12 12 GMT)) \<Longrightarrow>
     Timezone_offset tz time 0 year = (tz_offset tz, False)"
proof -
  have "fst (Date_time utc_zone (Date_ymd utc_zone 1969 12 12 GMT)) = -1728000000" by code_simp
  then show "time < fst (Date_time utc_zone (Date_ymd utc_zone 1969 12 12 GMT)) \<Longrightarrow> ?thesis"
    by (simp add: Timezone_offset_def)
qed

text \<open>A new date in the local zone asks for its offset with the year 0, whatever its time.\<close>

lemma local_date_asks_year_0: "doffset (init z (Date_from_time t LOCAL)) = fst (zone_at z t 0)"
  by (simp add: init_def update_time_def Date_from_time_def Let_def local_offset_def LOCAL_def GMT_def split: prod.split)

text \<open>The four zones with a quarter of an hour are written with 270000 milliseconds, 4 minutes and a half.\<close>

lemma quarter_zones:
  "List.map fst (filter (\<lambda>(_, offset, _). offset mod 900000 \<noteq> 0) Timezone_list) = [''CHADT'', ''CHAST'', ''CWST'', ''NPT'']"
  by code_simp

text \<open>A file of 44 bytes that announces one time and no type makes the loop read outside the file.\<close>

lemma readTZDatabase_overrun:
  "readTZDatabase (Some (TZif @ replicate 31 0 @ [1] @ replicate 8 0)) tz = None"
  by code_simp

end
