(* ===== verification/Date_Text.thy ===== *)
theory Date_Text
  imports Timezones
begin

text \<open>
  Mona/Timing/Date.h, Date.cpp: the text of a date in a format, the parser of a text by a format and the
  choice of a format for a text. The text under the parser's pointer is the C string from it, with the
  count of characters the caller allows (None for \<open>npos\<close>). Reading at the terminating 0 moves the pointer
  out of the text: the fault value. Numbers are printed as \<open>sprintf\<close> does.
  The lemmas show that a GMT date printed with FORMAT_ISO8601_FRAC is parsed back to the same time, and
  where the parser leaves the text.
\<close>

section \<open>Formats\<close>

definition FORMAT_ISO8601 :: string where "FORMAT_ISO8601 = ''%Y[-%m-%dT%H:%M:%S%z]''"
definition FORMAT_ISO8601_FRAC :: string where "FORMAT_ISO8601_FRAC = ''%Y[-%m-%dT%H:%M:%s%z]''"
definition FORMAT_ISO8601_SHORT :: string where "FORMAT_ISO8601_SHORT = ''%Y[%m%dT%H%M%S%z]''"
definition FORMAT_ISO8601_SHORT_FRAC :: string where "FORMAT_ISO8601_SHORT_FRAC = ''%Y[%m%dT%H%M%s%z]''"
definition FORMAT_RFC822 :: string where "FORMAT_RFC822 = ''[%w, ]%e %b %y %H:%M[:%S] %Z''"
definition FORMAT_RFC1123 :: string where "FORMAT_RFC1123 = ''%w, %e %b %Y %H:%M:%S %Z''"
definition FORMAT_HTTP :: string where "FORMAT_HTTP = ''%w, %d %b %Y %H:%M:%S %Z''"
definition FORMAT_RFC850 :: string where "FORMAT_RFC850 = ''%W, %e-%b-%y %H:%M:%S %Z''"
definition FORMAT_RFC1036 :: string where "FORMAT_RFC1036 = ''%W, %e %b %y %H:%M:%S %Z''"
definition FORMAT_ASCTIME :: string where "FORMAT_ASCTIME = ''%w %b %f %H:%M:%S %Y''"
definition FORMAT_SORTABLE :: string where "FORMAT_SORTABLE = ''%Y-%m-%d[ %H:%M:%S]''"

section \<open>Printing\<close>

text \<open>\<open>%0nd\<close> and \<open>%2d\<close> of \<open>sprintf\<close>.\<close>

definition padded :: "nat \<Rightarrow> int \<Rightarrow> string" where
  "padded n i =
     (if i < 0 then (let s = dec_string (nat (- i)) in CHR ''-'' # replicate (n - 1 - length s) (CHR ''0'') @ s)
      else (let s = dec_string (nat i) in replicate (n - length s) (CHR ''0'') @ s))"

definition spaced2 :: "nat \<Rightarrow> string" where
  "spaced2 n = (let s = dec_string n in replicate (2 - length s) (CHR '' '') @ s)"

definition time_factor :: "char \<Rightarrow> int" where
  "time_factor c =
     (let c = tolower c
      in if c = CHR ''h'' then 3600000 else if c = CHR ''m'' then 60000 else if c = CHR ''s'' then 1000 else 1)"

definition format_offset :: "zone \<Rightarrow> bool \<Rightarrow> date \<Rightarrow> string \<times> date" where
  "format_offset z bISO d =
     (case Date_isGMT z d of
        (True, d) \<Rightarrow> (Timezone_Format GMT bISO, d)
      | (False, d) \<Rightarrow> (case Date_offset z d of (offset, d) \<Rightarrow> (Timezone_Format offset bISO, d)))"

text \<open>One directive, but \<open>%t\<close> and \<open>%T\<close>, which look at the next character of the format.\<close>

definition format_directive :: "zone \<Rightarrow> char \<Rightarrow> date \<Rightarrow> string \<times> date" where
  "format_directive z c d =
     (if c = CHR ''w'' then (case Date_weekDay z d of (w, d) \<Rightarrow> (take 3 (WeekDayNames ! w), d))
      else if c = CHR ''W'' then (case Date_weekDay z d of (w, d) \<Rightarrow> (WeekDayNames ! w, d))
      else if c = CHR ''b'' then (take 3 (MonthNames ! (dmonth d - 1)), d)
      else if c = CHR ''B'' then (MonthNames ! (dmonth d - 1), d)
      else if c = CHR ''d'' then (padded 2 (int (dday d)), d)
      else if c = CHR ''e'' then (dec_string (dday d), d)
      else if c = CHR ''f'' then (spaced2 (dday d), d)
      else if c = CHR ''m'' then (padded 2 (int (dmonth d)), d)
      else if c = CHR ''n'' then (dec_string (dmonth d), d)
      else if c = CHR ''o'' then (spaced2 (dmonth d), d)
      else if c = CHR ''y'' then (padded 2 (dyear d smod 100), d)
      else if c = CHR ''Y'' then (padded 4 (dyear d), d)
      else if c = CHR ''H'' then (padded 2 (int (dhour d)), d)
      else if c = CHR ''h'' then
        (padded 2 (if dhour d < 1 then 12 else if dhour d > 12 then int (dhour d) - 12 else int (dhour d)), d)
      else if c = CHR ''a'' then (if dhour d < 12 then ''am'' else ''pm'', d)
      else if c = CHR ''A'' then (if dhour d < 12 then ''AM'' else ''PM'', d)
      else if c = CHR ''M'' then (padded 2 (int (dminute d)), d)
      else if c = CHR ''S'' then (padded 2 (int (dsecond d)), d)
      else if c = CHR ''s'' then (padded 2 (int (dsecond d)) @ ''.'' @ padded 3 (int (dmillisecond d)), d)
      else if c = CHR ''F'' \<or> c = CHR ''i'' then (padded 3 (int (dmillisecond d)), d)
      else if c = CHR ''c'' then (dec_string (dmillisecond d div 100), d)
      else if c = CHR ''z'' then format_offset z True d
      else if c = CHR ''Z'' then format_offset z False d
      else ([c], d))"

fun format_loop :: "zone \<Rightarrow> string \<Rightarrow> date \<Rightarrow> string \<times> date" where
  "format_loop z [] d = ([], d)"
| "format_loop z [c] d = (if c \<noteq> CHR ''%'' \<and> c \<noteq> CHR ''['' \<and> c \<noteq> CHR '']'' then [c] else [], d)"
| "format_loop z (c # k # fmt) d =
     (if c \<noteq> CHR ''%'' then
        (case format_loop z (k # fmt) d of
           (out, d) \<Rightarrow> ((if c \<noteq> CHR ''['' \<and> c \<noteq> CHR '']'' then [c] else []) @ out, d))
      else if k = CHR ''t'' \<or> k = CHR ''T'' then
        (case fmt of
           [] \<Rightarrow> ([], d)
         | u # fmt' \<Rightarrow>
             (case Date_time z d of (time, d) \<Rightarrow>
                (case format_loop z fmt' d of
                   (out, d) \<Rightarrow> (padded 2 ((time sdiv time_factor u) mod 2 ^ 64) @ out, d))))
      else
        (case format_directive z k d of (s, d) \<Rightarrow>
           (case format_loop z fmt d of (out, d) \<Rightarrow> (s @ out, d))))"

definition Date_format :: "zone \<Rightarrow> string \<Rightarrow> date \<Rightarrow> string \<times> date" where
  "Date_format z fmt d = format_loop z fmt (inited z d)"

section \<open>The text being read\<close>

type_synonym cursor = "string \<times> nat option"

definition can_read :: "cursor \<Rightarrow> bool" where
  "can_read p \<longleftrightarrow> fst p \<noteq> [] \<and> snd p \<noteq> Some 0"

text \<open>\<open>READ\<close>: at a count of 0, \<open>--size\<close> wraps to the largest count.\<close>

definition read_char :: "cursor \<Rightarrow> cursor" where
  "read_char p = (tl (fst p), case snd p of None \<Rightarrow> None | Some 0 \<Rightarrow> None | Some (Suc n) \<Rightarrow> Some n)"

function skip_while :: "(char \<Rightarrow> bool) \<Rightarrow> cursor \<Rightarrow> nat \<Rightarrow> cursor \<times> nat" where
  "skip_while P p n =
     (if can_read p \<and> P (hd (fst p)) then skip_while P (read_char p) (n + 1) else (p, n))"
  by pat_completeness auto
termination
  by (relation "measure (\<lambda>(P, p, n). length (fst p))") (auto simp: can_read_def read_char_def)

declare skip_while.simps [simp del]

text \<open>\<open>PARSE_NUMBER_N\<close>, or \<open>PARSE_NUMBER\<close> for None, in the arithmetic of the variable; with the digits still allowed.\<close>

function parse_number :: "(int \<Rightarrow> int) \<Rightarrow> nat option \<Rightarrow> int \<Rightarrow> cursor \<Rightarrow> int \<times> nat option \<times> cursor" where
  "parse_number wrap n x p =
     (if n \<noteq> Some 0 \<and> can_read p \<and> isdigit (hd (fst p))
      then parse_number wrap (map_option (\<lambda>k. k - 1) n) (wrap (x * 10 + (schar (hd (fst p)) - 48))) (read_char p)
      else (x, n, p))"
  by pat_completeness auto
termination
  by (relation "measure (\<lambda>(wrap, n, x, p). length (fst p))") (auto simp: can_read_def read_char_def)

declare parse_number.simps [simp del]

definition number_n :: "(int \<Rightarrow> int) \<Rightarrow> nat \<Rightarrow> int \<Rightarrow> cursor \<Rightarrow> int \<times> cursor" where
  "number_n wrap n x p = (case parse_number wrap (Some n) x p of (x, _, p) \<Rightarrow> (x, p))"

text \<open>\<open>PARSE_FRACTIONAL_N\<close>: the missing digits are zeros.\<close>

definition fractional_n :: "(int \<Rightarrow> int) \<Rightarrow> nat \<Rightarrow> int \<Rightarrow> cursor \<Rightarrow> int \<times> cursor" where
  "fractional_n wrap n x p =
     (case parse_number wrap (Some n) x p of
        (x, rest, p) \<Rightarrow> (((\<lambda>v. wrap (v * 10)) ^^ the rest) x, p))"

section \<open>Parsing\<close>

record parsed =
  pyear :: int
  pmonth :: int
  pday :: int
  phour :: int
  pminute :: int
  psecond :: int
  pmillisecond :: int
  pmicrosecond :: int
  poffset :: int
  pisDST :: bool
  ptime :: int

definition parsed0 :: parsed where
  "parsed0 = \<lparr>pyear = 0, pmonth = 0, pday = 0, phour = 0, pminute = 0, psecond = 0, pmillisecond = 0,
     pmicrosecond = 0, poffset = LOCAL, pisDST = False, ptime = 0\<rparr>"

datatype 'a outcome = Fault | Failure | Success 'a

definition u16 :: "int \<Rightarrow> int" where "u16 x = x mod 65536"

definition century :: "int \<Rightarrow> int" where
  "century year = (if year \<ge> 70 then year + 1900 else year + 2000)"

definition month_of :: "string \<Rightarrow> nat \<Rightarrow> int" where
  "month_of value cnt =
     (if cnt \<ge> 3 then
        (case List.find (\<lambda>i. ICompare (Some (MonthNames ! i)) None (Some value) (Some cnt) = 0) [0..<12] of
           None \<Rightarrow> 0 | Some i \<Rightarrow> int i + 1)
      else 0)"

definition parse_name :: "bool \<Rightarrow> cursor \<Rightarrow> parsed \<Rightarrow> (cursor \<times> parsed) outcome" where
  "parse_name required p st =
     (case skip_while isalpha p 0 of (p', cnt) \<Rightarrow>
        (let month = month_of (fst p) cnt
         in if month = 0 \<and> required then Failure else Success (p', st\<lparr>pmonth := month\<rparr>)))"

definition parse_ampm :: "bool \<Rightarrow> cursor \<Rightarrow> parsed \<Rightarrow> (cursor \<times> parsed) outcome" where
  "parse_ampm required p st =
     (case skip_while isalpha p 0 of (p', cnt) \<Rightarrow>
        if ICompare (Some (fst p)) (Some cnt) (Some ''AM'') None = 0
        then Success (p', if phour st = 12 then st\<lparr>phour := 0\<rparr> else st)
        else if ICompare (Some (fst p)) (Some cnt) (Some ''PM'') None = 0
        then Success (p', if phour st < 12 then st\<lparr>phour := phour st + 12\<rparr> else st)
        else if required then Failure else Success (p', st))"

definition parse_time :: "bool \<Rightarrow> int \<Rightarrow> cursor \<Rightarrow> parsed \<Rightarrow> (cursor \<times> parsed) outcome" where
  "parse_time required factor p st =
     (case skip_while isdigit p 0 of (p', cnt) \<Rightarrow>
        if cnt = 0 \<and> required then Failure
        else
          (case toNumber 10 (- (2 ^ 63)) (2 ^ 63 - 1) (take cnt (fst p)) 0 of
             None \<Rightarrow> Fault
           | Some n \<Rightarrow> Success (p', st\<lparr>ptime := ptime st + n * factor\<rparr>)))"

definition parse_zone :: "cursor \<Rightarrow> parsed \<Rightarrow> cursor \<times> parsed" where
  "parse_zone p st =
     (case skip_while isalpha p 0 of (p1, cnt) \<Rightarrow>
        (let (offset, isDST) = (if cnt > 0 then Offset_code (take cnt (fst p)) (pisDST st) else (LOCAL, pisDST st))
         in if can_read p1 \<and> (hd (fst p1) = CHR ''+'' \<or> hd (fst p1) = CHR ''-'') then
              (let offset = (if offset = GMT \<or> offset = LOCAL then 0 else offset);
                   sgn = (if hd (fst p1) = CHR ''+'' then 1 else -1);
                   (hours, p2) = number_n id 2 0 (read_char p1);
                   p3 = (if can_read p2 \<and> hd (fst p2) = CHR '':'' then read_char p2 else p2);
                   (minutes, p4) = number_n id 2 0 p3
               in (p4, st\<lparr>poffset := i32 (offset + sgn * (hours * 3600 + minutes * 60) * 1000), pisDST := isDST\<rparr>))
            else (p1, st\<lparr>poffset := offset, pisDST := isDST\<rparr>)))"

text \<open>Milliseconds, microseconds and the digits beyond them.\<close>

definition parse_fraction :: "cursor \<Rightarrow> parsed \<Rightarrow> cursor \<times> parsed" where
  "parse_fraction p st =
     (let (ms, p) = fractional_n u16 3 (pmillisecond st) p;
          (us, p) = fractional_n id 3 (pmicrosecond st) p
      in (fst (skip_while isdigit p 0), st\<lparr>pmillisecond := ms, pmicrosecond := us\<rparr>))"

text \<open>A directive other than \<open>%T\<close>.\<close>

definition parse_directive :: "char \<Rightarrow> bool \<Rightarrow> cursor \<Rightarrow> parsed \<Rightarrow> (cursor \<times> parsed) outcome" where
  "parse_directive c required p st =
     (if c = CHR ''%'' then (if fst p = [] \<or> hd (fst p) \<noteq> CHR ''%'' then Failure else Success (p, st))
      else if c = CHR ''w'' \<or> c = CHR ''W'' then Success (fst (skip_while isalpha p 0), st)
      else if c = CHR ''b'' \<or> c = CHR ''B'' then parse_name required p st
      else if c = CHR ''d'' \<or> c = CHR ''e'' \<or> c = CHR ''f'' then
        (case number_n u8 2 (pday st) (if can_read p \<and> isspace (hd (fst p)) then read_char p else p) of
           (v, p) \<Rightarrow> Success (p, st\<lparr>pday := v\<rparr>))
      else if c = CHR ''m'' \<or> c = CHR ''n'' \<or> c = CHR ''o'' then
        (case number_n u8 2 (pmonth st) p of (v, p) \<Rightarrow> Success (p, st\<lparr>pmonth := v\<rparr>))
      else if c = CHR ''y'' then
        (case number_n i32 2 (pyear st) p of (v, p) \<Rightarrow> Success (p, st\<lparr>pyear := i32 (century v)\<rparr>))
      else if c = CHR ''Y'' then
        (case number_n i32 4 (pyear st) p of (v, p) \<Rightarrow> Success (p, st\<lparr>pyear := v\<rparr>))
      else if c = CHR ''_'' then
        (case parse_number i32 None (pyear st) p of
           (v, _, p) \<Rightarrow> Success (p, st\<lparr>pyear := if v < 100 then century v else v\<rparr>))
      else if c = CHR ''H'' \<or> c = CHR ''h'' then
        (case number_n u8 2 (phour st) p of (v, p) \<Rightarrow> Success (p, st\<lparr>phour := v\<rparr>))
      else if c = CHR ''a'' \<or> c = CHR ''A'' then parse_ampm required p st
      else if c = CHR ''M'' then
        (case number_n u8 2 (pminute st) p of (v, p) \<Rightarrow> Success (p, st\<lparr>pminute := v\<rparr>))
      else if c = CHR ''S'' then
        (case number_n u8 2 (psecond st) p of (v, p) \<Rightarrow> Success (p, st\<lparr>psecond := v\<rparr>))
      else if c = CHR ''s'' then
        (case number_n u8 2 (psecond st) p of (v, p) \<Rightarrow>
           (let st = st\<lparr>psecond := v\<rparr>
            in if can_read p \<and> (hd (fst p) = CHR ''.'' \<or> hd (fst p) = CHR '','')
               then Success (parse_fraction (read_char p) st) else Success (p, st)))
      else if c = CHR ''i'' then
        (case number_n u16 3 (pmillisecond st) p of (v, p) \<Rightarrow> Success (p, st\<lparr>pmillisecond := v\<rparr>))
      else if c = CHR ''c'' then
        (case number_n u16 1 (pmillisecond st) p of (v, p) \<Rightarrow> Success (p, st\<lparr>pmillisecond := u16 (v * 100)\<rparr>))
      else if c = CHR ''F'' then Success (parse_fraction p st)
      else if c = CHR ''z'' \<or> c = CHR ''Z'' then Success (parse_zone p st)
      else if required then Failure else Success (p, st))"

text \<open>The loop on the format, with the depth of optional parts, negative while they are skipped.\<close>

fun parse_loop :: "string \<Rightarrow> int \<Rightarrow> cursor \<Rightarrow> parsed \<Rightarrow> parsed outcome" where
  "parse_loop [] optional p st = Success st"
| "parse_loop (c # fmt) optional p st =
     (if c = CHR ''['' then parse_loop fmt (if optional \<ge> 0 then optional + 1 else optional - 1) p st
      else if c = CHR '']'' then parse_loop fmt (if optional > 0 then optional - 1 else optional + 1) p st
      else if c \<noteq> CHR ''%'' then
        (if c = CHR ''?'' then (if fst p = [] then Fault else parse_loop fmt optional (read_char p) st)
         else if optional < 0 then parse_loop fmt optional p st
         else if \<not> can_read p \<or> c \<noteq> hd (fst p) then
           (if optional > 0 then parse_loop fmt (- optional) p st else Failure)
         else parse_loop fmt optional (read_char p) st)
      else
        (case fmt of
           [] \<Rightarrow> Success st
         | k # fmt1 \<Rightarrow>
             (if k = CHR ''T'' then
                (case fmt1 of
                   u # fmt2 \<Rightarrow>
                     (case parse_time (optional = 0) (if isalpha u then time_factor u else 1) p st of
                        Fault \<Rightarrow> Fault
                      | Failure \<Rightarrow> Failure
                      | Success (p, st) \<Rightarrow> parse_loop (if isalpha u then fmt2 else fmt1) optional p st)
                 | [] \<Rightarrow>
                     (case parse_time (optional = 0) 1 p st of
                        Fault \<Rightarrow> Fault | Failure \<Rightarrow> Failure | Success (p, st) \<Rightarrow> Success st))
              else
                (case parse_directive k (optional = 0) p st of
                   Fault \<Rightarrow> Fault
                 | Failure \<Rightarrow> Failure
                 | Success (p, st) \<Rightarrow> parse_loop fmt1 optional p st))))"

text \<open>The date of what was parsed, with whether microseconds were lost.\<close>

definition parsed_date :: "zone \<Rightarrow> parsed \<Rightarrow> date \<Rightarrow> date \<times> bool" where
  "parsed_date z st d =
     (let d = Date_setOffset z (poffset st)
                (update_ymd_clock z (pyear st) (nat (pmonth st)) (nat (pday st)) (nat (phour st)) (nat (pminute st))
                   (nat (psecond st)) (nat (pmillisecond st)) d);
          d = d\<lparr>disDST := pisDST st\<rparr>;
          d = (if ptime st \<noteq> 0 then (case Date_time z d of (t, d) \<Rightarrow> update_to z (t + ptime st) d) else d)
      in (d, pmicrosecond st > 0))"

definition update_format :: "zone \<Rightarrow> string \<Rightarrow> cursor \<Rightarrow> date \<Rightarrow> (date \<times> bool) outcome" where
  "update_format z fmt p d =
     (case parse_loop fmt 0 p parsed0 of
        Fault \<Rightarrow> Fault | Failure \<Rightarrow> Failure | Success st \<Rightarrow> Success (parsed_date z st d))"

section \<open>The format of a text\<close>

datatype auto_format = Use_Format string | Scanned nat nat bool

fun auto_scan :: "string \<Rightarrow> nat option \<Rightarrow> nat \<Rightarrow> nat \<Rightarrow> bool \<Rightarrow> bool \<Rightarrow> auto_format" where
  "auto_scan [] n len tPos digit two = Scanned len tPos digit"
| "auto_scan (c # cs) n len tPos digit two =
     (if n = Some 0 \<or> len \<ge> 50 then Scanned len tPos digit
      else
        (let tPos = (if digit \<and> c = CHR ''T'' then len else tPos);
             n' = map_option (\<lambda>k. k - 1) n
         in if len < 10 then
              (let digit = (if len = 0 then isdigit c else digit);
                   two = (if len = 1 \<and> digit then True else two)
               in if (len = 1 \<and> digit \<or> len = 2 \<and> two) \<and> \<not> isdigit c
                  then Use_Format ''%e?%b?%_ %H:%M[:%S %Z]''
                  else if len = 3 \<and> c = CHR '' '' then Use_Format FORMAT_ASCTIME
                  else if c = CHR '','' then
                    Use_Format (if len = 3 then ''%w, %e?%b?%_ %H:%M[:%S %Z]'' else ''%W, %e?%b?%_ %H:%M[:%S %Z]'')
                  else auto_scan cs n' (len + 1) tPos digit two)
            else if len = 10 \<and> \<not> digit then Scanned len tPos digit
            else if len = 10 \<and> c = CHR '' '' then Use_Format FORMAT_SORTABLE
            else if len = 10 \<and> tPos = 0 then Scanned len tPos False
            else if c = CHR ''.'' \<or> c = CHR '','' then
              Use_Format (if tPos = 8 then ''%Y%m%dT%H%M%s[%z]'' else ''%Y-%m-%dT%H:%M:%s[%z]'')
            else auto_scan cs n' (len + 1) tPos digit two))"

definition parseAuto :: "cursor \<Rightarrow> string option" where
  "parseAuto p =
     (case auto_scan (fst p) (snd p) 0 0 False False of
        Use_Format fmt \<Rightarrow> Some fmt
      | Scanned len tPos digit \<Rightarrow>
          (if digit then
             (if len = 10 then Some FORMAT_SORTABLE
              else if tPos = 10 then Some ''%Y-%m-%dT%H:%M:%S[%z]''
              else if tPos = 8 then Some ''%Y%m%dT%H%M%s[%z]''
              else None)
           else None))"

definition update_string :: "zone \<Rightarrow> string \<Rightarrow> nat option \<Rightarrow> string option \<Rightarrow> date \<Rightarrow> (date \<times> bool) outcome" where
  "update_string z text n fmt d =
     (let p = (cstr text, n)
      in case fmt of
           Some f \<Rightarrow> update_format z f p d
         | None \<Rightarrow> (case parseAuto p of None \<Rightarrow> Failure | Some f \<Rightarrow> update_format z f p d))"

section \<open>Digits\<close>

definition dg :: "nat \<Rightarrow> char" where
  "dg k = chr (48 + k)"

lemma dg_facts [simp]:
  assumes "k < 10"
  shows "isdigit (dg k)" "\<not> isspace (dg k)" "\<not> isalpha (dg k)" "schar (dg k) - 48 = int k"
proof -
  have c: "code (dg k) = 48 + k" using assms by (simp add: dg_def)
  show "isdigit (dg k)" "\<not> isspace (dg k)" "\<not> isalpha (dg k)"
    using assms c by (simp_all add: isdigit_iff isspace_iff isalpha_iff)
  show "schar (dg k) - 48 = int k" using assms c by (simp add: schar_def)
qed

lemma dec_string_1: "n < 10 \<Longrightarrow> dec_string n = [dg n]"
  by (simp add: dec_string.simps dg_def)

lemma dec_string_more: "10 \<le> n \<Longrightarrow> dec_string n = dec_string (n div 10) @ [dg (n mod 10)]"
  by (subst dec_string.simps) (simp add: dg_def)

lemma dec_string_2: "10 \<le> n \<Longrightarrow> n < 100 \<Longrightarrow> dec_string n = [dg (n div 10), dg (n mod 10)]"
  by (simp add: dec_string_more dec_string_1)

lemma dec_string_3: "100 \<le> n \<Longrightarrow> n < 1000 \<Longrightarrow> dec_string n = [dg (n div 100), dg (n div 10 mod 10), dg (n mod 10)]"
proof -
  assume n: "100 \<le> n" "n < 1000"
  then have "dec_string n = dec_string (n div 10) @ [dg (n mod 10)]" by (intro dec_string_more) simp
  also have "dec_string (n div 10) = [dg (n div 10 div 10), dg (n div 10 mod 10)]"
    using n by (intro dec_string_2) simp_all
  also have "n div 10 div 10 = n div 100" by (simp add: div_mult2_eq [symmetric])
  finally show ?thesis by simp
qed

lemma dec_string_4: "1000 \<le> n \<Longrightarrow> n < 10000 \<Longrightarrow>
    dec_string n = [dg (n div 1000), dg (n div 100 mod 10), dg (n div 10 mod 10), dg (n mod 10)]"
proof -
  assume n: "1000 \<le> n" "n < 10000"
  then have "dec_string n = dec_string (n div 10) @ [dg (n mod 10)]" by (intro dec_string_more) simp
  also have "dec_string (n div 10) = [dg (n div 10 div 100), dg (n div 10 div 10 mod 10), dg (n div 10 mod 10)]"
    using n by (intro dec_string_3) simp_all
  also have "n div 10 div 100 = n div 1000" by (simp add: div_mult2_eq [symmetric])
  also have "n div 10 div 10 = n div 100" by (simp add: div_mult2_eq [symmetric])
  finally show ?thesis by simp
qed

lemma zero_dg: "CHR ''0'' = dg 0"
proof -
  have "code (CHR ''0'') = 48" by (simp add: code_def)
  then show ?thesis by (metis add.right_neutral chr_code dg_def)
qed

lemma small_numerals: "(2 :: nat) = Suc (Suc 0)" "(3 :: nat) = Suc (Suc (Suc 0))" "(4 :: nat) = Suc (Suc (Suc (Suc 0)))"
  by simp_all

lemma padded_2: "n < 100 \<Longrightarrow> padded 2 (int n) = [dg (n div 10), dg (n mod 10)]"
  by (cases "n < 10") (simp_all add: padded_def dec_string_1 dec_string_2 zero_dg not_less)

lemma padded_3: "n < 1000 \<Longrightarrow> padded 3 (int n) = [dg (n div 100), dg (n div 10 mod 10), dg (n mod 10)]"
  by (cases "n < 10"; cases "n < 100")
     (simp_all add: padded_def dec_string_1 dec_string_2 dec_string_3 zero_dg not_less numeral_2_eq_2)

lemma padded_4:
  assumes "n < 10000"
  shows "padded 4 (int n) = [dg (n div 1000), dg (n div 100 mod 10), dg (n div 10 mod 10), dg (n mod 10)]"
proof -
  consider "n < 10" | "10 \<le> n" "n < 100" | "100 \<le> n" "n < 1000" | "1000 \<le> n" by linarith
  then show ?thesis
    by cases (use assms in \<open>simp_all add: padded_def dec_string_1 dec_string_2 dec_string_3 dec_string_4 zero_dg
      numeral_2_eq_2 numeral_3_eq_3\<close>)
qed

lemma can_read_Cons [simp]: "can_read (c # cs, None)" "\<not> can_read ([], n)"
  by (simp_all add: can_read_def)

lemma read_char_Cons [simp]: "read_char (c # cs, None) = (cs, None)"
  by (simp add: read_char_def)

lemma parse_number_digit:
  "k < 10 \<Longrightarrow> parse_number wrap (Some (Suc j)) x (dg k # r, None) = parse_number wrap (Some j) (wrap (x * 10 + int k)) (r, None)"
  by (subst parse_number.simps) simp

lemma parse_number_end: "parse_number wrap (Some 0) x p = (x, Some 0, p)"
  by (simp add: parse_number.simps)

lemma number_2: "a < 10 \<Longrightarrow> b < 10 \<Longrightarrow> number_n u8 2 0 (dg a # dg b # r, None) = (int (10 * a + b), (r, None))"
  by (simp add: number_n_def small_numerals(1) parse_number_digit parse_number_end u8_def)

lemma i32_small: "0 \<le> x \<Longrightarrow> x < 2 ^ 31 \<Longrightarrow> i32 x = x"
  by (simp add: i32_def cast_signed_def)

lemma number_4: "a < 10 \<Longrightarrow> b < 10 \<Longrightarrow> c < 10 \<Longrightarrow> e < 10 \<Longrightarrow>
    number_n i32 4 0 (dg a # dg b # dg c # dg e # r, None) = (int (1000 * a + 100 * b + 10 * c + e), (r, None))"
  by (simp add: number_n_def small_numerals(3) parse_number_digit parse_number_end i32_small)

lemma fractional_3: "a < 10 \<Longrightarrow> b < 10 \<Longrightarrow> c < 10 \<Longrightarrow>
    fractional_n u16 3 0 (dg a # dg b # dg c # r, None) = (int (100 * a + 10 * b + c), (r, None))"
  by (simp add: fractional_n_def small_numerals(2) parse_number_digit parse_number_end u16_def)

lemma fractional_none: "\<not> isdigit c \<Longrightarrow> fractional_n id 3 0 (c # r, None) = (0, (c # r, None))"
  by (simp add: fractional_n_def parse_number.simps small_numerals(2))

lemma code_Z: "\<not> isdigit (CHR ''Z'')" "isalpha (CHR ''Z'')"
  by (simp_all add: isdigit_iff isalpha_iff code_def)

lemma Offset_code_Z: "Offset_code ''Z'' isDST = (GMT, False)"
  by (simp add: Offset_code_def is_code_def ICompare_def ICompare_loop.simps fold_case_def code_def)

lemma skip_Z: "skip_while isdigit (''Z'', None) 0 = ((''Z'', None), 0)" "skip_while isalpha (''Z'', None) 0 = (([], None), 1)"
  by (simp_all add: skip_while.simps code_Z)

section \<open>Printed and parsed\<close>

lemma digits_value_2: "n < 100 \<Longrightarrow> 10 * (n div 10) + n mod 10 = (n :: nat)"
  by simp

lemma digits_value_3: "100 * (n div 100) + 10 * (n div 10 mod 10) + n mod 10 = (n :: nat)"
proof -
  have "n div 100 = n div 10 div 10" by (simp add: div_mult2_eq [symmetric])
  then have "10 * (n div 100) + n div 10 mod 10 = n div 10" by simp
  moreover have "10 * (n div 10) + n mod 10 = n" by simp
  ultimately show ?thesis by linarith
qed

lemma digits_value_4: "1000 * (n div 1000) + 100 * (n div 100 mod 10) + 10 * (n div 10 mod 10) + n mod 10 = (n :: nat)"
proof -
  have "n div 1000 = n div 100 div 10" by (simp add: div_mult2_eq [symmetric])
  then have "10 * (n div 1000) + n div 100 mod 10 = n div 100" by simp
  then show ?thesis using digits_value_3 [of n] by linarith
qed

text \<open>The text of a GMT date in FORMAT_ISO8601_FRAC.\<close>

definition iso_text :: "nat \<Rightarrow> nat \<Rightarrow> nat \<Rightarrow> nat \<Rightarrow> nat \<Rightarrow> nat \<Rightarrow> nat \<Rightarrow> string" where
  "iso_text y m k h mi s ms =
     padded 4 (int y) @ ''-'' @ padded 2 (int m) @ ''-'' @ padded 2 (int k) @ ''T'' @ padded 2 (int h) @ '':'' @
     padded 2 (int mi) @ '':'' @ padded 2 (int s) @ ''.'' @ padded 3 (int ms) @ ''Z''"

lemma format_iso:
  assumes "dday d \<noteq> 0" "doffset d = 0" "\<not> disLocal d" "0 \<le> dyear d"
  shows "Date_format z FORMAT_ISO8601_FRAC d =
    (iso_text (nat (dyear d)) (dmonth d) (dday d) (dhour d) (dminute d) (dsecond d) (dmillisecond d), d)"
proof -
  have g: "Date_isGMT z d = (True, d)"
    using assms by (simp add: Date_isGMT_def Date_offset_def GMT_def LOCAL_def)
  show ?thesis
    using assms
    by (simp add: Date_format_def FORMAT_ISO8601_FRAC_def format_directive_def format_offset_def g Timezone_Format_def iso_text_def)
qed

lemma two_digits: "n < 100 \<Longrightarrow> n div 10 < 10" "n < 1000 \<Longrightarrow> n div 100 < 10" "n < 10000 \<Longrightarrow> n div 1000 < 10"
  for n :: nat
  by simp_all

lemma number_padded_2: "n < 100 \<Longrightarrow> number_n u8 2 0 (padded 2 (int n) @ r, None) = (int n, (r, None))"
  using number_2 [OF two_digits(1), of n "n mod 10" r] by (simp add: padded_2 digits_value_2)

lemma number_padded_4: "n < 10000 \<Longrightarrow> number_n i32 4 0 (padded 4 (int n) @ r, None) = (int n, (r, None))"
  using number_4 [OF two_digits(3), of n "n div 100 mod 10" "n div 10 mod 10" "n mod 10" r]
  by (simp add: padded_4 digits_value_4)

lemma fractional_padded_3: "n < 1000 \<Longrightarrow> fractional_n u16 3 0 (padded 3 (int n) @ r, None) = (int n, (r, None))"
  using fractional_3 [OF two_digits(2), of n "n div 10 mod 10" "n mod 10" r] by (simp add: padded_3 digits_value_3)

lemma padded_2_hd: "n < 100 \<Longrightarrow> \<not> isspace (hd (padded 2 (int n) @ r))"
  by (simp add: padded_2)

lemma parse_iso_clock:
  assumes "h < 100" "mi < 100" "s < 100" "ms < 1000" "phour st = 0" "pminute st = 0" "psecond st = 0"
    "pmillisecond st = 0" "pmicrosecond st = 0"
  shows "parse_loop ''T%H:%M:%s%z]'' 1 (CHR ''T'' # padded 2 (int h) @ CHR '':'' # padded 2 (int mi) @ CHR '':'' #
      padded 2 (int s) @ CHR ''.'' # padded 3 (int ms) @ ''Z'', None) st =
    Success (st\<lparr>phour := int h, pminute := int mi, psecond := int s, pmillisecond := int ms, pmicrosecond := 0,
      poffset := GMT, pisDST := False\<rparr>)"
  using assms
  by (simp add: parse_directive_def number_padded_2 fractional_padded_3 fractional_none parse_fraction_def
      parse_zone_def code_Z skip_Z Offset_code_Z)

lemma parse_iso:
  assumes "y < 10000" "m < 100" "k < 100" "h < 100" "mi < 100" "s < 100" "ms < 1000"
  shows "parse_loop FORMAT_ISO8601_FRAC 0 (iso_text y m k h mi s ms, None) parsed0 =
    Success (parsed0\<lparr>pyear := int y, pmonth := int m, pday := int k, phour := int h, pminute := int mi,
      psecond := int s, pmillisecond := int ms, poffset := GMT\<rparr>)"
proof -
  have "parse_loop ''%Y[-%m-%dT%H:%M:%s%z]'' 0 (padded 4 (int y) @ CHR ''-'' # padded 2 (int m) @ CHR ''-'' #
      padded 2 (int k) @ CHR ''T'' # r, None) parsed0 =
    parse_loop ''T%H:%M:%s%z]'' 1 (CHR ''T'' # r, None) (parsed0\<lparr>pyear := int y, pmonth := int m, pday := int k\<rparr>)" for r
    using assms(1-3)
    by (simp add: parse_directive_def number_padded_2 number_padded_4 padded_2_hd parsed0_def)
  then show ?thesis using parse_iso_clock [OF assms(4-7)] by (simp add: FORMAT_ISO8601_FRAC_def iso_text_def parsed0_def)
qed

lemma NUL_dg: "k < 10 \<Longrightarrow> dg k \<noteq> NUL"
  by (simp add: dg_def NUL_def chr_eq_iff)

lemma cstr_iso:
  assumes "y < 10000" "m < 100" "k < 100" "h < 100" "mi < 100" "s < 100" "ms < 1000"
  shows "cstr (iso_text y m k h mi s ms) = iso_text y m k h mi s ms"
proof -
  have c: "CHR ''-'' \<noteq> NUL" "CHR ''T'' \<noteq> NUL" "CHR '':'' \<noteq> NUL" "CHR ''.'' \<noteq> NUL" "CHR ''Z'' \<noteq> NUL"
    by (simp_all add: NUL_def eq_commute [of _ "chr 0"] chr_eq_iff code_def)
  show ?thesis
    using assms by (simp add: iso_text_def padded_2 padded_3 padded_4 cstr_def NUL_dg c)
qed

lemma Date_time_disDST: "fst (Date_time z (d\<lparr>disDST := b\<rparr>)) = fst (Date_time z d)"
  by (simp add: Date_time_def local_offset_def Let_def clock_of_def split: prod.split)

section \<open>Properties\<close>

text \<open>
  C38: A GMT date of the years 0 to 9999, printed with FORMAT_ISO8601_FRAC and parsed with the same format
  into a date that has no day yet and is not on the local offset, gives a date of the same time, to the millisecond,
  without a warning.
\<close>

theorem Date_iso_roundtrip:
  assumes "valid_fields d" "synced d" "doffset d = 0" "\<not> disLocal d" "0 \<le> dyear d" "dyear d < 10000"
    and "dday e = 0" "doffset e \<noteq> LOCAL"
  shows "\<exists>e'. update_string z (fst (Date_format z FORMAT_ISO8601_FRAC d)) None (Some FORMAT_ISO8601_FRAC) e =
      Success (e', False) \<and> fst (Date_time z e') = fst (Date_time z d)"
proof -
  have v: "1 \<le> dmonth d" "dmonth d \<le> 12" "1 \<le> dday d" "int (dday d) \<le> month_length (IsLeapYear (dyear d)) (dmonth d)"
    "dhour d < 24" "dminute d < 60" "dsecond d < 60" "dmillisecond d < 1000"
    using assms(1) by (simp_all add: valid_fields_def)
  have day: "dday d \<le> 31" using v month_length_le [of "dmonth d" "IsLeapYear (dyear d)"] by simp
  have b: "nat (dyear d) < 10000" "dmonth d < 100" "dday d < 100" "dhour d < 100" "dminute d < 100" "dsecond d < 100"
    using v day assms(5,6) by (simp_all add: nat_less_iff)
  let ?u = "update_ymd_clock z (dyear d) (dmonth d) (dday d) (dhour d) (dminute d) (dsecond d) (dmillisecond d)"
  let ?e = "(Date_setOffset z GMT (?u e))\<lparr>disDST := False\<rparr>"
  have f: "Date_format z FORMAT_ISO8601_FRAC d =
      (iso_text (nat (dyear d)) (dmonth d) (dday d) (dhour d) (dminute d) (dsecond d) (dmillisecond d), d)"
    using assms by (intro format_iso) (auto simp: synced_def)
  have p: "update_string z (fst (Date_format z FORMAT_ISO8601_FRAC d)) None (Some FORMAT_ISO8601_FRAC) e = Success (?e, False)"
    using assms(5) by (simp add: f update_string_def cstr_iso [OF b v(8)] update_format_def parse_iso [OF b v(8)],
        simp add: parsed_date_def parsed0_def)
  have i: "synced (inited z e)" using assms(7,8) by (rule synced_inited)
  have "?u e = ?u (inited z e)" by (simp add: update_ymd_clock_def setYear_def)
  then have "fst (Date_time z ?e) = date_days d * 86400000 + clock_of d"
    using update_ymd_clock_time [OF i v, of z] by (simp add: Date_time_disDST date_days_def clock_of_def)
  also have "\<dots> = fst (Date_time z d)" using synced_time [OF assms(2), of z] assms(3)
    by (simp add: fixed_offset_def GMT_def)
  finally show ?thesis using p by blast
qed

theorem Date_iso_roundtrip_witness:
  "\<exists>e'. update_string utc_zone (fst (Date_format utc_zone FORMAT_ISO8601_FRAC (update_time utc_zone 0 GMT (null_date\<lparr>dday := 1\<rparr>))))
      None (Some FORMAT_ISO8601_FRAC) (Date_from_time 7 GMT) = Success (e', False) \<and> fst (Date_time utc_zone e') = 0"
proof -
  let ?d = "update_time utc_zone 0 GMT (null_date\<lparr>dday := 1\<rparr>)"
  have n: "dday (null_date\<lparr>dday := 1\<rparr>) \<noteq> 0" "GMT \<noteq> LOCAL" by (simp_all add: GMT_def LOCAL_def)
  have c: "valid_fields ?d" "Date_time utc_zone ?d = (0, ?d)"
    using update_time_civil [OF n, of utc_zone 0] by simp_all
  have y: "dyear ?d = 1970" "doffset ?d = 0" "\<not> disLocal ?d" by code_simp+
  have "doffset (Date_from_time 7 GMT) \<noteq> LOCAL" "dday (Date_from_time 7 GMT) = 0"
    by (simp_all add: Date_from_time_def GMT_def LOCAL_def)
  then show ?thesis
    using Date_iso_roundtrip [OF c(1) synced_update_time [OF n] y(2,3), of "Date_from_time 7 GMT" utc_zone] y(1) c(2) by simp
qed

section \<open>Departures\<close>

declare isalpha_iff [code] isspace_iff [code]

text \<open>The wildcard \<open>?\<close> reads at the end of the text: \<open>1-jan\<close>, for which the format is chosen automatically.\<close>

lemma parse_past_the_end: "update_string z ''1-jan'' None None d = Fault"
  by code_simp

text \<open>\<open>%%\<close> checks the percent sign and does not read it.\<close>

lemma percent_not_read: "parse_directive (CHR ''%'') True (''%'' @ r, None) st = Success ((''%'' @ r, None), st)"
  by (simp add: parse_directive_def)

end
