(* ===== verification/Double_Dates.thy ===== *)
theory Double_Dates
  imports Complex_Main Dates
begin

text \<open>
  \<open>update\<close> of Mona/Timing/Date.cpp divides the time in double precision. The model (\<open>update_fields\<close>, Dates) divides integers;
  here the fields are computed with the division of the code, for any rounding \<open>rnd\<close> of the reals to the doubles, and are
  the same below \<open>2 ^ 53\<close> milliseconds. Beyond, the time itself is rounded.
\<close>

section \<open>The division\<close>

text \<open>The relative error of the rounding is at most \<open>2 ^ - 53\<close>, and the integers below \<open>2 ^ 53\<close> are doubles.\<close>

definition rounds :: "(real \<Rightarrow> real) \<Rightarrow> bool" where
  "rounds rnd \<longleftrightarrow>
     (\<forall>x. \<bar>rnd x - x\<bar> \<le> \<bar>x\<bar> / 2 ^ 53) \<and> (\<forall>i. \<bar>i\<bar> < 2 ^ 53 \<longrightarrow> rnd (of_int i) = of_int i)"

text \<open>\<open>(int64_t)floor(time / 86400000.0)\<close>.\<close>

definition double_days :: "(real \<Rightarrow> real) \<Rightarrow> int \<Rightarrow> int" where
  "double_days rnd time = \<lfloor>rnd (rnd (of_int time) / 86400000)\<rfloor>"

lemma floor_near:
  assumes "\<bar>y - x\<bar> < 1 / 86400000" "x = of_int q + of_int r / 86400000" "1 \<le> r" "r < 86400000"
  shows "\<lfloor>y\<rfloor> = q"
proof -
  have r: "1 \<le> real_of_int r" "real_of_int r \<le> 86399999" using assms(3,4) by linarith+
  have "of_int q + 1 / 86400000 \<le> x" "x \<le> of_int q + 86399999 / 86400000" using r by (simp_all add: assms(2) field_simps)
  then have "of_int q \<le> y" "y < of_int q + 1" using assms(1) by linarith+
  then show ?thesis by (simp add: floor_eq_iff)
qed

lemma double_days_exact:
  assumes rnd: "rounds rnd" and t: "\<bar>t\<bar> < 2 ^ 53"
  shows "double_days rnd t = t div 86400000"
proof -
  define q r where "q = t div 86400000" and "r = t mod 86400000"
  have tq: "t = q * 86400000 + r" and r: "0 \<le> r" "r < 86400000" by (simp_all add: q_def r_def)
  define x where "x = real_of_int t / 86400000"
  have x: "x = of_int q + of_int r / 86400000" by (simp add: x_def tq field_simps)
  have "real_of_int \<bar>t\<bar> < real_of_int (2 ^ 53)" using t by (rule of_int_less_iff [THEN iffD2])
  then have a: "\<bar>real_of_int t\<bar> < 2 ^ 53" by simp
  have "\<bar>x\<bar> / 2 ^ 53 < 1 / 86400000" using a by (simp add: x_def field_simps)
  moreover have "\<bar>rnd x - x\<bar> \<le> \<bar>x\<bar> / 2 ^ 53" using rnd by (simp add: rounds_def)
  ultimately have e: "\<bar>rnd x - x\<bar> < 1 / 86400000" by linarith
  have "\<lfloor>rnd x\<rfloor> = q"
  proof (cases "r = 0")
    case True
    have "\<bar>q\<bar> < 2 ^ 53" using t tq True by linarith
    then have "rnd (of_int q) = of_int q" using rnd by (simp add: rounds_def)
    then show ?thesis using x True by simp
  next
    case False
    then have "1 \<le> r" using r by linarith
    with e x show ?thesis using r(2) by (intro floor_near)
  qed
  moreover have "rnd (of_int t) = of_int t" using rnd t by (simp add: rounds_def)
  ultimately show ?thesis by (simp add: double_days_def x_def q_def)
qed

text \<open>The identity is such a rounding; a cut of the fraction is not.\<close>

lemma rounds_examples: "rounds (\<lambda>x. x)" "\<not> rounds (\<lambda>x. of_int \<lfloor>x\<rfloor>)"
proof -
  show "rounds (\<lambda>x. x)" by (simp add: rounds_def)
  have "\<not> \<bar>of_int \<lfloor>1 / 2 :: real\<rfloor> - 1 / 2 :: real\<bar> \<le> \<bar>1 / 2\<bar> / 2 ^ 53" by simp
  then show "\<not> rounds (\<lambda>x. of_int \<lfloor>x\<rfloor>)" unfolding rounds_def by blast
qed

section \<open>The fields\<close>

definition update_fields_double :: "(real \<Rightarrow> real) \<Rightarrow> int \<Rightarrow> date \<Rightarrow> date" where
  "update_fields_double rnd time d =
     (let days = double_days rnd time;
          d = computeWeekDay days d;
          (year, days) = update_year (time < 0) days;
          (month, cnt) = month_loop (IsLeapYear year) 1 0 days;
          time = time smod 86400000;
          time = (if time < 0 then time + 86400000 else time);
          hour = time sdiv 3600000; time = time smod 3600000;
          minute = time sdiv 60000; time = time smod 60000;
          second = time sdiv 1000; time = time smod 1000
      in d\<lparr>dyear := year, dmonth := month, dday := to_u8 (days - cnt), dhour := to_u8 hour,
           dminute := to_u8 minute, dsecond := to_u8 second, dmillisecond := nat time\<rparr>)"

lemma update_fields_is_double:
  "rounds rnd \<Longrightarrow> \<bar>t\<bar> < 2 ^ 53 \<Longrightarrow> update_fields_double rnd t d = update_fields t d"
  by (simp only: update_fields_double_def update_fields_def double_days_exact)

end
