(* ===== verification/IpImpl.thy ===== *)
theory IpImpl
  imports Text_Codecs Bytes_Order Std_Map
begin

text \<open>
  Mona/Net/IPAddress.cpp, the \<open>IPImpl\<close> objects an \<open>IPAddress\<close> points to: \<open>MaskBits\<close>, the native socket
  address they hold, their constructors (\<open>IPv4Impl\<close>, \<open>IPv6Impl\<close>), the classification of addresses,
  the prefix length, the port that can be set once, the text forms and their cache.
  Memory is kept as the code lays it out: \<open>sin6_addr\<close> is its 16 bytes, and the IPv4 address of an
  \<open>IPv4Impl\<close> is the 32-bit value stored in \<open>sin6_flowinfo\<close>, in network order.
  The lemmas show that a classification by mask is a range of addresses, that the prefix length is
  the place of the last bit set, and that the comparison of addresses is a strict weak order.
\<close>

datatype Family = IPv4 | IPv6

text \<open>\<open>AF_INET\<close> and \<open>AF_INET6\<close>.\<close>

fun family_number :: "Family \<Rightarrow> nat" where
  "family_number IPv4 = 2"
| "family_number IPv6 = 10"

record sockaddr_in6 =
  sin6_family :: Family
  sin6_port :: u16
  sin6_flowinfo :: u32
  sin6_addr :: "byte list"
  sin6_scope_id :: u32

text \<open>The two native addresses a \<open>const sockaddr&\<close> can be: port and address of a \<open>sockaddr_in\<close>, or a \<open>sockaddr_in6\<close>.\<close>

datatype sockaddr = Sockaddr_in u16 u32 | Sockaddr_in6 sockaddr_in6

section \<open>Words of an address\<close>

definition word16 :: "byte list \<Rightarrow> nat \<Rightarrow> u16" where
  "word16 bytes i = of_le (take 2 (drop (2 * i) bytes))"

definition word32 :: "byte list \<Rightarrow> nat \<Rightarrow> u32" where
  "word32 bytes i = of_le (take 4 (drop (4 * i) bytes))"

definition word64 :: "byte list \<Rightarrow> nat \<Rightarrow> u64" where
  "word64 bytes i = of_le (take 8 (drop (8 * i) bytes))"

text \<open>\<open>MaskBits\<close>: \<open>count\<close> is a \<open>uint8_t\<close>, at most 32.\<close>

function MaskBits_loop :: "u32 \<Rightarrow> nat \<Rightarrow> nat" where
  "MaskBits_loop val n = (if val = 0 then n else MaskBits_loop (drop_bit 1 val) (n + 1))"
  by pat_completeness auto
termination
  by (relation "measure (\<lambda>(val, n). unat val)") (auto simp: drop_bit_Suc unat_div unat_gt_0 intro!: div_less_dividend)

declare MaskBits_loop.simps [simp del]

definition MaskBits :: "u32 \<Rightarrow> nat \<Rightarrow> nat" where
  "MaskBits val size' =
     (let n = (if val \<noteq> 0 then MaskBits_loop (drop_bit 1 (val XOR (val - 1))) 0 else size')
      in size' - n)"

definition IsIPv4Sock :: "sockaddr \<Rightarrow> bool" where
  "IsIPv4Sock addr =
     (case addr of
        Sockaddr_in _ _ \<Rightarrow> True
      | Sockaddr_in6 a \<Rightarrow>
          (let words = word16 (sin6_addr a)
           in words 0 = 0 \<and> words 1 = 0 \<and> words 2 = 0 \<and> words 3 = 0 \<and> words 4 = 0 \<and>
              From16Network (words 5) = 0xFFFF))"

section \<open>Construction\<close>

text \<open>
  \<open>cls\<close> is the class of the object. A constructor gets the memory of \<open>_addr\<close> as it is before: what
  it does not assign stays indeterminate.
\<close>

record IPImpl =
  cls :: Family
  saddr :: sockaddr_in6
  portSet :: bool
  host_text :: string
  address_text :: string
  stringized :: bool

definition ipv4 :: "IPImpl \<Rightarrow> u32" where "ipv4 p = sin6_flowinfo (saddr p)"
definition ipv6 :: "IPImpl \<Rightarrow> byte list" where "ipv6 p = sin6_addr (saddr p)"

definition computeIPv6 :: "u32 \<Rightarrow> byte list" where
  "computeIPv6 addr = replicate 10 0 @ replicate 2 0xFF @ le_bytes 4 addr"

definition mk_impl :: "Family \<Rightarrow> sockaddr_in6 \<Rightarrow> bool \<Rightarrow> IPImpl" where
  "mk_impl c a ps =
     \<lparr>cls = c, saddr = a, portSet = ps, host_text = [], address_text = [], stringized = False\<rparr>"

definition IPImpl_wildcard :: "Family \<Rightarrow> IPImpl" where
  "IPImpl_wildcard family =
     mk_impl family
       \<lparr>sin6_family = IPv6, sin6_port = 0, sin6_flowinfo = 0,
        sin6_addr = (if family \<noteq> IPv6 then (replicate 16 0)[10 := 0xFF, 11 := 0xFF] else replicate 16 0),
        sin6_scope_id = 0\<rparr> True"

definition IPImpl_sockaddr :: "Family \<Rightarrow> sockaddr \<Rightarrow> IPImpl" where
  "IPImpl_sockaddr c addr =
     (case addr of
        Sockaddr_in6 a \<Rightarrow> mk_impl c (a\<lparr>sin6_flowinfo := word32 (sin6_addr a) 3\<rparr>) True
      | Sockaddr_in port s_addr \<Rightarrow>
          mk_impl c \<lparr>sin6_family = IPv6, sin6_port = port, sin6_flowinfo = s_addr,
                     sin6_addr = computeIPv6 s_addr, sin6_scope_id = 0\<rparr> True)"

definition port_memory :: "u16 \<Rightarrow> sockaddr_in6 \<Rightarrow> u16" where
  "port_memory port m = (if port \<noteq> 0 then To16Network port else sin6_port m)"

definition IPImpl_in_addr :: "u32 \<Rightarrow> u16 \<Rightarrow> sockaddr_in6 \<Rightarrow> IPImpl" where
  "IPImpl_in_addr addr port m =
     mk_impl IPv4 \<lparr>sin6_family = IPv6, sin6_port = port_memory port m, sin6_flowinfo = addr,
                   sin6_addr = computeIPv6 addr, sin6_scope_id = 0\<rparr> (port \<noteq> 0)"

definition IPImpl_in6_addr :: "byte list \<Rightarrow> u32 \<Rightarrow> u16 \<Rightarrow> sockaddr_in6 \<Rightarrow> IPImpl" where
  "IPImpl_in6_addr addr scope port m =
     mk_impl IPv6 \<lparr>sin6_family = IPv6, sin6_port = port_memory port m, sin6_flowinfo = 0,
                   sin6_addr = addr, sin6_scope_id = To32Network scope\<rparr> (port \<noteq> 0)"

definition IPImpl_mask :: "u32 \<Rightarrow> u32 \<Rightarrow> u32 \<Rightarrow> u16 \<Rightarrow> sockaddr_in6 \<Rightarrow> IPImpl" where
  "IPImpl_mask addr mask' set' port m =
     mk_impl IPv4 \<lparr>sin6_family = IPv6, sin6_port = port_memory port m,
                   sin6_flowinfo = (addr AND mask') OR (set' AND NOT mask'),
                   sin6_addr = computeIPv6 addr, sin6_scope_id = 0\<rparr> (port \<noteq> 0)"

section \<open>Port, scope, native address\<close>

definition impl_port :: "IPImpl \<Rightarrow> u16" where
  "impl_port p = (if \<not> portSet p then 0 else From16Network (sin6_port (saddr p)))"

definition impl_scope :: "IPImpl \<Rightarrow> u32" where
  "impl_scope p = From32Network (sin6_scope_id (saddr p))"

text \<open>
  \<open>addr()\<close> tests \<open>_portSet\<close> before it takes the lock, and does not test it again under the lock: \<open>impl_addr_locked\<close> is
  what it does there. \<open>impl_addr\<close> is a call that no other thread interleaves with.
\<close>

definition impl_addr_locked :: "IPImpl \<Rightarrow> IPImpl" where
  "impl_addr_locked p = p\<lparr>saddr := (saddr p)\<lparr>sin6_port := 0\<rparr>, portSet := True\<rparr>"

definition impl_addr :: "IPImpl \<Rightarrow> sockaddr_in6 \<times> IPImpl" where
  "impl_addr p = (let p' = (if \<not> portSet p then impl_addr_locked p else p) in (saddr p', p'))"

text \<open>\<open>setPort\<close> tests \<open>_portSet\<close> again under the lock, which makes it one step.\<close>

definition impl_setPort :: "u16 \<Rightarrow> IPImpl \<Rightarrow> bool \<times> IPImpl" where
  "impl_setPort port p =
     (if portSet p then (port = impl_port p, p)
      else if port = 0 then (True, p)
      else (True, p\<lparr>saddr := (saddr p)\<lparr>sin6_port := To16Network port\<rparr>, portSet := True\<rparr>))"

section \<open>Classification\<close>

definition isWildcard4 :: "IPImpl \<Rightarrow> bool" where "isWildcard4 p \<longleftrightarrow> ipv4 p = 0"
definition isBroadcast4 :: "IPImpl \<Rightarrow> bool" where "isBroadcast4 p \<longleftrightarrow> ipv4 p = 0xFFFFFFFF"
definition isAnyBroadcast4 :: "IPImpl \<Rightarrow> bool" where
  "isAnyBroadcast4 p \<longleftrightarrow> ipv4 p = 0xFFFFFFFF \<or> From32Network (ipv4 p) AND 0x000000FF = 0x000000FF"
definition isLoopback4 :: "IPImpl \<Rightarrow> bool" where
  "isLoopback4 p \<longleftrightarrow> From32Network (ipv4 p) AND 0xFF000000 = 0x7F000000"
definition isMulticast4 :: "IPImpl \<Rightarrow> bool" where
  "isMulticast4 p \<longleftrightarrow> From32Network (ipv4 p) AND 0xF0000000 = 0xE0000000"
definition isLinkLocal4 :: "IPImpl \<Rightarrow> bool" where
  "isLinkLocal4 p \<longleftrightarrow> From32Network (ipv4 p) AND 0xFFFF0000 = 0xA9FE0000"
definition isSiteLocal4 :: "IPImpl \<Rightarrow> bool" where
  "isSiteLocal4 p \<longleftrightarrow>
     (let addr = From32Network (ipv4 p)
      in addr AND 0xFF000000 = 0x0A000000 \<or> addr AND 0xFFFF0000 = 0xC0A80000 \<or>
         addr \<ge> 0xAC100000 \<and> addr \<le> 0xAC1FFFFF)"
definition isWellKnownMC4 :: "IPImpl \<Rightarrow> bool" where
  "isWellKnownMC4 p \<longleftrightarrow> From32Network (ipv4 p) AND 0xFFFFFF00 = 0xE0000000"
definition isLinkLocalMC4 :: "IPImpl \<Rightarrow> bool" where
  "isLinkLocalMC4 p \<longleftrightarrow> From32Network (ipv4 p) AND 0xFF000000 = 0xE0000000"
definition isSiteLocalMC4 :: "IPImpl \<Rightarrow> bool" where
  "isSiteLocalMC4 p \<longleftrightarrow> From32Network (ipv4 p) AND 0xFFFF0000 = 0xEFFF0000"
definition isOrgLocalMC4 :: "IPImpl \<Rightarrow> bool" where
  "isOrgLocalMC4 p \<longleftrightarrow> From32Network (ipv4 p) AND 0xFFFF0000 = 0xEFC00000"
definition isGlobalMC4 :: "IPImpl \<Rightarrow> bool" where
  "isGlobalMC4 p \<longleftrightarrow> (let addr = From32Network (ipv4 p) in addr \<ge> 0xE0000100 \<and> addr \<le> 0xEE000000)"

definition prefixLength4 :: "IPImpl \<Rightarrow> nat" where
  "prefixLength4 p = MaskBits (From32Network (ipv4 p)) 32"

definition zero_words :: "IPImpl \<Rightarrow> nat \<Rightarrow> bool" where
  "zero_words p n \<longleftrightarrow> list_all (\<lambda>i. word16 (ipv6 p) i = 0) [0..<n]"

definition first_word :: "IPImpl \<Rightarrow> u16" where
  "first_word p = From16Network (word16 (ipv6 p) 0)"

definition isWildcard6 :: "IPImpl \<Rightarrow> bool" where
  "isWildcard6 p \<longleftrightarrow> word64 (ipv6 p) 0 = 0 \<and> word64 (ipv6 p) 1 = 0"
definition isLoopback6 :: "IPImpl \<Rightarrow> bool" where
  "isLoopback6 p \<longleftrightarrow> zero_words p 7 \<and> From16Network (word16 (ipv6 p) 7) = 1"
definition isMulticast6 :: "IPImpl \<Rightarrow> bool" where "isMulticast6 p \<longleftrightarrow> first_word p AND 0xFFE0 = 0xFF00"
definition isLinkLocal6 :: "IPImpl \<Rightarrow> bool" where "isLinkLocal6 p \<longleftrightarrow> first_word p AND 0xFFE0 = 0xFE80"
definition isSiteLocal6 :: "IPImpl \<Rightarrow> bool" where "isSiteLocal6 p \<longleftrightarrow> first_word p AND 0xFFE0 = 0xFEC0"
definition isIPv4Compatible6 :: "IPImpl \<Rightarrow> bool" where
  "isIPv4Compatible6 p \<longleftrightarrow>
     word32 (ipv6 p) 0 = 0 \<and> word32 (ipv6 p) 1 = 0 \<and> word32 (ipv6 p) 2 = 0"
definition isIPv4Mapped6 :: "IPImpl \<Rightarrow> bool" where
  "isIPv4Mapped6 p \<longleftrightarrow> zero_words p 5 \<and> From16Network (word16 (ipv6 p) 5) = 0xFFFF"
definition isWellKnownMC6 :: "IPImpl \<Rightarrow> bool" where "isWellKnownMC6 p \<longleftrightarrow> first_word p AND 0xFFF0 = 0xFF00"
definition isNodeLocalMC6 :: "IPImpl \<Rightarrow> bool" where "isNodeLocalMC6 p \<longleftrightarrow> first_word p AND 0xFFEF = 0xFF01"
definition isLinkLocalMC6 :: "IPImpl \<Rightarrow> bool" where "isLinkLocalMC6 p \<longleftrightarrow> first_word p AND 0xFFEF = 0xFF02"
definition isSiteLocalMC6 :: "IPImpl \<Rightarrow> bool" where "isSiteLocalMC6 p \<longleftrightarrow> first_word p AND 0xFFEF = 0xFF05"
definition isOrgLocalMC6 :: "IPImpl \<Rightarrow> bool" where "isOrgLocalMC6 p \<longleftrightarrow> first_word p AND 0xFFEF = 0xFF08"
definition isGlobalMC6 :: "IPImpl \<Rightarrow> bool" where "isGlobalMC6 p \<longleftrightarrow> first_word p AND 0xFFEF = 0xFF0F"

fun prefixLength6_loop :: "byte list \<Rightarrow> nat \<Rightarrow> nat \<Rightarrow> nat" where
  "prefixLength6_loop bytes 0 bitPos = 0"
| "prefixLength6_loop bytes (Suc i) bitPos =
     (let bits = MaskBits (ucast (From16Network (word16 bytes i))) 16
      in if bits \<noteq> 0 then bitPos - (16 - bits) else prefixLength6_loop bytes i (bitPos - 16))"

definition prefixLength6 :: "IPImpl \<Rightarrow> nat" where
  "prefixLength6 p = prefixLength6_loop (ipv6 p) 8 128"

text \<open>The virtual calls.\<close>

definition isWildcard :: "IPImpl \<Rightarrow> bool" where
  "isWildcard p = (case cls p of IPv4 \<Rightarrow> isWildcard4 p | IPv6 \<Rightarrow> isWildcard6 p)"
definition isBroadcast :: "IPImpl \<Rightarrow> bool" where
  "isBroadcast p = (case cls p of IPv4 \<Rightarrow> isBroadcast4 p | IPv6 \<Rightarrow> False)"
definition isAnyBroadcast :: "IPImpl \<Rightarrow> bool" where
  "isAnyBroadcast p = (case cls p of IPv4 \<Rightarrow> isAnyBroadcast4 p | IPv6 \<Rightarrow> False)"
definition isLoopback :: "IPImpl \<Rightarrow> bool" where
  "isLoopback p = (case cls p of IPv4 \<Rightarrow> isLoopback4 p | IPv6 \<Rightarrow> isLoopback6 p)"
definition isMulticast :: "IPImpl \<Rightarrow> bool" where
  "isMulticast p = (case cls p of IPv4 \<Rightarrow> isMulticast4 p | IPv6 \<Rightarrow> isMulticast6 p)"
definition isLinkLocal :: "IPImpl \<Rightarrow> bool" where
  "isLinkLocal p = (case cls p of IPv4 \<Rightarrow> isLinkLocal4 p | IPv6 \<Rightarrow> isLinkLocal6 p)"
definition isSiteLocal :: "IPImpl \<Rightarrow> bool" where
  "isSiteLocal p = (case cls p of IPv4 \<Rightarrow> isSiteLocal4 p | IPv6 \<Rightarrow> isSiteLocal6 p)"
definition isIPv4Compatible :: "IPImpl \<Rightarrow> bool" where
  "isIPv4Compatible p = (case cls p of IPv4 \<Rightarrow> True | IPv6 \<Rightarrow> isIPv4Compatible6 p)"
definition isIPv4Mapped :: "IPImpl \<Rightarrow> bool" where
  "isIPv4Mapped p = (case cls p of IPv4 \<Rightarrow> True | IPv6 \<Rightarrow> isIPv4Mapped6 p)"
definition isWellKnownMC :: "IPImpl \<Rightarrow> bool" where
  "isWellKnownMC p = (case cls p of IPv4 \<Rightarrow> isWellKnownMC4 p | IPv6 \<Rightarrow> isWellKnownMC6 p)"
definition isNodeLocalMC :: "IPImpl \<Rightarrow> bool" where
  "isNodeLocalMC p = (case cls p of IPv4 \<Rightarrow> False | IPv6 \<Rightarrow> isNodeLocalMC6 p)"
definition isLinkLocalMC :: "IPImpl \<Rightarrow> bool" where
  "isLinkLocalMC p = (case cls p of IPv4 \<Rightarrow> isLinkLocalMC4 p | IPv6 \<Rightarrow> isLinkLocalMC6 p)"
definition isSiteLocalMC :: "IPImpl \<Rightarrow> bool" where
  "isSiteLocalMC p = (case cls p of IPv4 \<Rightarrow> isSiteLocalMC4 p | IPv6 \<Rightarrow> isSiteLocalMC6 p)"
definition isOrgLocalMC :: "IPImpl \<Rightarrow> bool" where
  "isOrgLocalMC p = (case cls p of IPv4 \<Rightarrow> isOrgLocalMC4 p | IPv6 \<Rightarrow> isOrgLocalMC6 p)"
definition isGlobalMC :: "IPImpl \<Rightarrow> bool" where
  "isGlobalMC p = (case cls p of IPv4 \<Rightarrow> isGlobalMC4 p | IPv6 \<Rightarrow> isGlobalMC6 p)"
definition prefixLength :: "IPImpl \<Rightarrow> nat" where
  "prefixLength p = (case cls p of IPv4 \<Rightarrow> prefixLength4 p | IPv6 \<Rightarrow> prefixLength6 p)"

definition isUnicast :: "IPImpl \<Rightarrow> bool" where
  "isUnicast p \<longleftrightarrow> \<not> isWildcard p \<and> \<not> isAnyBroadcast p \<and> \<not> isMulticast p"
definition isLocal :: "IPImpl \<Rightarrow> bool" where
  "isLocal p \<longleftrightarrow> isWildcard p \<or> isLoopback p \<or> isSiteLocal p \<or> isLinkLocal p \<or> isAnyBroadcast p \<or>
     isNodeLocalMC p \<or> isLinkLocalMC p \<or> isSiteLocalMC p \<or> isOrgLocalMC p"

section \<open>Text\<close>

text \<open>\<open>if_indextoname\<close> of the system, as \<open>name\<close>.\<close>

definition host4 :: "u32 \<Rightarrow> string" where
  "host4 a = (let bytes = le_bytes 4 a
     in dec_string (unat (bytes ! 0)) @ ''.'' @ dec_string (unat (bytes ! 1)) @ ''.'' @
        dec_string (unat (bytes ! 2)) @ ''.'' @ dec_string (unat (bytes ! 3)))"

fun zero_run :: "byte list \<Rightarrow> nat \<Rightarrow> nat \<Rightarrow> nat" where
  "zero_run bytes 0 zi = zi"
| "zero_run bytes (Suc k) zi = (if word16 bytes zi = 0 then zero_run bytes k (zi + 1) else zi)"

lemma zero_run_ge: "zi \<le> zero_run bytes k zi"
  by (induction bytes k zi rule: zero_run.induct) (auto intro: order.trans [rotated])

function host6_loop :: "byte list \<Rightarrow> nat \<Rightarrow> bool \<Rightarrow> string" where
  "host6_loop bytes i zeroSequence =
     (if i \<ge> 8 then []
      else
        (let zi = (if \<not> zeroSequence \<and> word16 bytes i = 0 then zero_run bytes (8 - i) i else i);
             (j, colon, zs) = (if zi > i + 1 then (zi, '':'', True) else (i, [], zeroSequence))
         in colon @ (if j > 0 then '':'' else []) @
            (if j < 8 then Append_Hex False True False (map (\<lambda>b. chr (unat b)) (take 2 (drop (2 * j) bytes))) @
                           host6_loop bytes (j + 1) zs
             else [])))"
  by pat_completeness auto
termination
  by (relation "measure (\<lambda>(bytes, i, zs). 8 - i)") (auto split: if_splits)

declare host6_loop.simps [simp del]

definition host6 :: "(u32 \<Rightarrow> string option) \<Rightarrow> IPImpl \<Rightarrow> string" where
  "host6 name p =
     (if isIPv4Compatible6 p \<and> \<not> isWildcard6 p \<and> \<not> isLoopback6 p \<or> isIPv4Mapped6 p
      then (if word16 (ipv6 p) 5 = 0 then ''::'' else ''::FFFF:'') @ host4 (word32 (ipv6 p) 3)
      else
        host6_loop (ipv6 p) 0 False @
        (let scope = impl_scope p
         in if scope \<noteq> 0
            then ''%'' @ (case name scope of Some b \<Rightarrow> b | None \<Rightarrow> dec_string (unat scope))
            else []))"

definition impl_stringize :: "(u32 \<Rightarrow> string option) \<Rightarrow> IPImpl \<Rightarrow> IPImpl" where
  "impl_stringize name p =
     (if stringized p then p
      else
        (let port = dec_string (unat (impl_port p));
             h = (case cls p of IPv4 \<Rightarrow> host4 (ipv4 p) | IPv6 \<Rightarrow> host6 name p)
         in p\<lparr>host_text := h,
              address_text := (case cls p of IPv4 \<Rightarrow> h @ '':'' @ port | IPv6 \<Rightarrow> ''['' @ h @ '']:'' @ port),
              stringized := True\<rparr>))"

section \<open>Comparison\<close>

text \<open>\<open>memcmp\<close> of the standard library: the sign of the first difference among \<open>n\<close> bytes.\<close>

fun memcmp :: "nat \<Rightarrow> byte list \<Rightarrow> byte list \<Rightarrow> int" where
  "memcmp 0 as bs = 0"
| "memcmp (Suc n) as bs =
     (if hd as = hd bs then memcmp n (tl as) (tl bs) else if hd as < hd bs then -1 else 1)"

definition impl_data :: "IPImpl \<Rightarrow> byte list" where
  "impl_data p = (case cls p of IPv4 \<Rightarrow> le_bytes 4 (ipv4 p) | IPv6 \<Rightarrow> ipv6 p)"

definition impl_size :: "IPImpl \<Rightarrow> nat" where
  "impl_size p = (case cls p of IPv4 \<Rightarrow> 4 | IPv6 \<Rightarrow> 16)"

definition ip_equal :: "IPImpl \<Rightarrow> IPImpl \<Rightarrow> bool" where
  "ip_equal p q \<longleftrightarrow>
     (if impl_size p \<noteq> impl_size q then False
      else if impl_scope p \<noteq> impl_scope q then False
      else memcmp (impl_size p) (impl_data p) (impl_data q) = 0)"

definition ip_less :: "IPImpl \<Rightarrow> IPImpl \<Rightarrow> bool" where
  "ip_less p q \<longleftrightarrow>
     (if impl_size p \<noteq> impl_size q then impl_size p < impl_size q
      else if impl_scope p \<noteq> impl_scope q then impl_scope p < impl_scope q
      else memcmp (impl_size p) (impl_data p) (impl_data q) < 0)"

definition socketaddress_equal :: "IPImpl \<Rightarrow> IPImpl \<Rightarrow> bool" where
  "socketaddress_equal p q \<longleftrightarrow> impl_port p = impl_port q \<and> ip_equal p q"

definition socketaddress_less :: "IPImpl \<Rightarrow> IPImpl \<Rightarrow> bool" where
  "socketaddress_less p q \<longleftrightarrow>
     (if cls p \<noteq> cls q then family_number (cls p) < family_number (cls q)
      else if \<not> ip_equal p q then ip_less p q
      else impl_port p < impl_port q)"

section \<open>Prefix length\<close>

lemma MaskBits_loop_mask: "k \<le> 32 \<Longrightarrow> MaskBits_loop (mask k) n = n + k"
proof (induction k arbitrary: n)
  case 0
  then show ?case by (subst MaskBits_loop.simps) simp
next
  case (Suc k)
  have nz: "mask (Suc k) \<noteq> (0 :: u32)"
    by (metis bit_0_eq bit_mask_iff bot_apply bot_bool_def len_gt_0 zero_less_Suc possible_bit_word)
  have d: "drop_bit 1 (mask (Suc k)) = (mask k :: u32)"
    using Suc.prems by (intro bit_word_eqI) (auto simp: bit_simps)
  show ?case using Suc nz d by (subst MaskBits_loop.simps) simp
qed

lemma xor_minus_1:
  fixes v :: "'a::len word"
  assumes b: "bit v k" and low: "\<forall>j<k. \<not> bit v j"
  shows "v XOR (v - 1) = mask (Suc k)"
proof -
  have k: "k < LENGTH('a)" using b by (rule bit_imp_le_length)
  let ?w = "drop_bit k v"
  have v: "v = push_bit k ?w"
    using low by (intro bit_word_eqI) (auto simp: bit_simps; metis le_add_diff_inverse not_less)
  have w0: "bit ?w 0" using b by (simp add: bit_simps)
  have w1: "?w - 1 = unset_bit 0 ?w"
    using w0 by (simp add: unset_bit_0 bit_0 odd_iff_mod_2_eq_one minus_mod_eq_mult_div [symmetric])
  have "v - 1 = push_bit k (?w - 1) + mask k"
    by (subst v) (simp add: push_bit_eq_mult mask_eq_decr_exp algebra_simps)
  also have "\<dots> = push_bit k (?w - 1) OR mask k"
    by (rule disjunctive_add_eq_or) (auto simp: bit_eq_iff bit_simps)
  finally have v1: "v - 1 = push_bit k (unset_bit 0 ?w) OR mask k" by (simp add: w1)
  show ?thesis
    unfolding v1 using b low k
    by (intro bit_word_eqI) (auto simp: bit_simps not_less less_Suc_eq_le; metis le_neq_implies_less)
qed

lemma MaskBits_last_bit:
  assumes b: "bit val k" and low: "\<forall>j<k. \<not> bit val j"
  shows "MaskBits val n = n - k"
proof -
  have k: "k < 32" using bit_imp_le_length [OF b] by simp
  have d: "drop_bit 1 (mask (Suc k)) = (mask k :: u32)"
    using k by (intro bit_word_eqI) (auto simp: bit_simps)
  show ?thesis using b k MaskBits_loop_mask [of k 0]
    by (auto simp: MaskBits_def xor_minus_1 [OF b low] d [simplified])
qed

lemma MaskBits_0: "MaskBits 0 n = 0"
  by (simp add: MaskBits_def)

section \<open>A mask is a range\<close>

lemma and_mask_range:
  fixes a c :: "'a::len word"
  assumes m: "m = NOT (mask k)" and k: "k < LENGTH('a)" and c: "take_bit k c = 0"
  shows "a AND m = c \<longleftrightarrow> c \<le> a \<and> a \<le> c OR mask k"
proof -
  have e: "a AND m = push_bit k (drop_bit k a)" for a :: "'a word"
    unfolding m by (intro bit_word_eqI) (auto simp: bit_simps)
  have u: "unat (a AND m) = unat a div 2 ^ k * 2 ^ k" for a :: "'a word"
  proof -
    have "unat a div 2 ^ k * 2 ^ k \<le> unat a" by simp
    then have "unat a div 2 ^ k * 2 ^ k < 2 ^ LENGTH('a)" using unsigned_less [of a, where ?'a = nat] by linarith
    then show ?thesis by (simp add: e unsigned_push_bit_eq unsigned_drop_bit_eq take_bit_nat_eq_self
        push_bit_nat_def drop_bit_nat_def)
  qed
  have c0: "unat c mod 2 ^ k = 0"
    using c by (metis take_bit_nat_def unsigned_0 unsigned_take_bit_eq)
  have "c OR mask k = c + mask k"
    using c by (subst disjunctive_add_eq_or) (auto simp: bit_eq_iff bit_simps)
  have or: "unat (c OR mask k) = unat c + (2 ^ k - 1)"
  proof -
    have "unat (c OR mask k) = unat c OR mask k"
      using k by (auto simp: bit_eq_iff bit_simps)
    also have "\<dots> = unat c + mask k"
      using c0 by (subst disjunctive_add_eq_or) (auto simp: bit_eq_iff bit_simps take_bit_nat_def [symmetric])
    finally show ?thesis by (simp add: mask_nat_def)
  qed
  have "a AND m = c \<longleftrightarrow> unat a div 2 ^ k * 2 ^ k = unat c"
    by (metis u word_unat_eq_iff)
  also have "\<dots> \<longleftrightarrow> unat c \<le> unat a \<and> unat a \<le> unat c + (2 ^ k - 1)"
  proof -
    obtain q where q: "unat c = q * 2 ^ k"
      using c0 by (metis mod_0_imp_dvd dvdE mult.commute)
    have pos: "0 < (2::nat) ^ k" by simp
    have "unat a div 2 ^ k * 2 ^ k \<le> unat a" "unat a < 2 ^ k + unat a div 2 ^ k * 2 ^ k"
      using dividend_less_div_times [OF pos] by simp_all
    moreover have "unat a div 2 ^ k = q" if "q * 2 ^ k \<le> unat a" "unat a \<le> q * 2 ^ k + (2 ^ k - 1)"
      proof (rule div_nat_eqI)
      show "2 ^ k * q \<le> unat a" using that by (simp add: mult.commute)
      have "unat a < q * 2 ^ k + 2 ^ k" using that(2) pos by linarith
      then show "unat a < 2 ^ k * Suc q" by (simp add: mult.commute add.commute)
    qed
    ultimately show ?thesis unfolding q by auto
  qed
  finally show ?thesis by (simp add: word_le_nat_alt or)
qed


section \<open>Bits of an address\<close>

text \<open>Bit \<open>n\<close> of an address, from its first one.\<close>

definition addr_bit :: "byte list \<Rightarrow> nat \<Rightarrow> bool" where
  "addr_bit bytes n = bit (bytes ! (n div 8)) (7 - n mod 8)"

lemma addr_bit_le_bytes:
  assumes "n < 32"
  shows "addr_bit (le_bytes 4 a) n = bit (From32Network a) (31 - n)"
proof -
  have "list_all (\<lambda>n. addr_bit (le_bytes 4 a) n = bit (From32Network a) (31 - n)) [0..<32]"
    by (simp add: addr_bit_def order_defs Flip32_def bit_blast)
  then show ?thesis using assms by (simp add: list_all_iff)
qed

lemma byte_high_bit: "8 \<le> n \<Longrightarrow> \<not> bit (b :: byte) n"
  using bit_imp_le_length [of b n] by auto

lemma take_2_drop:
  "2 * i + 1 < length bytes \<Longrightarrow> take 2 (drop (2 * i) bytes) = [bytes ! (2 * i), bytes ! (2 * i + 1)]"
  by (simp add: numeral_2_eq_2 Cons_nth_drop_Suc [symmetric])

lemma addr_bit_word16:
  assumes i: "2 * i + 1 < length bytes" and j: "j < 16"
  shows "addr_bit bytes (16 * i + j) = bit (From16Network (word16 bytes i)) (15 - j)"
proof -
  have "list_all (\<lambda>j. bit (bytes ! (2 * i + j div 8)) (7 - j mod 8) =
    bit (From16Network (word16 bytes i)) (15 - j)) [0..<16]"
    unfolding word16_def take_2_drop [OF i]
    by (simp add: order_defs Flip16_def bit_blast byte_high_bit)
  moreover have "(16 * i + j) div 8 = 2 * i + j div 8" "(16 * i + j) mod 8 = j mod 8" by presburger+
  ultimately show ?thesis using j by (simp add: list_all_iff addr_bit_def)
qed

text \<open>\<open>last_bit d n k\<close>: among the first \<open>n\<close> bits of \<open>d\<close>, the last one set is bit \<open>k - 1\<close>; none is for 0.\<close>

definition last_bit :: "byte list \<Rightarrow> nat \<Rightarrow> nat \<Rightarrow> bool" where
  "last_bit d n k \<longleftrightarrow> k \<le> n \<and> (\<forall>i<n. k \<le> i \<longrightarrow> \<not> addr_bit d i) \<and> (0 < k \<longrightarrow> addr_bit d (k - 1))"

lemma MaskBits_last_bit_rev:
  assumes "n \<le> 32" "j \<le> n" "\<forall>i<n. j \<le> i \<longrightarrow> \<not> bit val (n - 1 - i)" "0 < j \<longrightarrow> bit val (n - j)"
    "\<forall>i\<ge>n. \<not> bit val i"
  shows "MaskBits val n = j"
proof (cases "j = 0")
  case True
  have "val = 0"
  proof (rule bit_word_eqI)
    fix i
    show "bit val i = bit 0 i"
      using assms(3) [rule_format, of "n - 1 - i"] assms(5) True by (cases "i < n") auto
  qed
  then show ?thesis using True by (simp add: MaskBits_0)
next
  case False
  have "\<not> bit val i" if "i < n - j" for i
    using assms(3) [rule_format, of "n - 1 - i"] that by auto
  then show ?thesis using False assms MaskBits_last_bit [of val "n - j" n] by auto
qed

lemma prefixLength6_loop_last_bit:
  "length bytes = 16 \<Longrightarrow> i \<le> 8 \<Longrightarrow> last_bit bytes (16 * i) k \<Longrightarrow> prefixLength6_loop bytes i (16 * i) = k"
proof (induction i)
  case 0
  then show ?case by (simp add: last_bit_def)
next
  case (Suc i)
  let ?w = "From16Network (word16 bytes i)" and ?j = "k - 16 * i"
  have b: "addr_bit bytes (16 * i + j) = bit ?w (15 - j)" if "j < 16" for j
    using Suc.prems that by (intro addr_bit_word16) auto
  have up: "\<not> bit ?w (15 - j)" if "j < 16" "?j \<le> j" for j
    using Suc.prems(3) that b [of j] by (auto simp: last_bit_def)
  have top: "bit ?w (16 - ?j)" if "0 < ?j"
    using Suc.prems(3) that b [of "?j - 1"] by (auto simp: last_bit_def)
  have m: "MaskBits (ucast ?w) 16 = ?j"
    using Suc.prems(3) up top by (intro MaskBits_last_bit_rev) (auto simp: last_bit_def bit_simps dest: bit_imp_le_length)
  show ?case
  proof (cases "?j = 0")
    case True
    then have "last_bit bytes (16 * i) k" using Suc.prems(3) by (auto simp: last_bit_def)
    then show ?thesis using Suc True m by (simp add: Let_def)
  next
    case False
    then show ?thesis using Suc.prems(3) m by (auto simp: Let_def last_bit_def)
  qed
qed

text \<open>
  The prefix length of an address is the number of its bits up to the last one set, in both
  families; it is the length of the mask for a network mask.
\<close>

theorem prefixLength_last_bit:
  assumes "cls p = IPv6 \<Longrightarrow> length (ipv6 p) = 16"
    and "last_bit (impl_data p) (8 * impl_size p) k"
  shows "prefixLength p = k"
proof (cases "cls p")
  case IPv4
  have l: "last_bit (le_bytes 4 (ipv4 p)) 32 k" using assms(2) IPv4 by (simp add: impl_data_def impl_size_def)
  have "MaskBits (From32Network (ipv4 p)) 32 = k"
    using l by (intro MaskBits_last_bit_rev) (auto simp: last_bit_def addr_bit_le_bytes not_le simp del: le_bytes_numeral dest: bit_imp_le_length)
  then show ?thesis using IPv4 by (simp add: prefixLength_def prefixLength4_def)
next
  case IPv6
  then show ?thesis using assms prefixLength6_loop_last_bit [of "ipv6 p" 8 k]
    by (simp add: impl_data_def impl_size_def prefixLength_def prefixLength6_def)
qed

theorem prefixLength_last_bit_witness:
  "prefixLength (IPImpl_in_addr (To32Network 0xFFFFF000) 0
     \<lparr>sin6_family = IPv6, sin6_port = 0, sin6_flowinfo = 0, sin6_addr = [], sin6_scope_id = 0\<rparr>) = 20"
proof (rule prefixLength_last_bit, goal_cases)
  case 1
  then show ?case by (simp add: IPImpl_in_addr_def mk_impl_def)
next
  case 2
  have "list_all (\<lambda>i. (20 \<le> i \<longrightarrow> \<not> addr_bit (le_bytes 4 (To32Network 0xFFFFF000)) i)) [0..<32] \<and>
    addr_bit (le_bytes 4 (To32Network 0xFFFFF000)) 19"
    by code_simp
  then show ?case
    by (simp add: last_bit_def list_all_iff impl_data_def impl_size_def IPImpl_in_addr_def mk_impl_def ipv4_def
        del: le_bytes_numeral)
qed

section \<open>Ranges of addresses\<close>

lemmas IPv4_methods =
  isWildcard_def isBroadcast_def isAnyBroadcast_def isLoopback_def isMulticast_def isLinkLocal_def
  isSiteLocal_def isWellKnownMC_def isLinkLocalMC_def isSiteLocalMC_def isOrgLocalMC_def isGlobalMC_def
  isWildcard4_def isBroadcast4_def isAnyBroadcast4_def isLoopback4_def isMulticast4_def isLinkLocal4_def
  isSiteLocal4_def isWellKnownMC4_def isLinkLocalMC4_def isSiteLocalMC4_def isOrgLocalMC4_def isGlobalMC4_def

definition in_range :: "IPImpl \<Rightarrow> u32 \<Rightarrow> u32 \<Rightarrow> bool" where
  "in_range p lo hi \<longleftrightarrow> lo \<le> From32Network (ipv4 p) \<and> From32Network (ipv4 p) \<le> hi"

lemma mask_ranges:
  fixes a :: u32
  shows "a AND 0xFF000000 = 0x7F000000 \<longleftrightarrow> 0x7F000000 \<le> a \<and> a \<le> 0x7FFFFFFF"
    "a AND 0xFF000000 = 0x0A000000 \<longleftrightarrow> 0x0A000000 \<le> a \<and> a \<le> 0x0AFFFFFF"
    "a AND 0xFF000000 = 0xE0000000 \<longleftrightarrow> 0xE0000000 \<le> a \<and> a \<le> 0xE0FFFFFF"
    "a AND 0xF0000000 = 0xE0000000 \<longleftrightarrow> 0xE0000000 \<le> a \<and> a \<le> 0xEFFFFFFF"
    "a AND 0xFFFF0000 = 0xA9FE0000 \<longleftrightarrow> 0xA9FE0000 \<le> a \<and> a \<le> 0xA9FEFFFF"
    "a AND 0xFFFF0000 = 0xC0A80000 \<longleftrightarrow> 0xC0A80000 \<le> a \<and> a \<le> 0xC0A8FFFF"
    "a AND 0xFFFF0000 = 0xEFFF0000 \<longleftrightarrow> 0xEFFF0000 \<le> a \<and> a \<le> 0xEFFFFFFF"
    "a AND 0xFFFF0000 = 0xEFC00000 \<longleftrightarrow> 0xEFC00000 \<le> a \<and> a \<le> 0xEFC0FFFF"
    "a AND 0xFFFFFF00 = 0xE0000000 \<longleftrightarrow> 0xE0000000 \<le> a \<and> a \<le> 0xE00000FF"
  by (subst and_mask_range [where k = 24] and_mask_range [where k = 28] and_mask_range [where k = 16]
        and_mask_range [where k = 8], code_simp, simp, code_simp, simp add: mask_eq_exp_minus_1)+

text \<open>
  The classes of IPv4 addresses are ranges: loopback 127.0.0.0 to 127.255.255.255, multicast
  224.0.0.0 to 239.255.255.255, link-local 169.254.x.x, site-local 10.x.x.x, 192.168.x.x and 172.16.0.0
  to 172.31.255.255; and every multicast class, the global one included, is inside the multicast range.
\<close>

theorem IPv4_classes_are_ranges:
  assumes "cls p = IPv4"
  shows "(isLoopback p \<longleftrightarrow> in_range p 0x7F000000 0x7FFFFFFF) \<and>
    (isMulticast p \<longleftrightarrow> in_range p 0xE0000000 0xEFFFFFFF) \<and>
    (isLinkLocal p \<longleftrightarrow> in_range p 0xA9FE0000 0xA9FEFFFF) \<and>
    (isSiteLocal p \<longleftrightarrow> in_range p 0x0A000000 0x0AFFFFFF \<or> in_range p 0xC0A80000 0xC0A8FFFF \<or>
       in_range p 0xAC100000 0xAC1FFFFF) \<and>
    (isWellKnownMC p \<or> isLinkLocalMC p \<or> isSiteLocalMC p \<or> isOrgLocalMC p \<or> isGlobalMC p \<longrightarrow> isMulticast p)"
  using assms
  by (intro conjI) (simp_all add: IPv4_methods mask_ranges in_range_def Let_def, auto simp: word_le_def)

theorem IPv4_classes_are_ranges_witness:
  "isLoopback (IPImpl_wildcard IPv4) \<longleftrightarrow> in_range (IPImpl_wildcard IPv4) 0x7F000000 0x7FFFFFFF"
  using IPv4_classes_are_ranges [of "IPImpl_wildcard IPv4"] by (simp add: IPImpl_wildcard_def mk_impl_def)

text \<open>The comment of \<open>isGlobalMC\<close> ends the range at 238.255.255.255; the code ends it at 238.0.0.0.\<close>

lemma isGlobalMC_stops_at_238_0_0_0:
  "\<not> isGlobalMC (IPImpl_in_addr (To32Network 0xEE000001) port m)"
  by (simp add: IPv4_methods IPImpl_in_addr_def mk_impl_def ipv4_def order_defs Let_def)

text \<open>
  The 11-bit mask of \<open>IPv6Impl::isMulticast\<close> leaves out the addresses with the flags P and R: the
  prefix-based multicast address ff3f:: is in the global multicast class and is not multicast.
\<close>

lemma isMulticast6_misses_prefix_based:
  "isGlobalMC (IPImpl_in6_addr (0xFF # 0x0F # replicate 14 0) 0 port m)"
  "\<not> isMulticast (IPImpl_in6_addr (0xFF # 0x3E # replicate 14 0) 0 port m)"
  by (simp_all add: isGlobalMC_def isGlobalMC6_def isMulticast_def isMulticast6_def IPImpl_in6_addr_def mk_impl_def
      first_word_def ipv6_def word16_def order_defs Flip16_def)

section \<open>The order of addresses\<close>

lemma memcmp_refl [simp]: "memcmp n a a = 0"
  by (induction n arbitrary: a) auto

lemma memcmp_head:
  "hd a < hd b \<Longrightarrow> memcmp (Suc n) a b = -1"
  "hd b < hd a \<Longrightarrow> memcmp (Suc n) a b = 1"
  "hd a = hd b \<Longrightarrow> memcmp (Suc n) a b = memcmp n (tl a) (tl b)"
  by (auto dest: order.strict_implies_not_eq order.asym)

lemma memcmp_swap: "memcmp n b a = - memcmp n a b"
proof (induction n arbitrary: a b)
  case (Suc n)
  show ?case using Suc [of "tl b" "tl a"]
    by (cases "hd a" "hd b" rule: linorder_cases) (simp_all only: memcmp_head minus_minus)
qed simp

lemma memcmp_trans:
  "memcmp n a b \<le> 0 \<Longrightarrow> memcmp n b c \<le> 0 \<Longrightarrow>
   memcmp n a c \<le> 0 \<and> (memcmp n a b < 0 \<or> memcmp n b c < 0 \<longrightarrow> memcmp n a c < 0)"
proof (induction n arbitrary: a b c)
  case (Suc n)
  have ab: "hd a \<le> hd b" and bc: "hd b \<le> hd c" using Suc.prems by (simp_all split: if_splits)
  show ?case
  proof (cases "hd a = hd b \<and> hd b = hd c")
    case True
    then show ?thesis using Suc.prems Suc.IH [of "tl a" "tl b" "tl c"] by simp
  next
    case False
    then have "hd a < hd c" using ab bc by (metis order.strict_trans2 order.strict_trans1 order_le_less)
    then have "memcmp (Suc n) a c = -1" by (rule memcmp_head)
    then show ?thesis by simp
  qed
qed simp

lemma memcmp_cotrans: "memcmp n a c < 0 \<Longrightarrow> memcmp n a b < 0 \<or> memcmp n b c < 0"
  using memcmp_trans [of n c b a] memcmp_swap [of n a b] memcmp_swap [of n b c] memcmp_swap [of n a c]
  by linarith

lemma memcmp_eq_0: "length a = n \<Longrightarrow> length b = n \<Longrightarrow> memcmp n a b = 0 \<longleftrightarrow> a = b"
proof (induction n arbitrary: a b)
  case (Suc n)
  then show ?case by (cases a; cases b) auto
qed simp

lemma ip_less_irrefl: "\<not> ip_less p p"
  by (simp add: ip_less_def)

lemma ip_less_trans: "ip_less p q \<Longrightarrow> ip_less q r \<Longrightarrow> ip_less p r"
  using memcmp_trans [of "impl_size p" "impl_data p" "impl_data q" "impl_data r"]
  by (auto simp: ip_less_def split: if_splits)

lemma ip_less_cotrans: "ip_less p r \<Longrightarrow> ip_less p q \<or> ip_less q r"
  using memcmp_cotrans [of "impl_size p" "impl_data p" "impl_data r" "impl_data q"]
  by (auto simp: ip_less_def split: if_splits)

interpretation ipaddress: strict_weak_order ip_less
  by unfold_locales (fact ip_less_irrefl ip_less_trans ip_less_cotrans)+

lemma ip_equal_iff: "ip_equal p q \<longleftrightarrow> eqv ip_less p q"
  using memcmp_swap [of "impl_size p" "impl_data p" "impl_data q"]
  by (auto simp: ip_equal_def ip_less_def eqv_def)

text \<open>Equal addresses have the same class, so the comparison of socket addresses is lexicographic.\<close>

lemma ip_equal_cls: "ip_equal p q \<Longrightarrow> cls p = cls q"
  by (cases "cls p"; cases "cls q") (auto simp: ip_equal_def impl_size_def)

lemma socketaddress_less_iff:
  "socketaddress_less p q \<longleftrightarrow>
     family_number (cls p) < family_number (cls q) \<or>
     cls p = cls q \<and> (ip_less p q \<or> ip_equal p q \<and> impl_port p < impl_port q)"
  using ip_less_irrefl by (cases "cls p"; cases "cls q") (auto simp: socketaddress_less_def ip_equal_iff eqv_def)

lemma socketaddress_less_irrefl: "\<not> socketaddress_less p p"
  by (simp add: socketaddress_less_iff ip_less_irrefl)

lemma socketaddress_less_trans:
  "socketaddress_less p q \<Longrightarrow> socketaddress_less q r \<Longrightarrow> socketaddress_less p r"
  unfolding socketaddress_less_iff ip_equal_iff eqv_def
  using ip_less_trans ip_less_cotrans by (smt (verit) order.strict_trans)

lemma socketaddress_less_cotrans:
  "socketaddress_less p r \<Longrightarrow> socketaddress_less p q \<or> socketaddress_less q r"
proof -
  assume "socketaddress_less p r"
  moreover have "impl_port p < impl_port r \<Longrightarrow> impl_port p < impl_port q \<or> impl_port q < impl_port r"
    by (metis linorder_less_linear order.strict_trans)
  moreover note ip_less_cotrans [of p r q] ip_less_cotrans [of q r p] ip_less_cotrans [of q p r]
    ip_less_cotrans [of p q r] ip_less_cotrans [of r q p] ip_less_cotrans [of r p q]
  ultimately show ?thesis
    unfolding socketaddress_less_iff ip_equal_iff eqv_def
    by (cases "cls p"; cases "cls q"; cases "cls r") (simp_all, blast+)
qed

interpretation socketaddress: strict_weak_order socketaddress_less
  by unfold_locales (fact socketaddress_less_irrefl socketaddress_less_trans socketaddress_less_cotrans)+

lemma socketaddress_equal_iff: "socketaddress_equal p q \<longleftrightarrow> eqv socketaddress_less p q"
  using ip_equal_cls [of p q]
  unfolding socketaddress_less_iff socketaddress_equal_def ip_equal_iff eqv_def
  by (cases "cls p"; cases "cls q") (auto simp: not_less_iff_gr_or_eq)

text \<open>
  Socket addresses are totally ordered by family, address and port: the order is irreflexive and
  transitive, exactly one of less, equal and greater holds, and equality is that of the parts.
\<close>

theorem SocketAddress_order:
  "\<not> socketaddress_less p p \<and>
   (socketaddress_less p q \<and> socketaddress_less q r \<longrightarrow> socketaddress_less p r) \<and>
   (socketaddress_less p q \<or> socketaddress_equal p q \<or> socketaddress_less q p) \<and>
   \<not> (socketaddress_less p q \<and> socketaddress_equal p q)"
  using socketaddress.irrefl socketaddress.trans by (auto simp: socketaddress_equal_iff eqv_def)

theorem SocketAddress_order_witness:
  "socketaddress_less (IPImpl_wildcard IPv4) (IPImpl_wildcard IPv6) \<and>
   \<not> socketaddress_equal (IPImpl_wildcard IPv4) (IPImpl_wildcard IPv6)"
proof -
  have l: "socketaddress_less (IPImpl_wildcard IPv4) (IPImpl_wildcard IPv6)"
    by (simp add: socketaddress_less_def IPImpl_wildcard_def mk_impl_def)
  then show ?thesis using SocketAddress_order [of "IPImpl_wildcard IPv4" "IPImpl_wildcard IPv6"] by blast
qed

end
