(* ===== verification/IpAddr.thy ===== *)
theory IpAddr
  imports IpImpl Binary_Reader
begin

text \<open>
  Mona/Net/IPAddress.cpp and SocketAddress.cpp: an \<open>IPAddress\<close> is a shared pointer to an \<open>IPImpl\<close>, and a
  \<open>SocketAddress\<close> is an \<open>IPAddress\<close> whose port shows. The objects are kept in a store, a pointer is the
  index of its object, and copies of an address share it; objects are never freed here.
  The system functions (\<open>inet_aton\<close>, \<open>inet_pton\<close>, \<open>if_nametoindex\<close>, \<open>if_indextoname\<close>) and the answer of
  \<open>DNS::HostByName\<close> are parameters.
  Threads may share an address: the only operation that is not one step on the shared object is \<open>addr()\<close>.
  The lemmas show that no operation changes the host of an object others may hold, nor a port that is
  set, what \<open>setPort\<close> gives, and that a native socket address is read back as the same address.
\<close>

section \<open>The store\<close>

text \<open>\<open>fresh\<close> is what the memory of the next objects holds before their construction.\<close>

record ip_store =
  impls :: "IPImpl list"
  fresh :: "nat \<Rightarrow> sockaddr_in6"

record net_env =
  inet_aton :: "string \<Rightarrow> u32 option"
  inet_pton6 :: "string \<Rightarrow> byte list option"
  if_nametoindex :: "string \<Rightarrow> u32"
  if_indextoname :: "u32 \<Rightarrow> string option"

datatype ip_error =
  Invalid_IP | Invalid_IPv6 | Invalid_IPv4 | No_IP_found | DNS_error | Mask_not_IPv4
| Invalid_Port | Missing_Port | Length_Error

text \<open>The static wildcards are the first two objects of the store.\<close>

definition Wildcard :: "Family \<Rightarrow> nat" where
  "Wildcard family = (if family = IPv6 then 1 else 0)"

definition initial_store :: "(nat \<Rightarrow> sockaddr_in6) \<Rightarrow> ip_store" where
  "initial_store f = \<lparr>impls = [IPImpl_wildcard IPv4, IPImpl_wildcard IPv6], fresh = f\<rparr>"

text \<open>A memory to run the examples on.\<close>

definition blank :: "nat \<Rightarrow> sockaddr_in6" where
  "blank = (\<lambda>_. \<lparr>sin6_family = IPv4, sin6_port = 7, sin6_flowinfo = 7, sin6_addr = [], sin6_scope_id = 7\<rparr>)"

definition impl :: "ip_store \<Rightarrow> nat \<Rightarrow> IPImpl" where
  "impl s r = impls s ! r"

definition new_impl :: "(sockaddr_in6 \<Rightarrow> IPImpl) \<Rightarrow> ip_store \<Rightarrow> nat \<times> ip_store" where
  "new_impl c s =
     (let r = length (impls s) in (r, s\<lparr>impls := impls s @ [c (fresh s r)]\<rparr>))"

definition update_impl :: "nat \<Rightarrow> IPImpl \<Rightarrow> ip_store \<Rightarrow> ip_store" where
  "update_impl r p s = s\<lparr>impls := (impls s)[r := p]\<rparr>"

section \<open>IPAddress\<close>

definition IPAddress_setPort :: "u16 \<Rightarrow> nat \<Rightarrow> ip_store \<Rightarrow> nat \<times> ip_store" where
  "IPAddress_setPort port r s =
     (case impl_setPort port (impl s r) of (ok, p) \<Rightarrow>
        (let s1 = update_impl r p s
         in if ok then (r, s1)
            else if cls p = IPv6 then new_impl (IPImpl_in6_addr (ipv6 p) (impl_scope p) port) s1
            else new_impl (IPImpl_in_addr (ipv4 p) port) s1))"

definition IPAddress_port :: "nat \<Rightarrow> ip_store \<Rightarrow> u16" where
  "IPAddress_port r s = impl_port (impl s r)"

definition IPAddress_addr :: "nat \<Rightarrow> ip_store \<Rightarrow> sockaddr_in6 \<times> ip_store" where
  "IPAddress_addr r s = (case impl_addr (impl s r) of (a, p) \<Rightarrow> (a, update_impl r p s))"

definition IPAddress_toString :: "net_env \<Rightarrow> nat \<Rightarrow> ip_store \<Rightarrow> string \<times> ip_store" where
  "IPAddress_toString env r s =
     (let p = impl_stringize (if_indextoname env) (impl s r) in (host_text p, update_impl r p s))"

definition IPAddress_addrToString :: "net_env \<Rightarrow> nat \<Rightarrow> ip_store \<Rightarrow> string \<times> ip_store" where
  "IPAddress_addrToString env r s =
     (let p = impl_stringize (if_indextoname env) (impl s r) in (address_text p, update_impl r p s))"

definition IPAddress_reset :: "nat \<Rightarrow> ip_store \<Rightarrow> nat" where
  "IPAddress_reset r s = Wildcard (cls (impl s r))"

text \<open>\<open>IPAddress(const IPAddress& other, uint16_t port)\<close> and \<open>set(const IPAddress& other, uint16_t port)\<close>.\<close>

definition IPAddress_set :: "nat \<Rightarrow> u16 \<Rightarrow> ip_store \<Rightarrow> nat \<times> ip_store" where
  "IPAddress_set other port s = IPAddress_setPort port other s"

text \<open>\<open>set(other)\<close> keeps the port of the address that is set.\<close>

definition IPAddress_assign :: "nat \<Rightarrow> nat \<Rightarrow> ip_store \<Rightarrow> nat \<times> ip_store" where
  "IPAddress_assign r other s = IPAddress_set other (IPAddress_port r s) s"

definition IPAddress_sockaddr :: "sockaddr \<Rightarrow> ip_store \<Rightarrow> nat \<times> ip_store" where
  "IPAddress_sockaddr addr s =
     (if IsIPv4Sock addr then new_impl (\<lambda>m. IPImpl_sockaddr IPv4 addr) s
      else new_impl (\<lambda>m. IPImpl_sockaddr IPv6 addr) s)"

definition IPAddress_set_in_addr :: "u32 \<Rightarrow> u16 \<Rightarrow> ip_store \<Rightarrow> nat \<times> ip_store" where
  "IPAddress_set_in_addr addr port s = new_impl (IPImpl_in_addr addr port) s"

definition IPAddress_set_in6_addr :: "byte list \<Rightarrow> u32 \<Rightarrow> u16 \<Rightarrow> ip_store \<Rightarrow> nat \<times> ip_store" where
  "IPAddress_set_in6_addr addr scope port s = new_impl (IPImpl_in6_addr addr scope port) s"

text \<open>
  \<open>set(BinaryReader&, Family)\<close>; \<open>r\<close> is None in a constructor, \<open>junk\<close> is what the uninitialised variable
  \<open>addr\<close> holds. \<open>reader.next\<close> gives \<open>size\<close>, so the \<open>memset\<close> has a length of 0 and writes nothing.
\<close>

definition read_addr :: "nat \<Rightarrow> byte list \<Rightarrow> reader \<Rightarrow> byte list \<times> reader" where
  "read_addr n junk reader =
     (let size' = min (BinaryReader_available reader) n;
          addr = take size' (drop (rcur reader) (rdata reader)) @ drop size' junk
      in (case BinaryReader_next n reader of (k, reader') \<Rightarrow>
            (take size' addr @ replicate (size' - k) 0 @ drop (size' + (size' - k)) addr, reader')))"

definition port_of :: "nat option \<Rightarrow> ip_store \<Rightarrow> u16" where
  "port_of r s = (case r of None \<Rightarrow> 0 | Some r \<Rightarrow> IPAddress_port r s)"

definition IPAddress_read ::
  "byte list \<Rightarrow> Family \<Rightarrow> nat option \<Rightarrow> reader \<Rightarrow> ip_store \<Rightarrow> nat \<times> reader \<times> ip_store" where
  "IPAddress_read junk family r reader s =
     (if family = IPv6 then
        (case read_addr 16 junk reader of (addr, reader') \<Rightarrow>
           (case new_impl (IPImpl_in6_addr addr 0 (port_of r s)) s of (r', s') \<Rightarrow> (r', reader', s')))
      else
        (case read_addr 4 junk reader of (addr, reader') \<Rightarrow>
           (case new_impl (IPImpl_in_addr (of_le addr) (port_of r s)) s of (r', s') \<Rightarrow> (r', reader', s'))))"

section \<open>Parsing\<close>

definition IPv4_Parse :: "net_env \<Rightarrow> string \<Rightarrow> ip_store \<Rightarrow> (nat \<times> ip_store) option" where
  "IPv4_Parse env address s =
     (let address' = (if IEqual address None ''localhost'' then ''127.0.0.1'' else address)
      in case inet_aton env address' of
           None \<Rightarrow> None
         | Some ia \<Rightarrow> Some (new_impl (IPImpl_in_addr ia 0) s))"

text \<open>
  \<open>IPv6Impl::Parse\<close>. The text between brackets has the length \<open>strlen(address) - 2\<close>, which wraps for
  a lone bracket: \<open>std::string\<close> throws a \<open>length_error\<close>. The address is its C text.
\<close>

datatype parsed6 = Not_IPv6 | Parsed6 "byte list" u32 | Throws

definition IPv6_Parse_text :: "net_env \<Rightarrow> string \<Rightarrow> parsed6" where
  "IPv6_Parse_text env address =
     (if address = [] then Not_IPv6
      else
        (case dropWhile (\<lambda>c. c \<noteq> CHR ''%'') address of
           _ # name \<Rightarrow>
             (let scope = if_nametoindex env name;
                  host = takeWhile (\<lambda>c. c \<noteq> CHR ''%'') (if hd address = CHR ''['' then tl address else address)
              in if scope = 0 then Not_IPv6
                 else (case inet_pton6 env host of None \<Rightarrow> Not_IPv6 | Some ia \<Rightarrow> Parsed6 ia scope))
         | [] \<Rightarrow>
             (let address' = (if IEqual address None ''localhost'' then ''::1'' else address)
              in if hd address' = CHR ''['' then
                   (if length address' < 2 then Throws
                    else (case inet_pton6 env (take (length address' - 2) (tl address')) of
                            None \<Rightarrow> Not_IPv6 | Some ia \<Rightarrow> Parsed6 ia 0))
                 else (case inet_pton6 env address' of None \<Rightarrow> Not_IPv6 | Some ia \<Rightarrow> Parsed6 ia 0))))"

definition IPv6_Parse ::
  "net_env \<Rightarrow> string \<Rightarrow> ip_error \<Rightarrow> ip_store \<Rightarrow> ip_error + (nat \<times> ip_store)" where
  "IPv6_Parse env address err s =
     (case IPv6_Parse_text env address of
        Not_IPv6 \<Rightarrow> Inl err
      | Throws \<Rightarrow> Inl Length_Error
      | Parsed6 ia scope \<Rightarrow> Inr (new_impl (IPImpl_in6_addr ia scope 0) s))"

text \<open>
  \<open>set(ex, address, port)\<close>: the port is set on the object just created, whatever \<open>setPort\<close> of the object
  answers.
\<close>

definition set_new_port :: "u16 \<Rightarrow> nat \<times> ip_store \<Rightarrow> nat \<times> ip_store" where
  "set_new_port port = (\<lambda>(r, s). (r, update_impl r (snd (impl_setPort port (impl s r))) s))"

definition IPAddress_set_text ::
  "net_env \<Rightarrow> string \<Rightarrow> u16 \<Rightarrow> ip_store \<Rightarrow> ip_error + (nat \<times> ip_store)" where
  "IPAddress_set_text env address port s =
     (case IPv4_Parse env address s of
        Some a \<Rightarrow> Inr (set_new_port port a)
      | None \<Rightarrow> map_sum id (set_new_port port) (IPv6_Parse env address Invalid_IP s))"

definition IPAddress_set_text_family ::
  "net_env \<Rightarrow> string \<Rightarrow> Family \<Rightarrow> u16 \<Rightarrow> ip_store \<Rightarrow> ip_error + (nat \<times> ip_store)" where
  "IPAddress_set_text_family env address family port s =
     (if family = IPv6 then map_sum id (set_new_port port) (IPv6_Parse env address Invalid_IPv6 s)
      else (case IPv4_Parse env address s of
              None \<Rightarrow> Inl Invalid_IPv4
            | Some a \<Rightarrow> Inr (set_new_port port a)))"

text \<open>\<open>addresses\<close>: what \<open>DNS::HostByName\<close> gives for the name, in the order of its set.\<close>

definition IPAddress_Resolve :: "nat list option \<Rightarrow> nat \<Rightarrow> ip_store \<Rightarrow> ip_error + (nat \<times> ip_store)" where
  "IPAddress_Resolve addresses host s =
     (case addresses of
        None \<Rightarrow> Inl DNS_error
      | Some [] \<Rightarrow> Inl No_IP_found
      | Some (a # as) \<Rightarrow>
          (case find (\<lambda>r. cls (impl s r) = IPv4) (a # as) of
             Some r \<Rightarrow> Inr (IPAddress_assign host r s)
           | None \<Rightarrow> Inr (IPAddress_assign host a s)))"

definition setInternWithDNS ::
  "net_env \<Rightarrow> string \<Rightarrow> nat list option \<Rightarrow> u16 \<Rightarrow> ip_store \<Rightarrow> ip_error + (nat \<times> ip_store)" where
  "setInternWithDNS env address addresses port s =
     (case IPAddress_set_text env address port s of
        Inr a \<Rightarrow> Inr a
      | Inl Length_Error \<Rightarrow> Inl Length_Error
      | Inl _ \<Rightarrow>
          (case IPAddress_Resolve addresses (Wildcard IPv4) s of
             Inl e \<Rightarrow> Inl e
           | Inr (host, s') \<Rightarrow> Inr (IPAddress_set host port s')))"

definition IPAddress_mask :: "nat \<Rightarrow> nat \<Rightarrow> nat \<Rightarrow> ip_store \<Rightarrow> ip_error + (nat \<times> ip_store)" where
  "IPAddress_mask r mask' set' s =
     (if cls (impl s r) \<noteq> IPv4 \<or> cls (impl s mask') \<noteq> IPv4 \<or> cls (impl s set') \<noteq> IPv4
      then Inl Mask_not_IPv4
      else Inr (new_impl (IPImpl_mask (ipv4 (impl s r)) (ipv4 (impl s mask')) (ipv4 (impl s set'))
                            (IPAddress_port r s)) s))"

definition Broadcast :: "ip_store \<Rightarrow> nat \<times> ip_store" where
  "Broadcast s = IPAddress_set_in_addr 0xFFFFFFFF (IPAddress_port (Wildcard IPv4) s) s"

definition Loopback :: "Family \<Rightarrow> ip_store \<Rightarrow> nat \<times> ip_store" where
  "Loopback family s =
     (if family = IPv6
      then IPAddress_set_in6_addr (replicate 14 0 @ le_bytes 2 (To16Network 1)) 0
             (IPAddress_port (Wildcard IPv6) s) s
      else IPAddress_set_in_addr (To32Network 0x7F000001) (IPAddress_port (Wildcard IPv4) s) s)"

section \<open>SocketAddress\<close>

definition to_port :: "string \<Rightarrow> u16 option" where
  "to_port t = (case tryNumber 10 0 65535 t of Number n _ \<Rightarrow> Some (word_of_int n) | _ \<Rightarrow> None)"

definition SplitLiteral :: "string \<Rightarrow> u16 \<times> string" where
  "SplitLiteral value =
     (case dropWhile (\<lambda>c. c \<noteq> CHR '':'') value of
        [] \<Rightarrow> (0, value)
      | _ # rest \<Rightarrow>
          (case to_port rest of
             None \<Rightarrow> (0, value)
           | Some port \<Rightarrow> (port, takeWhile (\<lambda>c. c \<noteq> CHR '':'') value)))"

definition SocketAddress_setPort_text ::
  "string \<Rightarrow> nat \<Rightarrow> ip_store \<Rightarrow> ip_error + (nat \<times> ip_store)" where
  "SocketAddress_setPort_text port r s =
     (case to_port port of None \<Rightarrow> Inl Invalid_Port | Some n \<Rightarrow> Inr (IPAddress_setPort n r s))"

definition SocketAddress_set_host_port ::
  "nat \<Rightarrow> nat \<Rightarrow> string \<Rightarrow> ip_store \<Rightarrow> ip_error + (nat \<times> ip_store)" where
  "SocketAddress_set_host_port r host port s =
     (case SocketAddress_setPort_text port r s of
        Inl e \<Rightarrow> Inl e
      | Inr (r', s') \<Rightarrow> Inr (IPAddress_assign r' host s'))"

definition SocketAddress_read ::
  "byte list \<Rightarrow> Family \<Rightarrow> nat option \<Rightarrow> reader \<Rightarrow> ip_store \<Rightarrow> nat \<times> reader \<times> ip_store" where
  "SocketAddress_read junk family r reader s =
     (case IPAddress_read junk family r reader s of (r1, reader1, s1) \<Rightarrow>
        (case BinaryReader_read16 reader1 of (port, reader2) \<Rightarrow>
           (case IPAddress_setPort port r1 s1 of (r2, s2) \<Rightarrow> (r2, reader2, s2))))"

definition setIntern_port ::
  "net_env \<Rightarrow> string \<Rightarrow> u16 \<Rightarrow> nat list option option \<Rightarrow> ip_store \<Rightarrow> ip_error + (nat \<times> ip_store)" where
  "setIntern_port env host port resolveHost s =
     (case resolveHost of
        Some addresses \<Rightarrow> setInternWithDNS env host addresses port s
      | None \<Rightarrow> IPAddress_set_text env host port s)"

definition setIntern_texts ::
  "net_env \<Rightarrow> string \<Rightarrow> string option \<Rightarrow> nat list option option \<Rightarrow> ip_store \<Rightarrow> ip_error + (nat \<times> ip_store)" where
  "setIntern_texts env host port resolveHost s =
     (case port of
        None \<Rightarrow> setIntern_port env host 0 resolveHost s
      | Some t \<Rightarrow>
          (case to_port t of
             None \<Rightarrow> Inl Invalid_Port
           | Some n \<Rightarrow> setIntern_port env host n resolveHost s))"

definition setIntern ::
  "net_env \<Rightarrow> string \<Rightarrow> nat list option option \<Rightarrow> ip_store \<Rightarrow> ip_error + (nat \<times> ip_store)" where
  "setIntern env hostAndPort resolveHost s =
     (if CHR '':'' \<in> set hostAndPort then
        (let port = rev (takeWhile (\<lambda>c. c \<noteq> CHR '':'') (rev hostAndPort));
             host = take (length hostAndPort - length port - 1) hostAndPort
         in setIntern_texts env host (Some port) resolveHost s)
      else Inl Missing_Port)"


section \<open>Steps\<close>

text \<open>One step of the program on the store: any operation on any of the addresses it holds.\<close>

inductive ip_step :: "net_env \<Rightarrow> ip_store \<Rightarrow> ip_store \<Rightarrow> bool" for env where
  step_setPort: "r < length (impls s) \<Longrightarrow> IPAddress_setPort port r s = (r', s') \<Longrightarrow> ip_step env s s'"
| step_addr: "r < length (impls s) \<Longrightarrow> IPAddress_addr r s = (a, s') \<Longrightarrow> ip_step env s s'"
| step_toString: "r < length (impls s) \<Longrightarrow> IPAddress_toString env r s = (t, s') \<Longrightarrow> ip_step env s s'"
| step_addrToString: "r < length (impls s) \<Longrightarrow> IPAddress_addrToString env r s = (t, s') \<Longrightarrow> ip_step env s s'"
| step_assign: "r < length (impls s) \<Longrightarrow> q < length (impls s) \<Longrightarrow> IPAddress_assign r q s = (r', s') \<Longrightarrow> ip_step env s s'"
| step_sockaddr: "IPAddress_sockaddr sa s = (r', s') \<Longrightarrow> ip_step env s s'"
| step_in_addr: "IPAddress_set_in_addr ia port s = (r', s') \<Longrightarrow> ip_step env s s'"
| step_in6_addr: "IPAddress_set_in6_addr i6 scope port s = (r', s') \<Longrightarrow> ip_step env s s'"
| step_read: "SocketAddress_read junk family r reader s = (r', reader', s') \<Longrightarrow> ip_step env s s'"
| step_text: "IPAddress_set_text env t port s = Inr (r', s') \<Longrightarrow> ip_step env s s'"
| step_text_family: "IPAddress_set_text_family env t family port s = Inr (r', s') \<Longrightarrow> ip_step env s s'"
| step_dns: "set as \<subseteq> {..<length (impls s)} \<Longrightarrow> 0 < length (impls s) \<Longrightarrow>
    setInternWithDNS env t (Some as) port s = Inr (r', s') \<Longrightarrow> ip_step env s s'"
| step_mask: "IPAddress_mask r m q s = Inr (r', s') \<Longrightarrow> ip_step env s s'"
| step_host_port: "r < length (impls s) \<Longrightarrow> q < length (impls s) \<Longrightarrow>
    SocketAddress_set_host_port r q t s = Inr (r', s') \<Longrightarrow> ip_step env s s'"

text \<open>
  Threads that share addresses: an operation acts on a shared object in one step, but for \<open>addr()\<close>: \<open>late\<close> are the
  objects of the calls that have seen \<open>_portSet\<close> false and have not taken the lock yet.
\<close>

inductive ip_threads :: "net_env \<Rightarrow> ip_store \<times> nat list \<Rightarrow> ip_store \<times> nat list \<Rightarrow> bool" for env where
  threads_step: "ip_step env s s' \<Longrightarrow> ip_threads env (s, late) (s', late)"
| threads_addr_test: "r < length (impls s) \<Longrightarrow> \<not> portSet (impl s r) \<Longrightarrow> ip_threads env (s, late) (s, r # late)"
| threads_addr_set: "r \<in> set late \<Longrightarrow>
    ip_threads env (s, late) (update_impl r (impl_addr_locked (impl s r)) s, remove1 r late)"

section \<open>What objects keep\<close>

definition same_host :: "IPImpl \<Rightarrow> IPImpl \<Rightarrow> bool" where
  "same_host p q \<longleftrightarrow> cls p = cls q \<and> ipv4 p = ipv4 q \<and> ipv6 p = ipv6 q \<and>
     sin6_scope_id (saddr p) = sin6_scope_id (saddr q)"

definition kept :: "ip_store \<Rightarrow> ip_store \<Rightarrow> bool" where
  "kept s s' \<longleftrightarrow> length (impls s) \<le> length (impls s') \<and>
     (\<forall>r<length (impls s). same_host (impl s r) (impl s' r) \<and>
        (portSet (impl s r) \<longrightarrow> portSet (impl s' r) \<and> impl_port (impl s' r) = impl_port (impl s r)))"

lemma same_host_refl [simp]: "same_host p p"
  by (simp add: same_host_def)

lemma kept_refl [simp, intro]: "kept s s"
  by (simp add: kept_def)

lemma kept_trans [trans]: "kept s t \<Longrightarrow> kept t u \<Longrightarrow> kept s u"
  unfolding kept_def same_host_def by (metis order.strict_trans2 order.trans)

lemma kept_length: "kept s s' \<Longrightarrow> r < length (impls s) \<Longrightarrow> r < length (impls s')"
  by (simp add: kept_def)

lemma kept_new_impl: "new_impl c s = (r, s') \<Longrightarrow> kept s s' \<and> r < length (impls s')"
  by (auto simp: new_impl_def Let_def kept_def impl_def nth_append)

lemma kept_update:
  "same_host (impl s r) p \<Longrightarrow>
   (portSet (impl s r) \<Longrightarrow> portSet p \<and> impl_port p = impl_port (impl s r)) \<Longrightarrow> kept s (update_impl r p s)"
  by (cases "r < length (impls s)") (auto simp: kept_def update_impl_def impl_def nth_list_update)

lemma impl_setPort_keeps:
  "impl_setPort port p = (ok, p') \<Longrightarrow>
   same_host p p' \<and> (portSet p \<longrightarrow> portSet p' \<and> impl_port p' = impl_port p)"
  by (auto simp: impl_setPort_def same_host_def ipv4_def ipv6_def split: if_splits)

lemma kept_setPort:
  "r < length (impls s) \<Longrightarrow> IPAddress_setPort port r s = (r', s') \<Longrightarrow> kept s s' \<and> r' < length (impls s')"
proof -
  assume r: "r < length (impls s)" and e: "IPAddress_setPort port r s = (r', s')"
  obtain ok p where p: "impl_setPort port (impl s r) = (ok, p)" by (cases "impl_setPort port (impl s r)")
  let ?s = "update_impl r p s"
  have k: "kept s ?s" using impl_setPort_keeps [OF p] by (intro kept_update) auto
  then have "kept ?s s' \<and> r' < length (impls s')"
    using e r kept_new_impl [of _ ?s r' s'] kept_length [OF k]
    by (auto simp: IPAddress_setPort_def p Let_def split: if_splits)
  then show ?thesis using k kept_trans by blast
qed

lemma kept_set_new_port:
  "kept s t \<Longrightarrow> r < length (impls t) \<Longrightarrow> set_new_port port (r, t) = (r', s') \<Longrightarrow>
   kept s s' \<and> r' < length (impls s')"
proof -
  assume a: "kept s t" "r < length (impls t)" "set_new_port port (r, t) = (r', s')"
  obtain ok p where p: "impl_setPort port (impl t r) = (ok, p)" by (cases "impl_setPort port (impl t r)")
  have "kept t (update_impl r p t)" using impl_setPort_keeps [OF p] by (intro kept_update) auto
  then show ?thesis using a kept_trans by (auto simp: set_new_port_def p update_impl_def)
qed

lemma kept_new_port:
  "set_new_port port (new_impl c s) = (r', s') \<Longrightarrow> kept s s' \<and> r' < length (impls s')"
proof -
  assume e: "set_new_port port (new_impl c s) = (r', s')"
  obtain r t where n: "new_impl c s = (r, t)" by (cases "new_impl c s")
  show ?thesis using kept_new_impl [OF n] kept_set_new_port [of s t r port r' s'] e n by simp
qed

lemma kept_assign:
  "q < length (impls s) \<Longrightarrow> IPAddress_assign r q s = (r', s') \<Longrightarrow> kept s s' \<and> r' < length (impls s')"
  using kept_setPort by (simp add: IPAddress_assign_def IPAddress_set_def)

lemma kept_set_text:
  "IPAddress_set_text env t port s = Inr (r', s') \<Longrightarrow> kept s s' \<and> r' < length (impls s')"
  "IPAddress_set_text_family env t family port s = Inr (r', s') \<Longrightarrow> kept s s' \<and> r' < length (impls s')"
proof -
  have 4: "set_new_port port a = (r', s') \<Longrightarrow> IPv4_Parse env t s = Some a \<Longrightarrow> kept s s' \<and> r' < length (impls s')" for a
    using kept_new_port by (auto simp: IPv4_Parse_def Let_def split: option.splits)
  have 6: "set_new_port port a = (r', s') \<Longrightarrow> IPv6_Parse env t e s = Inr a \<Longrightarrow> kept s s' \<and> r' < length (impls s')" for a e
    using kept_new_port by (auto simp: IPv6_Parse_def split: parsed6.splits)
  have m: "map_sum id f x = Inr y \<longleftrightarrow> (\<exists>a. x = Inr a \<and> y = f a)" for f y and x :: "ip_error + (nat \<times> ip_store)"
    by (cases x) auto
  show "IPAddress_set_text env t port s = Inr (r', s') \<Longrightarrow> kept s s' \<and> r' < length (impls s')"
    using 4 6 by (fastforce simp: IPAddress_set_text_def m split: option.splits)
  show "IPAddress_set_text_family env t family port s = Inr (r', s') \<Longrightarrow> kept s s' \<and> r' < length (impls s')"
    using 4 6 by (fastforce simp: IPAddress_set_text_family_def m split: option.splits if_splits)
qed

lemma kept_Resolve:
  "set as \<subseteq> {..<length (impls s)} \<Longrightarrow> IPAddress_Resolve (Some as) host s = Inr (r', s') \<Longrightarrow>
   kept s s' \<and> r' < length (impls s')"
proof -
  assume a: "set as \<subseteq> {..<length (impls s)}" "IPAddress_Resolve (Some as) host s = Inr (r', s')"
  have "\<exists>q<length (impls s). IPAddress_assign host q s = (r', s')"
    using a by (auto simp: IPAddress_Resolve_def find_Some_iff split: list.splits option.splits if_splits)
       (metis in_mono lessThan_iff nth_mem)+
  then show ?thesis using kept_assign by blast
qed

lemma kept_dns:
  assumes as: "set as \<subseteq> {..<length (impls s)}"
    and e: "setInternWithDNS env t (Some as) port s = Inr (r', s')"
  shows "kept s s'"
proof (cases "IPAddress_set_text env t port s")
  case (Inr a)
  then show ?thesis using e kept_set_text(1) [of env t port s r' s'] by (simp add: setInternWithDNS_def)
next
  case (Inl err)
  then obtain h s1 where R: "IPAddress_Resolve (Some as) (Wildcard IPv4) s = Inr (h, s1)"
      and S: "IPAddress_set h port s1 = (r', s')"
    using e by (auto simp: setInternWithDNS_def split: ip_error.splits sum.splits)
  show ?thesis
    using kept_Resolve [OF as R] kept_setPort [of h s1 port r' s'] S kept_trans by (auto simp: IPAddress_set_def)
qed

lemma kept_read:
  assumes "SocketAddress_read junk family r reader s = (r', reader', s')"
  shows "kept s s'"
proof -
  obtain r1 reader1 s1 where 1: "IPAddress_read junk family r reader s = (r1, reader1, s1)" by (rule prod_cases3)
  then have k: "kept s s1 \<and> r1 < length (impls s1)"
    using kept_new_impl by (auto simp: IPAddress_read_def split: prod.splits if_splits)
  then show ?thesis
    using assms 1 kept_setPort [of r1 s1] kept_trans
    by (auto simp: SocketAddress_read_def split: prod.splits)
qed

lemma kept_text_cache:
  "kept s (update_impl r (impl_stringize name (impl s r)) s)"
  by (intro kept_update) (auto simp: impl_stringize_def same_host_def ipv4_def ipv6_def impl_port_def Let_def)

lemma kept_host_port:
  assumes "r < length (impls s)" "q < length (impls s)" "SocketAddress_set_host_port r q t s = Inr (r', s')"
  shows "kept s s'"
proof -
  obtain n r1 s1 where 1: "IPAddress_setPort n r s = (r1, s1)" and 2: "IPAddress_assign r1 q s1 = (r', s')"
    using assms(3)
    by (auto simp: SocketAddress_set_host_port_def SocketAddress_setPort_text_def split: option.splits sum.splits prod.splits)
  have k: "kept s s1" using kept_setPort [OF assms(1) 1] ..
  have "kept s1 s'" using kept_assign [OF kept_length [OF k assms(2)] 2] ..
  then show ?thesis using k kept_trans by blast
qed

lemma kept_step: "ip_step env s s' \<Longrightarrow> kept s s'"
proof (induction rule: ip_step.induct)
  case (step_setPort r s port r' s')
  then show ?case using kept_setPort by blast
next
  case (step_addr r s a s')
  then show ?case
    by (auto simp: IPAddress_addr_def impl_addr_def impl_addr_locked_def Let_def same_host_def ipv4_def ipv6_def
        intro!: kept_update split: if_splits)
next
  case (step_toString r s t s')
  then show ?case using kept_text_cache by (auto simp: IPAddress_toString_def Let_def)
next
  case (step_addrToString r s t s')
  then show ?case using kept_text_cache by (auto simp: IPAddress_addrToString_def Let_def)
next
  case (step_assign r s q r' s')
  then show ?case using kept_assign by blast
next
  case (step_sockaddr sa s r' s')
  then show ?case using kept_new_impl by (auto simp: IPAddress_sockaddr_def split: if_splits)
next
  case (step_in_addr ia port s r' s')
  then show ?case using kept_new_impl by (simp add: IPAddress_set_in_addr_def)
next
  case (step_in6_addr i6 scope port s r' s')
  then show ?case using kept_new_impl by (simp add: IPAddress_set_in6_addr_def)
next
  case (step_read junk family r reader s r' reader' s')
  then show ?case using kept_read by blast
next
  case (step_text t port s r' s')
  then show ?case using kept_set_text by blast
next
  case (step_text_family t family port s r' s')
  then show ?case using kept_set_text by blast
next
  case (step_dns as s t port r' s')
  then show ?case using kept_dns by blast
next
  case (step_mask r m q s r' s')
  then show ?case using kept_new_impl by (auto simp: IPAddress_mask_def split: if_splits)
next
  case (step_host_port r s q t r' s')
  then show ?case using kept_host_port by blast
qed

text \<open>With threads a port that is set is kept when no call of \<open>addr()\<close> on the object is late.\<close>

definition kept_threads :: "ip_store \<times> nat list \<Rightarrow> ip_store \<times> nat list \<Rightarrow> bool" where
  "kept_threads = (\<lambda>(s, late) (s', late').
     length (impls s) \<le> length (impls s') \<and>
     (\<forall>r<length (impls s). same_host (impl s r) (impl s' r) \<and>
        (portSet (impl s r) \<and> r \<notin> set late \<longrightarrow>
           portSet (impl s' r) \<and> r \<notin> set late' \<and> impl_port (impl s' r) = impl_port (impl s r))))"

lemma kept_threads_trans: "kept_threads a b \<Longrightarrow> kept_threads b c \<Longrightarrow> kept_threads a c"
  unfolding kept_threads_def same_host_def by (clarsimp split: prod.splits)

lemma kept_threads_step: "ip_threads env a b \<Longrightarrow> kept_threads a b"
proof (induction rule: ip_threads.induct)
  case (threads_step s s' late)
  then show ?case using kept_step [OF threads_step] by (auto simp: kept_threads_def kept_def)
next
  case (threads_addr_test r s late)
  then show ?case by (auto simp: kept_threads_def)
next
  case (threads_addr_set r late s)
  have "set (remove1 r late) \<subseteq> set late" by (rule set_remove1_subset)
  moreover have "same_host p (impl_addr_locked p)" for p by (simp add: same_host_def impl_addr_locked_def ipv4_def ipv6_def)
  ultimately show ?case using threads_addr_set
    by (cases "r < length (impls s)") (auto simp: kept_threads_def update_impl_def impl_def nth_list_update)
qed

lemma kept_threads_reachable: "(ip_threads env)\<^sup>*\<^sup>* a b \<Longrightarrow> kept_threads a b"
proof (induction rule: rtranclp_induct)
  case base
  then show ?case by (cases a) (simp add: kept_threads_def)
next
  case (step b c)
  then show ?case using kept_threads_trans kept_threads_step by blast
qed

lemma same_host_data: "same_host p q \<Longrightarrow> cls p = cls q \<and> impl_data p = impl_data q \<and> impl_scope p = impl_scope q"
  by (auto simp: same_host_def impl_data_def impl_scope_def split: Family.split)

section \<open>Properties\<close>

text \<open>
  C39: Whatever threads do with the addresses they share, the host an object stands for (family, bytes and scope) never
  changes, and once its port is set it keeps it, unless a call of \<open>addr()\<close> had found the port not set before: then it is
  lost (see \<open>late_addr_loses_port\<close>).
\<close>

theorem IPAddress_objects_stable:
  assumes "(ip_threads env)\<^sup>*\<^sup>* (s, late) (s', late')" and "r < length (impls s)"
  shows "cls (impl s' r) = cls (impl s r) \<and> impl_data (impl s' r) = impl_data (impl s r) \<and>
    impl_scope (impl s' r) = impl_scope (impl s r) \<and>
    (portSet (impl s r) \<and> r \<notin> set late \<longrightarrow> IPAddress_port r s' = IPAddress_port r s)"
  using kept_threads_reachable [OF assms(1)] assms(2) same_host_data [of "impl s r" "impl s' r"]
  by (simp add: kept_threads_def IPAddress_port_def)

lemmas ip_eval = IPAddress_setPort_def IPAddress_set_in_addr_def IPAddress_set_def IPAddress_port_def
  new_impl_def update_impl_def impl_def impl_setPort_def impl_port_def initial_store_def
  IPImpl_wildcard_def IPImpl_in_addr_def mk_impl_def port_memory_def Let_def

text \<open>An address with port 80, and a second thread that asks it for port 81: it gets another object.\<close>

theorem IPAddress_objects_stable_witness:
  "let s = snd (IPAddress_set_in_addr 1 80 (initial_store blank)); (r', s') = IPAddress_setPort 81 2 s
   in r' = 3 \<and> IPAddress_port 3 s' = 81 \<and> IPAddress_port 2 s' = 80 \<and> cls (impl s' 2) = IPv4"
proof -
  define s where "s = snd (IPAddress_set_in_addr 1 80 (initial_store blank))"
  obtain r' s' where e: "IPAddress_setPort 81 2 s = (r', s')" by (cases "IPAddress_setPort 81 2 s")
  have l: "2 < length (impls s)" by (simp add: s_def ip_eval)
  have "(ip_threads env)\<^sup>*\<^sup>* (s, []) (s', [])" for env
    by (rule r_into_rtranclp, rule threads_step, rule step_setPort [OF l e])
  from IPAddress_objects_stable [OF this l] have k: "cls (impl s' 2) = cls (impl s 2)" "portSet (impl s 2) \<Longrightarrow> IPAddress_port 2 s' = IPAddress_port 2 s"
    by simp_all
  have old: "portSet (impl s 2)" "IPAddress_port 2 s = 80" "cls (impl s 2) = IPv4"
    by (simp_all add: s_def ip_eval order_defs Flip16_def)
  have "r' = 3" "IPAddress_port r' s' = 81"
    using e by (auto simp: s_def ip_eval order_defs Flip16_def)
  then show ?thesis using k old e by (simp add: s_def [symmetric])
qed

text \<open>The race: \<open>addr()\<close> of one thread finds no port, \<open>setPort(80)\<close> of another succeeds, and the port becomes 0.\<close>

lemma late_addr_loses_port:
  "\<exists>s s'. (ip_threads env)\<^sup>*\<^sup>* (snd (IPAddress_set_in_addr 1 0 (initial_store blank)), []) (s, [2]) \<and> IPAddress_port 2 s = 80 \<and>
    ip_threads env (s, [2]) (s', []) \<and> IPAddress_port 2 s' = 0"
proof -
  define s0 where "s0 = snd (IPAddress_set_in_addr 1 0 (initial_store blank))"
  obtain r s where e: "IPAddress_setPort 80 2 s0 = (r, s)" by (cases "IPAddress_setPort 80 2 s0")
  have l: "2 < length (impls s0)" "\<not> portSet (impl s0 2)" by (simp_all add: s0_def ip_eval)
  have "ip_threads env (s0, []) (s0, [2])" by (rule threads_addr_test [OF l])
  moreover have "ip_threads env (s0, [2]) (s, [2])" by (rule threads_step, rule step_setPort [OF l(1) e])
  ultimately have "(ip_threads env)\<^sup>*\<^sup>* (s0, []) (s, [2])" by (metis rtranclp.rtrancl_refl rtranclp.rtrancl_into_rtrancl)
  moreover have "IPAddress_port 2 s = 80" using e l by (auto simp: s0_def ip_eval order_defs Flip16_def)
  moreover have "ip_threads env (s, [2]) (update_impl 2 (impl_addr_locked (impl s 2)) s, [])"
    using threads_addr_set [of 2 "[2]" env s] by simp
  moreover have "IPAddress_port 2 (update_impl 2 (impl_addr_locked (impl s 2)) s) = 0"
    using e l by (auto simp: s0_def ip_eval order_defs Flip16_def impl_addr_locked_def)
  ultimately show ?thesis unfolding s0_def by blast
qed

text \<open>
  After \<open>setPort(port)\<close> an address has that port and the same host, whether its object was free to
  take the port, had it already, or was replaced by a new one.
\<close>

theorem IPAddress_setPort_port:
  assumes "r < length (impls s)" and "IPAddress_setPort port r s = (r', s')"
  shows "IPAddress_port r' s' = port \<and> cls (impl s' r') = cls (impl s r) \<and>
    impl_data (impl s' r') = impl_data (impl s r) \<and>
    (cls (impl s r) = IPv6 \<longrightarrow> impl_scope (impl s' r') = impl_scope (impl s r))"
proof -
  obtain ok p where p: "impl_setPort port (impl s r) = (ok, p)" by (cases "impl_setPort port (impl s r)")
  have h: "same_host (impl s r) p" using impl_setPort_keeps [OF p] ..
  show ?thesis
  proof (cases ok)
    case True
    then have "r' = r" "impl s' r' = p"
      using assms p by (auto simp: IPAddress_setPort_def update_impl_def impl_def)
    moreover have "impl_port p = port"
      using p True by (auto simp: impl_setPort_def impl_port_def order_defs split: if_splits)
    ultimately show ?thesis using same_host_data [OF h] by (simp add: IPAddress_port_def)
  next
    case False
    let ?q = "\<lambda>m. if cls p = IPv6 then IPImpl_in6_addr (ipv6 p) (impl_scope p) port m else IPImpl_in_addr (ipv4 p) port m"
    have new: "impl s' r' = ?q (fresh (update_impl r p s) (length (impls (update_impl r p s))))"
      using assms p False
      by (auto simp: IPAddress_setPort_def new_impl_def Let_def impl_def nth_append split: if_splits)
    have "impl_port (?q m) = port \<and> cls (?q m) = cls p \<and> impl_data (?q m) = impl_data p \<and>
       (cls p = IPv6 \<longrightarrow> impl_scope (?q m) = impl_scope p)" for m
      by (cases "cls p") (auto simp: IPImpl_in6_addr_def IPImpl_in_addr_def mk_impl_def impl_port_def port_memory_def
          impl_scope_def impl_data_def ipv4_def ipv6_def order_defs)
    then show ?thesis using new same_host_data [OF h] by (simp add: IPAddress_port_def)
  qed
qed

theorem IPAddress_setPort_port_witness:
  "IPAddress_port (fst (IPAddress_setPort 80 0 (initial_store blank))) (snd (IPAddress_setPort 80 0 (initial_store blank))) = 80"
  using IPAddress_setPort_port [of 0 "initial_store blank" 80
      "fst (IPAddress_setPort 80 0 (initial_store blank))" "snd (IPAddress_setPort 80 0 (initial_store blank))"]
  by (simp add: initial_store_def)

text \<open>\<open>native_ok p\<close>: the bytes given to the system are those of the address, and tell its family.\<close>

definition native_ok :: "IPImpl \<Rightarrow> bool" where
  "native_ok p \<longleftrightarrow>
     (case cls p of
        IPv4 \<Rightarrow> sin6_addr (saddr p) = computeIPv6 (ipv4 p)
      | IPv6 \<Rightarrow> \<not> IsIPv4Sock (Sockaddr_in6 (saddr p)))"

lemma replicate_2: "replicate 2 x = [x, x]"
  by (simp add: numeral_2_eq_2)

lemma words_computeIPv6:
  "word16 (computeIPv6 a) 0 = 0" "word16 (computeIPv6 a) (Suc 0) = 0" "word16 (computeIPv6 a) 2 = 0"
  "word16 (computeIPv6 a) 3 = 0" "word16 (computeIPv6 a) 4 = 0" "word16 (computeIPv6 a) 5 = 0xFFFF"
  by (simp_all add: computeIPv6_def word16_def replicate_2 del: le_bytes_numeral)

lemma word32_computeIPv6: "word32 (computeIPv6 a) 3 = a"
proof -
  have "drop (4 * 3) (computeIPv6 a) = le_bytes 4 a" by (simp add: computeIPv6_def del: le_bytes_numeral)
  then show ?thesis using of_le_bytes_full [of 4 a] by (simp add: word32_def del: le_bytes_numeral)
qed

text \<open>
  C40: The native address of an address (as \<open>data\<close> and \<open>addr\<close> give it to the system), made an address
  again, is the same host with the same port: an IPv4 address goes through the mapped IPv6 form. The bytes of the native
  address must be those of the address and tell its family (\<open>native_ok\<close>): not those of a masked IPv4 address
  (\<open>mask_native_unmasked\<close>), nor an IPv6 object that holds a mapped address.
\<close>

theorem IPAddress_native_roundtrip:
  assumes r: "r < length (impls s)" and ok: "native_ok (impl s r)"
    and a: "IPAddress_addr r s = (a, s1)" and b: "IPAddress_sockaddr (Sockaddr_in6 a) s1 = (r', s')"
  shows "ip_equal (impl s' r') (impl s r) \<and> IPAddress_port r' s' = IPAddress_port r s"
proof -
  let ?p = "impl s r"
  define p where "p = snd (impl_addr ?p)"
  have p: "cls p = cls ?p" "saddr p = a" "ipv4 p = ipv4 ?p" "ipv6 p = ipv6 ?p" "impl_scope p = impl_scope ?p"
    "impl_port p = impl_port ?p" "portSet p"
    using a by (auto simp: p_def IPAddress_addr_def impl_addr_def impl_addr_locked_def Let_def ipv4_def ipv6_def impl_scope_def
        impl_port_def order_defs Flip16_def split: if_splits)
  have a6: "sin6_addr a = ipv6 ?p" using p(2,4) by (simp add: ipv6_def)
  have new: "impl s' r' = IPImpl_sockaddr (if IsIPv4Sock (Sockaddr_in6 a) then IPv4 else IPv6) (Sockaddr_in6 a)"
    using b by (auto simp: IPAddress_sockaddr_def new_impl_def Let_def impl_def nth_append split: if_splits)
  have port: "impl_port (impl s' r') = impl_port p"
    using p(2,7) by (simp add: new IPImpl_sockaddr_def mk_impl_def impl_port_def)
  have scope: "impl_scope (impl s' r') = impl_scope p"
    using p(2) by (simp add: new IPImpl_sockaddr_def mk_impl_def impl_scope_def)
  have "cls (impl s' r') = cls ?p \<and> impl_data (impl s' r') = impl_data ?p"
  proof (cases "cls ?p")
    case IPv4
    then have c: "sin6_addr a = computeIPv6 (ipv4 ?p)" using ok a6 by (simp add: native_ok_def ipv6_def)
    then have "IsIPv4Sock (Sockaddr_in6 a)"
      by (simp add: IsIPv4Sock_def Let_def words_computeIPv6 order_defs Flip16_def)
    then show ?thesis
      using IPv4 c by (simp add: new IPImpl_sockaddr_def mk_impl_def impl_data_def ipv4_def word32_computeIPv6
          del: le_bytes_numeral)
  next
    case IPv6
    then have "\<not> IsIPv4Sock (Sockaddr_in6 a)"
      using ok a6 by (simp add: native_ok_def IsIPv4Sock_def ipv6_def)
    then show ?thesis using IPv6 a6
      by (simp add: new IPImpl_sockaddr_def mk_impl_def impl_data_def ipv6_def)
  qed
  then show ?thesis using port scope p(5,6)
    by (simp add: ip_equal_def impl_size_def IPAddress_port_def)
qed

theorem IPAddress_native_roundtrip_witness:
  "ip_equal (impl (snd (IPAddress_sockaddr (Sockaddr_in6 (fst (IPAddress_addr 0 (initial_store blank))))
      (snd (IPAddress_addr 0 (initial_store blank))))) 2) (IPImpl_wildcard IPv4)"
proof -
  let ?s = "initial_store blank"
  have l: "0 < length (impls ?s)" by (simp add: initial_store_def)
  have "(replicate 16 0)[10 := 0xFF, 11 := 0xFF] = computeIPv6 0" by code_simp
  then have "native_ok (impl ?s 0)"
    by (simp add: native_ok_def impl_def initial_store_def IPImpl_wildcard_def mk_impl_def ipv4_def)
  from IPAddress_native_roundtrip [OF l this prod.collapse [symmetric] prod.collapse [symmetric]]
  show ?thesis
    by (simp add: ip_eval IPAddress_addr_def impl_addr_def impl_addr_locked_def IPAddress_sockaddr_def split: if_splits)
qed

section \<open>What goes wrong\<close>

text \<open>
  \<open>SocketAddress(host, 0)\<close> leaves the port of the shared object unset; the next \<open>SocketAddress(host, 80)\<close>
  sets it, and the first one has port 80 from then on.
\<close>

definition host_1234 :: u32 where "host_1234 = To32Network 0x01020304"

lemma port_zero_aliases:
  assumes "IPAddress_set_in_addr host_1234 0 (initial_store f) = (h, s0)"
    and "IPAddress_set h 0 s0 = (a, s1)" and "IPAddress_set h 80 s1 = (b, s2)"
  shows "IPAddress_port a s1 = 0 \<and> IPAddress_port a s2 = 80"
  using assms by (auto simp: ip_eval order_defs Flip16_def)

text \<open>
  The text of the address is kept when the port is set after it: \<open>addrToString\<close> of \<open>SocketAddress(host, 80)\<close>
  shows port 0 once \<open>host\<close> has been printed.
\<close>

lemma addrToString_stale_port:
  assumes "IPAddress_set_in_addr host_1234 0 (initial_store f) = (h, s0)"
    and "IPAddress_toString env h s0 = (t, s1)" and "IPAddress_set h 80 s1 = (b, s2)"
    and "IPAddress_addrToString env b s2 = (u, s3)"
  shows "IPAddress_port b s3 = 80 \<and> u = host4 host_1234 @ '':0''"
proof -
  have z: "dec_string 0 = ''0''" by code_simp
  show ?thesis
    using assms by (auto simp: ip_eval order_defs Flip16_def IPAddress_toString_def IPAddress_addrToString_def
        impl_stringize_def ipv4_def z)
qed

text \<open>\<open>mask\<close> computes the mapped form of the address before the mask: the system is given the address unmasked.\<close>

lemma mask_native_unmasked:
  assumes "cls (impl s r) = IPv4" "cls (impl s m) = IPv4" "cls (impl s q) = IPv4"
    and "IPAddress_mask r m q s = Inr (r', s')" and "IPAddress_addr r' s' = (a, s2)"
  shows "sin6_addr a = computeIPv6 (ipv4 (impl s r)) \<and>
    ipv4 (impl s' r') = (ipv4 (impl s r) AND ipv4 (impl s m)) OR (ipv4 (impl s q) AND NOT (ipv4 (impl s m)))"
  using assms
  by (auto simp: IPAddress_mask_def new_impl_def impl_def Let_def nth_append IPImpl_mask_def mk_impl_def ipv4_def
      IPAddress_addr_def impl_addr_def impl_addr_locked_def split: if_splits)

text \<open>A lone bracket makes the length of the text between brackets wrap: \<open>std::string\<close> throws.\<close>

lemma IPv6_Parse_lone_bracket: "IPv6_Parse_text env ''['' = Throws"
proof -
  have "\<not> IEqual ''['' None ''localhost''" by code_simp
  then show ?thesis by (simp add: IPv6_Parse_text_def Let_def)
qed

text \<open>The bytes a short message lacks are those that were in the variable: the \<open>memset\<close> clears none.\<close>

lemma read_addr_leaves_junk:
  assumes "length junk = n" "reader_inv reader" "BinaryReader_available reader = k" "k \<le> n"
  shows "drop k (fst (read_addr n junk reader)) = drop k junk"
proof -
  have "min (length (rdata reader) - rcur reader) k = k"
    using assms by (auto simp: BinaryReader_available_def reader_inv_def)
  then show ?thesis
    using assms by (simp add: read_addr_def BinaryReader_next_def Let_def)
qed

text \<open>A native scope is in the byte order of the host, and read as if it were in network order.\<close>

lemma sockaddr_scope_swapped:
  "impl_scope (IPImpl_sockaddr IPv6 (Sockaddr_in6 \<lparr>sin6_family = IPv6, sin6_port = 0, sin6_flowinfo = 0,
     sin6_addr = bs, sin6_scope_id = 2\<rparr>)) = 0x02000000"
  by (simp add: impl_scope_def IPImpl_sockaddr_def mk_impl_def order_defs Flip32_def)

text \<open>A word of zeros that is not part of a longer run is printed as no digit at all: 1:0:2:: comes out as 1::2::.\<close>

lemma host6_single_zero:
  "host6 name (IPImpl_in6_addr [0, 1, 0, 0, 0, 2, 0, 0, 0, 0, 0, 0, 0, 0, 0, 0] 0 0 m) = ''1::2::''"
proof -
  have "host6_loop [0, 1, 0, 0, 0, 2, 0, 0, 0, 0, 0, 0, 0, 0, 0, 0] 0 False = ''1::2::''" by code_simp
  then show ?thesis
    by (simp add: host6_def IPImpl_in6_addr_def mk_impl_def ipv6_def impl_scope_def isIPv4Compatible6_def
        isIPv4Mapped6_def zero_words_def word32_def word16_def order_defs Flip32_def upt_rec)
qed

end
