(* ===== verification/Xml.thy ===== *)
theory Xml
  imports Strings Std_Map
begin

text \<open>
  Mona/Format/XMLParser.cpp: the event parser. The packet is the text \<open>d\<close>, \<open>_current\<close> an index in it, and
  a tag keeps its name where the code keeps a pointer and a size in the packet. The back of \<open>_tags\<close> is
  the head of the list. A virtual method of the user is the handler: it sees the event and what \<open>save\<close>
  would give, and answers whether to go on and whether it called \<open>reset\<close>.
  After an error the cursor is not used again (every call answers the error until a reset), so it is left as it was.
  The outcome \<open>Fault\<close> is a pop of no tag, or the loop over a CDATA that reads after the end of the packet. The other reads
  are written \<open>d ! i\<close>, where the guards of the code say that \<open>i\<close> is in the packet; Xml_Reads checks every read.
  The lemmas show that a parse ends when the handler does not reset the parser, and that the events of elements are
  well nested.
\<close>

section \<open>State\<close>

datatype xml_error =
  No_Tag_Name | End_Without_Start | End_Not_Expected string | End_Without_Termination string
| Bang_Malformed | CDATA_Without_Parent | CDATA_Without_Termination | Comment_Malformed
| Comment_Without_Termination | Info_Without_Name | Element_Without_Termination string
| Info_Without_Termination string | Attribute_Without_Value string | Attribute_Malformed string
| Name_Start | Name_Without_Termination string | Inner_Without_Parent | No_End string | Recursive_Parse

record xml_tag =
  tname :: string
  tfull :: bool

type_synonym xml_attributes = "(string \<times> string) list"

datatype xml_event =
  StartDocument | Infos string xml_attributes | StartElement string xml_attributes
| InnerElement string string | EndElement string | EndDocument "xml_error option"

record xml_saved =
  scur :: "nat option"
  sstarted :: bool
  sex :: "xml_error option"
  stags :: "xml_tag list"

record xml_state =
  xcur :: nat
  xstarted :: bool
  xex :: "xml_error option"
  xtags :: "xml_tag list"
  xinner :: "string option"
  xrunning :: bool

datatype xml_result = RESULT_DONE | RESULT_PAUSED | RESULT_ERROR | Restart | Fault

definition XMLParser :: xml_state where
  "XMLParser = \<lparr>xcur = 0, xstarted = False, xex = None, xtags = [], xinner = None, xrunning = False\<rparr>"

definition xml_reset :: "xml_state \<Rightarrow> xml_state" where
  "xml_reset st = st\<lparr>xinner := None, xstarted := False, xex := None, xcur := 0, xtags := []\<rparr>"

definition xml_reset_state :: "xml_saved \<Rightarrow> xml_state \<Rightarrow> xml_state" where
  "xml_reset_state sv st =
     (case scur sv of
        None \<Rightarrow> xml_reset st
      | Some i \<Rightarrow> st\<lparr>xstarted := sstarted sv, xex := sex sv, xcur := i, xtags := stags sv\<rparr>)"

definition xml_save :: "xml_state \<Rightarrow> xml_saved" where
  "xml_save st = \<lparr>scur = Some (xcur st), sstarted = xstarted st, sex = xex st, stags = xtags st\<rparr>"

text \<open>The answer of the handler: to go on, and the \<open>reset\<close> it called (\<open>Some None\<close> without a state).\<close>

datatype xml_reply = Reply bool "xml_saved option option"

type_synonym 's xml_handler = "xml_event \<Rightarrow> xml_saved \<Rightarrow> 's \<Rightarrow> xml_reply \<times> 's"

definition xml_call ::
  "'s xml_handler \<Rightarrow> xml_event \<Rightarrow> xml_state \<Rightarrow> 's \<Rightarrow> bool \<times> bool \<times> xml_state \<times> 's" where
  "xml_call h ev st s =
     (case h ev (xml_save st) s of
        (Reply go r, s') \<Rightarrow>
          (go, r \<noteq> None,
           case r of None \<Rightarrow> st | Some None \<Rightarrow> xml_reset st | Some (Some sv) \<Rightarrow> xml_reset_state sv st, s'))"

definition xml_fail :: "xml_error \<Rightarrow> xml_state \<Rightarrow> xml_state" where
  "xml_fail e st = st\<lparr>xex := Some e\<rparr>"

section \<open>Scanning\<close>

function skip_space :: "string \<Rightarrow> nat \<Rightarrow> nat" where
  "skip_space d i = (if i < length d \<and> isspace (d ! i) then skip_space d (i + 1) else i)"
  by pat_completeness auto
termination by (relation "measure (\<lambda>(d, i). length d - i)") auto

declare skip_space.simps [simp del]

text \<open>\<open>while (isspace(*_current)) if (++_current == end) error\<close>.\<close>

definition need_space :: "string \<Rightarrow> nat \<Rightarrow> nat option" where
  "need_space d i = (let j = skip_space d i in if j < length d then Some j else None)"

function name_end :: "string \<Rightarrow> nat \<Rightarrow> nat" where
  "name_end d i = (if i < length d \<and> isxml (d ! i) then name_end d (i + 1) else i)"
  by pat_completeness auto
termination by (relation "measure (\<lambda>(d, i). length d - i)") auto

declare name_end.simps [simp del]

definition text_at :: "string \<Rightarrow> nat \<Rightarrow> nat \<Rightarrow> string" where
  "text_at d i j = take (j - i) (drop i d)"

text \<open>\<open>strchr(endMarkers, *_current)\<close> finds the terminating 0 of the markers too.\<close>

definition parseXMLName :: "string \<Rightarrow> string \<Rightarrow> nat \<Rightarrow> xml_error + (string \<times> nat)" where
  "parseXMLName d endMarkers i =
     (if \<not> isalpha (d ! i) \<and> d ! i \<noteq> CHR ''_'' then Inl Name_Start
      else
        (let j = name_end d (i + 1); name = text_at d i j
         in if j = length d \<or> \<not> (d ! j \<in> set endMarkers \<or> d ! j = NUL) \<and> \<not> isspace (d ! j)
            then Inl (Name_Without_Termination name)
            else Inr (name, j)))"

text \<open>The end of an attribute's value; a backslash takes the next character with it.\<close>

function value_end :: "string \<Rightarrow> char \<Rightarrow> nat \<Rightarrow> nat option" where
  "value_end d q i =
     (if i \<ge> length d then None
      else if d ! i = q then Some i
      else if d ! i = chr 92 then (if i + 1 \<ge> length d then None else value_end d q (i + 2))
      else value_end d q (i + 1))"
  by pat_completeness auto
termination by (relation "measure (\<lambda>(d, q, i). length d - i)") auto

declare value_end.simps [simp del]

lemma skip_space_ge: "i \<le> skip_space d i"
proof (induction d i rule: skip_space.induct)
  case (1 d i)
  then show ?case by (subst skip_space.simps) (auto intro: Suc_leD)
qed

lemma skip_space_le: "i \<le> length d \<Longrightarrow> skip_space d i \<le> length d"
proof (induction d i rule: skip_space.induct)
  case (1 d i)
  then show ?case by (subst skip_space.simps) auto
qed

lemma name_end_ge: "i \<le> name_end d i"
proof (induction d i rule: name_end.induct)
  case (1 d i)
  then show ?case by (subst name_end.simps) (auto intro: Suc_leD)
qed

lemma name_end_le: "i \<le> length d \<Longrightarrow> name_end d i \<le> length d"
proof (induction d i rule: name_end.induct)
  case (1 d i)
  then show ?case by (subst name_end.simps) auto
qed

lemma need_space_bounds: "need_space d i = Some j \<Longrightarrow> i \<le> j \<and> j < length d"
  using skip_space_ge [of i d] by (auto simp: need_space_def Let_def split: if_splits)

lemma parseXMLName_bounds: "parseXMLName d m i = Inr (name, j) \<Longrightarrow> i < j \<and> (i < length d \<longrightarrow> j < length d)"
  using name_end_ge [of "i + 1" d] name_end_le [of "i + 1" d]
  by (auto simp: parseXMLName_def Let_def split: if_splits)

lemma value_end_bounds: "value_end d q i = Some j \<Longrightarrow> i \<le> j \<and> j < length d"
proof (induction d q i rule: value_end.induct)
  case (1 d q i)
  then show ?case by (subst (asm) (3) value_end.simps) (auto split: if_splits)
qed

text \<open>
  The attributes of an element or of an information, from \<open>i\<close>: where the loop ends (on the \<open>>\<close>, or at the
  end of the packet), whether the tag is full, and the attributes.
\<close>

function read_attributes ::
  "string \<Rightarrow> bool \<Rightarrow> string \<Rightarrow> nat \<Rightarrow> xml_attributes \<Rightarrow> xml_error + (nat \<times> bool \<times> xml_attributes)" where
  "read_attributes d isInfos name i attributes =
     (if i \<ge> length d then Inr (i, False, attributes)
      else
        (case need_space d i of
           None \<Rightarrow> Inl (Element_Without_Termination name)
         | Some i \<Rightarrow>
             (if isInfos \<and> d ! i = CHR ''?'' then
                (if i + 1 = length d \<or> d ! (i + 1) \<noteq> CHR ''>'' then Inl (Info_Without_Termination name)
                 else Inr (i + 1, False, attributes))
              else if d ! i = CHR ''/'' then
                (if i + 1 = length d \<or> d ! (i + 1) \<noteq> CHR ''>'' then Inl (Element_Without_Termination name)
                 else Inr (i + 1, True, attributes))
              else if d ! i = CHR ''>'' then Inr (i, False, attributes)
              else
                (case parseXMLName d ''='' i of
                   Inl e \<Rightarrow> Inl e
                 | Inr (key, i) \<Rightarrow>
                     (case need_space d i of
                        None \<Rightarrow> Inl (Attribute_Without_Value key)
                      | Some i \<Rightarrow>
                          (case need_space d (i + 1) of
                             None \<Rightarrow> Inl (Attribute_Without_Value key)
                           | Some i \<Rightarrow>
                               (if d ! i \<noteq> chr 34 \<and> d ! i \<noteq> chr 39 \<or> i + 1 = length d
                                then Inl (Attribute_Without_Value key)
                                else
                                  (case value_end d (d ! i) (i + 1) of
                                     None \<Rightarrow> Inl (Attribute_Malformed key)
                                   | Some j \<Rightarrow>
                                       read_attributes d isInfos name (j + 1)
                                         (mput IComparator key (text_at d (i + 1) j) attributes)))))))))"
  by pat_completeness auto
termination
  by (relation "measure (\<lambda>(d, isInfos, name, i, attributes). length d - i)")
     (auto dest!: need_space_bounds parseXMLName_bounds value_end_bounds)

declare read_attributes.simps [simp del]

text \<open>
  The inner text of a CDATA and where it ends. Of two or three characters compared with the
  terminator only the last one is kept when they are not it. None: the loop reads at the end of the packet.
\<close>

function cdata_loop :: "string \<Rightarrow> nat \<Rightarrow> string \<Rightarrow> (string \<times> nat) option" where
  "cdata_loop d i inner =
     (if i \<ge> length d then Some (inner, i)
      else if d ! i = CHR '']'' then
        (if i + 1 \<ge> length d then None
         else if d ! (i + 1) = CHR '']'' then
           (if i + 2 \<ge> length d then None
            else if d ! (i + 2) = CHR ''>'' then Some (inner, i + 2)
            else cdata_loop d (i + 3) (inner @ [d ! (i + 2)]))
         else cdata_loop d (i + 2) (inner @ [d ! (i + 1)]))
      else cdata_loop d (i + 1) (inner @ [d ! i]))"
  by pat_completeness auto
termination by (relation "measure (\<lambda>(d, i, inner). length d - i)") auto

declare cdata_loop.simps [simp del]

text \<open>The end of a comment; the cursor passes the end of the packet by one when it ends inside a terminator.\<close>

function comment_loop :: "string \<Rightarrow> char \<Rightarrow> char \<Rightarrow> nat \<Rightarrow> nat" where
  "comment_loop d delimiter1 delimiter2 i =
     (if i \<ge> length d then i
      else if d ! i = delimiter1 then
        (if i + 1 < length d \<and> d ! (i + 1) = delimiter2 then
           (if i + 2 < length d \<and> d ! (i + 2) = CHR ''>'' then i + 2
            else comment_loop d delimiter1 delimiter2 (i + 3))
         else comment_loop d delimiter1 delimiter2 (i + 2))
      else comment_loop d delimiter1 delimiter2 (i + 1))"
  by pat_completeness auto
termination by (relation "measure (\<lambda>(d, delimiter1, delimiter2, i). length d - i)") auto

declare comment_loop.simps [simp del]

section \<open>Markup\<close>

text \<open>A stage of the loop: the result it stops with, if it does, the state and the user's state.\<close>

type_synonym 's xml_stage = "xml_result option \<times> xml_state \<times> 's"

definition xml_stop :: "xml_error \<Rightarrow> xml_state \<Rightarrow> 's \<Rightarrow> 's xml_stage" where
  "xml_stop e st s = (Some RESULT_ERROR, xml_fail e st, s)"

text \<open>After a call: \<open>if (!next) return ...; if (_reseted) goto RESET\<close>.\<close>

definition xml_next :: "string \<Rightarrow> bool \<times> bool \<times> xml_state \<times> 's \<Rightarrow> 's xml_stage" where
  "xml_next d = (\<lambda>(go, reseted, st, s).
     if \<not> go then (Some (if xcur st = length d \<and> xtags st = [] then RESULT_DONE else RESULT_PAUSED), st, s)
     else if reseted then (Some Restart, st, s)
     else (None, st, s))"

definition xml_pause :: "bool \<times> bool \<times> xml_state \<times> 's \<Rightarrow> 's xml_stage" where
  "xml_pause = (\<lambda>(go, reseted, st, s).
     if \<not> go then (Some RESULT_PAUSED, st, s)
     else if reseted then (Some Restart, st, s)
     else (None, st, s))"

definition xml_start_document :: "'s xml_handler \<Rightarrow> xml_state \<Rightarrow> 's \<Rightarrow> 's xml_stage" where
  "xml_start_document h st s =
     (if xstarted st then (None, st, s)
      else xml_pause (xml_call h StartDocument (st\<lparr>xstarted := True\<rparr>) s))"

definition starts_with_at :: "string \<Rightarrow> nat \<Rightarrow> string \<Rightarrow> bool" where
  "starts_with_at d i t \<longleftrightarrow> length d - i \<ge> length t \<and> take (length t) (drop i d) = t"

definition xml_inner :: "'s xml_handler \<Rightarrow> string \<Rightarrow> nat \<Rightarrow> xml_state \<Rightarrow> 's \<Rightarrow> 's xml_stage" where
  "xml_inner h d innerSpaceRemovables st s =
     (case xinner st of
        None \<Rightarrow> (None, st, s)
      | Some inner \<Rightarrow>
          (if starts_with_at d (xcur st) ''<![CDATA['' then (None, st, s)
           else
             (case xtags st of
                [] \<Rightarrow> (Some Fault, st, s)
              | tag # _ \<Rightarrow>
                  xml_pause (xml_call h
                    (InnerElement (tname tag) (take (length inner - innerSpaceRemovables) inner))
                    (st\<lparr>xinner := None\<rparr>) s))))"

definition skip_after :: "string \<Rightarrow> nat \<Rightarrow> xml_state \<Rightarrow> nat" where
  "skip_after d i st = (if xinner st = None then skip_space d i else i)"

text \<open>\<open></name>\<close>, the cursor on the slash.\<close>

definition xml_end_element :: "'s xml_handler \<Rightarrow> string \<Rightarrow> xml_state \<Rightarrow> 's \<Rightarrow> 's xml_stage" where
  "xml_end_element h d st s =
     (case xtags st of
        [] \<Rightarrow> xml_stop End_Without_Start st s
      | tag # tags \<Rightarrow>
          (let name = tname tag; i = xcur st
           in if i + length name \<ge> length d \<or> take (length name) (drop (i + 1) d) \<noteq> name
              then xml_stop (End_Not_Expected name) st s
              else
                (let j = skip_space d (i + 1 + length name)
                 in if j = length d \<or> d ! j \<noteq> CHR ''>'' then xml_stop (End_Without_Termination name) st s
                    else xml_next d (xml_call h (EndElement name)
                           (st\<lparr>xcur := skip_after d (j + 1) st, xtags := tags\<rparr>) s))))"

text \<open>A CDATA or a comment, the cursor on the exclamation mark.\<close>

definition xml_cdata :: "string \<Rightarrow> xml_state \<Rightarrow> 's \<Rightarrow> 's xml_stage" where
  "xml_cdata d st s =
     (if xtags st = [] then xml_stop CDATA_Without_Parent st s
      else
        (case cdata_loop d (xcur st + 7) (case xinner st of None \<Rightarrow> [] | Some inner \<Rightarrow> inner) of
           None \<Rightarrow> (Some Fault, st, s)
         | Some (inner, i) \<Rightarrow>
             (if i = length d then xml_stop CDATA_Without_Termination st s
              else (None, st\<lparr>xcur := i + 1, xinner := Some inner\<rparr>, s))))"

definition xml_comment :: "string \<Rightarrow> xml_state \<Rightarrow> 's \<Rightarrow> 's xml_stage" where
  "xml_comment d st s =
     (let i = xcur st
      in if i + 1 = length d then xml_stop Comment_Malformed st s
         else
           (let j = comment_loop d (d ! i) (d ! (i + 1)) (i + 2)
            in if j = length d then xml_stop Comment_Without_Termination st s
               else (None, st\<lparr>xcur := skip_after d (j + 1) st\<rparr>, s)))"

definition xml_bang :: "string \<Rightarrow> xml_state \<Rightarrow> 's \<Rightarrow> 's xml_stage" where
  "xml_bang d st s =
     (let i = xcur st + 1; st = st\<lparr>xcur := i\<rparr>
      in if i = length d then xml_stop Bang_Malformed st s
         else if xinner st \<noteq> None \<or> starts_with_at d i ''[CDATA['' then xml_cdata d st s
         else xml_comment d st s)"

text \<open>
  The start of an element, its end too when the tag is full; \<open>pop_back\<close> of no tag, after a reset by the
  handler, is undefined.
\<close>

definition xml_open ::
  "'s xml_handler \<Rightarrow> string \<Rightarrow> string \<Rightarrow> xml_attributes \<Rightarrow> bool \<Rightarrow> xml_state \<Rightarrow> 's \<Rightarrow> 's xml_stage" where
  "xml_open h d name attributes full st s =
     (case xml_call h (StartElement name attributes) (st\<lparr>xtags := \<lparr>tname = name, tfull = full\<rparr> # xtags st\<rparr>) s of
        (go, reseted, st, s) \<Rightarrow>
          (if go \<and> full then
             (if xtags st = [] then (Some Fault, st, s)
              else
                (case xml_call h (EndElement name) (st\<lparr>xtags := tl (xtags st)\<rparr>) s of
                   (go, reseted', st, s) \<Rightarrow> xml_next d (go, reseted \<or> reseted', st, s)))
           else xml_next d (go, reseted, st, s)))"

text \<open>An element or an information, the cursor after the \<open><\<close>.\<close>

definition xml_start_element :: "'s xml_handler \<Rightarrow> string \<Rightarrow> xml_state \<Rightarrow> 's \<Rightarrow> 's xml_stage" where
  "xml_start_element h d st s =
     (let isInfos = (d ! xcur st = CHR ''?''); i = (if isInfos then xcur st + 1 else xcur st)
      in if i = length d then xml_stop Info_Without_Name st s
         else
           (case parseXMLName d (if isInfos then ''?'' else ''/>'') i of
              Inl e \<Rightarrow> xml_stop e st s
            | Inr (name, i) \<Rightarrow>
                (case read_attributes d isInfos name i [] of
                   Inl e \<Rightarrow> xml_stop e st s
                 | Inr (i, full, attributes) \<Rightarrow>
                     (if i \<ge> length d then xml_stop (Element_Without_Termination name) st s
                      else
                        (let st = st\<lparr>xcur := skip_after d (i + 1) st\<rparr>
                         in if isInfos then xml_next d (xml_call h (Infos name attributes) st s)
                            else xml_open h d name attributes full st s)))))"

definition xml_markup :: "'s xml_handler \<Rightarrow> string \<Rightarrow> xml_state \<Rightarrow> 's \<Rightarrow> 's xml_stage" where
  "xml_markup h d st s =
     (let i = xcur st + 1; st = st\<lparr>xcur := i\<rparr>
      in if i = length d then xml_stop No_Tag_Name st s
         else if d ! i = CHR ''/'' then xml_end_element h d st s
         else if d ! i = CHR ''!'' then xml_bang d st s
         else xml_start_element h d st s)"

section \<open>The parser\<close>

lemma skip_after_ge: "i \<le> skip_after d i st"
  by (simp add: skip_after_def skip_space_ge)

lemma xml_call_go: "xml_call h ev st s = (go, False, st', s') \<Longrightarrow> st' = st"
  by (auto simp: xml_call_def split: prod.splits xml_reply.splits option.splits)

lemma xml_next_None: "xml_next d (xml_call h ev st s) = (None, st', s') \<Longrightarrow> st' = st"
  by (auto simp: xml_next_def split: prod.splits if_splits dest: xml_call_go)

lemma xml_pause_None: "xml_pause (xml_call h ev st s) = (None, st', s') \<Longrightarrow> st' = st"
  by (auto simp: xml_pause_def split: prod.splits if_splits dest: xml_call_go)

lemma cdata_loop_ge: "cdata_loop d i inner = Some (t, j) \<Longrightarrow> i \<le> j"
proof (induction "length d - i" arbitrary: i inner rule: less_induct)
  case less
  have IH: "cdata_loop d k u = Some (t, j) \<Longrightarrow> i < k \<Longrightarrow> k \<le> length d \<Longrightarrow> i < j" for k u
    using less(1) [of k u] by linarith
  have end_: "cdata_loop d k u = Some (t, j) \<Longrightarrow> length d \<le> k \<Longrightarrow> k = j" for k u
    by (subst (asm) cdata_loop.simps) simp
  have "cdata_loop d k u = Some (t, j) \<Longrightarrow> i < k \<Longrightarrow> i < j" for k u
    using IH [of k u] end_ [of k u] by (cases "k \<le> length d") auto
  then show ?case
    using less(2) unfolding cdata_loop.simps [of d i inner] by (fastforce split: if_splits)
qed

lemma comment_loop_ge: "i \<le> comment_loop d a b i"
proof (induction d a b i rule: comment_loop.induct)
  case (1 d a b i)
  show ?case
    by (subst comment_loop.simps) (use 1 in \<open>auto intro: Suc_leD order.trans\<close>)
qed

lemma xml_start_document_cur: "xml_start_document h st s = (None, st', s') \<Longrightarrow> xcur st' = xcur st"
  by (auto simp: xml_start_document_def dest: xml_pause_None split: if_splits)

lemma xml_inner_cur: "xml_inner h d n st s = (None, st', s') \<Longrightarrow> xcur st' = xcur st"
  by (auto simp: xml_inner_def dest!: xml_pause_None split: if_splits option.splits list.splits)

lemma read_attributes_ge: "read_attributes d isInfos name i a = Inr (j, full, b) \<Longrightarrow> i \<le> j"
proof (induction "length d - i" arbitrary: isInfos i a rule: less_induct)
  case less
  have IH: "read_attributes d f name k c = Inr (j, full, b) \<Longrightarrow> i < k \<Longrightarrow> k \<le> length d \<Longrightarrow> i < j" for f k c
    using less(1) [of k f c] by linarith
  show ?case
    using less(2)
    by (subst (asm) read_attributes.simps)
       (auto split: if_splits option.splits sum.splits prod.splits
         dest!: need_space_bounds parseXMLName_bounds value_end_bounds; drule IH; simp)
qed

lemma skip_twice: "i < skip_after d (Suc (skip_space d (Suc (i + n)))) st"
  using skip_space_ge [of "Suc (i + n)" d] skip_after_ge [of "Suc (skip_space d (Suc (i + n)))" d st] by linarith

lemma xml_end_element_cur: "xml_end_element h d st s = (None, st', s') \<Longrightarrow> xcur st < xcur st'"
  by (auto simp: xml_end_element_def xml_stop_def Let_def skip_twice split: list.splits if_splits dest!: xml_next_None)

lemma xml_cdata_cur: "xml_cdata d st s = (None, st', s') \<Longrightarrow> xcur st < xcur st'"
  by (auto simp: xml_cdata_def xml_stop_def split: option.splits if_splits prod.splits dest!: cdata_loop_ge)

lemma xml_comment_cur: "xml_comment d st s = (None, st', s') \<Longrightarrow> xcur st < xcur st'"
proof -
  have "i < skip_after d (Suc (comment_loop d a b (Suc (Suc i)))) st" for i a b
    using comment_loop_ge [of "Suc (Suc i)" d a b] skip_after_ge [of "Suc (comment_loop d a b (Suc (Suc i)))" d st] by linarith
  then show "xml_comment d st s = (None, st', s') \<Longrightarrow> ?thesis"
    by (auto simp: xml_comment_def xml_stop_def Let_def split: if_splits)
qed

lemma xml_bang_cur: "xml_bang d st s = (None, st', s') \<Longrightarrow> xcur st < xcur st'"
  by (auto simp: xml_bang_def xml_stop_def Let_def split: if_splits dest!: xml_cdata_cur xml_comment_cur)

text \<open>What a start element that goes on has read: the name, the attributes, the \<open>></\<close>.\<close>

lemma xml_start_element_cur: "xml_start_element h d st s = (None, st', s') \<Longrightarrow> xcur st < xcur st'"
proof -
  assume e: "xml_start_element h d st s = (None, st', s')"
  let ?inf = "d ! xcur st = CHR ''?''"
  let ?i = "if ?inf then xcur st + 1 else xcur st"
  obtain name j k full a where n: "parseXMLName d (if ?inf then ''?'' else ''/>'') ?i = Inr (name, j)"
      and r: "read_attributes d ?inf name j [] = Inr (k, full, a)"
    using e by (auto simp: xml_start_element_def xml_stop_def Let_def split: if_splits sum.splits)
  let ?k = "skip_after d (Suc k) st"
  have k: "xcur st < ?k"
    using parseXMLName_bounds [OF n] read_attributes_ge [OF r] skip_after_ge [of "Suc k" d st]
    by (auto split: if_splits)
  have "xcur st' = ?k"
    using e n r
    by (auto simp: xml_start_element_def xml_open_def xml_stop_def xml_next_def Let_def
        split: if_splits prod.splits dest!: xml_call_go)
  then show ?thesis using k by simp
qed

lemma xml_markup_cur: "xml_markup h d st s = (None, st', s') \<Longrightarrow> xcur st < xcur st'"
  by (auto simp: xml_markup_def xml_stop_def Let_def split: if_splits
      dest!: xml_end_element_cur xml_bang_cur xml_start_element_cur)

text \<open>The loop; \<open>n\<close> is \<open>innerSpaceRemovables\<close>, set to 0 by a CDATA.\<close>

definition xml_text :: "string \<Rightarrow> nat \<Rightarrow> xml_state \<Rightarrow> 's \<Rightarrow> nat \<times> 's xml_stage" where
  "xml_text d n st s =
     (let c = d ! xcur st
      in case xinner st of
           Some inner \<Rightarrow>
             (if isspace c then n + 1 else 0, None, st\<lparr>xinner := Some (inner @ [c]), xcur := xcur st + 1\<rparr>, s)
         | None \<Rightarrow>
             (if isspace c then (n, None, st\<lparr>xcur := xcur st + 1\<rparr>, s)
              else if xtags st = [] then (n, xml_stop Inner_Without_Parent st s)
              else (0, None, st\<lparr>xinner := Some [c], xcur := xcur st + 1\<rparr>, s)))"

definition xml_end :: "'s xml_handler \<Rightarrow> xml_state \<Rightarrow> 's \<Rightarrow> xml_result \<times> xml_state \<times> 's" where
  "xml_end h st s =
     (if \<not> xstarted st then
        (case xml_start_document h st s of
           (None, st, s) \<Rightarrow> (RESULT_DONE, st, s)
         | (Some r, st, s) \<Rightarrow> (r, st, s))
      else
        (case xtags st of
           [] \<Rightarrow> (RESULT_DONE, st, s)
         | tag # _ \<Rightarrow> (RESULT_ERROR, xml_fail (No_End (tname tag)) st, s)))"

function xml_loop ::
  "'s xml_handler \<Rightarrow> string \<Rightarrow> nat \<Rightarrow> xml_state \<Rightarrow> 's \<Rightarrow> xml_result \<times> xml_state \<times> 's" where
  "xml_loop h d n st s =
     (if xcur st \<ge> length d then xml_end h st s
      else if d ! xcur st = CHR ''<'' then
        (case xml_start_document h st s of
           (Some r, st, s) \<Rightarrow> (r, st, s)
         | (None, st1, s1) \<Rightarrow>
             (case xml_inner h d n st1 s1 of
                (Some r, st, s) \<Rightarrow> (r, st, s)
              | (None, st2, s2) \<Rightarrow>
                  (case xml_markup h d st2 s2 of
                     (Some r, st, s) \<Rightarrow> (r, st, s)
                   | (None, st3, s3) \<Rightarrow> xml_loop h d (if xinner st3 \<noteq> None then 0 else n) st3 s3)))
      else
        (case xml_text d n st s of
           (n, Some r, st, s) \<Rightarrow> (r, st, s)
         | (n', None, st1, s1) \<Rightarrow> xml_loop h d n' st1 s1))"
  by pat_completeness auto
termination
proof (relation "measure (\<lambda>(h, d, n, st, s). length d - xcur st)", goal_cases)
  case 1
  show ?case by simp
next
  case (2 h d n st s)
  then show ?case
    by (auto dest!: xml_start_document_cur [OF sym] xml_inner_cur [OF sym] xml_markup_cur [OF sym])
next
  case (3 h d n st s)
  then show ?case by (auto simp: xml_text_def xml_stop_def Let_def split: option.splits if_splits)
qed

declare xml_loop.simps [simp del]

text \<open>The tags that were full when the parser paused are ended first.\<close>

function xml_pop_full :: "'s xml_handler \<Rightarrow> string \<Rightarrow> xml_state \<Rightarrow> 's \<Rightarrow> 's xml_stage" where
  "xml_pop_full h d st s =
     (case xtags st of
        [] \<Rightarrow> (None, st, s)
      | tag # tags \<Rightarrow>
          (if \<not> tfull tag then (None, st, s)
           else
             (case xml_next d (xml_call h (EndElement (tname tag)) (st\<lparr>xtags := tags\<rparr>) s) of
                (None, st1, s1) \<Rightarrow> xml_pop_full h d st1 s1
              | stop \<Rightarrow> stop)))"
  by pat_completeness auto
termination
  by (relation "measure (\<lambda>(h, d, st, s). length (xtags st))") (auto dest!: xml_next_None [OF sym])

declare xml_pop_full.simps [simp del]

text \<open>\<open>parse()\<close>: a reset by the handler starts again at \<open>RESET\<close>, for ever if it resets each time.\<close>

partial_function (option) xml_run ::
  "'s xml_handler \<Rightarrow> string \<Rightarrow> xml_state \<Rightarrow> 's \<Rightarrow> (xml_result \<times> xml_state \<times> 's) option" where
  "xml_run h d st s =
     (if xex st \<noteq> None then Some (RESULT_ERROR, st, s)
      else
        (case xml_pop_full h d st s of
           (Some r, st1, s1) \<Rightarrow> (if r = Restart then xml_run h d st1 s1 else Some (r, st1, s1))
         | (None, st1, s1) \<Rightarrow>
             (case xml_loop h d 0 st1 s1 of
                (r, st2, s2) \<Rightarrow> (if r = Restart then xml_run h d st2 s2 else Some (r, st2, s2)))))"

text \<open>\<open>parse(ex)\<close>: the result, what \<open>ex\<close> is set to, and the states.\<close>

definition xml_parse ::
  "'s xml_handler \<Rightarrow> string \<Rightarrow> xml_state \<Rightarrow> 's \<Rightarrow> (xml_result \<times> xml_error option \<times> xml_state \<times> 's) option" where
  "xml_parse h d st s =
     (if xrunning st then Some (RESULT_ERROR, Some Recursive_Parse, st, s)
      else if xex st \<noteq> None then Some (RESULT_ERROR, xex st, st, s)
      else
        (case xml_run h d (st\<lparr>xrunning := True\<rparr>) s of
           None \<Rightarrow> None
         | Some (r, st1, s1) \<Rightarrow>
             (if r = RESULT_PAUSED \<or> r = Fault then Some (r, None, st1\<lparr>xrunning := False\<rparr>, s1)
              else
                (case xml_call h (EndDocument (xex st1)) st1 s1 of
                   (go, reseted, st2, s2) \<Rightarrow> Some (r, xex st1, st2\<lparr>xrunning := False\<rparr>, s2)))))"

section \<open>Events are nested\<close>

text \<open>The open elements after some events, innermost first; None when an event does not fit.\<close>

fun nest :: "xml_event list \<Rightarrow> string list \<Rightarrow> string list option" where
  "nest [] stack = Some stack"
| "nest (StartElement n a # es) stack = nest es (n # stack)"
| "nest (InnerElement n t # es) stack = (case stack of [] \<Rightarrow> None | m # rest \<Rightarrow> if n = m then nest es stack else None)"
| "nest (EndElement n # es) stack = (case stack of [] \<Rightarrow> None | m # rest \<Rightarrow> if n = m then nest es rest else None)"
| "nest (_ # es) stack = nest es stack"

lemma nest_append: "nest (es @ fs) stack = Option.bind (nest es stack) (nest fs)"
  by (induction es stack rule: nest.induct) (auto split: list.splits)

text \<open>A handler that never resets, and the record of the events it gets.\<close>

definition no_reset :: "'s xml_handler \<Rightarrow> bool" where
  "no_reset h \<longleftrightarrow> (\<forall>ev sv s. \<exists>go s'. h ev sv s = (Reply go None, s'))"

definition logged :: "'s xml_handler \<Rightarrow> (xml_event list \<times> 's) xml_handler" where
  "logged h ev sv = (\<lambda>(log, s). case h ev sv s of (r, s') \<Rightarrow> (r, log @ [ev], s'))"

lemma no_resetE: "no_reset h \<Longrightarrow> \<exists>go s'. h ev sv s = (Reply go None, s')"
  by (simp add: no_reset_def)

lemma no_reset_call: "no_reset h \<Longrightarrow> xml_call h ev st s = (go, rs, st', s') \<Longrightarrow> \<not> rs \<and> st' = st"
  using no_resetE [of h ev "xml_save st" s] by (auto simp: xml_call_def)

lemma no_reset_logged: "no_reset h \<Longrightarrow> no_reset (logged h)"
  unfolding no_reset_def
proof (intro allI)
  fix ev sv and s :: "xml_event list \<times> 'a"
  assume h: "\<forall>ev sv s. \<exists>go s'. h ev sv s = (Reply go None, s')"
  then obtain go s' where "h ev sv (snd s) = (Reply go None, s')" by blast
  then show "\<exists>go s'. logged h ev sv s = (Reply go None, s')" by (cases s) (simp add: logged_def)
qed

lemma logged_call: "xml_call (logged h) ev st (log, s) = (go, rs, st', log', s') \<Longrightarrow> log' = log @ [ev]"
  by (auto simp: xml_call_def logged_def split: prod.splits xml_reply.splits)

text \<open>What every stage keeps: the open elements are the tags, inner text has a parent, nothing is open before the start.\<close>

definition xml_ok :: "xml_state \<Rightarrow> xml_event list \<Rightarrow> bool" where
  "xml_ok st log \<longleftrightarrow> nest log [] = Some (map tname (xtags st)) \<and>
     (xinner st \<noteq> None \<longrightarrow> xtags st \<noteq> []) \<and> (\<not> xstarted st \<longrightarrow> xtags st = [])"

definition stage_ok :: "string \<Rightarrow> (xml_event list \<times> 's) xml_stage \<Rightarrow> bool" where
  "stage_ok d = (\<lambda>(r, st, log, s). xml_ok st log \<and> r \<noteq> Some Restart \<and> (r = Some RESULT_DONE \<longrightarrow> xtags st = []) \<and>
     (r = Some RESULT_PAUSED \<longrightarrow> xinner st = None) \<and> (r = Some RESULT_ERROR \<longrightarrow> xex st \<noteq> None) \<and>
     (r = Some Fault \<longrightarrow> d \<noteq> [] \<and> last d = CHR '']''))"

lemma stage_ok_iff [simp]:
  "stage_ok d (r, st, log, s) \<longleftrightarrow>
     xml_ok st log \<and> r \<noteq> Some Restart \<and> (r = Some RESULT_DONE \<longrightarrow> xtags st = []) \<and>
     (r = Some RESULT_PAUSED \<longrightarrow> xinner st = None) \<and> (r = Some RESULT_ERROR \<longrightarrow> xex st \<noteq> None) \<and>
     (r = Some Fault \<longrightarrow> d \<noteq> [] \<and> last d = CHR '']'')"
  by (simp add: stage_ok_def)

lemma xml_next_ok:
  assumes "no_reset h" "\<And>log'. log' = log @ [ev] \<Longrightarrow> xml_ok st log'" "xinner st = None"
  shows "stage_ok d (xml_next d (xml_call (logged h) ev st (log, s)))"
proof -
  obtain go rs st' log' s' where c: "xml_call (logged h) ev st (log, s) = (go, rs, st', log', s')"
    by (metis prod_cases3 surj_pair)
  show ?thesis
    using no_reset_call [OF no_reset_logged [OF assms(1)] c] logged_call [OF c] assms(2,3)
    by (auto simp: c xml_next_def stage_ok_def)
qed

lemma xml_pause_ok:
  assumes "no_reset h" "\<And>log'. log' = log @ [ev] \<Longrightarrow> xml_ok st log'" "xinner st = None"
  shows "stage_ok d (xml_pause (xml_call (logged h) ev st (log, s)))"
proof -
  obtain go rs st' log' s' where c: "xml_call (logged h) ev st (log, s) = (go, rs, st', log', s')"
    by (metis prod_cases3 surj_pair)
  show ?thesis
    using no_reset_call [OF no_reset_logged [OF assms(1)] c] logged_call [OF c] assms(2,3)
    by (auto simp: c xml_pause_def stage_ok_def)
qed

lemma xml_stop_ok: "xml_ok st log \<Longrightarrow> stage_ok d (xml_stop e st (log, s))"
  by (auto simp: xml_stop_def stage_ok_def xml_ok_def xml_fail_def)

lemma xml_ok_cur [simp]: "xml_ok (st\<lparr>xcur := i\<rparr>) log = xml_ok st log"
  by (simp add: xml_ok_def)

lemma xml_start_document_ok:
  "no_reset h \<Longrightarrow> xml_ok st log \<Longrightarrow> stage_ok d (xml_start_document (logged h) st (log, s))"
  by (auto simp: xml_start_document_def xml_ok_def nest_append intro!: xml_pause_ok)

lemma xml_inner_ok:
  "no_reset h \<Longrightarrow> xml_ok st log \<Longrightarrow> stage_ok d (xml_inner (logged h) d n st (log, s))"
  by (auto simp: xml_inner_def xml_ok_def nest_append intro!: xml_pause_ok split: option.splits list.splits)

lemma xml_end_element_ok:
  "no_reset h \<Longrightarrow> xml_ok st log \<Longrightarrow> xinner st = None \<Longrightarrow> xstarted st \<Longrightarrow>
   stage_ok d (xml_end_element (logged h) d st (log, s))"
  by (auto simp: xml_end_element_def Let_def split: list.splits intro!: xml_stop_ok xml_next_ok)
     (auto simp: xml_ok_def nest_append)

lemma cdata_loop_fault: "cdata_loop d i inner = None \<Longrightarrow> d \<noteq> [] \<and> last d = CHR '']''"
proof (induction "length d - i" arbitrary: i inner rule: less_induct)
  case less
  have i: "i < length d" using less(2) by (subst (asm) cdata_loop.simps) (auto split: if_splits)
  have IH: "cdata_loop d k u = None \<Longrightarrow> i < k \<Longrightarrow> d \<noteq> [] \<and> last d = CHR '']''" for k u
    using less(1) [of k u] i by (cases "k < length d") (auto simp: cdata_loop.simps)
  have last_: "j < length d \<Longrightarrow> length d \<le> Suc j \<Longrightarrow> d \<noteq> [] \<and> last d = d ! j" for j
    by (cases d rule: rev_cases) (auto simp: nth_append)
  show ?case
    using less(2) i last_ [of i] last_ [of "i + 1"] unfolding cdata_loop.simps [of d i inner]
    by (auto split: if_splits dest: IH)
qed

lemma xml_bang_ok: "xml_ok st log \<Longrightarrow> stage_ok d (xml_bang d st (log, s))"
  by (auto simp: xml_bang_def xml_cdata_def xml_comment_def Let_def split: option.splits prod.splits
      intro!: xml_stop_ok) (auto simp: xml_ok_def dest: cdata_loop_fault)

lemma xml_open_ok:
  assumes h: "no_reset h" and ok: "xml_ok st log" and started: "xstarted st" and inner: "xinner st = None"
  shows "stage_ok d (xml_open (logged h) d name a full st (log, s))"
proof -
  let ?st = "st\<lparr>xtags := \<lparr>tname = name, tfull = full\<rparr> # xtags st\<rparr>" and ?log = "log @ [StartElement name a]"
  have ok1: "xml_ok ?st ?log" and ok2: "xml_ok st (?log @ [EndElement name])"
    using ok started by (auto simp: xml_ok_def nest_append)
  obtain go rs st1 log1 s1
    where c: "xml_call (logged h) (StartElement name a) ?st (log, s) = (go, rs, st1, log1, s1)"
    by (metis prod_cases3 surj_pair)
  have e: "\<not> rs" "st1 = ?st" "log1 = ?log"
    using no_reset_call [OF no_reset_logged [OF h] c] logged_call [OF c] by auto
  have "stage_ok d (xml_next d (xml_call (logged h) (EndElement name) (?st\<lparr>xtags := xtags st\<rparr>) (?log, s1)))"
    using ok2 inner by (intro xml_next_ok [OF h]) (simp_all add: xml_ok_def)
  then show ?thesis
    using c e ok1 inner by (auto simp: xml_open_def xml_next_def split: prod.splits)
qed

lemma xml_start_element_ok:
  assumes h: "no_reset h" and ok: "xml_ok st log" and started: "xstarted st" and inner: "xinner st = None"
  shows "stage_ok d (xml_start_element (logged h) d st (log, s))"
  using ok started inner
  by (auto simp: xml_start_element_def Let_def nest_append xml_ok_def [of "_\<lparr>xcur := _\<rparr>"]
      intro!: xml_stop_ok xml_open_ok [OF h] xml_next_ok [OF h] split: sum.split prod.split)
     (auto simp: xml_ok_def nest_append)

lemma bang_after_cdata:
  assumes "starts_with_at d i ''<![CDATA[''"
  shows "i + 1 < length d \<and> d ! (i + 1) = CHR ''!''"
proof -
  have t: "take 9 (drop i d) = ''<![CDATA[''" and l: "9 \<le> length d - i"
    using assms by (auto simp: starts_with_at_def eval_nat_numeral)
  have "d ! (i + 1) = take 9 (drop i d) ! 1" using l by simp
  then show ?thesis using t l by simp
qed

lemma xml_markup_ok:
  assumes h: "no_reset h" and ok: "xml_ok st log" and started: "xstarted st"
    and inner: "xinner st = None \<or> starts_with_at d (xcur st) ''<![CDATA[''"
  shows "stage_ok d (xml_markup (logged h) d st (log, s))"
proof (cases "xinner st = None")
  case True
  then show ?thesis
    using ok started
    by (auto simp: xml_markup_def Let_def
        intro!: xml_stop_ok xml_bang_ok xml_end_element_ok [OF h] xml_start_element_ok [OF h])
next
  case False
  have "starts_with_at d (xcur st) ''<![CDATA[''" using inner False by (elim disjE) (erule (1) notE)
  from bang_after_cdata [OF this] show ?thesis
    using ok by (auto simp: xml_markup_def Let_def intro!: xml_stop_ok xml_bang_ok)
qed

lemma xml_inner_left:
  "xml_inner h d n st s = (None, st', s') \<Longrightarrow> xstarted st \<Longrightarrow>
   (xinner st' = None \<or> starts_with_at d (xcur st') ''<![CDATA['') \<and> xstarted st'"
  by (auto simp: xml_inner_def dest!: xml_pause_None split: if_splits option.splits list.splits)

lemma xml_start_document_left: "xml_start_document h st s = (None, st', s') \<Longrightarrow> xstarted st'"
  by (auto simp: xml_start_document_def dest!: xml_pause_None split: if_splits)

lemma xml_text_ok: "xml_ok st log \<Longrightarrow> stage_ok d (snd (xml_text d n st (log, s)))"
  by (auto simp: xml_text_def Let_def xml_stop_def xml_fail_def xml_ok_def split: option.splits)

definition result_ok :: "string \<Rightarrow> xml_result \<times> xml_state \<times> xml_event list \<times> 's \<Rightarrow> bool" where
  "result_ok d = (\<lambda>(r, st, log, s). xml_ok st log \<and> r \<noteq> Restart \<and> (r = RESULT_DONE \<longrightarrow> xtags st = []) \<and>
     (r = RESULT_PAUSED \<longrightarrow> xinner st = None) \<and> (r = RESULT_ERROR \<longrightarrow> xex st \<noteq> None) \<and>
     (r = Fault \<longrightarrow> d \<noteq> [] \<and> last d = CHR '']''))"

lemma xml_end_ok: "no_reset h \<Longrightarrow> xml_ok st log \<Longrightarrow> result_ok d (xml_end (logged h) st (log, s))"
proof -
  assume h: "no_reset h" and ok: "xml_ok st log"
  obtain r st1 log1 s1 where 1: "xml_start_document (logged h) st (log, s) = (r, st1, log1, s1)"
    by (metis prod_cases3 surj_pair)
  have "r = None \<Longrightarrow> \<not> xstarted st \<Longrightarrow> xtags st1 = []"
    using ok 1 by (auto simp: xml_start_document_def xml_ok_def dest!: xml_pause_None)
  then show ?thesis
    using xml_start_document_ok [OF h ok, of d s] 1 ok
    by (auto simp: xml_end_def result_ok_def xml_fail_def xml_ok_def split: option.splits list.splits)
qed

lemma xml_loop_ok:
  assumes h: "no_reset h"
  shows "xml_ok st log \<Longrightarrow> result_ok d (xml_loop (logged h) d n st (log, s))"
proof (induction "length d - xcur st" arbitrary: n st log s rule: less_induct)
  case less
  show ?case
  proof (cases "xcur st \<ge> length d")
    case True
    then show ?thesis using xml_end_ok [OF h less(2)] by (subst xml_loop.simps) simp
  next
    case in_: False
    show ?thesis
    proof (cases "d ! xcur st = CHR ''<''")
      case False
      obtain m r st1 log1 s1 where t: "xml_text d n st (log, s) = (m, r, st1, log1, s1)"
        by (metis prod_cases3 surj_pair)
      have ok: "stage_ok d (r, st1, log1, s1)" using xml_text_ok [OF less(2), of d n s] t by simp
      have "r = None \<Longrightarrow> xcur st < xcur st1"
        using t by (auto simp: xml_text_def xml_stop_def Let_def split: option.splits if_splits)
      then have "r = None \<Longrightarrow> result_ok d (xml_loop (logged h) d m st1 (log1, s1))"
        using ok in_ by (intro less(1)) auto
      then show ?thesis
        using ok in_ False t by (subst xml_loop.simps) (auto simp: result_ok_def split: option.splits)
    next
      case True
      obtain r1 st1 log1 s1 where 1: "xml_start_document (logged h) st (log, s) = (r1, st1, log1, s1)"
        by (metis prod_cases3 surj_pair)
      have ok1: "stage_ok d (r1, st1, log1, s1)" using xml_start_document_ok [OF h less(2), of d s] 1 by simp
      obtain r2 st2 log2 s2 where 2: "xml_inner (logged h) d n st1 (log1, s1) = (r2, st2, log2, s2)"
        by (metis prod_cases3 surj_pair)
      have ok2: "stage_ok d (r2, st2, log2, s2)" using xml_inner_ok [OF h, of st1 log1 d n s1] ok1 2 by simp
      obtain r3 st3 log3 s3 where 3: "xml_markup (logged h) d st2 (log2, s2) = (r3, st3, log3, s3)"
        by (metis prod_cases3 surj_pair)
      show ?thesis
      proof (cases "r1 = None \<and> r2 = None")
        case False
        then show ?thesis
          using ok1 ok2 1 2 in_ True by (subst xml_loop.simps) (auto simp: result_ok_def split: option.splits)
      next
        case None: True
        have ok3: "stage_ok d (r3, st3, log3, s3)"
          using xml_markup_ok [OF h, of st2 log2 d s2] xml_inner_left xml_start_document_left ok2 1 2 3 None
          by (metis stage_ok_iff)
        have "r3 = None \<Longrightarrow> xcur st < xcur st3"
          using xml_start_document_cur xml_inner_cur xml_markup_cur 1 2 3 None by metis
        then have "r3 = None \<Longrightarrow> result_ok d (xml_loop (logged h) d (if xinner st3 \<noteq> None then 0 else n) st3 (log3, s3))"
          using ok3 in_ by (intro less(1)) auto
        then show ?thesis
          using ok3 1 2 3 None in_ True by (subst xml_loop.simps) (auto simp: result_ok_def split: option.splits)
      qed
    qed
  qed
qed

lemma xml_pop_full_ok:
  assumes h: "no_reset h"
  shows "xml_ok st log \<Longrightarrow> xinner st = None \<Longrightarrow>
    stage_ok d (xml_pop_full (logged h) d st (log, s))"
proof (induction "length (xtags st)" arbitrary: st log s rule: less_induct)
  case less
  show ?case
  proof (cases "xtags st")
    case Nil
    then show ?thesis using less(2) by (subst xml_pop_full.simps) simp
  next
    case (Cons tag tags)
    let ?st = "st\<lparr>xtags := tags\<rparr>"
    obtain r st1 log1 s1
      where n: "xml_next d (xml_call (logged h) (EndElement (tname tag)) ?st (log, s)) = (r, st1, log1, s1)"
      by (metis prod_cases3 surj_pair)
    have ok: "stage_ok d (r, st1, log1, s1)"
      unfolding n [symmetric] using less(2,3) Cons
      by (intro xml_next_ok [OF h]) (auto simp: xml_ok_def nest_append)
    have "stage_ok d (xml_pop_full (logged h) d st1 (log1, s1))" if "r = None"
    proof -
      have "st1 = ?st" using xml_next_None n that by metis
      then show ?thesis using less(1) [of st1 log1 s1] less(3) ok Cons by simp
    qed
    then show ?thesis
      using less(2) ok Cons n by (subst xml_pop_full.simps) (auto split: option.splits)
  qed
qed

lemma xml_run_ok:
  assumes h: "no_reset h" and ok: "xml_ok st log" and inner: "xinner st = None"
  shows "\<exists>x. xml_run (logged h) d st (log, s) = Some x \<and>
    (xex st = None \<longrightarrow> result_ok d x)"
proof (cases "xex st = None")
  case False
  then obtain e where "xex st = Some e" by blast
  then show ?thesis by (subst xml_run.simps) simp
next
  case True
  obtain r1 st1 log1 s1 where 1: "xml_pop_full (logged h) d st (log, s) = (r1, st1, log1, s1)"
    by (metis prod_cases3 surj_pair)
  have ok1: "stage_ok d (r1, st1, log1, s1)" using xml_pop_full_ok [OF h ok inner, of d s] 1 by simp
  obtain r2 st2 log2 s2 where 2: "xml_loop (logged h) d 0 st1 (log1, s1) = (r2, st2, log2, s2)"
    by (metis prod_cases3 surj_pair)
  have "r1 = None \<Longrightarrow> result_ok d (r2, st2, log2, s2)"
    using xml_loop_ok [OF h, of st1 log1 d 0 s1] ok1 2 by simp
  then show ?thesis
    using True 1 2 ok1 by (subst xml_run.simps) (auto simp: result_ok_def split: option.splits)
qed

section \<open>Properties\<close>

text \<open>
  A program that parses: it starts with a new parser and calls \<open>parse\<close> again and again, after a pause
  or an error, with the same handler; \<open>log\<close> are the events so far.
\<close>

inductive xml_session ::
  "'s xml_handler \<Rightarrow> string \<Rightarrow> 's \<Rightarrow> xml_result \<Rightarrow> xml_state \<Rightarrow> xml_event list \<Rightarrow> 's \<Rightarrow> bool"
  for h d s0 where
  start: "xml_session h d s0 RESULT_PAUSED XMLParser [] s0"
| parse: "xml_session h d s0 r0 st log s \<Longrightarrow> r0 \<noteq> Fault \<Longrightarrow>
    xml_parse (logged h) d st (log, s) = Some (r, e, st', log', s') \<Longrightarrow> xml_session h d s0 r st' log' s'"

definition between_parses :: "xml_state \<Rightarrow> xml_event list \<Rightarrow> bool" where
  "between_parses st log \<longleftrightarrow> xml_ok st log \<and> \<not> xrunning st \<and> (xex st = None \<longrightarrow> xinner st = None)"

lemma xml_parse_ok:
  assumes h: "no_reset h" and b: "between_parses st log"
  shows "\<exists>r e st' log' s'. xml_parse (logged h) d st (log, s) = Some (r, e, st', log', s') \<and>
    (r \<noteq> Fault \<longrightarrow> between_parses st' log') \<and> (r = RESULT_DONE \<longrightarrow> xtags st' = []) \<and>
    (r = Fault \<longrightarrow> d \<noteq> [] \<and> last d = CHR '']'') \<and> r \<noteq> Restart"
proof (cases "xex st")
  case (Some e)
  then show ?thesis using b by (auto simp: xml_parse_def between_parses_def)
next
  case None
  let ?st = "st\<lparr>xrunning := True\<rparr>"
  have "xml_ok ?st log" "xinner ?st = None" "xex ?st = None" using b None by (auto simp: between_parses_def xml_ok_def)
  from xml_run_ok [OF h this(1,2), of d s] this(3)
  obtain r st1 log1 s1 where run: "xml_run (logged h) d ?st (log, s) = Some (r, st1, log1, s1)"
      and ok: "result_ok d (r, st1, log1, s1)"
    by auto
  show ?thesis
  proof (cases "r = RESULT_PAUSED \<or> r = Fault")
    case True
    then show ?thesis using b None run ok
      by (auto simp: xml_parse_def between_parses_def result_ok_def xml_ok_def)
  next
    case False
    obtain go rs st2 log2 s2 where c: "xml_call (logged h) (EndDocument (xex st1)) st1 (log1, s1) = (go, rs, st2, log2, s2)"
      by (metis prod_cases3 surj_pair)
    have "\<not> rs" "st2 = st1" "log2 = log1 @ [EndDocument (xex st1)]"
      using no_reset_call [OF no_reset_logged [OF h] c] logged_call [OF c] by auto
    then show ?thesis using False b None run ok c
      by (cases r) (auto simp: xml_parse_def between_parses_def result_ok_def xml_ok_def nest_append)
  qed
qed

lemma xml_session_ok:
  assumes h: "no_reset h"
  shows "xml_session h d s0 r st log s \<Longrightarrow>
    (r \<noteq> Fault \<longrightarrow> between_parses st log) \<and> (r = RESULT_DONE \<longrightarrow> xtags st = []) \<and>
    (r = Fault \<longrightarrow> d \<noteq> [] \<and> last d = CHR '']'')"
proof (induction rule: xml_session.induct)
  case start
  then show ?case by (simp add: between_parses_def xml_ok_def XMLParser_def)
next
  case (parse r0 st log s r e st' log' s')
  then have "between_parses st log" by simp
  from xml_parse_ok [OF h this, of d s] parse(3) show ?case by auto
qed

text \<open>A handler that always goes on, and what it gets of a small document.\<close>

definition quiet :: "unit xml_handler" where
  "quiet ev sv s = (Reply True None, s)"

lemma quiet_no_reset: "no_reset quiet"
  unfolding no_reset_def quiet_def by blast

declare isspace_iff [code] isalpha_iff [code] isxml_iff [code] xml_run.simps [code]

lemma xml_example:
  "xml_parse (logged quiet) ''<a x='1'><b/> hi </a>'' XMLParser ([], ()) =
     Some (RESULT_DONE, None,
       \<lparr>xcur = 21, xstarted = True, xex = None, xtags = [], xinner = None, xrunning = False\<rparr>,
       [StartDocument, StartElement ''a'' [(''x'', ''1'')], StartElement ''b'' [], EndElement ''b'',
        InnerElement ''a'' ''hi'', EndElement ''a'', EndDocument None], ())"
  by code_simp

lemma quiet_session:
  "xml_session quiet ''<a x='1'><b/> hi </a>'' () RESULT_DONE
     \<lparr>xcur = 21, xstarted = True, xex = None, xtags = [], xinner = None, xrunning = False\<rparr>
     [StartDocument, StartElement ''a'' [(''x'', ''1'')], StartElement ''b'' [], EndElement ''b'',
      InnerElement ''a'' ''hi'', EndElement ''a'', EndDocument None] ()"
  by (rule xml_session.parse [OF xml_session.start _ xml_example]) simp

text \<open>
  C8: A parse always ends: for every text, every state a program that parses can be in, and every
  handler that does not reset the parser, \<open>parse\<close> returns.
\<close>

theorem xml_parse_returns:
  assumes "no_reset h" and "xml_session h d s0 r0 st log s" and "r0 \<noteq> Fault"
  shows "\<exists>r e st' log' s'. xml_parse (logged h) d st (log, s) = Some (r, e, st', log', s') \<and> r \<noteq> Restart"
  using xml_parse_ok [OF assms(1), of st log d s] xml_session_ok [OF assms(1,2)] assms(3) by blast

theorem xml_parse_returns_witness:
  "\<exists>r e st' log' s'. xml_parse (logged quiet) ''<a><b>'' XMLParser ([], ()) = Some (r, e, st', log', s')"
  using xml_parse_returns [OF quiet_no_reset xml_session.start] by blast

text \<open>
  C7: The events of a parse are nested, whatever the text and however the handler pauses: every end is
  that of the innermost open element, inner text is that of the innermost open element, the open
  elements are the tags of the parser, and there is none when the result is \<open>RESULT_DONE\<close>.
\<close>

theorem xml_events_nested:
  assumes "no_reset h" and "xml_session h d s0 r st log s" and "r \<noteq> Fault"
  shows "nest log [] = Some (map tname (xtags st)) \<and> (r = RESULT_DONE \<longrightarrow> nest log [] = Some [])"
  using xml_session_ok [OF assms(1,2)] assms(3) by (auto simp: between_parses_def xml_ok_def)

theorem xml_events_nested_witness:
  "nest [StartDocument, StartElement ''a'' [(''x'', ''1'')], StartElement ''b'' [], EndElement ''b'',
      InnerElement ''a'' ''hi'', EndElement ''a'', EndDocument None] [] = Some []"
  using xml_events_nested [OF quiet_no_reset quiet_session] by simp

section \<open>What goes wrong\<close>

text \<open>A bracket of a CDATA that does not end it is dropped, and so is the text of the terminator after one.\<close>

lemma cdata_drops_bracket: "cdata_loop ''a[0]=1]]>'' 0 [] = Some (''a[0=1'', 8)"
  by code_simp

text \<open>A packet that ends inside the terminator of a CDATA is read one byte too far.\<close>

lemma cdata_overread:
  "map_option fst (xml_parse (logged quiet) ''<a><![CDATA[x]'' XMLParser ([], ())) = Some Fault"
  by code_simp

text \<open>A comment that ends inside its terminator is accepted.\<close>

lemma comment_unterminated:
  "map_option fst (xml_parse (logged quiet) ''<!-- x-'' XMLParser ([], ())) = Some RESULT_DONE"
  by code_simp

text \<open>A document type is read as a comment whose delimiters are its first two letters.\<close>

lemma doctype_is_a_comment:
  "map_option (fst \<circ> snd) (xml_parse (logged quiet) ''<!DOCTYPE a><a/>'' XMLParser ([], ())) =
     Some (Some Comment_Without_Termination)"
  by code_simp

text \<open>Any character may stand for the equal sign after a space.\<close>

lemma attribute_without_equal: "read_attributes ''b x'v'>'' False ''a'' 0 [] = Inr (6, False, [(''b'', ''v'')])"
  by code_simp

text \<open>A handler that resets the parser at the start of an empty element makes it pop no tag.\<close>

definition resetting :: "nat xml_handler" where
  "resetting ev sv n =
     (case ev of StartElement _ _ \<Rightarrow> (Reply True (if n = 0 then Some None else None), n + 1) | _ \<Rightarrow> (Reply True None, n))"

lemma reset_in_empty_element:
  "map_option fst (xml_parse (logged resetting) ''<a/>'' XMLParser ([], 0)) = Some Fault"
  by code_simp

end
