(* ===== verification/Xml_Documents.thy ===== *)
theory Xml_Documents
  imports Xml
begin

text \<open>
  Documents as trees, their text, and the events the parser (theory Xml) gives for that text: the
  elements in order, their attributes, their inner texts, nothing more and nothing less.
\<close>

section \<open>Documents\<close>

text \<open>\<open>Empty\<close> is written \<open><name/>\<close>; \<open>Elem\<close> with a start and an end.\<close>

datatype xml_node = Text string | Empty string xml_attributes | Elem string xml_attributes "xml_node list"

definition write_attribute :: "string \<times> string \<Rightarrow> string" where
  "write_attribute = (\<lambda>(k, v). '' '' @ k @ ''='' @ [chr 34] @ v @ [chr 34])"

definition write_attributes :: "xml_attributes \<Rightarrow> string" where
  "write_attributes a = concat (map write_attribute a)"

fun write_node :: "xml_node \<Rightarrow> string" and write_nodes :: "xml_node list \<Rightarrow> string" where
  "write_node (Text t) = t"
| "write_node (Empty n a) = ''<'' @ n @ write_attributes a @ ''/>''"
| "write_node (Elem n a xs) = ''<'' @ n @ write_attributes a @ ''>'' @ write_nodes xs @ ''</'' @ n @ ''>''"
| "write_nodes [] = []"
| "write_nodes (x # xs) = write_node x @ write_nodes xs"

text \<open>The attributes as the map of the parser: an equivalent key that comes again gets the new value.\<close>

definition attributes_of :: "xml_attributes \<Rightarrow> xml_attributes" where
  "attributes_of a = fold (\<lambda>(k, v) m. mput IComparator k v m) a []"

fun node_events :: "string \<Rightarrow> xml_node \<Rightarrow> xml_event list" and nodes_events :: "string \<Rightarrow> xml_node list \<Rightarrow> xml_event list" where
  "node_events p (Text t) = [InnerElement p t]"
| "node_events p (Empty n a) = [StartElement n (attributes_of a), EndElement n]"
| "node_events p (Elem n a xs) = StartElement n (attributes_of a) # nodes_events n xs @ [EndElement n]"
| "nodes_events p [] = []"
| "nodes_events p (x # xs) = node_events p x @ nodes_events p xs"

definition name_ok :: "string \<Rightarrow> bool" where
  "name_ok n \<longleftrightarrow> n \<noteq> [] \<and> (isalpha (hd n) \<or> hd n = CHR ''_'') \<and> list_all isxml (tl n)"

definition text_ok :: "string \<Rightarrow> bool" where
  "text_ok t \<longleftrightarrow> t \<noteq> [] \<and> CHR ''<'' \<notin> set t \<and> \<not> isspace (hd t) \<and> \<not> isspace (last t)"

definition attribute_ok :: "string \<times> string \<Rightarrow> bool" where
  "attribute_ok = (\<lambda>(k, v). name_ok k \<and> chr 34 \<notin> set v \<and> chr 92 \<notin> set v)"

fun is_text :: "xml_node \<Rightarrow> bool" where
  "is_text (Text _) = True"
| "is_text _ = False"

fun node_ok :: "xml_node \<Rightarrow> bool" and nodes_ok :: "xml_node list \<Rightarrow> bool" where
  "node_ok (Text t) = text_ok t"
| "node_ok (Empty n a) = (name_ok n \<and> list_all attribute_ok a)"
| "node_ok (Elem n a xs) = (name_ok n \<and> list_all attribute_ok a \<and> nodes_ok xs)"
| "nodes_ok [] = True"
| "nodes_ok (x # xs) = (node_ok x \<and> nodes_ok xs \<and> \<not> (is_text x \<and> xs \<noteq> [] \<and> is_text (hd xs)))"

section \<open>Scanning printed text\<close>

lemma at_drop: "drop i d = c # r \<Longrightarrow> i < length d \<and> d ! i = c"
  by (metis drop_eq_Nil list.distinct(1) not_le nth_via_drop)

lemma drop_add: "drop i d = u @ r \<Longrightarrow> drop (i + length u) d = r"
  by (metis add.commute append_eq_conv_conj drop_drop)

lemma text_at_drop: "drop i d = u @ r \<Longrightarrow> text_at d i (i + length u) = u"
  by (simp add: text_at_def)

lemma skip_space_stop: "drop i d = [] \<or> \<not> isspace (hd (drop i d)) \<Longrightarrow> skip_space d i = i"
  by (subst skip_space.simps) (auto simp: hd_drop_conv_nth)

lemma skip_space_one: "drop i d = '' '' @ r \<Longrightarrow> r = [] \<or> \<not> isspace (hd r) \<Longrightarrow> skip_space d i = i + 1"
proof -
  assume a: "drop i d = '' '' @ r" "r = [] \<or> \<not> isspace (hd r)"
  have "isspace (CHR '' '')" by (simp add: isspace_iff code_def)
  moreover have "drop (i + 1) d = r" using drop_add [of i d "'' ''" r] a by simp
  ultimately show ?thesis
    using at_drop [of i d "CHR '' ''" r] a skip_space_stop [of "i + 1" d] by (subst skip_space.simps) simp
qed

lemma name_end_drop: "drop i d = u @ c # r \<Longrightarrow> list_all isxml u \<Longrightarrow> \<not> isxml c \<Longrightarrow> name_end d i = i + length u"
proof (induction u arbitrary: i)
  case Nil
  then show ?case using at_drop [of i d c r] by (subst name_end.simps) simp
next
  case (Cons b u)
  have "drop (i + 1) d = u @ c # r" using drop_add [of i d "[b]"] Cons.prems by simp
  then show ?case using Cons at_drop [of i d b] by (subst name_end.simps) simp
qed

lemma parseXMLName_drop:
  assumes "drop i d = n @ c # r" "name_ok n" "\<not> isxml c" "c \<in> set m \<or> isspace c"
  shows "parseXMLName d m i = Inr (n, i + length n)"
proof -
  obtain b u where n: "n = b # u" using assms(2) by (cases n) (auto simp: name_ok_def)
  have i: "i < length d" "d ! i = b" using at_drop [of i d b] assms(1) n by auto
  have "drop (i + 1) d = u @ c # r" using drop_add [of i d "[b]"] assms(1) n by simp
  then have e: "name_end d (i + 1) = i + length n"
    using name_end_drop [of "i + 1" d u c r] assms n by (simp add: name_ok_def)
  have c: "i + length n < length d" "d ! (i + length n) = c"
    using drop_add [OF assms(1)] at_drop [of "i + length n" d c r] by auto
  show ?thesis
    using assms(2,4) i e c text_at_drop [OF assms(1)] n
    by (auto simp: parseXMLName_def Let_def name_ok_def)
qed

lemma value_end_drop:
  "drop i d = v @ [q] @ r \<Longrightarrow> q \<notin> set v \<Longrightarrow> chr 92 \<notin> set v \<Longrightarrow> value_end d q i = Some (i + length v)"
proof (induction v arbitrary: i)
  case Nil
  then show ?case using at_drop [of i d q r] by (subst value_end.simps) simp
next
  case (Cons b v)
  have "drop (i + 1) d = v @ [q] @ r" using drop_add [of i d "[b]"] Cons.prems by simp
  then show ?case using Cons at_drop [of i d b] by (subst value_end.simps) auto
qed

lemma name_ok_start: "name_ok n \<Longrightarrow> \<not> isspace (hd n) \<and> hd n \<noteq> CHR ''/'' \<and> hd n \<noteq> CHR ''>'' \<and> hd n \<noteq> CHR ''?'' \<and> hd n \<noteq> CHR ''!''"
  by (auto simp: name_ok_def isspace_iff isalpha_iff code_def)

lemma marks: "\<not> isxml (CHR ''='')" "\<not> isxml (CHR ''>'')" "\<not> isxml (CHR ''/'')" "\<not> isxml (CHR '' '')"
  "isspace (CHR '' '')" "\<not> isspace (CHR ''='')" "\<not> isspace (CHR ''>'')" "\<not> isspace (CHR ''/'')" "\<not> isspace (CHR ''<'')"
  by (simp_all add: isxml_iff isspace_iff code_def)

lemma slash_bang: "CHR ''/'' \<noteq> CHR ''!''"
  by simp

lemma quote_mark: "\<not> isspace (chr 34)"
  by (simp add: isspace_iff)

lemma need_space_stop: "drop i d = c # r \<Longrightarrow> \<not> isspace c \<Longrightarrow> need_space d i = Some i"
  using at_drop [of i d c r] skip_space_stop [of i d] by (simp add: need_space_def)

lemma need_space_one: "drop i d = '' '' @ c # r \<Longrightarrow> \<not> isspace c \<Longrightarrow> need_space d i = Some (i + 1)"
proof -
  assume a: "drop i d = '' '' @ c # r" "\<not> isspace c"
  have "drop (i + 1) d = c # r" using drop_add [of i d "'' ''"] a(1) by simp
  from at_drop [OF this] show ?thesis using skip_space_one [OF a(1)] a(2) by (simp add: need_space_def)
qed

text \<open>The attributes written before \<open>>\<close> or \<open>/>\<close> are read back.\<close>

lemma read_attributes_end:
  assumes "drop i d = (if full then ''/>'' else ''>'') @ r"
  shows "read_attributes d False name i m = Inr (if full then i + 1 else i, full, m)"
proof (cases full)
  case True
  then have 1: "drop i d = CHR ''/'' # CHR ''>'' # r" and 2: "drop (i + 1) d = CHR ''>'' # r"
    using assms drop_add [of i d "''/''"] by auto
  show ?thesis
    using True at_drop [OF 1] at_drop [OF 2] need_space_stop [OF 1] marks by (subst read_attributes.simps) simp
next
  case False
  then have 1: "drop i d = CHR ''>'' # r" using assms by simp
  show ?thesis
    using False at_drop [OF 1] need_space_stop [OF 1] marks by (subst read_attributes.simps) simp
qed

lemma read_attributes_one:
  assumes "drop i d = write_attribute (k, v) @ r" and "attribute_ok (k, v)"
  shows "read_attributes d False name i m =
    read_attributes d False name (i + length (write_attribute (k, v))) (mput IComparator k v m)"
proof -
  have k: "name_ok k" and v: "chr 34 \<notin> set v" "chr 92 \<notin> set v" using assms(2) by (auto simp: attribute_ok_def)
  obtain b u where kb: "k = b # u" using k by (cases k) (auto simp: name_ok_def)
  have b: "\<not> isspace b" "b \<noteq> CHR ''/''" "b \<noteq> CHR ''>''" using name_ok_start [OF k] kb by auto
  let ?j = "i + 1 + length k"
  have d0: "drop i d = '' '' @ k @ ''='' @ [chr 34] @ v @ [chr 34] @ r" using assms(1) by (simp add: write_attribute_def)
  have d1: "drop (i + 1) d = k @ CHR ''='' # [chr 34] @ v @ [chr 34] @ r" using drop_add [OF d0] by simp
  have d2: "drop ?j d = CHR ''='' # [chr 34] @ v @ [chr 34] @ r" using drop_add [OF d1] by simp
  have d3: "drop (?j + 1) d = chr 34 # v @ [chr 34] @ r" using drop_add [of ?j d "''=''"] d2 by simp
  have d4: "drop (?j + 2) d = v @ [chr 34] @ r" using drop_add [of "?j + 1" d "[chr 34]"] d3 by simp
  have d5: "drop (?j + 2 + length v) d = chr 34 # r" using drop_add [OF d4] by simp
  have n0: "need_space d i = Some (i + 1)" using need_space_one [of i d b] d0 kb b by simp
  have p: "parseXMLName d ''='' (i + 1) = Inr (k, ?j)"
    using parseXMLName_drop [OF d1 k] marks by simp
  have n1: "need_space d ?j = Some ?j" using need_space_stop [OF d2] marks by simp
  have n2: "need_space d (?j + 1) = Some (?j + 1)" using need_space_stop [OF d3] quote_mark by simp
  have v1: "value_end d (chr 34) (?j + 2) = Some (?j + 2 + length v)" using value_end_drop [OF d4 v] .
  have t: "text_at d (?j + 2) (?j + 2 + length v) = v" using text_at_drop [OF d4] .
  have i0: "i < length d" using at_drop [of i d] d0 by simp
  have i1: "d ! (i + 1) = b" using at_drop [of "i + 1" d b] d1 kb by simp
  have i3: "d ! (?j + 1) = chr 34" "?j + 2 \<noteq> length d"
    using at_drop [OF d3] at_drop [OF d5] by auto
  show ?thesis
    using i0 i1 i3 n0 p n1 n2 v1 t b
    by (subst read_attributes.simps) (simp add: write_attribute_def add.commute add.left_commute)
qed

lemma read_attributes_drop:
  "drop i d = write_attributes a @ (if full then ''/>'' else ''>'') @ r \<Longrightarrow> list_all attribute_ok a \<Longrightarrow>
   read_attributes d False name i m =
     Inr (i + length (write_attributes a) + (if full then 1 else 0), full, fold (\<lambda>(k, v) m. mput IComparator k v m) a m)"
proof (induction a arbitrary: i m)
  case Nil
  then show ?case using read_attributes_end [of i d full r name m] by (auto simp: write_attributes_def)
next
  case (Cons kv a)
  obtain k v where kv: "kv = (k, v)" by (cases kv)
  have d0: "drop i d = write_attribute (k, v) @ write_attributes a @ (if full then ''/>'' else ''>'') @ r"
    using Cons.prems kv by (simp add: write_attributes_def)
  show ?case
    using Cons.IH [OF drop_add [OF d0]] read_attributes_one [OF d0, of name m] Cons.prems(2) kv
    by (simp add: write_attributes_def add.assoc)
qed

section \<open>Steps of the loop\<close>

text \<open>A parser inside a document, and the events once the pending inner text is given.\<close>

definition inside :: "nat \<Rightarrow> xml_tag list \<Rightarrow> string option \<Rightarrow> xml_state" where
  "inside i tags inner =
     \<lparr>xcur = i, xstarted = True, xex = None, xtags = tags, xinner = inner, xrunning = True\<rparr>"

definition flushed :: "xml_tag list \<Rightarrow> string option \<Rightarrow> xml_event list \<Rightarrow> xml_event list" where
  "flushed tags inner log = log @ (case inner of None \<Rightarrow> [] | Some t \<Rightarrow> [InnerElement (tname (hd tags)) t])"

definition loop_at ::
  "string \<Rightarrow> nat \<Rightarrow> xml_state \<Rightarrow> xml_event list \<Rightarrow> xml_result \<times> xml_state \<times> xml_event list \<times> unit" where
  "loop_at d m st log = xml_loop (logged quiet) d m st (log, ())"

text \<open>Pending inner text belongs to an element, and has no space at its end.\<close>

definition pending_ok :: "nat \<Rightarrow> xml_tag list \<Rightarrow> string option \<Rightarrow> bool" where
  "pending_ok m tags inner \<longleftrightarrow> (inner \<noteq> None \<longrightarrow> m = 0 \<and> tags \<noteq> [])"

lemma quiet_call: "xml_call (logged quiet) ev st (log, u) = (True, False, st, log @ [ev], u)"
  by (simp add: xml_call_def logged_def quiet_def)

lemma quiet_next: "xml_next d (xml_call (logged quiet) ev st (log, u)) = (None, st, log @ [ev], u)"
  by (simp add: quiet_call xml_next_def)

lemma quiet_pause: "xml_pause (xml_call (logged quiet) ev st (log, u)) = (None, st, log @ [ev], u)"
  by (simp add: quiet_call xml_pause_def)

lemma inside_simps [simp]:
  "xcur (inside i tags inner) = i" "xstarted (inside i tags inner)" "xtags (inside i tags inner) = tags"
  "xinner (inside i tags inner) = inner" "xex (inside i tags inner) = None"
  "(inside i tags inner)\<lparr>xcur := j\<rparr> = inside j tags inner"
  "(inside i tags inner)\<lparr>xtags := ts\<rparr> = inside i ts inner"
  "(inside i tags inner)\<lparr>xinner := io\<rparr> = inside i tags io"
  by (simp_all add: inside_def)

lemma inner_flush:
  assumes "pending_ok m tags inner" "drop i d = ''<'' @ c # r" "c \<noteq> CHR ''!''"
  shows "xml_inner (logged quiet) d m (inside i tags inner) (log, ()) = (None, inside i tags None, flushed tags inner log, ())"
proof -
  have "\<not> starts_with_at d i ''<![CDATA[''"
    using bang_after_cdata [of d i] assms(2,3) at_drop [of "i + 1" d c r] drop_add [of i d "''<''"] by auto
  then show ?thesis
    using assms(1) by (cases inner; cases tags) (auto simp: xml_inner_def flushed_def pending_ok_def quiet_pause)
qed

lemma markup_step:
  assumes p: "pending_ok m tags inner" and d: "drop i d = ''<'' @ c # r" and c: "c \<noteq> CHR ''!''"
    and mk: "xml_markup (logged quiet) d (inside i tags None) (flushed tags inner log, ()) = (None, inside j ts None, log', ())"
  shows "loop_at d m (inside i tags inner) log = loop_at d m (inside j ts None) log'"
  using at_drop [of i d "CHR ''<''"] d inner_flush [OF p d c, of log] mk
  by (subst loop_at_def, subst xml_loop.simps) (simp add: xml_start_document_def loop_at_def)

lemma start_markup:
  assumes d: "drop i d = ''<'' @ n @ write_attributes a @ (if full then ''/>'' else ''>'') @ r"
    and n: "name_ok n" and a: "list_all attribute_ok a" and r: "r = [] \<or> \<not> isspace (hd r)"
  shows "xml_markup (logged quiet) d (inside i tags None) (log, ()) =
    (None, inside (length d - length r) (if full then tags else \<lparr>tname = n, tfull = False\<rparr> # tags) None,
     log @ StartElement n (attributes_of a) # (if full then [EndElement n] else []), ())"
proof -
  let ?e = "if full then ''/>'' else ''>''"
  obtain b u where nb: "n = b # u" using n by (cases n) (auto simp: name_ok_def)
  have b: "b \<noteq> CHR ''/''" "b \<noteq> CHR ''!''" "b \<noteq> CHR ''?''" using name_ok_start [OF n] nb by auto
  have d1: "drop (i + 1) d = n @ write_attributes a @ ?e @ r" using drop_add [OF d] by simp
  have d2: "drop (i + 1 + length n) d = write_attributes a @ ?e @ r" using drop_add [OF d1] .
  have d3: "drop (i + 1 + length n + length (write_attributes a)) d = ?e @ r" using drop_add [OF d2] .
  have d4: "drop (i + 1 + length n + length (write_attributes a) + length ?e) d = r" using drop_add [OF d3] .
  let ?k = "i + 1 + length n + length (write_attributes a) + (if full then 1 else 0)"
  have k: "?k + 1 = i + 1 + length n + length (write_attributes a) + length ?e" by simp
  obtain c v where c: "write_attributes a @ ?e @ r = c # v" "\<not> isxml c" "c \<in> set ''/>'' \<or> isspace c"
    using marks by (cases a; cases full) (auto simp: write_attributes_def write_attribute_def)
  have pn: "parseXMLName d ''/>'' (i + 1) = Inr (n, i + 1 + length n)"
    using parseXMLName_drop [of "i + 1" d n c v "''/>''"] d1 c n by simp
  have ra: "read_attributes d False n (i + 1 + length n) [] = Inr (?k, full, attributes_of a)"
    using read_attributes_drop [OF d2 a, of n "[]"] by (simp add: attributes_of_def)
  have i1: "i + 1 < length d" "d ! (i + 1) = b" using at_drop [of "i + 1" d b] d1 nb by auto
  have kl: "?k < length d" using arg_cong [OF d3, of length] by (auto split: if_splits)
  have e: "length d - length r = ?k + 1"
    using arg_cong [OF d4, of length] kl by auto
  have sk: "skip_after d (?k + 1) (inside (i + 1) tags None) = ?k + 1"
  proof -
    have "drop (?k + 1) d = r" unfolding k by (rule d4)
    then have "skip_space d (?k + 1) = ?k + 1" using r by (intro skip_space_stop) simp
    then show ?thesis unfolding skip_after_def by simp
  qed
  show ?thesis
    using i1 b pn ra kl sk e
    by (simp add: xml_markup_def xml_start_element_def xml_open_def Let_def quiet_call xml_next_def)
qed

lemma end_markup:
  assumes d: "drop i d = ''</'' @ n @ ''>'' @ r" and n: "name_ok n" and r: "r = [] \<or> \<not> isspace (hd r)"
  shows "xml_markup (logged quiet) d (inside i (\<lparr>tname = n, tfull = False\<rparr> # tags) None) (log, ()) =
    (None, inside (length d - length r) tags None, log @ [EndElement n], ())"
proof -
  have d1: "drop (i + 1) d = CHR ''/'' # n @ ''>'' @ r" using drop_add [of i d "''<''"] d by simp
  have d2: "drop (i + 2) d = n @ ''>'' @ r" using drop_add [of i d "''</''"] d by simp
  have d3: "drop (i + 2 + length n) d = CHR ''>'' # r" using drop_add [OF d2] by simp
  have d4: "drop (i + 2 + length n + 1) d = r" using drop_add [of "i + 2 + length n" d "''>''"] d3 by simp
  have l: "i + 1 < length d" "d ! (i + 1) = CHR ''/''" "i + 2 + length n < length d" "d ! (i + 2 + length n) = CHR ''>''"
    using at_drop [OF d1] at_drop [OF d3] by auto
  have t: "take (length n) (drop (i + 2) d) = n" using d2 by simp
  have s1: "skip_space d (i + 2 + length n) = i + 2 + length n"
    using skip_space_stop [of "i + 2 + length n" d] d3 marks by simp
  have s2: "skip_space d (i + 2 + length n + 1) = i + 2 + length n + 1"
    by (rule skip_space_stop) (use d4 r in auto)
  have e: "length d - length r = i + 2 + length n + 1" using arg_cong [OF d4, of length] l by auto
  show ?thesis
    using l t s1 s2 e
    by (simp add: xml_markup_def xml_end_element_def Let_def quiet_next skip_after_def add.commute add.left_commute)
qed

text \<open>The text of an element, from its first character to the next markup.\<close>

lemma text_rest:
  "drop i d = u @ r \<Longrightarrow> CHR ''<'' \<notin> set u \<Longrightarrow>
   \<exists>m'. loop_at d m (inside i tags (Some t)) log = loop_at d m' (inside (i + length u) tags (Some (t @ u))) log \<and>
     (u = [] \<longrightarrow> m' = m) \<and> (u \<noteq> [] \<and> \<not> isspace (last u) \<longrightarrow> m' = 0)"
proof (induction u arbitrary: i t m)
  case Nil
  then show ?case by auto
next
  case (Cons c u)
  let ?m = "if isspace c then m + 1 else 0"
  have i: "i < length d" "d ! i = c" using at_drop [of i d c] Cons.prems(1) by auto
  have d1: "drop (i + 1) d = u @ r" using drop_add [of i d "[c]"] Cons.prems(1) by simp
  have "loop_at d m (inside i tags (Some t)) log = loop_at d ?m (inside (i + 1) tags (Some (t @ [c]))) log"
    using i Cons.prems(2) by (subst loop_at_def, subst xml_loop.simps) (auto simp: xml_text_def Let_def loop_at_def)
  then show ?case using Cons.IH [OF d1, of ?m "t @ [c]"] Cons.prems(2) by (cases u) auto
qed

lemma text_step:
  assumes d: "drop i d = t @ r" and t: "text_ok t" and tags: "tags \<noteq> []"
  shows "loop_at d m (inside i tags None) log = loop_at d 0 (inside (i + length t) tags (Some t)) log"
proof -
  obtain c u where cu: "t = c # u" using t by (cases t) (auto simp: text_ok_def)
  have i: "i < length d" "d ! i = c" using at_drop [of i d c] d cu by auto
  have c: "\<not> isspace c" "c \<noteq> CHR ''<''" "CHR ''<'' \<notin> set u" using t cu by (auto simp: text_ok_def)
  have d1: "drop (i + 1) d = u @ r" using drop_add [of i d "[c]"] d cu by simp
  have 1: "loop_at d m (inside i tags None) log = loop_at d 0 (inside (i + 1) tags (Some [c])) log"
    using i c tags by (subst loop_at_def, subst xml_loop.simps) (auto simp: xml_text_def Let_def loop_at_def)
  obtain m' where 2: "loop_at d 0 (inside (i + 1) tags (Some [c])) log =
      loop_at d m' (inside (i + 1 + length u) tags (Some ([c] @ u))) log"
      and 3: "u = [] \<longrightarrow> m' = 0" "u \<noteq> [] \<and> \<not> isspace (last u) \<longrightarrow> m' = 0"
    using text_rest [OF d1 c(3), of 0 tags "[c]" log] by blast
  have "m' = 0" using 3 t cu by (cases "u = []") (auto simp: text_ok_def)
  then show ?thesis using 1 2 cu by simp
qed

lemma start_step:
  assumes d: "drop i d = ''<'' @ n @ write_attributes a @ (if full then ''/>'' else ''>'') @ r"
    and n: "name_ok n" and a: "list_all attribute_ok a" and r: "r = [] \<or> \<not> isspace (hd r)"
    and p: "pending_ok m tags inner"
  shows "loop_at d m (inside i tags inner) log =
    loop_at d m (inside (length d - length r) (if full then tags else \<lparr>tname = n, tfull = False\<rparr> # tags) None)
      (flushed tags inner log @ StartElement n (attributes_of a) # (if full then [EndElement n] else []))"
proof -
  obtain b u where nb: "n = b # u" using n by (cases n) (auto simp: name_ok_def)
  have "drop i d = ''<'' @ b # u @ write_attributes a @ (if full then ''/>'' else ''>'') @ r" using d nb by simp
  moreover have "b \<noteq> CHR ''!''" using name_ok_start [OF n] nb by auto
  ultimately show ?thesis
    using start_markup [OF d n a r, of tags "flushed tags inner log"] by (intro markup_step [OF p])
qed

lemma end_step:
  assumes d: "drop i d = ''</'' @ n @ ''>'' @ r" and n: "name_ok n" and r: "r = [] \<or> \<not> isspace (hd r)"
    and p: "pending_ok m (\<lparr>tname = n, tfull = False\<rparr> # tags) inner"
  shows "loop_at d m (inside i (\<lparr>tname = n, tfull = False\<rparr> # tags) inner) log =
    loop_at d m (inside (length d - length r) tags None)
      (flushed (\<lparr>tname = n, tfull = False\<rparr> # tags) inner log @ [EndElement n])"
proof -
  have "drop i d = ''<'' @ CHR ''/'' # n @ ''>'' @ r" using d by simp
  then show ?thesis
    using end_markup [OF d n r, of tags "flushed (\<lparr>tname = n, tfull = False\<rparr> # tags) inner log"]
    by (rule markup_step [OF p _ slash_bang])
qed

section \<open>The parser gives the events of a document\<close>

lemma node_first: "node_ok x \<Longrightarrow> write_node x \<noteq> [] \<and> \<not> isspace (hd (write_node x))"
  using marks by (cases x) (auto simp: text_ok_def)

lemma nodes_first: "nodes_ok xs \<Longrightarrow> write_nodes xs = [] \<or> \<not> isspace (hd (write_nodes xs))"
  using node_first by (cases xs) (auto simp: hd_append)

definition reaches :: "string \<Rightarrow> nat \<Rightarrow> nat \<Rightarrow> xml_tag list \<Rightarrow> string option \<Rightarrow> xml_event list \<Rightarrow> nat \<Rightarrow> bool \<Rightarrow> xml_event list \<Rightarrow> bool" where
  "reaches d m i tags inner log j text events \<longleftrightarrow>
     (\<exists>m' inner' log'. loop_at d m (inside i tags inner) log = loop_at d m' (inside j tags inner') log' \<and>
        pending_ok m' tags inner' \<and> (inner' \<noteq> None \<longrightarrow> text) \<and> flushed tags inner' log' = flushed tags inner log @ events)"

lemma end_of_drop: "drop i d = w @ r \<Longrightarrow> w \<noteq> [] \<Longrightarrow> length d - length r = i + length w"
proof -
  assume a: "drop i d = w @ r" "w \<noteq> []"
  then have "length d - i = length w + length r" by (metis length_append length_drop)
  moreover have "0 < length w" using a(2) by simp
  ultimately show ?thesis by linarith
qed

lemma flushed_none [simp]: "flushed tags None log = log"
  by (simp add: flushed_def)

lemma reachesI:
  "loop_at d m (inside i tags inner) log = loop_at d m' (inside j tags inner') log' \<Longrightarrow> pending_ok m' tags inner' \<Longrightarrow>
   (inner' \<noteq> None \<longrightarrow> text) \<Longrightarrow> flushed tags inner' log' = flushed tags inner log @ events \<Longrightarrow>
   reaches d m i tags inner log j text events"
  unfolding reaches_def by blast

lemma node_reaches:
  "node_ok x \<Longrightarrow> drop i d = write_node x @ r \<Longrightarrow> pending_ok m tags inner \<Longrightarrow>
   \<not> (is_text x \<and> (inner \<noteq> None \<or> tags = [])) \<Longrightarrow> is_text x \<or> r = [] \<or> \<not> isspace (hd r) \<Longrightarrow>
   reaches d m i tags inner log (i + length (write_node x)) (is_text x) (node_events (tname (hd tags)) x)"
  and nodes_reaches:
  "nodes_ok xs \<Longrightarrow> drop i d = write_nodes xs @ r \<Longrightarrow> pending_ok m tags inner \<Longrightarrow> tags \<noteq> [] \<Longrightarrow>
   \<not> (xs \<noteq> [] \<and> is_text (hd xs) \<and> inner \<noteq> None) \<Longrightarrow> r = [] \<or> \<not> isspace (hd r) \<Longrightarrow>
   reaches d m i tags inner log (i + length (write_nodes xs)) True (nodes_events (tname (hd tags)) xs)"
proof (induction x and xs arbitrary: i r m tags inner log and i r m tags inner log rule: write_node_write_nodes.induct)
  case (1 t)
  then have i: "inner = None" "tags \<noteq> []" by auto
  show ?case
    by (rule reachesI [where m' = 0 and inner' = "Some t" and log' = log])
       (use 1 i text_step [of i d t r tags m log] in \<open>auto simp: pending_ok_def flushed_def\<close>)
next
  case (2 n a)
  have d: "drop i d = ''<'' @ n @ write_attributes a @ (if True then ''/>'' else ''>'') @ r" using 2 by simp
  have e: "length d - length r = i + length (write_node (Empty n a))" using end_of_drop [OF 2(2)] by simp
  show ?case
    by (rule reachesI, subst start_step [OF d, of m tags inner log])
       (use 2 e in \<open>auto simp: pending_ok_def\<close>)
next
  case (3 n a xs)
  let ?tag = "\<lparr>tname = n, tfull = False\<rparr>" and ?log = "flushed tags inner log @ [StartElement n (attributes_of a)]"
  let ?r = "''</'' @ n @ ''>'' @ r"
  have d: "drop i d = ''<'' @ n @ write_attributes a @ (if False then ''/>'' else ''>'') @ write_nodes xs @ ?r" using 3 by simp
  let ?i = "length d - length (write_nodes xs @ ?r)"
  have ok: "name_ok n" "list_all attribute_ok a" "nodes_ok xs" using 3 by auto
  have first: "write_nodes xs @ ?r = [] \<or> \<not> isspace (hd (write_nodes xs @ ?r))"
    using nodes_first [OF ok(3)] marks by (cases "write_nodes xs") auto
  have i: "?i = i + length (''<'' @ n @ write_attributes a @ ''>'')"
    using end_of_drop [of i d "''<'' @ n @ write_attributes a @ ''>''" "write_nodes xs @ ?r"] d by simp
  have di: "drop ?i d = write_nodes xs @ ?r"
    unfolding i using drop_add [of i d "''<'' @ n @ write_attributes a @ ''>''"] d by simp
  have s: "loop_at d m (inside i tags inner) log = loop_at d m (inside ?i (?tag # tags) None) ?log"
    using start_step [OF d ok(1,2) first 3(4), of log] by simp
  have "reaches d m ?i (?tag # tags) None ?log (?i + length (write_nodes xs)) True (nodes_events n xs)"
    using 3(1) [OF ok(3) di, of m "?tag # tags" None ?log] marks by (simp add: pending_ok_def)
  then obtain m' inner' log' where
      k: "loop_at d m (inside ?i (?tag # tags) None) ?log = loop_at d m' (inside (?i + length (write_nodes xs)) (?tag # tags) inner') log'"
      and p: "pending_ok m' (?tag # tags) inner'" and f: "flushed (?tag # tags) inner' log' = ?log @ nodes_events n xs"
    by (auto simp: reaches_def)
  have r: "r = [] \<or> \<not> isspace (hd r)" using 3 by auto
  note e = end_step [OF drop_add [OF di] ok(1) r p, of log']
  have j: "length d - length r = i + length (write_node (Elem n a xs))" using end_of_drop [OF 3(3)] by simp
  from s k e j have "loop_at d m (inside i tags inner) log =
      loop_at d m' (inside (i + length (write_node (Elem n a xs))) tags None)
        (flushed tags inner log @ node_events (tname (hd tags)) (Elem n a xs))"
    by (simp only: f) simp
  then show ?case by (rule reachesI) (simp_all add: pending_ok_def)
next
  case 4
  show ?case by (rule reachesI) (use 4 in auto)
next
  case (5 x xs)
  have ok: "node_ok x" "nodes_ok xs" "\<not> (is_text x \<and> xs \<noteq> [] \<and> is_text (hd xs))" using 5 by auto
  have d: "drop i d = write_node x @ write_nodes xs @ r" using 5 by simp
  have first: "write_nodes xs @ r = [] \<or> \<not> isspace (hd (write_nodes xs @ r))"
    using nodes_first [OF ok(2)] 5 by (cases "write_nodes xs") auto
  have "reaches d m i tags inner log (i + length (write_node x)) (is_text x) (node_events (tname (hd tags)) x)"
    using 5 ok first by (intro 5(1) [OF ok(1) d]) auto
  then obtain m1 inner1 log1 where
      k: "loop_at d m (inside i tags inner) log = loop_at d m1 (inside (i + length (write_node x)) tags inner1) log1"
      and p: "pending_ok m1 tags inner1" "inner1 \<noteq> None \<longrightarrow> is_text x"
      and f: "flushed tags inner1 log1 = flushed tags inner log @ node_events (tname (hd tags)) x"
    by (auto simp: reaches_def)
  have "reaches d m1 (i + length (write_node x)) tags inner1 log1
      (i + length (write_node x) + length (write_nodes xs)) True (nodes_events (tname (hd tags)) xs)"
    using 5 ok p by (intro 5(2) [OF ok(2) drop_add [OF d]]) auto
  then show ?case using k f by (simp add: reaches_def add.assoc)
qed

lemma document_end:
  assumes "drop i d = []"
  shows "loop_at d m (inside i [] None) log = (RESULT_DONE, inside i [] None, log, ())"
  using assms by (subst loop_at_def, subst xml_loop.simps) (simp add: xml_end_def)

text \<open>The prologue: the first markup starts the document.\<close>

lemma document_start:
  assumes "d ! 0 = CHR ''<''" "d \<noteq> []"
  shows "xml_loop (logged quiet) d 0 (XMLParser\<lparr>xrunning := True\<rparr>) ([], ()) = loop_at d 0 (inside 0 [] None) [StartDocument]"
proof -
  have "xml_start_document (logged quiet) (XMLParser\<lparr>xrunning := True\<rparr>) ([], ()) = (None, inside 0 [] None, [StartDocument], ())"
    by (simp add: xml_start_document_def quiet_pause XMLParser_def inside_def)
  moreover have "xml_start_document (logged quiet) (inside 0 [] None) ([StartDocument], ()) = (None, inside 0 [] None, [StartDocument], ())"
    by (simp add: xml_start_document_def)
  ultimately show ?thesis
    using assms unfolding loop_at_def by (subst (1 2) xml_loop.simps) (simp add: XMLParser_def)
qed

text \<open>
  C6: The parser gives for the text of a document exactly its events: for every tree of elements with
  attributes and texts (texts without spaces around them and without \<open><\<close>, values without quote and
  backslash), it starts and ends every element in order with its name, its attributes and its texts, ends
  at the end of the text and answers \<open>RESULT_DONE\<close>.
\<close>

theorem xml_document_events:
  assumes "node_ok x" and "\<not> is_text x"
  shows "xml_parse (logged quiet) (write_node x) XMLParser ([], ()) =
    Some (RESULT_DONE, None,
      \<lparr>xcur = length (write_node x), xstarted = True, xex = None, xtags = [], xinner = None, xrunning = False\<rparr>,
      [StartDocument] @ node_events [] x @ [EndDocument None], ())"
proof -
  let ?d = "write_node x" and ?st = "XMLParser\<lparr>xrunning := True\<rparr>"
  have d: "?d \<noteq> []" "?d ! 0 = CHR ''<''" using assms(2) by (cases x; simp)+
  have "reaches ?d 0 0 [] None [StartDocument] (0 + length ?d) (is_text x) (node_events (tname (hd ([] :: xml_tag list))) x)"
    using assms by (intro node_reaches(1) [where r = "[]"]) (auto simp: pending_ok_def)
  moreover have "node_events (tname (hd ([] :: xml_tag list))) x = node_events [] x" using assms(2) by (cases x) auto
  ultimately obtain m' inner' log' where
      k: "loop_at ?d 0 (inside 0 [] None) [StartDocument] = loop_at ?d m' (inside (length ?d) [] inner') log'"
      and p: "inner' \<noteq> None \<longrightarrow> is_text x" and f: "flushed [] inner' log' = [StartDocument] @ node_events [] x"
    by (auto simp: reaches_def)
  have i: "inner' = None" using p assms(2) by blast
  have loop: "xml_loop (logged quiet) ?d 0 ?st ([], ()) =
      (RESULT_DONE, inside (length ?d) [] None, [StartDocument] @ node_events [] x, ())"
    using document_start [OF d(2,1)] k i f document_end [of "length ?d" ?d m'] by simp
  have "xml_pop_full (logged quiet) ?d ?st ([], ()) = (None, ?st, [], ())"
    by (subst xml_pop_full.simps) (simp add: XMLParser_def)
  then have "xml_run (logged quiet) ?d ?st ([], ()) =
      Some (RESULT_DONE, inside (length ?d) [] None, [StartDocument] @ node_events [] x, ())"
    using loop by (subst xml_run.simps) (simp add: XMLParser_def)
  then show ?thesis
    by (simp add: xml_parse_def XMLParser_def quiet_call inside_def)
qed

theorem xml_document_events_witness:
  "xml_parse (logged quiet) ''<a><b/>x</a>'' XMLParser ([], ()) =
    Some (RESULT_DONE, None,
      \<lparr>xcur = 12, xstarted = True, xex = None, xtags = [], xinner = None, xrunning = False\<rparr>,
      [StartDocument, StartElement ''a'' [], StartElement ''b'' [], EndElement ''b'', InnerElement ''a'' ''x'',
       EndElement ''a'', EndDocument None], ())"
proof -
  let ?x = "Elem ''a'' [] [Empty ''b'' [], Text ''x'']"
  have "node_ok ?x" by code_simp
  from xml_document_events [OF this] show ?thesis by (simp add: write_attributes_def attributes_of_def)
qed

end
