(* ===== verification/Xml_Reads.thy ===== *)
theory Xml_Reads
  imports Xml "HOL-Library.Monad_Syntax"
begin

text \<open>
  The reads of Mona/Format/XMLParser.cpp. The functions of Xml read the packet where their guards say it can be read; here
  the same code reads byte by byte through \<open>rd\<close>, which answers None outside of the packet, and a read outside
  ends everything with None. The lemmas show, function by function, that the guards are enough: the checked code answers
  what the code of Xml does, except for the loop over a CDATA in a packet that ends with a bracket.
\<close>

section \<open>Reads\<close>

definition rd :: "string \<Rightarrow> nat \<Rightarrow> char option" where
  "rd d i = (if i < length d then Some (d ! i) else None)"

text \<open>\<open>memcmp\<close> reads \<open>n\<close> bytes.\<close>

definition rd_text :: "string \<Rightarrow> nat \<Rightarrow> nat \<Rightarrow> string option" where
  "rd_text d i n = (if i + n \<le> length d then Some (take n (drop i d)) else None)"

lemma rd_in [simp]: "i < length d \<Longrightarrow> rd d i = Some (d ! i)"
  by (simp add: rd_def)

lemma rd_text_in [simp]: "i + n \<le> length d \<Longrightarrow> rd_text d i n = Some (take n (drop i d))"
  by (simp add: rd_text_def)

section \<open>Scanning\<close>

text \<open>\<open>while (_current < end && isspace(*_current)) ++_current\<close>.\<close>

function skip_space_rd :: "string \<Rightarrow> nat \<Rightarrow> nat option" where
  "skip_space_rd d i =
     (if i < length d
      then (case rd d i of None \<Rightarrow> None | Some c \<Rightarrow> if isspace c then skip_space_rd d (i + 1) else Some i)
      else Some i)"
  by pat_completeness auto
termination by (relation "measure (\<lambda>(d, i). length d - i)") auto

text \<open>\<open>while (isspace(*_current)) if (++_current == end) error\<close>: Some None is the error.\<close>

function need_space_rd :: "string \<Rightarrow> nat \<Rightarrow> nat option option" where
  "need_space_rd d i =
     (case rd d i of
        None \<Rightarrow> None
      | Some c \<Rightarrow>
          (if isspace c then (if i + 1 = length d then Some None else need_space_rd d (i + 1)) else Some (Some i)))"
  by pat_completeness auto
termination by (relation "measure (\<lambda>(d, i). length d - i)") (auto simp: rd_def split: if_splits)

function name_end_rd :: "string \<Rightarrow> nat \<Rightarrow> nat option" where
  "name_end_rd d i =
     (if i < length d
      then (case rd d i of None \<Rightarrow> None | Some c \<Rightarrow> if isxml c then name_end_rd d (i + 1) else Some i)
      else Some i)"
  by pat_completeness auto
termination by (relation "measure (\<lambda>(d, i). length d - i)") auto

definition parseXMLName_rd :: "string \<Rightarrow> string \<Rightarrow> nat \<Rightarrow> (xml_error + (string \<times> nat)) option" where
  "parseXMLName_rd d endMarkers i =
     (case rd d i of
        None \<Rightarrow> None
      | Some c \<Rightarrow>
          (if \<not> isalpha c \<and> c \<noteq> CHR ''_'' then Some (Inl Name_Start)
           else
             (case name_end_rd d (i + 1) of
                None \<Rightarrow> None
              | Some j \<Rightarrow>
                  (let name = text_at d i j
                   in if j = length d then Some (Inl (Name_Without_Termination name))
                      else
                        (case rd d j of
                           None \<Rightarrow> None
                         | Some e \<Rightarrow>
                             (if \<not> (e \<in> set endMarkers \<or> e = NUL) \<and> \<not> isspace e
                              then Some (Inl (Name_Without_Termination name)) else Some (Inr (name, j))))))))"

text \<open>\<open>while (*_current != delimiter)\<close> with two steps over an escaped character: Some None is the error.\<close>

function value_end_rd :: "string \<Rightarrow> char \<Rightarrow> nat \<Rightarrow> nat option option" where
  "value_end_rd d q i =
     (case rd d i of
        None \<Rightarrow> None
      | Some c \<Rightarrow>
          (if c = q then Some (Some i)
           else if c = chr 92 then
             (if i + 1 = length d then Some None
              else if i + 2 = length d then Some None else value_end_rd d q (i + 2))
           else if i + 1 = length d then Some None else value_end_rd d q (i + 1)))"
  by pat_completeness auto
termination by (relation "measure (\<lambda>(d, q, i). length d - i)") (auto simp: rd_def split: if_splits)

declare skip_space_rd.simps [simp del] need_space_rd.simps [simp del] name_end_rd.simps [simp del] value_end_rd.simps [simp del]

lemma skip_space_reads: "skip_space_rd d i = Some (skip_space d i)"
proof (induction d i rule: skip_space.induct)
  case (1 d i)
  then show ?case by (subst skip_space_rd.simps, subst skip_space.simps) simp
qed

lemma name_end_reads: "name_end_rd d i = Some (name_end d i)"
proof (induction d i rule: name_end.induct)
  case (1 d i)
  then show ?case by (subst name_end_rd.simps, subst name_end.simps) simp
qed

lemma need_space_reads: "i < length d \<Longrightarrow> need_space_rd d i = Some (need_space d i)"
proof (induction d i rule: need_space_rd.induct)
  case (1 d i)
  have end_: "skip_space d (length d) = length d" by (subst skip_space.simps) simp
  show ?case
  proof (cases "isspace (d ! i)")
    case True
    then have s: "skip_space d i = skip_space d (i + 1)" using 1(2) by (subst skip_space.simps) simp
    show ?thesis
    proof (cases "i + 1 = length d")
      case e: True
      then show ?thesis using True 1(2) s end_ by (subst need_space_rd.simps) (simp add: need_space_def)
    next
      case False
      then have "need_space_rd d (i + 1) = Some (need_space d (i + 1))" using 1 True by simp
      then show ?thesis using True False 1(2) s by (subst need_space_rd.simps) (simp add: need_space_def)
    qed
  next
    case False
    then have "skip_space d i = i" by (subst skip_space.simps) simp
    then show ?thesis using False 1(2) by (subst need_space_rd.simps) (simp add: need_space_def)
  qed
qed

lemma parseXMLName_reads: "i < length d \<Longrightarrow> parseXMLName_rd d m i = Some (parseXMLName d m i)"
  using name_end_le [of "i + 1" d]
  by (auto simp: parseXMLName_rd_def parseXMLName_def name_end_reads Let_def)

lemma value_end_reads: "i < length d \<Longrightarrow> value_end_rd d q i = Some (value_end d q i)"
proof (induction d q i rule: value_end_rd.induct)
  case (1 d q i)
  have end_: "value_end d q j = None" if "length d \<le> j" for j using that by (subst value_end.simps) simp
  show ?case using 1 end_ [of "i + 1"] end_ [of "i + 2"]
    by (subst value_end_rd.simps, subst value_end.simps) auto
qed

text \<open>A result with a read outside is none; an end of the packet that is an error goes on.\<close>

lemma rd_bounds: "rd d i = Some c \<Longrightarrow> i < length d"
  by (simp add: rd_def split: if_splits)

lemma need_space_rd_bounds: "need_space_rd d i = Some (Some j) \<Longrightarrow> i \<le> j \<and> j < length d"
proof -
  assume n: "need_space_rd d i = Some (Some j)"
  have "i < length d"
  proof (rule ccontr)
    assume "\<not> i < length d"
    then show False using n by (subst (asm) need_space_rd.simps) (simp add: rd_def)
  qed
  then show ?thesis using n need_space_reads [of i d] need_space_bounds [of d i j] by simp
qed

lemma parseXMLName_rd_bounds: "parseXMLName_rd d m i = Some (Inr (name, j)) \<Longrightarrow> i < j \<and> j < length d"
proof -
  assume n: "parseXMLName_rd d m i = Some (Inr (name, j))"
  then have "i < length d" by (auto simp: parseXMLName_rd_def dest: rd_bounds split: option.splits)
  then show ?thesis using n parseXMLName_reads [of i d m] parseXMLName_bounds [of d m i name j] by simp
qed

lemma value_end_rd_bounds: "value_end_rd d q i = Some (Some j) \<Longrightarrow> i \<le> j \<and> j < length d"
proof -
  assume n: "value_end_rd d q i = Some (Some j)"
  have "i < length d"
  proof (rule ccontr)
    assume "\<not> i < length d"
    then show False using n by (subst (asm) value_end_rd.simps) (simp add: rd_def)
  qed
  then show ?thesis using n value_end_reads [of i d q] value_end_bounds [of d q i j] by simp
qed

text \<open>The bracket that ends a tag, after a question mark or a slash.\<close>

definition closed_rd :: "string \<Rightarrow> nat \<Rightarrow> xml_error \<Rightarrow> bool \<Rightarrow> xml_attributes \<Rightarrow> (xml_error + (nat \<times> bool \<times> xml_attributes)) option" where
  "closed_rd d i e full attributes =
     (if i + 1 = length d then Some (Inl e)
      else do { c \<leftarrow> rd d (i + 1);
                Some (if c \<noteq> CHR ''>'' then Inl e else Inr (i + 1, full, attributes)) })"

function read_attributes_rd ::
  "string \<Rightarrow> bool \<Rightarrow> string \<Rightarrow> nat \<Rightarrow> xml_attributes \<Rightarrow> (xml_error + (nat \<times> bool \<times> xml_attributes)) option" where
  "read_attributes_rd d isInfos name i attributes =
     (if i \<ge> length d then Some (Inr (i, False, attributes))
      else
        (case need_space_rd d i of
           None \<Rightarrow> None
         | Some None \<Rightarrow> Some (Inl (Element_Without_Termination name))
         | Some (Some i) \<Rightarrow>
             (case rd d i of
                None \<Rightarrow> None
              | Some c \<Rightarrow>
                  (if isInfos \<and> c = CHR ''?'' then closed_rd d i (Info_Without_Termination name) False attributes
                   else if c = CHR ''/'' then closed_rd d i (Element_Without_Termination name) True attributes
                   else if c = CHR ''>'' then Some (Inr (i, False, attributes))
                   else
                     (case parseXMLName_rd d ''='' i of
                        None \<Rightarrow> None
                      | Some (Inl e) \<Rightarrow> Some (Inl e)
                      | Some (Inr (key, i)) \<Rightarrow>
                          (case need_space_rd d i of
                             None \<Rightarrow> None
                           | Some None \<Rightarrow> Some (Inl (Attribute_Without_Value key))
                           | Some (Some i) \<Rightarrow>
                               (if i + 1 = length d then Some (Inl (Attribute_Without_Value key))
                                else
                                  (case need_space_rd d (i + 1) of
                                     None \<Rightarrow> None
                                   | Some None \<Rightarrow> Some (Inl (Attribute_Without_Value key))
                                   | Some (Some i) \<Rightarrow>
                                       (case rd d i of
                                          None \<Rightarrow> None
                                        | Some q \<Rightarrow>
                                            (if q \<noteq> chr 34 \<and> q \<noteq> chr 39 \<or> i + 1 = length d
                                             then Some (Inl (Attribute_Without_Value key))
                                             else
                                               (case value_end_rd d q (i + 1) of
                                                  None \<Rightarrow> None
                                                | Some None \<Rightarrow> Some (Inl (Attribute_Malformed key))
                                                | Some (Some j) \<Rightarrow>
                                                    read_attributes_rd d isInfos name (j + 1)
                                                      (mput IComparator key (text_at d (i + 1) j) attributes))))))))))))"
  by pat_completeness auto
termination
  by (relation "measure (\<lambda>(d, isInfos, name, i, attributes). length d - i)")
     (auto dest!: need_space_rd_bounds parseXMLName_rd_bounds value_end_rd_bounds)

declare read_attributes_rd.simps [simp del]

lemma closed_reads:
  "i < length d \<Longrightarrow> closed_rd d i e full attributes =
     Some (if i + 1 = length d \<or> d ! (i + 1) \<noteq> CHR ''>'' then Inl e else Inr (i + 1, full, attributes))"
  by (simp add: closed_rd_def)

lemma need_space_end: "need_space d (length d) = None"
  by (simp add: need_space_def skip_space.simps)

lemma read_attributes_reads: "read_attributes_rd d isInfos name i attributes = Some (read_attributes d isInfos name i attributes)"
proof (induction "length d - i" arbitrary: i attributes rule: less_induct)
  case less
  show ?case
  proof (cases "i < length d")
    case False
    then show ?thesis by (simp add: read_attributes_rd.simps read_attributes.simps)
  next
    case i: True
    note unfold = read_attributes_rd.simps [of d isInfos name i attributes] read_attributes.simps [of d isInfos name i attributes]
    show ?thesis
    proof (cases "need_space d i")
      case None
      then show ?thesis using i by (simp add: unfold need_space_reads)
    next
      case s: (Some j)
      then have j: "j < length d" using need_space_bounds by blast
      show ?thesis
      proof (cases "isInfos \<and> d ! j = CHR ''?'' \<or> d ! j = CHR ''/'' \<or> d ! j = CHR ''>''")
        case True
        then show ?thesis using i j s by (auto simp: unfold need_space_reads closed_reads)
      next
        case tag: False
        show ?thesis
        proof (cases "parseXMLName d ''='' j")
          case (Inl e)
          then show ?thesis using i j s tag by (auto simp: unfold need_space_reads parseXMLName_reads)
        next
          case n: (Inr r)
          obtain key k where r: "r = (key, k)" by (cases r)
          then have k: "k < length d" using parseXMLName_bounds [OF n [unfolded r]] j by blast
          show ?thesis
          proof (cases "need_space d k")
            case None
            then show ?thesis using i j s tag n r k by (auto simp: unfold need_space_reads parseXMLName_reads)
          next
            case e: (Some l)
            then have l: "l < length d" using need_space_bounds by blast
            show ?thesis
            proof (cases "l + 1 = length d \<or> need_space d (l + 1) = None")
              case True
              then show ?thesis using i j s tag n r k e l need_space_end [of d]
                by (auto simp: unfold need_space_reads parseXMLName_reads)
            next
              case False
              then obtain m where m: "need_space d (l + 1) = Some m" "l + 1 < length d" using l by auto
              then have ml: "m < length d" using need_space_bounds by blast
              note known = i j s tag n r k e l m ml need_space_reads parseXMLName_reads
              show ?thesis
              proof (cases "d ! m \<noteq> chr 34 \<and> d ! m \<noteq> chr 39 \<or> m + 1 = length d")
                case True
                then show ?thesis using known by (auto simp: unfold)
              next
                case q: False
                then have "m + 1 < length d" using ml by simp
                then have v: "value_end_rd d (d ! m) (m + 1) = Some (value_end d (d ! m) (m + 1))" by (rule value_end_reads)
                show ?thesis
                proof (cases "value_end d (d ! m) (m + 1)")
                  case None
                  then show ?thesis using known q v by (auto simp: unfold)
                next
                  case (Some w)
                  have "read_attributes_rd d isInfos name (w + 1) (mput IComparator key (text_at d (m + 1) w) attributes) =
                      Some (read_attributes d isInfos name (w + 1) (mput IComparator key (text_at d (m + 1) w) attributes))"
                  proof (rule less)
                    have "i \<le> j" "j < k" "k \<le> l" "l + 1 \<le> m" "m + 1 \<le> w"
                      using need_space_bounds [OF s] parseXMLName_bounds [OF n [unfolded r]] need_space_bounds [OF e]
                        need_space_bounds [OF m(1)] value_end_bounds [OF Some] by simp_all
                    then show "length d - (w + 1) < length d - i" using i by linarith
                  qed
                  then show ?thesis using known q v Some by (auto simp: unfold)
                qed
              qed
            qed
          qed
        qed
      qed
    qed
  qed
qed

section \<open>CDATA and comments\<close>

text \<open>
  The loop of a CDATA; \<open>append(_current++, 1)\<close> reads where the test of the terminator has left the cursor,
  with no look at the end.
\<close>

function cdata_loop_rd :: "string \<Rightarrow> nat \<Rightarrow> string \<Rightarrow> (string \<times> nat) option" where
  "cdata_loop_rd d i inner =
     (if i \<ge> length d then Some (inner, i)
      else
        (case rd d i of
           None \<Rightarrow> None
         | Some c1 \<Rightarrow>
             (if c1 \<noteq> CHR '']'' then cdata_loop_rd d (i + 1) (inner @ [c1])
              else if i + 1 \<ge> length d then (case rd d (i + 1) of None \<Rightarrow> None | Some c \<Rightarrow> cdata_loop_rd d (i + 2) (inner @ [c]))
              else
                (case rd d (i + 1) of
                   None \<Rightarrow> None
                 | Some c2 \<Rightarrow>
                     (if c2 \<noteq> CHR '']'' then cdata_loop_rd d (i + 2) (inner @ [c2])
                      else if i + 2 \<ge> length d
                      then (case rd d (i + 2) of None \<Rightarrow> None | Some c \<Rightarrow> cdata_loop_rd d (i + 3) (inner @ [c]))
                      else
                        (case rd d (i + 2) of
                           None \<Rightarrow> None
                         | Some c3 \<Rightarrow>
                             (if c3 = CHR ''>'' then Some (inner, i + 2) else cdata_loop_rd d (i + 3) (inner @ [c3]))))))))"
  by pat_completeness auto
termination by (relation "measure (\<lambda>(d, i, inner). length d - i)") auto

text \<open>\<open>while (++_current < end)\<close>, with \<open>_current\<close> moved on by the test too.\<close>

function comment_loop_rd :: "string \<Rightarrow> char \<Rightarrow> char \<Rightarrow> nat \<Rightarrow> nat option" where
  "comment_loop_rd d delimiter1 delimiter2 i =
     (if i \<ge> length d then Some i
      else
        (case rd d i of
           None \<Rightarrow> None
         | Some c1 \<Rightarrow>
             (if c1 \<noteq> delimiter1 then comment_loop_rd d delimiter1 delimiter2 (i + 1)
              else if i + 1 \<ge> length d then comment_loop_rd d delimiter1 delimiter2 (i + 2)
              else
                (case rd d (i + 1) of
                   None \<Rightarrow> None
                 | Some c2 \<Rightarrow>
                     (if c2 \<noteq> delimiter2 then comment_loop_rd d delimiter1 delimiter2 (i + 2)
                      else if i + 2 \<ge> length d then comment_loop_rd d delimiter1 delimiter2 (i + 3)
                      else
                        (case rd d (i + 2) of
                           None \<Rightarrow> None
                         | Some c3 \<Rightarrow>
                             (if c3 = CHR ''>'' then Some (i + 2)
                              else comment_loop_rd d delimiter1 delimiter2 (i + 3))))))))"
  by pat_completeness auto
termination by (relation "measure (\<lambda>(d, delimiter1, delimiter2, i). length d - i)") auto

declare cdata_loop_rd.simps [simp del] comment_loop_rd.simps [simp del]

lemma cdata_loop_reads: "cdata_loop_rd d i inner = cdata_loop d i inner"
proof (induction d i inner rule: cdata_loop_rd.induct)
  case (1 d i inner)
  show ?case using 1 by (subst cdata_loop_rd.simps, subst cdata_loop.simps) (auto simp: rd_def)
qed

lemma comment_loop_reads: "comment_loop_rd d a b i = Some (comment_loop d a b i)"
proof (induction d a b i rule: comment_loop_rd.induct)
  case (1 d a b i)
  show ?case using 1 by (subst comment_loop_rd.simps, subst comment_loop.simps) auto
qed

section \<open>Markup\<close>

definition skip_after_rd :: "string \<Rightarrow> nat \<Rightarrow> xml_state \<Rightarrow> nat option" where
  "skip_after_rd d i st = (if xinner st = None then skip_space_rd d i else Some i)"

text \<open>\<open>end - _current >= n && memcmp(_current, text, n) == 0\<close>.\<close>

definition starts_with_rd :: "string \<Rightarrow> nat \<Rightarrow> string \<Rightarrow> bool option" where
  "starts_with_rd d i t =
     (if int (length d) - int i \<ge> int (length t) then do { u \<leftarrow> rd_text d i (length t); Some (u = t) } else Some False)"

definition xml_inner_rd :: "'s xml_handler \<Rightarrow> string \<Rightarrow> nat \<Rightarrow> xml_state \<Rightarrow> 's \<Rightarrow> 's xml_stage option" where
  "xml_inner_rd h d innerSpaceRemovables st s =
     (case xinner st of
        None \<Rightarrow> Some (None, st, s)
      | Some inner \<Rightarrow>
          do { cdata \<leftarrow> starts_with_rd d (xcur st) ''<![CDATA['';
               Some
                 (if cdata then (None, st, s)
                  else
                    (case xtags st of
                       [] \<Rightarrow> (Some Fault, st, s)
                     | tag # _ \<Rightarrow>
                         xml_pause (xml_call h
                           (InnerElement (tname tag) (take (length inner - innerSpaceRemovables) inner))
                           (st\<lparr>xinner := None\<rparr>) s))) })"

definition xml_end_element_rd :: "'s xml_handler \<Rightarrow> string \<Rightarrow> xml_state \<Rightarrow> 's \<Rightarrow> 's xml_stage option" where
  "xml_end_element_rd h d st s =
     (case xtags st of
        [] \<Rightarrow> Some (xml_stop End_Without_Start st s)
      | tag # tags \<Rightarrow>
          (let name = tname tag; i = xcur st
           in if i + length name \<ge> length d then Some (xml_stop (End_Not_Expected name) st s)
              else
                do { u \<leftarrow> rd_text d (i + 1) (length name);
                     if u \<noteq> name then Some (xml_stop (End_Not_Expected name) st s)
                     else
                       do { j \<leftarrow> skip_space_rd d (i + 1 + length name);
                            if j = length d then Some (xml_stop (End_Without_Termination name) st s)
                            else
                              do { c \<leftarrow> rd d j;
                                   if c \<noteq> CHR ''>'' then Some (xml_stop (End_Without_Termination name) st s)
                                   else
                                     do { k \<leftarrow> skip_after_rd d (j + 1) st;
                                          Some (xml_next d (xml_call h (EndElement name) (st\<lparr>xcur := k, xtags := tags\<rparr>) s)) } } } }))"

definition xml_cdata_rd :: "string \<Rightarrow> xml_state \<Rightarrow> 's \<Rightarrow> 's xml_stage option" where
  "xml_cdata_rd d st s =
     (if xtags st = [] then Some (xml_stop CDATA_Without_Parent st s)
      else
        do { (inner, i) \<leftarrow> cdata_loop_rd d (xcur st + 7) (case xinner st of None \<Rightarrow> [] | Some inner \<Rightarrow> inner);
             Some
               (if i = length d then xml_stop CDATA_Without_Termination st s
                else (None, st\<lparr>xcur := i + 1, xinner := Some inner\<rparr>, s)) })"

definition xml_comment_rd :: "string \<Rightarrow> xml_state \<Rightarrow> 's \<Rightarrow> 's xml_stage option" where
  "xml_comment_rd d st s =
     (let i = xcur st
      in do { delimiter1 \<leftarrow> rd d i;
              if i + 1 = length d then Some (xml_stop Comment_Malformed st s)
              else
                do { delimiter2 \<leftarrow> rd d (i + 1);
                     j \<leftarrow> comment_loop_rd d delimiter1 delimiter2 (i + 2);
                     if j = length d then Some (xml_stop Comment_Without_Termination st s)
                     else do { k \<leftarrow> skip_after_rd d (j + 1) st; Some (None, st\<lparr>xcur := k\<rparr>, s) } } })"

definition xml_bang_rd :: "string \<Rightarrow> xml_state \<Rightarrow> 's \<Rightarrow> 's xml_stage option" where
  "xml_bang_rd d st s =
     (let i = xcur st + 1; st = st\<lparr>xcur := i\<rparr>
      in if i = length d then Some (xml_stop Bang_Malformed st s)
         else
           do { cdata \<leftarrow> (if xinner st \<noteq> None then Some True else starts_with_rd d i ''[CDATA['');
                if cdata then xml_cdata_rd d st s else xml_comment_rd d st s })"

definition xml_start_element_rd :: "'s xml_handler \<Rightarrow> string \<Rightarrow> xml_state \<Rightarrow> 's \<Rightarrow> 's xml_stage option" where
  "xml_start_element_rd h d st s =
     do { c \<leftarrow> rd d (xcur st);
          (let isInfos = (c = CHR ''?''); i = (if isInfos then xcur st + 1 else xcur st)
           in if i = length d then Some (xml_stop Info_Without_Name st s)
              else
                do { named \<leftarrow> parseXMLName_rd d (if isInfos then ''?'' else ''/>'') i;
                     case named of
                       Inl e \<Rightarrow> Some (xml_stop e st s)
                     | Inr (name, i) \<Rightarrow>
                         do { tag \<leftarrow> read_attributes_rd d isInfos name i [];
                              case tag of
                                Inl e \<Rightarrow> Some (xml_stop e st s)
                              | Inr (i, full, attributes) \<Rightarrow>
                                  (if i \<ge> length d then Some (xml_stop (Element_Without_Termination name) st s)
                                   else
                                     do { k \<leftarrow> skip_after_rd d (i + 1) st;
                                          (let st = st\<lparr>xcur := k\<rparr>
                                           in Some (if isInfos then xml_next d (xml_call h (Infos name attributes) st s)
                                                    else xml_open h d name attributes full st s)) }) } }) }"

definition xml_markup_rd :: "'s xml_handler \<Rightarrow> string \<Rightarrow> xml_state \<Rightarrow> 's \<Rightarrow> 's xml_stage option" where
  "xml_markup_rd h d st s =
     (let i = xcur st + 1; st = st\<lparr>xcur := i\<rparr>
      in if i = length d then Some (xml_stop No_Tag_Name st s)
         else
           do { c \<leftarrow> rd d i;
                if c = CHR ''/'' then xml_end_element_rd h d st s
                else if c = CHR ''!'' then xml_bang_rd d st s
                else xml_start_element_rd h d st s })"

text \<open>The loop over a CDATA reads outside only in a packet that ends with a bracket.\<close>

definition bracket_end :: "string \<Rightarrow> bool" where
  "bracket_end d \<longleftrightarrow> d \<noteq> [] \<and> last d = CHR '']''"

lemma skip_after_reads: "skip_after_rd d i st = Some (skip_after d i st)"
  by (simp add: skip_after_rd_def skip_after_def skip_space_reads)

lemma starts_with_reads: "t \<noteq> [] \<Longrightarrow> starts_with_rd d i t = Some (starts_with_at d i t)"
  by (auto simp: starts_with_rd_def starts_with_at_def rd_text_def)

lemma xml_inner_reads: "xml_inner_rd h d n st s = Some (xml_inner h d n st s)"
  by (simp add: xml_inner_rd_def xml_inner_def starts_with_reads split: option.split)

lemma xml_end_element_reads: "xml_end_element_rd h d st s = Some (xml_end_element h d st s)"
proof (cases "xtags st")
  case (Cons tag tags)
  let ?i = "xcur st" and ?n = "length (tname tag)"
  have "skip_space d (?i + 1 + ?n) \<le> length d" if "?i + ?n < length d" using that by (intro skip_space_le) simp
  then show ?thesis
    by (auto simp: xml_end_element_rd_def xml_end_element_def Cons Let_def skip_space_reads skip_after_reads)
qed (simp add: xml_end_element_rd_def xml_end_element_def)

lemma xml_cdata_reads: "\<not> bracket_end d \<Longrightarrow> xml_cdata_rd d st s = Some (xml_cdata d st s)"
  using cdata_loop_fault [of d "xcur st + 7" "case xinner st of None \<Rightarrow> [] | Some inner \<Rightarrow> inner"]
  by (auto simp: xml_cdata_rd_def xml_cdata_def cdata_loop_reads bracket_end_def split: option.splits)

lemma xml_comment_reads: "xcur st < length d \<Longrightarrow> xml_comment_rd d st s = Some (xml_comment d st s)"
  by (auto simp: xml_comment_rd_def xml_comment_def Let_def comment_loop_reads skip_after_reads)

lemma xml_bang_reads: "xcur st < length d \<Longrightarrow> \<not> bracket_end d \<Longrightarrow> xml_bang_rd d st s = Some (xml_bang d st s)"
  by (auto simp: xml_bang_rd_def xml_bang_def Let_def starts_with_reads xml_cdata_reads xml_comment_reads)

lemma xml_start_element_reads: "xcur st < length d \<Longrightarrow> xml_start_element_rd h d st s = Some (xml_start_element h d st s)"
  by (auto simp: xml_start_element_rd_def xml_start_element_def Let_def parseXMLName_reads read_attributes_reads skip_after_reads
      split: sum.split prod.split)

lemma xml_markup_reads: "xcur st < length d \<Longrightarrow> \<not> bracket_end d \<Longrightarrow> xml_markup_rd h d st s = Some (xml_markup h d st s)"
  by (auto simp: xml_markup_rd_def xml_markup_def Let_def xml_end_element_reads xml_bang_reads xml_start_element_reads)

section \<open>The loop\<close>

definition xml_text_rd :: "string \<Rightarrow> nat \<Rightarrow> xml_state \<Rightarrow> 's \<Rightarrow> (nat \<times> 's xml_stage) option" where
  "xml_text_rd d n st s =
     do { c \<leftarrow> rd d (xcur st);
          Some (case xinner st of
             Some inner \<Rightarrow>
               (if isspace c then n + 1 else 0, None, st\<lparr>xinner := Some (inner @ [c]), xcur := xcur st + 1\<rparr>, s)
           | None \<Rightarrow>
               (if isspace c then (n, None, st\<lparr>xcur := xcur st + 1\<rparr>, s)
                else if xtags st = [] then (n, xml_stop Inner_Without_Parent st s)
                else (0, None, st\<lparr>xinner := Some [c], xcur := xcur st + 1\<rparr>, s))) }"

text \<open>The loop of \<open>parse()\<close>, which is all of it that reads the packet.\<close>

partial_function (option) xml_loop_rd ::
  "'s xml_handler \<Rightarrow> string \<Rightarrow> nat \<Rightarrow> xml_state \<Rightarrow> 's \<Rightarrow> (xml_result \<times> xml_state \<times> 's) option" where
  "xml_loop_rd h d n st s =
     (if xcur st \<ge> length d then Some (xml_end h st s)
      else
        (case rd d (xcur st) of
           None \<Rightarrow> None
         | Some c \<Rightarrow>
             (if c = CHR ''<'' then
                (case xml_start_document h st s of
                   (Some r, st, s) \<Rightarrow> Some (r, st, s)
                 | (None, st1, s1) \<Rightarrow>
                     (case xml_inner_rd h d n st1 s1 of
                        None \<Rightarrow> None
                      | Some (Some r, st, s) \<Rightarrow> Some (r, st, s)
                      | Some (None, st2, s2) \<Rightarrow>
                          (case xml_markup_rd h d st2 s2 of
                             None \<Rightarrow> None
                           | Some (Some r, st, s) \<Rightarrow> Some (r, st, s)
                           | Some (None, st3, s3) \<Rightarrow> xml_loop_rd h d (if xinner st3 \<noteq> None then 0 else n) st3 s3)))
              else
                (case xml_text_rd d n st s of
                   None \<Rightarrow> None
                 | Some (n, Some r, st, s) \<Rightarrow> Some (r, st, s)
                 | Some (n', None, st1, s1) \<Rightarrow> xml_loop_rd h d n' st1 s1))))"

lemma xml_text_reads: "xcur st < length d \<Longrightarrow> xml_text_rd d n st s = Some (xml_text d n st s)"
  by (simp add: xml_text_rd_def xml_text_def Let_def)

text \<open>
  C9: The guards of the parser are enough: on any packet that does not end with a bracket, from any state and
  whatever the user answers, the code that checks each read of a byte of the packet never reads outside of it, and
  does what the code does.
\<close>

theorem xml_reads_inside:
  assumes "\<not> bracket_end d"
  shows "xml_loop_rd h d n st s = Some (xml_loop h d n st s)"
proof (induction "length d - xcur st" arbitrary: n st s rule: less_induct)
  case less
  show ?case
  proof (cases "xcur st < length d")
    case False
    then show ?thesis by (simp add: xml_loop_rd.simps xml_loop.simps)
  next
    case i: True
    note unfold = xml_loop_rd.simps [of h d n st s] xml_loop.simps [of h d n st s]
    show ?thesis
    proof (cases "d ! xcur st = CHR ''<''")
      case False
      obtain m r st1 s1 where t: "xml_text d n st s = (m, r, st1, s1)" by (metis prod_cases3 surj_pair)
      have "xcur st < xcur st1" if "r = None"
        using t that by (auto simp: xml_text_def xml_stop_def Let_def split: option.splits if_splits)
      then have "xml_loop_rd h d m st1 s1 = Some (xml_loop h d m st1 s1)" if "r = None" using less i that by simp
      then show ?thesis using i False t by (cases r) (simp_all add: unfold xml_text_reads)
    next
      case lt: True
      obtain r1 st1 s1 where 1: "xml_start_document h st s = (r1, st1, s1)" by (metis prod_cases3)
      obtain r2 st2 s2 where 2: "xml_inner h d n st1 s1 = (r2, st2, s2)" by (metis prod_cases3)
      obtain r3 st3 s3 where 3: "xml_markup h d st2 s2 = (r3, st3, s3)" by (metis prod_cases3)
      show ?thesis
      proof (cases "r1 = None \<and> r2 = None")
        case False
        then show ?thesis using i lt 1 2 by (cases r1; cases r2) (simp_all add: unfold xml_inner_reads)
      next
        case True
        then have cur: "xcur st2 = xcur st" using xml_start_document_cur xml_inner_cur 1 2 by metis
        then have m: "xml_markup_rd h d st2 s2 = Some (r3, st3, s3)" using xml_markup_reads [OF _ assms] i 3 by metis
        have "xml_loop_rd h d k st3 s3 = Some (xml_loop h d k st3 s3)" if "r3 = None" for k
          using less xml_markup_cur [of h d st2 s2 st3 s3] 3 that cur i by simp
        then show ?thesis using i lt 1 2 3 m True by (cases r3) (simp_all add: unfold xml_inner_reads)
      qed
    qed
  qed
qed

theorem xml_reads_inside_witness:
  "xml_loop_rd quiet ''<a x='1'>]</a'' 0 XMLParser () = Some (xml_loop quiet ''<a x='1'>]</a'' 0 XMLParser ())"
proof -
  have "\<not> bracket_end ''<a x='1'>]</a''" by (simp add: bracket_end_def)
  from xml_reads_inside [OF this] show ?thesis .
qed

text \<open>A packet that ends inside the terminator of a CDATA is read outside.\<close>

lemma cdata_reads_outside: "cdata_loop_rd ''x]'' 0 [] = None" "cdata_loop_rd ''x]]'' 0 [] = None"
  by code_simp+

end
