(* ===== verification/Timers.thy ===== *)
theory Timers
  imports Std_Map
begin

text \<open>
  Mona/Timing/Timer.cpp: timers are numbers (their addresses in the code), kept by instant of raising in
  a map of sorted sets; \<open>tnext\<close> is the \<open>_nextRaising\<close> of each, 0 when it is not set. The clock is a
  parameter: \<open>now n\<close> is what the \<open>n\<close>-th call of \<open>Time::Now\<close> gives. A timer's function is a parameter too:
  it may set timers, answers its next timeout and changes its own state. \<open>FATAL_ERROR\<close> is None.
  The lemmas show that \<open>set\<close> is the update of one entry of a schedule, and that \<open>raise\<close> returns, with
  every timer that is due called once.
\<close>

section \<open>The machine\<close>

record timer =
  tslots :: "(int \<times> nat list) list"
  tnext :: "nat \<Rightarrow> int"
  tcalls :: "nat \<Rightarrow> u32"
  tcount :: u32
  tick :: nat

definition Timer :: timer where
  "Timer = \<lparr>tslots = [], tnext = (\<lambda>_. 0), tcalls = (\<lambda>_. 0), tcount = 0, tick = 0\<rparr>"

text \<open>The instant of a timeout, the set of the instant with one more timer.\<close>

definition slot_insert :: "int \<Rightarrow> nat \<Rightarrow> (int \<times> nat list) list \<Rightarrow> (int \<times> nat list) list" where
  "slot_insert t i slots =
     mput (<) t (insort_insert i (case mfind (<) t slots of None \<Rightarrow> [] | Some ids \<Rightarrow> ids)) slots"

definition timer_add :: "(nat \<Rightarrow> int) \<Rightarrow> nat \<Rightarrow> u32 \<Rightarrow> timer \<Rightarrow> timer" where
  "timer_add now i timeout tm =
     (if timeout = 0 then tm
      else
        (let t = now (tick tm) + uint timeout
         in tm\<lparr>tcount := tcount tm + 1, tick := tick tm + 1, tnext := (tnext tm)(i := t),
               tslots := slot_insert t i (tslots tm)\<rparr>))"

text \<open>\<open>remove\<close>: whether the timer was set; None is \<open>FATAL_ERROR\<close>.\<close>

definition timer_remove :: "nat \<Rightarrow> timer \<Rightarrow> (bool \<times> timer) option" where
  "timer_remove i tm =
     (if tnext tm i = 0 then Some (False, tm)
      else
        (case mfind (<) (tnext tm i) (tslots tm) of
           None \<Rightarrow> None
         | Some ids \<Rightarrow>
             (let tm1 = tm\<lparr>tnext := (tnext tm)(i := 0), tcount := tcount tm - 1\<rparr>
              in if length ids = 1 then
                   (if hd ids = i then Some (True, tm1\<lparr>tslots := merase (<) (tnext tm i) (tslots tm)\<rparr>) else None)
                 else if i \<in> set ids then
                   Some (True, tm1\<lparr>tslots := mput (<) (tnext tm i) (remove1 i ids) (tslots tm)\<rparr>)
                 else None)))"

definition timer_set :: "(nat \<Rightarrow> int) \<Rightarrow> nat \<Rightarrow> u32 \<Rightarrow> timer \<Rightarrow> timer option" where
  "timer_set now i timeout tm =
     (case timer_remove i tm of
        None \<Rightarrow> None
      | Some (False, tm1) \<Rightarrow> Some (timer_add now i timeout tm1)
      | Some (True, tm1) \<Rightarrow>
          (if timeout \<noteq> 0 then
             (let t = now (tick tm1) + uint timeout
              in Some (tm1\<lparr>tcount := tcount tm1 + 1, tick := tick tm1 + 1, tnext := (tnext tm1)(i := t),
                           tslots := slot_insert t i (tslots tm1)\<rparr>))
           else Some tm1))"


text \<open>A timer's function: the timers it sets, its next timeout, its state.\<close>

type_synonym 's on_timer = "nat \<Rightarrow> u32 \<Rightarrow> 's \<Rightarrow> (nat \<times> u32) list \<times> u32 \<times> 's"

fun timer_sets :: "(nat \<Rightarrow> int) \<Rightarrow> (nat \<times> u32) list \<Rightarrow> timer \<Rightarrow> timer option" where
  "timer_sets now [] tm = Some tm"
| "timer_sets now ((i, timeout) # cmds) tm = Option.bind (timer_set now i timeout tm) (timer_sets now cmds)"

text \<open>The timers of one instant, in the order of their set.\<close>

fun timer_batch ::
  "(nat \<Rightarrow> int) \<Rightarrow> 's on_timer \<Rightarrow> u32 \<Rightarrow> nat list \<Rightarrow> timer \<Rightarrow> 's \<Rightarrow> (timer \<times> 's) option" where
  "timer_batch now onTimer delay [] tm s = Some (tm, s)"
| "timer_batch now onTimer delay (i # ids) tm s =
     (let tm1 = tm\<lparr>tnext := (tnext tm)(i := 0), tcalls := (tcalls tm)(i := tcalls tm i + 1)\<rparr>
      in case onTimer i delay s of
           (cmds, timeout, s1) \<Rightarrow>
             (case timer_sets now cmds tm1 of
                None \<Rightarrow> None
              | Some tm2 \<Rightarrow>
                  (let tm3 = tm2\<lparr>tcount := tcount tm2 - 1\<rparr>
                   in timer_batch now onTimer delay ids
                        (if timeout \<noteq> 0 then timer_add now i timeout tm3 else tm3) s1)))"

text \<open>\<open>raise\<close>: the time to wait, and None inside for \<open>FATAL_ERROR\<close>; None outside when it never returns.\<close>

partial_function (option) timer_raise ::
  "(nat \<Rightarrow> int) \<Rightarrow> 's on_timer \<Rightarrow> timer \<Rightarrow> 's \<Rightarrow> (u32 \<times> timer \<times> 's) option option" where
  "timer_raise now onTimer tm s =
     (case tslots tm of
        [] \<Rightarrow> Some (Some (0, tm, s))
      | (t, ids) # rest \<Rightarrow>
          (let waiting = t - now (tick tm); tm1 = tm\<lparr>tick := tick tm + 1\<rparr>
           in if waiting > 0 then Some (Some (word_of_int waiting, tm1, s))
              else
                (case timer_batch now onTimer (word_of_int (- waiting)) ids (tm1\<lparr>tslots := rest\<rparr>) s of
                   None \<Rightarrow> Some None
                 | Some (tm2, s2) \<Rightarrow> timer_raise now onTimer tm2 s2)))"

section \<open>Schedules\<close>

text \<open>A schedule gives each timer its instant, 0 for none; \<open>slots\<close> shows it by instant.\<close>

definition slot_of :: "(nat \<Rightarrow> int) \<Rightarrow> int \<Rightarrow> nat list option" where
  "slot_of f t = (if t = 0 \<or> {i. f i = t} = {} then None else Some (sorted_list_of_set {i. f i = t}))"

definition sched :: "(int \<times> nat list) list \<Rightarrow> (nat \<Rightarrow> int) \<Rightarrow> bool" where
  "sched slots f \<longleftrightarrow> msorted (<) slots \<and> finite {i. f i \<noteq> 0} \<and> (\<forall>t. mfind (<) t slots = slot_of f t)"

definition timer_ok :: "timer \<Rightarrow> bool" where
  "timer_ok tm \<longleftrightarrow> sched (tslots tm) (tnext tm) \<and> tcount tm = of_nat (card {i. tnext tm i \<noteq> 0})"

interpretation instants: strict_weak_order "(<) :: int \<Rightarrow> int \<Rightarrow> bool"
  by unfold_locales auto

lemma eqv_int [simp]: "eqv (<) a b \<longleftrightarrow> a = (b :: int)"
  by (auto simp: eqv_def)

lemma sched_finite: "sched slots f \<Longrightarrow> t \<noteq> 0 \<Longrightarrow> finite {i. f i = t}"
  unfolding sched_def by (metis (mono_tags, lifting) Collect_mono rev_finite_subset)

lemma sched_insert:
  assumes s: "sched slots f" and i: "f i = 0" and t: "t \<noteq> 0"
  shows "sched (slot_insert t i slots) (f(i := t))"
proof -
  let ?I = "{j. f j = t}"
  have fin: "finite ?I" using sched_finite [OF s t] .
  have ids: "(case mfind (<) t slots of None \<Rightarrow> [] | Some ids \<Rightarrow> ids) = sorted_list_of_set ?I"
    using s t by (auto simp: sched_def slot_of_def)
  have new: "{j. (f(i := t)) j = t} = insert i ?I" by auto
  have ins: "insort_insert i (sorted_list_of_set ?I) = sorted_list_of_set (insert i ?I)"
    using fin i t by (simp add: insort_insert_key_def)
  have old: "t' \<noteq> 0 \<Longrightarrow> t' \<noteq> t \<Longrightarrow> {j. (f(i := t)) j = t'} = {j. f j = t'}" for t' using i by auto
  have slot: "slot_of (f(i := t)) t' =
      (if t' = t then Some (sorted_list_of_set (insert i ?I)) else slot_of f t')" for t'
  proof (cases "t' = t \<or> t' = 0")
    case True
    then show ?thesis unfolding slot_of_def using t new by auto
  next
    case False
    then show ?thesis unfolding slot_of_def using old [of t'] by presburger
  qed
  have "{j. (f(i := t)) j \<noteq> 0} = insert i {j. f j \<noteq> 0}" using t by auto
  then show ?thesis
    using s ids ins
    by (simp add: sched_def slot_insert_def slot instants.msorted_mput instants.mfind_mput)
qed

lemma sched_remove:
  assumes s: "sched slots f" and i: "f i \<noteq> 0"
  obtains ids where "mfind (<) (f i) slots = Some ids" "i \<in> set ids" "length ids = 1 \<Longrightarrow> hd ids = i"
    "sched (if length ids = 1 then merase (<) (f i) slots else mput (<) (f i) (remove1 i ids) slots) (f(i := 0))"
proof -
  let ?t = "f i" and ?I = "{j. f j = f i}"
  let ?ids = "sorted_list_of_set ?I"
  have fin: "finite ?I" using sched_finite [OF s i] .
  have m: "mfind (<) ?t slots = Some ?ids" using s i by (auto simp: sched_def slot_of_def)
  have mem: "i \<in> set ?ids" using fin by simp
  have one: "?I = {i}" if l: "length ?ids = 1"
  proof -
    obtain x where x: "?I = {x}" using l fin by (auto simp: card_1_singleton_iff)
    have "i \<in> ?I" by simp
    then have "x = i" unfolding x by simp
    then show ?thesis using x by simp
  qed
  have f0: "{j. (f(i := 0)) j \<noteq> 0} = {j. f j \<noteq> 0} - {i}" by auto
  have old: "t \<noteq> 0 \<Longrightarrow> t \<noteq> ?t \<Longrightarrow> {j. (f(i := 0)) j = t} = {j. f j = t}" for t by auto
  have new: "{j. (f(i := 0)) j = ?t} = ?I - {i}" using i by auto
  have rest: "length ?ids \<noteq> 1 \<Longrightarrow> ?I - {i} \<noteq> {}"
  proof
    assume "length ?ids \<noteq> 1" "?I - {i} = {}"
    moreover from this(2) have "?I = {i}" by auto
    ultimately show False by simp
  qed
  have r1: "remove1 i ?ids = sorted_list_of_set (?I - {i})" using fin by (simp add: sorted_list_of_set_remove)
  have slot: "slot_of (f(i := 0)) t =
      (if t = ?t then (if length ?ids = 1 then None else Some (remove1 i ?ids)) else slot_of f t)" for t
  proof (cases "t = ?t \<or> t = 0")
    case True
    then show ?thesis unfolding slot_of_def using i new one rest r1 by (auto simp del: sorted_list_of_set.length_sorted_key_list_of_set)
  next
    case False
    then show ?thesis unfolding slot_of_def using old [of t] by presburger
  qed
  have "finite {j. (f(i := 0)) j \<noteq> 0}" unfolding f0 using s by (simp add: sched_def)
  then have "sched (if length ?ids = 1 then merase (<) ?t slots else mput (<) ?t (remove1 i ?ids) slots) (f(i := 0))"
    using s unfolding sched_def
    by (simp add: slot instants.msorted_merase instants.mfind_merase instants.msorted_mput instants.mfind_mput)
  moreover have "length ?ids = 1 \<Longrightarrow> hd ?ids = i" using one by auto
  ultimately show thesis using that m mem by blast
qed

section \<open>Setting timers\<close>

lemma card_upd:
  fixes f :: "nat \<Rightarrow> int"
  assumes "finite {i. f i \<noteq> 0}"
  shows "f i \<noteq> 0 \<Longrightarrow> (of_nat (card {j. (f(i := 0)) j \<noteq> 0}) :: u32) = of_nat (card {j. f j \<noteq> 0}) - 1"
    "f i = 0 \<Longrightarrow> t \<noteq> 0 \<Longrightarrow> (of_nat (card {j. (f(i := t)) j \<noteq> 0}) :: u32) = of_nat (card {j. f j \<noteq> 0}) + 1"
proof -
  have "{j. (f(i := 0)) j \<noteq> 0} = {j. f j \<noteq> 0} - {i}" by auto
  moreover assume "f i \<noteq> 0"
  moreover from this have "0 < card {j. f j \<noteq> 0}" using assms by (auto simp: card_gt_0_iff)
  ultimately show "(of_nat (card {j. (f(i := 0)) j \<noteq> 0}) :: u32) = of_nat (card {j. f j \<noteq> 0}) - 1"
    using assms by (simp add: card_Diff_singleton of_nat_diff)
next
  assume "f i = 0" "t \<noteq> 0"
  then have "{j. (f(i := t)) j \<noteq> 0} = insert i {j. f j \<noteq> 0}" by auto
  then show "(of_nat (card {j. (f(i := t)) j \<noteq> 0}) :: u32) = of_nat (card {j. f j \<noteq> 0}) + 1"
    using assms \<open>f i = 0\<close> by simp
qed

text \<open>\<open>timer_shows tm f n\<close>: the slots are the schedule \<open>f\<close>, and \<open>n\<close> timers more are counted (they are being raised).\<close>

definition timer_shows :: "timer \<Rightarrow> (nat \<Rightarrow> int) \<Rightarrow> nat \<Rightarrow> bool" where
  "timer_shows tm f n \<longleftrightarrow> sched (tslots tm) f \<and> tcount tm = of_nat (card {i. f i \<noteq> 0}) + of_nat n"

lemma timer_ok_shows: "timer_ok tm \<longleftrightarrow> timer_shows tm (tnext tm) 0"
  by (simp add: timer_ok_def timer_shows_def)

lemma timer_add_shows:
  assumes "timer_shows tm f n" "f i = 0" "0 < now (tick tm)"
  shows "timer_shows (timer_add now i timeout tm)
    (if timeout = 0 then f else f(i := now (tick tm) + uint timeout)) n"
proof -
  have "now (tick tm) + uint timeout \<noteq> 0" using assms(3) uint_ge_0 [of timeout] by linarith
  then show ?thesis
    using assms sched_insert [of "tslots tm" f i "now (tick tm) + uint timeout"] card_upd(2) [of f i "now (tick tm) + uint timeout"]
    by (auto simp: timer_add_def timer_shows_def Let_def sched_def)
qed

lemma timer_remove_shows:
  assumes "timer_shows tm f n" "f i = tnext tm i"
  shows "\<exists>tm'. timer_remove i tm = Some (tnext tm i \<noteq> 0, tm') \<and> timer_shows tm' (f(i := 0)) n \<and>
    tnext tm' = (tnext tm)(i := 0) \<and> tick tm' = tick tm \<and> tcalls tm' = tcalls tm"
proof (cases "f i = 0")
  case True
  then show ?thesis using assms by (simp add: timer_remove_def fun_upd_idem)
next
  case False
  have s: "sched (tslots tm) f" using assms(1) by (simp add: timer_shows_def)
  obtain ids where "mfind (<) (f i) (tslots tm) = Some ids" "i \<in> set ids" "length ids = 1 \<Longrightarrow> hd ids = i"
    "sched (if length ids = 1 then merase (<) (f i) (tslots tm) else mput (<) (f i) (remove1 i ids) (tslots tm)) (f(i := 0))"
    using sched_remove [of "tslots tm" f i] s False by metis
  then show ?thesis
    using assms False card_upd(1) [of f i] s
    by (auto simp: timer_remove_def timer_shows_def sched_def Let_def)
qed

lemma timer_set_spec:
  assumes ok: "timer_ok tm" and now: "0 < now (tick tm)"
  shows "\<exists>tm'. timer_set now i timeout tm = Some tm' \<and> timer_ok tm' \<and> tcalls tm' = tcalls tm \<and>
    tnext tm' = (tnext tm)(i := if timeout = 0 then 0 else now (tick tm) + uint timeout)"
proof -
  obtain tm1 where r: "timer_remove i tm = Some (tnext tm i \<noteq> 0, tm1)" "timer_shows tm1 ((tnext tm)(i := 0)) 0"
    "tnext tm1 = (tnext tm)(i := 0)" "tick tm1 = tick tm" "tcalls tm1 = tcalls tm"
    using timer_remove_shows [of tm "tnext tm" 0 i] ok by (auto simp: timer_ok_shows)
  have a: "timer_shows (timer_add now i timeout tm1)
      (if timeout = 0 then (tnext tm)(i := 0) else (tnext tm)(i := now (tick tm) + uint timeout)) 0"
    using timer_add_shows [OF r(2), of i now timeout] now r(4) by (simp split: if_splits)
  have "timer_set now i timeout tm = Some (timer_add now i timeout tm1)"
    using r(1) by (cases "tnext tm i = 0") (auto simp: timer_set_def timer_add_def Let_def)
  then show ?thesis
    using a r by (auto simp: timer_ok_shows timer_add_def Let_def split: if_splits)
qed

section \<open>Raising timers\<close>

lemma sched_in: "sched slots f \<Longrightarrow> f i \<noteq> 0 \<Longrightarrow> \<exists>ids. (f i, ids) \<in> set slots"
proof -
  assume s: "sched slots f" and i: "f i \<noteq> 0"
  then have "mfind (<) (f i) slots = Some (sorted_list_of_set {j. f j = f i})" by (auto simp: sched_def slot_of_def)
  then show ?thesis using instants.mfind_iff [of slots "f i"] s by (auto simp: sched_def)
qed

lemma sched_first:
  assumes s: "sched ((t, ids) # rest) f"
  shows "t \<noteq> 0" "set ids = {i. f i = t}" "distinct ids" "ids \<noteq> []" "\<And>i. f i \<noteq> 0 \<Longrightarrow> t \<le> f i"
    "sched rest (\<lambda>i. if f i = t then 0 else f i)"
proof -
  have m: "mfind (<) u ((t, ids) # rest) = slot_of f u" for u using s by (simp add: sched_def)
  have t: "t \<noteq> 0 \<and> {i. f i = t} \<noteq> {} \<and> ids = sorted_list_of_set {i. f i = t}"
    using m [of t] by (auto simp: slot_of_def split: if_splits)
  then show "t \<noteq> 0" by simp
  have fin: "finite {i. f i = t}" using sched_finite [OF s] t by blast
  then show "set ids = {i. f i = t}" "distinct ids" "ids \<noteq> []" using t by auto
  have sorted: "\<forall>(u, v) \<in> set rest. t < u" "msorted (<) rest" using s by (auto simp: sched_def)
  show "t \<le> f i" if "f i \<noteq> 0" for i using sched_in [OF s that] sorted by auto
  let ?g = "\<lambda>i. if f i = t then 0 else f i"
  have "mfind (<) u rest = slot_of ?g u" for u
  proof -
    have low: "mfind (<) u rest = None" if "u \<le> t"
      using that sorted by (subst instants.mfind_None) auto
    consider "u = 0" | "u \<noteq> 0" "u \<le> t" | "u \<noteq> 0" "t < u" by linarith
    then show ?thesis
    proof cases
      case 1
      have "mfind (<) 0 rest = None" if "t < 0" using m [of 0] that by (simp add: slot_of_def)
      then show ?thesis using 1 low by (cases "u \<le> t") (auto simp: slot_of_def)
    next
      case 2
      have "f i = u \<Longrightarrow> u = t" for i using sched_in [OF s, of i] sorted 2 by force
      then have "{i. ?g i = u} = {}" using 2 by auto
      then show ?thesis using low [OF 2(2)] unfolding slot_of_def by presburger
    next
      case 3
      then have "{i. ?g i = u} = {i. f i = u}" by auto
      then show ?thesis using m [of u] 3 unfolding slot_of_def by auto
    qed
  qed
  moreover have "finite {i. ?g i \<noteq> 0}" using s by (auto simp: sched_def intro: rev_finite_subset)
  ultimately show "sched rest ?g" using sorted by (simp add: sched_def)
qed

text \<open>A timer's function that sets no timer itself; the clock stands still at \<open>c\<close>.\<close>

definition no_sets :: "'s on_timer \<Rightarrow> bool" where
  "no_sets onTimer \<longleftrightarrow> (\<forall>i delay s. fst (onTimer i delay s) = [])"

definition due :: "int \<Rightarrow> timer \<Rightarrow> nat \<Rightarrow> bool" where
  "due c tm i \<longleftrightarrow> tnext tm i \<noteq> 0 \<and> tnext tm i \<le> c"

lemma timer_batch_spec:
  assumes q: "no_sets onTimer" and c: "0 < c"
  shows "distinct ids \<Longrightarrow> timer_shows tm f (length ids) \<Longrightarrow> \<forall>i\<in>set ids. f i = 0 \<Longrightarrow>
    \<forall>i. i \<notin> set ids \<longrightarrow> tnext tm i = f i \<Longrightarrow>
    \<exists>tm' s'. timer_batch (\<lambda>_. c) onTimer delay ids tm s = Some (tm', s') \<and> timer_ok tm' \<and>
      (\<forall>i. if i \<in> set ids then tcalls tm' i = tcalls tm i + 1 \<and> (tnext tm' i = 0 \<or> c < tnext tm' i)
           else tcalls tm' i = tcalls tm i \<and> tnext tm' i = tnext tm i)"
proof (induction ids arbitrary: tm f s)
  case Nil
  then have f: "f = tnext tm" by auto
  show ?case
  proof (intro exI conjI)
    show "timer_batch (\<lambda>_. c) onTimer delay [] tm s = Some (tm, s)" by simp
    show "timer_ok tm" using Nil(2) f by (simp add: timer_ok_shows)
  qed simp
next
  case (Cons i ids)
  obtain timeout s1 where o1: "onTimer i delay s = ([], timeout, s1)"
    using q unfolding no_sets_def by (metis prod_cases3 fst_conv)
  define tm3 where "tm3 = tm\<lparr>tnext := (tnext tm)(i := 0), tcalls := (tcalls tm)(i := tcalls tm i + 1),
      tcount := tcount tm - 1\<rparr>"
  define tm4 where "tm4 = (if timeout \<noteq> 0 then timer_add (\<lambda>_. c) i timeout tm3 else tm3)"
  define g where "g = (if timeout = 0 then f else f(i := c + uint timeout))"
  have i: "f i = 0" "i \<notin> set ids" using Cons.prems by auto
  have 3: "timer_shows tm3 f (length ids)" using Cons.prems(2) by (simp add: timer_shows_def tm3_def)
  have 4: "timer_shows tm4 g (length ids)"
    using timer_add_shows [OF 3 i(1), of "\<lambda>_. c" timeout] c 3 by (auto simp: tm4_def g_def)
  have t: "timeout \<noteq> 0 \<Longrightarrow> 0 < uint timeout"
    by (metis uint_ge_0 uint_0_iff order_le_less)
  have n4: "tnext tm4 = (tnext tm)(i := g i)" and c4: "tcalls tm4 = (tcalls tm)(i := tcalls tm i + 1)"
    using i by (auto simp: tm4_def tm3_def timer_add_def Let_def g_def)
  have gi: "g i = 0 \<or> c < g i" using t i by (auto simp: g_def)
  have "\<forall>j\<in>set ids. g j = 0" "\<forall>j. j \<notin> set ids \<longrightarrow> tnext tm4 j = g j"
    using Cons.prems(3,4) i n4 by (auto simp: g_def)
  from Cons.IH [OF _ 4 this, of s1] Cons.prems(1)
  obtain tm' s' where IH: "timer_batch (\<lambda>_. c) onTimer delay ids tm4 s1 = Some (tm', s')" "timer_ok tm'"
      "\<forall>j. if j \<in> set ids then tcalls tm' j = tcalls tm4 j + 1 \<and> (tnext tm' j = 0 \<or> c < tnext tm' j)
           else tcalls tm' j = tcalls tm4 j \<and> tnext tm' j = tnext tm4 j"
    by auto
  have "timer_batch (\<lambda>_. c) onTimer delay (i # ids) tm s = Some (tm', s')"
    using IH(1) o1 unfolding tm4_def tm3_def by (cases "timeout = 0") (simp_all add: Let_def)
  moreover have "if j \<in> set (i # ids) then tcalls tm' j = tcalls tm j + 1 \<and> (tnext tm' j = 0 \<or> c < tnext tm' j)
           else tcalls tm' j = tcalls tm j \<and> tnext tm' j = tnext tm j" for j
    using IH(3) [rule_format, of j] n4 c4 gi i by (cases "j = i") (auto split: if_splits)
  ultimately show ?case using IH(2) by blast
qed

lemma timer_pop_shows:
  assumes "timer_ok tm" "tslots tm = (t, ids) # rest"
  shows "timer_shows (tm\<lparr>tick := k, tslots := rest\<rparr>) (\<lambda>i. if tnext tm i = t then 0 else tnext tm i) (length ids)"
proof -
  let ?f = "tnext tm" and ?g = "\<lambda>i. if tnext tm i = t then 0 else tnext tm i"
  have s: "sched ((t, ids) # rest) ?f" using assms by (simp add: timer_ok_def)
  note first = sched_first [OF s]
  have fin: "finite {i. ?f i \<noteq> 0}" using s by (simp add: sched_def)
  have "{i. ?f i \<noteq> 0} = {i. ?g i \<noteq> 0} \<union> set ids" "{i. ?g i \<noteq> 0} \<inter> set ids = {}" using first(1,2) by auto
  then have "card {i. ?f i \<noteq> 0} = card {i. ?g i \<noteq> 0} + length ids"
    using fin first(3) card_Un_disjoint [of "{i. ?g i \<noteq> 0}" "set ids"] by (simp add: distinct_card)
  then show ?thesis using assms(1) first(6) by (simp add: timer_shows_def timer_ok_def)
qed

lemma timer_raise_spec:
  assumes q: "no_sets onTimer" and c: "0 < c"
  shows "timer_ok tm \<Longrightarrow>
    \<exists>w tm' s'. timer_raise (\<lambda>_. c) onTimer tm s = Some (Some (w, tm', s')) \<and> timer_ok tm' \<and>
      (\<forall>i. tcalls tm' i = tcalls tm i + (if due c tm i then 1 else 0)) \<and>
      (\<forall>i. \<not> due c tm i \<longrightarrow> tnext tm' i = tnext tm i) \<and> (\<forall>i. \<not> due c tm' i) \<and>
      (if \<forall>i. tnext tm' i = 0 then w = 0
       else \<exists>i. tnext tm' i \<noteq> 0 \<and> (\<forall>j. tnext tm' j \<noteq> 0 \<longrightarrow> tnext tm' i \<le> tnext tm' j) \<and> w = word_of_int (tnext tm' i - c))"
proof (induction "card {i. due c tm i}" arbitrary: tm s rule: less_induct)
  case less
  have ok: "sched (tslots tm) (tnext tm)" using less(2) by (simp add: timer_ok_def)
  show ?case
  proof (cases "tslots tm")
    case Nil
    have no: "tnext tm i = 0" for i using sched_in [OF ok, of i] Nil by auto
    have "timer_raise (\<lambda>_. c) onTimer tm s = Some (Some (0, tm, s))"
      using Nil by (subst timer_raise.simps) simp
    then show ?thesis using less(2) no by (auto simp: due_def)
  next
    case (Cons slot rest)
    obtain t ids where slot: "slot = (t, ids)" by (cases slot)
    note first = sched_first [OF ok [unfolded Cons slot]]
    show ?thesis
    proof (cases "t - c > 0")
      case True
      let ?tm = "tm\<lparr>tick := tick tm + 1\<rparr>"
      have r: "timer_raise (\<lambda>_. c) onTimer tm s = Some (Some (word_of_int (t - c), ?tm, s))"
        using Cons slot True by (subst timer_raise.simps) (simp add: Let_def)
      have nodue: "\<not> due c tm i" for i using first(5) [of i] True by (auto simp: due_def)
      obtain i where i: "tnext tm i = t" using first(2,4) by (cases ids) auto
      have "timer_ok ?tm" using less(2) by (simp add: timer_ok_def)
      moreover have "\<not> (\<forall>i. tnext tm i = 0)" using i first(1) by auto
      ultimately show ?thesis
        using r nodue i first(1,5) by (auto simp: due_def intro!: exI [of _ i])
    next
      case False
      let ?tm = "tm\<lparr>tick := tick tm + 1, tslots := rest\<rparr>"
      let ?f = "\<lambda>i. if tnext tm i = t then 0 else tnext tm i"
      have sh: "timer_shows ?tm ?f (length ids)" using timer_pop_shows [OF less(2)] Cons slot by simp
      have "\<forall>i\<in>set ids. ?f i = 0" "\<forall>i. i \<notin> set ids \<longrightarrow> tnext ?tm i = ?f i" using first(2) by auto
      from timer_batch_spec [OF q c first(3) sh this, of "word_of_int (- (t - c))" s]
      obtain tm2 s2 where b: "timer_batch (\<lambda>_. c) onTimer (word_of_int (- (t - c))) ids ?tm s = Some (tm2, s2)"
          and ok2: "timer_ok tm2"
          and e: "\<forall>i. if i \<in> set ids then tcalls tm2 i = tcalls tm i + 1 \<and> (tnext tm2 i = 0 \<or> c < tnext tm2 i)
             else tcalls tm2 i = tcalls tm i \<and> tnext tm2 i = tnext tm i"
        by auto
      have ids_due: "i \<in> set ids \<Longrightarrow> due c tm i" for i using first(1,2) False by (auto simp: due_def)
      have due2: "due c tm2 i \<longleftrightarrow> due c tm i \<and> i \<notin> set ids" for i
        using e [rule_format, of i] by (auto simp: due_def split: if_splits)
      have "finite {i. due c tm i}" using ok by (auto simp: due_def sched_def intro: rev_finite_subset)
      moreover have "{i. due c tm2 i} \<subset> {i. due c tm i}"
        using due2 ids_due first(4) by (cases ids) auto
      ultimately have "card {i. due c tm2 i} < card {i. due c tm i}" by (rule psubset_card_mono)
      from less(1) [OF this ok2, of s2] obtain w tm' s' where
          r: "timer_raise (\<lambda>_. c) onTimer tm2 s2 = Some (Some (w, tm', s'))" "timer_ok tm'"
          "\<forall>i. tcalls tm' i = tcalls tm2 i + (if due c tm2 i then 1 else 0)"
          "\<forall>i. \<not> due c tm2 i \<longrightarrow> tnext tm' i = tnext tm2 i" "\<forall>i. \<not> due c tm' i"
          "if \<forall>i. tnext tm' i = 0 then w = 0
           else \<exists>i. tnext tm' i \<noteq> 0 \<and> (\<forall>j. tnext tm' j \<noteq> 0 \<longrightarrow> tnext tm' i \<le> tnext tm' j) \<and> w = word_of_int (tnext tm' i - c)"
        by blast
      have "timer_raise (\<lambda>_. c) onTimer tm s = Some (Some (w, tm', s'))"
        using Cons slot False b r(1) by (subst timer_raise.simps) (simp add: Let_def)
      moreover have "tcalls tm' i = tcalls tm i + (if due c tm i then 1 else 0)" for i
        using r(3) [rule_format, of i] e [rule_format, of i] due2 [of i] ids_due [of i] by (auto split: if_splits)
      moreover have "\<not> due c tm i \<longrightarrow> tnext tm' i = tnext tm i" for i
        using r(4) [rule_format, of i] e [rule_format, of i] due2 [of i] ids_due [of i] by (auto split: if_splits)
      ultimately show ?thesis using r(2,5,6) by blast
    qed
  qed
qed

section \<open>Destruction\<close>



section \<open>Properties\<close>


lemma Timer_ok [simp]: "timer_ok Timer"
  by (auto simp: timer_ok_def Timer_def sched_def slot_of_def)


text \<open>
  C11: Raising returns, whatever the timers answer as their next timeout, as long as their functions set no
  timer and the clock stands still: every timer that was due is called exactly once, no other is called or
  moved, none is due afterwards, and the answer is the time to the earliest timer left, 0 when none is.
\<close>

theorem timer_raise_serves:
  assumes "no_sets onTimer" "0 < c" "timer_ok tm"
  shows "\<exists>w tm' s'. timer_raise (\<lambda>_. c) onTimer tm s = Some (Some (w, tm', s')) \<and> timer_ok tm' \<and>
    (\<forall>i. tcalls tm' i = tcalls tm i + (if due c tm i then 1 else 0)) \<and>
    (\<forall>i. \<not> due c tm i \<longrightarrow> tnext tm' i = tnext tm i) \<and> (\<forall>i. \<not> due c tm' i) \<and>
    (if \<forall>i. tnext tm' i = 0 then w = 0
     else \<exists>i. tnext tm' i \<noteq> 0 \<and> (\<forall>j. tnext tm' j \<noteq> 0 \<longrightarrow> tnext tm' i \<le> tnext tm' j) \<and>
       w = word_of_int (tnext tm' i - c))"
  using timer_raise_spec [OF assms] .

text \<open>Two timers set at 100 and 130, raised at 140: the first stops, the second goes on every 50 milliseconds.\<close>

definition metronome :: "unit on_timer" where
  "metronome i delay s = ([], if i = 2 then 50 else 0, s)"

definition two_timers :: timer where
  "two_timers = the (timer_sets (\<lambda>_. 90) [(1, 10), (2, 40)] Timer)"

lemma two_timers_ok: "timer_ok two_timers"
proof -
  obtain tm1 where 1: "timer_set (\<lambda>_. 90) 1 10 Timer = Some tm1" "timer_ok tm1"
    using timer_set_spec [of Timer "\<lambda>_. 90" 1 10] by auto
  obtain tm2 where 2: "timer_set (\<lambda>_. 90) 2 40 tm1 = Some tm2" "timer_ok tm2"
    using timer_set_spec [of tm1 "\<lambda>_. 90" 2 40] 1 by auto
  then show ?thesis using 1 by (simp add: two_timers_def)
qed

theorem timer_raise_serves_witness:
  "\<exists>w tm' s'. timer_raise (\<lambda>_. 140) metronome two_timers () = Some (Some (w, tm', s')) \<and> timer_ok tm' \<and>
    (\<forall>i. tcalls tm' i = tcalls two_timers i + (if due 140 two_timers i then 1 else 0)) \<and>
    (\<forall>i. \<not> due 140 two_timers i \<longrightarrow> tnext tm' i = tnext two_timers i) \<and> (\<forall>i. \<not> due 140 tm' i) \<and>
    (if \<forall>i. tnext tm' i = 0 then w = 0
     else \<exists>i. tnext tm' i \<noteq> 0 \<and> (\<forall>j. tnext tm' j \<noteq> 0 \<longrightarrow> tnext tm' i \<le> tnext tm' j) \<and>
       w = word_of_int (tnext tm' i - 140))"
  by (rule timer_raise_serves) (simp_all add: no_sets_def metronome_def two_timers_ok)

section \<open>What a timer's function must not do\<close>

declare timer_raise.simps [code]

text \<open>Two timers due at the same instant: the function of the first stops the second, which is already out of the
  map but not yet reset, and the program stops on \<open>FATAL_ERROR\<close>.\<close>

definition stops_the_other :: "unit on_timer" where
  "stops_the_other i delay s = (if i = 1 then ([(2, 0)], 0, s) else ([], 0, s))"

lemma batch_cannot_be_stopped:
  "case timer_raise (\<lambda>_. 140) stops_the_other (the (timer_sets (\<lambda>_. 90) [(1, 10), (2, 10)] Timer)) () of
     Some r \<Rightarrow> Option.is_none r | None \<Rightarrow> False"
  by code_simp

text \<open>A timer whose function sets the timer itself and answers a timeout too is left in two slots; counted twice.\<close>

definition sets_itself :: "unit on_timer" where
  "sets_itself i delay s = (if delay = 40 then ([(i, 10)], 20, s) else ([], 0, s))"

lemma self_set_is_doubled:
  "case timer_raise (\<lambda>_. 140) sets_itself (the (timer_sets (\<lambda>_. 90) [(1, 10)] Timer)) () of
     Some (Some (w, tm, s)) \<Rightarrow> tslots tm = [(150, [1]), (160, [1])] \<and> tcount tm = 2
   | _ \<Rightarrow> False"
  by code_simp

text \<open>After the second call the timer, which answered 0, is still in the map while it says it is not set.\<close>

lemma self_set_raised_again:
  "case timer_raise (\<lambda>n. if n < 4 then 140 else 155) sets_itself
      (the (timer_sets (\<lambda>_. 90) [(1, 10)] Timer)) () of
     Some (Some (w, tm, s)) \<Rightarrow> tslots tm = [(160, [1])] \<and> tnext tm 1 = 0
   | _ \<Rightarrow> False"
  by code_simp

end
