(* ===== verification/Params.thy ===== *)
theory Params
  imports Strings Text_Codecs Std_Map
begin

text \<open>
  Mona/Util/Parameters.h and Parameters.cpp: a map of texts, ordered without the case of the keys, that
  tells its changes. \<open>pmap\<close> is \<open>_pMap\<close> (None when the shared pointer is null) and \<open>plog\<close> what the
  subscribers of \<open>onChange\<close> and \<open>onClear\<close> were told, in order; they do not change the parameters while they
  are told. \<open>onUnfound\<close> is a parameter of the reads, \<open>onParamInit\<close> does nothing in this class. An iterator is
  a position in the order of the keys; an iteration that runs past the end is None. Sizes are below \<open>2^32\<close>.
  The lemmas show that a subscriber that replays the changes has the same map, and that a prefix selects
  the keys that start with it.
\<close>

section \<open>The map and its events\<close>

datatype param_event = Changed string "string option" | Cleared

record parameters =
  pmap :: "(string \<times> string) list option"
  plog :: "param_event list"

definition Parameters :: parameters where
  "Parameters = \<lparr>pmap = None, plog = []\<rparr>"

definition params :: "parameters \<Rightarrow> (string \<times> string) list" where
  "params p = (case pmap p of None \<Rightarrow> [] | Some m \<Rightarrow> m)"

definition onParamChange :: "string \<Rightarrow> string option \<Rightarrow> parameters \<Rightarrow> parameters" where
  "onParamChange key value p = p\<lparr>plog := plog p @ [Changed key value]\<rparr>"

definition onParamClear :: "parameters \<Rightarrow> parameters" where
  "onParamClear p = p\<lparr>plog := plog p @ [Cleared]\<rparr>"

text \<open>The key of the map that is equivalent to \<open>key\<close>: what \<open>it->first\<close> is.\<close>

definition stored_key :: "string \<Rightarrow> (string \<times> string) list \<Rightarrow> string" where
  "stored_key key m =
     (case List.find (\<lambda>(j, _). eqv IComparator key j) m of None \<Rightarrow> key | Some (j, _) \<Rightarrow> j)"

text \<open>\<open>emplace\<close>: whether the key is new. An equal value is no change.\<close>

definition Parameters_emplace :: "string \<Rightarrow> string \<Rightarrow> parameters \<Rightarrow> bool \<times> parameters" where
  "Parameters_emplace key value p =
     (let m = params p; p1 = p\<lparr>pmap := Some (mput IComparator key value m)\<rparr>
      in case mfind IComparator key m of
           None \<Rightarrow> (True, onParamChange key (Some value) p1)
         | Some old \<Rightarrow>
             (False, if value \<noteq> old then onParamChange (stored_key key m) (Some value) p1 else p\<lparr>pmap := Some m\<rparr>))"

definition setParameter :: "string \<Rightarrow> string \<Rightarrow> parameters \<Rightarrow> parameters" where
  "setParameter key value p = snd (Parameters_emplace key value p)"

definition setNumber :: "string \<Rightarrow> int \<Rightarrow> parameters \<Rightarrow> parameters" where
  "setNumber key value p = snd (Parameters_emplace key (int_string value) p)"

definition setBoolean :: "string \<Rightarrow> bool \<Rightarrow> parameters \<Rightarrow> parameters" where
  "setBoolean key value p = snd (Parameters_emplace key (if value then ''true'' else ''false'') p)"

section \<open>Reading\<close>

definition getParameter :: "(string \<Rightarrow> string option) \<Rightarrow> string \<Rightarrow> parameters \<Rightarrow> string option" where
  "getParameter onUnfound key p =
     (case mfind IComparator key (params p) of Some value \<Rightarrow> Some value | None \<Rightarrow> onUnfound key)"

definition hasKey :: "(string \<Rightarrow> string option) \<Rightarrow> string \<Rightarrow> parameters \<Rightarrow> bool" where
  "hasKey onUnfound key p \<longleftrightarrow> getParameter onUnfound key p \<noteq> None"

text \<open>\<open>getString\<close>: whether there is a value, and what \<open>value\<close> is then.\<close>

definition getString :: "(string \<Rightarrow> string option) \<Rightarrow> string \<Rightarrow> string \<Rightarrow> parameters \<Rightarrow> bool \<times> string" where
  "getString onUnfound key value p =
     (case getParameter onUnfound key p of None \<Rightarrow> (False, value) | Some v \<Rightarrow> (True, v))"

definition Parameters_get :: "(string \<Rightarrow> string option) \<Rightarrow> string \<Rightarrow> string \<Rightarrow> parameters \<Rightarrow> string" where
  "Parameters_get onUnfound key defaultValue p =
     (case getParameter onUnfound key p of None \<Rightarrow> defaultValue | Some v \<Rightarrow> v)"

definition getBoolean :: "(string \<Rightarrow> string option) \<Rightarrow> string \<Rightarrow> bool \<Rightarrow> parameters \<Rightarrow> bool \<times> bool" where
  "getBoolean onUnfound key value p =
     (case getParameter onUnfound key p of None \<Rightarrow> (False, value) | Some v \<Rightarrow> (True, \<not> IsFalse v))"

text \<open>Numbers of a type whose values are between \<open>lo\<close> and \<open>hi\<close>.\<close>

definition getNumber :: "(string \<Rightarrow> string option) \<Rightarrow> int \<Rightarrow> int \<Rightarrow> string \<Rightarrow> parameters \<Rightarrow> num_result" where
  "getNumber onUnfound lo hi key p =
     (case getParameter onUnfound key p of None \<Rightarrow> Not_A_Number | Some v \<Rightarrow> tryNumber 10 lo hi v)"

definition get_number ::
  "(string \<Rightarrow> string option) \<Rightarrow> int \<Rightarrow> int \<Rightarrow> string \<Rightarrow> int \<Rightarrow> parameters \<Rightarrow> int option" where
  "get_number onUnfound lo hi key defaultValue p =
     (case getNumber onUnfound lo hi key p of
        Number n _ \<Rightarrow> Some n | Not_A_Number \<Rightarrow> Some defaultValue | Undefined_Conversion \<Rightarrow> None)"

section \<open>Ranges\<close>

definition lower_bound :: "string \<Rightarrow> parameters \<Rightarrow> nat" where
  "lower_bound key p = length (takeWhile (\<lambda>(j, _). IComparator j key) (params p))"

text \<open>\<open>end.back() = prefix.back() + 1\<close>, on a \<open>char\<close>.\<close>

definition prefix_end :: "string \<Rightarrow> string" where
  "prefix_end prefix = butlast prefix @ [chr ((code (last prefix) + 1) mod 256)]"

definition range_of :: "string \<Rightarrow> parameters \<Rightarrow> nat \<times> nat" where
  "range_of prefix p =
     (if prefix = [] then (0, length (params p)) else (lower_bound prefix p, lower_bound (prefix_end prefix) p))"

definition range_from :: "string \<Rightarrow> parameters \<Rightarrow> nat \<times> nat" where
  "range_from prefix p = (lower_bound prefix p, length (params p))"

text \<open>What \<open>for (auto& it : range)\<close> visits.\<close>

definition range_items :: "nat \<times> nat \<Rightarrow> parameters \<Rightarrow> (string \<times> string) list option" where
  "range_items r p =
     (if fst r \<le> snd r \<and> snd r \<le> length (params p) then Some (drop (fst r) (take (snd r) (params p))) else None)"

section \<open>Erasing\<close>

definition clear_all :: "parameters \<Rightarrow> parameters" where
  "clear_all p = (if params p = [] then p else onParamClear (p\<lparr>pmap := None\<rparr>))"

definition Parameters_erase :: "string \<Rightarrow> parameters \<Rightarrow> bool \<times> parameters" where
  "Parameters_erase key p =
     (let m = params p
      in case mfind IComparator key m of
           None \<Rightarrow> (False, p)
         | Some _ \<Rightarrow>
             (let p1 = p\<lparr>pmap := Some (merase IComparator key m)\<rparr>
              in (True, if params p1 = [] then clear_all p1 else onParamChange (stored_key key m) None p1)))"

fun erase_loop :: "nat \<Rightarrow> nat \<Rightarrow> parameters \<Rightarrow> parameters" where
  "erase_loop first 0 p = p"
| "erase_loop first (Suc n) p =
     (let m = params p
      in erase_loop first n
           (onParamChange (fst (m ! first)) None (p\<lparr>pmap := Some (take first m @ drop (Suc first) m)\<rparr>)))"

definition erase_range :: "nat \<Rightarrow> nat \<Rightarrow> parameters \<Rightarrow> parameters option" where
  "erase_range first stop p =
     (if first = 0 \<and> stop = length (params p) then Some (clear_all p)
      else if first \<le> stop \<and> stop \<le> length (params p) then Some (erase_loop first (stop - first) p)
      else None)"

definition Parameters_clear :: "string \<Rightarrow> parameters \<Rightarrow> parameters option" where
  "Parameters_clear prefix p =
     (if params p = [] then Some p
      else if prefix = [] then Some (clear_all p)
      else erase_range (lower_bound prefix p) (lower_bound (prefix_end prefix) p) p)"

section \<open>Assigning\<close>

definition setParams :: "parameters \<Rightarrow> parameters \<Rightarrow> parameters" where
  "setParams other p =
     (let p1 = clear_all p;
          p2 = (if params other \<noteq> [] then p1\<lparr>pmap := Some (params other)\<rparr> else p1)
      in fold (\<lambda>(k, v). onParamChange k (Some v)) (params p2) p2)"

text \<open>The move: the other is told that it is clear.\<close>

definition moveParams :: "parameters \<Rightarrow> parameters \<Rightarrow> parameters \<times> parameters" where
  "moveParams other p =
     (let p1 = clear_all p;
          moved = (params other \<noteq> []);
          p2 = (if moved then p1\<lparr>pmap := pmap other\<rparr> else p1)
      in (fold (\<lambda>(k, v). onParamChange k (Some v)) (params p2) p2,
          if moved then onParamClear (other\<lparr>pmap := None\<rparr>) else other))"

section \<open>Replaying the events\<close>

fun replay :: "param_event \<Rightarrow> (string \<times> string) list \<Rightarrow> (string \<times> string) list" where
  "replay (Changed k (Some v)) m = mput IComparator k v m"
| "replay (Changed k None) m = merase IComparator k m"
| "replay Cleared m = []"

definition params_ok :: "parameters \<Rightarrow> bool" where
  "params_ok p \<longleftrightarrow> msorted IComparator (params p) \<and> fold replay (plog p) [] = params p"

lemma params_simps [simp]:
  "params (p\<lparr>pmap := Some m\<rparr>) = m" "params (p\<lparr>pmap := None\<rparr>) = []" "params (p\<lparr>pmap := pmap q\<rparr>) = params q"
  "params (onParamChange k v p) = params p" "params (onParamClear p) = params p"
  "plog (onParamChange k v p) = plog p @ [Changed k v]" "plog (onParamClear p) = plog p @ [Cleared]"
  by (simp_all add: params_def onParamChange_def onParamClear_def)

lemma clear_all_simps [simp]: "params (clear_all p) = []"
  by (simp add: clear_all_def)

lemma clear_all_ok: "params_ok p \<Longrightarrow> params_ok (clear_all p)"
  by (auto simp: clear_all_def params_ok_def)

text \<open>The stored key stands for the key.\<close>

lemma stored_key_eqv: "eqv IComparator key (stored_key key m)"
  unfolding stored_key_def by (induction m) (auto split: option.split)

lemma mput_eqv:
  "eqv IComparator k j \<Longrightarrow> mfind IComparator k m \<noteq> None \<Longrightarrow> mput IComparator k v m = mput IComparator j v m"
proof (induction m)
  case (Cons x m)
  then show ?case
    using icomparator.eqv_left [OF Cons.prems(1)] icomparator.eqv_right [OF Cons.prems(1)]
    by (cases x) (auto split: if_splits)
qed simp

lemma merase_eqv: "eqv IComparator k j \<Longrightarrow> merase IComparator k m = merase IComparator j m"
proof (induction m)
  case (Cons x m)
  then show ?case
    using icomparator.eqv_left [OF Cons.prems] icomparator.eqv_right [OF Cons.prems] by (cases x) simp
qed simp

lemma merase_nth:
  "msorted lt m \<Longrightarrow> (\<And>a b. lt a b \<Longrightarrow> \<not> lt b a) \<Longrightarrow> (\<And>a. \<not> lt a a) \<Longrightarrow> i < length m \<Longrightarrow>
    merase lt (fst (m ! i)) m = take i m @ drop (Suc i) m"
proof (induction m arbitrary: i)
  case (Cons x m)
  show ?case
  proof (cases i)
    case 0
    then show ?thesis using Cons.prems(3) by (cases x) simp
  next
    case (Suc j)
    then have j: "j < length m" using Cons.prems(4) by simp
    then have "lt (fst x) (fst (m ! j))" using Cons.prems(1) nth_mem [OF j] by (cases x; cases "m ! j") auto
    note j = j this
    then show ?thesis
      using Suc Cons.IH [OF _ Cons.prems(2,3) j(1)] Cons.prems(1,2) by (cases x) auto
  qed
qed simp

lemma msorted_append: "msorted lt (a @ b) \<longleftrightarrow>
    msorted lt a \<and> msorted lt b \<and> (\<forall>x\<in>set a. \<forall>y\<in>set b. lt (fst x) (fst y))"
  by (simp add: msorted_def sorted_wrt_append)

lemma mput_last: "\<forall>(j, w)\<in>set m. lt j k \<Longrightarrow> (\<And>a b. lt a b \<Longrightarrow> \<not> lt b a) \<Longrightarrow> mput lt k v m = m @ [(k, v)]"
proof (induction m)
  case (Cons x m)
  have "lt (fst x) k" "\<not> lt k (fst x)" using Cons.prems by (cases x, force)+
  then show ?case using Cons.IH Cons.prems by (cases x) auto
qed simp

lemma fold_mput_sorted:
  "msorted IComparator m \<Longrightarrow> fold (\<lambda>(k, v). mput IComparator k v) m [] = m"
proof (induction m rule: rev_induct)
  case (snoc x m)
  then have "\<forall>(j, w)\<in>set m. IComparator j (fst x)" by (auto simp: msorted_append)
  then show ?case using snoc icomparator.asym by (cases x) (simp add: msorted_append mput_last)
qed simp

section \<open>Every operation is told\<close>

lemma emplace_ok:
  assumes "params_ok p"
  shows "params_ok (snd (Parameters_emplace key value p))"
    "params (snd (Parameters_emplace key value p)) = mput IComparator key value (params p)"
proof -
  have s: "msorted IComparator (params p)" using assms by (simp add: params_ok_def)
  have same: "mfind IComparator key m = Some value \<Longrightarrow> mput IComparator key value m = m" for m :: "(string \<times> string) list"
    by (induction m) (auto split: if_splits)
  have st: "mfind IComparator key (params p) \<noteq> None \<Longrightarrow>
      mput IComparator (stored_key key (params p)) v (params p) = mput IComparator key v (params p)" for v
    using mput_eqv [OF stored_key_eqv, of key "params p" v "params p"] by simp
  show "params (snd (Parameters_emplace key value p)) = mput IComparator key value (params p)"
    using same by (auto simp: Parameters_emplace_def Let_def split: option.split)
  then show "params_ok (snd (Parameters_emplace key value p))"
    using assms s st icomparator.msorted_mput [OF s, of key "value"]
    by (auto simp: params_ok_def Parameters_emplace_def Let_def split: option.splits)
qed

lemma param_erase_ok:
  assumes ok: "params_ok p" and more: "length (params p) \<noteq> 1"
  shows "params_ok (snd (Parameters_erase key p))"
    "params (snd (Parameters_erase key p)) = merase IComparator key (params p)"
proof -
  have s: "msorted IComparator (params p)" using ok by (simp add: params_ok_def)
  have none: "mfind IComparator key (params p) = None \<Longrightarrow> merase IComparator key (params p) = params p"
    for key
  proof -
    have "mfind IComparator key m = None \<Longrightarrow> merase IComparator key m = m" for m :: "(string \<times> string) list"
      by (induction m) (auto split: if_splits)
    then show "mfind IComparator key (params p) = None \<Longrightarrow> merase IComparator key (params p) = params p" .
  qed
  have len: "length m \<le> Suc (length (merase IComparator key m))" for m :: "(string \<times> string) list"
    by (induction m) auto
  have ne: "mfind IComparator key (params p) \<noteq> None \<Longrightarrow> merase IComparator key (params p) \<noteq> []"
    using more len [of "params p"] by (cases "params p"; cases "tl (params p)") auto
  show p: "params (snd (Parameters_erase key p)) = merase IComparator key (params p)"
    using none ne by (auto simp: Parameters_erase_def Let_def split: option.split)
  then show "params_ok (snd (Parameters_erase key p))"
    using ok s ne none icomparator.msorted_merase [OF s, of key] merase_eqv [OF stored_key_eqv, of key "params p" "params p"]
    by (auto simp: params_ok_def Parameters_erase_def Let_def split: option.splits)
qed

lemma erase_loop_ok:
  "params_ok p \<Longrightarrow> first + n \<le> length (params p) \<Longrightarrow>
    params_ok (erase_loop first n p) \<and>
    params (erase_loop first n p) = take first (params p) @ drop (n + first) (params p)"
proof (induction n arbitrary: p)
  case (Suc n)
  let ?m = "params p"
  let ?p = "onParamChange (fst (?m ! first)) None (p\<lparr>pmap := Some (take first ?m @ drop (Suc first) ?m)\<rparr>)"
  have s: "msorted IComparator ?m" using Suc.prems(1) by (simp add: params_ok_def)
  have e: "merase IComparator (fst (?m ! first)) ?m = take first ?m @ drop (Suc first) ?m"
    using merase_nth [OF s icomparator.asym icomparator.irrefl, of first] Suc.prems(2) by simp
  have "params_ok ?p"
    using Suc.prems(1) e icomparator.msorted_merase [OF s, of "fst (?m ! first)"] by (simp add: params_ok_def)
  from Suc.IH [OF this] Suc.prems(2) show ?case by (simp add: Let_def min_def add.commute)
qed simp

lemma tell_all:
  "params (fold (\<lambda>(k, v). onParamChange k (Some v)) m p) = params p"
  "plog (fold (\<lambda>(k, v). onParamChange k (Some v)) m p) = plog p @ List.map (\<lambda>(k, v). Changed k (Some v)) m"
  by (induction m arbitrary: p) auto

lemma replay_all:
  "fold replay (List.map (\<lambda>(k, v). Changed k (Some v)) m) l = fold (\<lambda>(k, v). mput IComparator k v) m l"
  by (induction m arbitrary: l) auto

lemma setParams_ok:
  assumes "params_ok p" "msorted IComparator (params other)"
  shows "params_ok (setParams other p)" "params (setParams other p) = params other"
proof -
  have c: "params_ok (clear_all p)" using clear_all_ok [OF assms(1)] .
  let ?p = "if params other \<noteq> [] then (clear_all p)\<lparr>pmap := Some (params other)\<rparr> else clear_all p"
  have p: "params ?p = params other" "fold replay (plog ?p) [] = []" using c by (auto simp: params_ok_def)
  show "params (setParams other p) = params other" by (simp add: setParams_def Let_def tell_all p(1))
  then show "params_ok (setParams other p)"
    using assms(2) p by (simp add: params_ok_def setParams_def Let_def tell_all replay_all fold_mput_sorted)
qed

lemma moveParams_ok:
  assumes "params_ok p" "params_ok other"
  shows "params_ok (fst (moveParams other p))" "params_ok (snd (moveParams other p))"
    "params (fst (moveParams other p)) = params other" "params (snd (moveParams other p)) = []"
proof -
  have c: "params_ok (clear_all p)" using clear_all_ok [OF assms(1)] .
  have s: "msorted IComparator (params other)" using assms(2) by (simp add: params_ok_def)
  let ?p = "if params other \<noteq> [] then (clear_all p)\<lparr>pmap := pmap other\<rparr> else clear_all p"
  have p: "params ?p = params other" "fold replay (plog ?p) [] = []"
    using c by (auto simp: params_ok_def)
  show q: "params (fst (moveParams other p)) = params other"
    by (simp add: moveParams_def Let_def tell_all p(1) del: if_split)
  then show "params_ok (fst (moveParams other p))"
    using s p by (simp add: params_ok_def moveParams_def Let_def tell_all replay_all fold_mput_sorted del: if_split)
  show "params_ok (snd (moveParams other p))" "params (snd (moveParams other p)) = []"
    using assms(2) by (simp_all add: moveParams_def Let_def params_ok_def)
qed

section \<open>Prefixes\<close>

lemma nat_prefix_range:
  fixes P K :: "nat list"
  assumes "P \<noteq> []"
  shows "\<not> K < P \<and> K < butlast P @ [Suc (List.last P)] \<longleftrightarrow> take (length P) K = P"
  using assms
proof (induction P arbitrary: K)
  case (Cons x P)
  show ?case
  proof (cases K)
    case K: (Cons y L)
    show ?thesis
    proof (cases "P = []")
      case True
      then show ?thesis using K by (cases L) (auto simp: less_Suc_eq)
    next
      case False
      then show ?thesis using K Cons.IH [OF False, of L] by (cases P) auto
    qed
  qed simp
qed simp

lemma ikey_plain: "NUL \<notin> set s \<Longrightarrow> ikey s = List.map (\<lambda>c. code (toLower c)) s"
  by (simp add: ikey_def cstr_id)

text \<open>A prefix whose end, one character further, is after everything that starts with it.\<close>

definition prefix_ok :: "string \<Rightarrow> bool" where
  "prefix_ok prefix \<longleftrightarrow> prefix \<noteq> [] \<and> NUL \<notin> set prefix \<and>
     code (last prefix) \<noteq> 64 \<and> code (last prefix) \<noteq> 90 \<and> code (last prefix) \<noteq> 255"

lemma ikey_prefix_end:
  assumes "prefix_ok prefix"
  shows "ikey (prefix_end prefix) = butlast (ikey prefix) @ [Suc (List.last (ikey prefix))]"
proof -
  let ?c = "last prefix"
  have p: "prefix \<noteq> []" "NUL \<notin> set prefix" using assms by (auto simp: prefix_ok_def)
  have c: "code ?c + 1 < 256" using assms code_lt [of ?c] unfolding prefix_ok_def by linarith
  have n: "code (chr ((code ?c + 1) mod 256)) = code ?c + 1" using c by simp
  have "chr ((code ?c + 1) mod 256) \<noteq> NUL" using n by (metis code_NUL add_is_0 one_neq_zero)
  then have "NUL \<notin> set (prefix_end prefix)" using p(2) by (auto simp: prefix_end_def dest: in_set_butlastD)
  moreover have "code (toLower (chr ((code ?c + 1) mod 256))) = Suc (code (toLower ?c))"
    using n assms by (auto simp: code_toLower prefix_ok_def)
  ultimately show ?thesis
    using p by (simp add: ikey_plain prefix_end_def map_butlast last_map)
qed

lemma istartsWith_key:
  assumes "NUL \<notin> set prefix"
  shows "istartsWith k prefix \<longleftrightarrow> take (length (ikey prefix)) (ikey k) = ikey prefix"
proof -
  have p: "length (ikey prefix) = length prefix" using assms by (simp add: ikey_plain)
  have m: "List.map toLower a = List.map toLower b \<longleftrightarrow>
      List.map (\<lambda>c. code (toLower c)) a = List.map (\<lambda>c. code (toLower c)) b" for a b
    by (simp add: list_eq_iff_nth_eq) auto
  have t: "take n (cstr k) = cstr (take n k)" for n
    by (induction k arbitrary: n) (auto simp: cstr_Cons take_Cons split: nat.split)
  have len: "length (cstr (take n k)) \<le> length k" for n
    using length_takeWhile_le [of "\<lambda>c. c \<noteq> NUL" "take n k"] by (simp add: cstr_def)
  have "istartsWith k prefix \<longleftrightarrow>
      length prefix \<le> length k \<and> List.map toLower (cstr (take (length prefix) k)) = List.map toLower prefix"
    using assms by (simp add: istartsWith_def strncasecmp_eq_def cstr_id)
  also have "\<dots> \<longleftrightarrow> List.map toLower (cstr (take (length prefix) k)) = List.map toLower prefix"
    using len [of "length prefix"] by (metis length_map)
  also have "\<dots> \<longleftrightarrow> take (length (ikey prefix)) (ikey k) = ikey prefix"
    unfolding m p by (simp add: ikey_plain [OF assms]) (simp add: ikey_def take_map t)
  finally show ?thesis .
qed

lemma istartsWith_range:
  assumes "prefix_ok prefix"
  shows "istartsWith k prefix \<longleftrightarrow> \<not> IComparator k prefix \<and> IComparator k (prefix_end prefix)"
proof -
  have p: "prefix \<noteq> []" "NUL \<notin> set prefix" using assms by (auto simp: prefix_ok_def)
  then have "ikey prefix \<noteq> []" by (simp add: ikey_plain)
  from nat_prefix_range [OF this, of "ikey k"] show ?thesis
    using ikey_prefix_end [OF assms] istartsWith_key [OF p(2), of k] by (simp add: IComparator_key)
qed

lemma takeWhile_lt:
  "msorted IComparator m \<Longrightarrow> takeWhile (\<lambda>(j, _). IComparator j k) m = filter (\<lambda>(j, _). IComparator j k) m"
proof (induction m)
  case (Cons x m)
  have "filter (\<lambda>(j, _). IComparator j k) m = []" if "\<not> IComparator (fst x) k"
    using Cons.prems that icomparator.trans by (cases x) (auto simp: filter_empty_conv)
  then show ?case using Cons by (cases x) auto
qed simp

lemma take_drop_bounds:
  "msorted IComparator m \<Longrightarrow> \<not> IComparator b a \<Longrightarrow>
    length (takeWhile (\<lambda>(j, _). IComparator j a) m) \<le> length (takeWhile (\<lambda>(j, _). IComparator j b) m) \<and>
    drop (length (takeWhile (\<lambda>(j, _). IComparator j a) m)) (take (length (takeWhile (\<lambda>(j, _). IComparator j b) m)) m) =
      filter (\<lambda>(j, _). \<not> IComparator j a \<and> IComparator j b) m \<and>
    take (length (takeWhile (\<lambda>(j, _). IComparator j a) m)) m @ drop (length (takeWhile (\<lambda>(j, _). IComparator j b) m)) m =
      filter (\<lambda>(j, _). \<not> (\<not> IComparator j a \<and> IComparator j b)) m"
proof (induction m)
  case (Cons x m)
  obtain j v where x: "x = (j, v)" by fastforce
  have s: "msorted IComparator m" "\<And>i w. (i, w) \<in> set m \<Longrightarrow> IComparator j i" using Cons.prems(1) by (auto simp: x)
  have mono: "IComparator i a \<Longrightarrow> IComparator i b" for i
    using Cons.prems(2) icomparator.cotrans [of i a b] by blast
  consider "IComparator j a" | "\<not> IComparator j a" "IComparator j b" | "\<not> IComparator j b" by blast
  then show ?case
  proof cases
    case 1
    then show ?thesis using Cons.IH [OF s(1) Cons.prems(2)] mono by (simp add: x)
  next
    case 2
    have no: "\<not> IComparator i a" if "(i, w) \<in> set m" for i w
      using s(2) [OF that] 2(1) icomparator.trans by blast
    have "takeWhile (\<lambda>(j, _). IComparator j a) m = []" using no by (cases m) auto
    then show ?thesis using Cons.IH [OF s(1) Cons.prems(2)] 2 by (simp add: x)
  next
    case 3
    have no: "\<not> IComparator i b" if "(i, w) \<in> set m" for i w
      using s(2) [OF that] 3 icomparator.trans by blast
    then have f: "filter (\<lambda>(j, _). \<not> IComparator j a \<and> IComparator j b) m = []"
      "filter (\<lambda>(j, _). IComparator j a \<or> \<not> IComparator j b) m = m"
      by (auto simp: filter_empty_conv intro!: filter_True)
    have "\<not> IComparator j a" using 3 mono by blast
    then show ?thesis using 3 f by (simp add: x)
  qed
qed simp

lemma range_exact:
  assumes "params_ok p" "prefix_ok prefix"
  shows "range_items (range_of prefix p) p = Some (filter (\<lambda>(k, _). istartsWith k prefix) (params p))"
    "\<exists>p'. Parameters_clear prefix p = Some p' \<and> params_ok p' \<and>
      params p' = filter (\<lambda>(k, _). \<not> istartsWith k prefix) (params p)"
proof -
  have s: "msorted IComparator (params p)" using assms(1) by (simp add: params_ok_def)
  have "\<not> IComparator (prefix_end prefix) prefix"
    using istartsWith_range [OF assms(2), of prefix] icomparator.irrefl icomparator.asym
    by (metis assms(2) istartsWith_key prefix_ok_def take_all_iff order_refl)
  note b = take_drop_bounds [OF s this]
  have ne: "prefix \<noteq> []" using assms(2) by (simp add: prefix_ok_def)
  let ?i = "lower_bound prefix p" and ?j = "lower_bound (prefix_end prefix) p"
  have j: "?j \<le> length (params p)" by (simp add: lower_bound_def length_takeWhile_le)
  have ij: "?i \<le> ?j" using b by (simp add: lower_bound_def)
  show "range_items (range_of prefix p) p = Some (filter (\<lambda>(k, _). istartsWith k prefix) (params p))"
    using b j ij ne by (simp add: range_items_def range_of_def istartsWith_range [OF assms(2)] lower_bound_def)
  have rest: "take ?i (params p) @ drop ?j (params p) = filter (\<lambda>(k, _). \<not> istartsWith k prefix) (params p)"
    using b by (simp add: istartsWith_range [OF assms(2)] lower_bound_def)
  consider "params p = []" | "params p \<noteq> []" "?i = 0" "?j = length (params p)"
    | "params p \<noteq> []" "\<not> (?i = 0 \<and> ?j = length (params p))" by argo
  then show "\<exists>p'. Parameters_clear prefix p = Some p' \<and> params_ok p' \<and>
      params p' = filter (\<lambda>(k, _). \<not> istartsWith k prefix) (params p)"
  proof cases
    case 1
    then show ?thesis using assms(1) by (simp add: Parameters_clear_def)
  next
    case 2
    then show ?thesis
      using rest clear_all_ok [OF assms(1)] ne by (simp add: Parameters_clear_def erase_range_def)
  next
    case 3
    have "?i + (?j - ?i) = ?j" using ij by simp
    then show ?thesis
      using 3 rest ne ij j erase_loop_ok [OF assms(1), of ?i "?j - ?i"]
      by (auto simp: Parameters_clear_def erase_range_def add.commute)
  qed
qed

lemma erase_range_ok: "erase_range i j p = Some p' \<Longrightarrow> params_ok p \<Longrightarrow> params_ok p'"
  using erase_loop_ok [of p i "j - i"] clear_all_ok [of p]
  by (auto simp: erase_range_def split: if_splits)

lemma Parameters_clear_ok: "Parameters_clear prefix p = Some p' \<Longrightarrow> params_ok p \<Longrightarrow> params_ok p'"
  using erase_range_ok clear_all_ok [of p] by (auto simp: Parameters_clear_def split: if_splits)

section \<open>Whole lives\<close>

text \<open>
  What a program makes of its parameters, but for the erase by key of the only entry: the code calls
  \<open>clear()\<close> on the emptied map, which tells nothing.
\<close>

inductive param_reach :: "parameters \<Rightarrow> bool" where
  new: "param_reach Parameters"
| put: "param_reach p \<Longrightarrow> param_reach (setParameter k v p)"
| put_number: "param_reach p \<Longrightarrow> param_reach (setNumber k n p)"
| put_boolean: "param_reach p \<Longrightarrow> param_reach (setBoolean k b p)"
| erase: "param_reach p \<Longrightarrow> length (params p) \<noteq> 1 \<Longrightarrow> param_reach (snd (Parameters_erase k p))"
| erase_range: "param_reach p \<Longrightarrow> erase_range i j p = Some p' \<Longrightarrow> param_reach p'"
| clear: "param_reach p \<Longrightarrow> Parameters_clear prefix p = Some p' \<Longrightarrow> param_reach p'"
| copy: "param_reach p \<Longrightarrow> param_reach other \<Longrightarrow> param_reach (setParams other p)"
| moved_to: "param_reach p \<Longrightarrow> param_reach other \<Longrightarrow> param_reach (fst (moveParams other p))"
| moved_from: "param_reach p \<Longrightarrow> param_reach other \<Longrightarrow> param_reach (snd (moveParams other p))"

lemma reach_ok: "param_reach p \<Longrightarrow> params_ok p"
proof (induction rule: param_reach.induct)
  case new
  show ?case by (simp add: params_ok_def Parameters_def params_def)
next
  case (copy p other)
  then show ?case using setParams_ok(1) [of p other] by (simp add: params_ok_def)
qed (simp_all add: setParameter_def setNumber_def setBoolean_def emplace_ok param_erase_ok erase_range_ok
    Parameters_clear_ok moveParams_ok)

text \<open>
  C12: A subscriber that replays the changes it is told, from an empty map, has the same map at every
  moment of the life of the parameters, whatever is set, erased, cleared by prefix, copied or moved (the erase of
  the only entry apart), and the keys stay sorted without their case.
\<close>

theorem parameters_told:
  assumes "param_reach p"
  shows "fold replay (plog p) [] = params p \<and> msorted IComparator (params p)"
  using reach_ok [OF assms] by (simp add: params_ok_def)

theorem parameters_told_witness:
  "fold replay (plog (setNumber ''b'' 7 (setParameter ''A'' ''x'' Parameters))) [] =
     params (setNumber ''b'' 7 (setParameter ''A'' ''x'' Parameters)) \<and>
   msorted IComparator (params (setNumber ''b'' 7 (setParameter ''A'' ''x'' Parameters)))"
  by (rule parameters_told) (intro param_reach.intros)

text \<open>
  What is set is found again under every spelling of its key, and nothing else changes; what is erased is
  not found; a prefix selects in a range, and removes when it clears, exactly the keys that start with it
  without the case (for prefixes whose last character has a successor in the order, see below).
\<close>

theorem parameters_access:
  assumes "param_reach p"
  shows "getParameter u j (setParameter k v p) = (if eqv IComparator j k then Some v else getParameter u j p) \<and>
    (length (params p) \<noteq> 1 \<longrightarrow>
      getParameter u j (snd (Parameters_erase k p)) = (if eqv IComparator j k then u j else getParameter u j p)) \<and>
    (prefix_ok prefix \<longrightarrow>
      range_items (range_of prefix p) p = Some (filter (\<lambda>(k, _). istartsWith k prefix) (params p)) \<and>
      (\<exists>p'. Parameters_clear prefix p = Some p' \<and>
        params p' = filter (\<lambda>(k, _). \<not> istartsWith k prefix) (params p)))"
proof -
  have ok: "params_ok p" using reach_ok [OF assms] .
  then have s: "msorted IComparator (params p)" by (simp add: params_ok_def)
  have "getParameter u j (setParameter k v p) = (if eqv IComparator j k then Some v else getParameter u j p)"
    by (simp add: getParameter_def setParameter_def emplace_ok [OF ok] icomparator.mfind_mput [OF s])
  moreover have "getParameter u j (snd (Parameters_erase k p)) = (if eqv IComparator j k then u j else getParameter u j p)"
    if "length (params p) \<noteq> 1"
    by (simp add: getParameter_def param_erase_ok [OF ok that] icomparator.mfind_merase [OF s])
  ultimately show ?thesis using range_exact [OF ok, of prefix] by blast
qed

theorem parameters_access_witness:
  "let p = setParameter ''rtmp.port'' ''1935'' Parameters
   in getParameter (\<lambda>_. None) ''RTMP.Port'' p = Some ''1935'' \<and>
      getParameter (\<lambda>_. None) ''rtmp.port'' (snd (Parameters_erase ''b'' Parameters)) = None \<and>
      range_items (range_of ''RTMP.'' p) p = Some [(''rtmp.port'', ''1935'')]"
proof -
  let ?p = "setParameter ''rtmp.port'' ''1935'' Parameters"
  have p: "param_reach ?p" "param_reach Parameters" by (intro param_reach.intros)+
  have e: "eqv IComparator ''RTMP.Port'' ''rtmp.port''" "params ?p = [(''rtmp.port'', ''1935'')]"
    "prefix_ok ''RTMP.''" "params Parameters = []"
    by code_simp+
  have "\<not> IComparator ''rtmp.port'' ''RTMP.'' \<and> IComparator ''rtmp.port'' (prefix_end ''RTMP.'')" by code_simp
  then have i: "istartsWith ''rtmp.port'' ''RTMP.''" using istartsWith_range e(3) by blast
  show ?thesis
    using parameters_access [OF p(2), of "\<lambda>_. None" "''RTMP.Port''" "''rtmp.port''" "''1935''" "[]"]
      parameters_access [OF p(2), of "\<lambda>_. None" "''rtmp.port''" "''b''" "[]" "[]"]
      parameters_access [OF p(1), of "\<lambda>_. None" "[]" "[]" "[]" "''RTMP.''"] e i
    unfolding Let_def by (simp add: getParameter_def [of _ _ Parameters])
qed

section \<open>What goes wrong\<close>

text \<open>The erase of the only entry is not told.\<close>

lemma last_erase_untold:
  "let p = snd (Parameters_erase ''a'' (setParameter ''a'' ''1'' Parameters))
   in params p = [] \<and> plog p = [Changed ''a'' (Some ''1'')]"
  by code_simp

text \<open>A prefix that ends with \<open>Z\<close>: its end sorts before it, and the loop of the erase runs past the end of the map.\<close>

lemma clear_Z_runs_away:
  "Parameters_clear ''Z'' (setParameter ''z1'' ''1'' (setParameter ''a'' ''1'' Parameters)) = None"
  by code_simp

text \<open>A prefix that ends with \<open>@\<close> selects keys that do not start with it.\<close>

lemma range_at_too_wide:
  "let p = setParameter ''u_1'' ''1'' Parameters in range_items (range_of ''u@'' p) p = Some [(''u_1'', ''1'')]"
  by code_simp

end
