(* ===== verification/Param_Texts.thy ===== *)
theory Param_Texts
  imports Params
begin

text \<open>
  The texts of parameters: the keys and their parts (\<open>Parameters::Key\<close>), the parser of pairs
  (\<open>Parameters::Parser\<close>), which is also the parser of the query of an URL (\<open>URL::ParseQuery\<close>). A pointer into a text is an index, a packet its
  text; the value of a pair is None when the packet has no data. None is a call of \<open>std::string\<close> that throws or is undefined.
  The lemmas show that the parts of a key are its pieces between the separators, and that the pairs of an encoded
  query come back.
\<close>

definition slice :: "string \<Rightarrow> nat \<Rightarrow> nat \<Rightarrow> string" where
  "slice d i n = take n (drop i d)"

section \<open>Keys\<close>

text \<open>\<open>kparts\<close>: by their end, the offset and the size of the parts; \<open>kmarks\<close> the separators that are not read yet.\<close>

record param_key =
  kstr :: string
  kparts :: "(nat \<times> nat \<times> nat) list"
  kmarks :: "nat list option"

definition Key :: "nat list \<Rightarrow> string \<Rightarrow> param_key" where
  "Key marks s = \<lparr>kstr = s, kparts = [], kmarks = Some marks\<rparr>"

definition Key_plain :: "string \<Rightarrow> param_key" where
  "Key_plain s = \<lparr>kstr = s, kparts = [], kmarks = None\<rparr>"

definition next_offset :: "(nat \<times> nat \<times> nat) list \<Rightarrow> nat" where
  "next_offset parts = (if parts = [] then 0 else Suc (fst (last parts)))"

definition key_mark :: "string \<Rightarrow> nat \<Rightarrow> (nat \<times> nat \<times> nat) list \<Rightarrow> (nat \<times> nat \<times> nat) list" where
  "key_mark s part parts =
     (if part < length s then
        (let offset = next_offset (takeWhile (\<lambda>(e, _). e < part) parts)
         in mput (<) part (offset, part - offset) parts)
      else parts)"

text \<open>The parts again, after a change of the text: the ends that are inside are kept.\<close>

fun key_again :: "nat \<Rightarrow> nat \<Rightarrow> (nat \<times> nat \<times> nat) list \<Rightarrow> (nat \<times> nat \<times> nat) list" where
  "key_again size' offset [] = []"
| "key_again size' offset ((e, _) # parts) =
     (if e < size' then (e, offset, e - offset) # key_again size' (offset + (e - offset) + 1) parts else [])"

text \<open>\<open>parts()\<close>; \<open>same\<close> when the data pointer did not change.\<close>

definition Key_parts :: "bool \<Rightarrow> param_key \<Rightarrow> param_key" where
  "Key_parts same k =
     (let n = length (kstr k);
          close = (\<lambda>parts. k\<lparr>kparts := mput (<) n (next_offset parts, n - next_offset parts) parts, kmarks := None\<rparr>)
      in case kmarks k of
           Some marks \<Rightarrow> close (fold (key_mark (kstr k)) marks (kparts k))
         | None \<Rightarrow>
             (if kparts k \<noteq> [] \<and> fst (last (kparts k)) = n \<and> same then k else close (key_again n 0 (kparts k))))"

definition Key_assign :: "bool \<Rightarrow> param_key \<Rightarrow> param_key" where
  "Key_assign same key = \<lparr>kstr = kstr key, kparts = kparts (Key_parts same key), kmarks = None\<rparr>"

definition Key_name :: "bool \<Rightarrow> param_key \<Rightarrow> string" where
  "Key_name same k = (let k1 = Key_parts same k in drop (fst (snd (last (kparts k1)))) (kstr k1))"

definition key_texts :: "param_key \<Rightarrow> string list" where
  "key_texts k = List.map (\<lambda>(e, offset, n). slice (kstr k) offset n) (kparts k)"

section \<open>Pairs\<close>

record parser_options =
  separator :: char
  equality :: char
  subKey :: char
  uriChars :: bool

definition Parser :: parser_options where
  "Parser = \<lparr>separator = CHR '';'', equality = CHR ''='', subKey = CHR ''.'', uriChars = False\<rparr>"

type_synonym 's on_item = "param_key \<Rightarrow> string option \<Rightarrow> 's \<Rightarrow> bool \<times> 's"

record parse_state =
  pkey :: string
  pmarks :: "nat list"
  pvalue :: "nat option"
  pdecoding :: nat
  pdecoded :: string
  pcount :: nat

definition parse_start :: parse_state where
  "parse_start = \<lparr>pkey = [], pmarks = [], pvalue = None, pdecoding = 0, pdecoded = [], pcount = 0\<rparr>"

text \<open>\<open>DecodeURI\<close>: \<open>resize(size() - 2)\<close> of a shorter text throws.\<close>

definition DecodeURI :: "string \<Rightarrow> char \<Rightarrow> string option" where
  "DecodeURI buffer lo =
     (if length buffer < 2 then None
      else Some (take (length buffer - 2) buffer @ snd (FromURI_pair (last buffer) lo)))"

text \<open>The end of a pair, at \<open>i\<close>: whether to go on. A decoded text is moved into the packet.\<close>

definition parse_end :: "string \<Rightarrow> 's on_item \<Rightarrow> nat \<Rightarrow> parse_state \<Rightarrow> 's \<Rightarrow> bool \<times> parse_state \<times> 's" where
  "parse_end d onItem i ps s =
     (if pvalue ps = None \<and> pkey ps = [] then (True, ps, s)
      else
        (let v = map_option (\<lambda>j. if pdecoded ps \<noteq> [] then TrimRight (pdecoded ps) else TrimRight (slice d j (i - j)))
                   (pvalue ps)
         in case onItem (Key (pmarks ps) (TrimRight (pkey ps))) v s of
              (go, s') \<Rightarrow>
                (go, \<lparr>pkey = [], pmarks = [], pvalue = None, pdecoding = 0,
                      pdecoded = (if pvalue ps = None then pdecoded ps else []), pcount = pcount ps + 1\<rparr>, s')))"

definition parse_append :: "char \<Rightarrow> parse_state \<Rightarrow> parse_state" where
  "parse_append c ps =
     (if pvalue ps = None then ps\<lparr>pkey := pkey ps @ [c]\<rparr>
      else if pdecoding ps \<noteq> 0 \<or> pdecoded ps \<noteq> [] then ps\<lparr>pdecoded := pdecoded ps @ [c]\<rparr>
      else ps)"

definition parse_uri :: "string \<Rightarrow> char \<Rightarrow> nat \<Rightarrow> parse_state \<Rightarrow> parse_state option" where
  "parse_uri d c i ps =
     (if c = CHR ''%'' then
        (case pvalue ps of
           Some j \<Rightarrow>
             (if pdecoded ps \<noteq> [] then Some (parse_append c (ps\<lparr>pdecoding := 1\<rparr>))
              else if i < j then None
              else Some (parse_append c (ps\<lparr>pdecoded := slice d j (i - j), pdecoding := 1\<rparr>)))
         | None \<Rightarrow> Some (parse_append c (ps\<lparr>pdecoding := 1\<rparr>)))
      else if pdecoding ps = 0 then Some (parse_append c ps)
      else if pdecoding ps + 1 > 2 then
        (if pvalue ps \<noteq> None then map_option (\<lambda>t. ps\<lparr>pdecoded := t, pdecoding := 0\<rparr>) (DecodeURI (pdecoded ps) c)
         else map_option (\<lambda>t. ps\<lparr>pkey := t, pdecoding := 0\<rparr>) (DecodeURI (pkey ps) c))
      else Some (parse_append c (ps\<lparr>pdecoding := pdecoding ps + 1\<rparr>)))"

definition parse_char :: "parser_options \<Rightarrow> string \<Rightarrow> char \<Rightarrow> nat \<Rightarrow> parse_state \<Rightarrow> parse_state option" where
  "parse_char opts d c i ps =
     (if isblank c then Some (parse_append c (ps\<lparr>pdecoding := 0\<rparr>))
      else
        (let ps1 = (if pvalue ps \<noteq> None then ps
                    else if c = equality opts then ps\<lparr>pvalue := Some (i + 1)\<rparr>
                    else if c = subKey opts then ps\<lparr>pmarks := pmarks ps @ [length (pkey ps)]\<rparr>
                    else ps)
         in if uriChars opts then parse_uri d c i ps1 else Some (parse_append c ps1)))"

function pairs_loop ::
  "parser_options \<Rightarrow> string \<Rightarrow> 's on_item \<Rightarrow> nat \<Rightarrow> parse_state \<Rightarrow> 's \<Rightarrow> (parse_state \<times> 's) option" where
  "pairs_loop opts d onItem i ps s =
     (if i > length d then Some (ps, s)
      else if i = length d \<or> d ! i = separator opts then
        (case parse_end d onItem i ps s of
           (go, ps', s') \<Rightarrow> (if go then pairs_loop opts d onItem (i + 1) ps' s' else Some (ps', s')))
      else
        (case parse_char opts d (d ! i) i ps of
           None \<Rightarrow> None
         | Some ps' \<Rightarrow> pairs_loop opts d onItem (i + 1) ps' s))"
  by pat_completeness auto
termination
  by (relation "measure (\<lambda>(opts, d, onItem, i, ps, s). Suc (length d) - i)") auto

declare pairs_loop.simps [simp del]

definition Parser_call ::
  "parser_options \<Rightarrow> string \<Rightarrow> 's on_item \<Rightarrow> 's \<Rightarrow> (nat \<times> 's) option" where
  "Parser_call opts d onItem s =
     map_option (\<lambda>(ps, s'). (pcount ps, s')) (pairs_loop opts d onItem 0 parse_start s)"

definition ParseQuery :: "string \<Rightarrow> 's on_item \<Rightarrow> 's \<Rightarrow> (nat \<times> 's) option" where
  "ParseQuery query onItem s =
     (if query = [] then Some (0, s)
      else if hd query = CHR ''?'' \<and> length query = 1 then Some (0, s)
      else Parser_call (Parser\<lparr>uriChars := True, separator := CHR ''&''\<rparr>) query onItem s)"

section \<open>The parts of a key\<close>

fun segments :: "nat \<Rightarrow> nat list \<Rightarrow> (nat \<times> nat \<times> nat) list" where
  "segments offset [] = []"
| "segments offset (m # ms) = (m, offset, m - offset) # segments (Suc m) ms"

lemma mput_nat_last: "\<forall>(e, _) \<in> set parts. e < (m :: nat) \<Longrightarrow> mput (<) m v parts = parts @ [(m, v)]"
  by (rule mput_last) auto

lemma fst_segments: "fst ` set (segments off ms) = set ms"
  by (induction off ms rule: segments.induct) auto

lemma fold_key_mark:
  assumes "sorted_wrt (<) ms" "\<forall>m \<in> set ms. m < length s" "\<forall>(e, _) \<in> set parts. \<forall>m \<in> set ms. e < m"
  shows "fold (key_mark s) ms parts = parts @ segments (next_offset parts) ms"
  using assms
proof (induction ms arbitrary: parts)
  case (Cons m ms)
  have below: "\<forall>(e, _) \<in> set parts. e < m" using Cons.prems(3) by auto
  then have tw: "takeWhile (\<lambda>(e, _). e < m) parts = parts" by (simp add: takeWhile_eq_all_conv)
  have step: "key_mark s m parts = parts @ [(m, next_offset parts, m - next_offset parts)]"
    unfolding key_mark_def tw using Cons.prems(2) below by (simp add: Let_def mput_nat_last)
  have "fold (key_mark s) ms (parts @ [(m, next_offset parts, m - next_offset parts)]) =
      (parts @ [(m, next_offset parts, m - next_offset parts)]) @ segments (Suc m) ms"
  proof -
    let ?p = "parts @ [(m, next_offset parts, m - next_offset parts)]"
    have "next_offset ?p = Suc m" by (simp add: next_offset_def)
    moreover have "\<forall>(e, _) \<in> set ?p. \<forall>x \<in> set ms. e < x" using Cons.prems(1,3) by auto
    ultimately show ?thesis using Cons.IH [of ?p] Cons.prems(1,2) by simp
  qed
  then show ?case by (simp add: step)
qed simp

lemma next_offset_segments: "next_offset (segments off ms) = (if ms = [] then 0 else Suc (last ms))"
proof -
  have "ms \<noteq> [] \<Longrightarrow> segments off ms \<noteq> [] \<and> fst (last (segments off ms)) = last ms"
    by (induction off ms rule: segments.induct) (auto simp: neq_Nil_conv)
  then show ?thesis by (auto simp: next_offset_def)
qed

text \<open>The pieces of a text between the positions of a character.\<close>

definition marks_of :: "char \<Rightarrow> string \<Rightarrow> nat list" where
  "marks_of c s = filter (\<lambda>i. s ! i = c) [0..<length s]"

fun pieces :: "char \<Rightarrow> string \<Rightarrow> string list" where
  "pieces c [] = [[]]"
| "pieces c (x # s) = (if x = c then [] # pieces c s else (case pieces c s of p # ps \<Rightarrow> (x # p) # ps | [] \<Rightarrow> []))"

lemma pieces_not_Nil [simp]: "pieces c s \<noteq> []"
  by (induction s) (auto split: list.splits)

lemma marks_of_Cons: "marks_of c (x # s) = (if x = c then [0] else []) @ List.map Suc (marks_of c s)"
proof -
  have "[0..<length (x # s)] = 0 # List.map Suc [0..<length s]" by (simp add: upt_conv_Cons map_Suc_upt del: upt_Suc)
  then show ?thesis by (simp add: marks_of_def filter_map comp_def)
qed

lemma marks_of_bounds: "sorted_wrt (<) (marks_of c s)" "\<forall>m \<in> set (marks_of c s). m < length s"
  by (auto simp: marks_of_def intro: sorted_wrt_filter)

text \<open>All the parts: the last one goes to the end of the text.\<close>

definition all_segments :: "nat \<Rightarrow> nat list \<Rightarrow> nat \<Rightarrow> (nat \<times> nat \<times> nat) list" where
  "all_segments off ms n = segments off (ms @ [n])"

lemma segments_snoc:
  "segments off (ms @ [n]) = segments off ms @ [(n, (if ms = [] then off else Suc (last ms)),
     n - (if ms = [] then off else Suc (last ms)))]"
  by (induction off ms rule: segments.induct) auto

lemma segments_Suc: "segments (Suc off) (List.map Suc ms) = List.map (\<lambda>(e, o', n). (Suc e, Suc o', n)) (segments off ms)"
  by (induction off ms rule: segments.induct) auto

definition texts_of :: "string \<Rightarrow> (nat \<times> nat \<times> nat) list \<Rightarrow> string list" where
  "texts_of s = List.map (\<lambda>(e, offset, n). slice s offset n)"

lemma texts_of_Suc:
  "texts_of (x # s) (segments (Suc 0) (List.map Suc ms)) = texts_of s (segments 0 ms)"
  unfolding segments_Suc texts_of_def by (auto simp: slice_def)

lemma texts_pieces: "texts_of s (segments 0 (marks_of c s @ [length s])) = pieces c s"
proof (induction s)
  case Nil
  then show ?case by (simp add: marks_of_def texts_of_def slice_def)
next
  case (Cons x s)
  have m: "marks_of c (x # s) @ [length (x # s)] = (if x = c then [0] else []) @ List.map Suc (marks_of c s @ [length s])"
    by (simp add: marks_of_Cons)
  show ?case
  proof (cases "x = c")
    case True
    then show ?thesis
      unfolding m using Cons texts_of_Suc [of x s "marks_of c s @ [length s]"] by (simp add: texts_of_def slice_def)
  next
    case False
    obtain k ks where ks: "marks_of c s @ [length s] = k # ks" by (cases "marks_of c s") auto
    have "segments 0 (List.map Suc (k # ks)) = (Suc k, 0, Suc k) # segments (Suc (Suc k)) (List.map Suc ks)" by simp
    moreover have "segments (Suc (Suc k)) (List.map Suc ks) =
        List.map (\<lambda>(e, o', n). (Suc e, Suc o', n)) (segments (Suc k) ks)"
      by (rule segments_Suc)
    moreover have "pieces c s = slice s 0 k # texts_of s (segments (Suc k) ks)"
      using Cons by (simp add: ks texts_of_def)
    ultimately show ?thesis
      unfolding m using False by (simp add: ks texts_of_def slice_def split_def comp_def)
  qed
qed

fun join :: "char \<Rightarrow> string list \<Rightarrow> string" where
  "join c [] = []"
| "join c [t] = t"
| "join c (t # ts) = t @ c # join c ts"

lemma join_pieces: "join c (pieces c s) = s \<and> (\<forall>t \<in> set (pieces c s). c \<notin> set t)"
proof (induction s)
  case (Cons x s)
  obtain p ps where "pieces c s = p # ps" by (cases "pieces c s") auto
  then show ?case using Cons by (cases ps) auto
qed simp

lemma Key_parts_marks:
  "kparts (Key_parts same (Key (marks_of c s) s)) = segments 0 (marks_of c s @ [length s]) \<and>
   kstr (Key_parts same (Key (marks_of c s) s)) = s \<and> kmarks (Key_parts same (Key (marks_of c s) s)) = None"
proof -
  have f: "fold (key_mark s) (marks_of c s) [] = segments 0 (marks_of c s)"
    using fold_key_mark [of "marks_of c s" s "[]"] marks_of_bounds by (simp add: next_offset_def)
  have "\<forall>(e, _) \<in> set (segments 0 (marks_of c s)). e < length s"
    using fst_segments [of 0 "marks_of c s"] marks_of_bounds(2) [of c s] by force
  then show ?thesis
    by (simp add: Key_parts_def Key_def f Let_def mput_nat_last next_offset_segments segments_snoc)
qed

text \<open>
  The parts of a key whose separators were found by the parser are its pieces between the separators: joined
  by the separator they are the key and none of them holds it. The name is the last piece. Asking again
  changes nothing, whether the text has moved or not.
\<close>

theorem key_parts_pieces:
  "let k = Key_parts same (Key (marks_of c s) s)
   in key_texts k = pieces c s \<and> join c (key_texts k) = s \<and> c \<notin> set (concat (key_texts k)) \<and>
      Key_name same (Key (marks_of c s) s) = last (pieces c s) \<and> Key_parts same' k = k"
proof -
  let ?k = "Key_parts same (Key (marks_of c s) s)"
  note k = Key_parts_marks [of same c s]
  have t: "key_texts ?k = pieces c s"
    unfolding key_texts_def using k texts_pieces [of s c] by (simp add: texts_of_def)
  have last': "kparts ?k = segments 0 (marks_of c s) @ [last (kparts ?k)]" "fst (last (kparts ?k)) = length s"
    using k segments_snoc [of 0 "marks_of c s" "length s"] by auto
  obtain off n where l: "last (kparts ?k) = (length s, off, n)" using last'(2) by (metis prod.collapse)
  have n: "n = length s - off"
    using l k segments_snoc [of 0 "marks_of c s" "length s"] by (auto split: if_splits)
  have "last (key_texts ?k) = slice s off n"
    unfolding key_texts_def using last'(1) l k by (subst last_map) auto
  then have name: "Key_name same (Key (marks_of c s) s) = last (pieces c s)"
    using t l k n by (simp add: Key_name_def Let_def slice_def)
  have again: "key_again (length s) off (segments off ms @ [x]) = segments off ms"
    if "sorted_wrt (<) ms" "\<forall>m \<in> set ms. m < length s \<and> off \<le> m" "fst x = length s" for off ms x
    using that
  proof (induction off ms rule: segments.induct)
    case (1 off)
    then show ?case by (cases x) simp
  next
    case (2 off m ms)
    then show ?case by (auto simp: Suc_le_eq)
  qed
  have b: "sorted_wrt (<) (marks_of c s)" "\<forall>m \<in> set (marks_of c s). m < length s \<and> 0 \<le> m"
    using marks_of_bounds [where c=c and s=s] by auto
  have ag: "key_again (length s) 0 (kparts ?k) = segments 0 (marks_of c s)"
    using again [OF b, of "last (kparts ?k)"] last' by simp
  have "\<forall>(e, _) \<in> set (segments 0 (marks_of c s)). e < length s"
    using fst_segments [of 0 "marks_of c s"] b by force
  then have "Key_parts same' ?k = ?k"
    using k ag by (simp add: Key_parts_def [of same'] Let_def mput_nat_last next_offset_segments segments_snoc)
  then show ?thesis using t name join_pieces [of c s] by (auto simp: Let_def)
qed

section \<open>The pairs of a query\<close>

text \<open>Characters one after the other, none of them a separator.\<close>

fun parse_chars :: "parser_options \<Rightarrow> string \<Rightarrow> nat \<Rightarrow> string \<Rightarrow> parse_state \<Rightarrow> parse_state option" where
  "parse_chars opts d i [] ps = Some ps"
| "parse_chars opts d i (c # cs) ps = Option.bind (parse_char opts d c i ps) (parse_chars opts d (i + 1) cs)"

lemma parse_chars_append:
  "parse_chars opts d i (a @ b) ps = Option.bind (parse_chars opts d i a ps) (parse_chars opts d (i + length a) b)"
  by (induction a arbitrary: i ps) (auto split: bind_split)

lemma parse_loop_chars:
  assumes "separator opts \<notin> set cs" "i + length cs \<le> length d" "slice d i (length cs) = cs"
    "parse_chars opts d i cs ps = Some ps'"
  shows "pairs_loop opts d f i ps s = pairs_loop opts d f (i + length cs) ps' s"
  using assms
proof (induction cs arbitrary: i ps)
  case (Cons c cs)
  then obtain ps1 where 1: "parse_char opts d c i ps = Some ps1" "parse_chars opts d (Suc i) cs ps1 = Some ps'"
    by (auto simp: bind_eq_Some_conv)
  have c: "d ! i = c" "slice d (Suc i) (length cs) = cs" "i < length d"
    using Cons.prems(2,3) by (auto simp: slice_def Cons_nth_drop_Suc [symmetric])
  have "pairs_loop opts d f i ps s = pairs_loop opts d f (Suc i) ps1 s"
    using c(1,3) 1(1) Cons.prems(1) by (auto simp: pairs_loop.simps [of opts d f i])
  then show ?case using Cons.IH [of "Suc i" ps1] 1(2) Cons.prems(1,2) c(2) by simp
qed simp

definition query_options :: parser_options where
  "query_options = Parser\<lparr>uriChars := True, separator := CHR ''&''\<rparr>"

lemma query_options_simps [simp]:
  "separator query_options = CHR ''&''" "equality query_options = CHR ''=''" "subKey query_options = CHR ''.''"
  "uriChars query_options"
  by (simp_all add: query_options_def Parser_def)

text \<open>The characters a URI is written with.\<close>

definition uri_plain :: "char \<Rightarrow> bool" where
  "uri_plain c \<longleftrightarrow> isalnum c \<or> c = CHR ''-'' \<or> c = CHR ''_'' \<or> c = CHR ''.'' \<or> c = CHR ''~''"

lemma uri_plain_char:
  assumes "uri_plain c"
  shows "\<not> isblank c" "c \<noteq> CHR ''=''" "c \<noteq> CHR ''%''" "c \<noteq> CHR ''&''"
proof -
  have k: "code (CHR ''='') = 61" "code (CHR ''%'') = 37" "code (CHR ''&'') = 38" "code (CHR ''-'') = 45"
    "code (CHR ''_'') = 95" "code (CHR ''.'') = 46" "code (CHR ''~'') = 126"
    by (simp_all add: code_def)
  have "isalnum c \<or> code c = 45 \<or> code c = 95 \<or> code c = 46 \<or> code c = 126"
    using assms k unfolding uri_plain_def by auto
  then have n: "\<not> isblank c \<and> code c \<noteq> 61 \<and> code c \<noteq> 37 \<and> code c \<noteq> 38" by (auto simp: isalnum_iff isblank_iff)
  then show "\<not> isblank c" "c \<noteq> CHR ''=''" "c \<noteq> CHR ''%''" "c \<noteq> CHR ''&''" using k by auto
qed

lemma Append_URI_Cons:
  "Append_URI (c # cs) = (if uri_plain c then [c] else CHR ''%'' # format_2X (code c)) @ Append_URI cs"
  by (simp add: uri_plain_def)

lemma nibble_plain: "v < 16 \<Longrightarrow> uri_plain (nibble_char 55 v)"
  unfolding uri_plain_def by (rule disjI1) (auto simp: nibble_char_def isalnum_iff)

lemma nibble_not_dot: "v < 16 \<Longrightarrow> nibble_char 55 v \<noteq> CHR ''.''"
proof -
  assume "v < 16"
  then have "code (nibble_char 55 v) \<noteq> code (CHR ''.'')" by (simp add: nibble_char_def) (simp add: code_def)
  then show ?thesis by metis
qed

lemma Append_URI_plain: "list_all (\<lambda>c. 16 \<le> code c) s \<Longrightarrow> c \<in> set (Append_URI s) \<Longrightarrow> uri_plain c \<or> c = CHR ''%''"
proof (induction s)
  case (Cons x s)
  have "code x div 16 < 16" using code_lt [of x] by linarith
  then show ?case
    using Cons nibble_plain [of "code x div 16"] nibble_plain [of "code x mod 16"]
    unfolding Append_URI_Cons by (auto simp: format_2X_def split: if_splits)
qed simp

text \<open>An encoded character: its three characters, and what they are decoded to.\<close>

lemma uri_triple:
  assumes "16 \<le> code c"
  obtains h l where "format_2X (code c) = [h, l]" "uri_plain h" "uri_plain l" "h \<noteq> CHR ''.''" "l \<noteq> CHR ''.''"
    "FromURI_pair h l = (True, [c])"
proof -
  have "code c div 16 < 16" "code c mod 16 < 16" using code_lt [of c] by linarith+
  then show thesis
    using that [of "nibble_char 55 (code c div 16)" "nibble_char 55 (code c mod 16)"] assms
      FromURI_pair_format [OF assms code_lt] nibble_plain nibble_not_dot
    by (simp add: format_2X_def)
qed

text \<open>In the key.\<close>

lemma parse_key_char:
  assumes "pvalue ps = None" "pdecoding ps = 0" "uri_plain c"
  shows "parse_char query_options d c i ps = Some (ps\<lparr>pkey := pkey ps @ [c],
    pmarks := (if c = CHR ''.'' then pmarks ps @ [length (pkey ps)] else pmarks ps)\<rparr>)"
  using assms uri_plain_char [OF assms(3)]
  by (cases ps) (auto simp: parse_char_def parse_uri_def parse_append_def Let_def)

lemma parse_key_triple:
  assumes "pvalue ps = None" "pdecoding ps = 0" "uri_plain h" "uri_plain l" "h \<noteq> CHR ''.''" "l \<noteq> CHR ''.''"
    "FromURI_pair h l = (True, [c])"
  shows "parse_chars query_options d i [CHR ''%'', h, l] ps = Some (ps\<lparr>pkey := pkey ps @ [c]\<rparr>)"
proof -
  have "\<not> isblank (CHR ''%'')" by (simp add: isblank_iff code_def)
  then show ?thesis
    using assms uri_plain_char [OF assms(3)] uri_plain_char [OF assms(4)]
    by (simp add: parse_char_def parse_uri_def parse_append_def Let_def DecodeURI_def)
qed

lemma parse_key:
  assumes "list_all (\<lambda>c. 16 \<le> code c) k" "pvalue ps = None" "pdecoding ps = 0"
  shows "\<exists>ms. parse_chars query_options d i (Append_URI k) ps = Some (ps\<lparr>pkey := pkey ps @ k, pmarks := ms\<rparr>)"
  using assms
proof (induction k arbitrary: i ps)
  case (Cons c k)
  show ?case
  proof (cases "uri_plain c")
    case True
    obtain ms where 1: "parse_char query_options d c i ps = Some (ps\<lparr>pkey := pkey ps @ [c], pmarks := ms\<rparr>)"
      using parse_key_char [OF Cons.prems(2,3) True] by blast
    show ?thesis
      using Cons.IH [of "ps\<lparr>pkey := pkey ps @ [c], pmarks := ms\<rparr>" "i + 1"] Cons.prems True 1
      unfolding Append_URI_Cons by simp
  next
    case False
    obtain h l where f: "format_2X (code c) = [h, l]" and hl: "uri_plain h" "uri_plain l" "h \<noteq> CHR ''.''" "l \<noteq> CHR ''.''"
      "FromURI_pair h l = (True, [c])"
      using uri_triple [of c] Cons.prems(1) by auto
    show ?thesis
      using Cons.IH [of "ps\<lparr>pkey := pkey ps @ [c]\<rparr>" "Suc (Suc (Suc i))"] Cons.prems False f
        parse_key_triple [OF Cons.prems(2,3) hl, of d i]
      unfolding Append_URI_Cons f by (simp only: if_False parse_chars_append) simp
  qed
next
  case (Nil i ps)
  have "ps = ps\<lparr>pkey := pkey ps @ [], pmarks := pmarks ps\<rparr>" by simp
  then show ?case by (metis Append_URI.simps(1) parse_chars.simps(1))
qed

text \<open>In the value, \<open>w\<close> so far.\<close>

definition value_at :: "string \<Rightarrow> nat \<Rightarrow> nat \<Rightarrow> string \<Rightarrow> parse_state \<Rightarrow> bool" where
  "value_at d j i w ps \<longleftrightarrow> pvalue ps = Some j \<and> pdecoding ps = 0 \<and> j \<le> i \<and>
     (pdecoded ps = [] \<and> slice d j (i - j) = w \<or> pdecoded ps = w \<and> w \<noteq> [])"

lemma slice_snoc: "j \<le> i \<Longrightarrow> i < length d \<Longrightarrow> slice d j (Suc i - j) = slice d j (i - j) @ [d ! i]"
  by (simp add: slice_def Suc_diff_le take_Suc_conv_app_nth)

lemma parse_value_char:
  assumes "value_at d j i w ps" "uri_plain c" "i < length d" "d ! i = c"
  shows "\<exists>ps'. parse_char query_options d c i ps = Some ps' \<and> value_at d j (i + 1) (w @ [c]) ps' \<and>
    pkey ps' = pkey ps \<and> pmarks ps' = pmarks ps \<and> pcount ps' = pcount ps"
  using assms uri_plain_char [OF assms(2)] slice_snoc [of j i d]
  by (auto simp: parse_char_def parse_uri_def parse_append_def Let_def value_at_def)

lemma parse_value_triple:
  assumes "value_at d j i w ps" "uri_plain h" "uri_plain l" "FromURI_pair h l = (True, [c])"
  shows "\<exists>ps'. parse_chars query_options d i [CHR ''%'', h, l] ps = Some ps' \<and> value_at d j (i + 3) (w @ [c]) ps' \<and>
    pkey ps' = pkey ps \<and> pmarks ps' = pmarks ps \<and> pcount ps' = pcount ps"
proof -
  have "\<not> isblank (CHR ''%'')" by (simp add: isblank_iff code_def)
  then show ?thesis
    using assms uri_plain_char [OF assms(2)] uri_plain_char [OF assms(3)]
    by (auto simp: parse_char_def parse_uri_def parse_append_def Let_def DecodeURI_def value_at_def)
qed

lemma slice_parts:
  assumes "slice d i (length (a @ b)) = a @ b"
  shows "slice d i (length a) = a \<and> slice d (i + length a) (length b) = b"
proof -
  have "slice d i (length a) = take (length a) (slice d i (length (a @ b)))"
    "slice d (i + length a) (length b) = drop (length a) (slice d i (length (a @ b)))"
    by (simp_all add: slice_def drop_take add.commute)
  then show ?thesis unfolding assms by simp
qed

lemma parse_value:
  assumes "list_all (\<lambda>c. 16 \<le> code c) t" "value_at d j i w ps" "i + length (Append_URI t) \<le> length d"
    "slice d i (length (Append_URI t)) = Append_URI t"
  shows "\<exists>ps'. parse_chars query_options d i (Append_URI t) ps = Some ps' \<and>
    value_at d j (i + length (Append_URI t)) (w @ t) ps' \<and>
    pkey ps' = pkey ps \<and> pmarks ps' = pmarks ps \<and> pcount ps' = pcount ps"
  using assms
proof (induction t arbitrary: i w ps)
  case (Cons c t)
  define e where "e = (if uri_plain c then [c] else CHR ''%'' # format_2X (code c))"
  have A: "Append_URI (c # t) = e @ Append_URI t" unfolding e_def Append_URI_Cons by (rule refl)
  have sl: "slice d i (length e) = e" "slice d (i + length e) (length (Append_URI t)) = Append_URI t"
    using slice_parts [of d i e "Append_URI t"] Cons.prems(4) unfolding A by auto
  have "\<exists>ps1. parse_chars query_options d i e ps = Some ps1 \<and> value_at d j (i + length e) (w @ [c]) ps1 \<and>
      pkey ps1 = pkey ps \<and> pmarks ps1 = pmarks ps \<and> pcount ps1 = pcount ps"
  proof (cases "uri_plain c")
    case True
    have "i < length d" "d ! i = c"
      using sl(1) Cons.prems(3) unfolding A by (auto simp: e_def True slice_def Cons_nth_drop_Suc [symmetric])
    then show ?thesis using parse_value_char [OF Cons.prems(2) True] by (auto simp: e_def True bind_eq_Some_conv)
  next
    case False
    have "16 \<le> code c" using Cons.prems(1) by simp
    then obtain h l where "format_2X (code c) = [h, l]" "uri_plain h" "uri_plain l" "h \<noteq> CHR ''.''" "l \<noteq> CHR ''.''"
      "FromURI_pair h l = (True, [c])"
      by (rule uri_triple)
    then show ?thesis using parse_value_triple [OF Cons.prems(2), of h l c] False unfolding e_def by (auto simp: numeral_3_eq_3)
  qed
  then obtain ps1 where 1: "parse_chars query_options d i e ps = Some ps1" "value_at d j (i + length e) (w @ [c]) ps1"
      "pkey ps1 = pkey ps" "pmarks ps1 = pmarks ps" "pcount ps1 = pcount ps"
    by blast
  show ?case
    using Cons.IH [of "i + length e" "w @ [c]" ps1] 1 sl(2) Cons.prems(1,3) unfolding A
    by (simp add: parse_chars_append add.assoc)
qed (auto simp: value_at_def)

text \<open>A pair, from its key to the separator after it.\<close>

definition write_pair :: "string \<times> string \<Rightarrow> string" where
  "write_pair = (\<lambda>(k, v). Append_URI k @ CHR ''='' # Append_URI v)"

definition pair_ok :: "string \<times> string \<Rightarrow> bool" where
  "pair_ok = (\<lambda>(k, v). list_all (\<lambda>c. 16 \<le> code c) (k @ v) \<and>
     (k \<noteq> [] \<longrightarrow> \<not> isspace (last k)) \<and> (v \<noteq> [] \<longrightarrow> \<not> isspace (last v)))"

lemma TrimRight_id: "(t \<noteq> [] \<longrightarrow> \<not> isspace (last t)) \<Longrightarrow> TrimRight t = t"
  by (cases "length t") (auto simp: TrimRight_def last_conv_nth)

lemma separator_notin: "list_all (\<lambda>c. 16 \<le> code c) t \<Longrightarrow> CHR ''&'' \<notin> set (Append_URI t)"
  using Append_URI_plain uri_plain_char(4) by fastforce

definition pair_start :: "nat \<Rightarrow> parse_state" where
  "pair_start n = parse_start\<lparr>pcount := n\<rparr>"

lemma parse_pair:
  assumes ok: "pair_ok (k, v)" and e: "i + length (write_pair (k, v)) \<le> length d"
    "slice d i (length (write_pair (k, v))) = write_pair (k, v)"
    "i + length (write_pair (k, v)) < length d \<longrightarrow> d ! (i + length (write_pair (k, v))) = CHR ''&''"
  shows "\<exists>ms. pairs_loop query_options d f i (pair_start n) s =
    (case f (Key ms k) (Some v) s of
       (go, s') \<Rightarrow> (if go then pairs_loop query_options d f (i + length (write_pair (k, v)) + 1) (pair_start (n + 1)) s'
                   else Some (pair_start (n + 1), s')))"
proof -
  let ?i1 = "i + length (Append_URI k)" and ?i2 = "i + length (write_pair (k, v))"
  have ck: "list_all (\<lambda>c. 16 \<le> code c) k" "list_all (\<lambda>c. 16 \<le> code c) v" using ok by (auto simp: pair_ok_def)
  have sl: "slice d i (length (Append_URI k @ [CHR ''=''])) = Append_URI k @ [CHR ''='']"
    "slice d (?i1 + 1) (length (Append_URI v)) = Append_URI v"
    using slice_parts [of d i "Append_URI k @ [CHR ''='']" "Append_URI v"] e(2) by (auto simp: write_pair_def)
  obtain ms where 1: "parse_chars query_options d i (Append_URI k) (pair_start n) = Some (pair_start n\<lparr>pkey := k, pmarks := ms\<rparr>)"
    using parse_key [OF ck(1), of "pair_start n" d i] by (auto simp: pair_start_def parse_start_def)
  have eq: "\<not> isblank (CHR ''='')" by (simp add: isblank_iff code_def)
  have 2: "parse_chars query_options d i (Append_URI k @ [CHR ''='']) (pair_start n) =
      Some (pair_start n\<lparr>pkey := k, pmarks := ms, pvalue := Some (?i1 + 1)\<rparr>)" (is "_ = Some ?ps")
    using 1 eq by (simp add: parse_chars_append parse_char_def parse_uri_def parse_append_def pair_start_def parse_start_def)
  have "value_at d (?i1 + 1) (?i1 + 1) [] ?ps" by (simp add: value_at_def slice_def pair_start_def parse_start_def)
  moreover have i2: "?i1 + 1 + length (Append_URI v) = ?i2" by (simp add: write_pair_def)
  moreover have "?i1 + 1 + length (Append_URI v) \<le> length d" using e(1) unfolding i2 .
  ultimately obtain ps' where 3: "parse_chars query_options d (?i1 + 1) (Append_URI v) ?ps = Some ps'"
      "value_at d (?i1 + 1) ?i2 v ps'" "pkey ps' = pkey ?ps" "pmarks ps' = pmarks ?ps" "pcount ps' = pcount ?ps"
    using parse_value [OF ck(2) _ _ sl(2), of "?i1 + 1" "[]" ?ps] by (metis append_Nil)
  have "parse_chars query_options d i (write_pair (k, v)) (pair_start n) = Some ps'"
    using parse_chars_append [of query_options d i "Append_URI k @ [CHR ''='']" "Append_URI v" "pair_start n"] 2 3(1)
    by (simp add: write_pair_def)
  moreover have "CHR ''&'' \<notin> set (write_pair (k, v))" using separator_notin [OF ck(1)] separator_notin [OF ck(2)]
    by (simp add: write_pair_def)
  ultimately have L: "pairs_loop query_options d f i (pair_start n) s = pairs_loop query_options d f ?i2 ps' s"
    using parse_loop_chars [of query_options "write_pair (k, v)" i d "pair_start n" ps' f s] e by simp
  have t: "TrimRight k = k" "TrimRight v = v" using ok by (auto simp: pair_ok_def intro: TrimRight_id)
  have "parse_end d f ?i2 ps' s =
      (case f (Key ms k) (Some v) s of (go, s') \<Rightarrow> (go, pair_start (n + 1), s'))"
    using 3(2-5) t by (auto simp: parse_end_def value_at_def pair_start_def parse_start_def split: prod.split)
  moreover have "?i2 \<le> length d \<and> (?i2 = length d \<or> d ! ?i2 = separator query_options)" using e(1,3) by auto
  ultimately have "pairs_loop query_options d f ?i2 ps' s =
    (case f (Key ms k) (Some v) s of
       (go, s') \<Rightarrow> (if go then pairs_loop query_options d f (?i2 + 1) (pair_start (n + 1)) s'
                   else Some (pair_start (n + 1), s')))"
    by (subst pairs_loop.simps) (auto split: prod.split)
  then show ?thesis using L by auto
qed

definition collect_pairs :: "(string \<times> string option) list on_item" where
  "collect_pairs k v s = (True, s @ [(kstr k, v)])"

definition write_query :: "(string \<times> string) list \<Rightarrow> string" where
  "write_query pairs = join (CHR ''&'') (List.map write_pair pairs)"

lemma write_query_Cons:
  "write_query (p # ps) = write_pair p @ (if ps = [] then [] else CHR ''&'' # write_query ps)"
  by (cases ps) (simp_all add: write_query_def)

lemma parse_query_loop:
  assumes "pairs \<noteq> []" "list_all pair_ok pairs" "i + length (write_query pairs) = length d" "drop i d = write_query pairs"
  shows "pairs_loop query_options d collect_pairs i (pair_start n) s =
    Some (pair_start (n + length pairs), s @ List.map (\<lambda>(k, v). (k, Some v)) pairs)"
  using assms
proof (induction pairs arbitrary: i n s)
  case (Cons p pairs)
  obtain k v where p: "p = (k, v)" by fastforce
  let ?w = "write_pair (k, v)"
  let ?i = "i + length ?w + 1"
  have d: "drop i d = ?w @ (if pairs = [] then [] else CHR ''&'' # write_query pairs)"
    using Cons.prems(4) by (simp add: p write_query_Cons)
  have len: "i + length ?w + (if pairs = [] then 0 else 1 + length (write_query pairs)) = length d"
    using Cons.prems(3) by (auto simp: p write_query_Cons)
  then have le: "i + length ?w \<le> length d" by linarith
  have sl: "slice d i (length ?w) = ?w" using d by (simp add: slice_def)
  have d2: "drop (i + length ?w) d = (if pairs = [] then [] else CHR ''&'' # write_query pairs)"
  proof -
    have "drop (i + length ?w) d = drop (length ?w) (drop i d)" by (simp add: add.commute)
    then show ?thesis unfolding d by simp
  qed
  have amp: "i + length ?w < length d \<longrightarrow> d ! (i + length ?w) = CHR ''&''"
    using d2 Cons_nth_drop_Suc [of "i + length ?w" d] by (auto split: if_splits)
  have "pair_ok (k, v)" using Cons.prems(2) p by simp
  from parse_pair [OF this le sl amp, of collect_pairs n s]
  have step: "pairs_loop query_options d collect_pairs i (pair_start n) s =
      pairs_loop query_options d collect_pairs ?i (pair_start (n + 1)) (s @ [(k, Some v)])"
    by (auto simp: collect_pairs_def Key_def)
  show ?case
  proof (cases "pairs = []")
    case True
    then show ?thesis using step len p by (simp add: pairs_loop.simps [of _ d _ "Suc _"])
  next
    case False
    have "drop ?i d = tl (drop (i + length ?w) d)" by (simp add: drop_Suc tl_drop [symmetric])
    then have "drop ?i d = write_query pairs" using d2 False by simp
    then show ?thesis
      using step Cons.IH [of ?i "n + 1" "s @ [(k, Some v)]"] Cons.prems(2) False len p by simp
  qed
qed simp

text \<open>
  C13: The query written from pairs, each key and value percent-encoded, is parsed to the same pairs, in order,
  and their number. Texts have no character below 16 (the encoder loses them) and no space at the end (the
  parser removes it).
\<close>

theorem query_pairs_back:
  assumes "list_all pair_ok pairs"
  shows "ParseQuery (write_query pairs) collect_pairs [] = Some (length pairs, List.map (\<lambda>(k, v). (k, Some v)) pairs)"
proof (cases "pairs = []")
  case True
  then show ?thesis by (simp add: ParseQuery_def write_query_def)
next
  case False
  then obtain k v ps where p: "pairs = (k, v) # ps" by (cases pairs) auto
  have eq: "CHR ''='' \<in> set (write_query pairs)" by (simp add: p write_query_Cons write_pair_def)
  then have q: "write_query pairs \<noteq> []" "\<not> (hd (write_query pairs) = CHR ''?'' \<and> length (write_query pairs) = 1)"
    by (auto simp: length_Suc_conv)
  have "pairs_loop query_options (write_query pairs) collect_pairs 0 (pair_start 0) [] =
      Some (pair_start (length pairs), List.map (\<lambda>(k, v). (k, Some v)) pairs)"
    using parse_query_loop [OF False assms, of 0 "write_query pairs" 0 "[]"] by simp
  then show ?thesis
    using q False
    by (auto simp: ParseQuery_def Parser_call_def query_options_def [symmetric] pair_start_def parse_start_def)
qed

theorem query_pairs_back_witness:
  "ParseQuery (write_query [(''user.name'', ''J & K''), (''lang'', [])]) collect_pairs [] =
     Some (length [(''user.name'', ''J & K''), (''lang'', [])],
           List.map (\<lambda>(k, v). (k, Some v)) [(''user.name'', ''J & K''), (''lang'', [])])"
proof (rule query_pairs_back)
  show "list_all pair_ok [(''user.name'', ''J & K''), (''lang'', [])]"
    by (simp add: pair_ok_def isspace_iff code_def)
qed

text \<open>A query that cuts an encoded character of a key with the equal sign makes \<open>std::string\<close> throw.\<close>

declare isblank_iff [code] isspace_iff [code] isxdigit_iff [code]

lemma query_cut_key_throws:
  "ParseQuery ''a%4=x'' collect_pairs [] = None" "ParseQuery ''a%=x'' collect_pairs [] = None"
  by code_simp+

text \<open>The question mark of a query is not skipped.\<close>

lemma query_mark_kept: "ParseQuery ''?a=x'' collect_pairs [] = Some (1, [(''?a'', Some ''x'')])"
  by code_simp

end
