(* ===== verification/Ini_Files.thy ===== *)
theory Ini_Files
  imports Param_Texts
begin

text \<open>
  \<open>Parameters::ParseIniFile\<close> (Mona/Util/Parameters.cpp), on the content of the file: the lines \<open>[section]\<close> and
  \<open>key = value\<close>, comments after a semicolon, keys and values in quotes. A pointer into the content is an index.
  The lemmas show that an ini file sets the parameters it was written from, in its order.
\<close>

section \<open>Lines\<close>

record ini_state =
  ivalue :: "nat option"
  ivsize :: nat
  iksize :: nat
  iquote :: "nat option"

text \<open>A quote that was opened before the equal sign: the equal sign was of the key.\<close>

definition ini_quote :: "string \<Rightarrow> nat \<Rightarrow> ini_state \<Rightarrow> ini_state" where
  "ini_quote d i st =
     (if d ! i = CHR 0x27 \<or> d ! i = CHR 0x22 then
        (case iquote st of
           None \<Rightarrow> st\<lparr>iquote := Some i\<rparr>
         | Some q \<Rightarrow>
             (if d ! q = d ! i \<and> (case ivalue st of None \<Rightarrow> False | Some v \<Rightarrow> q < v)
              then st\<lparr>iksize := iksize st + ivsize st + 1, ivalue := None, ivsize := 0, iquote := None\<rparr>
              else st\<lparr>iquote := None\<rparr>))
      else st)"

definition ini_char :: "string \<Rightarrow> nat \<Rightarrow> ini_state \<Rightarrow> ini_state" where
  "ini_char d i st =
     (let st = ini_quote d i st
      in if ivalue st \<noteq> None then st\<lparr>ivsize := ivsize st + 1\<rparr>
         else if d ! i = CHR ''='' then st\<lparr>ivalue := Some (i + 1)\<rparr>
         else st\<lparr>iksize := iksize st + 1\<rparr>)"

function ini_line :: "string \<Rightarrow> nat \<Rightarrow> ini_state \<Rightarrow> nat \<times> ini_state" where
  "ini_line d i st =
     (if i \<ge> length d \<or> d ! i = CHR 0x0A then (i, st) else ini_line d (i + 1) (ini_char d i st))"
  by pat_completeness auto
termination
  by (relation "measure (\<lambda>(d, i, st). length d - i)") auto

declare ini_line.simps [simp del]

definition unquote :: "string \<Rightarrow> string" where
  "unquote t =
     (if length t > 1 \<and> hd t = last t \<and> (hd t = CHR 0x22 \<or> hd t = CHR 0x27) then butlast (tl t) else t)"

text \<open>A line that starts at \<open>i\<close>: the section from now on, and the parameter it sets.\<close>

definition ini_entry :: "string \<Rightarrow> nat \<Rightarrow> ini_state \<Rightarrow> string \<Rightarrow> string \<times> string \<times> string" where
  "ini_entry d i st section' =
     (let v = (case ivalue st of None \<Rightarrow> [] | Some j \<Rightarrow> Trim (slice d j (ivsize st)));
          k = TrimRight (slice d i (iksize st));
          isSection = (k \<noteq> [] \<and> hd k = CHR ''['' \<and>
            (v \<noteq> [] \<and> last v = CHR '']'' \<or> ivalue st = None \<and> last k = CHR '']''));
          k1 = unquote (if isSection then (if ivalue st = None then butlast (tl k) else tl k) else k);
          v1 = unquote (Trim (if isSection \<and> ivalue st \<noteq> None then butlast v else v))
      in if isSection then (k1, k1, v1) else (section', section' @ [CHR ''.''] @ k1, v1))"

lemma ini_line_ge: "ini_line d i st = (i', st') \<Longrightarrow> i \<le> i'"
proof (induction d i st rule: ini_line.induct)
  case (1 d i st)
  then show ?case
    by (cases "i \<ge> length d \<or> d ! i = CHR 0x0A") (simp_all add: ini_line.simps [of d i st])
qed

lemma ini_line_gt:
  "ini_line d i st = (i', st') \<Longrightarrow> i < length d \<Longrightarrow> d ! i \<noteq> CHR 0x0A \<Longrightarrow> i < i'"
  using ini_line_ge [of d "i + 1" "ini_char d i st" i' st'] by (simp add: ini_line.simps [of d i st])

lemma isspace_newline [simp]: "isspace (CHR 0x0A)"
  by (simp add: isspace_iff code_def)

lemma after_spaces:
  assumes "i + length (takeWhile isspace (drop i d)) < length d"
  shows "\<not> isspace (d ! (i + length (takeWhile isspace (drop i d))))"
  using assms nth_length_takeWhile [of isspace "drop i d"] by simp

function ini_loop :: "string \<Rightarrow> nat \<Rightarrow> string \<Rightarrow> parameters \<Rightarrow> parameters" where
  "ini_loop d i section' p =
     (let j = i + length (takeWhile isspace (drop i d))
      in if j \<ge> length d then p
         else if d ! j = CHR '';'' then
           ini_loop d (j + 2 + length (takeWhile (\<lambda>c. c \<noteq> CHR 0x0A) (drop (j + 1) d))) section' p
         else
           (case ini_line d j \<lparr>ivalue = None, ivsize = 0, iksize = 0, iquote = None\<rparr> of
              (i', st) \<Rightarrow>
                (case ini_entry d j st section' of
                   (section'', key, v) \<Rightarrow> ini_loop d i' section'' (setParameter key v p))))"
  by pat_completeness auto
termination
proof (relation "measure (\<lambda>(d, i, section', p). length d - i)", goal_cases)
  case (3 d i section' p j i' st k section'' key v)
  then have "d ! j \<noteq> CHR 0x0A" using after_spaces [of i d] by (metis isspace_newline not_le)
  then have "j < i'" using ini_line_gt [OF 3(4) [symmetric]] 3 by simp
  then show ?case using 3 by auto
qed auto

declare ini_loop.simps [simp del]

text \<open>\<open>file\<close>: the content, None when it cannot be loaded or read.\<close>

definition ParseIniFile :: "string option \<Rightarrow> parameters \<Rightarrow> bool \<times> parameters" where
  "ParseIniFile file p =
     (case file of
        None \<Rightarrow> (False, p)
      | Some d \<Rightarrow> (if d = [] then (True, p) else (True, ini_loop d 0 [] p)))"

section \<open>A written file\<close>

definition quote_char :: "char \<Rightarrow> bool" where
  "quote_char c \<longleftrightarrow> c = CHR 0x22 \<or> c = CHR 0x27"

text \<open>What a section and a key, and what a value may be to come back.\<close>

definition ini_name :: "string \<Rightarrow> bool" where
  "ini_name s \<longleftrightarrow> s \<noteq> [] \<and> hd s \<noteq> CHR '';'' \<and> hd s \<noteq> CHR ''['' \<and>
     (\<forall>c \<in> set s. \<not> isspace c \<and> \<not> quote_char c \<and> c \<noteq> CHR ''='')"

definition ini_value :: "string \<Rightarrow> bool" where
  "ini_value v \<longleftrightarrow> (\<forall>c \<in> set v. c \<noteq> CHR 0x0A \<and> \<not> quote_char c) \<and>
     (v \<noteq> [] \<longrightarrow> \<not> isspace (hd v) \<and> \<not> isspace (last v))"

definition ini_section_line :: "string \<Rightarrow> string" where
  "ini_section_line name = CHR ''['' # name @ [CHR '']'']"

definition ini_pair_line :: "string \<times> string \<Rightarrow> string" where
  "ini_pair_line = (\<lambda>(k, v). k @ CHR ''='' # v)"

definition write_section :: "string \<times> (string \<times> string) list \<Rightarrow> string" where
  "write_section = (\<lambda>(name, pairs). ini_section_line name @ CHR 0x0A #
     concat (List.map (\<lambda>p. ini_pair_line p @ [CHR 0x0A]) pairs))"

definition write_ini :: "(string \<times> (string \<times> string) list) list \<Rightarrow> string" where
  "write_ini sections = concat (List.map write_section sections)"

definition section_ok :: "string \<times> (string \<times> string) list \<Rightarrow> bool" where
  "section_ok = (\<lambda>(name, pairs). ini_name name \<and> (\<forall>(k, v) \<in> set pairs. ini_name k \<and> ini_value v))"

text \<open>What the file sets, in order.\<close>

definition section_sets :: "string \<times> (string \<times> string) list \<Rightarrow> (string \<times> string) list" where
  "section_sets = (\<lambda>(name, pairs). (name, []) # List.map (\<lambda>(k, v). (name @ CHR ''.'' # k, v)) pairs)"

lemma ini_char_plain:
  "\<not> quote_char (d ! i) \<Longrightarrow> ini_char d i st =
    (if ivalue st \<noteq> None then st\<lparr>ivsize := ivsize st + 1\<rparr>
     else if d ! i = CHR ''='' then st\<lparr>ivalue := Some (i + 1)\<rparr> else st\<lparr>iksize := iksize st + 1\<rparr>)"
  by (simp add: ini_char_def ini_quote_def quote_char_def Let_def)

lemma slice_Cons: "slice d i (Suc n) = c # cs \<Longrightarrow> length cs = n \<Longrightarrow> i < length d \<and> d ! i = c \<and> slice d (Suc i) n = cs"
  by (cases "i < length d") (auto simp: slice_def Cons_nth_drop_Suc [symmetric])

lemma ini_line_key:
  assumes "slice d i (length cs) = cs" "\<forall>c \<in> set cs. c \<noteq> CHR 0x0A \<and> \<not> quote_char c \<and> c \<noteq> CHR ''=''" "ivalue st = None"
  shows "ini_line d i st = ini_line d (i + length cs) (st\<lparr>iksize := iksize st + length cs\<rparr>)"
  using assms
proof (induction cs arbitrary: i st)
  case (Cons c cs)
  then have c: "i < length d" "d ! i = c" "slice d (Suc i) (length cs) = cs"
    using slice_Cons [of d i "length cs" c cs] by auto
  have "ini_line d i st = ini_line d (Suc i) (st\<lparr>iksize := iksize st + 1\<rparr>)"
    using c Cons.prems by (simp add: ini_line.simps [of d i st] ini_char_plain)
  then show ?case using Cons.IH [OF c(3), of "st\<lparr>iksize := iksize st + 1\<rparr>"] Cons.prems by simp
qed simp

lemma ini_line_value:
  assumes "slice d i (length cs) = cs" "\<forall>c \<in> set cs. c \<noteq> CHR 0x0A \<and> \<not> quote_char c" "ivalue st \<noteq> None"
  shows "ini_line d i st = ini_line d (i + length cs) (st\<lparr>ivsize := ivsize st + length cs\<rparr>)"
  using assms
proof (induction cs arbitrary: i st)
  case (Cons c cs)
  then have c: "i < length d" "d ! i = c" "slice d (Suc i) (length cs) = cs"
    using slice_Cons [of d i "length cs" c cs] by auto
  have "ini_line d i st = ini_line d (Suc i) (st\<lparr>ivsize := ivsize st + 1\<rparr>)"
    using c Cons.prems by (simp add: ini_line.simps [of d i st] ini_char_plain)
  then show ?case using Cons.IH [OF c(3), of "st\<lparr>ivsize := ivsize st + 1\<rparr>"] Cons.prems by simp
qed simp

lemma ini_line_end: "d ! i = CHR 0x0A \<Longrightarrow> ini_line d i st = (i, st)"
  by (simp add: ini_line.simps)

lemma ini_loop_newline:
  assumes "drop i d = CHR 0x0A # r"
  shows "ini_loop d i s p = ini_loop d (Suc i) s p"
proof -
  have "drop (Suc i) d = r" using assms by (simp add: drop_Suc tl_drop [symmetric])
  then have "i + length (takeWhile isspace (drop i d)) = Suc i + length (takeWhile isspace (drop (Suc i) d))"
    using assms by simp
  then show ?thesis by (simp only: ini_loop.simps [of d i] ini_loop.simps [of d "Suc i"])
qed

lemma unquote_plain: "(t \<noteq> [] \<longrightarrow> \<not> quote_char (hd t)) \<Longrightarrow> unquote t = t"
  by (auto simp: unquote_def quote_char_def)

lemma Trim_id: "t \<noteq> [] \<longrightarrow> \<not> isspace (hd t) \<and> \<not> isspace (last t) \<Longrightarrow> Trim t = t"
  by (cases t) (auto simp: Trim_def TrimRight_id)

text \<open>The two kinds of lines; the cursor goes after the newline.\<close>

lemma ini_line_start:
  assumes "drop i d = line @ CHR 0x0A # r" "line \<noteq> []" "\<not> isspace (hd line)" "hd line \<noteq> CHR '';''"
  shows "ini_loop d i sec p =
    (case ini_line d i \<lparr>ivalue = None, ivsize = 0, iksize = 0, iquote = None\<rparr> of
       (i', st) \<Rightarrow> (case ini_entry d i st sec of (sec', key, v) \<Rightarrow> ini_loop d i' sec' (setParameter key v p)))"
proof -
  have 0: "takeWhile isspace (drop i d) = []" using assms by (cases line) auto
  have i: "i < length d"
  proof (rule ccontr)
    assume "\<not> i < length d"
    then show False using assms(1) by simp
  qed
  have "d ! i = hd (drop i d)" using i by (simp add: hd_drop_conv_nth)
  then have "d ! i = hd line" unfolding assms(1) using assms(2) by simp
  then show ?thesis using assms(4) i by (simp add: ini_loop.simps [of d i] 0)
qed

lemma after_line:
  assumes "drop i d = line @ CHR 0x0A # r"
  shows "slice d i (length line) = line" "d ! (i + length line) = CHR 0x0A" "drop (i + length line) d = CHR 0x0A # r"
    "drop (Suc (i + length line)) d = r"
proof -
  have dr: "drop (i + length line) d = drop (length line) (drop i d)" by (simp add: add.commute)
  show 3: "drop (i + length line) d = CHR 0x0A # r" unfolding dr assms by simp
  show "slice d i (length line) = line" by (simp add: slice_def assms)
  have "i + length line < length d" using 3 by (cases "i + length line < length d") auto
  then have "d ! (i + length line) = hd (drop (i + length line) d)" by (simp add: hd_drop_conv_nth)
  then show "d ! (i + length line) = CHR 0x0A" unfolding 3 by simp
  show "drop (Suc (i + length line)) d = r" using 3 by (simp add: drop_Suc tl_drop [symmetric])
qed

lemma ini_name_newline: "ini_name s \<Longrightarrow> c \<in> set s \<Longrightarrow> c \<noteq> CHR 0x0A"
proof
  assume "ini_name s" "c \<in> set s" "c = CHR 0x0A"
  then have "\<not> isspace (CHR 0x0A)" unfolding ini_name_def by blast
  then show False by (simp only: isspace_newline not_True_eq_False)
qed

lemma ini_section_step:
  assumes d: "drop i d = ini_section_line name @ CHR 0x0A # r" and n: "ini_name name"
  shows "ini_loop d i sec p = ini_loop d (Suc (i + length (ini_section_line name))) name (setParameter name [] p)"
proof -
  let ?l = "ini_section_line name"
  note a = after_line [OF d]
  have br: "\<not> isspace (CHR ''['')" "\<not> isspace (CHR '']'')" "\<not> quote_char (CHR ''['')" "\<not> quote_char (CHR '']'')"
    by (simp_all add: isspace_iff code_def quote_char_def)
  have nl: "c \<noteq> CHR 0x0A" if "c \<in> set name" for c using ini_name_newline [OF n that] .
  have pl: "\<forall>c \<in> set ?l. c \<noteq> CHR 0x0A \<and> \<not> quote_char c \<and> c \<noteq> CHR ''=''"
    using n nl br by (auto simp: ini_section_line_def ini_name_def)
  let ?st = "\<lparr>ivalue = None, ivsize = 0, iksize = length ?l, iquote = None\<rparr>"
  have line: "ini_line d i \<lparr>ivalue = None, ivsize = 0, iksize = 0, iquote = None\<rparr> = (i + length ?l, ?st)"
    using ini_line_key [OF a(1) pl, of "\<lparr>ivalue = None, ivsize = 0, iksize = 0, iquote = None\<rparr>"] ini_line_end [OF a(2)]
    by simp
  have k: "TrimRight ?l = ?l" using br by (intro TrimRight_id) (simp add: ini_section_line_def)
  have e: "ini_entry d i ?st sec = (name, name, [])"
  proof -
    have b: "butlast (tl ?l) = name" "hd ?l = CHR ''[''" "last ?l = CHR '']''" "?l \<noteq> []"
      by (simp_all add: ini_section_line_def)
    have u: "unquote name = name" using n by (intro unquote_plain) (auto simp: ini_name_def)
    have t: "Trim [] = []" "unquote [] = []" by (simp_all add: Trim_def TrimRight_def unquote_def)
    show ?thesis unfolding ini_entry_def Let_def using a(1) k b u t by simp
  qed
  have "ini_loop d i sec p = ini_loop d (i + length ?l) name (setParameter name [] p)"
    using ini_line_start [OF d, of sec p] br line e by (simp add: ini_section_line_def)
  then show ?thesis using ini_loop_newline [OF a(3)] by simp
qed

lemma ini_pair_step:
  assumes d: "drop i d = ini_pair_line (k, v) @ CHR 0x0A # r" and n: "ini_name k" and v: "ini_value v"
  shows "ini_loop d i sec p =
    ini_loop d (Suc (i + length (ini_pair_line (k, v)))) sec (setParameter (sec @ CHR ''.'' # k) v p)"
proof -
  let ?l = "ini_pair_line (k, v)"
  let ?z = "\<lparr>ivalue = None, ivsize = 0, iksize = 0, iquote = None\<rparr>"
  note a = after_line [OF d]
  have nl: "c \<noteq> CHR 0x0A" if "c \<in> set k" for c using ini_name_newline [OF n that] .
  have s1: "slice d i (length k) = k" "slice d (i + length k) (length (CHR ''='' # v)) = CHR ''='' # v"
    using slice_parts [of d i k "CHR ''='' # v"] a(1) by (simp_all add: ini_pair_line_def)
  have eq: "i + length k < length d \<and> d ! (i + length k) = CHR ''='' \<and> slice d (Suc (i + length k)) (length v) = v"
    using slice_Cons [of d "i + length k" "length v"] s1(2) by simp
  have q: "\<not> quote_char (CHR ''='')" by (simp add: quote_char_def)
  have "ini_line d i ?z = ini_line d (i + length k) (?z\<lparr>iksize := length k\<rparr>)"
    using ini_line_key [OF s1(1), of ?z] n nl by (auto simp: ini_name_def)
  also have "\<dots> = ini_line d (Suc (i + length k)) (?z\<lparr>iksize := length k, ivalue := Some (Suc (i + length k))\<rparr>)"
    using eq q by (simp add: ini_line.simps [of d "i + length k"] ini_char_plain)
  also have "\<dots> = ini_line d (Suc (i + length k) + length v)
      (?z\<lparr>iksize := length k, ivalue := Some (Suc (i + length k)), ivsize := length v\<rparr>)"
    using ini_line_value [of d "Suc (i + length k)" v "?z\<lparr>iksize := length k, ivalue := Some (Suc (i + length k))\<rparr>"] eq v
    by (auto simp: ini_value_def)
  finally have line: "ini_line d i ?z = (i + length ?l,
      \<lparr>ivalue = Some (Suc (i + length k)), ivsize = length v, iksize = length k, iquote = None\<rparr>)"
    using ini_line_end [OF a(2)] by (simp add: ini_pair_line_def add.assoc)
  have k: "TrimRight k = k" "unquote k = k" "hd k \<noteq> CHR ''[''"
  proof -
    have f: "\<forall>c \<in> set k. \<not> isspace c \<and> \<not> quote_char c" "k \<noteq> []" "hd k \<noteq> CHR ''[''"
      using n unfolding ini_name_def by blast+
    then have "\<not> isspace (last k)" "\<not> quote_char (hd k)" by simp_all
    then show "TrimRight k = k" "unquote k = k" "hd k \<noteq> CHR ''[''" using TrimRight_id unquote_plain f(3) by blast+
  qed
  have t: "Trim v = v" "unquote v = v"
  proof -
    have "v \<noteq> [] \<longrightarrow> \<not> isspace (hd v) \<and> \<not> isspace (last v)" "v \<noteq> [] \<longrightarrow> \<not> quote_char (hd v)"
      using v hd_in_set unfolding ini_value_def by blast+
    then show "Trim v = v" "unquote v = v" using Trim_id unquote_plain by blast+
  qed
  have e: "ini_entry d i \<lparr>ivalue = Some (Suc (i + length k)), ivsize = length v, iksize = length k, iquote = None\<rparr> sec =
      (sec, sec @ CHR ''.'' # k, v)"
    using k t s1(1) eq by (simp add: ini_entry_def Let_def)
  have "\<not> isspace (hd k)" "hd k \<noteq> CHR '';''" "k \<noteq> []" using n by (auto simp: ini_name_def)
  then have "ini_loop d i sec p = ini_loop d (i + length ?l) sec (setParameter (sec @ CHR ''.'' # k) v p)"
    using ini_line_start [OF d, of sec p] line e by (simp add: ini_pair_line_def)
  then show ?thesis using ini_loop_newline [OF a(3)] by simp
qed

definition set_all :: "(string \<times> string) list \<Rightarrow> parameters \<Rightarrow> parameters" where
  "set_all sets = fold (\<lambda>(k, v). setParameter k v) sets"

lemma set_all_append: "set_all (a @ b) p = set_all b (set_all a p)"
  by (simp add: set_all_def)

lemma drop_after: "drop i d = a @ r \<Longrightarrow> drop (i + length a) d = r"
proof -
  assume a: "drop i d = a @ r"
  have "drop (i + length a) d = drop (length a) (drop i d)" by (simp add: add.commute)
  then show ?thesis unfolding a by simp
qed

lemma ini_pairs:
  assumes "drop i d = concat (List.map (\<lambda>p. ini_pair_line p @ [CHR 0x0A]) pairs) @ r"
    "\<forall>(k, v) \<in> set pairs. ini_name k \<and> ini_value v"
  shows "ini_loop d i sec p = ini_loop d (i + length (concat (List.map (\<lambda>p. ini_pair_line p @ [CHR 0x0A]) pairs))) sec
    (set_all (List.map (\<lambda>(k, v). (sec @ CHR ''.'' # k, v)) pairs) p)"
  using assms
proof (induction pairs arbitrary: i p)
  case (Cons x pairs)
  obtain k v where x: "x = (k, v)" by fastforce
  let ?r = "concat (List.map (\<lambda>p. ini_pair_line p @ [CHR 0x0A]) pairs) @ r"
  have d: "drop i d = ini_pair_line (k, v) @ CHR 0x0A # ?r" using Cons.prems(1) x by simp
  have d': "drop (Suc (i + length (ini_pair_line (k, v)))) d = ?r" using after_line(4) [OF d] .
  have ok: "ini_name k" "ini_value v" "\<forall>(k, v) \<in> set pairs. ini_name k \<and> ini_value v"
    using Cons.prems(2) x by auto
  show ?case
    using ini_pair_step [OF d ok(1,2), of sec p] Cons.IH [OF d' ok(3)] x by (simp add: set_all_def add.assoc)
qed (simp add: set_all_def)

lemma ini_sections:
  assumes "drop i d = write_ini sections" "list_all section_ok sections"
  shows "ini_loop d i sec p = set_all (concat (List.map section_sets sections)) p"
  using assms
proof (induction sections arbitrary: i sec p)
  case Nil
  have "i \<ge> length d" using Nil.prems(1) by (simp add: write_ini_def)
  then show ?case by (simp add: ini_loop.simps [of d i] set_all_def)
next
  case (Cons x sections)
  obtain name pairs where x: "x = (name, pairs)" by fastforce
  let ?ps = "concat (List.map (\<lambda>p. ini_pair_line p @ [CHR 0x0A]) pairs)"
  have d: "drop i d = ini_section_line name @ CHR 0x0A # (?ps @ write_ini sections)"
    using Cons.prems(1) x by (simp add: write_ini_def write_section_def)
  have ok: "ini_name name" "\<forall>(k, v) \<in> set pairs. ini_name k \<and> ini_value v" "list_all section_ok sections"
    using Cons.prems(2) x by (auto simp: section_ok_def)
  note d2 = after_line(4) [OF d]
  note d3 = drop_after [OF d2]
  show ?case
    using ini_section_step [OF d ok(1), of sec p] ini_pairs [OF d2 ok(2)] Cons.IH [OF d3 ok(3)] x
    by (simp add: section_sets_def set_all_append) (simp add: set_all_def)
qed

text \<open>
  C14: An ini file written from sections of pairs sets each section and each of its pairs, under the name of the
  section, a dot and the key, in the order of the file, and nothing else. Names have no space, quote or equal sign
  and do not start a comment or a section; values have no newline or quote, and no space at their ends.
\<close>

theorem ini_file_back:
  assumes "list_all section_ok sections"
  shows "ParseIniFile (Some (write_ini sections)) p = (True, set_all (concat (List.map section_sets sections)) p)"
proof (cases "write_ini sections = []")
  case True
  then have "sections = []" by (cases sections) (auto simp: write_ini_def write_section_def ini_section_line_def)
  then show ?thesis using True by (simp add: ParseIniFile_def set_all_def)
next
  case False
  then show ?thesis using ini_sections [of 0 "write_ini sections" sections "[]" p] assms by (simp add: ParseIniFile_def)
qed

theorem ini_file_back_witness:
  "ParseIniFile (Some (write_ini [(''rtmp'', [(''port'', ''1935''), (''name'', ''a = b'')])])) Parameters =
     (True, set_all (concat (List.map section_sets [(''rtmp'', [(''port'', ''1935''), (''name'', ''a = b'')])])) Parameters)"
proof (rule ini_file_back)
  show "list_all section_ok [(''rtmp'', [(''port'', ''1935''), (''name'', ''a = b'')])]"
    by (simp add: section_ok_def ini_name_def ini_value_def isspace_iff code_def quote_char_def)
qed

text \<open>A key before any section is stored with a dot before it.\<close>

lemma ini_root_key: "params (snd (ParseIniFile (Some ''port=80'') Parameters)) = [(''.port'', ''80'')]"
  by code_simp

text \<open>A quote on each side of an equal sign of a value joins the key and the value.\<close>

lemma ini_apostrophes: "params (snd (ParseIniFile (Some ''user's=John's'') Parameters)) = [(''.user's=John's'', [])]"
  by code_simp

end
