(* ===== verification/Paths.thy ===== *)
theory Paths
  imports Strings
begin

text \<open>
  The path algebra of Mona/Disk/FileSystem.cpp, outside Windows: \<open>GetFile\<close> (the last name of a path and its
  parent, seen through the dots), \<open>Resolve\<close> (the absolute path), \<open>IsFolder\<close>, \<open>IsAbsolute\<close> and the \<open>Make\<close> functions.
  The current directory is a parameter, \<open>dirs\<close> (\<open>CurrentDirs\<close>, the root first). A path is a text without a 0. The
  level of the scan is a natural number; \<open>GetFile16\<close> is the scan with the 16 bits of the code, which answers the same
  for every path of less than 65535 characters.
  The lemmas show that the backward scan of \<open>GetFile\<close> finds what the components of the path, read
  forward on a stack, leave on top, and that \<open>Resolve\<close> is the normal form of a path.
\<close>

section \<open>Files and folders\<close>

definition is_slash :: "char \<Rightarrow> bool" where
  "is_slash c \<longleftrightarrow> c = CHR ''/'' \<or> c = CHR 0x5C"

datatype path_type = TYPE_FILE | TYPE_FOLDER

definition IsAbsolute :: "string \<Rightarrow> bool" where
  "IsAbsolute path \<longleftrightarrow> path \<noteq> [] \<and> hd path = CHR ''/''"

definition IsFolder :: "string \<Rightarrow> bool" where
  "IsFolder path =
     (let n = length path
      in if n = 0 then True
         else if is_slash (path ! (n - 1)) then True
         else if path ! (n - 1) \<noteq> CHR ''.'' then False
         else if n = 1 then True
         else if is_slash (path ! (n - 2)) then True
         else if n = 2 \<or> is_slash (path ! (n - 3)) then path ! (n - 2) = CHR ''.''
         else False)"

definition MakeFolder :: "string \<Rightarrow> string" where
  "MakeFolder path = (if path \<noteq> [] \<and> \<not> is_slash (last path) then path @ ''/'' else path)"

definition MakeFile :: "string \<Rightarrow> string" where
  "MakeFile path = (if path = [] then ''.'' else rev (dropWhile is_slash (rev path)))"

definition MakeAbsolute :: "string \<Rightarrow> string" where
  "MakeAbsolute path = (if IsAbsolute path then path else CHR ''/'' # path)"

definition MakeRelative :: "string \<Rightarrow> string" where
  "MakeRelative path = dropWhile is_slash path"

section \<open>The last name of a path\<close>

record scan =
  fsize :: nat
  fdots :: bool
  flevel :: nat
  fext :: "nat option"
  ffirst :: bool
  ftype :: path_type

definition scan_start :: scan where
  "scan_start = \<lparr>fsize = 0, fdots = True, flevel = 1, fext = None, ffirst = True, ftype = TYPE_FOLDER\<rparr>"

text \<open>A separator: None when the scan stops on it.\<close>

definition scan_slash :: "scan \<Rightarrow> scan option" where
  "scan_slash st =
     (let st = (if ffirst st then st\<lparr>ftype := TYPE_FOLDER, ffirst := False\<rparr> else st)
      in if fsize st = 0 then Some st
         else if fdots st then Some (st\<lparr>flevel := flevel st + fsize st, fsize := 0\<rparr>)
         else if flevel st = 0 then None
         else Some (st\<lparr>fdots := True, fext := None, fsize := 0\<rparr>))"

definition scan_char :: "char \<Rightarrow> scan \<Rightarrow> scan" where
  "scan_char c st =
     (let st = (if ffirst st then st\<lparr>ftype := TYPE_FILE, ffirst := False\<rparr> else st)
      in if \<not> fdots st \<and> flevel st \<noteq> 0 then st
         else
           (let st = st\<lparr>flevel := (if fsize st = 0 then flevel st - 1 else flevel st), fsize := fsize st + 1\<rparr>
            in if fext st = None \<and> c = CHR ''.'' then
                 (if fdots st then (if fsize st < 3 then st else st\<lparr>fext := Some 1, fdots := False\<rparr>)
                  else st\<lparr>fext := Some (fsize st), fdots := False\<rparr>)
               else st\<lparr>fdots := False\<rparr>))"

text \<open>The scan goes backward: over the reversed path; what is left starts with the separator it stops on.\<close>

fun scan_loop :: "string \<Rightarrow> scan \<Rightarrow> string \<times> scan" where
  "scan_loop [] st = ([], st)"
| "scan_loop (c # rp) st =
     (if is_slash c then (case scan_slash st of None \<Rightarrow> (c # rp, st) | Some st \<Rightarrow> scan_loop rp st)
      else scan_loop rp (scan_char c st))"

text \<open>
  \<open>GetFile\<close>: the position of the name (None for NULL), its size, the position of its extension, the type,
  and the position of the parent, less than 0 for levels up.
\<close>

record file_answer =
  gpos :: "nat option"
  gsize :: nat
  gext :: "nat option"
  gtype :: path_type
  gparent :: int

definition parent_pos :: "string \<Rightarrow> int" where
  "parent_pos rp = int (length (dropWhile is_slash rp)) - 1 + (if rp \<noteq> [] \<and> is_slash (hd rp) then 2 else 1)"

definition GetFile :: "string \<Rightarrow> file_answer" where
  "GetFile path =
     (case scan_loop (rev path) scan_start of
        (rp, st) \<Rightarrow>
          (let level = (if fdots st then flevel st + fsize st else flevel st)
           in if level \<noteq> 0 then
                (if IsAbsolute path then
                   \<lparr>gpos = Some 1, gsize = 0, gext = fext st, gtype = ftype st, gparent = 1\<rparr>
                 else \<lparr>gpos = None, gsize = 0, gext = fext st, gtype = ftype st, gparent = - int level\<rparr>)
              else
                \<lparr>gpos = Some (length rp), gsize = fsize st, gext = map_option (\<lambda>e. fsize st - e) (fext st),
                 gtype = ftype st, gparent = parent_pos rp\<rparr>))"

definition levels_up :: "nat \<Rightarrow> string" where
  "levels_up n = concat (replicate n ''../'')"

definition name_of :: "string \<Rightarrow> file_answer \<Rightarrow> string" where
  "name_of path g = (case gpos g of None \<Rightarrow> [] | Some i \<Rightarrow> take (gsize g) (drop i path))"

definition parent_of :: "string \<Rightarrow> file_answer \<Rightarrow> string" where
  "parent_of path g = (if gparent g \<le> 0 then levels_up (nat (- gparent g)) else take (nat (gparent g)) path)"

text \<open>\<open>GetFile\<close> with the name, the extension and the parent.\<close>

definition GetFile_parts :: "string \<Rightarrow> path_type \<times> string \<times> nat option \<times> string" where
  "GetFile_parts path = (let g = GetFile path in (gtype g, name_of path g, gext g, parent_of path g))"

definition GetName :: "string \<Rightarrow> string" where
  "GetName path = name_of path (GetFile path)"

text \<open>\<open>erase(extPos)\<close> throws after the end.\<close>

definition GetBaseName :: "string \<Rightarrow> string option" where
  "GetBaseName path =
     (let g = GetFile path; name = name_of path g
      in case gext g of None \<Rightarrow> Some name | Some e \<Rightarrow> (if e > length name then None else Some (take e name)))"

definition GetExtension :: "string \<Rightarrow> string" where
  "GetExtension path = (let g = GetFile path in case gext g of None \<Rightarrow> [] | Some e \<Rightarrow> drop (e + 1) (name_of path g))"

definition GetParent :: "string \<Rightarrow> string" where
  "GetParent path = parent_of path (GetFile path)"

section \<open>The current directory and \<open>Resolve\<close>\<close>

text \<open>\<open>CurrentDirs\<close>, from what \<open>getcwd\<close> gives.\<close>

definition CurrentDirs :: "string \<Rightarrow> string list" where
  "CurrentDirs current =
     foldl (\<lambda>dirs value'. dirs @ [last dirs @ value' @ ''/'']) [''/''] (Split_list current [CHR ''/'', CHR 0x5C] True False)"

definition resolve_relative ::
  "string list \<Rightarrow> string \<Rightarrow> file_answer \<Rightarrow> string \<Rightarrow> string option" where
  "resolve_relative dirs path g newPath =
     (let pos = nat (max 0 (gparent g + int (length dirs) - 1)) + 1
      in if pos < length dirs then
           Some (if gtype g = TYPE_FILE then MakeFile (dirs ! pos @ newPath) else dirs ! pos @ newPath)
         else
           (let n = (if newPath \<noteq> [] then gsize g + 1 else gsize g);
                rest = (if newPath = [] \<and> gtype g = TYPE_FOLDER then ''/'' else newPath)
            in case gpos g of
                 None \<Rightarrow> (if n = 0 then Some (dirs ! (pos - 1) @ rest) else None)
               | Some i \<Rightarrow> Some (dirs ! (pos - 1) @ take n (drop i path) @ rest)))"

text \<open>The answer inside is None when the code reads at NULL.\<close>

partial_function (option) resolve_loop ::
  "string list \<Rightarrow> string \<Rightarrow> path_type \<Rightarrow> string \<Rightarrow> string option option" where
  "resolve_loop dirs path type newPath =
     (let path = (if type = TYPE_FILE then path @ ''.'' else path); g = GetFile path
      in if gparent g \<le> 0 then Some (resolve_relative dirs path g newPath)
         else
           (let newPath = (if gsize g = 0 then newPath
                           else name_of path g @ (if newPath = [] then [] else CHR ''/'' # newPath));
                path = take (nat (gparent g)) path
            in if gsize g \<noteq> 0 then resolve_loop dirs path (gtype g) newPath
               else Some (Some (path @ (if newPath \<noteq> [] then (if gtype g = TYPE_FOLDER then newPath @ ''/'' else newPath)
                                        else if gtype g = TYPE_FILE then ''.'' else [])))))"

definition Resolve :: "string list \<Rightarrow> string \<Rightarrow> string option option" where
  "Resolve dirs path = resolve_loop dirs path TYPE_FOLDER []"

section \<open>Components\<close>

fun splits :: "string \<Rightarrow> string list" where
  "splits [] = [[]]"
| "splits (c # s) = (if is_slash c then [] # splits s else (case splits s of w # ws \<Rightarrow> (c # w) # ws | [] \<Rightarrow> []))"

text \<open>The components of a path.\<close>

definition comps :: "string \<Rightarrow> string list" where
  "comps p = filter (\<lambda>w. w \<noteq> []) (splits p)"

text \<open>Components read forward: how many levels up, and the names, the last one first.\<close>

definition push :: "nat \<times> string list \<Rightarrow> string \<Rightarrow> nat \<times> string list" where
  "push = (\<lambda>(up, names) w.
     if w = ''.'' then (up, names)
     else if w = ''..'' then (case names of [] \<Rightarrow> (up + 1, []) | _ # rest \<Rightarrow> (up, rest))
     else (up, w # names))"

definition normal :: "string list \<Rightarrow> nat \<times> string list" where
  "normal ws = foldl push (0, []) ws"

text \<open>Components read backward, as the scan does: \<open>lv\<close> is one more than the names to skip.\<close>

fun last_name :: "nat \<Rightarrow> string list \<Rightarrow> nat \<times> (string \<times> string list) option" where
  "last_name lv [] = (lv, None)"
| "last_name lv (w # ws) =
     (if w = ''.'' then last_name lv ws
      else if w = ''..'' then last_name (lv + 1) ws
      else if lv = 1 then (0, Some (w, ws))
      else last_name (lv - 1) ws)"

lemma normal_snoc: "normal (ws @ [w]) = push (normal ws) w"
  by (simp add: normal_def)

lemma last_name_normal:
  "case normal ws of (up, names) \<Rightarrow>
     (if k < length names
      then \<exists>rest. last_name (Suc k) (rev ws) = (0, Some (names ! k, rest)) \<and> normal (rev rest) = (up, drop (Suc k) names)
      else last_name (Suc k) (rev ws) = (Suc k - length names + up, None))"
proof (induction ws arbitrary: k rule: rev_induct)
  case Nil
  then show ?case by (simp add: normal_def)
next
  case (snoc w ws)
  obtain up names where n: "normal ws = (up, names)" by fastforce
  consider "w = ''.''" | "w = ''..''" | "w \<noteq> ''.''" "w \<noteq> ''..''" by blast
  then show ?case
  proof cases
    case 1
    then show ?thesis using snoc.IH [of k] by (simp add: normal_snoc n push_def)
  next
    case 2
    then show ?thesis using snoc.IH [of "Suc k"] by (cases names) (auto simp: normal_snoc n push_def)
  next
    case 3
    show ?thesis
    proof (cases k)
      case 0
      then show ?thesis using 3 n by (simp add: normal_snoc push_def)
    next
      case (Suc j)
      then show ?thesis using 3 n snoc.IH [of j] by (simp add: normal_snoc push_def)
    qed
  qed
qed

lemma splits_not_Nil [simp]: "splits s \<noteq> []"
  by (induction s) (auto split: list.splits)

lemma splits_append: "is_slash c \<Longrightarrow> splits (a @ c # b) = splits a @ splits b"
proof (induction a)
  case (Cons x a)
  then show ?case by (cases "splits a") auto
qed simp

lemma splits_word: "\<forall>c \<in> set w. \<not> is_slash c \<Longrightarrow> splits w = [w]"
  by (induction w) auto

lemma comps_append: "is_slash c \<Longrightarrow> comps (a @ c # b) = comps a @ comps b"
  by (simp add: comps_def splits_append)

lemma comps_word: "\<forall>c \<in> set w. \<not> is_slash c \<Longrightarrow> comps w = (if w = [] then [] else [w])"
  by (simp add: comps_def splits_word)

text \<open>A path is empty, ends with a separator, or with a component.\<close>

lemma path_cases:
  obtains "p = []" | a c where "p = a @ [c]" "is_slash c"
    | w where "p = w" "w \<noteq> []" "\<forall>c \<in> set w. \<not> is_slash c"
    | a c w where "p = a @ c # w" "is_slash c" "w \<noteq> []" "\<forall>c \<in> set w. \<not> is_slash c"
proof -
  let ?w = "rev (takeWhile (\<lambda>c. \<not> is_slash c) (rev p))" and ?r = "dropWhile (\<lambda>c. \<not> is_slash c) (rev p)"
  have "rev (takeWhile (\<lambda>c. \<not> is_slash c) (rev p) @ ?r) = rev (rev p)" by (simp only: takeWhile_dropWhile_id)
  then have p: "p = rev ?r @ ?w" by (simp only: rev_append rev_rev_ident)
  have w: "\<forall>c \<in> set ?w. \<not> is_slash c" by (auto dest: set_takeWhileD)
  show thesis
  proof (cases ?r)
    case Nil
    then show ?thesis using p w that(1,3) by (cases "?w = []") auto
  next
    case (Cons c r)
    have c: "is_slash c" using Cons hd_dropWhile [of "\<lambda>c. \<not> is_slash c" "rev p"] by simp
    have q: "p = rev r @ c # ?w" using p Cons by simp
    show ?thesis
    proof (cases "?w = []")
      case True
      then have "p = rev r @ [c]" using q by simp
      then show ?thesis using that(2) c by blast
    next
      case False
      then show ?thesis using that(4) [OF q c _ w] by blast
    qed
  qed
qed

section \<open>The scan and the components\<close>

text \<open>Where a component may begin or end.\<close>

definition between :: "nat \<Rightarrow> scan \<Rightarrow> bool" where
  "between lv st \<longleftrightarrow> fsize st = 0 \<and> fdots st \<and> flevel st = lv \<and> fext st = None \<and> \<not> ffirst st"

definition slash_free :: "string \<Rightarrow> bool" where
  "slash_free w \<longleftrightarrow> (\<forall>c \<in> set w. \<not> is_slash c)"

lemma scan_loop_word: "slash_free w \<Longrightarrow> scan_loop (w @ rp) st = scan_loop rp (fold scan_char w st)"
  by (induction w arbitrary: st) (auto simp: slash_free_def)

text \<open>A name to skip: after its last characters, dots perhaps, nothing changes.\<close>

lemma scan_skip: "\<not> fdots st \<Longrightarrow> flevel st \<noteq> 0 \<Longrightarrow> \<not> ffirst st \<Longrightarrow> fold scan_char w st = st"
  by (induction w) (auto simp: scan_char_def)

lemma dots_cases:
  assumes w: "w \<noteq> []" "w \<noteq> ''.''" "w \<noteq> ''..''"
  obtains c w' where "w = c # w'" "c \<noteq> CHR ''.''"
    | c w' where "w = CHR ''.'' # c # w'" "c \<noteq> CHR ''.''"
    | c w' where "w = CHR ''.'' # CHR ''.'' # c # w'"
proof -
  obtain a v where a: "w = a # v" using w(1) by (cases w) auto
  show thesis
  proof (cases "a = CHR ''.''")
    case True
    then obtain b u where b: "v = b # u" using w(2) a by (cases v) auto
    show ?thesis
    proof (cases "b = CHR ''.''")
      case b': True
      then obtain c x where "u = c # x" using w(3) a b True by (cases u) auto
      then show ?thesis using that(3) a b True b' by simp
    qed (use that(2) a b True in simp)
  qed (use that(1) a in simp)
qed

text \<open>
  The dot of the extension, counted from the end of a name that is read backward: the first one met, but not the one
  or two dots it starts with; three or more count.
\<close>

definition rev_ext :: "string \<Rightarrow> nat option" where
  "rev_ext v =
     (let t = length (takeWhile (\<lambda>c. c = CHR ''.'') v); k = (if t \<le> 2 then t else 0); u = drop k v
      in if CHR ''.'' \<in> set u then Some (Suc (k + length (takeWhile (\<lambda>c. c \<noteq> CHR ''.'') u))) else None)"

definition next_dot :: "nat option \<Rightarrow> nat \<Rightarrow> string \<Rightarrow> nat option" where
  "next_dot e n w =
     (case e of
        Some e \<Rightarrow> Some e
      | None \<Rightarrow> if CHR ''.'' \<in> set w then Some (Suc (n + length (takeWhile (\<lambda>c. c \<noteq> CHR ''.'') w))) else None)"

lemma rev_ext_append:
  assumes "v \<noteq> []" "v \<noteq> ''.''" "v \<noteq> ''..''"
  shows "rev_ext (v @ w) = next_dot (rev_ext v) (length v) w"
  using assms
proof (cases rule: dots_cases [OF assms])
  case (1 c v')
  then show ?thesis by (auto simp: rev_ext_def next_dot_def takeWhile_append split: if_splits)
next
  case (2 c v')
  then show ?thesis by (auto simp: rev_ext_def next_dot_def takeWhile_append split: if_splits)
next
  case (3 c v')
  then show ?thesis by (cases "c = CHR ''.''") (auto simp: rev_ext_def next_dot_def takeWhile_append split: if_splits)
qed

lemma rev_ext_bounds: "rev_ext v = Some e \<Longrightarrow> 0 < e \<and> e \<le> length v \<and> v ! (e - 1) = CHR ''.''"
proof -
  assume e: "rev_ext v = Some e"
  define t where "t = length (takeWhile (\<lambda>c. c = CHR ''.'') v)"
  define k where "k = (if t \<le> 2 then t else 0)"
  let ?u = "drop k v" and ?P = "\<lambda>c. c \<noteq> CHR ''.''"
  have u: "CHR ''.'' \<in> set ?u" "e = Suc (k + length (takeWhile ?P ?u))"
    using e by (auto simp: rev_ext_def Let_def k_def t_def split: if_splits)
  have "takeWhile ?P ?u \<noteq> ?u" using u(1) by (auto simp: takeWhile_eq_all_conv)
  then have "length (takeWhile ?P ?u) \<noteq> length ?u" by (metis takeWhile_eq_take take_all order_refl)
  then have "length (takeWhile ?P ?u) < length ?u" using length_takeWhile_le [of ?P ?u] by linarith
  moreover from this have "\<not> ?P (?u ! length (takeWhile ?P ?u))" by (rule nth_length_takeWhile)
  moreover have "k \<le> length v" by (simp add: k_def t_def length_takeWhile_le)
  ultimately show ?thesis using u(2) by (simp add: nth_drop)
qed

lemma scan_take:
  "\<not> fdots st \<Longrightarrow> flevel st = 0 \<Longrightarrow> \<not> ffirst st \<Longrightarrow> fsize st \<noteq> 0 \<Longrightarrow>
    fold scan_char w st = st\<lparr>fsize := fsize st + length w, fext := next_dot (fext st) (fsize st) w\<rparr>"
proof (induction w arbitrary: st)
  case Nil
  then show ?case by (cases st) (auto simp: next_dot_def split: option.split)
next
  case (Cons c w)
  define x where "x = (if fext st = None \<and> c = CHR ''.'' then Some (fsize st + 1) else fext st)"
  have e: "scan_char c st = st\<lparr>fsize := fsize st + 1, fext := x\<rparr>"
    unfolding x_def using Cons.prems by (cases st) (auto simp: scan_char_def Let_def)
  show ?case using Cons.IH [of "st\<lparr>fsize := fsize st + 1, fext := x\<rparr>"] Cons.prems
    by (auto simp: e x_def next_dot_def split: option.split)
qed

text \<open>The characters of a component, from its end.\<close>

definition ext_ok :: "string \<Rightarrow> scan \<Rightarrow> bool" where
  "ext_ok w st \<longleftrightarrow> fext st = rev_ext w"

lemma scan_rest:
  assumes "\<not> fdots st" "flevel st = lv" "\<not> ffirst st" "fsize st = length v" "v \<noteq> []" "v \<noteq> ''.''" "v \<noteq> ''..''" "ext_ok v st"
    "ftype st = t"
  shows "\<exists>st'. fold scan_char w st = st' \<and> \<not> fdots st' \<and> flevel st' = lv \<and> \<not> ffirst st' \<and> ftype st' = t \<and>
    fsize st' \<noteq> 0 \<and> (lv = 0 \<longrightarrow> fsize st' = length (v @ w) \<and> ext_ok (v @ w) st')"
proof (cases "lv = 0")
  case True
  have "fold scan_char w st = st\<lparr>fsize := length v + length w, fext := next_dot (rev_ext v) (length v) w\<rparr>"
    using scan_take [of st w] assms True by (simp add: ext_ok_def)
  then show ?thesis using assms True rev_ext_append [OF assms(5-7)] by (simp add: ext_ok_def)
next
  case False
  then show ?thesis using scan_skip [of st w] assms by simp
qed

lemma scan_dots:
  assumes "between (Suc lv) st"
  shows "fold scan_char ''.'' st = st\<lparr>flevel := lv, fsize := 1\<rparr>" "fold scan_char ''..'' st = st\<lparr>flevel := lv, fsize := 2\<rparr>"
proof -
  have 1: "scan_char (CHR ''.'') st = st\<lparr>flevel := lv, fsize := 1\<rparr>"
    using assms unfolding scan_char_def between_def by simp
  have 2: "scan_char (CHR ''.'') (st\<lparr>flevel := lv, fsize := 1\<rparr>) = st\<lparr>flevel := lv, fsize := 2\<rparr>"
    using assms unfolding scan_char_def between_def by simp
  show "fold scan_char ''.'' st = st\<lparr>flevel := lv, fsize := 1\<rparr>" using 1 by simp
  show "fold scan_char ''..'' st = st\<lparr>flevel := lv, fsize := 2\<rparr>" using 1 2 by simp
qed

lemma scan_name:
  assumes st: "between (Suc lv) st" and w: "w \<noteq> []" "w \<noteq> ''.''" "w \<noteq> ''..''"
  shows "\<exists>st'. fold scan_char w st = st' \<and> \<not> fdots st' \<and> flevel st' = lv \<and> \<not> ffirst st' \<and> ftype st' = ftype st \<and>
    fsize st' \<noteq> 0 \<and> (lv = 0 \<longrightarrow> fsize st' = length w \<and> ext_ok w st')"
proof -
  consider c w' where "w = [c] @ w'" "c \<noteq> CHR ''.''"
    | c w' where "w = [CHR ''.'', c] @ w'" "c \<noteq> CHR ''.''"
    | c w' where "w = [CHR ''.'', CHR ''.'', c] @ w'"
    using dots_cases [OF w] by (metis append_Cons append_Nil)
  then show ?thesis
  proof cases
    case 1
    have f: "\<not> fdots (scan_char c st)" "flevel (scan_char c st) = lv" "\<not> ffirst (scan_char c st)"
      "fsize (scan_char c st) = length [c]" "[c] \<noteq> []" "[c] \<noteq> ''.''" "[c] \<noteq> ''..''" "ext_ok [c] (scan_char c st)" "ftype (scan_char c st) = ftype st"
      using st 1(2) by (auto simp: scan_char_def between_def Let_def ext_ok_def rev_ext_def)
    from scan_rest [OF this, of w'] show ?thesis unfolding 1(1) by simp
  next
    case 2
    let ?s = "scan_char c (scan_char (CHR ''.'') st)"
    have e: "?s = scan_char c (st\<lparr>flevel := lv, fsize := 1\<rparr>)" using scan_dots(1) [OF st] by simp
    have "\<not> fdots ?s" "flevel ?s = lv" "\<not> ffirst ?s" "fsize ?s = length [CHR ''.'', c]" "[CHR ''.'', c] \<noteq> []"
      "[CHR ''.'', c] \<noteq> ''.''" "[CHR ''.'', c] \<noteq> ''..''" "ext_ok [CHR ''.'', c] ?s" "ftype ?s = ftype st"
      unfolding e using st 2(2) by (simp_all add: scan_char_def between_def Let_def ext_ok_def rev_ext_def)
    from scan_rest [OF this, of w'] show ?thesis unfolding 2(1) by simp
  next
    case 3
    let ?s = "scan_char c (scan_char (CHR ''.'') (scan_char (CHR ''.'') st))"
    let ?v = "[CHR ''.'', CHR ''.'', c]"
    have e: "?s = scan_char c (st\<lparr>flevel := lv, fsize := 2\<rparr>)" using scan_dots(2) [OF st] by simp
    have "\<not> fdots ?s" "flevel ?s = lv" "\<not> ffirst ?s" "fsize ?s = length ?v" "?v \<noteq> []"
      "?v \<noteq> ''.''" "?v \<noteq> ''..''" "ext_ok ?v ?s" "ftype ?s = ftype st"
      unfolding e using st by (simp_all add: scan_char_def between_def Let_def ext_ok_def rev_ext_def)
    from scan_rest [OF this, of w'] show ?thesis unfolding 3 by simp
  qed
qed

text \<open>
  The whole scan: it stops before the name that \<open>last_name\<close> finds, at the position where the components before it
  end, or goes through the path.
\<close>

definition stops_at :: "string \<Rightarrow> string list \<Rightarrow> string \<Rightarrow> path_type \<Rightarrow> string \<times> scan \<Rightarrow> bool" where
  "stops_at name rest p t res \<longleftrightarrow>
     (\<exists>a b. fst res = rev a \<and> p = a @ name @ b \<and> name \<noteq> [] \<and> slash_free name \<and>
        (a = [] \<or> is_slash (last a)) \<and> (b = [] \<or> is_slash (hd b)) \<and> comps a = rev rest) \<and>
     ftype (snd res) = t \<and> \<not> fdots (snd res) \<and> flevel (snd res) = 0 \<and> fsize (snd res) = length name \<and>
     ext_ok (rev name) (snd res)"

definition scan_found :: "nat \<Rightarrow> string \<Rightarrow> scan \<Rightarrow> bool" where
  "scan_found lv p st \<longleftrightarrow>
     (case last_name lv (rev (comps p)) of
        (lv', None) \<Rightarrow> (\<exists>st'. scan_loop (rev p) st = ([], st') \<and> lv' \<noteq> 0 \<and> ftype st' = ftype st \<and>
           (if fdots st' then flevel st' + fsize st' else flevel st') = lv')
      | (_, Some (name, rest)) \<Rightarrow> stops_at name rest p (ftype st) (scan_loop (rev p) st))"

lemma stops_at_append: "stops_at name rest a t res \<Longrightarrow> is_slash c \<Longrightarrow> stops_at name rest (a @ c # w) t res"
proof -
  assume s: "stops_at name rest a t res" and c: "is_slash c"
  then obtain a' b where h: "fst res = rev a'" "a = a' @ name @ b" "name \<noteq> []" "slash_free name"
      "a' = [] \<or> is_slash (last a')" "b = [] \<or> is_slash (hd b)" "comps a' = rev rest"
    unfolding stops_at_def by blast
  have "a @ c # w = a' @ name @ (b @ c # w)" using h(2) by simp
  moreover have "is_slash (hd (b @ c # w))" using h(6) c by (cases b) auto
  ultimately show ?thesis using s h unfolding stops_at_def by blast
qed

lemma between_slash: "between lv st \<Longrightarrow> scan_slash st = Some st"
  by (simp add: between_def scan_slash_def)

text \<open>After a component and its separator.\<close>

lemma scan_word_slash:
  assumes st: "between (Suc lv) st" and w: "w \<noteq> []" "slash_free w"
  shows "w = ''.'' \<Longrightarrow> \<exists>st'. scan_slash (fold scan_char (rev w) st) = Some st' \<and> between (Suc lv) st' \<and> ftype st' = ftype st"
    "w = ''..'' \<Longrightarrow> \<exists>st'. scan_slash (fold scan_char (rev w) st) = Some st' \<and> between (Suc (Suc lv)) st' \<and> ftype st' = ftype st"
    "w \<noteq> ''.'' \<Longrightarrow> w \<noteq> ''..'' \<Longrightarrow> lv \<noteq> 0 \<Longrightarrow>
      \<exists>st'. scan_slash (fold scan_char (rev w) st) = Some st' \<and> between lv st' \<and> ftype st' = ftype st"
    "w \<noteq> ''.'' \<Longrightarrow> w \<noteq> ''..'' \<Longrightarrow> lv = 0 \<Longrightarrow> scan_slash (fold scan_char (rev w) st) = None"
proof -
  show "w = ''.'' \<Longrightarrow> \<exists>st'. scan_slash (fold scan_char (rev w) st) = Some st' \<and> between (Suc lv) st' \<and> ftype st' = ftype st"
    using st scan_dots(1) [OF st] by (simp add: scan_slash_def between_def)
  show "w = ''..'' \<Longrightarrow> \<exists>st'. scan_slash (fold scan_char (rev w) st) = Some st' \<and> between (Suc (Suc lv)) st' \<and> ftype st' = ftype st"
    using st scan_dots(2) [OF st] by (simp add: scan_slash_def between_def)
  assume n: "w \<noteq> ''.''" "w \<noteq> ''..''"
  then have "rev w \<noteq> []" "rev w \<noteq> ''.''" "rev w \<noteq> ''..''" using w by (auto simp: rev_swap)
  from scan_name [OF st this]
  obtain st' where s: "fold scan_char (rev w) st = st'" "\<not> fdots st'" "flevel st' = lv" "\<not> ffirst st'" "ftype st' = ftype st"
    "fsize st' \<noteq> 0"
    by blast
  show "lv \<noteq> 0 \<Longrightarrow> \<exists>st'. scan_slash (fold scan_char (rev w) st) = Some st' \<and> between lv st' \<and> ftype st' = ftype st"
    using s by (simp add: scan_slash_def between_def)
  show "lv = 0 \<Longrightarrow> scan_slash (fold scan_char (rev w) st) = None"
    using s by (simp add: scan_slash_def)
qed

lemma scan_found_None:
  assumes "last_name lv (rev (comps p)) = (lv', None)" "scan_loop (rev p) st = ([], st')" "lv' \<noteq> 0" "ftype st' = ftype st"
    "(if fdots st' then flevel st' + fsize st' else flevel st') = lv'"
  shows "scan_found lv p st"
  unfolding scan_found_def assms(1) using assms(2-5) by simp

text \<open>A trailing separator, and a component that is skipped, change nothing to what is found before.\<close>

lemma scan_found_append:
  assumes f: "scan_found lv a st'" and t: "ftype st' = ftype st" and s: "is_slash c" "slash_free w"
    and l: "scan_loop (rev (a @ c # w)) st = scan_loop (rev a) st'"
    and n: "last_name lv' (rev (comps (a @ c # w))) = last_name lv (rev (comps a))"
  shows "scan_found lv' (a @ c # w) st"
proof (cases "last_name lv (rev (comps a))")
  case (Pair k r)
  show ?thesis
  proof (cases r)
    case None
    then show ?thesis using f Pair unfolding scan_found_def n l by (simp add: t)
  next
    case (Some x)
    obtain name rest where x: "x = (name, rest)" by fastforce
    have "stops_at name rest a (ftype st) (scan_loop (rev a) st')"
      using f unfolding scan_found_def Pair Some x by (simp add: t)
    from stops_at_append [OF this s(1)] show ?thesis unfolding scan_found_def n l Pair Some x by simp
  qed
qed

lemma scan_spec: "between (Suc lv) st \<Longrightarrow> scan_found (Suc lv) p st"
proof (induction "length p" arbitrary: p lv st rule: less_induct)
  case less
  note st = less.prems
  show ?case
  proof (cases rule: path_cases [of p])
    case 1
    then show ?thesis using st by (intro scan_found_None) (auto simp: comps_def between_def)
  next
    case (2 a c)
    have "scan_found (Suc lv) a st" using less.hyps [of a lv st] 2 st by simp
    then show ?thesis
      unfolding 2(1)
      by (rule scan_found_append) (use 2(2) between_slash [OF st] in \<open>simp_all add: slash_free_def comps_append comps_word\<close>)
  next
    case (3 w)
    have w: "w \<noteq> []" "slash_free w" using 3 by (simp_all add: slash_free_def)
    have c: "comps p = [w]" using 3 by (simp add: comps_word)
    have l: "scan_loop (rev p) st = ([], fold scan_char (rev w) st)"
      using scan_loop_word [of "rev w" "[]" st] w 3(1) by (simp add: slash_free_def)
    show ?thesis
    proof (cases "w = ''.'' \<or> w = ''..''")
      case True
      then show ?thesis
        using st scan_dots [OF st] by (intro scan_found_None [OF _ l]) (auto simp: c between_def)
    next
      case False
      then have "rev w \<noteq> []" "rev w \<noteq> ''.''" "rev w \<noteq> ''..''" using w by (auto simp: rev_swap)
      from scan_name [OF st this]
      obtain st' where s: "fold scan_char (rev w) st = st'" "\<not> fdots st'" "flevel st' = lv" "ftype st' = ftype st"
        "lv = 0 \<longrightarrow> fsize st' = length w \<and> ext_ok (rev w) st'"
        by auto
      show ?thesis
      proof (cases "lv = 0")
        case True
        then have n: "last_name (Suc lv) (rev (comps p)) = (0, Some (w, []))" using c False by simp
        have "p = [] @ w @ []" "scan_loop (rev p) st = (rev [], st')" using 3(1) l s(1) by simp_all
        then show ?thesis
          unfolding scan_found_def n prod.case option.case stops_at_def
          using w s True by (auto simp: comps_word [of "[]"] intro!: exI [of _ "[]"])
      next
        case lv: False
        then have "last_name (Suc lv) (rev (comps p)) = (lv, None)" using c False by simp
        then show ?thesis using s lv by (intro scan_found_None [OF _ l]) auto
      qed
    qed
  next
    case (4 a c w)
    have w: "w \<noteq> []" "slash_free w" using 4 by (simp_all add: slash_free_def)
    have cp: "comps p = comps a @ [w]" using 4 by (simp add: comps_append comps_word)
    have l: "scan_loop (rev p) st =
        (case scan_slash (fold scan_char (rev w) st) of None \<Rightarrow> (c # rev a, fold scan_char (rev w) st) | Some st \<Rightarrow> scan_loop (rev a) st)"
      using scan_loop_word [of "rev w" "c # rev a" st] w 4(1,2) by (simp add: slash_free_def)
    have a: "length a < length p" using 4(1) by simp
    have skip: ?thesis if "between (Suc lv') st'" "scan_slash (fold scan_char (rev w) st) = Some st'" "ftype st' = ftype st"
      "last_name (Suc lv) (rev (comps p)) = last_name (Suc lv') (rev (comps a))" for lv' st'
    proof -
      have "scan_found (Suc lv') a st'" using less.hyps [OF a that(1)] .
      then show ?thesis
        unfolding 4(1) by (rule scan_found_append) (use that 4 w l in \<open>simp_all add: slash_free_def\<close>)
    qed
    note word = scan_word_slash [OF st w]
    consider "w = ''.''" | "w = ''..''" | "w \<noteq> ''.''" "w \<noteq> ''..''" "lv \<noteq> 0" | "w \<noteq> ''.''" "w \<noteq> ''..''" "lv = 0" by blast
    then show ?thesis
    proof cases
      case 1
      then show ?thesis using word(1) skip [of lv] cp by auto
    next
      case 2
      then show ?thesis using word(2) skip [of "Suc lv"] cp by auto
    next
      case 3
      then obtain k where "lv = Suc k" by (cases lv) auto
      then show ?thesis using word(3) skip [of k] cp 3 by auto
    next
      case n: 4
      then have ln: "last_name (Suc lv) (rev (comps p)) = (0, Some (w, rev (comps a)))" using cp by simp
      have "rev w \<noteq> []" "rev w \<noteq> ''.''" "rev w \<noteq> ''..''" using w n by (auto simp: rev_swap)
      from scan_name [OF st this]
      obtain st' where s: "fold scan_char (rev w) st = st'" "\<not> fdots st'" "flevel st' = 0" "ftype st' = ftype st"
        "fsize st' = length w" "ext_ok (rev w) st'"
        using n(3) by auto
      have "scan_loop (rev p) st = (rev (a @ [c]), st')" using l word(4) n s(1) by simp
      moreover have "p = (a @ [c]) @ w @ []" using 4(1) by simp
      moreover have "comps (a @ [c]) = rev (rev (comps a))" using 4(2) by (simp add: comps_append comps_word)
      moreover have "is_slash (last (a @ [c]))" using 4(2) by simp
      ultimately show ?thesis
        unfolding scan_found_def ln prod.case option.case stops_at_def using w s by (metis fst_conv snd_conv)
    qed
  qed
qed

section \<open>The 16 bits of the level\<close>

text \<open>The code counts the levels in a \<open>uint16_t\<close>. The same scan with this counter, which wraps around:\<close>

definition scan_slash16 :: "scan \<Rightarrow> scan option" where
  "scan_slash16 st =
     (let st = (if ffirst st then st\<lparr>ftype := TYPE_FOLDER, ffirst := False\<rparr> else st)
      in if fsize st = 0 then Some st
         else if fdots st then Some (st\<lparr>flevel := (flevel st + fsize st mod 65536) mod 65536, fsize := 0\<rparr>)
         else if flevel st = 0 then None
         else Some (st\<lparr>fdots := True, fext := None, fsize := 0\<rparr>))"

definition scan_char16 :: "char \<Rightarrow> scan \<Rightarrow> scan" where
  "scan_char16 c st =
     (let st = (if ffirst st then st\<lparr>ftype := TYPE_FILE, ffirst := False\<rparr> else st)
      in if \<not> fdots st \<and> flevel st \<noteq> 0 then st
         else
           (let st = st\<lparr>flevel := (if fsize st = 0 then (flevel st + 65535) mod 65536 else flevel st), fsize := fsize st + 1\<rparr>
            in if fext st = None \<and> c = CHR ''.'' then
                 (if fdots st then (if fsize st < 3 then st else st\<lparr>fext := Some 1, fdots := False\<rparr>)
                  else st\<lparr>fext := Some (fsize st), fdots := False\<rparr>)
               else st\<lparr>fdots := False\<rparr>))"

fun scan_loop16 :: "string \<Rightarrow> scan \<Rightarrow> string \<times> scan" where
  "scan_loop16 [] st = ([], st)"
| "scan_loop16 (c # rp) st =
     (if is_slash c then (case scan_slash16 st of None \<Rightarrow> (c # rp, st) | Some st \<Rightarrow> scan_loop16 rp st)
      else scan_loop16 rp (scan_char16 c st))"

definition GetFile16 :: "string \<Rightarrow> file_answer" where
  "GetFile16 path =
     (case scan_loop16 (rev path) scan_start of
        (rp, st) \<Rightarrow>
          (let level = (if fdots st then (flevel st + fsize st mod 65536) mod 65536 else flevel st)
           in if level \<noteq> 0 then
                (if IsAbsolute path then
                   \<lparr>gpos = Some 1, gsize = 0, gext = fext st, gtype = ftype st, gparent = 1\<rparr>
                 else \<lparr>gpos = None, gsize = 0, gext = fext st, gtype = ftype st, gparent = - int level\<rparr>)
              else
                \<lparr>gpos = Some (length rp), gsize = fsize st, gext = map_option (\<lambda>e. fsize st - e) (fext st),
                 gtype = ftype st, gparent = parent_pos rp\<rparr>))"

text \<open>The level and the size of the scan cannot reach \<open>2 ^ 16\<close> with what is left of the path.\<close>

definition level_fits :: "nat \<Rightarrow> scan \<Rightarrow> bool" where
  "level_fits n st \<longleftrightarrow> flevel st + fsize st + n < 65536 \<and> (fsize st = 0 \<longrightarrow> 0 < flevel st)"

lemma scan_slash16_eq: "level_fits n st \<Longrightarrow> scan_slash16 st = scan_slash st"
  by (simp add: scan_slash16_def scan_slash_def level_fits_def Let_def)

lemma level_down: "0 < l \<Longrightarrow> l < 65536 \<Longrightarrow> (l + 65535) mod 65536 = l - (1 :: nat)"
  using mod_add_self2 [of "l - 1" "65536 :: nat"] by (simp add: add.commute)

lemma scan_char16_eq:
  assumes "level_fits n st"
  shows "scan_char16 c st = scan_char c st"
proof -
  show ?thesis
  proof (cases "fsize st = 0")
    case True
    then have "0 < flevel st" "(flevel st + 65535) mod 65536 = flevel st - 1"
      using assms level_down by (simp_all add: level_fits_def)
    then show ?thesis by (simp add: scan_char16_def scan_char_def Let_def True)
  qed (simp add: scan_char16_def scan_char_def Let_def)
qed

lemma scan_slash_fits: "level_fits (Suc n) st \<Longrightarrow> scan_slash st = Some st' \<Longrightarrow> level_fits n st'"
  by (auto simp: scan_slash_def level_fits_def Let_def split: if_splits)

lemma scan_char_fits: "level_fits (Suc n) st \<Longrightarrow> level_fits n (scan_char c st)"
  by (auto simp: scan_char_def level_fits_def Let_def)

lemma scan_loop16_eq:
  "level_fits (length rp) st \<Longrightarrow> scan_loop16 rp st = scan_loop rp st \<and> level_fits 0 (snd (scan_loop rp st))"
proof (induction rp arbitrary: st)
  case Nil
  then show ?case by simp
next
  case (Cons c rp)
  have f: "level_fits (Suc (length rp)) st" using Cons.prems by simp
  then have z: "level_fits 0 st" by (simp add: level_fits_def)
  show ?case
    using Cons.IH scan_slash_fits [OF f] scan_char_fits [OF f] scan_slash16_eq [OF f] scan_char16_eq [OF f] z
    by (auto split: option.splits)
qed

lemma GetFile_level16:
  assumes "length path < 65535"
  shows "GetFile16 path = GetFile path"
proof -
  have "level_fits (length (rev path)) scan_start" using assms by (simp add: level_fits_def scan_start_def)
  from scan_loop16_eq [OF this] show ?thesis
    by (auto simp: GetFile16_def GetFile_def level_fits_def Let_def split: prod.splits)
qed

section \<open>\<open>GetFile\<close>\<close>

definition type_of :: "string \<Rightarrow> path_type" where
  "type_of p = (if p = [] \<or> is_slash (last p) then TYPE_FOLDER else TYPE_FILE)"

lemma scan_loop_start:
  "scan_loop (rev p) scan_start = (if p = [] then ([], scan_start)
     else scan_loop (rev p) (scan_start\<lparr>ftype := type_of p, ffirst := False\<rparr>))"
proof (cases p rule: rev_cases)
  case (snoc q c)
  show ?thesis
  proof (cases "is_slash c")
    case True
    then show ?thesis unfolding snoc by (simp add: scan_slash_def scan_start_def type_of_def)
  next
    case False
    have "scan_char c scan_start = scan_char c (scan_start\<lparr>ftype := type_of p, ffirst := False\<rparr>)"
      using False snoc by (simp add: scan_char_def scan_start_def type_of_def)
    then show ?thesis using False unfolding snoc by simp
  qed
qed simp

text \<open>The place of the dot of the extension in a name.\<close>

definition ext_dot :: "string \<Rightarrow> nat option" where
  "ext_dot name = map_option (\<lambda>e. length name - e) (rev_ext (rev name))"

lemma ext_dot_bounds: "ext_dot name = Some e \<Longrightarrow> e < length name \<and> name ! e = CHR ''.''"
  by (auto simp: ext_dot_def rev_nth dest!: rev_ext_bounds)

text \<open>What is before a name, and its parent.\<close>

lemma parent_text:
  assumes "a = [] \<or> is_slash (last a)"
  shows "take (nat (parent_pos (rev a))) (a @ r) = (if a = [] then [] else MakeFile a @ [a ! length (MakeFile a)])"
    "0 \<le> parent_pos (rev a)" "parent_pos (rev a) = 0 \<longleftrightarrow> a = []"
    "a \<noteq> [] \<Longrightarrow> is_slash (a ! length (MakeFile a)) \<and> a = MakeFile a @ drop (length (MakeFile a)) a \<and>
       length (MakeFile a) < length a \<and> comps (MakeFile a) = comps a"
proof -
  let ?m = "MakeFile a"
  have split: "a = rev (dropWhile is_slash (rev a)) @ rev (takeWhile is_slash (rev a))"
  proof -
    have "rev (takeWhile is_slash (rev a) @ dropWhile is_slash (rev a)) = rev (rev a)"
      by (simp only: takeWhile_dropWhile_id)
    then show ?thesis by (simp only: rev_append rev_rev_ident)
  qed
  have tail: "comps (b @ s) = comps b" if "\<forall>c \<in> set s. is_slash c" for b s
    using that
  proof (induction s rule: rev_induct)
    case (snoc x s)
    have "comps ((b @ s) @ [x]) = comps (b @ s) @ comps []" using snoc.prems by (intro comps_append) simp
    then show ?case using snoc by (simp add: comps_def)
  qed simp
  show pos: "0 \<le> parent_pos (rev a)" "parent_pos (rev a) = 0 \<longleftrightarrow> a = []"
    using assms by (auto simp: parent_pos_def hd_rev)
  {
    assume ne: "a \<noteq> []"
    then have m: "?m = rev (dropWhile is_slash (rev a))" by (simp add: MakeFile_def)
    define t where "t = rev (takeWhile is_slash (rev a))"
    have am: "a = ?m @ t" using split m by (simp add: t_def)
    have ts: "\<forall>c \<in> set t. is_slash c" unfolding t_def by (auto dest: set_takeWhileD)
    have tn: "t \<noteq> []" unfolding t_def using assms ne by (cases "rev a") (auto simp: hd_rev [symmetric])
    have i: "a ! length ?m = hd t" using am tn by (metis hd_conv_nth nth_append_length_plus add_0_right)
    show "is_slash (a ! length ?m) \<and> a = ?m @ drop (length ?m) a \<and> length ?m < length a \<and> comps ?m = comps a"
    proof (intro conjI)
      show "is_slash (a ! length ?m)" using i ts tn by simp
      show "a = ?m @ drop (length ?m) a" using am by (metis append_eq_conv_conj)
      show "length ?m < length a" using am tn by (metis length_append length_greater_0_conv less_add_same_cancel1)
      show "comps ?m = comps a" using tail [OF ts, of ?m] am by simp
    qed
  }
  note main = this
  show "take (nat (parent_pos (rev a))) (a @ r) = (if a = [] then [] else ?m @ [a ! length ?m])"
  proof (cases "a = []")
    case True
    then show ?thesis by (simp add: parent_pos_def)
  next
    case False
    have "nat (parent_pos (rev a)) = Suc (length ?m)"
      using assms False by (simp add: parent_pos_def MakeFile_def hd_rev)
    then show ?thesis
      using main [OF False] False by (simp add: take_Suc_conv_app_nth nth_append) (metis append_eq_conv_conj)
  qed
qed

lemma GetFile_spec:
  "case normal (comps p) of
     (up, []) \<Rightarrow> gsize (GetFile p) = 0 \<and> gtype (GetFile p) = type_of p \<and>
       (if IsAbsolute p then gpos (GetFile p) = Some 1 \<and> gparent (GetFile p) = 1
        else gpos (GetFile p) = None \<and> gparent (GetFile p) = - int (Suc up))
   | (up, name # names) \<Rightarrow> gtype (GetFile p) = type_of p \<and>
       (\<exists>a b. p = a @ name @ b \<and> name \<noteq> [] \<and> slash_free name \<and> (a = [] \<or> is_slash (last a)) \<and> (b = [] \<or> is_slash (hd b)) \<and>
          normal (comps a) = (up, names) \<and> gpos (GetFile p) = Some (length a) \<and> gsize (GetFile p) = length name \<and>
          gparent (GetFile p) = parent_pos (rev a) \<and> gext (GetFile p) = ext_dot name)"
proof -
  obtain up names where n: "normal (comps p) = (up, names)" by fastforce
  define st where "st = (if p = [] then scan_start else scan_start\<lparr>ftype := type_of p, ffirst := False\<rparr>)"
  have l: "scan_loop (rev p) scan_start = scan_loop (rev p) st" unfolding st_def scan_loop_start by simp
  have t: "ftype st = type_of p" by (simp add: st_def type_of_def scan_start_def)
  have f: "scan_found (Suc 0) p st"
  proof (cases "p = []")
    case True
    then show ?thesis by (simp add: scan_found_def comps_def st_def scan_start_def)
  next
    case False
    then have "between (Suc 0) st" by (simp add: st_def between_def scan_start_def)
    then show ?thesis by (rule scan_spec)
  qed
  show ?thesis
  proof (cases names)
    case Nil
    have "last_name (Suc 0) (rev (comps p)) = (Suc up, None)"
      using last_name_normal [of 0 "comps p"] n Nil by simp
    then obtain st' where s: "scan_loop (rev p) st = ([], st')" "ftype st' = ftype st"
        "(if fdots st' then flevel st' + fsize st' else flevel st') = Suc up"
      using f unfolding scan_found_def by auto
    then show ?thesis unfolding GetFile_def l n Nil by (simp add: t Let_def)
  next
    case (Cons name names')
    obtain rest where r: "last_name (Suc 0) (rev (comps p)) = (0, Some (name, rest))" "normal (rev rest) = (up, names')"
      using last_name_normal [of 0 "comps p"] n Cons by auto
    then have so: "stops_at name rest p (ftype st) (scan_loop (rev p) st)" using f unfolding scan_found_def by simp
    obtain rp st' where pair: "scan_loop (rev p) st = (rp, st')" by fastforce
    from so obtain a b where s: "scan_loop (rev p) st = (rev a, st')" "p = a @ name @ b" "name \<noteq> []" "slash_free name"
      "a = [] \<or> is_slash (last a)" "b = [] \<or> is_slash (hd b)" "comps a = rev rest" "ftype st' = ftype st" "\<not> fdots st'"
      "flevel st' = 0" "fsize st' = length name" "ext_ok (rev name) st'"
      unfolding stops_at_def pair fst_conv snd_conv by blast
    have g: "GetFile p = \<lparr>gpos = Some (length a), gsize = length name, gext = map_option (\<lambda>e. length name - e) (fext st'),
        gtype = type_of p, gparent = parent_pos (rev a)\<rparr>"
      unfolding GetFile_def l s(1) using s(8-11) t by (simp add: Let_def)
    have e: "gext (GetFile p) = ext_dot name" using s(12) unfolding g ext_ok_def ext_dot_def by simp
    show ?thesis
    proof -
      have gg: "gtype (GetFile p) = type_of p" "gpos (GetFile p) = Some (length a)" "gsize (GetFile p) = length name"
        "gparent (GetFile p) = parent_pos (rev a)"
        by (simp_all add: g)
      have na: "normal (comps a) = (up, names')" using s(7) r(2) by simp
      show ?thesis unfolding n Cons prod.case list.case using s(2-6) gg na e by blast
    qed
  qed
qed

lemma GetFile_name:
  assumes "normal (comps p) = (up, name # names)"
  obtains a b where "p = a @ name @ b" "name \<noteq> []" "slash_free name" "a = [] \<or> is_slash (last a)" "b = [] \<or> is_slash (hd b)"
    "normal (comps a) = (up, names)" "gpos (GetFile p) = Some (length a)" "gsize (GetFile p) = length name"
    "gparent (GetFile p) = parent_pos (rev a)" "gtype (GetFile p) = type_of p"
    "\<forall>e. gext (GetFile p) = Some e \<longrightarrow> e < length name \<and> name ! e = CHR ''.''" "gext (GetFile p) = ext_dot name"
proof -
  from GetFile_spec [of p, unfolded assms prod.case list.case] obtain a b where
    "p = a @ name @ b" "name \<noteq> []" "slash_free name" "a = [] \<or> is_slash (last a)" "b = [] \<or> is_slash (hd b)"
    "normal (comps a) = (up, names)" "gpos (GetFile p) = Some (length a)" "gsize (GetFile p) = length name"
    "gparent (GetFile p) = parent_pos (rev a)" "gtype (GetFile p) = type_of p" "gext (GetFile p) = ext_dot name"
    by blast
  then show ?thesis using ext_dot_bounds by (intro that [of a b]) auto
qed

section \<open>The name and the parent\<close>

lemma levels_up_Suc: "levels_up (Suc n) = ''..'' @ CHR ''/'' # levels_up n"
  by (simp add: levels_up_def)

lemma levels_up_last: "last (levels_up (Suc n)) = CHR ''/''"
  by (induction n) (simp_all add: levels_up_Suc [of n for n] levels_up_def)

lemma is_slash_slash [simp]: "is_slash (CHR ''/'')"
  by (simp add: is_slash_def)

lemma levels_up_comps: "comps (levels_up n) = replicate n ''..''"
proof (induction n)
  case (Suc n)
  have "slash_free ''..''" by (simp add: slash_free_def is_slash_def)
  then show ?case unfolding levels_up_Suc using Suc by (simp add: comps_append comps_word slash_free_def del: append.simps)
qed (simp add: levels_up_def comps_def)

lemma normal_ups: "normal (replicate n ''..'') = (n, [])"
proof (induction n)
  case (Suc n)
  have "replicate (Suc n) ''..'' = replicate n ''..'' @ [''..'']" by (simp add: replicate_append_same)
  then show ?case using Suc by (simp add: normal_snoc push_def)
qed (simp add: normal_def)

text \<open>The parent in front of a name.\<close>

definition parent_prefix :: "string \<Rightarrow> string" where
  "parent_prefix a = (if a = [] then [] else MakeFile a @ [a ! length (MakeFile a)])"

lemma parent_prefix_simps:
  assumes "a = [] \<or> is_slash (last a)"
  shows "take (nat (parent_pos (rev a))) (a @ r) = parent_prefix a" "comps (parent_prefix a) = comps a"
    "parent_prefix a = [] \<or> is_slash (last (parent_prefix a))" "a \<noteq> [] \<Longrightarrow> IsAbsolute (parent_prefix a) = IsAbsolute (a @ r)"
    "set (parent_prefix a) \<subseteq> set a" "parent_prefix a = [] \<longleftrightarrow> a = []"
proof -
  note t = parent_text [OF assms]
  show "take (nat (parent_pos (rev a))) (a @ r) = parent_prefix a" using t(1) by (simp add: parent_prefix_def)
  show "comps (parent_prefix a) = comps a"
  proof (cases "a = []")
    case False
    have "comps (MakeFile a @ a ! length (MakeFile a) # []) = comps (MakeFile a) @ comps []"
      using t(4) [OF False] by (intro comps_append) simp
    then show ?thesis using t(4) [OF False] False by (simp add: parent_prefix_def comps_def)
  qed (simp add: parent_prefix_def)
  show "parent_prefix a = [] \<or> is_slash (last (parent_prefix a))" using t(4) by (auto simp: parent_prefix_def)
  show "parent_prefix a = [] \<longleftrightarrow> a = []" by (simp add: parent_prefix_def)
  show "set (parent_prefix a) \<subseteq> set a"
  proof (cases "a = []")
    case False
    have "set (MakeFile a) \<subseteq> set a" using t(4) [OF False] by (metis Un_upper1 set_append)
    then show ?thesis using t(4) [OF False] False by (auto simp: parent_prefix_def)
  qed (simp add: parent_prefix_def)
  show "IsAbsolute (parent_prefix a) = IsAbsolute (a @ r)" if "a \<noteq> []"
  proof (cases "MakeFile a = []")
    case True
    then show ?thesis using that by (simp add: parent_prefix_def IsAbsolute_def hd_conv_nth nth_append)
  next
    case False
    then have "hd (MakeFile a) = hd a" using t(4) [OF that] by (metis hd_append2)
    then show ?thesis using that False by (simp add: parent_prefix_def IsAbsolute_def)
  qed
qed

lemma ext_dot_examples:
  "ext_dot ''a.tar.gz'' = Some 5" "ext_dot ''.bashrc'' = Some 0" "ext_dot ''name.'' = None" "ext_dot ''a.b..'' = Some 1"
  "ext_dot ''a...'' = Some 3"
  by code_simp+

lemma path_no_name:
  assumes n: "normal (comps p) = (up, [])"
  shows "GetName p = []" "normal (comps (GetParent p)) = (if IsAbsolute p then (0, []) else (Suc up, []))"
    "is_slash (last (GetParent p))"
proof -
  have s: "gsize (GetFile p) = 0" "if IsAbsolute p then gpos (GetFile p) = Some 1 \<and> gparent (GetFile p) = 1
      else gpos (GetFile p) = None \<and> gparent (GetFile p) = - int (Suc up)"
    using GetFile_spec [of p, unfolded n prod.case] by simp_all
  show "GetName p = []" using s(1) by (simp add: GetName_def name_of_def split: option.split)
  have par: "GetParent p = (if IsAbsolute p then ''/'' else levels_up (Suc up))"
  proof (cases "IsAbsolute p")
    case True
    then have "take 1 p = ''/''" by (cases p) (auto simp: IsAbsolute_def)
    then show ?thesis using s(2) True by (simp add: GetParent_def parent_of_def)
  next
    case False
    then show ?thesis using s(2) by (simp add: GetParent_def parent_of_def nat_add_distrib)
  qed
  have "comps ''/'' = []" using comps_append [of "CHR ''/''" "[]" "[]"] by (simp add: comps_def)
  moreover have "normal (comps (levels_up (Suc up))) = (Suc up, [])" "normal [] = (0, [])"
    by (simp_all only: levels_up_comps normal_ups) (simp add: normal_def)
  ultimately show "normal (comps (GetParent p)) = (if IsAbsolute p then (0, []) else (Suc up, []))" unfolding par by simp
  have "last (levels_up (Suc up)) = CHR ''/''" "last ''/'' = CHR ''/''" using levels_up_last by simp_all
  then show "is_slash (last (GetParent p))" unfolding par by simp
qed

lemma path_some_name:
  assumes n: "normal (comps p) = (up, name # rest)"
  shows "GetName p = name" "name_of p (GetFile p) = name" "gext (GetFile p) = ext_dot name"
    "normal (comps (GetParent p)) = (up, rest)" "GetParent p = [] \<or> is_slash (last (GetParent p))"
    "GetParent p = [] \<or> IsAbsolute (GetParent p) = IsAbsolute p"
proof -
  obtain a b where s: "p = a @ name @ b" "name \<noteq> []" "slash_free name" "a = [] \<or> is_slash (last a)"
    "normal (comps a) = (up, rest)" "gpos (GetFile p) = Some (length a)" "gsize (GetFile p) = length name"
    "gparent (GetFile p) = parent_pos (rev a)" "gext (GetFile p) = ext_dot name"
    using GetFile_name [OF n] by metis
  show nm: "name_of p (GetFile p) = name" "GetName p = name" using s(1,6,7) by (simp_all add: GetName_def name_of_def)
  show "gext (GetFile p) = ext_dot name" by (rule s(9))
  have tk: "take (nat (parent_pos (rev a))) p = parent_prefix a"
    unfolding s(1) by (rule parent_prefix_simps(1) [OF s(4)])
  have par: "GetParent p = parent_prefix a"
    using s(8) tk parent_text(2,3) [OF s(4)] by (auto simp: GetParent_def parent_of_def levels_up_def parent_prefix_def)
  note pp = parent_prefix_simps(2,3,6) [OF s(4)]
  show "normal (comps (GetParent p)) = (up, rest)" "GetParent p = [] \<or> is_slash (last (GetParent p))"
    using pp(1,2) s(5) unfolding par by simp_all
  have "parent_prefix a = [] \<or> IsAbsolute (parent_prefix a) = IsAbsolute p"
    unfolding s(1) using parent_prefix_simps(4) [OF s(4), of "name @ b"] pp(3) by blast
  then show "GetParent p = [] \<or> IsAbsolute (GetParent p) = IsAbsolute p" unfolding par .
qed

lemma path_extension:
  assumes n: "normal (comps p) = (up, name # rest)"
  shows "case ext_dot name of
      None \<Rightarrow> GetBaseName p = Some name \<and> GetExtension p = []
    | Some e \<Rightarrow> GetBaseName p = Some (take e name) \<and> GetExtension p = drop (e + 1) name \<and>
        name = take e name @ CHR ''.'' # drop (e + 1) name"
proof (cases "ext_dot name")
  case (Some e)
  then have e: "e < length name" "name ! e = CHR ''.''" using ext_dot_bounds by auto
  then have "name = take e name @ CHR ''.'' # drop (e + 1) name" using id_take_nth_drop [of e name] by simp
  then show ?thesis using Some e(1) by (simp add: GetBaseName_def GetExtension_def path_some_name(2,3) [OF n] Let_def)
qed (simp add: GetBaseName_def GetExtension_def path_some_name(2,3) [OF n])

text \<open>
  C15: The backward scan of a path finds what reading its components forward leaves: the name is the last one that no
  \<open>..\<close> removes (a dot component is nothing), and the parent reads as the path without it, is absolute when the
  path is, and ends with a separator. A path without a name has the level above for parent, or the root. The extension is
  what follows the last dot of the name, not counting the one or two dots it may end with, and the base name what is
  before; without such a dot the base name is the name.
\<close>

theorem path_last_name:
  "case normal (comps p) of
     (up, names) \<Rightarrow>
       (GetName p = (case names of [] \<Rightarrow> [] | name # _ \<Rightarrow> name) \<and>
        normal (comps (GetParent p)) =
          (case names of [] \<Rightarrow> (if IsAbsolute p then (0, []) else (Suc up, [])) | _ # rest \<Rightarrow> (up, rest)) \<and>
        (GetParent p = [] \<or> is_slash (last (GetParent p)))) \<and>
       (names = [] \<or>
        (GetParent p = [] \<or> IsAbsolute (GetParent p) = IsAbsolute p) \<and>
        (case ext_dot (GetName p) of
           None \<Rightarrow> GetBaseName p = Some (GetName p) \<and> GetExtension p = []
         | Some e \<Rightarrow> GetBaseName p = Some (take e (GetName p)) \<and> GetExtension p = drop (e + 1) (GetName p) \<and>
             GetName p = take e (GetName p) @ CHR ''.'' # drop (e + 1) (GetName p)))"
proof (cases "snd (normal (comps p))")
  case Nil
  then obtain up where n: "normal (comps p) = (up, [])" by (cases "normal (comps p)") auto
  show ?thesis unfolding n using path_no_name [OF n] by simp
next
  case (Cons name rest)
  then obtain up where n: "normal (comps p) = (up, name # rest)" by (cases "normal (comps p)") auto
  show ?thesis unfolding n prod.case list.case path_some_name(1) [OF n]
    using path_some_name(4-6) [OF n] path_extension [OF n] by simp
qed

section \<open>The absolute path\<close>

fun joined :: "string list \<Rightarrow> string" where
  "joined [] = []"
| "joined (w # ws) = w @ (if ws = [] then [] else CHR ''/'' # joined ws)"

definition names_ok :: "string list \<Rightarrow> bool" where
  "names_ok ws \<longleftrightarrow> (\<forall>w \<in> set ws. w \<noteq> [] \<and> slash_free w)"

definition dirs_of :: "string list \<Rightarrow> string list" where
  "dirs_of ds = foldl (\<lambda>dirs w. dirs @ [last dirs @ w @ ''/'']) [''/''] ds"

lemma joined_Nil: "names_ok ws \<Longrightarrow> joined ws = [] \<longleftrightarrow> ws = []"
  by (cases ws) (auto simp: names_ok_def)

lemma dirs_of_snoc: "dirs_of (ds @ [w]) = dirs_of ds @ [last (dirs_of ds) @ w @ ''/'']"
  by (simp add: dirs_of_def)

lemma length_dirs_of: "length (dirs_of ds) = Suc (length ds)"
  by (induction ds rule: rev_induct) (simp_all add: dirs_of_snoc dirs_of_def [of "[]"])

lemma dirs_of_nth: "k \<le> length ds \<Longrightarrow> dirs_of ds ! k = CHR ''/'' # concat (List.map (\<lambda>w. w @ ''/'') (take k ds))"
proof (induction ds arbitrary: k rule: rev_induct)
  case Nil
  then show ?case by (simp add: dirs_of_def)
next
  case (snoc w ds)
  show ?case
  proof (cases "k \<le> length ds")
    case True
    then show ?thesis using snoc.IH [OF True] by (simp add: dirs_of_snoc nth_append length_dirs_of)
  next
    case False
    then have k: "k = Suc (length ds)" using snoc.prems by simp
    have "last (dirs_of ds) = dirs_of ds ! length ds"
      using length_dirs_of [of ds] by (metis diff_Suc_1 last_conv_nth length_0_conv nat.distinct(1))
    then show ?thesis using snoc.IH [of "length ds"] by (simp add: k dirs_of_snoc nth_append length_dirs_of)
  qed
qed

lemma concat_joined: "ts \<noteq> [] \<Longrightarrow> concat (List.map (\<lambda>w. w @ ''/'') ws) @ joined ts = joined (ws @ ts)"
  by (induction ws) auto

lemma concat_joined_Nil: "ws \<noteq> [] \<Longrightarrow> concat (List.map (\<lambda>w. w @ ''/'') ws) = joined ws @ ''/''"
  by (induction ws) auto

lemma last_joined: "names_ok ws \<Longrightarrow> ws \<noteq> [] \<Longrightarrow> joined ws \<noteq> [] \<and> \<not> is_slash (last (joined ws))"
proof (induction ws)
  case (Cons w ws)
  then show ?case by (cases "ws = []") (auto simp: names_ok_def slash_free_def)
qed simp

lemma MakeFile_last: "p \<noteq> [] \<Longrightarrow> \<not> is_slash (last p) \<Longrightarrow> MakeFile p = p"
  by (cases p rule: rev_cases) (simp_all add: MakeFile_def)

lemma MakeFile_slash: "p \<noteq> [] \<Longrightarrow> \<not> is_slash (last p) \<Longrightarrow> MakeFile (p @ ''/'') = p"
  by (cases p rule: rev_cases) (simp_all add: MakeFile_def)

lemma names_ok_append: "names_ok (a @ b) \<longleftrightarrow> names_ok a \<and> names_ok b"
  by (auto simp: names_ok_def)

text \<open>A level of the current directory and what comes after it.\<close>

lemma dirs_MakeFile:
  assumes "names_ok ds" "names_ok ts" "0 < k" "k \<le> length ds"
  shows "MakeFile (dirs_of ds ! k @ joined ts) = CHR ''/'' # joined (take k ds @ ts)"
proof -
  have t: "take k ds \<noteq> []" "names_ok (take k ds)" using assms by (auto simp: names_ok_def dest: in_set_takeD)
  show ?thesis
  proof (cases "ts = []")
    case True
    then show ?thesis
      using last_joined [OF t(2,1)] concat_joined_Nil [OF t(1)] MakeFile_slash [of "CHR ''/'' # joined (take k ds)"]
      by (simp add: dirs_of_nth [OF assms(4)])
  next
    case False
    have "names_ok (take k ds @ ts)" using t(2) assms(2) by (simp add: names_ok_append)
    from last_joined [OF this] show ?thesis
      using False concat_joined [OF False, of "take k ds"] MakeFile_last [of "CHR ''/'' # joined (take k ds @ ts)"]
      by (simp add: dirs_of_nth [OF assms(4)])
  qed
qed

definition resolved_tail :: "path_type \<Rightarrow> string list \<Rightarrow> string" where
  "resolved_tail t ws = (if ws = [] then (if t = TYPE_FILE then ''.'' else []) else if t = TYPE_FOLDER then ''/'' else [])"

text \<open>One turn of the loop on a name that is not the first of a relative path.\<close>

lemma normal_dot: "normal (comps (a @ ''.'')) = normal (comps a)" if "a = [] \<or> is_slash (last a)"
proof -
  have dot: "comps ''.'' = [''.'']" by (rule trans [OF comps_word]) (simp_all add: is_slash_def)
  show ?thesis
  proof (cases a rule: rev_cases)
    case Nil
    then show ?thesis using normal_snoc [of "[]" "''.''"] by (simp add: dot push_def) (simp add: comps_def normal_def)
  next
    case (snoc b c)
    then have c: "is_slash c" using that by simp
    have "comps (b @ c # ''.'') = comps b @ [''.'']" "comps (b @ c # []) = comps b @ comps []"
      using comps_append [OF c] dot by metis+
    then show ?thesis unfolding snoc using normal_snoc [of "comps b" "''.''"]
      by (simp add: push_def comps_def [of "[]"] split: prod.splits)
  qed
qed

definition turned :: "string \<Rightarrow> path_type \<Rightarrow> string" where
  "turned p t = (if t = TYPE_FILE then p @ ''.'' else p)"

lemma turned_simps:
  assumes "a \<noteq> []" "is_slash (last a)"
  shows "normal (comps (turned a t)) = normal (comps a)" "type_of (turned a t) = t" "IsAbsolute (turned a t) = IsAbsolute a"
proof -
  show "normal (comps (turned a t)) = normal (comps a)" using normal_dot [of a] assms by (simp add: turned_def)
  show "type_of (turned a t) = t"
    using assms by (cases t) (auto simp: turned_def type_of_def is_slash_def)
  show "IsAbsolute (turned a t) = IsAbsolute a" using assms by (simp add: turned_def IsAbsolute_def)
qed

lemma resolve_turn:
  assumes n: "normal (comps Q) = (u, name # names)" and Q: "Q = turned p t" and g: "0 < gparent (GetFile Q)"
  shows "\<exists>a b. Q = a @ name @ b \<and> a \<noteq> [] \<and> is_slash (last a) \<and> normal (comps (parent_prefix a)) = (u, names) \<and>
    name \<noteq> [] \<and> slash_free name \<and>
    resolve_loop dirs p t ts =
      resolve_loop dirs (parent_prefix a) (type_of Q) (name @ (if ts = [] then [] else CHR ''/'' # ts))"
proof -
  obtain a b where s: "Q = a @ name @ b" "name \<noteq> []" "slash_free name" "a = [] \<or> is_slash (last a)"
      "normal (comps a) = (u, names)" "gpos (GetFile Q) = Some (length a)" "gsize (GetFile Q) = length name"
      "gparent (GetFile Q) = parent_pos (rev a)" "gtype (GetFile Q) = type_of Q"
    using GetFile_name [OF n] by metis
  have a: "a \<noteq> []" using parent_text(3) [OF s(4)] s(8) g by auto
  have nm: "name_of Q (GetFile Q) = name" using s(1,6,7) by (simp add: name_of_def)
  have "take (nat (parent_pos (rev a))) Q = parent_prefix a"
    unfolding s(1) by (rule parent_prefix_simps(1) [OF s(4)])
  then have pp: "take (nat (gparent (GetFile Q))) Q = parent_prefix a" "comps (parent_prefix a) = comps a"
    using parent_prefix_simps(2) [OF s(4)] by (simp_all only: s(8))
  have "resolve_loop dirs p t ts = resolve_loop dirs (parent_prefix a) (type_of Q) (name @ (if ts = [] then [] else CHR ''/'' # ts))"
    using g s(2,7,9) nm pp(1)
    by (subst resolve_loop.simps) (simp only: Q [unfolded turned_def, symmetric] Let_def, simp)
  then show ?thesis using s(1-5) a pp(2) by auto
qed

lemma GetFile_none:
  assumes "normal (comps Q) = (u, [])"
  shows "gsize (GetFile Q) = 0" "gtype (GetFile Q) = type_of Q"
    "IsAbsolute Q \<Longrightarrow> gparent (GetFile Q) = 1"
    "\<not> IsAbsolute Q \<Longrightarrow> gpos (GetFile Q) = None \<and> gparent (GetFile Q) = - int (Suc u)"
  using GetFile_spec [of Q, unfolded assms prod.case list.case] by simp_all

lemma joined_push: "names_ok (name # ts) \<Longrightarrow> name @ (if joined ts = [] then [] else CHR ''/'' # joined ts) = joined (name # ts)"
  using joined_Nil [of ts] by (simp add: names_ok_def)

lemma resolve_absolute:
  assumes "normal (comps (turned p t)) = (u, names)" "IsAbsolute (turned p t)" "type_of (turned p t) = T" "names_ok ts"
  shows "resolve_loop dirs p t (joined ts) =
    Some (Some (CHR ''/'' # joined (rev names @ ts) @ resolved_tail T (rev names @ ts)))"
  using assms
proof (induction names arbitrary: p t ts)
  case Nil
  let ?Q = "turned p t"
  note g = GetFile_none [OF Nil.prems(1)]
  have "take 1 ?Q = ''/''" using Nil.prems(2) by (cases ?Q) (auto simp: IsAbsolute_def)
  then show ?case
    using g(1,2) g(3) [OF Nil.prems(2)] Nil.prems(3) joined_Nil [OF Nil.prems(4)]
    by (subst resolve_loop.simps) (simp add: turned_def [symmetric] Let_def resolved_tail_def)
next
  case (Cons name names)
  let ?Q = "turned p t"
  have g: "0 < gparent (GetFile ?Q)"
  proof -
    obtain a b where s: "?Q = a @ name @ b" "name \<noteq> []" "slash_free name" "a = [] \<or> is_slash (last a)"
      "gparent (GetFile ?Q) = parent_pos (rev a)"
      using GetFile_name [OF Cons.prems(1)] by metis
    have "a \<noteq> []"
    proof
      assume "a = []"
      then have "hd name = CHR ''/''" using s(1,2) Cons.prems(2) by (simp add: IsAbsolute_def)
      then show False using s(2,3) hd_in_set [of name] is_slash_slash unfolding slash_free_def by metis
    qed
    then show ?thesis using parent_text(2,3) [OF s(4)] s(5) by linarith
  qed
  obtain a b where s: "?Q = a @ name @ b" "a \<noteq> []" "is_slash (last a)" "normal (comps (parent_prefix a)) = (u, names)"
      "name \<noteq> []" "slash_free name"
      "resolve_loop dirs p t (joined ts) =
        resolve_loop dirs (parent_prefix a) T (name @ (if joined ts = [] then [] else CHR ''/'' # joined ts))"
    using resolve_turn [OF Cons.prems(1) refl g, of dirs "joined ts"] Cons.prems(3) by auto
  have ok: "names_ok (name # ts)" using Cons.prems(4) s(5,6) by (simp add: names_ok_def)
  have pa: "parent_prefix a \<noteq> []" "is_slash (last (parent_prefix a))"
    using parent_prefix_simps(3,6) [of a] s(2,3) by auto
  have "IsAbsolute (parent_prefix a)"
    using parent_prefix_simps(4) [of a "name @ b"] s(1-3) Cons.prems(2) by simp
  then have "resolve_loop dirs (parent_prefix a) T (joined (name # ts)) =
      Some (Some (CHR ''/'' # joined (rev names @ (name # ts)) @ resolved_tail T (rev names @ (name # ts))))"
    using Cons.IH [of "parent_prefix a" T "name # ts"] turned_simps [OF pa] s(4) ok by simp
  then show ?case using s(7) joined_push [OF ok] by simp
qed

lemma resolve_relative_file:
  assumes "normal (comps (turned p t)) = (u, names)" "\<not> IsAbsolute (turned p t)" "type_of (turned p t) = TYPE_FILE"
    "names_ok ts" "names_ok ds" "u < length ds" "CHR 0x5C \<notin> set p"
    "ts \<noteq> [] \<Longrightarrow> t = TYPE_FILE \<and> p \<noteq> [] \<and> is_slash (last p)"
  shows "resolve_loop (dirs_of ds) p t (joined ts) =
    Some (Some (CHR ''/'' # joined (take (length ds - u) ds @ rev names @ ts)))"
  using assms
proof (induction names arbitrary: p t ts)
  case Nil
  let ?Q = "turned p t"
  note g = GetFile_none [OF Nil.prems(1)]
  have pos: "nat (max 0 (- int (Suc u) + int (length (dirs_of ds)) - 1)) + 1 = length ds - u"
    using Nil.prems(6) by (simp add: length_dirs_of)
  have k: "0 < length ds - u" "length ds - u \<le> length ds" "length ds - u < length (dirs_of ds)"
    using Nil.prems(6) by (auto simp: length_dirs_of)
  have "resolve_loop (dirs_of ds) p t (joined ts) = Some (resolve_relative (dirs_of ds) ?Q (GetFile ?Q) (joined ts))"
    using g(4) [OF Nil.prems(2)] by (subst resolve_loop.simps) (simp add: turned_def [symmetric] Let_def)
  also have "resolve_relative (dirs_of ds) ?Q (GetFile ?Q) (joined ts) =
      Some (MakeFile (dirs_of ds ! (length ds - u) @ joined ts))"
    unfolding resolve_relative_def using g(2) g(4) [OF Nil.prems(2)] Nil.prems(3) k(3) pos by (simp add: Let_def)
  finally show ?case using dirs_MakeFile [OF Nil.prems(5,4) k(1,2)] by simp
next
  case (Cons name names)
  let ?Q = "turned p t"
  obtain a b where s: "?Q = a @ name @ b" "name \<noteq> []" "slash_free name" "a = [] \<or> is_slash (last a)" "b = [] \<or> is_slash (hd b)"
    "normal (comps a) = (u, names)" "gpos (GetFile ?Q) = Some (length a)" "gsize (GetFile ?Q) = length name"
    "gparent (GetFile ?Q) = parent_pos (rev a)" "gtype (GetFile ?Q) = type_of ?Q"
    using GetFile_name [OF Cons.prems(1)] by metis
  have ok: "names_ok (name # ts)" using Cons.prems(4) s(2,3) by (simp add: names_ok_def)
  have bs: "CHR 0x5C \<notin> set ?Q" using Cons.prems(7) by (auto simp: turned_def)
  show ?case
  proof (cases "a = []")
    case True
    have u: "u = 0" "names = []" using s(6) True by (simp_all add: comps_def normal_def)
    have g: "gparent (GetFile ?Q) = 0" using s(9) True by (simp add: parent_pos_def)
    have loop: "resolve_loop (dirs_of ds) p t (joined ts) = Some (resolve_relative (dirs_of ds) ?Q (GetFile ?Q) (joined ts))"
      using g by (subst resolve_loop.simps) (simp add: turned_def [symmetric] Let_def)
    have len: "nat (max 0 (gparent (GetFile ?Q) + int (length (dirs_of ds)) - 1)) + 1 = Suc (length ds)"
      using g by (simp add: length_dirs_of)
    have d: "dirs_of ds ! length ds = CHR ''/'' # concat (List.map (\<lambda>w. w @ ''/'') ds)" using dirs_of_nth [of "length ds" ds] by simp
    have "resolve_relative (dirs_of ds) ?Q (GetFile ?Q) (joined ts) = Some (dirs_of ds ! length ds @ joined (name # ts))"
    proof (cases "ts = []")
      case ts: True
      then show ?thesis
        unfolding resolve_relative_def len using s(1,7,8,10) True Cons.prems(3) by (simp add: length_dirs_of)
    next
      case ts: False
      then have p: "?Q = p @ ''.''" "p \<noteq> []" "is_slash (last p)" using Cons.prems(8) by (auto simp: turned_def)
      have "b \<noteq> []"
      proof
        assume "b = []"
        then have "p @ ''.'' = name" using s(1) True p(1) by simp
        then have "last p \<in> set name" using p(2) by auto
        then show False using p(3) s(3) by (auto simp: slash_free_def)
      qed
      then obtain c b' where b: "b = c # b'" by (cases b) auto
      have "c = CHR ''/''" using s(5) bs b unfolding s(1) by (auto simp: is_slash_def)
      then show ?thesis
        unfolding resolve_relative_def len using s(1,7,8) True b ts joined_Nil [OF Cons.prems(4)] by (simp add: length_dirs_of)
    qed
    also have "dirs_of ds ! length ds @ joined (name # ts) = CHR ''/'' # joined (ds @ name # ts)"
      using d concat_joined [of "name # ts" ds] by simp
    finally show ?thesis using loop u by simp
  next
    case False
    have g: "0 < gparent (GetFile ?Q)" using parent_text(2,3) [OF s(4)] s(9) False by linarith
    obtain a' b' where r: "?Q = a' @ name @ b'" "a' \<noteq> []" "is_slash (last a')" "normal (comps (parent_prefix a')) = (u, names)"
      "resolve_loop (dirs_of ds) p t (joined ts) =
        resolve_loop (dirs_of ds) (parent_prefix a') TYPE_FILE (name @ (if joined ts = [] then [] else CHR ''/'' # joined ts))"
      using resolve_turn [OF Cons.prems(1) refl g, of "dirs_of ds" "joined ts"] Cons.prems(3) by auto
    have pa: "parent_prefix a' \<noteq> []" "is_slash (last (parent_prefix a'))"
      using parent_prefix_simps(3,6) [of a'] r(2,3) by auto
    have "\<not> IsAbsolute (parent_prefix a')"
      using parent_prefix_simps(4) [of a' "name @ b'"] r(1-3) Cons.prems(2) by simp
    moreover have "CHR 0x5C \<notin> set (parent_prefix a')"
      using parent_prefix_simps(5) [of a'] r(3) bs unfolding r(1) by auto
    ultimately have "resolve_loop (dirs_of ds) (parent_prefix a') TYPE_FILE (joined (name # ts)) =
      Some (Some (CHR ''/'' # joined (take (length ds - u) ds @ rev names @ (name # ts))))"
      using Cons.IH [of "parent_prefix a'" TYPE_FILE "name # ts"] turned_simps [OF pa] r(4) ok Cons.prems(5,6) pa by simp
    then show ?thesis using r(5) joined_push [OF ok] by simp
  qed
qed

text \<open>The normal form of a path, from the current directory \<open>ds\<close>.\<close>

definition normal_path :: "string list \<Rightarrow> string \<Rightarrow> string" where
  "normal_path ds p =
     (case normal (comps p) of
        (up, names) \<Rightarrow>
          (let ws = (if IsAbsolute p then [] else take (length ds - up) ds) @ rev names
           in CHR ''/'' # joined ws @ resolved_tail (type_of p) ws))"

text \<open>
  C16: Resolving a path returns, and gives its normal form: the names left after every dot component, from the
  root or from the current directory, one slash between them, a slash at the end for a folder. A relative
  path must be a file, without backslash, and must not climb to the root or above (see below).
\<close>

theorem Resolve_normal:
  assumes "names_ok ds" "IsAbsolute p \<or> type_of p = TYPE_FILE \<and> CHR 0x5C \<notin> set p \<and> fst (normal (comps p)) < length ds"
  shows "Resolve (dirs_of ds) p = Some (Some (normal_path ds p))"
proof -
  obtain up names where n: "normal (comps p) = (up, names)" by fastforce
  have t: "turned p TYPE_FOLDER = p" by (simp add: turned_def)
  have ok: "names_ok []" "joined [] = []" by (simp_all add: names_ok_def)
  show ?thesis
  proof (cases "IsAbsolute p")
    case True
    then show ?thesis
      using resolve_absolute [of p TYPE_FOLDER up names "type_of p" "[]"] n t ok
      by (simp add: Resolve_def normal_path_def Let_def)
  next
    case False
    then have a: "type_of p = TYPE_FILE" "CHR 0x5C \<notin> set p" "up < length ds" using assms(2) n by auto
    then show ?thesis
      using resolve_relative_file [of p TYPE_FOLDER up names "[]" ds] n t ok assms(1) False
      by (auto simp: Resolve_def normal_path_def resolved_tail_def Let_def)
  qed
qed

theorem Resolve_normal_witness:
  "Resolve (dirs_of [''home'', ''user'']) ''./logs//../../etc/app.ini'' =
     Some (Some (normal_path [''home'', ''user''] ''./logs//../../etc/app.ini''))"
  by (rule Resolve_normal) code_simp+

section \<open>What goes wrong\<close>

declare resolve_loop.simps [code]

text \<open>From a directory at the root, the level above is the directory itself.\<close>

lemma resolve_root_missed: "Resolve (dirs_of [''home'']) ''..'' = Some (Some ''/home'')"
  by code_simp

text \<open>From the root, a dot component reads at NULL.\<close>

lemma resolve_dot_in_root: "Resolve (dirs_of []) ''./a'' = Some None"
  by code_simp

text \<open>A relative folder of two names loses its slash.\<close>

lemma resolve_folder_is_file:
  "Resolve (dirs_of [''d'']) ''a/b/'' = Some (Some ''/d/a/b'')" "Resolve (dirs_of [''d'']) ''/a/b/'' = Some (Some ''/a/b/'')"
  by code_simp+

text \<open>The root made a file is the empty path, which is the current directory.\<close>

lemma make_file_root: "MakeFile ''/'' = []"
  by code_simp

text \<open>A name of dots removed by a later component leaves its extension behind: \<open>erase\<close> throws.\<close>

lemma base_name_throws: "GetBaseName ''x.../..'' = None"
  by code_simp

end
