(* ===== verification/Path_Objects.thy ===== *)
theory Path_Objects
  imports Paths
begin

text \<open>
  Mona/Disk/Path.h and Path.cpp: a path with its parts, read once (\<open>Path::Impl::init\<close>), and the setters of its name.
  A path without an object is None. The attributes of the file on the disk are not modelled. None outside is
  \<open>std::out_of_range\<close>.
  The lemmas show that the parts of a path make it again, and what the setters change.
\<close>

record path_impl =
  ppath :: string
  pname :: string
  pbase :: string
  pextension :: string
  pparent :: string
  pfolder :: bool
  pabsolute :: bool

definition Path_init :: "string \<Rightarrow> path_impl option" where
  "Path_init path =
     (case GetFile_parts path of
        (t, name, e, parent) \<Rightarrow>
          (let make = (\<lambda>base ext. \<lparr>ppath = path, pname = name, pbase = base, pextension = ext, pparent = parent,
                 pfolder = (t = TYPE_FOLDER), pabsolute = IsAbsolute path\<rparr>)
           in case e of
                None \<Rightarrow> Some (make name [])
              | Some e \<Rightarrow> (if e + 1 > length name then None else Some (make (take e name) (drop (e + 1) name)))))"

definition Path_parts :: "path_impl option \<Rightarrow> path_impl" where
  "Path_parts p =
     (case p of
        None \<Rightarrow> \<lparr>ppath = [], pname = [], pbase = [], pextension = [], pparent = [], pfolder = False, pabsolute = False\<rparr>
      | Some i \<Rightarrow> i)"

text \<open>What comes after the last of some characters.\<close>

definition after_last :: "string \<Rightarrow> string \<Rightarrow> string" where
  "after_last cs s = (case strrpbrk s cs of None \<Rightarrow> s | Some i \<Rightarrow> drop (i + 1) s)"

definition make_path :: "path_impl option \<Rightarrow> string \<Rightarrow> path_impl option" where
  "make_path p path = Path_init (if pfolder (Path_parts p) then MakeFolder path else path)"

text \<open>The setters: whether they accept the text, and the path.\<close>

definition setName :: "string \<Rightarrow> path_impl option \<Rightarrow> (bool \<times> path_impl option) option" where
  "setName s p =
     (let v = after_last [CHR ''/'', CHR 0x5C] s
      in if v = [] \<or> v = ''.'' \<or> v = ''..'' then Some (False, p)
         else map_option (\<lambda>i. (True, Some i)) (make_path p (pparent (Path_parts p) @ v)))"

definition setBaseName :: "string \<Rightarrow> path_impl option \<Rightarrow> (bool \<times> path_impl option) option" where
  "setBaseName s p =
     (let v = after_last [CHR ''/'', CHR 0x5C] s; ext = pextension (Path_parts p)
      in if v = [] \<and> (ext = [] \<or> ext = ''.'') \<or> v = ''.'' \<and> ext = [] then Some (False, p)
         else map_option (\<lambda>i. (True, Some i)) (make_path p (pparent (Path_parts p) @ v @ CHR ''.'' # ext)))"

definition setExtension :: "string \<Rightarrow> path_impl option \<Rightarrow> (bool \<times> path_impl option) option" where
  "setExtension s p =
     (let v = after_last [CHR ''/'', CHR ''.'', CHR 0x5C] s; base = pbase (Path_parts p)
      in if v = [] \<and> (base = [] \<or> base = ''.'') \<or> v = ''.'' \<and> base = [] then Some (False, p)
         else map_option (\<lambda>i. (True, Some i)) (make_path p (pparent (Path_parts p) @ base @ CHR ''.'' # v)))"

section \<open>The parts\<close>

lemma Path_init_name:
  assumes n: "normal (comps p) = (up, name # names)"
  obtains i where "Path_init p = Some i" "ppath i = p" "pname i = name"
    "pextension i = [] \<and> pbase i = name \<or> name = pbase i @ CHR ''.'' # pextension i"
    "pfolder i = (type_of p = TYPE_FOLDER)" "pparent i = [] \<or> is_slash (last (pparent i))"
    "normal (comps (pparent i)) = (up, names)"
proof -
  obtain a b where g: "p = a @ name @ b" "a = [] \<or> is_slash (last a)" "normal (comps a) = (up, names)"
    "gpos (GetFile p) = Some (length a)" "gsize (GetFile p) = length name" "gparent (GetFile p) = parent_pos (rev a)"
    "gtype (GetFile p) = type_of p" "\<forall>e. gext (GetFile p) = Some e \<longrightarrow> e < length name \<and> name ! e = CHR ''.''"
    using GetFile_name [OF n] by metis
  have name: "name_of p (GetFile p) = name" using g(1,4,5) by (simp add: name_of_def)
  have tk: "take (nat (parent_pos (rev a))) p = parent_prefix a"
    unfolding g(1) by (rule parent_prefix_simps(1) [OF g(2)])
  have par: "parent_of p (GetFile p) = parent_prefix a"
    using g(6) tk parent_text(2,3) [OF g(2)] by (auto simp: parent_of_def levels_up_def parent_prefix_def)
  have parts: "GetFile_parts p = (type_of p, name, gext (GetFile p), parent_prefix a)"
    by (simp add: GetFile_parts_def Let_def name par g(7))
  note pp = parent_prefix_simps(2,3) [OF g(2)]
  show thesis
  proof (cases "gext (GetFile p)")
    case None
    then show ?thesis using that g(3) pp by (simp add: Path_init_def parts)
  next
    case (Some e)
    then have e: "e < length name" "name ! e = CHR ''.''" using g(8) by auto
    have "name = take e name @ CHR ''.'' # drop (e + 1) name" using id_take_nth_drop [OF e(1)] e(2) by simp
    then show ?thesis using that g(3) pp e(1) Some by (simp add: Path_init_def parts)
  qed
qed

lemma MakeFolder_comps: "comps (MakeFolder q) = comps q"
proof -
  have "comps (q @ CHR ''/'' # []) = comps q @ comps []" by (rule comps_append) simp
  then show ?thesis by (simp add: MakeFolder_def comps_def)
qed

lemma MakeFolder_type: "type_of (MakeFolder q) = TYPE_FOLDER"
  by (simp add: MakeFolder_def type_of_def)

text \<open>A name after a parent.\<close>

lemma named_path:
  assumes "a = [] \<or> is_slash (last a)" "normal (comps a) = (up, names)" "slash_free v" "v \<notin> {[], ''.'', ''..''}"
  shows "normal (comps (a @ v)) = (up, v # names)" "type_of (a @ v) = TYPE_FILE"
proof -
  have v: "comps v = [v]" using assms(3,4) by (simp add: comps_word slash_free_def)
  have "comps (a @ v) = comps a @ [v]"
  proof (cases a rule: rev_cases)
    case (snoc b c)
    then have "is_slash c" using assms(1) by simp
    from comps_append [OF this, of b v] comps_append [OF this, of b "[]"] show ?thesis
      using v snoc by (simp add: comps_def [of "[]"])
  qed (simp add: v, simp add: comps_def)
  then show "normal (comps (a @ v)) = (up, v # names)" using assms(2,4) by (simp add: normal_snoc push_def)
  show "type_of (a @ v) = TYPE_FILE" using assms(3,4) by (auto simp: type_of_def slash_free_def)
qed

lemma after_last_free: "(\<forall>c \<in> set v. c \<notin> set cs) \<Longrightarrow> after_last cs v = v"
  using strrpbrk_loop_None [of v cs "length v"] by (auto simp: after_last_def strrpbrk_def split: option.split)

lemma make_path_named:
  assumes "pparent i = [] \<or> is_slash (last (pparent i))" "normal (comps (pparent i)) = (up, names)"
    "slash_free v" "v \<notin> {[], ''.'', ''..''}"
  obtains j where "make_path (Some i) (pparent i @ v) = Some j" "pname j = v" "normal (comps (ppath j)) = (up, v # names)"
    "pfolder j = pfolder i"
proof -
  note np = named_path [OF assms]
  let ?q = "if pfolder i then MakeFolder (pparent i @ v) else pparent i @ v"
  have "normal (comps ?q) = (up, v # names)" using np(1) by (simp add: MakeFolder_comps)
  then obtain j where "Path_init ?q = Some j" "ppath j = ?q" "pname j = v" "pfolder j = (type_of ?q = TYPE_FOLDER)"
    by (rule Path_init_name)
  then show ?thesis using that [of j] np by (auto simp: make_path_def Path_parts_def MakeFolder_comps MakeFolder_type)
qed

text \<open>
  A path object is made without an exception when the path has a name; its name is its base name alone, or the
  base name, a dot and the extension, and setting another name keeps the components of the parent before it.
\<close>

theorem path_object_parts:
  assumes "normal (comps p) = (up, name # names)" "slash_free v" "v \<notin> {[], ''.'', ''..''}"
  shows "\<exists>i j. Path_init p = Some i \<and> pname i = name \<and>
    (pextension i = [] \<and> pbase i = name \<or> name = pbase i @ CHR ''.'' # pextension i) \<and>
    setName v (Some i) = Some (True, Some j) \<and> pname j = v \<and> normal (comps (ppath j)) = (up, v # names) \<and>
    pfolder j = pfolder i"
proof -
  obtain i where i: "Path_init p = Some i" "pname i = name"
    "pextension i = [] \<and> pbase i = name \<or> name = pbase i @ CHR ''.'' # pextension i"
    "pparent i = [] \<or> is_slash (last (pparent i))" "normal (comps (pparent i)) = (up, names)"
    using Path_init_name [OF assms(1)] by metis
  obtain j where j: "make_path (Some i) (pparent i @ v) = Some j" "pname j = v" "normal (comps (ppath j)) = (up, v # names)"
    "pfolder j = pfolder i"
    using make_path_named [OF i(4,5) assms(2,3)] by metis
  have "after_last [CHR ''/'', CHR 0x5C] v = v"
    using assms(2) by (intro after_last_free) (auto simp: slash_free_def is_slash_def)
  then have "setName v (Some i) = Some (True, Some j)" using assms(3) j(1) by (simp add: setName_def Path_parts_def)
  then show ?thesis using i j by blast
qed

theorem path_object_parts_witness:
  "\<exists>i j. Path_init ''/srv/live/../clip.mp4'' = Some i \<and> pname i = ''clip.mp4'' \<and>
    (pextension i = [] \<and> pbase i = ''clip.mp4'' \<or> ''clip.mp4'' = pbase i @ CHR ''.'' # pextension i) \<and>
    setName ''a.ts'' (Some i) = Some (True, Some j) \<and> pname j = ''a.ts'' \<and>
    normal (comps (ppath j)) = (0, [''a.ts'', ''srv'']) \<and> pfolder j = pfolder i"
  by (rule path_object_parts) code_simp+

text \<open>Setting the base name of a name without extension adds a dot.\<close>

lemma setBaseName_adds_dot:
  "map_option (\<lambda>(ok, p). (ok, ppath (Path_parts p))) (setBaseName ''b'' (Path_init ''/d/a'')) = Some (True, ''/d/b.'')"
  by code_simp

text \<open>An extension set empty leaves its dot.\<close>

lemma setExtension_keeps_dot:
  "map_option (\<lambda>(ok, p). (ok, ppath (Path_parts p))) (setExtension [] (Path_init ''/d/a.txt'')) = Some (True, ''/d/a.'')"
  by code_simp

end
