(* ===== verification/Urls.thy ===== *)
theory Urls
  imports Path_Objects Text_Codecs
begin

text \<open>
  Mona/Format/URL.cpp: \<open>Parse\<close> (protocol, address and request of an URL) and \<open>ParseRequest\<close> (the path of a
  request, without its dot components and percent-decoded, and its query). \<open>ParseQuery\<close> is in Param\_Texts.
  A text of a given size is its list of bytes, a C text the bytes before its 0. In a block of memory the byte after a
  request of one byte, and after an empty query, is read by the code: it is a 0 here, as in a C text.
  The lemmas show that the parts of an URL come back, and that the path is the normal form of the request.
\<close>

section \<open>\<open>Parse\<close>\<close>

record url =
  ulevel :: nat
  utrim :: bool
  uprotocol :: string
  uaddress :: string

text \<open>\<open>alias\<close>: the same string is given for the protocol and the address.\<close>

definition set_protocol :: "bool \<Rightarrow> string \<Rightarrow> url \<Rightarrow> url" where
  "set_protocol alias s st = st\<lparr>uprotocol := s, uaddress := (if alias then s else uaddress st)\<rparr>"

definition set_address :: "bool \<Rightarrow> string \<Rightarrow> url \<Rightarrow> url" where
  "set_address alias s st = st\<lparr>uaddress := s, uprotocol := (if alias then s else uprotocol st)\<rparr>"

fun url_loop :: "bool \<Rightarrow> string \<Rightarrow> url \<Rightarrow> string \<times> url" where
  "url_loop alias [] st = ([], st)"
| "url_loop alias (c # cs) st =
     (if c = CHR ''?'' then (if ulevel st \<noteq> 0 then (c # cs, st\<lparr>ulevel := 4\<rparr>) else ([], st))
      else if c = NUL then ([], st)
      else if is_slash c then
        (if ulevel st = 0 then ([], st)
         else if ulevel st + 1 > 3 then (c # cs, st\<lparr>ulevel := ulevel st + 1\<rparr>)
         else url_loop alias cs (st\<lparr>ulevel := ulevel st + 1\<rparr>))
      else if c = CHR '':'' \<and> ulevel st = 0 then url_loop alias cs (set_address alias [] (st\<lparr>ulevel := 1\<rparr>))
      else if ulevel st \<noteq> 0 then url_loop alias cs (set_address alias (uaddress st @ [c]) (st\<lparr>ulevel := 3\<rparr>))
      else if utrim st \<and> isspace c then url_loop alias cs st
      else url_loop alias cs (set_protocol alias (uprotocol st @ [c]) (st\<lparr>utrim := False\<rparr>)))"

text \<open>What is after the slashes, with the last one for a file.\<close>

definition url_request :: "string \<Rightarrow> string \<Rightarrow> string" where
  "url_request protocol rest =
     (let slashs = takeWhile is_slash rest
      in if slashs \<noteq> [] \<and> protocol = ''file'' then last slashs # dropWhile is_slash rest else dropWhile is_slash rest)"

definition URL_Parse :: "bool \<Rightarrow> string \<Rightarrow> string \<times> string \<times> string" where
  "URL_Parse alias url =
     (case url_loop alias url \<lparr>ulevel = 0, utrim = True, uprotocol = [], uaddress = []\<rparr> of
        (rest, st) \<Rightarrow>
          (if ulevel st \<noteq> 0 then (url_request (uprotocol st) rest, uprotocol st, uaddress st) else (url, [], [])))"

section \<open>\<open>ParseRequest\<close>\<close>

record request =
  rpath :: string
  rslashs :: "nat list"
  rlevel :: nat
  rdecoding :: nat

definition resize_text :: "nat \<Rightarrow> string \<Rightarrow> string" where
  "resize_text n s = take n s @ replicate (n - length s) NUL"

definition request_slash :: "request \<Rightarrow> request" where
  "request_slash st =
     (let st = (if rlevel st > 2 then
                  (case rslashs st of
                     s # ss \<Rightarrow> st\<lparr>rpath := resize_text s (rpath st), rslashs := ss\<rparr>
                   | [] \<Rightarrow> st\<lparr>rpath := []\<rparr>)
                else st)
      in st\<lparr>rlevel := 1\<rparr>)"

text \<open>Any other character: None is \<open>std::length_error\<close>, from \<open>resize(size() - 2)\<close>.\<close>

definition request_char :: "char \<Rightarrow> request \<Rightarrow> request option" where
  "request_char c st =
     (if rlevel st \<noteq> 0 \<and> rlevel st < 3 \<and> c = CHR ''.'' then Some (st\<lparr>rlevel := rlevel st + 1\<rparr>)
      else
        (let st = (if rlevel st \<noteq> 0
                   then st\<lparr>rslashs := length (rpath st) # rslashs st, rpath := rpath st @ take (rlevel st) ''/..'', rlevel := 0\<rparr>
                   else st)
         in if c = CHR ''%'' then Some (st\<lparr>rdecoding := 1, rpath := rpath st @ [c]\<rparr>)
            else
              (let d = (if rdecoding st \<noteq> 0 then rdecoding st + 1 else 0)
               in if d > 2 then
                    (if length (rpath st) < 2 then None
                     else Some (st\<lparr>rdecoding := 0,
                       rpath := take (length (rpath st) - 2) (rpath st) @ snd (FromURI_pair (last (rpath st)) c)\<rparr>))
                  else Some (st\<lparr>rdecoding := d, rpath := rpath st @ [c]\<rparr>))))"

fun request_loop :: "string \<Rightarrow> request \<Rightarrow> (string \<times> request) option" where
  "request_loop [] st = Some ([], st)"
| "request_loop (c # cs) st =
     (if c = CHR ''?'' then Some (c # cs, st)
      else if is_slash c then request_loop cs (request_slash st)
      else (case request_char c st of None \<Rightarrow> None | Some st \<Rightarrow> request_loop cs st))"

text \<open>The beginning: whether the request is relative, and what is left of it.\<close>

definition request_start :: "bool \<Rightarrow> string \<Rightarrow> bool \<times> string" where
  "request_start force_relative request =
     (let request = (if force_relative then dropWhile is_slash request else request);
          relative = (request = [] \<or> \<not> is_slash (hd request))
      in (relative, if \<not> relative \<and> IsAbsolute (tl request) then tl request else request))"

definition request_end :: "bool \<Rightarrow> request \<Rightarrow> string" where
  "request_end make_folder st =
     (if rlevel st \<noteq> 0 then
        (if rlevel st > 2 then resize_text (case rslashs st of [] \<Rightarrow> 0 | s # _ \<Rightarrow> s) (rpath st) else rpath st) @ ''/''
      else if make_folder then rpath st @ ''/'' else rpath st)"

text \<open>The path and the query.\<close>

definition ParseRequest :: "bool \<Rightarrow> bool \<Rightarrow> string \<Rightarrow> (string \<times> string) option" where
  "ParseRequest make_folder force_relative request =
     (case request_start force_relative request of
        (relative, request) \<Rightarrow>
          (case request_loop request \<lparr>rpath = [], rslashs = [], rlevel = 0, rdecoding = 0\<rparr> of
             None \<Rightarrow> None
           | Some (query, st) \<Rightarrow>
               (let path = request_end make_folder st in Some (if relative then MakeRelative path else path, query))))"

definition ParseRequest_Path :: "bool \<Rightarrow> bool \<Rightarrow> string \<Rightarrow> (path_impl \<times> string) option" where
  "ParseRequest_Path make_folder force_relative request =
     (case ParseRequest make_folder force_relative request of
        None \<Rightarrow> None
      | Some (path, query) \<Rightarrow> map_option (\<lambda>i. (i, query)) (Path_init path))"

declare isspace_iff [code] isxdigit_iff [code]

section \<open>The parts of an URL\<close>

definition url_word :: "string \<Rightarrow> bool" where
  "url_word w \<longleftrightarrow> (\<forall>c \<in> set w. \<not> is_slash c \<and> c \<noteq> CHR ''?'' \<and> c \<noteq> NUL)"

lemma url_word_Cons [simp]: "url_word (c # w) \<longleftrightarrow> \<not> is_slash c \<and> c \<noteq> CHR ''?'' \<and> c \<noteq> NUL \<and> url_word w"
  by (auto simp: url_word_def)

lemma url_loop_protocol:
  assumes "url_word w" "CHR '':'' \<notin> set w" "ulevel st = 0" "utrim st \<Longrightarrow> w = [] \<or> \<not> isspace (hd w)"
  shows "url_loop False (w @ rest) st =
    url_loop False rest (st\<lparr>uprotocol := uprotocol st @ w, utrim := (utrim st \<and> w = [])\<rparr>)"
  using assms
proof (induction w arbitrary: st)
  case Nil
  then show ?case by simp
next
  case (Cons c w)
  then have "c \<noteq> CHR '':''" "\<not> (utrim st \<and> isspace c)" by auto
  then have "url_loop False ((c # w) @ rest) st =
      url_loop False (w @ rest) (st\<lparr>utrim := False, uprotocol := uprotocol st @ [c]\<rparr>)"
    using Cons.prems by (auto simp: set_protocol_def)
  also have "\<dots> = url_loop False rest (st\<lparr>utrim := False, uprotocol := (uprotocol st @ [c]) @ w\<rparr>)"
    using Cons.prems by (subst Cons.IH) (cases st; simp)+
  finally show ?case by (cases st) (simp del: url_loop.simps)
qed

lemma url_loop_address:
  assumes "url_word w" "ulevel st = 3"
  shows "url_loop False (w @ rest) st = url_loop False rest (st\<lparr>uaddress := uaddress st @ w\<rparr>)"
  using assms
proof (induction w arbitrary: st)
  case Nil
  then show ?case by simp
next
  case (Cons c w)
  then have "url_loop False ((c # w) @ rest) st = url_loop False (w @ rest) (st\<lparr>uaddress := uaddress st @ [c]\<rparr>)"
    by (cases st) (simp add: set_address_def)
  then show ?case using Cons by simp
qed

lemma is_slash_not: "is_slash c \<Longrightarrow> c \<noteq> NUL \<and> c \<noteq> CHR ''?''"
  by (cases "c = CHR ''/''") (simp_all add: is_slash_def NUL_def eq_commute [of _ "chr 0"] chr_eq_iff code_def)

lemma url_loop_stops:
  assumes "rest = [] \<or> is_slash (hd rest) \<or> hd rest = CHR ''?''" "ulevel st = 3"
  obtains st' where "url_loop False rest st = (rest, st')" "ulevel st' \<noteq> 0" "uprotocol st' = uprotocol st" "uaddress st' = uaddress st"
proof (cases rest)
  case Nil
  then show ?thesis using that [of st] assms(2) by simp
next
  case (Cons c r)
  then have c: "c = CHR ''?'' \<or> is_slash c \<and> c \<noteq> CHR ''?'' \<and> c \<noteq> NUL"
    using assms(1) is_slash_not by auto
  have "url_loop False rest st = (rest, st\<lparr>ulevel := 4\<rparr>)"
    unfolding Cons using c assms(2) by (elim disjE conjE) (simp_all only: url_loop.simps, simp_all)
  then show ?thesis using that by simp
qed

text \<open>
  The URL of a protocol, an address and a request has them as parts: the protocol without leading spaces, the
  address up to a slash or a question mark, the request without its leading slashes, but one for a file.
\<close>

theorem URL_Parse_parts:
  assumes "url_word protocol" "CHR '':'' \<notin> set protocol" "protocol = [] \<or> \<not> isspace (hd protocol)" "url_word address"
    "request = [] \<or> is_slash (hd request) \<or> hd request = CHR ''?''" "\<forall>c \<in> set spaces. isspace c \<and> c \<noteq> NUL"
  shows "URL_Parse False (spaces @ protocol @ ''://'' @ address @ request) = (url_request protocol request, protocol, address)"
proof -
  let ?st = "\<lparr>ulevel = 0, utrim = True, uprotocol = [], uaddress = []\<rparr>"
  have sp: "url_loop False (spaces @ r) ?st = url_loop False r ?st" for r
    using assms(6)
  proof (induction spaces)
    case (Cons c cs)
    have "c \<noteq> CHR ''?'' \<and> c \<noteq> CHR '':'' \<and> \<not> is_slash c" using Cons.prems by (auto simp: is_slash_def isspace_iff code_def)
    then show ?case using Cons by simp
  qed simp
  obtain st where st: "url_loop False request \<lparr>ulevel = 3, utrim = protocol = [], uprotocol = protocol, uaddress = address\<rparr> = (request, st)"
    "ulevel st \<noteq> 0" "uprotocol st = protocol" "uaddress st = address"
    using url_loop_stops [OF assms(5)] by (metis url.select_convs(1,3,4))
  have nul: "CHR ''/'' \<noteq> NUL" "CHR '':'' \<noteq> NUL"
    by (simp_all add: NUL_def eq_commute [of _ "chr 0"] chr_eq_iff code_def)
  have "url_loop False (protocol @ ''://'' @ address @ request) ?st =
      url_loop False (address @ request) \<lparr>ulevel = 3, utrim = protocol = [], uprotocol = protocol, uaddress = []\<rparr>"
    using assms(1-3) nul by (subst url_loop_protocol) (auto simp: is_slash_def set_address_def numeral_3_eq_3)
  also have "\<dots> = (request, st)" using assms(4) st(1) by (subst url_loop_address) simp_all
  finally show ?thesis using st(2-4) by (simp only: URL_Parse_def sp) simp
qed

theorem URL_Parse_parts_witness:
  "URL_Parse False ('' '' @ ''file'' @ ''://'' @ ''disk:1'' @ ''//a/b?c'') = (url_request ''file'' ''//a/b?c'', ''file'', ''disk:1'')"
  by (rule URL_Parse_parts) (code_simp | simp)+

section \<open>The names of a request\<close>

definition plain :: "string \<Rightarrow> bool" where
  "plain s \<longleftrightarrow> CHR ''%'' \<notin> set s \<and> CHR ''?'' \<notin> set s"

text \<open>The path for a first name \<open>b\<close>, or nothing, and the names after it, the last one first.\<close>

fun rq_path :: "string \<Rightarrow> string list \<Rightarrow> string" where
  "rq_path b [] = b"
| "rq_path b (w # ws) = rq_path b ws @ CHR ''/'' # w"

fun rq_slashs :: "string \<Rightarrow> string list \<Rightarrow> nat list" where
  "rq_slashs b [] = []"
| "rq_slashs b (w # ws) = length (rq_path b ws) # rq_slashs b ws"

definition rq :: "nat \<Rightarrow> string \<Rightarrow> string list \<Rightarrow> request" where
  "rq level b ws = \<lparr>rpath = rq_path b ws, rslashs = rq_slashs b ws, rlevel = level, rdecoding = 0\<rparr>"

definition rq_names :: "string \<Rightarrow> string list \<Rightarrow> string list" where
  "rq_names b ws = ws @ (if b = [] then [] else [b])"

text \<open>A component removed.\<close>

fun rq_up :: "string \<Rightarrow> string list \<Rightarrow> string \<times> string list" where
  "rq_up b [] = ([], [])"
| "rq_up b (w # ws) = (b, ws)"

lemma request_slash_rq: "level \<le> 2 \<Longrightarrow> request_slash (rq level b ws) = rq 1 b ws"
  "request_slash (rq 3 b ws) = (case rq_up b ws of (b, ws) \<Rightarrow> rq 1 b ws)"
  by (simp add: request_slash_def rq_def) (cases ws; simp add: request_slash_def rq_def resize_text_def)

lemma request_end_rq:
  "level \<in> {1, 2} \<Longrightarrow> request_end mf (rq level b ws) = rq_path b ws @ ''/''"
  "request_end mf (rq 0 b ws) = rq_path b ws @ (if mf then ''/'' else [])"
  "request_end mf (rq 3 b ws) = (case rq_up b ws of (b, ws) \<Rightarrow> rq_path b ws @ ''/'')"
  by (auto simp: request_end_def rq_def) (cases ws; simp add: request_end_def rq_def resize_text_def)

text \<open>The characters of a name.\<close>

lemma request_loop_chars:
  assumes "plain w" "slash_free w" "rlevel st = 0" "rdecoding st = 0"
  shows "request_loop (w @ r) st = request_loop r (st\<lparr>rpath := rpath st @ w\<rparr>)"
  using assms
proof (induction w arbitrary: st)
  case Nil
  then show ?case by simp
next
  case (Cons c w)
  then have "c \<noteq> CHR ''%''" "c \<noteq> CHR ''?''" "\<not> is_slash c" "plain w" "slash_free w"
    by (auto simp: plain_def slash_free_def)
  then show ?case using Cons by (cases st) (simp add: request_char_def)
qed

definition word_level :: "string \<Rightarrow> nat" where
  "word_level w = (if w = [] then 1 else if w = ''.'' then 2 else if w = ''..'' then 3 else 0)"

lemma request_loop_word:
  assumes "plain w" "slash_free w"
  shows "request_loop (w @ r) (rq 1 b ws) =
    request_loop r (if word_level w = 0 then rq 0 b (w # ws) else rq (word_level w) b ws)"
proof -
  have name: "request_loop (c # v @ r) (rq (Suc (length d)) b ws) = request_loop r (rq 0 b ((d @ c # v) # ws))"
    if "d \<in> {[], ''.'', ''..''}" "d = ''..'' \<or> c \<noteq> CHR ''.''" "plain (c # v)" "slash_free (c # v)" for c v d
  proof -
    have c: "c \<noteq> CHR ''%''" "c \<noteq> CHR ''?''" "\<not> is_slash c" and v: "plain v" "slash_free v"
      using that(3,4) by (auto simp: plain_def slash_free_def)
    have "request_char c (rq (Suc (length d)) b ws) =
        Some ((rq 0 b ws)\<lparr>rslashs := length (rq_path b ws) # rq_slashs b ws, rpath := rq_path b ws @ CHR ''/'' # d @ [c]\<rparr>)"
      using that(1,2) c by (auto simp: request_char_def rq_def)
    then show ?thesis using c v by (simp add: request_loop_chars rq_def)
  qed
  have dot: "request_loop (CHR ''.'' # v) (rq l b ws) = request_loop v (rq (Suc l) b ws)" if "0 < l" "l < 3" for v l
    using that by (simp add: is_slash_def request_char_def rq_def)
  consider "w = []" | "w = ''.''" | "w = ''..''" | c v where "w = c # v" "c \<noteq> CHR ''.''"
    | c v where "w = CHR ''.'' # c # v" "c \<noteq> CHR ''.''" | c v where "w = ''..'' @ c # v"
    by (metis append_Cons append_Nil list.exhaust)
  then show ?thesis
  proof cases
    case 1
    then show ?thesis by (simp add: word_level_def)
  next
    case 2
    then show ?thesis using dot [of 1 r] by (simp add: word_level_def numeral_2_eq_2)
  next
    case 3
    then show ?thesis using dot [of 1 "CHR ''.'' # r"] dot [of 2 r] by (simp add: word_level_def numeral_2_eq_2 numeral_3_eq_3)
  next
    case (4 c v)
    then show ?thesis using name [of "[]" c v] assms by (simp add: word_level_def)
  next
    case (5 c v)
    then have "plain (c # v)" "slash_free (c # v)" using assms by (auto simp: plain_def slash_free_def)
    then show ?thesis using name [of "''.''" c v] 5 dot [of 1 "c # v @ r"] by (simp add: word_level_def)
  next
    case (6 c v)
    then have "plain (c # v)" "slash_free (c # v)" using assms by (auto simp: plain_def slash_free_def)
    then show ?thesis using name [of "''..''" c v] 6 dot [of 1 "CHR ''.'' # c # v @ r"] dot [of 2 "c # v @ r"]
      by (simp add: word_level_def numeral_2_eq_2 numeral_3_eq_3)
  qed
qed

text \<open>From a slash: the components, then the end.\<close>

definition rest_names :: "string \<Rightarrow> string list \<Rightarrow> string list" where
  "rest_names s names = snd (foldl push (0, names) (filter (\<lambda>w. w \<noteq> []) (splits s)))"

lemma push_names: "snd (foldl push (u, names) ws) = snd (foldl push (v, names) ws)"
proof (induction ws arbitrary: u v names)
  case (Cons w ws)
  have "snd (push (u, names) w) = snd (push (v, names) w)" by (auto simp: push_def split: list.split)
  then show ?case using Cons.IH [of "fst (push (u, names) w)" "snd (push (u, names) w)" "fst (push (v, names) w)"]
    by (cases "push (u, names) w"; cases "push (v, names) w") simp
qed simp

lemma rest_names_word: "slash_free w \<Longrightarrow> rest_names w names = (if w = [] then names else snd (push (0, names) w))"
  by (simp add: rest_names_def splits_word slash_free_def)

lemma rest_names_slash:
  "slash_free w \<Longrightarrow> is_slash c \<Longrightarrow> rest_names (w @ c # s) names = rest_names s (rest_names w names)"
  by (simp add: rest_names_def splits_append splits_word slash_free_def) (metis prod.collapse push_names)

lemma word_split:
  obtains "slash_free s" | w c t where "s = w @ c # t" "slash_free w" "is_slash c"
proof (cases "slash_free s")
  case False
  then obtain w c t where "s = w @ c # t" "is_slash c" "\<forall>x \<in> set w. \<not> is_slash x"
    unfolding slash_free_def using split_list_first_prop [of s is_slash] by blast
  then show ?thesis using that(2) by (simp add: slash_free_def)
qed (rule that(1))

lemma rq_up_names: "rq_names (fst (rq_up b ws)) (snd (rq_up b ws)) = tl (rq_names b ws)"
  by (cases ws) (simp_all add: rq_names_def)

lemma word_level_names:
  "slash_free w \<Longrightarrow> rest_names w names =
    (if word_level w = 0 then w # names else if word_level w = 3 then tl names else names)"
  by (cases names) (auto simp: rest_names_word word_level_def push_def)

text \<open>The path of names: the first one follows a slash, or not.\<close>

definition request_text :: "bool \<Rightarrow> bool \<Rightarrow> string list \<Rightarrow> string" where
  "request_text root folder names = (if root then ''/'' else []) @ joined (rev names) @ (if names \<noteq> [] \<and> folder then ''/'' else [])"

definition ends_folder :: "string \<Rightarrow> bool" where
  "ends_folder s \<longleftrightarrow> word_level (last (splits s)) \<noteq> 0"

lemma word_level_cases: "word_level w \<in> {0, 1, 2, 3}"
  by (simp add: word_level_def)

lemma request_slash_word:
  obtains b' ws' where "request_slash (if word_level w = 0 then rq 0 b (w # ws) else rq (word_level w) b ws) = rq 1 b' ws'"
    "slash_free w \<Longrightarrow> rq_names b' ws' = rest_names w (rq_names b ws)" "b' \<in> {b, []}"
proof -
  consider "word_level w = 0" | "word_level w \<noteq> 0" "word_level w \<noteq> 3" "word_level w \<le> 2" | "word_level w = 3"
    using word_level_cases [of w] by force
  then show ?thesis
  proof cases
    case 1
    then show ?thesis
      using that [of b "w # ws"] word_level_names [of w "rq_names b ws"] by (simp add: request_slash_rq) (simp add: rq_names_def)
  next
    case 2
    then show ?thesis using that [of b ws] word_level_names [of w "rq_names b ws"] by (simp add: request_slash_rq)
  next
    case 3
    then show ?thesis
      using that [of "fst (rq_up b ws)" "snd (rq_up b ws)"] word_level_names [of w "rq_names b ws"] rq_up_names [of b ws]
      by (cases ws) (simp_all add: request_slash_rq)
  qed
qed

lemma request_end_word:
  obtains b' ws' where
    "request_end mf (if word_level w = 0 then rq 0 b (w # ws) else rq (word_level w) b ws) =
       rq_path b' ws' @ (if mf \<or> word_level w \<noteq> 0 then ''/'' else [])"
    "slash_free w \<Longrightarrow> rq_names b' ws' = rest_names w (rq_names b ws)" "b' \<in> {b, []}"
proof -
  consider "word_level w = 0" | "word_level w \<noteq> 0" "word_level w \<noteq> 3" "word_level w \<in> {1, 2}" | "word_level w = 3"
    using word_level_cases [of w] by force
  then show ?thesis
  proof cases
    case 1
    then show ?thesis
      using that [of b "w # ws"] word_level_names [of w "rq_names b ws"] by (simp add: request_end_rq) (simp add: rq_names_def)
  next
    case 2
    then show ?thesis using that [of b ws] word_level_names [of w "rq_names b ws"] by (simp add: request_end_rq(1))
  next
    case 3
    then show ?thesis
      using that [of "fst (rq_up b ws)" "snd (rq_up b ws)"] word_level_names [of w "rq_names b ws"] rq_up_names [of b ws]
      by (cases ws) (simp_all add: request_end_rq)
  qed
qed

lemma request_loop_rest:
  assumes "plain s" "q = [] \<or> hd q = CHR ''?''"
  obtains st b' ws' where "request_loop (s @ q) (rq 1 b ws) = Some (q, st)"
    "request_end mf st = rq_path b' ws' @ (if mf \<or> ends_folder s then ''/'' else [])"
    "rq_names b' ws' = rest_names s (rq_names b ws)" "b' \<in> {b, []}"
proof -
  have "\<exists>st b' ws'. request_loop (s @ q) (rq 1 b ws) = Some (q, st) \<and>
    request_end mf st = rq_path b' ws' @ (if mf \<or> ends_folder s then ''/'' else []) \<and>
    rq_names b' ws' = rest_names s (rq_names b ws) \<and> b' \<in> {b, []}"
    using assms(1)
  proof (induction s arbitrary: b ws rule: length_induct)
    case (1 s)
    have fin: "request_loop q st = Some (q, st)" for st
      using assms(2) by (cases q) simp_all
    show ?case
    proof (cases s rule: word_split)
      case 1
      then have e: "ends_folder s = (word_level s \<noteq> 0)" by (simp add: ends_folder_def splits_word slash_free_def)
      show ?thesis
        unfolding request_loop_word [OF \<open>plain s\<close> 1] fin e using request_end_word [of mf s b ws] 1 by metis
    next
      case (2 w c t)
      then have p: "plain w" "plain t" "c \<noteq> CHR ''?''" "length t < length s" using \<open>plain s\<close> by (auto simp: plain_def)
      have e: "ends_folder s = ends_folder t" using 2 by (simp add: ends_folder_def splits_append)
      obtain b2 ws2 where sl: "request_slash (if word_level w = 0 then rq 0 b (w # ws) else rq (word_level w) b ws) = rq 1 b2 ws2"
        "rq_names b2 ws2 = rest_names w (rq_names b ws)" "b2 \<in> {b, []}"
        using request_slash_word [of w b ws] 2(2) by metis
      have "request_loop (s @ q) (rq 1 b ws) = request_loop (t @ q) (rq 1 b2 ws2)"
        using request_loop_word [OF p(1) 2(2), of "c # t @ q" b ws] 2(1,3) p(3) sl(1) by simp
      moreover obtain st b' ws' where "request_loop (t @ q) (rq 1 b2 ws2) = Some (q, st)"
        "request_end mf st = rq_path b' ws' @ (if mf \<or> ends_folder t then ''/'' else [])"
        "rq_names b' ws' = rest_names t (rq_names b2 ws2)" "b' \<in> {b2, []}"
        using "1.IH" p(2,4) by blast
      moreover have "rest_names s (rq_names b ws) = rest_names t (rq_names b2 ws2)"
        using rest_names_slash [OF 2(2,3)] sl(2) 2(1) by simp
      ultimately show ?thesis using e sl(3) by auto
    qed
  qed
  then show ?thesis using that by blast
qed

lemma names_ok_rest: "names_ok names \<Longrightarrow> names_ok (rest_names s names)"
proof (induction s arbitrary: names rule: length_induct)
  case (1 s)
  have word: "names_ok (rest_names w names)" if "slash_free w" for w
    using 1(2) that word_level_names [OF that, of names]
    by (cases names) (auto simp: names_ok_def word_level_def split: if_splits)
  show ?case
  proof (cases s rule: word_split)
    case 1
    then show ?thesis by (rule word)
  next
    case (2 w c t)
    then show ?thesis using "1.IH" word [OF 2(2)] rest_names_slash [OF 2(2,3)] by simp
  qed
qed

lemma normal_rest: "snd (normal (comps s)) = rest_names s []"
  by (simp add: normal_def comps_def rest_names_def)

text \<open>The path of the names.\<close>

lemma joined_snoc: "joined (ws @ [w]) = (if ws = [] then w else joined ws @ CHR ''/'' # w)"
  by (induction ws) auto

lemma rq_path_joined:
  "rq_path b ws = (if b = [] then (if ws = [] then [] else CHR ''/'' # joined (rev ws)) else joined (rev (rq_names b ws)))"
  by (induction ws) (auto simp: rq_names_def joined_snoc)

lemma MakeRelative_joined:
  assumes "names_ok ws"
  shows "MakeRelative (joined ws @ (if ws \<noteq> [] \<and> f then ''/'' else [])) = joined ws @ (if ws \<noteq> [] \<and> f then ''/'' else [])"
proof (cases ws)
  case (Cons w ws')
  then obtain c v where "w = c # v" "\<not> is_slash c" using assms by (cases w) (auto simp: names_ok_def slash_free_def)
  then show ?thesis using Cons by (simp add: MakeRelative_def)
qed (simp add: MakeRelative_def)

lemma MakeRelative_slash: "MakeRelative (CHR ''/'' # s) = MakeRelative s"
  by (simp add: MakeRelative_def)

lemma rq_path_relative:
  assumes "rq_names b ws = names" "names_ok names"
  shows "MakeRelative (rq_path b ws @ (if f then ''/'' else [])) = request_text False f names"
proof -
  have t: "request_text False f names = joined (rev names) @ (if rev names \<noteq> [] \<and> f then ''/'' else [])"
    by (simp add: request_text_def)
  have m: "MakeRelative \<dots> = \<dots>" using assms(2) by (intro MakeRelative_joined) (simp add: names_ok_def)
  show ?thesis
  proof (cases "b = [] \<and> ws = []")
    case True
    then show ?thesis using assms(1) by (simp add: rq_names_def request_text_def MakeRelative_def)
  next
    case False
    then have "rev names \<noteq> []" using assms(1) by (auto simp: rq_names_def)
    then show ?thesis
      using m False assms(1) MakeRelative_slash [of "joined (rev names) @ (if f then ''/'' else [])"]
      unfolding t rq_path_joined by (auto simp: rq_names_def)
  qed
qed

lemma rq_path_root:
  "ws \<noteq> [] \<or> f \<Longrightarrow> rq_path [] ws @ (if f then ''/'' else []) = request_text True f ws"
  by (auto simp: rq_path_joined request_text_def)

lemma rest_names_file: "\<not> ends_folder s \<Longrightarrow> rest_names s names \<noteq> []"
proof (induction s arbitrary: names rule: length_induct)
  case (1 s)
  show ?case
  proof (cases s rule: word_split)
    case 1
    then show ?thesis
      using "1.prems" word_level_names [OF 1] by (simp add: ends_folder_def splits_word slash_free_def)
  next
    case (2 w c t)
    then show ?thesis
      using "1.IH" "1.prems" rest_names_slash [OF 2(2,3)] by (simp add: ends_folder_def splits_append)
  qed
qed

lemma IsFolder_ends: "IsFolder s = ends_folder s"
proof -
  have three: "IsFolder (u @ [z, y, x]) = (is_slash x \<or> x = CHR ''.'' \<and> (is_slash y \<or> y = CHR ''.'' \<and> is_slash z))" for u z y x
    by (simp add: IsFolder_def nth_append)
  have rev: "IsFolder s = (case rev s of [] \<Rightarrow> True
      | x # xs \<Rightarrow> is_slash x \<or> x = CHR ''.'' \<and> (case xs of [] \<Rightarrow> True
          | y # ys \<Rightarrow> is_slash y \<or> y = CHR ''.'' \<and> (ys = [] \<or> is_slash (hd ys))))"
  proof (cases s rule: rev_cases)
    case (snoc t x)
    then show ?thesis
    proof (cases t rule: rev_cases)
      case t: (snoc u y)
      then show ?thesis using snoc by (cases u rule: rev_cases) (simp_all add: three, simp add: IsFolder_def)
    qed (simp add: IsFolder_def)
  qed (simp add: IsFolder_def)
  obtain a w where s: "s = a @ w" "slash_free w" "a = [] \<or> is_slash (last a)"
  proof (cases rule: path_cases [of s])
    case (4 a c w)
    then show ?thesis using that [of "a @ [c]" w] by (simp add: slash_free_def)
  qed (use that [of s "[]"] that [of "[]" s] in \<open>auto simp: slash_free_def\<close>)
  have l: "last (splits s) = w"
  proof (cases a rule: rev_cases)
    case Nil
    then show ?thesis using s by (simp add: splits_word slash_free_def)
  next
    case (snoc b c)
    then have "splits s = splits b @ [w]" using s splits_append [of c b w] by (simp add: splits_word slash_free_def)
    then show ?thesis by simp
  qed
  have "rev s = rev w @ rev a" "a = [] \<or> is_slash (hd (rev a))" using s by (simp_all add: hd_rev)
  moreover have "\<forall>c \<in> set (rev w). \<not> is_slash c" using s(2) by (simp add: slash_free_def)
  moreover have "(word_level w \<noteq> 0) = (rev w \<in> {[], ''.'', ''..''})" by (auto simp: word_level_def rev_swap)
  ultimately have calculation: "rev s = rev w @ rev a" "a = [] \<or> is_slash (hd (rev a))" "\<forall>c \<in> set (rev w). \<not> is_slash c"
    "(word_level w \<noteq> 0) = (rev w \<in> {[], ''.'', ''..''})" by blast+
  have dot: "\<not> is_slash (CHR ''.'')" by (simp add: is_slash_def)
  have "(case rev s of [] \<Rightarrow> True
      | x # xs \<Rightarrow> is_slash x \<or> x = CHR ''.'' \<and> (case xs of [] \<Rightarrow> True
          | y # ys \<Rightarrow> is_slash y \<or> y = CHR ''.'' \<and> (ys = [] \<or> is_slash (hd ys)))) = (rev w \<in> {[], ''.'', ''..''})"
  proof (cases "rev w")
    case Nil
    then show ?thesis using calculation(1,2) by (cases "rev a") auto
  next
    case x: (Cons x v)
    show ?thesis
    proof (cases v)
      case Nil
      then show ?thesis using x calculation(1-3) dot by (cases "rev a") auto
    next
      case (Cons y u)
      then show ?thesis using x calculation(1-3) dot by (cases u; cases "rev a") auto
    qed
  qed
  then show ?thesis unfolding rev ends_folder_def l calculation(4) .
qed

lemma dropWhile_slash:
  "comps (dropWhile is_slash s) = comps s" "ends_folder (dropWhile is_slash s) = ends_folder s"
proof -
  have c: "comps (c # t) = comps t" "ends_folder (c # t) = ends_folder t" if "is_slash c" for c t
    using that by (simp_all add: comps_def ends_folder_def)
  show "comps (dropWhile is_slash s) = comps s" "ends_folder (dropWhile is_slash s) = ends_folder s"
    by (induction s) (simp_all add: c)
qed

lemma request_from_start: "\<lparr>rpath = [], rslashs = [], rlevel = 0, rdecoding = 0\<rparr> = rq 0 [] []"
  by (simp add: rq_def)

text \<open>What is left of a request after the forced relative start.\<close>

lemma request_rest:
  assumes "plain request" "rest = (if force then dropWhile is_slash request else request)"
  shows "comps rest = comps request" "ends_folder rest = IsFolder request" "plain rest"
  using assms(1) dropWhile_slash [of request] by (auto simp: assms(2) IsFolder_ends plain_def dest: set_dropWhileD)

lemma request_rest_query:
  assumes "query = [] \<or> hd query = CHR ''?''" "rest = (if force then dropWhile is_slash request else request)"
  shows "(if force then dropWhile is_slash (request @ query) else request @ query) = rest @ query"
    "(rest @ query = [] \<or> \<not> is_slash (hd (rest @ query))) = (rest = [] \<or> \<not> is_slash (hd rest))"
proof -
  have q: "query = [] \<or> \<not> is_slash (hd query)" using assms(1) by (auto simp: is_slash_def)
  show "(if force then dropWhile is_slash (request @ query) else request @ query) = rest @ query"
    using q by (cases query) (auto simp: assms(2) dropWhile_append3 dropWhile_append)
  show "(rest @ query = [] \<or> \<not> is_slash (hd (rest @ query))) = (rest = [] \<or> \<not> is_slash (hd rest))"
    using q by (cases rest) auto
qed

text \<open>A request that begins with a slash.\<close>

lemma ParseRequest_root:
  assumes "plain request" "query = [] \<or> hd query = CHR ''?''"
    "rest = (if force then dropWhile is_slash request else request)" "rest = c # s" "is_slash c"
  shows "ParseRequest folder force (request @ query) =
    Some (request_text True (folder \<or> IsFolder request) (snd (normal (comps request))), query)"
proof -
  note rest = request_rest [OF assms(1,3)] and dw = request_rest_query [OF assms(2,3)]
  obtain d t where t: "(if IsAbsolute (s @ query) then s @ query else rest @ query) = d # t @ query" "is_slash d"
      "comps t = comps request" "ends_folder t = IsFolder request" "plain t"
  proof (cases "IsAbsolute (s @ query)")
    case True
    then obtain t where "s = CHR ''/'' # t" using assms(2) by (cases s) (auto simp: IsAbsolute_def)
    then show ?thesis
      using that [of "CHR ''/''" t] True rest assms(4,5) by (simp add: comps_def ends_folder_def plain_def)
  next
    case False
    then show ?thesis using that [of c s] rest assms(4,5) by (simp add: comps_def ends_folder_def plain_def)
  qed
  have "request_start force (request @ query) = (False, d # t @ query)"
    unfolding request_start_def dw(1) Let_def dw(2) using t(1) assms(4,5) by (cases "IsAbsolute (s @ query)") auto
  moreover have "d \<noteq> CHR ''?''" using is_slash_not [OF t(2)] by simp
  moreover obtain st' b' ws' where "request_loop (t @ query) (rq 1 [] []) = Some (query, st')"
    "request_end folder st' = rq_path b' ws' @ (if folder \<or> ends_folder t then ''/'' else [])"
    "rq_names b' ws' = rest_names t (rq_names [] [])" "b' \<in> {[], []}"
    using request_loop_rest [OF t(5) assms(2), of "[]" "[]" folder] by metis
  moreover have "rest_names t [] = snd (normal (comps request))" using normal_rest [of t] t(3) by simp
  moreover have "\<not> ends_folder t \<Longrightarrow> rest_names t [] \<noteq> []" by (rule rest_names_file)
  ultimately show ?thesis
    using t(2,4) rq_path_root [of ws' "folder \<or> ends_folder t"]
    unfolding ParseRequest_def request_from_start by (auto simp: request_slash_rq rq_names_def simp flip: One_nat_def)
qed

text \<open>A request of one name, which is no dot component, and one with a slash after its first name.\<close>

lemma request_names_ok:
  assumes "comps rest = comps request"
  shows "names_ok (snd (normal (comps request)))"
  using names_ok_rest [of "[]" rest] normal_rest [of rest] assms by (simp add: names_ok_def)

lemma request_text_folder: "names = [] \<or> \<not> g \<Longrightarrow> request_text False f names = request_text False (f \<or> g) names"
  by (auto simp: request_text_def)

lemma first_name_level:
  assumes "slash_free w" "w \<noteq> []" "w \<notin> {''.'', ''..''}"
  shows "word_level w = 0" "rest_names w [] = rq_names w []"
  using assms word_level_names [OF assms(1), of "[]"] by (auto simp: word_level_def rq_names_def)

lemma ParseRequest_one_name:
  assumes "plain request" "query = [] \<or> hd query = CHR ''?''"
    "rest = (if force then dropWhile is_slash request else request)" "slash_free rest" "rest \<notin> {''.'', ''..''}"
  shows "ParseRequest folder force (request @ query) =
    Some (request_text False (folder \<or> IsFolder request) (snd (normal (comps request))), query)"
proof -
  note rest = request_rest [OF assms(1,3)] and dw = request_rest_query [OF assms(2,3)]
  have "\<not> (rest \<noteq> [] \<and> is_slash (hd rest))" using assms(4) by (cases rest) (auto simp: slash_free_def)
  then have start: "request_start force (request @ query) = (True, rest @ query)"
    unfolding request_start_def dw(1) Let_def dw(2) by auto
  have fin: "request_loop query st' = Some (query, st')" for st' using assms(2) by (cases query) simp_all
  have l: "request_loop (rest @ query) (rq 0 [] []) = Some (query, rq 0 rest [])"
    using request_loop_chars [OF rest(3) assms(4), of "rq 0 [] []" query] fin by (simp add: rq_def)
  have n: "rq_names rest [] = snd (normal (comps request))" "rest = [] \<or> \<not> IsFolder request"
    using first_name_level [OF assms(4)] assms(4,5) normal_rest [of rest] rest(1,2)
    by (auto simp: splits_word slash_free_def ends_folder_def rest_names_def rq_names_def)
  have "snd (normal (comps request)) = [] \<or> \<not> IsFolder request" using n by (auto simp: rq_names_def)
  then have "MakeRelative (rest @ (if folder then ''/'' else [])) =
      request_text False (folder \<or> IsFolder request) (snd (normal (comps request)))"
    using rq_path_relative [OF n(1) request_names_ok [OF rest(1)], of folder]
      request_text_folder [of "snd (normal (comps request))" "IsFolder request" folder]
    by (simp only: rq_path.simps)
  then show ?thesis using start l unfolding ParseRequest_def request_from_start by (simp add: request_end_rq)
qed

lemma ParseRequest_names:
  assumes "plain request" "query = [] \<or> hd query = CHR ''?''"
    "rest = (if force then dropWhile is_slash request else request)" "rest = w @ c # t" "slash_free w" "is_slash c"
    "w \<noteq> []" "w \<notin> {''.'', ''..''}"
  shows "ParseRequest folder force (request @ query) =
    Some (request_text False (folder \<or> IsFolder request) (snd (normal (comps request))), query)"
proof -
  note rest = request_rest [OF assms(1,3)] and dw = request_rest_query [OF assms(2,3)]
  have "\<not> is_slash (hd rest)" using assms(4,5,7) by (cases w) (auto simp: slash_free_def)
  then have start: "request_start force (request @ query) = (True, rest @ query)"
    unfolding request_start_def dw(1) Let_def dw(2) by auto
  have "splits rest = w # splits t" using assms(4-6) by (simp add: splits_append splits_word slash_free_def)
  then have n: "word_level w = 0" "rest_names w [] = rq_names w []" "ends_folder t = IsFolder request"
    using first_name_level [OF assms(5,7,8)] assms(4,6) rest(2) by (simp_all add: ends_folder_def)
  have p: "plain w" "plain t" "c \<noteq> CHR ''?''" using rest(3) assms(4) by (auto simp: plain_def)
  obtain st' b' ws' where l: "request_loop (t @ query) (rq 1 w []) = Some (query, st')"
    "request_end folder st' = rq_path b' ws' @ (if folder \<or> ends_folder t then ''/'' else [])"
    "rq_names b' ws' = rest_names t (rq_names w [])"
    using request_loop_rest [OF p(2) assms(2), of w "[]" folder] by metis
  have "request_loop (rest @ query) (rq 0 [] []) = request_loop (c # t @ query) (rq 0 w [])"
    using request_loop_chars [OF p(1) assms(5), of "rq 0 [] []" "c # t @ query"] assms(4) by (simp add: rq_def)
  then have "request_loop (rest @ query) (rq 0 [] []) = Some (query, st')"
    using l(1) p(3) assms(6) n(1) by (simp add: request_slash_rq)
  moreover have "rq_names b' ws' = snd (normal (comps request))"
    using l(3) n(2) rest_names_slash [OF assms(5,6), of t "[]"] normal_rest [of rest] rest(1) assms(4) by simp
  ultimately show ?thesis
    using rq_path_relative [OF _ request_names_ok [OF rest(1)], of b' ws' "folder \<or> IsFolder request"] l(2) n(3) start
    unfolding ParseRequest_def request_from_start by simp
qed

text \<open>
  C17: The path of a request without percent sign is the normal form of the request, with a slash at the end when the request
  is a folder or one is asked; it follows a slash when the request does, unless a relative path is forced. The rest from
  the question mark is the query. The first name of a relative request must not be a dot component (see below).
\<close>

theorem ParseRequest_normal:
  assumes "plain request" "query = [] \<or> hd query = CHR ''?''"
    "rest = (if force then dropWhile is_slash request else request)" "root = (rest \<noteq> [] \<and> is_slash (hd rest))"
    "root \<or> hd (splits rest) \<notin> {''.'', ''..''}"
  shows "ParseRequest folder force (request @ query) =
    Some (request_text root (folder \<or> IsFolder request) (snd (normal (comps request))), query)"
proof (cases root)
  case True
  then obtain c s where "rest = c # s" "is_slash c" using assms(4) by (cases rest) auto
  then show ?thesis using ParseRequest_root [OF assms(1-3)] True by simp
next
  case False
  show ?thesis
  proof (cases rest rule: word_split)
    case 1
    then have "hd (splits rest) = rest" by (simp add: splits_word slash_free_def)
    then show ?thesis using ParseRequest_one_name [OF assms(1-3)] 1 assms(5) False by simp
  next
    case (2 w c t)
    then have "hd (splits rest) = w" "w \<noteq> []"
      using False assms(4) by (auto simp: splits_append splits_word slash_free_def)
    then show ?thesis using ParseRequest_names [OF assms(1-3) 2] assms(5) False by simp
  qed
qed

theorem ParseRequest_normal_witness:
  "ParseRequest False True (''/live//./../video/part.mp4'' @ ''?id=1'') =
    Some (request_text False (False \<or> IsFolder ''/live//./../video/part.mp4'') (snd (normal (comps ''/live//./../video/part.mp4''))), ''?id=1'')"
  by (rule ParseRequest_normal) (code_simp | simp add: plain_def is_slash_def)+

section \<open>What goes wrong\<close>

text \<open>Leading dot components of a relative request stay, of a request made relative too.\<close>

lemma request_climbs:
  "ParseRequest False False ''../secret'' = Some (''../secret'', [])" "ParseRequest False True ''/../secret'' = Some (''../secret'', [])"
  by code_simp+

text \<open>Encoded dots are decoded after the components are removed.\<close>

lemma request_encoded_climbs: "ParseRequest False False ''/a/%2e%2e/%2e%2e/etc'' = Some (''/a/../../etc'', [])"
  by code_simp

text \<open>A percent code cut by a component that is removed: \<open>resize\<close> throws.\<close>

lemma request_cut_throws: "ParseRequest False False ''/%a/../x'' = None"
  by code_simp

text \<open>With the same string for the protocol and the address, the address is taken for the protocol.\<close>

lemma aliased_file:
  "URL_Parse True ''http://file/x'' = (''/x'', ''file'', ''file'')" "URL_Parse True ''file:///x'' = (''x'', [], [])"
  by code_simp+

end
