(* ===== verification/Thread_Queues.thy ===== *)
theory Thread_Queues
  imports Prelude
begin

text \<open>
  Mona/Threading: \<open>Signal\<close>, the thread of \<open>Thread\<close> with the loop of \<open>ThreadQueue\<close>, \<open>ThreadPool\<close> and \<open>Handler\<close>.
  The steps of the thread and of its callers interleave. A step is what happens under one lock or between two
  accesses to the shared state; a call that blocks (a lock that is held, \<open>wait\<close>, \<open>join\<close>) is a step that is not
  enabled, None. The runners are values, and what a runner does to its own queue is a step of the thread.
  The lemmas show that the runners run once and in order, that a wake-up is never lost, that the thread alone ends
  the queue, and where a runner that stops its own queue blocks it for ever.
\<close>

section \<open>Signals\<close>

record signal =
  sauto :: bool
  sset :: bool

definition Signal :: "bool \<Rightarrow> signal" where
  "Signal autoReset = \<lparr>sauto = autoReset, sset = False\<rparr>"

definition Signal_set :: "signal \<Rightarrow> signal" where
  "Signal_set s = s\<lparr>sset := True\<rparr>"

definition Signal_reset :: "signal \<Rightarrow> signal" where
  "Signal_reset s = s\<lparr>sset := False\<rparr>"

text \<open>\<open>wait\<close>: \<open>late\<close> when its time is over; None while it waits.\<close>

definition Signal_wait :: "bool \<Rightarrow> signal \<Rightarrow> (bool \<times> signal) option" where
  "Signal_wait late s =
     (if sset s then Some (True, if sauto s then s\<lparr>sset := False\<rparr> else s)
      else if late then Some (False, s) else None)"

section \<open>A thread and its queue\<close>

text \<open>Where the thread is: in \<open>wait\<close>, before the lock of \<open>_runners\<close>, in a runner, or after \<open>run\<close>.\<close>

datatype place = At_Wait | At_Check | At_Run | At_End

text \<open>The \<open>std::thread\<close>: not joinable, joinable and ended, or running.\<close>

datatype os_thread = No_Thread | Ended | Running place

text \<open>
  \<open>qlock\<close> is the runner of the call of \<open>queue\<close> that holds the lock, and whether its \<open>start\<close> is done. \<open>qtimeout\<close>
  and \<open>qbatch\<close> are local to \<open>run\<close>. \<open>qran\<close> and \<open>qqueued\<close> are the history: the runners that are done, and those
  that were queued.
\<close>

record 'r thread_queue =
  qsignal :: signal
  qstop :: bool
  qrequest :: bool
  qthread :: os_thread
  qrunners :: "'r list"
  qlock :: "('r \<times> bool) option"
  qtimeout :: bool
  qbatch :: "'r list"
  qran :: "'r list"
  qqueued :: "'r list"

definition ThreadQueue :: "'r thread_queue" where
  "ThreadQueue = \<lparr>qsignal = Signal True, qstop = True, qrequest = False, qthread = No_Thread, qrunners = [],
     qlock = None, qtimeout = False, qbatch = [], qran = [], qqueued = []\<rparr>"

text \<open>The thread: \<open>run\<close>, then the end of \<open>process\<close>.\<close>

definition thread_wait :: "bool \<Rightarrow> 'r thread_queue \<Rightarrow> 'r thread_queue option" where
  "thread_wait late q =
     (if qthread q = Running At_Wait then
        map_option (\<lambda>(ok, s). q\<lparr>qsignal := s, qtimeout := \<not> ok, qthread := Running At_Check\<rparr>) (Signal_wait late (qsignal q))
      else None)"

text \<open>\<open>stop\<close> called by the thread itself.\<close>

definition stop_myself :: "'r thread_queue \<Rightarrow> 'r thread_queue" where
  "stop_myself q = q\<lparr>qrequest := True, qstop := True\<rparr>"

definition thread_check :: "'r thread_queue \<Rightarrow> 'r thread_queue option" where
  "thread_check q =
     (if qthread q = Running At_Check \<and> qlock q = None then
        Some (if qrunners q = [] then
                (if \<not> qtimeout q \<and> \<not> qrequest q then q\<lparr>qthread := Running At_Wait\<rparr>
                 else (stop_myself q)\<lparr>qthread := Running At_End\<rparr>)
              else q\<lparr>qbatch := qrunners q, qrunners := [], qthread := Running At_Run\<rparr>)
      else None)"

definition thread_run :: "'r thread_queue \<Rightarrow> 'r thread_queue option" where
  "thread_run q =
     (if qthread q = Running At_Run then
        (case qbatch q of
           [] \<Rightarrow> Some (q\<lparr>qthread := Running At_Check\<rparr>)
         | r # rs \<Rightarrow> Some (q\<lparr>qran := qran q @ [r], qbatch := rs, qthread := (if rs = [] then Running At_Check else Running At_Run)\<rparr>))
      else None)"

definition thread_end :: "'r thread_queue \<Rightarrow> 'r thread_queue option" where
  "thread_end q = (if qthread q = Running At_End then Some (q\<lparr>qstop := True, qthread := Ended\<rparr>) else None)"

text \<open>The calls of another thread. \<open>queue\<close> is its lock, \<open>start\<close> and the rest.\<close>

definition queue_lock :: "'r \<Rightarrow> 'r thread_queue \<Rightarrow> 'r thread_queue option" where
  "queue_lock r q = (if qlock q = None then Some (q\<lparr>qlock := Some (r, False)\<rparr>) else None)"

text \<open>\<open>start\<close>: \<open>join\<close> blocks while the thread runs.\<close>

definition thread_start :: "'r thread_queue \<Rightarrow> 'r thread_queue option" where
  "thread_start q =
     (if \<not> qstop q then Some q
      else (case qthread q of
              Running _ \<Rightarrow> None
            | _ \<Rightarrow> Some (q\<lparr>qsignal := Signal_reset (qsignal q), qstop := False, qrequest := False,
                            qthread := Running At_Wait, qtimeout := False, qbatch := []\<rparr>)))"

definition queue_start :: "'r thread_queue \<Rightarrow> 'r thread_queue option" where
  "queue_start q =
     (case qlock q of
        Some (r, False) \<Rightarrow> map_option (\<lambda>q. q\<lparr>qlock := Some (r, True)\<rparr>) (thread_start q)
      | _ \<Rightarrow> None)"

definition queue_push :: "'r thread_queue \<Rightarrow> 'r thread_queue option" where
  "queue_push q =
     (case qlock q of
        Some (r, True) \<Rightarrow>
          Some (q\<lparr>qrunners := qrunners q @ [r], qqueued := qqueued q @ [r], qsignal := Signal_set (qsignal q), qlock := None\<rparr>)
      | _ \<Rightarrow> None)"

text \<open>\<open>requestStop\<close> and \<open>stop\<close>: the flag, the signal, then \<open>join\<close>.\<close>

definition stop_flag :: "'r thread_queue \<Rightarrow> 'r thread_queue option" where
  "stop_flag q = Some (q\<lparr>qrequest := True\<rparr>)"

definition stop_signal :: "'r thread_queue \<Rightarrow> 'r thread_queue option" where
  "stop_signal q = Some (q\<lparr>qsignal := Signal_set (qsignal q)\<rparr>)"

definition stop_join :: "'r thread_queue \<Rightarrow> 'r thread_queue option" where
  "stop_join q = (if qthread q = Ended then Some (q\<lparr>qthread := No_Thread\<rparr>) else None)"

text \<open>What a runner does to its own queue: \<open>queue\<close>, whose \<open>start\<close> returns at once, and \<open>stop\<close>.\<close>

definition own_queue :: "'r \<Rightarrow> 'r thread_queue \<Rightarrow> 'r thread_queue option" where
  "own_queue r q =
     (if qthread q = Running At_Run \<and> qbatch q \<noteq> [] \<and> qlock q = None then
        Some (q\<lparr>qrunners := qrunners q @ [r], qqueued := qqueued q @ [r], qsignal := Signal_set (qsignal q)\<rparr>)
      else None)"

definition own_stop :: "'r thread_queue \<Rightarrow> 'r thread_queue option" where
  "own_stop q = (if qthread q = Running At_Run \<and> qbatch q \<noteq> [] then Some (stop_myself q) else None)"

datatype 'r queue_label =
  Wait bool | Check | Run | End | Queue_Lock 'r | Queue_Start | Queue_Push | Stop_Flag | Stop_Signal | Stop_Join
  | Own_Queue 'r | Own_Stop

fun queue_step :: "'r queue_label \<Rightarrow> 'r thread_queue \<Rightarrow> 'r thread_queue option" where
  "queue_step (Wait late) = thread_wait late"
| "queue_step Check = thread_check"
| "queue_step Run = thread_run"
| "queue_step End = thread_end"
| "queue_step (Queue_Lock r) = queue_lock r"
| "queue_step Queue_Start = queue_start"
| "queue_step Queue_Push = queue_push"
| "queue_step Stop_Flag = stop_flag"
| "queue_step Stop_Signal = stop_signal"
| "queue_step Stop_Join = stop_join"
| "queue_step (Own_Queue r) = own_queue r"
| "queue_step Own_Stop = own_stop"

fun queue_steps :: "'r queue_label list \<Rightarrow> 'r thread_queue \<Rightarrow> 'r thread_queue option" where
  "queue_steps [] q = Some q"
| "queue_steps (l # ls) q = (case queue_step l q of None \<Rightarrow> None | Some q \<Rightarrow> queue_steps ls q)"

inductive reaches :: "('r queue_label \<Rightarrow> bool) \<Rightarrow> 'r thread_queue \<Rightarrow> bool" for P where
  reaches_new: "reaches P ThreadQueue"
| reaches_step: "reaches P q \<Longrightarrow> P l \<Longrightarrow> queue_step l q = Some q' \<Longrightarrow> reaches P q'"

section \<open>The invariant\<close>

text \<open>
  Every runner is done, in the batch or waiting, in order; a thread that is ended, or ending, has nothing to run
  and has the flag \<open>_stop\<close>; a thread in \<open>wait\<close> has nothing to run or its signal is set; the caller whose \<open>start\<close> is done has
  a thread before its end.
\<close>

definition busy :: "os_thread \<Rightarrow> bool" where
  "busy t \<longleftrightarrow> t \<in> {Running At_Wait, Running At_Check, Running At_Run}"

definition queue_ok :: "'r thread_queue \<Rightarrow> bool" where
  "queue_ok q \<longleftrightarrow>
     sauto (qsignal q) \<and> qqueued q = qran q @ qbatch q @ qrunners q \<and>
     (\<not> busy (qthread q) \<longrightarrow> qrunners q = [] \<and> qstop q) \<and>
     (qthread q = Running At_Wait \<longrightarrow> qrunners q = [] \<or> sset (qsignal q)) \<and>
     (qthread q = Running At_Run \<longrightarrow> qbatch q \<noteq> []) \<and> (qthread q \<noteq> Running At_Run \<longrightarrow> qbatch q = []) \<and>
     (\<forall>r. qlock q = Some (r, True) \<longrightarrow> busy (qthread q))"

lemmas queue_step_defs = thread_wait_def thread_check_def thread_run_def thread_end_def queue_lock_def queue_start_def
  queue_push_def thread_start_def stop_flag_def stop_signal_def stop_join_def own_queue_def own_stop_def stop_myself_def
  Signal_wait_def Signal_set_def Signal_reset_def

lemma queue_ok_new: "queue_ok ThreadQueue"
  by (simp add: queue_ok_def ThreadQueue_def Signal_def busy_def)

lemmas queue_ok_defs = queue_ok_def busy_def queue_step_defs

text \<open>What a step keeps, when it is enabled.\<close>

definition keeps :: "('a \<Rightarrow> bool) \<Rightarrow> 'a option \<Rightarrow> bool" where
  "keeps P r \<longleftrightarrow> (case r of None \<Rightarrow> True | Some x \<Rightarrow> P x)"

lemma keeps_simps [simp]: "keeps P None" "keeps P (Some x) = P x"
  by (simp_all add: keeps_def)

lemma keepsD: "keeps P r \<Longrightarrow> r = Some x \<Longrightarrow> P x"
  by simp

lemma queue_ok_thread:
  assumes "queue_ok q"
  shows "keeps queue_ok (thread_wait late q)" "keeps queue_ok (thread_check q)" "keeps queue_ok (thread_run q)"
    "keeps queue_ok (thread_end q)"
  subgoal using assms by (auto simp: queue_ok_defs)
  subgoal using assms by (auto simp: queue_ok_defs)
  subgoal using assms by (cases "qbatch q") (auto simp: queue_ok_defs)
  subgoal using assms by (auto simp: queue_ok_defs)
  done

lemma queue_ok_calls:
  assumes "queue_ok q"
  shows "keeps queue_ok (queue_lock r q)" "keeps queue_ok (queue_start q)" "keeps queue_ok (queue_push q)"
    "keeps queue_ok (stop_flag q)" "keeps queue_ok (stop_signal q)" "keeps queue_ok (stop_join q)"
    "keeps queue_ok (own_queue r q)" "keeps queue_ok (own_stop q)"
  subgoal using assms by (auto simp: queue_ok_defs)
  subgoal using assms by (auto simp: queue_ok_defs split: option.split bool.split os_thread.split)
  subgoal using assms by (auto simp: queue_ok_defs split: option.split bool.split)
  subgoal using assms by (auto simp: queue_ok_defs)
  subgoal using assms by (auto simp: queue_ok_defs)
  subgoal using assms by (auto simp: queue_ok_defs)
  subgoal using assms by (auto simp: queue_ok_defs)
  subgoal using assms by (auto simp: queue_ok_defs)
  done

lemma queue_ok_step: "queue_ok q \<Longrightarrow> keeps queue_ok (queue_step l q)"
  by (cases l) (simp_all add: queue_ok_thread queue_ok_calls)

lemma queue_ok_reaches: "reaches P q \<Longrightarrow> queue_ok q"
  by (induction rule: reaches.induct) (auto intro: queue_ok_new dest: queue_ok_step keepsD)

text \<open>
  C18: Whatever the interleaving of the thread and its callers, the runners that were queued are the ones that are done, then
  those the thread has taken, then those that wait, in the order of the calls: none is lost, run twice or
  overtaken.
\<close>

theorem queue_runs_in_order:
  assumes "reaches P q"
  shows "qqueued q = qran q @ qbatch q @ qrunners q"
  using queue_ok_reaches [OF assms] by (simp add: queue_ok_def)

text \<open>No runner stops its own queue.\<close>

definition no_own_stop :: "'r queue_label \<Rightarrow> bool" where
  "no_own_stop l \<longleftrightarrow> l \<noteq> Own_Stop"

lemma reaches_steps: "queue_steps ls q = Some q' \<Longrightarrow> reaches P q \<Longrightarrow> list_all P ls \<Longrightarrow> reaches P q'"
proof (induction ls arbitrary: q)
  case (Cons l ls)
  then obtain p where p: "queue_step l q = Some p" "queue_steps ls p = Some q'" by (auto split: option.splits)
  have "reaches P p" using Cons.prems p(1) by (auto intro: reaches_step)
  then show ?case using Cons.IH p(2) Cons.prems(3) by simp
qed simp

text \<open>Two runners queued, the second one while the first is taken.\<close>

definition two_runners :: "nat thread_queue" where
  "two_runners = the (queue_steps [Queue_Lock 1, Queue_Start, Queue_Push, Wait False, Check, Queue_Lock 2, Queue_Start, Queue_Push] ThreadQueue)"

lemma two_runners_reached: "reaches no_own_stop two_runners"
proof (rule reaches_steps [OF _ reaches_new])
  show "queue_steps [Queue_Lock 1, Queue_Start, Queue_Push, Wait False, Check, Queue_Lock 2, Queue_Start, Queue_Push] ThreadQueue =
      Some two_runners"
    by code_simp
qed (simp add: no_own_stop_def)

theorem queue_runs_in_order_witness: "qqueued two_runners = qran two_runners @ qbatch two_runners @ qrunners two_runners"
  by (rule queue_runs_in_order [OF two_runners_reached])

text \<open>The thread alone: the step where it is, without a timeout.\<close>

definition thread_step :: "'r thread_queue \<Rightarrow> 'r thread_queue option" where
  "thread_step q =
     (case qthread q of
        Running At_Wait \<Rightarrow> thread_wait False q
      | Running At_Check \<Rightarrow> thread_check q
      | Running At_Run \<Rightarrow> thread_run q
      | Running At_End \<Rightarrow> thread_end q
      | _ \<Rightarrow> None)"

fun thread_steps :: "nat \<Rightarrow> 'r thread_queue \<Rightarrow> 'r thread_queue option" where
  "thread_steps 0 q = Some q"
| "thread_steps (Suc n) q = (case thread_step q of None \<Rightarrow> None | Some q \<Rightarrow> thread_steps n q)"

lemma thread_steps_add: "thread_steps (m + n) q = (case thread_steps m q of None \<Rightarrow> None | Some q \<Rightarrow> thread_steps n q)"
  by (induction m arbitrary: q) (simp_all split: option.split)

lemma thread_runs_batch:
  "qthread q = Running At_Run \<Longrightarrow> qbatch q = r # rs \<Longrightarrow>
    thread_steps (length (r # rs)) q = Some (q\<lparr>qran := qran q @ r # rs, qbatch := [], qthread := Running At_Check\<rparr>)"
proof (induction rs arbitrary: q r)
  case Nil
  then show ?case by (simp add: thread_step_def thread_run_def)
next
  case (Cons s rs)
  let ?q = "q\<lparr>qran := qran q @ [r], qbatch := s # rs, qthread := Running At_Run\<rparr>"
  have "thread_step q = Some ?q" using Cons.prems by (simp add: thread_step_def thread_run_def)
  then show ?case using Cons.IH [of ?q s] by simp
qed

lemma thread_takes_runners:
  assumes "qthread q = Running At_Check" "qlock q = None" "qrunners q \<noteq> []"
  obtains q' where "thread_steps (Suc (length (qrunners q))) q = Some q'" "qran q' = qran q @ qrunners q"
proof -
  obtain r rs where r: "qrunners q = r # rs" using assms(3) by (cases "qrunners q") auto
  let ?q = "q\<lparr>qbatch := r # rs, qrunners := [], qthread := Running At_Run\<rparr>"
  have "thread_step q = Some ?q" using assms r by (simp add: thread_step_def thread_check_def)
  then show ?thesis using thread_runs_batch [of ?q r rs] r that by simp
qed

lemma thread_ends_queue:
  assumes "queue_ok q" "qlock q = None"
  shows "\<exists>n \<le> length (qbatch q) + length (qrunners q) + 2. \<exists>q'. thread_steps n q = Some q' \<and> qran q' = qqueued q"
proof -
  have log: "qqueued q = qran q @ qbatch q @ qrunners q" using assms(1) by (simp add: queue_ok_def)
  consider "qbatch q = []" "qrunners q = []" | "qthread q = Running At_Run" | "qthread q = Running At_Check" "qrunners q \<noteq> []"
    | "qthread q = Running At_Wait" "qrunners q \<noteq> []"
    using assms(1) by (auto simp: queue_ok_def busy_def)
  then show ?thesis
  proof cases
    case 1
    then have "thread_steps 0 q = Some q" "qran q = qqueued q" using log by simp_all
    then show ?thesis by blast
  next
    case 2
    then obtain r rs where b: "qbatch q = r # rs" using assms(1) by (cases "qbatch q") (auto simp: queue_ok_def)
    let ?q = "q\<lparr>qran := qran q @ r # rs, qbatch := [], qthread := Running At_Check\<rparr>"
    have s: "thread_steps (length (qbatch q)) q = Some ?q" using thread_runs_batch [OF 2 b] b by simp
    show ?thesis
    proof (cases "qrunners q = []")
      case True
      then have "qran ?q = qqueued q" using log b by simp
      then show ?thesis using s by (intro exI [of _ "length (qbatch q)"]) auto
    next
      case False
      then obtain q' where "thread_steps (Suc (length (qrunners q))) ?q = Some q'" "qran q' = qran ?q @ qrunners q"
        using thread_takes_runners [of ?q] assms(2) by auto
      then have "thread_steps (length (qbatch q) + Suc (length (qrunners q))) q = Some q'" "qran q' = qqueued q"
        unfolding thread_steps_add s using log b by simp_all
      then show ?thesis by (intro exI [of _ "length (qbatch q) + Suc (length (qrunners q))"]) auto
    qed
  next
    case 3
    obtain q' where "thread_steps (Suc (length (qrunners q))) q = Some q'" "qran q' = qran q @ qrunners q"
      using thread_takes_runners [OF 3(1) assms(2) 3(2)] by blast
    moreover have "qbatch q = []" using assms(1) 3 by (simp add: queue_ok_def)
    ultimately show ?thesis using log by (intro exI [of _ "Suc (length (qrunners q))"]) auto
  next
    case 4
    have b: "qbatch q = []" "sset (qsignal q)" "sauto (qsignal q)" using assms(1) 4 by (auto simp: queue_ok_def)
    let ?q = "q\<lparr>qsignal := (qsignal q)\<lparr>sset := False\<rparr>, qtimeout := False, qthread := Running At_Check\<rparr>"
    have "thread_step q = Some ?q" using 4 b by (simp add: thread_step_def thread_wait_def Signal_wait_def)
    moreover obtain q' where "thread_steps (Suc (length (qrunners q))) ?q = Some q'" "qran q' = qran q @ qrunners q"
      using thread_takes_runners [of ?q] 4 assms(2) by auto
    ultimately have "thread_steps (Suc (Suc (length (qrunners q)))) q = Some q'" "qran q' = qqueued q"
      using log b by (simp_all del: thread_steps.simps add: thread_steps.simps(2) [of "Suc n" for n])
    then show ?thesis by (intro exI [of _ "Suc (Suc (length (qrunners q)))"]) auto
  qed
qed

text \<open>
  C19: No wake-up is lost: whenever no caller is inside \<open>queue\<close>, the thread alone, without waiting for its timeout, runs all
  that was queued, in two steps more than there are runners.
\<close>

theorem queue_ends:
  assumes "reaches P q" "qlock q = None"
  shows "\<exists>n \<le> length (qbatch q) + length (qrunners q) + 2. \<exists>q'. thread_steps n q = Some q' \<and> qran q' = qqueued q"
  using thread_ends_queue [OF queue_ok_reaches [OF assms(1)] assms(2)] .

theorem queue_ends_witness:
  "\<exists>n \<le> length (qbatch two_runners) + length (qrunners two_runners) + 2.
     \<exists>q'. thread_steps n two_runners = Some q' \<and> qran q' = qqueued two_runners"
  by (rule queue_ends [OF two_runners_reached]) code_simp

section \<open>Callers\<close>

text \<open>Without a runner that stops its own queue, a thread whose flag is set is at its end.\<close>

definition stop_ok :: "'r thread_queue \<Rightarrow> bool" where
  "stop_ok q \<longleftrightarrow> (qstop q \<longrightarrow> \<not> busy (qthread q))"

lemma stop_ok_step: "stop_ok q \<Longrightarrow> l \<noteq> Own_Stop \<Longrightarrow> keeps stop_ok (queue_step l q)"
  by (cases l) (auto simp: stop_ok_def busy_def queue_step_defs split: option.split bool.split os_thread.split list.split)

lemma stop_ok_reaches: "reaches no_own_stop q \<Longrightarrow> stop_ok q"
proof (induction rule: reaches.induct)
  case reaches_new
  then show ?case by (simp add: stop_ok_def ThreadQueue_def busy_def)
next
  case (reaches_step q l q')
  then show ?case using stop_ok_step [of q l] by (auto simp: no_own_stop_def dest: keepsD)
qed

text \<open>
  C20: When no runner stops its own queue, a caller inside \<open>queue\<close> is never blocked for ever: its runner is queued after at
  most the end of the thread it has to join.
\<close>

theorem queue_returns:
  assumes "reaches no_own_stop q" "qlock q = Some (r, started)"
  shows "\<exists>ls q'. set ls \<subseteq> {End, Queue_Start, Queue_Push} \<and> queue_steps ls q = Some q' \<and> qlock q' = None \<and>
    qqueued q' = qqueued q @ [r]"
proof -
  have so: "stop_ok q" using stop_ok_reaches [OF assms(1)] .
  have push: "\<exists>p'. queue_push p = Some p' \<and> qlock p' = None \<and> qqueued p' = qqueued p @ [r]" if "qlock p = Some (r, True)" for p
    using that by (simp add: queue_push_def)
  have start: "\<exists>p'. queue_steps [Queue_Start, Queue_Push] p = Some p' \<and> qlock p' = None \<and> qqueued p' = qqueued p @ [r]"
    if "qlock p = Some (r, False)" "\<not> qstop p \<or> qthread p \<in> {No_Thread, Ended}" for p
    using that by (auto simp: queue_start_def thread_start_def queue_push_def)
  show ?thesis
  proof (cases started)
    case True
    then show ?thesis using push [of q] assms(2) by (intro exI [of _ "[Queue_Push]"]) auto
  next
    case False
    consider "\<not> qstop q \<or> qthread q \<in> {No_Thread, Ended}" | "qthread q = Running At_End"
      using so by (cases "qthread q") (auto simp: stop_ok_def busy_def intro: place.exhaust)
    then show ?thesis
    proof cases
      case 1
      then show ?thesis using start [of q] assms(2) False by (intro exI [of _ "[Queue_Start, Queue_Push]"]) auto
    next
      case 2
      let ?q = "q\<lparr>qstop := True, qthread := Ended\<rparr>"
      have "queue_step End q = Some ?q" using 2 by (simp add: thread_end_def)
      then show ?thesis using start [of ?q] assms(2) False by (intro exI [of _ "[End, Queue_Start, Queue_Push]"]) auto
    qed
  qed
qed

definition third_waits :: "nat thread_queue" where
  "third_waits = the (queue_steps [Run, Check, Run, Check, Wait True, Check, Queue_Lock 3] two_runners)"

theorem queue_returns_witness:
  "\<exists>ls q'. set ls \<subseteq> {End, Queue_Start, Queue_Push} \<and> queue_steps ls third_waits = Some q' \<and> qlock q' = None \<and>
    qqueued q' = qqueued third_waits @ [3]"
proof (rule queue_returns)
  show "reaches no_own_stop third_waits"
  proof (rule reaches_steps [OF _ two_runners_reached])
    show "queue_steps [Run, Check, Run, Check, Wait True, Check, Queue_Lock 3] two_runners = Some third_waits"
      by code_simp
  qed (simp add: no_own_stop_def)
  show "qlock third_waits = Some (3, False)" by code_simp
qed

text \<open>
  A runner that stops its own queue, then a caller: \<open>start\<close> joins the thread with the lock of the queue held, and
  the thread waits for this lock. Nothing that happens then lets the caller go.
\<close>

definition blocked :: "'r thread_queue \<Rightarrow> bool" where
  "blocked q \<longleftrightarrow> (\<exists>r. qlock q = Some (r, False)) \<and> qstop q \<and> qthread q = Running At_Check"

lemma blocked_step: "blocked q \<Longrightarrow> keeps (\<lambda>q'. blocked q' \<and> qlock q' = qlock q) (queue_step l q)"
  by (cases l) (auto simp: blocked_def queue_step_defs)

lemma blocked_for_ever: "blocked q \<Longrightarrow> queue_steps ls q = Some q' \<Longrightarrow> qlock q' = qlock q"
proof (induction ls arbitrary: q)
  case (Cons l ls)
  then show ?case using blocked_step [OF Cons.prems(1), of l] by (auto split: option.splits)
qed simp

lemma own_stop_deadlock:
  "map_option blocked (queue_steps [Queue_Lock 1, Queue_Start, Queue_Push, Wait False, Check, Own_Stop, Queue_Lock 2, Run] ThreadQueue) =
     Some True"
  by (simp add: blocked_def ThreadQueue_def Signal_def queue_step_defs)

text \<open>\<open>start\<close> clears the flag of a \<open>stop\<close> that has not yet joined: the thread goes back to its wait of two minutes.\<close>

lemma stop_overwritten:
  "map_option (\<lambda>q. (qrequest q, qthread q, thread_step q = None))
     (queue_steps [Stop_Flag, Queue_Lock (1::nat), Queue_Start, Queue_Push, Stop_Signal, Wait False, Check, Run, Check] ThreadQueue) =
   Some (False, Running At_Wait, True)"
  by (simp add: ThreadQueue_def Signal_def queue_step_defs thread_step_def)

section \<open>Pools\<close>

text \<open>\<open>_current\<close> has 16 bits; a thread is named by its number from 1, 0 when it is not chosen.\<close>

record 'r thread_pool =
  pthreads :: "'r thread_queue list"
  pcurrent :: "16 word"

definition ThreadPool :: "nat \<Rightarrow> nat \<Rightarrow> 'r thread_pool" where
  "ThreadPool threads processors =
     \<lparr>pthreads = replicate (if threads \<noteq> 0 then threads else processors) ThreadQueue, pcurrent = 0\<rparr>"

definition pool_choose :: "nat \<Rightarrow> 'r thread_pool \<Rightarrow> nat \<times> 'r thread_pool" where
  "pool_choose thread p =
     (if thread \<noteq> 0 then (thread, p)
      else (unat (pcurrent p) mod length (pthreads p) + 1, p\<lparr>pcurrent := pcurrent p + 1\<rparr>))"

text \<open>\<open>queue\<close> of a thread, alone: None when it blocks; of the pool, None too when there is no such thread.\<close>

definition queue_call :: "'r \<Rightarrow> 'r thread_queue \<Rightarrow> 'r thread_queue option" where
  "queue_call r q = queue_steps [Queue_Lock r, Queue_Start, Queue_Push] q"

definition pool_queue :: "nat \<Rightarrow> 'r \<Rightarrow> 'r thread_pool \<Rightarrow> (nat \<times> 'r thread_pool) option" where
  "pool_queue thread r p =
     (case pool_choose thread p of
        (thread, p) \<Rightarrow>
          (if thread - 1 < length (pthreads p) then
             map_option (\<lambda>q. (thread, p\<lparr>pthreads := (pthreads p)[thread - 1 := q]\<rparr>)) (queue_call r (pthreads p ! (thread - 1)))
           else None))"

text \<open>How many threads \<open>join\<close> finds running, and stops.\<close>

definition pool_join_count :: "'r thread_pool \<Rightarrow> nat" where
  "pool_join_count p = length (filter (\<lambda>q. \<not> qstop q) (pthreads p))"

text \<open>Runners queued without a thread, one after another.\<close>

fun pool_queue_all :: "'r list \<Rightarrow> 'r thread_pool \<Rightarrow> 'r thread_pool option" where
  "pool_queue_all [] p = Some p"
| "pool_queue_all (r # rs) p = (case pool_queue 0 r p of None \<Rightarrow> None | Some (_, p) \<Rightarrow> pool_queue_all rs p)"

text \<open>A queue on which a call returns.\<close>

definition callable :: "'r thread_queue \<Rightarrow> bool" where
  "callable q \<longleftrightarrow> qlock q = None \<and> (qstop q \<longrightarrow> qthread q \<in> {No_Thread, Ended})"

lemma queue_call_returns:
  assumes "callable q"
  obtains q' where "queue_call r q = Some q'" "callable q'" "qqueued q' = qqueued q @ [r]"
proof -
  consider "\<not> qstop q" | "qstop q" "qthread q = No_Thread" | "qstop q" "qthread q = Ended"
    using assms by (auto simp: callable_def)
  then have "\<exists>q'. queue_call r q = Some q' \<and> callable q' \<and> qqueued q' = qqueued q @ [r]"
    using assms by cases (simp_all add: callable_def queue_call_def queue_lock_def queue_start_def queue_push_def thread_start_def)
  then show ?thesis using that by blast
qed

lemma callable_new: "callable ThreadQueue"
  by (simp add: callable_def ThreadQueue_def)

lemma pool_queue_all_append:
  "pool_queue_all (rs @ ss) p = (case pool_queue_all rs p of None \<Rightarrow> None | Some p \<Rightarrow> pool_queue_all ss p)"
  by (induction rs arbitrary: p) (simp_all split: option.split)

text \<open>What the threads of a pool of \<open>n\<close> get: every \<open>n\<close>th runner.\<close>

definition share :: "nat \<Rightarrow> nat \<Rightarrow> 'r list \<Rightarrow> 'r list" where
  "share n i rs = List.map (\<lambda>j. rs ! j) (filter (\<lambda>j. j mod n = i) [0..<length rs])"

lemma share_snoc: "share n i (rs @ [r]) = share n i rs @ (if length rs mod n = i then [r] else [])"
  by (auto simp: share_def nth_append intro!: map_cong)

lemma pool_spreads_all:
  assumes "0 < n" "length rs \<le> 65536"
  shows "\<exists>p. pool_queue_all rs (ThreadPool n m) = Some p \<and> pcurrent p = of_nat (length rs) \<and> length (pthreads p) = n \<and>
    (\<forall>i < n. callable (pthreads p ! i) \<and> qqueued (pthreads p ! i) = share n i rs)"
  using assms(2)
proof (induction rs rule: rev_induct)
  case Nil
  then show ?case using assms(1) by (simp add: ThreadPool_def callable_new share_def) (simp add: ThreadQueue_def)
next
  case (snoc r rs)
  then obtain p where p: "pool_queue_all rs (ThreadPool n m) = Some p" "pcurrent p = of_nat (length rs)" "length (pthreads p) = n"
      "\<forall>i < n. callable (pthreads p ! i) \<and> qqueued (pthreads p ! i) = share n i rs"
    by auto
  let ?i = "length rs mod n"
  have i: "?i < n" using assms(1) by simp
  have u: "unat (pcurrent p) = length rs"
    using snoc.prems p(2) by (simp add: unat_of_nat take_bit_nat_eq_self)
  obtain q where q: "queue_call r (pthreads p ! ?i) = Some q" "callable q" "qqueued q = share n ?i rs @ [r]"
    using queue_call_returns [of "pthreads p ! ?i" r] p(4) i by metis
  let ?p = "p\<lparr>pcurrent := pcurrent p + 1, pthreads := (pthreads p)[?i := q]\<rparr>"
  have "pool_queue 0 r p = Some (?i + 1, ?p)"
    using i q(1) p(3) u by (simp add: pool_queue_def pool_choose_def)
  then have "pool_queue_all (rs @ [r]) (ThreadPool n m) = Some ?p"
    using p(1) by (simp add: pool_queue_all_append)
  moreover have "callable (pthreads ?p ! j) \<and> qqueued (pthreads ?p ! j) = share n j (rs @ [r])" if "j < n" for j
    using that p(3,4) q(2,3) by (cases "j = ?i") (auto simp: share_snoc)
  ultimately show ?case using p(2,3) by (intro exI [of _ ?p]) (simp add: add.commute)
qed

text \<open>
  Runners queued to a new pool of \<open>n\<close> threads without a choice of thread are dealt in turn: the thread \<open>i\<close> gets the
  runners \<open>i\<close>, \<open>i + n\<close>, \<open>i + 2 n\<close> and so on, in order, up to the wrap-around of the 16 bit counter.
\<close>

theorem pool_spreads:
  assumes "0 < n" "length rs \<le> 65536" "i < n"
  shows "map_option (\<lambda>p. qqueued (pthreads p ! i)) (pool_queue_all rs (ThreadPool n m)) = Some (share n i rs)"
  using pool_spreads_all [OF assms(1,2), of m] assms(3) by auto

theorem pool_spreads_witness:
  "map_option (\<lambda>p. qqueued (pthreads p ! 1)) (pool_queue_all [10, 11, 12, 13, (14::nat)] (ThreadPool 3 8)) =
     Some (share 3 1 [10, 11, 12, 13, 14])"
  by (rule pool_spreads) simp_all

section \<open>Handlers\<close>

text \<open>The signal of a handler is in it, None for NULL.\<close>

record 'r handler =
  hrunners :: "'r list"
  hsignal :: "signal option"

definition Handler :: "signal option \<Rightarrow> 'r handler" where
  "Handler s = \<lparr>hrunners = [], hsignal = s\<rparr>"

definition handler_reset :: "signal \<Rightarrow> 'r handler \<Rightarrow> 'r handler" where
  "handler_reset s h = h\<lparr>hrunners := [], hsignal := Some s\<rparr>"

definition tryQueue :: "'r \<Rightarrow> 'r handler \<Rightarrow> bool \<times> 'r handler" where
  "tryQueue r h =
     (case hsignal h of
        None \<Rightarrow> (False, h)
      | Some s \<Rightarrow> (True, h\<lparr>hrunners := hrunners h @ [r], hsignal := Some (Signal_set s)\<rparr>))"

text \<open>\<open>flush\<close>: the runners it runs, in order, then their number.\<close>

definition flush :: "bool \<Rightarrow> 'r handler \<Rightarrow> 'r list \<times> nat \<times> 'r handler" where
  "flush last' h = (hrunners h, length (hrunners h), h\<lparr>hrunners := [], hsignal := (if last' then None else hsignal h)\<rparr>)"

text \<open>The runners that were accepted since the last flush are run, in order; after the last flush none is accepted.\<close>

lemma handler_runs_accepted:
  "hsignal h \<noteq> None \<Longrightarrow> fst (flush last' (fold (\<lambda>r h. snd (tryQueue r h)) rs h)) = hrunners h @ rs"
proof (induction rs arbitrary: h)
  case Nil
  then show ?case by (simp add: flush_def)
next
  case (Cons r rs)
  then obtain s where "hsignal h = Some s" by auto
  then show ?case using Cons.IH [of "snd (tryQueue r h)"] by (simp add: tryQueue_def)
qed

lemma handler_closed: "fst (tryQueue r (snd (snd (flush True h)))) = False"
  by (simp add: tryQueue_def flush_def)

end
