(* ===== verification/Packets.thy ===== *)
theory Packets
  imports Prelude
begin

text \<open>
  Mona/Memory/Packet.h, Packet.cpp: views over immutable bytes, and Mona/Net/StreamData.h.
  A block of bytes is external, or lives while a \<open>Shared\<close> object refers to it. A \<open>Shared\<close> object is
  allocated by the packet that owns it and deleted with it; another packet may hold its address (\<open>_reference\<close>). A
  pointer is a block and an offset. None is a fault: a deleted object or a dead block is used. Sizes are below
  \<open>2 ^ 32\<close>.
  The lemmas show what the operations do to the bytes a packet shows, that an assigned packet lives on without
  its source, that areas stay inside, that packets are ordered, and that a stream does not depend on its
  cutting into packets.
\<close>

section \<open>Memory\<close>

record store =
  sblocks :: "(bool \<times> byte list) list"
  sshares :: "(nat \<times> nat) list"
  snext :: nat

definition block_live :: "store \<Rightarrow> nat \<Rightarrow> bool" where
  "block_live st b \<longleftrightarrow> b < length (sblocks st) \<and> (fst (sblocks st ! b) \<or> b \<in> snd ` set (sshares st))"

definition share_new :: "nat \<Rightarrow> store \<Rightarrow> nat \<times> store" where
  "share_new b st = (snext st, st\<lparr>sshares := (snext st, b) # sshares st, snext := snext st + 1\<rparr>)"

definition share_delete :: "nat \<Rightarrow> store \<Rightarrow> store option" where
  "share_delete i st =
     (if map_of (sshares st) i = None then None else Some (st\<lparr>sshares := filter (\<lambda>(j, _). j \<noteq> i) (sshares st)\<rparr>))"

definition block_new :: "byte list \<Rightarrow> store \<Rightarrow> nat \<times> store" where
  "block_new bs st = (length (sblocks st), st\<lparr>sblocks := sblocks st @ [(False, bs)]\<rparr>)"

section \<open>Packets\<close>

text \<open>\<open>_ppBuffer\<close>: the address of \<open>_NullBytes\<close>, NULL (static text), or a \<open>Shared\<close> object.\<close>

datatype holder = Null_Bytes | No_Buffer | Share nat

record packet =
  pholder :: holder
  pdata :: "(nat \<times> nat) option"
  psize :: nat
  preference :: bool

definition Packet :: packet where
  "Packet = \<lparr>pholder = Null_Bytes, pdata = None, psize = 0, preference = True\<rparr>"

definition packet_bytes :: "store \<Rightarrow> packet \<Rightarrow> byte list option" where
  "packet_bytes st p =
     (if psize p = 0 then Some []
      else case pdata p of
        None \<Rightarrow> None
      | Some (b, off) \<Rightarrow>
          (if block_live st b \<and> off + psize p \<le> length (snd (sblocks st ! b))
           then Some (take (psize p) (drop off (snd (sblocks st ! b)))) else None))"

text \<open>\<open>if (!_reference) delete _ppBuffer\<close>, which is the destructor.\<close>

definition packet_drop :: "packet \<Rightarrow> store \<Rightarrow> store option" where
  "packet_drop p st = (if preference p then Some st else case pholder p of Share i \<Rightarrow> share_delete i st | _ \<Rightarrow> Some st)"

definition set_raw :: "(nat \<times> nat) option \<Rightarrow> nat \<Rightarrow> packet \<Rightarrow> store \<Rightarrow> (packet \<times> store) option" where
  "set_raw data n p st =
     map_option (\<lambda>st. (\<lparr>pholder = Null_Bytes, pdata = data, psize = n, preference = True\<rparr>, st)) (packet_drop p st)"

text \<open>A static text, its 0 left out.\<close>

definition set_literal :: "(nat \<times> nat) \<Rightarrow> nat \<Rightarrow> packet \<Rightarrow> store \<Rightarrow> (packet \<times> store) option" where
  "set_literal data n p st =
     map_option (\<lambda>st. (\<lparr>pholder = No_Buffer, pdata = Some data, psize = n - 1, preference = True\<rparr>, st)) (packet_drop p st)"

text \<open>\<open>set(const Packet&)\<close>: a packet that refers to this one changes its area alone.\<close>

definition set_ref :: "packet \<Rightarrow> packet \<Rightarrow> store \<Rightarrow> (packet \<times> store) option" where
  "set_ref q p st =
     (if \<not> preference p \<and> pholder q = pholder p then Some (p\<lparr>pdata := pdata q, psize := psize q\<rparr>, st)
      else map_option (\<lambda>st. (q\<lparr>preference := True\<rparr>, st)) (packet_drop p st))"

definition bufferize :: "packet \<Rightarrow> store \<Rightarrow> (packet \<times> store) option" where
  "bufferize q st =
     (if pdata q = None then Some (q, st)
      else case pholder q of
        No_Buffer \<Rightarrow> None
      | Share i \<Rightarrow> (if map_of (sshares st) i = None then None else Some (q, st))
      | Null_Bytes \<Rightarrow>
          (case packet_bytes st q of
             None \<Rightarrow> None
           | Some bs \<Rightarrow>
               (case block_new bs st of
                  (b, st) \<Rightarrow>
                    (case share_new b st of
                       (i, st) \<Rightarrow> Some (q\<lparr>pholder := Share i, pdata := Some (b, 0), preference := False\<rparr>, st)))))"

text \<open>\<open>set(const Packet&&)\<close>: this packet, then the other one, which is buffered too.\<close>

definition set_move :: "packet \<Rightarrow> packet \<Rightarrow> store \<Rightarrow> (packet \<times> packet \<times> store) option" where
  "set_move q p st =
     (if pdata q = None then map_option (\<lambda>(p, st). (p, q, st)) (set_raw None 0 p st)
      else case packet_drop p st of
        None \<Rightarrow> None
      | Some st \<Rightarrow>
          (if pholder q = No_Buffer then Some (q\<lparr>preference := False\<rparr>, q, st)
           else case bufferize q st of
             None \<Rightarrow> None
           | Some (q, st) \<Rightarrow>
               (case pholder q of
                  Share i \<Rightarrow>
                    (case map_of (sshares st) i of
                       None \<Rightarrow> None
                     | Some b \<Rightarrow>
                         (case share_new b st of
                            (j, st) \<Rightarrow> Some (\<lparr>pholder = Share j, pdata = pdata q, psize = psize q, preference = False\<rparr>, q, st)))
                | _ \<Rightarrow> None)))"

text \<open>A \<open>Shared\<close> buffer, its block: referenced by a new \<open>Shared\<close> object.\<close>

definition set_shared :: "nat \<Rightarrow> packet \<Rightarrow> store \<Rightarrow> (packet \<times> store) option" where
  "set_shared b p st =
     (case packet_drop p st of
        None \<Rightarrow> None
      | Some st \<Rightarrow>
          (case share_new b st of
             (j, st) \<Rightarrow>
               Some (\<lparr>pholder = Share j, pdata = Some (b, 0), psize = length (snd (sblocks st ! b)), preference = False\<rparr>, st)))"

text \<open>\<open>setArea\<close> of the release: \<open>data\<close> is an offset in the block of the packet, which may be before it.\<close>

definition setArea :: "int \<Rightarrow> nat \<Rightarrow> packet \<Rightarrow> packet" where
  "setArea data n p =
     (case pdata p of
        None \<Rightarrow> p\<lparr>psize := n\<rparr>
      | Some (b, off) \<Rightarrow>
          (let first = int off; end' = int off + int (psize p);
               data = (if data < first then first else data);
               (data, n) = (if data + int n > end' then (if data > end' then (end', 0) else (data, nat (end' - data))) else (data, n))
           in p\<lparr>pdata := Some (b, nat data), psize := n\<rparr>))"

text \<open>A packet, then its area: the pointer must be in the block of the data, else pointers of two blocks are compared.\<close>

definition in_block :: "(nat \<times> nat) \<Rightarrow> nat \<Rightarrow> packet \<Rightarrow> packet option" where
  "in_block data n p =
     (case pdata p of
        None \<Rightarrow> None
      | Some (b, _) \<Rightarrow> (if fst data = b then Some (setArea (int (snd data)) n p) else None))"

definition set_ref_area :: "(nat \<times> nat) \<Rightarrow> nat \<Rightarrow> packet \<Rightarrow> packet \<Rightarrow> store \<Rightarrow> (packet \<times> store) option" where
  "set_ref_area data n q p st =
     (case set_ref q p st of None \<Rightarrow> None | Some (p, st) \<Rightarrow> map_option (\<lambda>p. (p, st)) (in_block data n p))"

definition set_move_area ::
  "(nat \<times> nat) \<Rightarrow> nat \<Rightarrow> packet \<Rightarrow> packet \<Rightarrow> store \<Rightarrow> (packet \<times> packet \<times> store) option" where
  "set_move_area data n q p st =
     (case set_move q p st of None \<Rightarrow> None | Some (p, q, st) \<Rightarrow> map_option (\<lambda>p. (p, q, st)) (in_block data n p))"

definition packet_skip :: "nat \<Rightarrow> packet \<Rightarrow> packet" where
  "packet_skip offset p =
     (let offset = (if offset > psize p then psize p else offset)
      in p\<lparr>pdata := map_option (\<lambda>(b, off). (b, off + offset)) (pdata p), psize := psize p - offset\<rparr>)"

definition packet_cut :: "nat \<Rightarrow> packet \<Rightarrow> packet" where
  "packet_cut count' p = (let count' = (if count' > psize p then psize p else count') in p\<lparr>psize := psize p - count'\<rparr>)"

text \<open>\<open>operator+\<close> and \<open>operator-\<close>: a new packet that refers to this one, and its area.\<close>

definition packet_plus :: "nat \<Rightarrow> packet \<Rightarrow> packet" where
  "packet_plus offset p =
     (let offset = (if offset > psize p then psize p else offset)
      in setArea (case pdata p of None \<Rightarrow> 0 | Some (_, off) \<Rightarrow> int off + int offset) (psize p - offset) (p\<lparr>preference := True\<rparr>))"

definition packet_minus :: "nat \<Rightarrow> packet \<Rightarrow> packet" where
  "packet_minus count' p =
     (let count' = (if count' > psize p then psize p else count')
      in setArea (case pdata p of None \<Rightarrow> 0 | Some (_, off) \<Rightarrow> int off) (psize p - count') (p\<lparr>preference := True\<rparr>))"

definition packet_shrink :: "nat \<Rightarrow> packet \<Rightarrow> packet" where
  "packet_shrink available p = setArea (case pdata p of None \<Rightarrow> 0 | Some (_, off) \<Rightarrow> int off) available p"

text \<open>Comparisons, on the bytes shown.\<close>

fun memcmp_less :: "byte list \<Rightarrow> byte list \<Rightarrow> bool" where
  "memcmp_less (a # as) (b # bs) = (if a < b then True else if b < a then False else memcmp_less as bs)"
| "memcmp_less _ _ = False"

definition packet_eq :: "byte list \<Rightarrow> byte list \<Rightarrow> bool" where
  "packet_eq a b \<longleftrightarrow> length a = length b \<and> (a = [] \<or> a = b)"

definition packet_less :: "byte list \<Rightarrow> byte list \<Rightarrow> bool" where
  "packet_less a b = (if length a \<noteq> length b then length a < length b else a \<noteq> [] \<and> memcmp_less a b)"

definition packet_le :: "byte list \<Rightarrow> byte list \<Rightarrow> bool" where
  "packet_le a b \<longleftrightarrow> packet_eq a b \<or> packet_less a b"

definition packet_greater :: "byte list \<Rightarrow> byte list \<Rightarrow> bool" where
  "packet_greater a b \<longleftrightarrow> \<not> packet_le a b"

definition packet_ge :: "byte list \<Rightarrow> byte list \<Rightarrow> bool" where
  "packet_ge a b \<longleftrightarrow> packet_eq a b \<or> packet_greater a b"

fun identicalBytes :: "byte list \<Rightarrow> byte list \<Rightarrow> nat" where
  "identicalBytes (a # as) (b # bs) = (if a \<noteq> b then 0 else identicalBytes as bs + 1)"
| "identicalBytes _ _ = 0"

section \<open>Order\<close>

lemma memcmp_less_total: "length a = length b \<Longrightarrow> memcmp_less a b \<or> a = b \<or> memcmp_less b a"
  by (induction a b rule: list_induct2) auto

lemma memcmp_less_irrefl: "\<not> memcmp_less a a"
  by (induction a) auto

lemma memcmp_less_trans:
  "memcmp_less a b \<Longrightarrow> memcmp_less b c \<Longrightarrow> memcmp_less a c"
proof (induction a c arbitrary: b rule: memcmp_less.induct)
  case (1 x a z c)
  then show ?case by (cases b) (auto split: if_splits)
qed (auto elim: memcmp_less.elims)

text \<open>
  The comparisons of packets are a total order of their bytes: \<open><\<close> is irreflexive and transitive, one of \<open><\<close>, \<open>==\<close>, \<open>>\<close> holds,
  \<open>==\<close> is equality of the bytes, \<open><=\<close> and \<open>>=\<close> are what they say.
\<close>

theorem packet_order:
  "\<not> packet_less a a \<and> (\<not> (packet_less a b \<and> packet_less b c) \<or> packet_less a c) \<and>
   (packet_eq a b = (a = b)) \<and> (packet_greater a b = packet_less b a) \<and>
   (packet_le a b = (packet_less a b \<or> a = b)) \<and> (packet_ge a b = (packet_less b a \<or> a = b)) \<and>
   (packet_less a b \<or> a = b \<or> packet_less b a)"
proof -
  have eq: "packet_eq a b = (a = b)" by (auto simp: packet_eq_def)
  have irr: "\<not> packet_less x x" for x by (simp add: packet_less_def memcmp_less_irrefl)
  have tr: "packet_less x y \<Longrightarrow> packet_less y z \<Longrightarrow> packet_less x z" for x y z
    using memcmp_less_trans by (auto simp: packet_less_def split: if_splits)
  have tot: "packet_less a b \<or> a = b \<or> packet_less b a"
    using memcmp_less_total [of a b] by (auto simp: packet_less_def)
  show ?thesis
    using eq irr tr tot unfolding packet_le_def packet_greater_def packet_ge_def by blast
qed

text \<open>The common prefix.\<close>

lemma identicalBytes_prefix:
  "take (identicalBytes a b) a = take (identicalBytes a b) b \<and> identicalBytes a b \<le> length a \<and> identicalBytes a b \<le> length b \<and>
   (identicalBytes a b < length a \<longrightarrow> identicalBytes a b < length b \<longrightarrow> a ! identicalBytes a b \<noteq> b ! identicalBytes a b)"
  by (induction a b rule: identicalBytes.induct) auto

theorem packet_order_witness:
  "\<not> packet_less [1] [1] \<and> (\<not> (packet_less [1] [3] \<and> packet_less [3] [0, 0]) \<or> packet_less [1] [0, 0]) \<and>
   (packet_eq [1] [3] = ([1] = [3 :: byte])) \<and> (packet_greater [1] [3] = packet_less [3] [1]) \<and>
   (packet_le [1] [3] = (packet_less [1] [3] \<or> [1] = [3 :: byte])) \<and> (packet_ge [1] [3] = (packet_less [3] [1] \<or> [1] = [3 :: byte])) \<and>
   (packet_less [1] [3] \<or> [1] = [3 :: byte] \<or> packet_less [3] [1])"
  by (rule packet_order)

section \<open>Areas\<close>

text \<open>
  Whatever area is asked, before, after or over the end of the data of a packet, the one it gets is inside; an area that is
  inside is the one it gets.
\<close>

theorem packet_area_inside:
  assumes "pdata p = Some (b, off)"
  shows "\<exists>off'. pdata (setArea data n p) = Some (b, off') \<and> off \<le> off' \<and> off' + psize (setArea data n p) \<le> off + psize p \<and>
    (int off \<le> data \<and> data + int n \<le> int (off + psize p) \<longrightarrow> int off' = data \<and> psize (setArea data n p) = n)"
  using assms by (auto simp: setArea_def Let_def nat_le_iff)

theorem packet_area_inside_witness:
  "\<exists>off'. pdata (setArea 7 9 \<lparr>pholder = Null_Bytes, pdata = Some (0, 2), psize = 8, preference = True\<rparr>) = Some (0, off') \<and> 2 \<le> off' \<and>
     off' + psize (setArea 7 9 \<lparr>pholder = Null_Bytes, pdata = Some (0, 2), psize = 8, preference = True\<rparr>) \<le>
       2 + psize \<lparr>pholder = Null_Bytes, pdata = Some (0, 2), psize = 8, preference = True\<rparr> \<and>
     (int 2 \<le> (7::int) \<and> (7::int) + int 9 \<le> int (2 + psize \<lparr>pholder = Null_Bytes, pdata = Some (0, 2), psize = 8, preference = True\<rparr>) \<longrightarrow>
       int off' = 7 \<and> psize (setArea 7 9 \<lparr>pholder = Null_Bytes, pdata = Some (0, 2), psize = 8, preference = True\<rparr>) = 9)"
  by (rule packet_area_inside) simp

lemma packet_bytes_SomeE:
  assumes "packet_bytes st p = Some bs"
  obtains "psize p = 0" "bs = []"
    | b off where "pdata p = Some (b, off)" "block_live st b" "off + psize p \<le> length (snd (sblocks st ! b))" "psize p \<noteq> 0"
        "bs = take (psize p) (drop off (snd (sblocks st ! b)))"
proof (cases "psize p = 0")
  case True
  then show ?thesis using assms that(1) by (simp add: packet_bytes_def)
next
  case False
  then show ?thesis using assms that(2) by (auto simp: packet_bytes_def split: option.splits prod.splits if_splits)
qed

lemma packet_bytes_length: "packet_bytes st p = Some bs \<Longrightarrow> length bs = psize p"
  by (erule packet_bytes_SomeE) simp_all

lemma packet_bytes_cong:
  "pdata p = pdata q \<Longrightarrow> psize p = psize q \<Longrightarrow> packet_bytes st p = packet_bytes st q"
  by (simp add: packet_bytes_def split: option.split prod.split)

lemma packet_skip_bytes: "packet_bytes st p = Some bs \<Longrightarrow> packet_bytes st (packet_skip n p) = Some (drop n bs)"
  by (erule packet_bytes_SomeE) (auto simp: packet_bytes_def packet_skip_def Let_def drop_take add.commute)

lemma packet_cut_bytes: "packet_bytes st p = Some bs \<Longrightarrow> packet_bytes st (packet_cut n p) = Some (take (length bs - n) bs)"
proof -
  assume a: "packet_bytes st p = Some bs"
  note l = packet_bytes_length [OF a]
  from a show "packet_bytes st (packet_cut n p) = Some (take (length bs - n) bs)"
    unfolding l by (rule packet_bytes_SomeE) (auto simp: packet_bytes_def packet_cut_def Let_def)
qed

lemma packet_plus_bytes: "packet_bytes st p = Some bs \<Longrightarrow> packet_bytes st (packet_plus n p) = Some (drop n bs)"
proof -
  assume a: "packet_bytes st p = Some bs"
  have "psize (packet_plus n p) = psize (packet_skip n p) \<and> (psize p \<noteq> 0 \<longrightarrow> pdata p \<noteq> None \<longrightarrow> pdata (packet_plus n p) = pdata (packet_skip n p))"
    by (auto simp: packet_plus_def packet_skip_def setArea_def Let_def split: option.splits)
  then show "packet_bytes st (packet_plus n p) = Some (drop n bs)"
    using packet_skip_bytes [OF a, of n] a
    by (auto simp: packet_bytes_def packet_skip_def Let_def split: option.splits if_splits)
qed

lemma packet_minus_bytes: "packet_bytes st p = Some bs \<Longrightarrow> packet_bytes st (packet_minus n p) = Some (take (length bs - n) bs)"
proof -
  assume a: "packet_bytes st p = Some bs"
  have "psize (packet_minus n p) = psize (packet_cut n p) \<and> (pdata p \<noteq> None \<longrightarrow> pdata (packet_minus n p) = pdata (packet_cut n p))"
    by (auto simp: packet_minus_def packet_cut_def setArea_def Let_def split: option.splits)
  then show "packet_bytes st (packet_minus n p) = Some (take (length bs - n) bs)"
    using packet_cut_bytes [OF a, of n] a
    by (auto simp: packet_bytes_def packet_cut_def Let_def split: option.splits if_splits)
qed

section \<open>Assignment\<close>

text \<open>\<open>snext\<close> is new, and every object holds a block.\<close>

definition store_ok :: "store \<Rightarrow> bool" where
  "store_ok st \<longleftrightarrow> distinct (List.map fst (sshares st)) \<and> (\<forall>(i, b) \<in> set (sshares st). i < snext st \<and> b < length (sblocks st))"

text \<open>A packet that holds an object has its data in the block of the object.\<close>

definition packet_held :: "store \<Rightarrow> packet \<Rightarrow> bool" where
  "packet_held st p \<longleftrightarrow>
     (case pholder p of
        Share i \<Rightarrow> (\<exists>b off. map_of (sshares st) i = Some b \<and> pdata p = Some (b, off) \<and> off + psize p \<le> length (snd (sblocks st ! b)))
      | _ \<Rightarrow> False)"

lemma packet_held_bytes:
  assumes "store_ok st" "packet_held st p"
  obtains i b off where "pholder p = Share i" "map_of (sshares st) i = Some b" "pdata p = Some (b, off)" "block_live st b"
    "packet_bytes st p = Some (take (psize p) (drop off (snd (sblocks st ! b))))"
proof -
  obtain i b off where h: "pholder p = Share i" "map_of (sshares st) i = Some b" "pdata p = Some (b, off)"
      "off + psize p \<le> length (snd (sblocks st ! b))"
    using assms(2) by (auto simp: packet_held_def split: holder.splits)
  have "(i, b) \<in> set (sshares st)" using h(2) by (rule map_of_SomeD)
  then have "block_live st b" using assms(1) by (force simp: store_ok_def block_live_def)
  then show ?thesis using that h by (simp add: packet_bytes_def)
qed

lemma share_delete_keeps:
  assumes "store_ok st" "share_delete i st = Some st'" "map_of (sshares st) j = Some b" "j \<noteq> i"
  shows "map_of (sshares st') j = Some b" "sblocks st' = sblocks st" "store_ok st'"
proof -
  have s: "st' = st\<lparr>sshares := filter (\<lambda>(j, _). j \<noteq> i) (sshares st)\<rparr>"
    using assms(2) by (simp add: share_delete_def split: if_splits)
  have "map_of (filter (\<lambda>(k, _). k \<noteq> i) xs) j = map_of xs j" for xs :: "(nat \<times> nat) list"
    using assms(4) by (induction xs) auto
  then show "map_of (sshares st') j = Some b" using assms(3) by (simp add: s)
  show "sblocks st' = sblocks st" by (simp add: s)
  show "store_ok st'" using assms(1) by (auto simp: s store_ok_def distinct_map_filter)
qed

lemma packet_drop_ok:
  assumes "store_ok st" "packet_drop p st = Some st'"
  shows "store_ok st'" "sblocks st' = sblocks st" "snext st' = snext st"
proof -
  have d: "store_ok st'' \<and> sblocks st'' = sblocks st \<and> snext st'' = snext st" if "share_delete i st = Some st''" for i st''
    using that assms(1) by (auto simp: share_delete_def store_ok_def distinct_map_filter split: if_splits)
  show "store_ok st'" "sblocks st' = sblocks st" "snext st' = snext st"
    using assms d by (auto simp: packet_drop_def split: if_splits holder.splits)
qed

lemma share_new_ok:
  assumes "store_ok st" "b < length (sblocks st)" "share_new b st = (i, st')"
  shows "store_ok st'" "map_of (sshares st') i = Some b" "map_of (sshares st) j = Some c \<Longrightarrow> map_of (sshares st') j = Some c \<and> j \<noteq> i"
    "sblocks st' = sblocks st"
proof -
  have s: "i = snext st" "st' = st\<lparr>sshares := (snext st, b) # sshares st, snext := snext st + 1\<rparr>"
    using assms(3) by (auto simp: share_new_def)
  have new: "snext st \<notin> fst ` set (sshares st)" using assms(1) by (force simp: store_ok_def)
  show "store_ok st'" using assms(1,2) new by (force simp: s store_ok_def)
  show "map_of (sshares st') i = Some b" "sblocks st' = sblocks st" by (simp_all add: s)
  show "map_of (sshares st') j = Some c \<and> j \<noteq> i" if "map_of (sshares st) j = Some c"
  proof -
    have "j \<in> fst ` set (sshares st)" using that by (force dest: map_of_SomeD)
    then have "j \<noteq> snext st" using new by blast
    then show ?thesis using that by (simp add: s)
  qed
qed

lemma bufferize_held:
  assumes "store_ok st" "pdata q \<noteq> None" "packet_bytes st q = Some bs" "pholder q = Null_Bytes \<or> packet_held st q"
  obtains q' st' i b where "bufferize q st = Some (q', st')" "store_ok st'" "packet_held st' q'" "packet_bytes st' q' = Some bs"
    "pholder q' = Share i" "map_of (sshares st') i = Some b"
proof (cases "pholder q = Null_Bytes")
  case True
  let ?b = "length (sblocks st)" and ?s = "st\<lparr>sblocks := sblocks st @ [(False, bs)]\<rparr>"
  obtain i st' where n: "share_new ?b ?s = (i, st')" by fastforce
  have ok: "store_ok ?s" using assms(1) by (force simp: store_ok_def)
  note sn = share_new_ok [OF ok _ n]
  let ?q = "q\<lparr>pholder := Share i, pdata := Some (?b, 0), preference := False\<rparr>"
  have l: "psize q = length bs" using packet_bytes_length [OF assms(3)] by simp
  have b: "bufferize q st = Some (?q, st')"
    using assms(2,3) True n by (auto simp: bufferize_def block_new_def)
  have h: "packet_held st' ?q" using sn l by (simp add: packet_held_def)
  have "(i, ?b) \<in> set (sshares st')" using sn(2) by (simp add: map_of_SomeD)
  then have "?b \<in> snd ` set (sshares st')" by force
  then have "packet_bytes st' ?q = Some bs" using sn(4) l by (simp add: packet_bytes_def block_live_def)
  then show ?thesis using that b h sn by simp
next
  case False
  then have h: "packet_held st q" using assms(4) by simp
  then obtain i b where "pholder q = Share i" "map_of (sshares st) i = Some b"
    using packet_held_bytes [OF assms(1) h] by metis
  then show ?thesis using that [of q st i b] assms h by (auto simp: bufferize_def)
qed

text \<open>
  C28: A packet assigned from another one that ends, which is not on static text and whose bytes can still be read when the
  old content of the first is dropped (\<open>p = p + 1\<close> breaks that, \<open>assign_own_area_faults\<close>), shows the same bytes, owns them,
  and still shows them when the other one is deleted: not buffered data is copied, buffered data is shared.
\<close>

theorem packet_assign_survives:
  assumes "store_ok st" "packet_drop p st = Some st1" "pdata q \<noteq> None" "packet_bytes st1 q = Some bs"
    "pholder q = Null_Bytes \<or> packet_held st1 q"
  shows "\<exists>p' q' st' st''. set_move q p st = Some (p', q', st') \<and> \<not> preference p' \<and> packet_bytes st' p' = Some bs \<and>
    packet_drop q' st' = Some st'' \<and> packet_bytes st'' p' = Some bs"
proof -
  have ok1: "store_ok st1" using packet_drop_ok [OF assms(1,2)] by simp
  obtain q' st2 i b where q: "bufferize q st1 = Some (q', st2)" "store_ok st2" "packet_held st2 q'" "packet_bytes st2 q' = Some bs"
      "pholder q' = Share i" "map_of (sshares st2) i = Some b"
    using bufferize_held [OF ok1 assms(3-5)] by metis
  obtain off where d: "pdata q' = Some (b, off)" "off + psize q' \<le> length (snd (sblocks st2 ! b))"
    using q(3,5,6) by (auto simp: packet_held_def)
  have blt: "b < length (sblocks st2)" using q(2) map_of_SomeD [OF q(6)] by (force simp: store_ok_def)
  obtain j st3 where n: "share_new b st2 = (j, st3)" by fastforce
  note sn = share_new_ok [OF q(2) blt n]
  let ?p = "\<lparr>pholder = Share j, pdata = pdata q', psize = psize q', preference = False\<rparr>"
  have nb: "pholder q \<noteq> No_Buffer" using assms(5) by (auto simp: packet_held_def)
  have move: "set_move q p st = Some (?p, q', st3)"
    using assms(2,3) nb q(1,5,6) n unfolding set_move_def by auto
  have same: "packet_bytes s ?p = Some bs" if "store_ok s" "map_of (sshares s) j = Some b" "sblocks s = sblocks st2" for s
  proof -
    note sok = that
    have h: "packet_held s ?p" using that d by (simp add: packet_held_def)
    obtain "packet_bytes s ?p = Some (take (psize q') (drop off (snd (sblocks s ! b))))"
      using packet_held_bytes [OF sok(1) h] d(1) by auto
    moreover obtain "packet_bytes st2 q' = Some (take (psize q') (drop off (snd (sblocks st2 ! b))))"
      using packet_held_bytes [OF q(2,3)] d(1) by auto
    ultimately show ?thesis using q(4) sok(3) by simp
  qed
  have p3: "packet_bytes st3 ?p = Some bs" using same sn by simp
  show ?thesis
  proof (cases "preference q'")
    case True
    then have "packet_drop q' st3 = Some st3" by (simp add: packet_drop_def)
    then show ?thesis using move p3 by auto
  next
    case False
    have ij: "map_of (sshares st3) i = Some b" "i \<noteq> j" using sn(3) [OF q(6)] by auto
    then obtain st4 where st4: "share_delete i st3 = Some st4" by (simp add: share_delete_def)
    have "packet_drop q' st3 = Some st4" using False q(5) st4 by (simp add: packet_drop_def)
    moreover have "packet_bytes st4 ?p = Some bs"
      using same [of st4] share_delete_keeps [OF sn(1) st4 sn(2)] ij(2) sn(4) by simp
    ultimately show ?thesis using move p3 by auto
  qed
qed

text \<open>
  An owner assigned from a packet that refers to it: the object is deleted before it is used. This is \<open>p = p + 1\<close>, once
  \<open>p\<close> owns its bytes.
\<close>

definition owner_store :: store where
  "owner_store = \<lparr>sblocks = [(False, [1, 2, 3])], sshares = [(0, 0)], snext = 1\<rparr>"

definition owner :: packet where
  "owner = \<lparr>pholder = Share 0, pdata = Some (0, 0), psize = 3, preference = False\<rparr>"

lemma assign_own_area_faults:
  "packet_bytes owner_store (packet_plus 1 owner) = Some [2, 3]" "set_move (packet_plus 1 owner) owner owner_store = None"
  by code_simp+

text \<open>The area of a moved packet that was not buffered: its data are copied, and the area points to the old ones.\<close>

lemma move_area_of_copy:
  "let st = \<lparr>sblocks = [(True, [1, 2, 3])], sshares = [], snext = 0\<rparr>; q = \<lparr>pholder = Null_Bytes, pdata = Some (0, 0), psize = 3, preference = True\<rparr>
   in set_ref_area (0, 1) 2 q Packet st \<noteq> None \<and> set_move q Packet st \<noteq> None \<and> set_move_area (0, 1) 2 q Packet st = None"
  by code_simp

text \<open>The same with the other overload is handled.\<close>

lemma refer_own_area:
  "map_option (\<lambda>(p, st). packet_bytes st p) (set_ref (packet_plus 1 owner) owner owner_store) = Some (Some [2, 3])"
  by code_simp

theorem packet_assign_survives_witness:
  "\<exists>p' q' st' st''. set_move (packet_plus 1 owner) Packet owner_store = Some (p', q', st') \<and> \<not> preference p' \<and>
    packet_bytes st' p' = Some [2, 3] \<and> packet_drop q' st' = Some st'' \<and> packet_bytes st'' p' = Some [2, 3]"
proof (rule packet_assign_survives)
  show "store_ok owner_store" by (simp add: store_ok_def owner_store_def)
  show "packet_drop Packet owner_store = Some owner_store" by code_simp
  show "pdata (packet_plus 1 owner) \<noteq> None" by code_simp
  show "packet_bytes owner_store (packet_plus 1 owner) = Some [2, 3]" by code_simp
  show "pholder (packet_plus 1 owner) = Null_Bytes \<or> packet_held owner_store (packet_plus 1 owner)"
    by (simp add: packet_held_def packet_plus_def setArea_def owner_def owner_store_def)
qed

end
