(* ===== verification/Stream_Data.thy ===== *)
theory Stream_Data
  imports Packets
begin

text \<open>
  Mona/Net/StreamData.h: a stream cut into packets, and a parser that answers how many of the last bytes it was shown
  it wants again. The buffer is its bytes (Buffers shows that \<open>append\<close> and \<open>resize\<close> are what they are here), None when
  there is none. The parser is a parameter: from its state and the bytes, its state, its answer, and whether it keeps the
  packet, which makes the buffer immutable. It does not call the stream back.
  The lemmas show what the parser sees, when the stream fails, and that an incremental parser does not see how the
  stream was cut.
\<close>

type_synonym 's parser = "'s \<Rightarrow> byte list \<Rightarrow> 's \<times> nat \<times> bool"

text \<open>\<open>memmove(data, data + from, n)\<close> inside a buffer.\<close>

definition move_front :: "nat \<Rightarrow> nat \<Rightarrow> byte list \<Rightarrow> byte list" where
  "move_front from n bs = take n (drop from bs) @ drop n bs"

definition addStreamData :: "'s parser \<Rightarrow> nat \<Rightarrow> byte list \<Rightarrow> 's \<times> byte list option \<Rightarrow> bool \<times> 's \<times> byte list option" where
  "addStreamData onStreamData limit packet = (\<lambda>(s, buffer).
     (let all' = (case buffer of None \<Rightarrow> packet | Some b \<Rightarrow> b @ packet)
      in case onStreamData s all' of
           (s, answer, kept) \<Rightarrow>
             (let rest = min answer (length all')
              in if rest = 0 then (True, s, None)
                 else if rest > limit then (False, s, None)
                 else case buffer of
                   None \<Rightarrow> (True, s, Some (drop (length packet - rest) packet))
                 | Some _ \<Rightarrow>
                     (if kept then (True, s, Some (drop (length all' - rest) all'))
                      else if rest < length all' then (True, s, Some (take rest (move_front (length all' - rest) rest all')))
                      else (True, s, Some all')))))"

definition clearStreamData :: "'s \<times> byte list option \<Rightarrow> 's \<times> byte list option" where
  "clearStreamData = (\<lambda>(s, buffer). (s, None))"

definition pending :: "byte list option \<Rightarrow> byte list" where
  "pending buffer = (case buffer of None \<Rightarrow> [] | Some b \<Rightarrow> b)"

text \<open>
  The parser sees the bytes it left, then the packet. The stream fails exactly when the parser leaves more than
  the limit, and has then forgotten them; otherwise it keeps the last bytes the parser asked for, at most all.
\<close>

theorem stream_step:
  "addStreamData onStreamData limit packet (s, buffer) =
     (case onStreamData s (pending buffer @ packet) of
        (s', answer, kept) \<Rightarrow>
          (let rest = min answer (length (pending buffer @ packet)); kept = drop (length (pending buffer @ packet) - rest) (pending buffer @ packet)
           in (rest \<le> limit, s', if rest = 0 \<or> rest > limit then None else Some kept)))"
proof -
  let ?all = "pending buffer @ packet"
  obtain s' answer kept where h: "onStreamData s ?all = (s', answer, kept)" by (metis prod_cases3)
  define rest where "rest = min answer (length ?all)"
  have r: "rest \<le> length ?all" by (simp add: rest_def)
  have moved: "take rest (move_front (length ?all - rest) rest ?all) = drop (length ?all - rest) ?all"
    using r by (simp add: move_front_def)
  have all: "(case buffer of None \<Rightarrow> packet | Some b \<Rightarrow> b @ packet) = ?all" by (simp add: pending_def split: option.split)
  show ?thesis
  proof (cases buffer)
    case None
    then show ?thesis
      unfolding addStreamData_def prod.case all h Let_def rest_def [symmetric] using r by (simp add: pending_def)
  next
    case (Some b)
    then show ?thesis
      unfolding addStreamData_def prod.case all h Let_def rest_def [symmetric] using moved r by simp
  qed
qed

text \<open>Packets one after the other, while the stream does not fail.\<close>

fun stream_feed :: "'s parser \<Rightarrow> nat \<Rightarrow> byte list list \<Rightarrow> 's \<times> byte list option \<Rightarrow> bool \<times> 's \<times> byte list option" where
  "stream_feed h limit [] st = (True, st)"
| "stream_feed h limit (p # ps) st = (case addStreamData h limit p st of (ok, st) \<Rightarrow> if ok then stream_feed h limit ps st else (False, st))"

text \<open>
  A parser is incremental when what it does to a beginning, then to the bytes it left and the rest, is what it does to
  the whole.
\<close>

definition incremental :: "'s parser \<Rightarrow> bool" where
  "incremental h \<longleftrightarrow>
     (\<forall>s a b. case h s a of (s1, r1, _) \<Rightarrow>
        r1 \<le> length a \<and> fst (h s (a @ b)) = fst (h s1 (drop (length a - r1) a @ b)) \<and>
        fst (snd (h s (a @ b))) = fst (snd (h s1 (drop (length a - r1) a @ b))))"

lemma back_of: "n \<le> length y \<Longrightarrow> drop (length (x @ y) - n) (x @ y) = drop (length y - n) y"
  by simp

lemma stream_feed_snoc:
  "stream_feed h limit (ps @ [p]) st =
     (case stream_feed h limit ps st of (ok, st) \<Rightarrow> if ok then addStreamData h limit p st else (False, st))"
  by (induction ps arbitrary: st) (auto split: prod.split)

lemma incremental_step:
  assumes "incremental h" "h s a = (s1, r1, k1)"
  shows "r1 \<le> length a" "fst (h s (a @ b)) = fst (h s1 (drop (length a - r1) a @ b))"
    "fst (snd (h s (a @ b))) = fst (snd (h s1 (drop (length a - r1) a @ b)))"
proof -
  have "case h s a of (s1, r1, _) \<Rightarrow> r1 \<le> length a \<and> fst (h s (a @ b)) = fst (h s1 (drop (length a - r1) a @ b)) \<and>
      fst (snd (h s (a @ b))) = fst (snd (h s1 (drop (length a - r1) a @ b)))"
    using assms(1) [unfolded incremental_def, THEN spec [of _ s], THEN spec [of _ a], THEN spec [of _ b]] .
  then show "r1 \<le> length a" "fst (h s (a @ b)) = fst (h s1 (drop (length a - r1) a @ b))"
    "fst (snd (h s (a @ b))) = fst (snd (h s1 (drop (length a - r1) a @ b)))" using assms(2) by simp_all
qed

lemma incremental_answer: "incremental h \<Longrightarrow> fst (snd (h s c)) \<le> length c"
  using incremental_step(1) [of h s c] by (cases "h s c") auto

lemma stream_add:
  assumes "incremental h" "length (pending buffer @ p) \<le> limit"
  shows "\<exists>buffer'. addStreamData h limit p (s1, buffer) = (True, fst (h s1 (pending buffer @ p)), buffer') \<and>
    pending buffer' = drop (length (pending buffer @ p) - fst (snd (h s1 (pending buffer @ p)))) (pending buffer @ p)"
proof -
  obtain s2 r2 k2 where h2: "h s1 (pending buffer @ p) = (s2, r2, k2)" by (metis prod_cases3)
  have r2: "r2 \<le> length (pending buffer @ p)" using incremental_answer [OF assms(1), of s1 "pending buffer @ p"] h2 by simp
  then have m: "min r2 (length (pending buffer @ p)) = r2" "r2 \<le> limit" using assms(2) by linarith+
  show ?thesis unfolding stream_step h2 prod.case Let_def m(1) using m(2) by (auto simp: pending_def)
qed

text \<open>What the parser wants again of the last part is what it wants again of the whole.\<close>

lemma incremental_back:
  assumes "incremental h" "h s a = (s1, r1, k1)" "rest = drop (length a - r1) a"
  shows "fst (h s1 (rest @ p)) = fst (h s (a @ p))"
    "drop (length (rest @ p) - fst (snd (h s1 (rest @ p)))) (rest @ p) =
      drop (length (a @ p) - fst (snd (h s (a @ p)))) (a @ p)"
proof -
  let ?r = "fst (snd (h s (a @ p)))"
  have eq: "fst (h s1 (rest @ p)) = fst (h s (a @ p))" "fst (snd (h s1 (rest @ p))) = ?r"
    using incremental_step(2,3) [OF assms(1,2), of p] unfolding assms(3) by simp_all
  show "fst (h s1 (rest @ p)) = fst (h s (a @ p))" by (rule eq(1))
  have r: "?r \<le> length (rest @ p)" using incremental_answer [OF assms(1), of s1 "rest @ p"] eq(2) by simp
  have "a @ p = take (length a - r1) a @ (rest @ p)" unfolding assms(3) by (metis append.assoc append_take_drop_id)
  then have "drop (length (a @ p) - ?r) (a @ p) = drop (length (rest @ p) - ?r) (rest @ p)"
    using r back_of [of ?r "rest @ p" "take (length a - r1) a"] by metis
  then show "drop (length (rest @ p) - fst (snd (h s1 (rest @ p)))) (rest @ p) =
      drop (length (a @ p) - ?r) (a @ p)" unfolding eq(2) by simp
qed

text \<open>
  C30: An incremental parser ends in the state, and with the bytes left, of a single call on the whole stream, however it is
  cut into packets, as long as the stream is not over the limit.
\<close>

theorem stream_chunks:
  assumes "incremental h" "ps \<noteq> []" "length (concat ps) \<le> limit"
  shows "\<exists>buffer. stream_feed h limit ps (s, None) = (True, fst (h s (concat ps)), buffer) \<and>
    pending buffer = drop (length (concat ps) - fst (snd (h s (concat ps)))) (concat ps)"
  using assms(2,3)
proof (induction ps rule: rev_induct)
  case (snoc p ps)
  define a where "a = concat ps"
  show ?case
  proof (cases "ps = []")
    case True
    then show ?thesis using stream_add [OF assms(1), of None p limit s] snoc.prems by (auto simp: pending_def)
  next
    case False
    have "length (concat ps) \<le> limit" using snoc.prems by simp
    then obtain buffer where f: "stream_feed h limit ps (s, None) = (True, fst (h s a), buffer)"
        "pending buffer = drop (length a - fst (snd (h s a))) a"
      using snoc.IH False unfolding a_def by blast
    obtain s1 r1 k1 where h1: "h s a = (s1, r1, k1)" by (metis prod_cases3)
    have pend: "pending buffer = drop (length a - r1) a" using f(2) h1 by simp
    have "length (pending buffer @ p) \<le> limit" using snoc.prems pend by (auto simp: a_def)
    then obtain buffer' where b: "addStreamData h limit p (s1, buffer) = (True, fst (h s1 (pending buffer @ p)), buffer')"
        "pending buffer' = drop (length (pending buffer @ p) - fst (snd (h s1 (pending buffer @ p)))) (pending buffer @ p)"
      using stream_add [OF assms(1)] by blast
    note again = incremental_back [OF assms(1) h1 pend, of p]
    have "stream_feed h limit (ps @ [p]) (s, None) = (True, fst (h s (a @ p)), buffer')"
      using f(1) h1 b(1) again(1) by (simp add: stream_feed_snoc)
    then show ?thesis using b(2) unfolding again(2) by (auto simp: a_def)
  qed
qed simp

text \<open>A parser of frames of two bytes, which counts them.\<close>

definition count_pairs :: "nat parser" where
  "count_pairs s bs = (s + length bs div 2, length bs mod 2, False)"

theorem stream_chunks_witness:
  "\<exists>buffer. stream_feed count_pairs 10 [[1], [2, 3, 4], [5]] (0, None) = (True, fst (count_pairs 0 (concat [[1], [2, 3, 4], [5]])), buffer) \<and>
    pending buffer = drop (length (concat [[1], [2, 3, 4], [5 :: byte]]) - fst (snd (count_pairs 0 (concat [[1], [2, 3, 4], [5]]))))
      (concat [[1], [2, 3, 4], [5]])"
proof (rule stream_chunks)
  have "n div 2 + (n mod 2 + m) div 2 = (n + m) div 2 \<and> (n mod 2 + m) mod 2 = (n + m) mod 2" for n m :: nat by presburger
  then show "incremental count_pairs" by (simp add: incremental_def count_pairs_def add.commute)
qed simp_all

end
