(* ===== verification/Cli.thy ===== *)
theory Cli
  imports Strings
begin

text \<open>
  Mona/Application/Option.h, Option.cpp, Options.h, Options.cpp: the options of a command line. The
  \<open>std::set<Option>\<close> is a list searched in its order; its comparison is not a strict weak order on all options (see below),
  and the standard says what the set does only when the options in it differ by both names, which is the invariant here.
  A handler is a function of the argument (None for NULL) that says whether to go on.
  The lemmas show that a command line written from options and values is read back, and which error a repeated option gives.
\<close>

section \<open>Options\<close>

record cli_option =
  oshort :: string
  ofull :: string
  odescription :: string
  orequired :: bool
  orepeatable :: bool
  oargument :: string
  oargRequired :: bool
  ohandler :: "(string option \<Rightarrow> bool) option"

definition Option :: "string \<Rightarrow> string \<Rightarrow> cli_option" where
  "Option fullName shortName = \<lparr>oshort = shortName, ofull = fullName, odescription = [], orequired = False, orepeatable = False,
     oargument = [], oargRequired = False, ohandler = None\<rparr>"

definition Option_described :: "string \<Rightarrow> string \<Rightarrow> string \<Rightarrow> bool \<Rightarrow> string \<Rightarrow> bool \<Rightarrow> cli_option" where
  "Option_described fullName shortName text' required argName argRequired = \<lparr>oshort = shortName, ofull = fullName,
     odescription = text', orequired = required, orepeatable = False, oargument = argName, oargRequired = argRequired, ohandler = None\<rparr>"

definition set_handler :: "(string option \<Rightarrow> bool) \<Rightarrow> cli_option \<Rightarrow> cli_option" where
  "set_handler f o' = o'\<lparr>ohandler := Some f\<rparr>"

definition set_description :: "string \<Rightarrow> cli_option \<Rightarrow> cli_option" where
  "set_description s o' = o'\<lparr>odescription := s\<rparr>"

definition set_required :: "bool \<Rightarrow> cli_option \<Rightarrow> cli_option" where
  "set_required flag o' = o'\<lparr>orequired := flag\<rparr>"

definition set_repeatable :: "bool \<Rightarrow> cli_option \<Rightarrow> cli_option" where
  "set_repeatable flag o' = o'\<lparr>orepeatable := flag\<rparr>"

definition set_argument :: "string \<Rightarrow> bool \<Rightarrow> cli_option \<Rightarrow> cli_option" where
  "set_argument name required o' = o'\<lparr>oargument := name, oargRequired := required\<rparr>"

definition noArgument :: "cli_option \<Rightarrow> cli_option" where
  "noArgument o' = o'\<lparr>oargument := [], oargRequired := False\<rparr>"

definition takesArgument :: "cli_option \<Rightarrow> bool" where
  "takesArgument o' \<longleftrightarrow> oargument o' \<noteq> []"

definition option_string :: "cli_option \<Rightarrow> string" where
  "option_string o' = (if ofull o' = [] then oshort o' else ofull o')"

text \<open>\<open>String::ICompare\<close> of two strings.\<close>

definition icompare :: "string \<Rightarrow> string \<Rightarrow> int" where
  "icompare a b = ICompare (Some a) (Some (length a)) (Some b) None"

definition option_eq :: "cli_option \<Rightarrow> cli_option \<Rightarrow> bool" where
  "option_eq a b \<longleftrightarrow> icompare (ofull a) (ofull b) = 0 \<or> icompare (oshort a) (oshort b) = 0"

definition option_lt :: "cli_option \<Rightarrow> cli_option \<Rightarrow> bool" where
  "option_lt a b \<longleftrightarrow> icompare (oshort a) (oshort b) \<noteq> 0 \<and> icompare (ofull a) (ofull b) < 0"

text \<open>\<open>Option::Parse\<close>: an argument without its one or two hyphens.\<close>

definition Option_Parse :: "string \<Rightarrow> string option" where
  "Option_Parse arg =
     (case arg of
        c # d # cs \<Rightarrow> (if c = CHR ''-'' then (if d \<noteq> CHR ''-'' then Some (d # cs) else if cs \<noteq> [] then Some cs else None) else None)
      | _ \<Rightarrow> None)"

section \<open>The set of options\<close>

definition options_find :: "cli_option \<Rightarrow> cli_option list \<Rightarrow> cli_option option" where
  "options_find q os = mfind option_lt q (List.map (\<lambda>o'. (o', o')) os)"

fun options_emplace :: "cli_option \<Rightarrow> cli_option list \<Rightarrow> cli_option + cli_option list" where
  "options_emplace x [] = Inr [x]"
| "options_emplace x (y # ys) =
     (if option_lt x y then Inr (x # y # ys)
      else if option_lt y x then (case options_emplace x ys of Inl d \<Rightarrow> Inl d | Inr ys \<Rightarrow> Inr (y # ys))
      else Inl y)"

datatype option_error =
  Full_Name_Empty | Short_Name_Empty | Name_Duplicated string
  | Malformed string | Empty_Option | Unknown string | Given_Twice string | Argument_Required string | Handler_Failed | Required string

definition options_add :: "cli_option \<Rightarrow> cli_option list \<Rightarrow> option_error + cli_option list" where
  "options_add x os =
     (if ofull x = [] then Inl Full_Name_Empty
      else if oshort x = [] then Inl Short_Name_Empty
      else case options_emplace x os of Inl d \<Rightarrow> Inl (Name_Duplicated (ofull d)) | Inr os \<Rightarrow> Inr os)"

definition options_remove :: "string \<Rightarrow> cli_option list \<Rightarrow> cli_option list" where
  "options_remove name os = filter (\<lambda>o'. \<not> eqv option_lt o' (Option name [])) os"

definition options_get :: "string \<Rightarrow> cli_option list \<Rightarrow> cli_option" where
  "options_get name os = (case options_find (Option name []) os of None \<Rightarrow> Option [] [] | Some o' \<Rightarrow> o')"

section \<open>The command line\<close>

definition arg_name_end :: "char \<Rightarrow> bool" where
  "arg_name_end c \<longleftrightarrow> c = CHR '':'' \<or> c = CHR ''=''"

text \<open>A \<open>set<string, IComparator>\<close>: whether the name is new.\<close>

definition read_emplace :: "string \<Rightarrow> string list \<Rightarrow> bool \<times> string list" where
  "read_emplace name names = (if list_ex (\<lambda>n. eqv IComparator n name) names then (False, names) else (True, name # names))"

text \<open>One argument: the error, the names read so far, and the calls of \<open>forEach\<close>.\<close>

definition process_arg ::
  "bool \<Rightarrow> cli_option list \<Rightarrow> string \<Rightarrow> string list \<Rightarrow> option_error option \<times> string list \<times> (string \<times> string option) list" where
  "process_arg ignoreUnknown os argument alreadyReaden =
     (case Option_Parse argument of
        None \<Rightarrow> (Some (Malformed argument), alreadyReaden, [])
      | Some arg \<Rightarrow>
          (let name = takeWhile (\<lambda>c. \<not> arg_name_end c) arg; rest = dropWhile (\<lambda>c. \<not> arg_name_end c) arg
           in if name = [] then (Some Empty_Option, alreadyReaden, [])
              else
                (let (pOption, name) =
                       (case options_find (Option name []) os of
                          Some o' \<Rightarrow> (Some o', name)
                        | None \<Rightarrow>
                            (case List.find (\<lambda>o'. option_eq o' (Option [] name)) os of
                               Some o' \<Rightarrow> (Some o', option_string o')
                             | None \<Rightarrow> (None, name)))
                 in if pOption = None \<and> \<not> ignoreUnknown then (Some (Unknown name), alreadyReaden, [])
                    else
                      (case read_emplace name alreadyReaden of
                         (new, alreadyReaden) \<Rightarrow>
                           (let value' = (case rest of [] \<Rightarrow> None | _ # v \<Rightarrow> Some v)
                            in if \<not> new \<and> (case pOption of None \<Rightarrow> True | Some o' \<Rightarrow> \<not> orepeatable o')
                               then (Some (Given_Twice name), alreadyReaden, [])
                               else
                                 (case pOption of
                                    None \<Rightarrow> (None, alreadyReaden, [(name, value')])
                                  | Some o' \<Rightarrow>
                                      (if value' = None \<and> oargRequired o' then (Some (Argument_Required (option_string o')), alreadyReaden, [])
                                       else if (case ohandler o' of None \<Rightarrow> False | Some f \<Rightarrow> \<not> f value')
                                       then (Some Handler_Failed, alreadyReaden, [])
                                       else (None, alreadyReaden, [(name, value')]))))))))"

fun process_args ::
  "bool \<Rightarrow> cli_option list \<Rightarrow> string list \<Rightarrow> string list \<Rightarrow> option_error option \<times> string list \<times> (string \<times> string option) list" where
  "process_args ignoreUnknown os [] alreadyReaden = (None, alreadyReaden, [])"
| "process_args ignoreUnknown os (a # as) alreadyReaden =
     (case process_arg ignoreUnknown os a alreadyReaden of
        (Some e, alreadyReaden, calls) \<Rightarrow> (Some e, alreadyReaden, calls)
      | (None, alreadyReaden, calls) \<Rightarrow>
          (case process_args ignoreUnknown os as alreadyReaden of
             (e, alreadyReaden, others) \<Rightarrow> (e, alreadyReaden, calls @ others)))"

text \<open>\<open>process(ex, argc, argv, forEach)\<close>: \<open>argv[0]\<close> is the command. The error, and the calls.\<close>

definition options_process :: "bool \<Rightarrow> cli_option list \<Rightarrow> string list \<Rightarrow> option_error option \<times> (string \<times> string option) list" where
  "options_process ignoreUnknown os argv =
     (case process_args ignoreUnknown os (tl argv) [] of
        (Some e, _, calls) \<Rightarrow> (Some e, calls)
      | (None, alreadyReaden, calls) \<Rightarrow>
          (case List.find (\<lambda>o'. orequired o' \<and> \<not> list_ex (\<lambda>n. eqv IComparator n (option_string o')) alreadyReaden) os of
             None \<Rightarrow> (None, calls)
           | Some o' \<Rightarrow> (Some (Required (option_string o')), calls)))"

section \<open>The names of options\<close>

lemma icompare_key: "icompare a b < 0 \<longleftrightarrow> ikey a < ikey b" "icompare a b = 0 \<longleftrightarrow> ikey a = ikey b"
  by (simp_all add: icompare_def ICompare_def ICompare_loop_key)

lemma option_eq_key: "option_eq a b \<longleftrightarrow> ikey (ofull a) = ikey (ofull b) \<or> ikey (oshort a) = ikey (oshort b)"
  by (simp add: option_eq_def icompare_key)

lemma option_lt_key: "option_lt a b \<longleftrightarrow> ikey (oshort a) \<noteq> ikey (oshort b) \<and> ikey (ofull a) < ikey (ofull b)"
  by (simp add: option_lt_def icompare_key)

text \<open>Options in order of their full names, with two names each, all different.\<close>

definition options_ok :: "cli_option list \<Rightarrow> bool" where
  "options_ok os \<longleftrightarrow>
     sorted_wrt (\<lambda>a b. ikey (ofull a) < ikey (ofull b)) os \<and> distinct (List.map (\<lambda>o'. ikey (oshort o')) os) \<and>
     (\<forall>o' \<in> set os. ikey (ofull o') \<noteq> [] \<and> ikey (oshort o') \<noteq> [])"

lemma options_ok_Cons:
  "options_ok (o' # os) \<longleftrightarrow> options_ok os \<and> ikey (ofull o') \<noteq> [] \<and> ikey (oshort o') \<noteq> [] \<and>
     (\<forall>p \<in> set os. ikey (ofull o') < ikey (ofull p) \<and> ikey (oshort p) \<noteq> ikey (oshort o'))"
  unfolding options_ok_def by (auto simp: image_iff dest: sym)

lemma options_ok_keys:
  "options_ok os \<longleftrightarrow>
     sorted_wrt (<) (List.map (\<lambda>o'. ikey (ofull o')) os) \<and> distinct (List.map (\<lambda>o'. ikey (oshort o')) os) \<and>
     [] \<notin> set (List.map (\<lambda>o'. ikey (ofull o')) os) \<and> [] \<notin> set (List.map (\<lambda>o'. ikey (oshort o')) os)"
  unfolding options_ok_def sorted_wrt_map by (auto simp: image_iff dest: sym)

lemma options_find_full:
  assumes "options_ok os"
  shows "options_find (Option name []) os = List.find (\<lambda>o'. ikey (ofull o') = ikey name) os"
  using assms
proof (induction os)
  case Nil
  then show ?case by (simp add: options_find_def)
next
  case (Cons o' os)
  then have o': "options_ok os" "ikey (oshort o') \<noteq> []" "\<forall>p \<in> set os. ikey (ofull o') < ikey (ofull p)"
    by (auto simp: options_ok_Cons)
  have q: "option_lt (Option name []) o' \<longleftrightarrow> ikey name < ikey (ofull o')" "option_lt o' (Option name []) \<longleftrightarrow> ikey (ofull o') < ikey name"
    using o'(2) by (auto simp: option_lt_key Option_def)
  have later: "List.find (\<lambda>p. ikey (ofull p) = ikey name) os = None" if "ikey name \<le> ikey (ofull o')"
    using that o'(3) by (auto simp: find_None_iff)
  show ?case
    using Cons.IH [OF o'(1)] q later
    by (cases rule: linorder_cases [of "ikey name" "ikey (ofull o')"]) (auto simp: options_find_def)
qed

lemma find_key:
  assumes "o' \<in> set os" "distinct (List.map k os)"
  shows "List.find (\<lambda>p. k p = k o') os = Some o'"
  using assms by (induction os) (auto split: if_splits)

lemma options_ok_distinct: "options_ok os \<Longrightarrow> distinct (List.map (\<lambda>o'. ikey (ofull o')) os)"
  by (induction os) (auto simp: options_ok_Cons)

text \<open>An option added with two new names keeps the order.\<close>

lemma options_add_ok:
  assumes "options_ok os" "ikey (ofull x) \<noteq> []" "ikey (oshort x) \<noteq> []"
    "\<forall>o' \<in> set os. ikey (ofull o') \<noteq> ikey (ofull x) \<and> ikey (oshort o') \<noteq> ikey (oshort x)"
  obtains os' where "options_add x os = Inr os'" "options_ok os'" "set os' = insert x (set os)"
proof -
  have "\<exists>os'. options_emplace x os = Inr os' \<and> options_ok os' \<and> set os' = insert x (set os)"
    using assms
  proof (induction os)
    case Nil
    then show ?case by (simp add: options_ok_def)
  next
    case (Cons y ys)
    then have y: "options_ok ys" "\<forall>p \<in> set ys. ikey (ofull y) < ikey (ofull p)" by (simp_all add: options_ok_Cons)
    obtain ys' where ys': "options_emplace x ys = Inr ys'" "options_ok ys'" "set ys' = insert x (set ys)"
      using Cons.IH y(1) Cons.prems(2-4) by auto
    show ?case
    proof (cases "ikey (ofull x) < ikey (ofull y)")
      case True
      then have "\<forall>p \<in> set ys. ikey (ofull x) < ikey (ofull p)" using y(2) by auto
      then show ?thesis using True Cons.prems by (auto simp: option_lt_key options_ok_Cons)
    next
      case False
      then have "ikey (ofull y) < ikey (ofull x)" using Cons.prems(4) by (metis linorder_neqE list.set_intros(1))
      then show ?thesis using False Cons.prems ys' by (auto simp: option_lt_key options_ok_Cons)
    qed
  qed
  moreover have "ofull x \<noteq> []" "oshort x \<noteq> []" using assms(2,3) by auto
  ultimately show ?thesis using that by (auto simp: options_add_def)
qed

section \<open>A command line read back\<close>

text \<open>An option, by its short name or not, with a value or not.\<close>

type_synonym use = "cli_option \<times> bool \<times> string option"

definition write_use :: "use \<Rightarrow> string" where
  "write_use = (\<lambda>(o', short, v).
     (if short then CHR ''-'' # oshort o' else ''--'' @ ofull o') @ (case v of None \<Rightarrow> [] | Some v \<Rightarrow> CHR ''='' # v))"

definition use_call :: "use \<Rightarrow> string \<times> string option" where
  "use_call = (\<lambda>(o', short, v). (ofull o', v))"

text \<open>Names without end, a short name that is not a full one, an argument when it is required, and a handler that goes on.\<close>

definition use_text_ok :: "cli_option list \<Rightarrow> cli_option \<Rightarrow> string option \<Rightarrow> bool" where
  "use_text_ok os o' v \<longleftrightarrow>
     list_all (\<lambda>c. \<not> arg_name_end c) (ofull o') \<and> list_all (\<lambda>c. \<not> arg_name_end c) (oshort o') \<and>
     hd (oshort o') \<noteq> CHR ''-'' \<and> \<not> list_ex (\<lambda>p. ikey (ofull p) = ikey (oshort o')) os \<and>
     (v = None \<longrightarrow> \<not> oargRequired o') \<and> (case ohandler o' of None \<Rightarrow> True | Some f \<Rightarrow> f v)"

definition use_ok :: "cli_option list \<Rightarrow> use \<Rightarrow> bool" where
  "use_ok os = (\<lambda>(o', short, v). o' \<in> set os \<and> use_text_ok os o' v)"

definition is_read :: "string list \<Rightarrow> string \<Rightarrow> bool" where
  "is_read names name \<longleftrightarrow> list_ex (\<lambda>n. ikey n = ikey name) names"

lemma read_emplace_key: "read_emplace name names = (if is_read names name then (False, names) else (True, name # names))"
  by (simp add: read_emplace_def is_read_def eqv_IComparator)

lemma takeWhile_name:
  assumes "list_all (\<lambda>c. \<not> arg_name_end c) w"
  shows "takeWhile (\<lambda>c. \<not> arg_name_end c) (w @ (case v of None \<Rightarrow> [] | Some v \<Rightarrow> CHR ''='' # v)) = w"
    "dropWhile (\<lambda>c. \<not> arg_name_end c) (w @ (case v of None \<Rightarrow> [] | Some v \<Rightarrow> CHR ''='' # v)) = (case v of None \<Rightarrow> [] | Some v \<Rightarrow> CHR ''='' # v)"
proof -
  have "arg_name_end (CHR ''='')" by (simp add: arg_name_end_def)
  then show "takeWhile (\<lambda>c. \<not> arg_name_end c) (w @ (case v of None \<Rightarrow> [] | Some v \<Rightarrow> CHR ''='' # v)) = w"
    "dropWhile (\<lambda>c. \<not> arg_name_end c) (w @ (case v of None \<Rightarrow> [] | Some v \<Rightarrow> CHR ''='' # v)) = (case v of None \<Rightarrow> [] | Some v \<Rightarrow> CHR ''='' # v)"
    using assms by (induction w) (auto split: option.split)
qed

lemma process_arg_use:
  assumes os: "options_ok os" and u: "use_ok os (o', short, v)"
  shows "process_arg ign os (write_use (o', short, v)) names =
    (if is_read names (ofull o') \<and> \<not> orepeatable o' then (Some (Given_Twice (ofull o')), names, [])
     else (None, if is_read names (ofull o') then names else ofull o' # names, [use_call (o', short, v)]))"
proof -
  have o': "o' \<in> set os" "list_all (\<lambda>c. \<not> arg_name_end c) (ofull o')" "list_all (\<lambda>c. \<not> arg_name_end c) (oshort o')"
    "hd (oshort o') \<noteq> CHR ''-''" "\<not> list_ex (\<lambda>p. ikey (ofull p) = ikey (oshort o')) os" "v = None \<longrightarrow> \<not> oargRequired o'"
    "case ohandler o' of None \<Rightarrow> True | Some f \<Rightarrow> f v"
    using u by (simp_all add: use_ok_def use_text_ok_def)
  have ne: "ofull o' \<noteq> []" "oshort o' \<noteq> []" using os o'(1) by (auto simp: options_ok_def)
  let ?w = "if short then oshort o' else ofull o'" and ?t = "case v of None \<Rightarrow> [] | Some v \<Rightarrow> CHR ''='' # v"
  have parse: "Option_Parse (write_use (o', short, v)) = Some (?w @ ?t)"
    using ne o'(4) by (cases "oshort o'") (auto simp: write_use_def Option_Parse_def split: list.split)
  have w: "list_all (\<lambda>c. \<not> arg_name_end c) ?w" "?w \<noteq> []" using o'(2,3) ne by auto
  have full: "List.find (\<lambda>p. ikey (ofull p) = ikey (ofull o')) os = Some o'"
    using find_key [of o' os "\<lambda>p. ikey (ofull p)"] o'(1) options_ok_distinct [OF os] by simp
  have short: "List.find (\<lambda>p. option_eq p (Option [] (oshort o'))) os = Some o'"
  proof -
    have "List.find (\<lambda>p. option_eq p (Option [] (oshort o'))) os = List.find (\<lambda>p. ikey (oshort p) = ikey (oshort o')) os"
      using os by (intro find_cong) (auto simp: option_eq_key Option_def options_ok_def)
    then show ?thesis using find_key [of o' os "\<lambda>p. ikey (oshort p)"] o'(1) os by (simp add: options_ok_def)
  qed
  have none: "List.find (\<lambda>p. ikey (ofull p) = ikey (oshort o')) os = None"
    using o'(5) by (auto simp: find_None_iff list_ex_iff)
  have found: "(case options_find (Option ?w []) os of Some p \<Rightarrow> (Some p, ?w)
      | None \<Rightarrow> (case List.find (\<lambda>p. option_eq p (Option [] ?w)) os of Some p \<Rightarrow> (Some p, option_string p) | None \<Rightarrow> (None, ?w))) =
      (Some o', ofull o')"
    unfolding options_find_full [OF os] using full short none ne by (simp add: option_string_def)
  have val: "(case ?t of [] \<Rightarrow> None | _ # v \<Rightarrow> Some v) = v" by (cases v) simp_all
  show ?thesis
    unfolding process_arg_def parse option.case takeWhile_name [OF w(1)] Let_def found prod.case read_emplace_key val
    using w(2) o'(6,7) by (auto simp: use_call_def split: option.splits)
qed

fun uses_ok :: "cli_option list \<Rightarrow> string list \<Rightarrow> use list \<Rightarrow> bool" where
  "uses_ok os names [] \<longleftrightarrow> True"
| "uses_ok os names ((o', short, v) # us) \<longleftrightarrow>
     use_ok os (o', short, v) \<and> (is_read names (ofull o') \<longrightarrow> orepeatable o') \<and> uses_ok os (ofull o' # names) us"

lemma is_read_Cons [simp]: "is_read (n # names) m \<longleftrightarrow> ikey n = ikey m \<or> is_read names m"
  by (simp add: is_read_def)

lemma uses_ok_cong: "(\<And>n. is_read a n = is_read b n) \<Longrightarrow> uses_ok os a us = uses_ok os b us"
proof (induction us arbitrary: a b)
  case (Cons u us)
  obtain o' short v where u: "u = (o', short, v)" by (metis prod_cases3)
  have "uses_ok os (ofull o' # a) us = uses_ok os (ofull o' # b) us" using Cons by (intro Cons.IH) simp
  then show ?case using Cons.prems by (simp add: u)
qed simp

lemma process_args_uses:
  assumes os: "options_ok os" and us: "uses_ok os names us"
  obtains names' where
    "process_args ign os (List.map write_use us @ rest) names =
      (case process_args ign os rest names' of (e, read', calls) \<Rightarrow> (e, read', List.map use_call us @ calls))"
    "\<And>n. is_read names' n \<longleftrightarrow> is_read names n \<or> list_ex (\<lambda>u. ikey (ofull (fst u)) = ikey n) us"
proof -
  have "\<exists>names'. process_args ign os (List.map write_use us @ rest) names =
      (case process_args ign os rest names' of (e, read', calls) \<Rightarrow> (e, read', List.map use_call us @ calls)) \<and>
      (\<forall>n. is_read names' n \<longleftrightarrow> is_read names n \<or> list_ex (\<lambda>u. ikey (ofull (fst u)) = ikey n) us)"
    using us
  proof (induction us arbitrary: names)
    case Nil
    then show ?case by (intro exI [of _ names]) (simp split: prod.split)
  next
    case (Cons u us)
    obtain o' short v where u: "u = (o', short, v)" by (metis prod_cases3)
    define read1 where "read1 = (if is_read names (ofull o') then names else ofull o' # names)"
    have r1: "is_read read1 n \<longleftrightarrow> is_read (ofull o' # names) n" for n by (auto simp: read1_def is_read_def list_ex_iff)
    have step: "process_arg ign os (write_use u) names = (None, read1, [use_call u])"
      using process_arg_use [OF os, of o' short v ign names] Cons.prems by (auto simp: u read1_def)
    have fu: "fst u = o'" by (simp add: u)
    have "uses_ok os read1 us" using Cons.prems uses_ok_cong [OF r1] by (simp add: u)
    then obtain names' where n: "process_args ign os (List.map write_use us @ rest) read1 =
        (case process_args ign os rest names' of (e, read', calls) \<Rightarrow> (e, read', List.map use_call us @ calls))"
        "\<forall>n. is_read names' n \<longleftrightarrow> is_read read1 n \<or> list_ex (\<lambda>u. ikey (ofull (fst u)) = ikey n) us"
      using Cons.IH by blast
    show ?case
      using n r1 by (intro exI [of _ names']) (auto simp: step fu split: prod.split)
  qed
  then show ?thesis using that by blast
qed

text \<open>
  C31: A command line written from options, by their full or short names, with or without a value, calls \<open>forEach\<close> with the
  full name and the value of each, in order, without an error, when every required option is there and only
  repeatable options are repeated.
\<close>

theorem options_command_line:
  assumes "options_ok os" "uses_ok os [] us" "\<forall>o' \<in> set os. orequired o' \<longrightarrow> o' \<in> fst ` set us"
  shows "options_process ign os (command # List.map write_use us) = (None, List.map use_call us)"
proof -
  obtain names' where n: "process_args ign os (List.map write_use us @ []) [] =
      (case process_args ign os [] names' of (e, read', calls) \<Rightarrow> (e, read', List.map use_call us @ calls))"
      "\<And>n. is_read names' n \<longleftrightarrow> is_read [] n \<or> list_ex (\<lambda>u. ikey (ofull (fst u)) = ikey n) us"
    using process_args_uses [OF assms(1,2)] by blast
  have "List.find (\<lambda>o'. orequired o' \<and> \<not> list_ex (\<lambda>n. eqv IComparator n (option_string o')) names') os = None"
  proof -
    have "is_read names' (option_string o')" if "o' \<in> set os" "orequired o'" for o'
    proof -
      have "o' \<in> fst ` set us" "ofull o' \<noteq> []" using that assms(1,3) by (auto simp: options_ok_def)
      then show ?thesis by (auto simp: n(2) list_ex_iff option_string_def)
    qed
    then show ?thesis by (auto simp: find_None_iff is_read_def eqv_IComparator)
  qed
  then show ?thesis using n(1) by (simp add: options_process_def)
qed

definition example_options :: "cli_option list" where
  "example_options = [set_argument ''file'' True (Option ''config'' ''c''), set_required True (Option ''daemon'' ''d''),
     set_repeatable True (set_argument ''level'' False (Option ''verbose'' ''v''))]"

definition example_uses :: "use list" where
  "example_uses = [(example_options ! 2, True, None), (example_options ! 0, False, Some ''/etc/a=b''), (example_options ! 1, True, None),
     (example_options ! 2, False, Some ''3'')]"

lemma ikey_Cons_code:
  "ikey (c # s) = (if code c = 0 then [] else (if 65 \<le> code c \<and> code c \<le> 90 then code c + 32 else code c) # ikey s)"
  by (simp add: ikey_Cons code_toLower)

lemma ikey_letters:
  "ikey ''config'' = [99, 111, 110, 102, 105, 103]" "ikey ''daemon'' = [100, 97, 101, 109, 111, 110]" "ikey ''verbose'' = [118, 101, 114, 98, 111, 115, 101]" "ikey ''c'' = [99]" "ikey ''d'' = [100]" "ikey ''v'' = [118]"
  by (simp_all add: ikey_Cons_code code_def del: ikey_Cons code_0)

lemmas example_simps = example_options_def Option_def set_argument_def set_required_def set_repeatable_def

lemma example_use: "use_text_ok example_options (example_options ! 0) (Some ''/etc/a=b'')" "use_text_ok example_options (example_options ! 1) None"
  "use_text_ok example_options (example_options ! 2) None" "use_text_ok example_options (example_options ! 2) (Some ''3'')"
  "use_text_ok example_options (example_options ! 0) (Some ''x'')"
  by (simp_all add: use_text_ok_def example_simps ikey_letters arg_name_end_def)

lemma example_ok: "options_ok example_options" "uses_ok example_options [] example_uses"
  by (simp_all add: options_ok_keys example_simps ikey_letters)
    (use example_use in \<open>simp add: example_uses_def use_ok_def example_simps ikey_letters is_read_def\<close>)

theorem options_command_line_witness:
  "options_process False example_options (''mona'' # List.map write_use example_uses) = (None, List.map use_call example_uses)"
proof (rule options_command_line [OF example_ok])
  show "\<forall>o' \<in> set example_options. orequired o' \<longrightarrow> o' \<in> fst ` set example_uses"
    by (simp add: example_options_def example_uses_def Option_def set_argument_def set_required_def set_repeatable_def)
qed

text \<open>
  C32: An option that is not repeatable and was given, by any of its names, is refused when it is given again, by any of its
  names, whatever follows; what came before was called.
\<close>

theorem options_given_twice:
  assumes "options_ok os" "uses_ok os [] us" "use_ok os (o', short, v)" "\<not> orepeatable o'" "o' \<in> fst ` set us"
  shows "options_process ign os (command # List.map write_use us @ write_use (o', short, v) # rest) =
    (Some (Given_Twice (ofull o')), List.map use_call us)"
proof -
  obtain names' where n: "process_args ign os (List.map write_use us @ write_use (o', short, v) # rest) [] =
      (case process_args ign os (write_use (o', short, v) # rest) names' of (e, read', calls) \<Rightarrow> (e, read', List.map use_call us @ calls))"
      "\<And>n. is_read names' n \<longleftrightarrow> is_read [] n \<or> list_ex (\<lambda>u. ikey (ofull (fst u)) = ikey n) us"
    using process_args_uses [OF assms(1,2)] by blast
  have "is_read names' (ofull o')" using assms(5) by (auto simp: n(2) list_ex_iff)
  then show ?thesis
    using n(1) process_arg_use [OF assms(1,3), of ign names'] assms(4) by (simp add: options_process_def)
qed

theorem options_given_twice_witness:
  "options_process False example_options
     (''mona'' # List.map write_use example_uses @ write_use (example_options ! 0, True, Some ''x'') # [''--daemon'']) =
   (Some (Given_Twice (ofull (example_options ! 0))), List.map use_call example_uses)"
proof (rule options_given_twice [OF example_ok])
  show "use_ok example_options (example_options ! 0, True, Some ''x'')"
    using example_use by (simp add: use_ok_def example_simps)
  show "\<not> orepeatable (example_options ! 0)" by (simp add: example_simps)
  show "example_options ! 0 \<in> fst ` set example_uses" by (simp add: example_uses_def)
qed

section \<open>What goes wrong\<close>

text \<open>The comparison of options is not a strict weak order: being neither before nor after is not transitive.\<close>

lemma option_lt_not_weak:
  "let a = Option ''alpha'' ''x''; b = Option ''beta'' ''x''; c = Option ''beta'' ''y''; d = Option ''gamma'' ''y'' in
     eqv option_lt a b \<and> eqv option_lt b c \<and> eqv option_lt c d \<and> option_lt a d"
  by (simp add: Let_def eqv_def option_lt_key Option_def ikey_Cons_code code_def del: ikey_Cons code_0)

end
