(* ===== verification/Help_Texts.thy ===== *)
theory Help_Texts
  imports Cli
begin

text \<open>
  Mona/Application/HelpFormatter.cpp, outside Windows: the text of the options, in a column, and their descriptions,
  cut into lines. A stream is the text written to it. Lengths and columns are below \<open>2 ^ 31\<close>.
  The lemmas show that no line is over the width, that no character is lost when every word fits a line, and that
  the descriptions are aligned.
\<close>

definition TAB_WIDTH :: nat where "TAB_WIDTH = 4"

definition WIDTH :: nat where "WIDTH = 100"

definition LONG_PREFIX :: string where "LONG_PREFIX = ''--''"

definition SHORT_PREFIX :: string where "SHORT_PREFIX = ''-''"

text \<open>\<open>sizeof\<close> of a prefix counts its 0.\<close>

definition size_of :: "string \<Rightarrow> nat" where
  "size_of s = length s + 1"

definition spaces :: "nat \<Rightarrow> string" where
  "spaces n = replicate n (CHR '' '')"

section \<open>Options\<close>

definition option_indent :: "cli_option \<Rightarrow> nat" where
  "option_indent o' =
     TAB_WIDTH + (length (oshort o') + size_of SHORT_PREFIX + 2) +
     (if takesArgument o' then length (oargument o') + (if oargRequired o' then 0 else 2) else 0) +
     (length (ofull o') + size_of LONG_PREFIX + 1) +
     (if takesArgument o' then 1 + length (oargument o') + (if oargRequired o' then 0 else 2) else 0)"

definition CalcIndent :: "cli_option list \<Rightarrow> nat" where
  "CalcIndent os = fold (\<lambda>o' indent. if option_indent o' > indent then option_indent o' else indent) os 0"

text \<open>The columns that the code counts for an option, and its text.\<close>

definition option_columns :: "cli_option \<Rightarrow> nat" where
  "option_columns o' =
     TAB_WIDTH + (size_of SHORT_PREFIX + length (oshort o')) +
     (if takesArgument o' then 1 + (if oargRequired o' then 0 else 1) + length (oargument o') + (if oargRequired o' then 0 else 1) else 0) +
     (size_of LONG_PREFIX + length (ofull o')) +
     (if takesArgument o' then (if oargRequired o' then 0 else 1) + 1 + length (oargument o') + (if oargRequired o' then 0 else 1) else 0)"

definition option_text :: "cli_option \<Rightarrow> string" where
  "option_text o' =
     spaces TAB_WIDTH @ SHORT_PREFIX @ oshort o' @
     (if takesArgument o'
      then '':'' @ (if oargRequired o' then [] else ''['') @ oargument o' @ (if oargRequired o' then [] else '']'') else []) @
     '', '' @ LONG_PREFIX @ ofull o' @
     (if takesArgument o'
      then (if oargRequired o' then [] else ''['') @ '':'' @ oargument o' @ (if oargRequired o' then [] else '']'') else [])"

text \<open>\<open>do ostr << ' '; while (++n < indent)\<close>.\<close>

function fill_spaces :: "nat \<Rightarrow> nat \<Rightarrow> string" where
  "fill_spaces n indent = CHR '' '' # (if n + 1 < indent then fill_spaces (n + 1) indent else [])"
  by pat_completeness auto
termination
  by (relation "measure (\<lambda>(n, indent). indent - n)") auto

declare fill_spaces.simps [simp del]

definition FormatOption :: "cli_option \<Rightarrow> nat \<Rightarrow> string" where
  "FormatOption o' indent = option_text o' @ fill_spaces (option_columns o') indent"

section \<open>Texts\<close>

text \<open>What is written, and the column after it.\<close>

definition FormatWord :: "nat \<Rightarrow> string \<Rightarrow> nat \<Rightarrow> string \<times> nat" where
  "FormatWord pos word indent =
     (if pos + length word > WIDTH then (CHR 0x0A # spaces indent @ word, indent + length word) else (word, pos + length word))"

function tab_fill :: "nat \<Rightarrow> string \<times> nat" where
  "tab_fill pos =
     (if pos < WIDTH \<and> pos mod TAB_WIDTH \<noteq> 0 then (case tab_fill (pos + 1) of (s, p) \<Rightarrow> (CHR '' '' # s, p)) else ([], pos))"
  by pat_completeness auto
termination
  by (relation "measure (\<lambda>pos. WIDTH - pos)") auto

declare tab_fill.simps [simp del]

definition maxWordLen :: "nat \<Rightarrow> nat" where
  "maxWordLen indent = nat ((int WIDTH - int indent) mod 2 ^ 64)"

fun help_loop :: "nat \<Rightarrow> string \<Rightarrow> nat \<Rightarrow> string \<Rightarrow> string" where
  "help_loop indent [] pos word = fst (FormatWord pos word indent)"
| "help_loop indent (c # cs) pos word =
     (if c = CHR 0x0A then
        (case FormatWord pos word indent of (out, _) \<Rightarrow> out @ CHR 0x0A # spaces indent @ help_loop indent cs indent [])
      else if c = CHR 0x09 then
        (case FormatWord pos word indent of
           (out, pos) \<Rightarrow>
             (case tab_fill (if pos < WIDTH then pos + 1 else pos) of (s, pos) \<Rightarrow> out @ s @ help_loop indent cs pos []))
      else if c = CHR '' '' then
        (case FormatWord pos word indent of
           (out, pos) \<Rightarrow> out @ (if pos < WIDTH then CHR '' '' # help_loop indent cs (pos + 1) [] else help_loop indent cs pos []))
      else if length word = maxWordLen indent then
        (case FormatWord pos word indent of (out, pos) \<Rightarrow> out @ help_loop indent cs pos [])
      else help_loop indent cs pos (word @ [c]))"

definition FormatText :: "string \<Rightarrow> nat \<Rightarrow> nat \<Rightarrow> string" where
  "FormatText text' indent firstIndent = help_loop indent text' firstIndent []"

text \<open>The whole help: the header and the footer are None for NULL.\<close>

definition Format :: "string option \<Rightarrow> string \<Rightarrow> string option \<Rightarrow> cli_option list \<Rightarrow> string" where
  "Format header usage footer os =
     (let indent = CalcIndent os
      in (case header of None \<Rightarrow> [] | Some h \<Rightarrow> FormatText h 0 indent @ [CHR 0x0A, CHR 0x0A]) @
         ''usage: '' @ usage @ [CHR 0x0A] @ (if os \<noteq> [] then ''options:'' @ [CHR 0x0A] else []) @
         concat (List.map (\<lambda>o'. FormatOption o' indent @ FormatText (odescription o') indent indent @ [CHR 0x0A]) os) @
         (case footer of None \<Rightarrow> [] | Some f \<Rightarrow> CHR 0x0A # FormatText f 0 indent @ [CHR 0x0A]))"

section \<open>The column of the descriptions\<close>

lemma option_columns_text: "option_columns o' = length (option_text o')"
  by (simp add: option_columns_def option_text_def size_of_def SHORT_PREFIX_def LONG_PREFIX_def spaces_def TAB_WIDTH_def)

lemma option_indent_columns: "option_columns o' < option_indent o'"
  by (simp add: option_columns_def option_indent_def size_of_def SHORT_PREFIX_def LONG_PREFIX_def TAB_WIDTH_def)

lemma fill_spaces_length: "n < indent \<Longrightarrow> fill_spaces n indent = spaces (indent - n)"
proof (induction n indent rule: fill_spaces.induct)
  case (1 n indent)
  then have "indent - n = Suc (indent - (n + 1))" by simp
  then show ?case using 1 by (cases "n + 1 < indent") (simp_all add: fill_spaces.simps [of n] spaces_def)
qed

lemma CalcIndent_ge: "o' \<in> set os \<Longrightarrow> option_indent o' \<le> CalcIndent os"
proof -
  have mono: "i \<le> fold (\<lambda>o' indent. if option_indent o' > indent then option_indent o' else indent) os i" for i os
  proof (induction os arbitrary: i)
    case (Cons p os)
    show ?case using Cons.IH [of "if option_indent p > i then option_indent p else i"] by (simp split: if_splits)
  qed simp
  have "option_indent o' \<le> fold (\<lambda>o' indent. if option_indent o' > indent then option_indent o' else indent) os i"
    if "o' \<in> set os" for i os
    using that
  proof (induction os arbitrary: i)
    case (Cons p os)
    then show ?case using mono [of "if option_indent p > i then option_indent p else i" os] by (auto split: if_splits)
  qed simp
  then show "o' \<in> set os \<Longrightarrow> option_indent o' \<le> CalcIndent os" by (simp add: CalcIndent_def)
qed

text \<open>
  The text of every option of the help is filled with spaces up to one and the same column, where its description
  begins.
\<close>

theorem help_aligned:
  assumes "o' \<in> set os"
  shows "FormatOption o' (CalcIndent os) = option_text o' @ spaces (CalcIndent os - length (option_text o')) \<and>
    length (FormatOption o' (CalcIndent os)) = CalcIndent os \<and> length (option_text o') < CalcIndent os"
proof -
  have lt: "option_columns o' < CalcIndent os" using option_indent_columns [of o'] CalcIndent_ge [OF assms] by simp
  then show ?thesis
    using fill_spaces_length [OF lt] by (simp add: FormatOption_def option_columns_text spaces_def)
qed

theorem help_aligned_witness:
  "FormatOption (example_options ! 1) (CalcIndent example_options) =
     option_text (example_options ! 1) @ spaces (CalcIndent example_options - length (option_text (example_options ! 1))) \<and>
   length (FormatOption (example_options ! 1) (CalcIndent example_options)) = CalcIndent example_options \<and>
   length (option_text (example_options ! 1)) < CalcIndent example_options"
  by (rule help_aligned) (simp add: example_options_def)

section \<open>The width of the lines\<close>

text \<open>From a column, no line is over the width.\<close>

fun line_fits :: "nat \<Rightarrow> string \<Rightarrow> bool" where
  "line_fits col [] \<longleftrightarrow> col \<le> WIDTH"
| "line_fits col (c # cs) \<longleftrightarrow> (if c = CHR 0x0A then col \<le> WIDTH \<and> line_fits 0 cs else line_fits (col + 1) cs)"

definition blank :: "char \<Rightarrow> bool" where
  "blank c \<longleftrightarrow> c \<in> {CHR 0x0A, CHR 0x09, CHR '' ''}"

definition ink :: "string \<Rightarrow> string" where
  "ink s = filter (\<lambda>c. \<not> blank c) s"

text \<open>No word, from one of \<open>n\<close> characters, has more than \<open>m\<close>.\<close>

fun words_fit :: "nat \<Rightarrow> nat \<Rightarrow> string \<Rightarrow> bool" where
  "words_fit m n [] \<longleftrightarrow> True"
| "words_fit m n (c # cs) \<longleftrightarrow> (if blank c then words_fit m 0 cs else n < m \<and> words_fit m (n + 1) cs)"

lemma line_fits_mono: "line_fits d s \<Longrightarrow> c \<le> d \<Longrightarrow> line_fits c s"
proof (induction s arbitrary: c d)
  case (Cons x s)
  show ?case
  proof (cases "x = CHR 0x0A")
    case True
    then show ?thesis using Cons.prems by simp
  next
    case False
    then show ?thesis using Cons.IH [of "d + 1" "c + 1"] Cons.prems by simp
  qed
qed simp

lemma line_fits_append: "CHR 0x0A \<notin> set w \<Longrightarrow> line_fits c (w @ s) = line_fits (c + length w) s"
  by (induction w arbitrary: c) auto

lemma tab_fill_spec:
  obtains k where "tab_fill pos = (spaces k, pos + k)" "pos \<le> WIDTH \<Longrightarrow> pos + k \<le> WIDTH"
proof -
  have "\<exists>k. tab_fill pos = (spaces k, pos + k) \<and> (pos \<le> WIDTH \<longrightarrow> pos + k \<le> WIDTH)"
  proof (induction pos rule: tab_fill.induct)
    case (1 pos)
    show ?case
    proof (cases "pos < WIDTH \<and> pos mod TAB_WIDTH \<noteq> 0")
      case True
      then obtain k where "tab_fill (pos + 1) = (spaces k, pos + 1 + k)" "pos + 1 + k \<le> WIDTH" using 1 by auto
      then show ?thesis using True by (intro exI [of _ "Suc k"]) (simp add: tab_fill.simps [of pos] spaces_def)
    next
      case False
      then show ?thesis by (intro exI [of _ 0]) (auto simp: tab_fill.simps [of pos] spaces_def)
    qed
  qed
  then show ?thesis using that by blast
qed

lemma spaces_simps: "CHR 0x0A \<notin> set (spaces n)" "ink (spaces n) = []" "length (spaces n) = n"
  by (simp_all add: spaces_def ink_def blank_def)

lemma ink_simps: "ink (a @ b) = ink a @ ink b" "ink (c # b) = (if blank c then ink b else c # ink b)" "ink [] = []"
  by (simp_all add: ink_def)

text \<open>A word written: what follows fits from the new column, and nothing else is written.\<close>

lemma FormatWord_fits:
  assumes "FormatWord pos word indent = (out, pos')" "CHR 0x0A \<notin> set word" "length word + indent \<le> WIDTH" "pos \<le> WIDTH"
  shows "pos' \<le> WIDTH" "line_fits pos' s \<Longrightarrow> line_fits pos (out @ s)" "ink out = ink word"
  using assms spaces_simps [of indent]
  by (auto simp: FormatWord_def line_fits_append ink_simps blank_def split: if_splits)

lemma help_loop_fits:
  assumes "indent \<le> WIDTH" "pos \<le> WIDTH" "length word \<le> WIDTH - indent" "\<not> list_ex blank word"
  shows "line_fits pos (help_loop indent cs pos word) \<and>
    (words_fit (WIDTH - indent) (length word) cs \<longrightarrow> ink (help_loop indent cs pos word) = ink (word @ cs))"
  using assms(2-4)
proof (induction cs arbitrary: pos word)
  case Nil
  have nl: "CHR 0x0A \<notin> set word" using Nil(3) by (auto simp: list_ex_iff blank_def)
  obtain out pos' where w: "FormatWord pos word indent = (out, pos')" by fastforce
  have "length word + indent \<le> WIDTH" using Nil(2) assms(1) by simp
  from FormatWord_fits [OF w nl this Nil(1)] FormatWord_fits(2) [OF w nl this Nil(1), of "[]"]
  show ?case using w by (simp add: ink_simps)
next
  case (Cons c cs)
  let ?m = "WIDTH - indent"
  have nl: "CHR 0x0A \<notin> set word" using Cons.prems(3) by (auto simp: list_ex_iff blank_def)
  obtain out pos' where w: "FormatWord pos word indent = (out, pos')" by fastforce
  have le: "length word + indent \<le> WIDTH" using Cons.prems(2) assms(1) by simp
  note fw = FormatWord_fits [OF w nl le Cons.prems(1)]
  have max': "maxWordLen indent = ?m" using assms(1) by (simp add: maxWordLen_def WIDTH_def)
  have IH: "line_fits p (help_loop indent cs p []) \<and> (words_fit ?m 0 cs \<longrightarrow> ink (help_loop indent cs p []) = ink cs)"
    if "p \<le> WIDTH" for p
    using Cons.IH [of p "[]"] that by simp
  have word: "ink word = word" using Cons.prems(3) by (auto simp: ink_def list_ex_iff filter_id_conv)
  consider "c = CHR 0x0A" | "c = CHR 0x09" | "c = CHR '' ''" | "\<not> blank c" by (auto simp: blank_def)
  then show ?case
  proof cases
    case 1
    have "line_fits 0 (spaces indent @ help_loop indent cs indent [])"
      using IH [OF assms(1)] spaces_simps by (simp add: line_fits_append)
    then have "line_fits pos' (CHR 0x0A # spaces indent @ help_loop indent cs indent [])" using fw(1) by simp
    then show ?thesis
      using fw(2,3) IH [OF assms(1)] 1 w spaces_simps by (simp add: ink_simps blank_def)
  next
    case 2
    define p where "p = (if pos' < WIDTH then pos' + 1 else pos')"
    have p: "pos' \<le> p" "p \<le> WIDTH" using fw(1) by (auto simp: p_def)
    obtain k where k: "tab_fill p = (spaces k, p + k)" "p + k \<le> WIDTH" using tab_fill_spec [of p] p(2) by metis
    have "line_fits (pos' + k) (help_loop indent cs (p + k) [])" by (rule line_fits_mono [OF conjunct1 [OF IH [OF k(2)]]]) (use p(1) in simp)
    then have "line_fits pos' (spaces k @ help_loop indent cs (p + k) [])"
      using spaces_simps by (simp add: line_fits_append)
    then have "line_fits pos (out @ spaces k @ help_loop indent cs (p + k) [])" by (rule fw(2))
    moreover have "help_loop indent (c # cs) pos word = out @ spaces k @ help_loop indent cs (p + k) []"
      using 2 w k(1) by (simp add: p_def)
    ultimately show ?thesis using fw(3) IH [OF k(2)] 2 spaces_simps by (simp add: ink_simps blank_def)
  next
    case 3
    have "line_fits pos' (if pos' < WIDTH then CHR '' '' # help_loop indent cs (pos' + 1) [] else help_loop indent cs pos' [])"
      using IH [of "pos' + 1"] IH [OF fw(1)] by simp
    then have "line_fits pos (out @ (if pos' < WIDTH then CHR '' '' # help_loop indent cs (pos' + 1) [] else help_loop indent cs pos' []))"
      by (rule fw(2))
    moreover have "help_loop indent (c # cs) pos word =
        out @ (if pos' < WIDTH then CHR '' '' # help_loop indent cs (pos' + 1) [] else help_loop indent cs pos' [])"
      using 3 w by simp
    ultimately show ?thesis
      using fw(3) IH [of "pos' + 1"] IH [OF fw(1)] 3 by (auto simp: ink_simps blank_def)
  next
    case 4
    then have nb: "c \<noteq> CHR 0x0A" "c \<noteq> CHR 0x09" "c \<noteq> CHR '' ''" by (auto simp: blank_def)
    show ?thesis
    proof (cases "length word = ?m")
      case True
      then have "help_loop indent (c # cs) pos word = out @ help_loop indent cs pos' []" using nb w max' by simp
      then show ?thesis using fw(2) IH [OF fw(1)] True 4 by simp
    next
      case False
      then have "length (word @ [c]) \<le> ?m" "\<not> list_ex blank (word @ [c])" using Cons.prems(2,3) 4 by simp_all
      moreover have "help_loop indent (c # cs) pos word = help_loop indent cs pos (word @ [c])" using nb False max' by simp
      ultimately show ?thesis using Cons.IH [OF Cons.prems(1), of "word @ [c]"] 4 by simp
    qed
  qed
qed

text \<open>
  C33: From a column and with an indent that are in the width, no line of a formatted text is over the width; when no word is
  longer than the lines, no character but blanks is lost or added.
\<close>

theorem help_text_fits:
  assumes "indent \<le> WIDTH" "firstIndent \<le> WIDTH"
  shows "line_fits firstIndent (FormatText text' indent firstIndent) \<and>
    (words_fit (WIDTH - indent) 0 text' \<longrightarrow> ink (FormatText text' indent firstIndent) = ink text')"
  using help_loop_fits [OF assms(1,2), of "[]" text'] by (simp add: FormatText_def)

lemma example_words_fit: "words_fit (WIDTH - 40) 0 ''Sets the file of the configuration''"
  by code_simp

theorem help_text_fits_witness:
  "line_fits 40 (FormatText ''Sets the file of the configuration'' 40 40) \<and>
    ink (FormatText ''Sets the file of the configuration'' 40 40) = ink ''Sets the file of the configuration''"
proof -
  have "(40 :: nat) \<le> WIDTH" by (simp add: WIDTH_def)
  from help_text_fits [OF this this, of "''Sets the file of the configuration''"] example_words_fit
  show ?thesis by simp
qed

section \<open>What goes wrong\<close>

text \<open>The character that ends a word that is full is lost.\<close>

lemma help_loses_character: "FormatText ''abcd'' 97 97 = ''abc''"
  by code_simp

text \<open>A tabulation may write nothing: two words are one.\<close>

lemma help_tab_glues: "FormatText [CHR ''a'', CHR ''b'', CHR ''c'', CHR 0x09, CHR ''d''] 0 0 = ''abcd''"
  by code_simp

end
