(* ===== verification/Sockets.thy ===== *)
theory Sockets
  imports IpImpl Params
begin

text \<open>
  Mona/Net/Socket.cpp and Socket.h outside Windows: options, connection, and the queue of what waits to be sent.
  The system is a parameter: \<open>kanswers\<close> are its answers to the calls of this socket, in order, and \<open>klog\<close> is the
  history of the calls with their answers; None is a call that has not returned. An address is what its object shows
  (IpAddr shows how objects are shared). Texts of errors, times and byte rates are not modelled. Packets are below
  \<open>2^31\<close> bytes, so that an \<open>int\<close> holds their sizes.
  The lemmas show that a stream socket sends the bytes it was given in order and without loss, whatever the system
  takes at a time, and how the counter of queued bytes follows the queue.
\<close>

section \<open>The system\<close>

datatype net_error =
  No_Error | EINTR | EWOULDBLOCK | EINPROGRESS | EALREADY | EISCONN | ENOTCONN | EMSGSIZE | ECONNREFUSED | ESHUTDOWN | Errno nat

datatype socket_type = TYPE_STREAM | TYPE_DATAGRAM | TYPE_OTHER

datatype shutdown_type = SHUTDOWN_RECV | SHUTDOWN_SEND | SHUTDOWN_BOTH

datatype sock_option =
  SO_RCVBUF | SO_SNDBUF | TCP_NODELAY | SO_KEEPALIVE | SO_REUSEADDR | SO_OOBINLINE | SO_BROADCAST | SO_LINGER | SO_REUSEPORT
| IPV6_V6ONLY | IP_ADD_MEMBERSHIP | IP_DROP_MEMBERSHIP | IPV6_ADD_MEMBERSHIP | IPV6_DROP_MEMBERSHIP

text \<open>The value of an option: a number, a \<open>linger\<close>, an \<open>ip_mreq\<close> (None for an interface address that is not assigned), an \<open>ipv6_mreq\<close>.\<close>

datatype option_value = Num int | Linger bool int | Group4 "byte list" "u32 option" | Group6 "byte list" u32

datatype sys_call =
  Sys_socket socket_type | Sys_send "byte list" u32 | Sys_sendto "byte list" u32 IPImpl | Sys_recv nat u32 | Sys_recvfrom nat u32
| Sys_accept | Sys_connect "IPImpl option" | Sys_bind IPImpl | Sys_listen int | Sys_shutdown shutdown_type | Sys_close
| Sys_setsockopt sock_option option_value | Sys_getsockopt sock_option | Sys_getsockname | Sys_getfl | Sys_setfl u32
| Sys_select nat | Sys_fionread | Sys_indextoname u32

text \<open>An answer: the result, with the bytes and the address that the call wrote, or an error.\<close>

datatype answer = Done nat "byte list" sockaddr | Failed net_error

definition ok :: "nat \<Rightarrow> answer" where
  "ok n = Done n [] (Sockaddr_in 0 0)"

datatype sock_ex = Ex_Socket net_error | Ex_Intern | Ex_Unsupported

type_synonym sending = "byte list \<times> IPImpl \<times> u32"

record socket =
  ktype :: socket_type
  kex :: "sock_ex option"
  kvalid :: bool
  kaddress :: IPImpl
  kpeer :: IPImpl
  klistening :: bool
  knonblocking :: bool
  krecvsize :: int
  ksendsize :: int
  ksendings :: "sending list"
  kqueueing :: u64
  ksending :: bool
  kerrno :: net_error
  kanswers :: "answer list"
  klog :: "(sys_call \<times> answer) list"

text \<open>One answer; \<open>errno\<close> is left as it is by a call that succeeds.\<close>

definition answered :: "sys_call \<Rightarrow> answer \<Rightarrow> socket \<Rightarrow> socket" where
  "answered c a s =
     s\<lparr>kanswers := tl (kanswers s), klog := klog s @ [(c, a)],
       kerrno := (case a of Failed e \<Rightarrow> e | Done _ _ _ \<Rightarrow> kerrno s)\<rparr>"

definition syscall :: "sys_call \<Rightarrow> socket \<Rightarrow> (answer \<times> socket) option" where
  "syscall c s = (case kanswers s of [] \<Rightarrow> None | a # _ \<Rightarrow> Some (a, answered c a s))"

text \<open>The loops on \<open>NET_EINTR\<close>.\<close>

function retry :: "sys_call \<Rightarrow> socket \<Rightarrow> (answer \<times> socket) option" where
  "retry c s =
     (case kanswers s of
        [] \<Rightarrow> None
      | a # _ \<Rightarrow> if a = Failed EINTR then retry c (answered c a s) else Some (a, answered c a s))"
  by pat_completeness auto
termination by (relation "measure (\<lambda>(c, s). length (kanswers s))") (auto simp: answered_def)

declare retry.simps [simp del]

definition ex_code :: "sock_ex option \<Rightarrow> net_error" where
  "ex_code ex = (case ex of Some (Ex_Socket e) \<Rightarrow> e | _ \<Rightarrow> No_Error)"

definition SetException :: "net_error \<Rightarrow> socket \<Rightarrow> sock_ex option" where
  "SetException e s = Some (Ex_Socket (if e = No_Error then kerrno s else e))"

text \<open>\<open>operator bool\<close> of an address, and \<open>IPAddress::Loopback()\<close> with the port 0.\<close>

definition is_set :: "IPImpl \<Rightarrow> bool" where
  "is_set p \<longleftrightarrow> \<not> (isWildcard p \<and> impl_port p = 0)"

definition computable :: IPImpl where
  "computable = IPImpl_sockaddr IPv4 (Sockaddr_in 0 (To32Network 0x7F000001))"

text \<open>\<open>set(IPAddress::Wildcard())\<close> on the host of an address, which keeps its port.\<close>

definition any_host :: "IPImpl \<Rightarrow> IPImpl" where
  "any_host p = IPImpl_sockaddr IPv4 (Sockaddr_in (To16Network (impl_port p)) 0)"

definition native_address :: "sockaddr \<Rightarrow> IPImpl" where
  "native_address a = (if IsIPv4Sock a then IPImpl_sockaddr IPv4 a else IPImpl_sockaddr IPv6 a)"

section \<open>Options\<close>

definition setOption :: "sock_option \<Rightarrow> option_value \<Rightarrow> sock_ex option \<Rightarrow> socket \<Rightarrow> (bool \<times> sock_ex option \<times> socket) option" where
  "setOption opt v ex s =
     (case kex s of
        Some e \<Rightarrow> Some (False, Some (if e = Ex_Intern then Ex_Unsupported else e), s)
      | None \<Rightarrow>
          (case syscall (Sys_setsockopt opt v) s of
             None \<Rightarrow> None
           | Some (Done _ _ _, s) \<Rightarrow> Some (True, ex, s)
           | Some (Failed _, s) \<Rightarrow> Some (False, SetException No_Error s, s)))"

definition getOption :: "sock_option \<Rightarrow> sock_ex option \<Rightarrow> socket \<Rightarrow> (nat option \<times> sock_ex option \<times> socket) option" where
  "getOption opt ex s =
     (case kex s of
        Some e \<Rightarrow> Some (None, Some (if e = Ex_Intern then Ex_Unsupported else e), s)
      | None \<Rightarrow>
          (case syscall (Sys_getsockopt opt) s of
             None \<Rightarrow> None
           | Some (Done v _ _, s) \<Rightarrow> Some (Some v, ex, s)
           | Some (Failed _, s) \<Rightarrow> Some (None, SetException No_Error s, s)))"

definition setFlag :: "sock_option \<Rightarrow> bool \<Rightarrow> sock_ex option \<Rightarrow> socket \<Rightarrow> (bool \<times> sock_ex option \<times> socket) option" where
  "setFlag opt value = setOption opt (Num (if value then 1 else 0))"

definition setNoDelay :: "bool \<Rightarrow> sock_ex option \<Rightarrow> socket \<Rightarrow> (bool \<times> sock_ex option \<times> socket) option" where
  "setNoDelay = setFlag TCP_NODELAY"
definition setKeepAlive :: "bool \<Rightarrow> sock_ex option \<Rightarrow> socket \<Rightarrow> (bool \<times> sock_ex option \<times> socket) option" where
  "setKeepAlive = setFlag SO_KEEPALIVE"
definition setReuseAddress :: "bool \<Rightarrow> sock_ex option \<Rightarrow> socket \<Rightarrow> (bool \<times> sock_ex option \<times> socket) option" where
  "setReuseAddress = setFlag SO_REUSEADDR"
definition setOOBInline :: "bool \<Rightarrow> sock_ex option \<Rightarrow> socket \<Rightarrow> (bool \<times> sock_ex option \<times> socket) option" where
  "setOOBInline = setFlag SO_OOBINLINE"
definition setBroadcast :: "bool \<Rightarrow> sock_ex option \<Rightarrow> socket \<Rightarrow> (bool \<times> sock_ex option \<times> socket) option" where
  "setBroadcast = setFlag SO_BROADCAST"
definition setIPV6Only :: "bool \<Rightarrow> sock_ex option \<Rightarrow> socket \<Rightarrow> (bool \<times> sock_ex option \<times> socket) option" where
  "setIPV6Only = setFlag IPV6_V6ONLY"

definition setRecvBufferSize :: "int \<Rightarrow> sock_ex option \<Rightarrow> socket \<Rightarrow> (bool \<times> sock_ex option \<times> socket) option" where
  "setRecvBufferSize size' ex s =
     (case setOption SO_RCVBUF (Num size') ex s of
        None \<Rightarrow> None
      | Some (done', ex, s) \<Rightarrow> if done' then Some (True, ex, s\<lparr>krecvsize := size'\<rparr>) else Some (False, ex, s))"

definition setSendBufferSize :: "int \<Rightarrow> sock_ex option \<Rightarrow> socket \<Rightarrow> (bool \<times> sock_ex option \<times> socket) option" where
  "setSendBufferSize size' ex s =
     (case setOption SO_SNDBUF (Num size') ex s of
        None \<Rightarrow> None
      | Some (done', ex, s) \<Rightarrow> if done' then Some (True, ex, s\<lparr>ksendsize := size'\<rparr>) else Some (False, ex, s))"

definition setLinger :: "bool \<Rightarrow> int \<Rightarrow> sock_ex option \<Rightarrow> socket \<Rightarrow> (bool \<times> sock_ex option \<times> socket) option" where
  "setLinger on seconds ex s =
     (case kex s of Some e \<Rightarrow> Some (False, Some e, s) | None \<Rightarrow> setOption SO_LINGER (Linger on seconds) ex s)"

definition setReusePort :: "bool \<Rightarrow> socket \<Rightarrow> socket option" where
  "setReusePort value s = map_option (\<lambda>(_, _, s). s) (setFlag SO_REUSEPORT value None s)"

definition getReusePort :: "socket \<Rightarrow> (bool \<times> socket) option" where
  "getReusePort s =
     map_option (\<lambda>(v, _, s). (case v of Some n \<Rightarrow> n \<noteq> 0 | None \<Rightarrow> False, s)) (getOption SO_REUSEPORT None s)"

definition available :: "socket \<Rightarrow> (nat \<times> socket) option" where
  "available s =
     map_option (\<lambda>(a, s). (case a of Done n _ _ \<Rightarrow> n | Failed _ \<Rightarrow> 0, s)) (syscall Sys_fionread s)"

definition setNonBlockingMode :: "bool \<Rightarrow> sock_ex option \<Rightarrow> socket \<Rightarrow> (bool \<times> sock_ex option \<times> socket) option" where
  "setNonBlockingMode value ex s =
     (case syscall Sys_getfl s of
        None \<Rightarrow> None
      | Some (Failed _, s) \<Rightarrow> Some (False, SetException No_Error s, s)
      | Some (Done n _ _, s) \<Rightarrow>
          (let flags = (of_nat n :: u32)
           in case syscall (Sys_setfl (if value then flags OR 0x800 else flags AND NOT 0x800)) s of
                None \<Rightarrow> None
              | Some (Failed _, s) \<Rightarrow> Some (False, SetException No_Error s, s)
              | Some (Done _ _ _, s) \<Rightarrow> Some (True, ex, s\<lparr>knonblocking := value\<rparr>)))"

text \<open>\<open>processParam\<close> of a \<open>uint32_t\<close>, then \<open>processParams\<close>; None when the conversion of a text is undefined.\<close>

definition processParam :: "(string \<Rightarrow> string option) \<Rightarrow> string \<Rightarrow> string option \<Rightarrow> parameters \<Rightarrow> num_result" where
  "processParam onUnfound name prefix p =
     (let plain = getNumber onUnfound 0 (2 ^ 32 - 1) name p
      in case prefix of
           None \<Rightarrow> plain
         | Some pre \<Rightarrow>
             (case getNumber onUnfound 0 (2 ^ 32 - 1) (pre @ name) p of Not_A_Number \<Rightarrow> plain | r \<Rightarrow> r))"

text \<open>The sizes that the parameters give: for the reception, and for the sending.\<close>

definition buffer_sizes :: "(string \<Rightarrow> string option) \<Rightarrow> string option \<Rightarrow> parameters \<Rightarrow> (int option \<times> int option) option" where
  "buffer_sizes onUnfound prefix p =
     (let get = (\<lambda>name. processParam onUnfound name prefix p)
      in case get ''recvBufferSize'' of
           Undefined_Conversion \<Rightarrow> None
         | Number r _ \<Rightarrow>
             (case get ''sendBufferSize'' of
                Undefined_Conversion \<Rightarrow> None
              | Number n _ \<Rightarrow> Some (Some r, Some n)
              | Not_A_Number \<Rightarrow>
                  (case get ''bufferSize'' of
                     Undefined_Conversion \<Rightarrow> None | Number b _ \<Rightarrow> Some (Some r, Some b) | Not_A_Number \<Rightarrow> Some (Some r, None)))
         | Not_A_Number \<Rightarrow>
             (case get ''bufferSize'' of
                Undefined_Conversion \<Rightarrow> None
              | Number b _ \<Rightarrow>
                  (case get ''sendBufferSize'' of
                     Undefined_Conversion \<Rightarrow> None | Number n _ \<Rightarrow> Some (Some b, Some n) | Not_A_Number \<Rightarrow> Some (Some b, Some b))
              | Not_A_Number \<Rightarrow>
                  (case get ''sendBufferSize'' of
                     Undefined_Conversion \<Rightarrow> None
                   | Number n _ \<Rightarrow> Some (None, Some n)
                   | Not_A_Number \<Rightarrow> Some (None, None))))"

definition processParams ::
  "(string \<Rightarrow> string option) \<Rightarrow> string option \<Rightarrow> parameters \<Rightarrow> sock_ex option \<Rightarrow> socket \<Rightarrow> (bool \<times> sock_ex option \<times> socket) option" where
  "processParams onUnfound prefix p ex s =
     (case buffer_sizes onUnfound prefix p of
        None \<Rightarrow> None
      | Some (r, n) \<Rightarrow>
          (case (case r of None \<Rightarrow> Some (True, ex, s) | Some v \<Rightarrow> setRecvBufferSize v ex s) of
             None \<Rightarrow> None
           | Some (result, ex, s) \<Rightarrow>
               (case n of
                  None \<Rightarrow> Some (result, ex, s)
                | Some v \<Rightarrow> map_option (\<lambda>(b, ex, s). (b \<and> result, ex, s)) (setSendBufferSize v ex s))))"

section \<open>Construction\<close>

definition socket_init :: "socket \<Rightarrow> socket option" where
  "socket_init s =
     (case setIPV6Only False None s of
        None \<Rightarrow> None
      | Some (_, ex, s) \<Rightarrow>
          (case setRecvBufferSize (krecvsize s) ex s of
             None \<Rightarrow> None
           | Some (_, ex, s) \<Rightarrow>
               (case setSendBufferSize (ksendsize s) ex s of
                  None \<Rightarrow> None
                | Some (_, ex, s) \<Rightarrow>
                    (if ktype s = TYPE_STREAM then map_option (\<lambda>(_, _, s). s) (setNoDelay True ex s) else Some s))))"

definition blank_socket :: "socket_type \<Rightarrow> int \<Rightarrow> int \<Rightarrow> answer list \<Rightarrow> socket" where
  "blank_socket type recvSize sendSize answers =
     \<lparr>ktype = type, kex = None, kvalid = False, kaddress = IPImpl_wildcard IPv4, kpeer = IPImpl_wildcard IPv4,
      klistening = False, knonblocking = False, krecvsize = recvSize, ksendsize = sendSize, ksendings = [],
      kqueueing = 0, ksending = False, kerrno = No_Error, kanswers = answers, klog = []\<rparr>"

text \<open>The sizes are those of \<open>Net\<close>.\<close>

definition Socket :: "socket_type \<Rightarrow> int \<Rightarrow> int \<Rightarrow> answer list \<Rightarrow> socket option" where
  "Socket type recvSize sendSize answers =
     (let s = blank_socket type recvSize sendSize answers
      in if type \<noteq> TYPE_OTHER then
           (case syscall (Sys_socket type) s of
              None \<Rightarrow> None
            | Some (Failed _, s) \<Rightarrow> Some (s\<lparr>kex := SetException No_Error s\<rparr>)
            | Some (Done _ _ _, s) \<Rightarrow> socket_init (s\<lparr>kvalid := True\<rparr>))
         else Some (s\<lparr>kex := Some Ex_Intern\<rparr>))"

text \<open>The socket of \<open>accept\<close>.\<close>

definition Socket_accepted :: "sockaddr \<Rightarrow> int \<Rightarrow> int \<Rightarrow> answer list \<Rightarrow> socket option" where
  "Socket_accepted addr recvSize sendSize answers =
     socket_init ((blank_socket TYPE_STREAM recvSize sendSize answers)
       \<lparr>kvalid := True, kpeer := native_address addr, kaddress := computable\<rparr>)"

section \<open>Sending and receiving\<close>

definition sendTo :: "byte list \<Rightarrow> IPImpl \<Rightarrow> u32 \<Rightarrow> sock_ex option \<Rightarrow> socket \<Rightarrow> (int \<times> sock_ex option \<times> socket) option" where
  "sendTo data address flags ex s =
     (case kex s of
        Some e \<Rightarrow> Some (-1, Some e, s)
      | None \<Rightarrow>
          (let fl = flags OR 0x4000
           in case retry (if ktype s = TYPE_DATAGRAM \<and> is_set address then Sys_sendto data fl address else Sys_send data fl) s of
                None \<Rightarrow> None
              | Some (Failed e, s) \<Rightarrow> Some (-1, SetException e s, s)
              | Some (Done rc _ _, s) \<Rightarrow>
                  (let s = (if is_set (kaddress s) then s else s\<lparr>kaddress := computable\<rparr>)
                   in if rc < length data \<and> ktype s = TYPE_DATAGRAM then Some (-1, SetException EMSGSIZE s, s)
                      else Some (int rc, ex, s))))"

definition closeSocket :: "shutdown_type \<Rightarrow> socket \<Rightarrow> (bool \<times> socket) option" where
  "closeSocket type s =
     map_option (\<lambda>(a, s). (case a of Done n _ _ \<Rightarrow> n = 0 | Failed _ \<Rightarrow> False, s)) (syscall (Sys_shutdown type) s)"

text \<open>An error that says to wait: the connection is not there yet, or the system can not take more now.\<close>

definition must_wait :: "sock_ex option \<Rightarrow> socket \<Rightarrow> bool" where
  "must_wait ex s \<longleftrightarrow> (ex_code ex = ENOTCONN \<and> is_set (kpeer s)) \<or> ex_code ex = EWOULDBLOCK"

definition queue_sending :: "byte list \<Rightarrow> IPImpl \<Rightarrow> u32 \<Rightarrow> socket \<Rightarrow> socket" where
  "queue_sending data address flags s =
     s\<lparr>ksendings := ksendings s @ [(data, if is_set address then address else kpeer s, flags)],
       kqueueing := kqueueing s + of_nat (length data)\<rparr>"

definition Socket_write :: "byte list \<Rightarrow> IPImpl \<Rightarrow> u32 \<Rightarrow> sock_ex option \<Rightarrow> socket \<Rightarrow> (int \<times> sock_ex option \<times> socket) option" where
  "Socket_write packet address flags ex s =
     (if ksendings s \<noteq> [] then Some (0, ex, queue_sending packet address flags s)
      else
        (case sendTo packet address 0 ex (s\<lparr>ksending := True\<rparr>) of
           None \<Rightarrow> None
         | Some (sent, ex, s) \<Rightarrow>
             (if sent < 0 then
                (if must_wait ex s then Some (0, None, queue_sending packet address flags s)
                 else if ktype s = TYPE_STREAM then
                   map_option (\<lambda>(_, s). (-1, ex, s\<lparr>ksending := False\<rparr>)) (closeSocket SHUTDOWN_BOTH s)
                 else Some (-1, ex, s\<lparr>ksending := False\<rparr>))
              else if nat sent \<ge> length packet then Some (int (length packet), ex, s\<lparr>ksending := False\<rparr>)
              else Some (sent, ex, queue_sending (drop (nat sent) packet) address flags s))))"

text \<open>The loop of \<open>flush\<close> on the queue: whether it fails, \<open>written\<close>, and what is left of the queue.\<close>

fun flush_loop ::
  "sending list \<Rightarrow> u32 \<Rightarrow> sock_ex option \<Rightarrow> socket \<Rightarrow> (bool \<times> u32 \<times> sending list \<times> sock_ex option \<times> socket) option" where
  "flush_loop [] written ex s = Some (True, written, [], ex, s)"
| "flush_loop ((data, address, flags) # q) written ex s =
     (case sendTo data address flags ex s of
        None \<Rightarrow> None
      | Some (sent, ex, s) \<Rightarrow>
          (if sent \<ge> 0 then
             (if nat sent < length data then
                Some (True, written + word_of_int sent, (drop (nat sent) data, address, flags) # q, ex, s)
              else flush_loop q (written + word_of_int sent) ex s)
           else if must_wait ex s then Some (True, written, (data, address, flags) # q, None, s)
           else if ktype s = TYPE_STREAM then
             map_option (\<lambda>(_, s). (False, written, (data, address, flags) # q, ex, s)) (closeSocket SHUTDOWN_BOTH s)
           else Some (True, written, q, ex, s)))"

definition Socket_flush :: "bool \<Rightarrow> sock_ex option \<Rightarrow> socket \<Rightarrow> (bool \<times> sock_ex option \<times> socket) option" where
  "Socket_flush deleting ex s =
     (case flush_loop (ksendings s) 0 ex s of
        None \<Rightarrow> None
      | Some (fine, written, q, ex, s) \<Rightarrow>
          (let s = s\<lparr>ksendings := q\<rparr>
           in if \<not> fine then Some (False, ex, s)
              else if \<not> deleting \<and> written \<noteq> 0 then
                (let n = kqueueing s - ucast written; s = s\<lparr>kqueueing := n\<rparr>
                 in Some (True, ex, if n = 0 then s\<lparr>ksending := False\<rparr> else s))
              else Some (True, ex, s)))"

text \<open>\<open>shutdown\<close>, and the destructor outside the decoder.\<close>

definition Socket_shutdown :: "shutdown_type \<Rightarrow> socket \<Rightarrow> (bool \<times> socket) option" where
  "Socket_shutdown type s =
     (if \<not> kvalid s then Some (False, s)
      else if type \<noteq> SHUTDOWN_RECV then
        (case Socket_flush False None s of None \<Rightarrow> None | Some (_, _, s) \<Rightarrow> closeSocket type s)
      else closeSocket type s)"

definition Socket_destroy :: "socket \<Rightarrow> socket option" where
  "Socket_destroy s =
     (if \<not> kvalid s then Some s
      else
        (case Socket_flush True None s of
           None \<Rightarrow> None
         | Some (_, _, s) \<Rightarrow>
             (case closeSocket SHUTDOWN_BOTH s of None \<Rightarrow> None | Some (_, s) \<Rightarrow> map_option snd (syscall Sys_close s))))"

text \<open>\<open>receive\<close>: the count, the bytes, and the address for \<open>receiveFrom\<close>.\<close>

definition Socket_receive ::
  "nat \<Rightarrow> u32 \<Rightarrow> bool \<Rightarrow> sock_ex option \<Rightarrow> socket \<Rightarrow> (int \<times> byte list \<times> IPImpl option \<times> sock_ex option \<times> socket) option" where
  "Socket_receive size' flags from_address ex s =
     (case kex s of
        Some e \<Rightarrow> Some (-1, [], None, Some e, s)
      | None \<Rightarrow>
          (case retry (if from_address then Sys_recvfrom size' flags else Sys_recv size' flags) s of
             None \<Rightarrow> None
           | Some (Failed e, s) \<Rightarrow> Some (-1, [], None, SetException e s, s)
           | Some (Done rc bytes addr, s) \<Rightarrow>
               (let address = (if \<not> from_address then None
                               else Some (if ktype s = TYPE_STREAM then kpeer s else native_address addr));
                    s = (if is_set (kaddress s) then s else s\<lparr>kaddress := computable\<rparr>)
                in Some (int rc, take rc bytes, address, ex, s))))"

section \<open>Connection\<close>

definition Socket_address :: "socket \<Rightarrow> (IPImpl \<times> socket) option" where
  "Socket_address s =
     (if is_set (kaddress s) \<and> impl_port (kaddress s) = 0 then
        (case syscall Sys_getsockname s of
           None \<Rightarrow> None
         | Some (Done _ _ addr, s) \<Rightarrow> (let s = s\<lparr>kaddress := native_address addr\<rparr> in Some (kaddress s, s))
         | Some (Failed _, s) \<Rightarrow> Some (kaddress s, s))
      else Some (kaddress s, s))"

text \<open>\<open>interfaceIndex\<close> not 0: the address of the interface in the \<open>ifreq\<close> is not assigned by \<open>if_indextoname\<close>.\<close>

definition joinGroup :: "IPImpl \<Rightarrow> u32 \<Rightarrow> sock_ex option \<Rightarrow> socket \<Rightarrow> (bool \<times> sock_ex option \<times> socket) option" where
  "joinGroup ip interfaceIndex ex s =
     (case cls ip of
        IPv4 \<Rightarrow>
          (if interfaceIndex = 0 then setOption IP_ADD_MEMBERSHIP (Group4 (impl_data ip) (Some 0)) ex s
           else
             (case syscall (Sys_indextoname interfaceIndex) s of
                None \<Rightarrow> None
              | Some (Failed _, s) \<Rightarrow>
                  setOption IP_ADD_MEMBERSHIP (Group4 (impl_data ip) (Some 0)) (SetException No_Error s) s
              | Some (Done _ _ _, s) \<Rightarrow> setOption IP_ADD_MEMBERSHIP (Group4 (impl_data ip) None) ex s))
      | IPv6 \<Rightarrow> setOption IPV6_ADD_MEMBERSHIP (Group6 (impl_data ip) interfaceIndex) ex s)"

definition leaveGroup :: "IPImpl \<Rightarrow> u32 \<Rightarrow> socket \<Rightarrow> socket option" where
  "leaveGroup ip interfaceIndex s =
     map_option (\<lambda>(_, _, s). s)
       (case cls ip of
          IPv4 \<Rightarrow> setOption IP_DROP_MEMBERSHIP (Group4 (impl_data ip) (Some (To32Network interfaceIndex))) None s
        | IPv6 \<Rightarrow> setOption IPV6_DROP_MEMBERSHIP (Group6 (impl_data ip) interfaceIndex) None s)"

text \<open>\<open>accept\<close>: the native address of the new socket.\<close>

definition Socket_accept :: "sock_ex option \<Rightarrow> socket \<Rightarrow> (sockaddr option \<times> sock_ex option \<times> socket) option" where
  "Socket_accept ex s =
     (case kex s of
        Some e \<Rightarrow> Some (None, Some e, s)
      | None \<Rightarrow>
          (case retry Sys_accept s of
             None \<Rightarrow> None
           | Some (Failed e, s) \<Rightarrow> Some (None, SetException e s, s)
           | Some (Done _ _ addr, s) \<Rightarrow> Some (Some addr, ex, s)))"

definition Socket_listen :: "int \<Rightarrow> sock_ex option \<Rightarrow> socket \<Rightarrow> (bool \<times> sock_ex option \<times> socket) option" where
  "Socket_listen backlog ex s =
     (case kex s of
        Some e \<Rightarrow> Some (False, Some e, s)
      | None \<Rightarrow>
          (case syscall (Sys_listen backlog) s of
             None \<Rightarrow> None
           | Some (Done _ _ _, s) \<Rightarrow> Some (True, ex, s\<lparr>klistening := True\<rparr>)
           | Some (Failed _, s) \<Rightarrow> Some (False, SetException No_Error s, s)))"

definition connected_to :: "IPImpl \<Rightarrow> sock_ex option \<Rightarrow> socket \<Rightarrow> bool \<times> sock_ex option \<times> socket" where
  "connected_to address ex s = (True, ex, s\<lparr>kaddress := computable, kpeer := address\<rparr>)"

text \<open>What follows \<open>::connect\<close> when it fails; \<open>LastError\<close> is the last error of the system.\<close>

definition connect_failed :: "IPImpl \<Rightarrow> nat \<Rightarrow> sock_ex option \<Rightarrow> socket \<Rightarrow> (bool \<times> sock_ex option \<times> socket) option" where
  "connect_failed address timeout ex s =
     (let result = kerrno s
      in if is_set (kpeer s) \<or> result = EISCONN then
           (if socketaddress_equal (kpeer s) address then Some (True, ex, s) else Some (False, SetException EISCONN s, s))
         else if result \<noteq> EWOULDBLOCK \<and> result \<noteq> EALREADY \<and> result \<noteq> EINPROGRESS then Some (False, SetException result s, s)
         else if timeout \<noteq> 0 then
           (case syscall (Sys_select timeout) s of
              None \<Rightarrow> None
            | Some (Failed _, s) \<Rightarrow> Some (False, SetException ECONNREFUSED s, s)
            | Some (Done n _ _, s) \<Rightarrow>
                (if n = 0 then Some (False, SetException (kerrno s) s, s) else Some (connected_to address ex s)))
         else Some (connected_to address (SetException EWOULDBLOCK s) s))"

definition Socket_connect :: "IPImpl \<Rightarrow> nat \<Rightarrow> sock_ex option \<Rightarrow> socket \<Rightarrow> (bool \<times> sock_ex option \<times> socket) option" where
  "Socket_connect address timeout ex s =
     (case kex s of
        Some e \<Rightarrow> Some (False, Some e, s)
      | None \<Rightarrow>
          (let block = (timeout \<noteq> 0 \<and> \<not> knonblocking s)
           in case (if block then setNonBlockingMode True ex s else Some (True, ex, s)) of
                None \<Rightarrow> None
              | Some (False, ex, s) \<Rightarrow> Some (False, ex, s)
              | Some (True, ex, s) \<Rightarrow>
                  (case syscall (Sys_connect (if ktype s = TYPE_DATAGRAM \<and> \<not> is_set address then None else Some address)) s of
                     None \<Rightarrow> None
                   | Some (a, s) \<Rightarrow>
                       (let failed = ((case a of Failed _ \<Rightarrow> True | Done _ _ _ \<Rightarrow> False) \<and> \<not> (ktype s = TYPE_DATAGRAM \<and> \<not> is_set address))
                        in case (if block then setNonBlockingMode False ex s else Some (True, ex, s)) of
                             None \<Rightarrow> None
                           | Some (_, ex, s) \<Rightarrow>
                               (if failed then connect_failed address timeout ex s else Some (connected_to address ex s))))))"

definition Socket_bind :: "IPImpl \<Rightarrow> sock_ex option \<Rightarrow> socket \<Rightarrow> (bool \<times> sock_ex option \<times> socket) option" where
  "Socket_bind addr ex s =
     (let bound = (\<lambda>address ex s.
            (case syscall (Sys_bind address) s of
               None \<Rightarrow> None
             | Some (Failed _, s) \<Rightarrow> Some (False, SetException No_Error s, s)
             | Some (Done _ _ _, s) \<Rightarrow> Some (True, ex, s\<lparr>kaddress := (if is_set address then address else computable)\<rparr>)))
      in case kex s of
        Some e \<Rightarrow> Some (False, Some e, s)
      | None \<Rightarrow>
          (if is_set (kaddress s) then
             map_option (\<lambda>(a, s). (socketaddress_equal a addr, SetException EISCONN s, s)) (Socket_address s)
           else if ktype s = TYPE_STREAM then
             (case setLinger True 0 ex s of
                None \<Rightarrow> None
              | Some (_, ex, s) \<Rightarrow>
                  (case setReuseAddress True ex s of None \<Rightarrow> None | Some (_, ex, s) \<Rightarrow> bound addr ex s))
           else if isMulticast addr then
             (case joinGroup addr 0 ex s of
                None \<Rightarrow> None
              | Some (False, ex, s) \<Rightarrow> Some (False, ex, s)
              | Some (True, ex, s) \<Rightarrow> bound (any_host addr) ex s)
           else bound addr ex s))"

section \<open>What the system took\<close>

fun took :: "sys_call \<times> answer \<Rightarrow> byte list" where
  "took (Sys_send data _, Done n _ _) = take n data"
| "took (Sys_sendto data _ _, Done n _ _) = take n data"
| "took _ = []"

definition taken :: "socket \<Rightarrow> byte list" where
  "taken s = concat (map took (klog s))"

definition queued :: "socket \<Rightarrow> byte list" where
  "queued s = concat (map fst (ksendings s))"

text \<open>The system takes at most what it is given.\<close>

fun honest :: "sys_call \<times> answer \<Rightarrow> bool" where
  "honest (Sys_send data _, Done n _ _) = (n \<le> length data)"
| "honest (Sys_sendto data _ _, Done n _ _) = (n \<le> length data)"
| "honest _ = True"

definition honest_log :: "socket \<Rightarrow> bool" where
  "honest_log s = list_all honest (klog s)"

text \<open>What the system calls do not touch.\<close>

definition same_queue :: "socket \<Rightarrow> socket \<Rightarrow> bool" where
  "same_queue s s' \<longleftrightarrow> ksendings s' = ksendings s \<and> kqueueing s' = kqueueing s \<and> ksending s' = ksending s \<and>
     ktype s' = ktype s \<and> kpeer s' = kpeer s \<and> kex s' = kex s"

lemma same_queue_refl [simp]: "same_queue s s"
  by (simp add: same_queue_def)

lemma same_queue_answered [simp]: "same_queue s (answered c a s)"
  by (simp add: same_queue_def answered_def)

lemma same_queue_trans: "same_queue a b \<Longrightarrow> same_queue b c \<Longrightarrow> same_queue a c"
  by (simp add: same_queue_def)

lemma took_failed [simp]: "took (c, Failed e) = []" "honest (c, Failed e)"
  by (cases c; simp)+

lemma retry_log:
  "retry c s = Some (a, s') \<Longrightarrow>
     same_queue s s' \<and> taken s' = taken s @ took (c, a) \<and> (honest_log s' \<longleftrightarrow> honest_log s \<and> honest (c, a))"
proof (induction c s rule: retry.induct)
  case (1 c s)
  show ?case
  proof (cases "kanswers s")
    case Nil
    then show ?thesis using 1(2) by (simp add: retry.simps)
  next
    case (Cons b as)
    show ?thesis
    proof (cases "b = Failed EINTR")
      case True
      then have r: "retry c (answered c b s) = Some (a, s')" using 1(2) Cons by (simp add: retry.simps [of c s])
      from 1(1) [OF Cons True r] True show ?thesis
        by (auto simp: taken_def honest_log_def answered_def same_queue_def)
    next
      case False
      then have "b = a" "s' = answered c a s" using 1(2) Cons by (auto simp: retry.simps [of c s])
      then show ?thesis by (simp add: taken_def honest_log_def answered_def same_queue_def)
    qed
  qed
qed

lemma closeSocket_log:
  "closeSocket h s = Some (b, s') \<Longrightarrow> same_queue s s' \<and> taken s' = taken s \<and> (honest_log s' \<longleftrightarrow> honest_log s)"
  by (auto simp: closeSocket_def syscall_def taken_def honest_log_def answered_def same_queue_def split: list.splits)

text \<open>A call of \<open>sendTo\<close>: the bytes it reports are the ones taken; of a stream, none is taken when it fails.\<close>

lemma sendTo_log:
  assumes "sendTo data address flags ex s = Some (sent, ex', s')"
  shows "same_queue s s' \<and>
    (sent \<ge> 0 \<longrightarrow> taken s' = taken s @ take (nat sent) data \<and> ex' = ex \<and> (honest_log s' \<longrightarrow> nat sent \<le> length data)) \<and>
    (sent < 0 \<longrightarrow> sent = -1 \<and> ex' \<noteq> None \<and> (ktype s = TYPE_STREAM \<longrightarrow> taken s' = taken s)) \<and>
    (sent \<ge> 0 \<and> ktype s = TYPE_DATAGRAM \<longrightarrow> nat sent \<ge> length data) \<and> (honest_log s' \<longrightarrow> honest_log s)"
proof (cases "kex s")
  case (Some e)
  then have "sent = -1" "ex' = Some e" "s' = s" using assms by (simp_all add: sendTo_def)
  then show ?thesis by simp
next
  case None
  define c where "c = (if ktype s = TYPE_DATAGRAM \<and> is_set address then Sys_sendto data (flags OR 0x4000) address
                       else Sys_send data (flags OR 0x4000))"
  obtain a s1 where r: "retry c s = Some (a, s1)"
    using assms None by (auto simp: sendTo_def c_def Let_def split: option.splits)
  note log = retry_log [OF r]
  have took: "took (c, Done n b x) = take n data" "honest (c, Done n b x) \<longleftrightarrow> n \<le> length data" for n b x
    by (simp_all add: c_def)
  show ?thesis
  proof (cases a)
    case (Failed e)
    then show ?thesis using assms None r log unfolding sendTo_def
      by (auto simp: c_def [symmetric] Let_def SetException_def)
  next
    case (Done n b x)
    define s2 where "s2 = (if is_set (kaddress s1) then s1 else s1\<lparr>kaddress := computable\<rparr>)"
    have s2: "same_queue s s2" "taken s2 = taken s @ take n data" "honest_log s2 \<longleftrightarrow> honest_log s \<and> n \<le> length data"
      using log Done took by (auto simp: s2_def same_queue_def taken_def honest_log_def)
    have "(if n < length data \<and> ktype s2 = TYPE_DATAGRAM then Some (-1, SetException EMSGSIZE s2, s2) else Some (int n, ex, s2))
          = Some (sent, ex', s')"
      using assms None r Done unfolding sendTo_def by (auto simp: c_def [symmetric] Let_def s2_def)
    moreover have "ktype s2 = ktype s" using s2(1) by (simp add: same_queue_def)
    ultimately show ?thesis using s2 by (auto simp: SetException_def split: if_splits)
  qed
qed

section \<open>A stream loses nothing\<close>

lemma taken_simps [simp]:
  "taken (s\<lparr>ksendings := q\<rparr>) = taken s" "taken (s\<lparr>kqueueing := n\<rparr>) = taken s" "taken (s\<lparr>ksending := b\<rparr>) = taken s"
  "honest_log (s\<lparr>ksendings := q\<rparr>) = honest_log s" "honest_log (s\<lparr>kqueueing := n\<rparr>) = honest_log s"
  "honest_log (s\<lparr>ksending := b\<rparr>) = honest_log s"
  "taken (queue_sending d a f s) = taken s" "honest_log (queue_sending d a f s) = honest_log s"
  by (simp_all add: taken_def honest_log_def queue_sending_def)

lemma queued_simps [simp]:
  "queued (s\<lparr>kqueueing := n\<rparr>) = queued s" "queued (s\<lparr>ksending := b\<rparr>) = queued s"
  "queued (queue_sending d a f s) = queued s @ d" "ktype (queue_sending d a f s) = ktype s"
  by (simp_all add: queued_def queue_sending_def)

lemma write_stream:
  assumes "ktype s = TYPE_STREAM" "Socket_write packet address flags ex s = Some (sent, ex', s')"
  shows "ktype s' = TYPE_STREAM" "taken s' @ queued s' = taken s @ queued s @ (if sent = -1 then [] else packet)"
proof -
  have "ktype s' = TYPE_STREAM \<and> taken s' @ queued s' = taken s @ queued s @ (if sent = -1 then [] else packet)"
  proof (cases "ksendings s = []")
    case False
    then show ?thesis using assms by (auto simp: Socket_write_def)
  next
    case True
    obtain n ex1 s1 where r: "sendTo packet address 0 ex (s\<lparr>ksending := True\<rparr>) = Some (n, ex1, s1)"
      using assms(2) True by (auto simp: Socket_write_def split: option.splits)
    note log = sendTo_log [OF r]
    have q: "queued s = []" "queued s1 = []" "ksendings s1 = []" and t: "ktype s1 = TYPE_STREAM"
      using True log assms(1) by (auto simp: queued_def same_queue_def)
    show ?thesis
    proof (cases "n < 0")
      case fail: True
      then have tk: "taken s1 = taken s" using log assms(1) by simp
      show ?thesis
      proof (cases "must_wait ex1 s1")
        case True
        then have "sent = 0 \<and> s' = queue_sending packet address flags s1"
          using assms(2) \<open>ksendings s = []\<close> r fail by (simp add: Socket_write_def)
        then show ?thesis using tk q t by simp
      next
        case False
        then obtain b s2 where c: "closeSocket SHUTDOWN_BOTH s1 = Some (b, s2)" and e: "sent = -1" "s' = s2\<lparr>ksending := False\<rparr>"
          using assms(2) \<open>ksendings s = []\<close> r fail t by (auto simp: Socket_write_def)
        then show ?thesis using closeSocket_log [OF c] tk q t by (simp add: same_queue_def queued_def)
      qed
    next
      case fine: False
      then have tk: "taken s1 = taken s @ take (nat n) packet" using log by simp
      show ?thesis
      proof (cases "nat n \<ge> length packet")
        case True
        then have "sent = int (length packet)" "s' = s1\<lparr>ksending := False\<rparr>"
          using assms(2) \<open>ksendings s = []\<close> r fine by (auto simp: Socket_write_def)
        then show ?thesis using tk q t True by simp
      next
        case False
        then have "sent = n" "s' = queue_sending (drop (nat n) packet) address flags s1"
          using assms(2) \<open>ksendings s = []\<close> r fine by (auto simp: Socket_write_def)
        then show ?thesis using tk q t fine by simp
      qed
    qed
  qed
  then show "ktype s' = TYPE_STREAM" "taken s' @ queued s' = taken s @ queued s @ (if sent = -1 then [] else packet)" by simp_all
qed

lemma flush_loop_stream:
  "flush_loop q w ex s = Some (fine, w', q', ex', s') \<Longrightarrow> ktype s = TYPE_STREAM \<Longrightarrow>
     ktype s' = TYPE_STREAM \<and> taken s' @ concat (map fst q') = taken s @ concat (map fst q)"
proof (induction q w ex s arbitrary: fine w' q' ex' s' rule: flush_loop.induct)
  case (1 w ex s)
  then show ?case by simp
next
  case (2 data address flags q w ex s)
  obtain n ex1 s1 where r: "sendTo data address flags ex s = Some (n, ex1, s1)"
    using 2(2) by (auto split: option.splits)
  note log = sendTo_log [OF r]
  have t: "ktype s1 = TYPE_STREAM" using log 2(3) by (simp add: same_queue_def)
  show ?case
  proof (cases "n \<ge> 0")
    case pos: True
    then have tk: "taken s1 = taken s @ take (nat n) data" using log by simp
    show ?thesis
    proof (cases "nat n < length data")
      case True
      then show ?thesis using 2(2) r pos tk t by auto
    next
      case False
      then have "flush_loop q (w + word_of_int n) ex1 s1 = Some (fine, w', q', ex', s')" using 2(2) r pos by simp
      from 2(1) [OF r refl refl pos _ this t] False show ?thesis using tk by simp
    qed
  next
    case neg: False
    then have tk: "taken s1 = taken s" using log 2(3) by simp
    show ?thesis
    proof (cases "must_wait ex1 s1")
      case True
      then show ?thesis using 2(2) r neg tk t by auto
    next
      case False
      then obtain b s2 where c: "closeSocket SHUTDOWN_BOTH s1 = Some (b, s2)"
        and e: "s' = s2" "q' = (data, address, flags) # q"
        using 2(2) r neg t by (auto simp del: map_option_eq_Some simp: map_option_case split: option.splits)
      then show ?thesis using closeSocket_log [OF c] tk t by (simp add: same_queue_def)
    qed
  qed
qed

lemma flush_stream:
  assumes "ktype s = TYPE_STREAM" "Socket_flush deleting ex s = Some (fine, ex', s')"
  shows "ktype s' = TYPE_STREAM" "taken s' @ queued s' = taken s @ queued s"
proof -
  obtain fine1 w q ex1 s1 where r: "flush_loop (ksendings s) 0 ex s = Some (fine1, w, q, ex1, s1)"
    using assms(2) by (auto simp: Socket_flush_def split: option.splits)
  note log = flush_loop_stream [OF r assms(1)]
  have "ktype s' = ktype s1 \<and> taken s' = taken s1 \<and> ksendings s' = q"
    using assms(2) r by (auto simp: Socket_flush_def Let_def split: if_splits)
  then show "ktype s' = TYPE_STREAM" "taken s' @ queued s' = taken s @ queued s"
    using log by (simp_all add: queued_def)
qed

text \<open>
  Calls of \<open>write\<close> and \<open>flush\<close> one after the other; the bytes of the calls of \<open>write\<close> that do not fail, and
  whether every call of \<open>flush\<close> succeeds and sets no error.
\<close>

datatype socket_op = Op_write "byte list" IPImpl u32 | Op_flush

fun socket_run :: "socket_op list \<Rightarrow> socket \<Rightarrow> (byte list \<times> bool \<times> socket) option" where
  "socket_run [] s = Some ([], True, s)"
| "socket_run (Op_write packet address flags # ops) s =
     (case Socket_write packet address flags None s of
        None \<Rightarrow> None
      | Some (sent, _, s) \<Rightarrow>
          map_option (\<lambda>(accepted, fine, s). ((if sent = -1 then [] else packet) @ accepted, fine, s)) (socket_run ops s))"
| "socket_run (Op_flush # ops) s =
     (case Socket_flush False None s of
        None \<Rightarrow> None
      | Some (fine, ex, s) \<Rightarrow>
          map_option (\<lambda>(accepted, fine', s). (accepted, fine \<and> ex = None \<and> fine', s)) (socket_run ops s))"

text \<open>
  C21: A stream socket hands the system the bytes of the writes that it accepts, in order, each once: what the system
  took, then what waits, are those bytes, however much the system takes at a time and whatever its errors are.
\<close>

theorem socket_stream_in_order:
  assumes "ktype s = TYPE_STREAM" "socket_run ops s = Some (accepted, fine, s')"
  shows "taken s' @ queued s' = taken s @ queued s @ accepted"
  using assms
proof (induction ops s arbitrary: accepted fine s' rule: socket_run.induct)
  case (1 s)
  then show ?case by simp
next
  case (2 packet address flags ops s)
  obtain sent ex1 s1 accepted1 where w: "Socket_write packet address flags None s = Some (sent, ex1, s1)"
    and r: "socket_run ops s1 = Some (accepted1, fine, s')" and a: "accepted = (if sent = -1 then [] else packet) @ accepted1"
    using 2(3) by (auto split: option.splits)
  show ?case
    using 2(1) [OF w refl refl write_stream(1) [OF 2(2) w] r] write_stream(2) [OF 2(2) w] a
    by (metis append.assoc)
next
  case (3 ops s)
  obtain fine1 ex1 s1 fine2 where f: "Socket_flush False None s = Some (fine1, ex1, s1)"
    and r: "socket_run ops s1 = Some (accepted, fine2, s')"
    using 3(3) by (auto split: option.splits)
  show ?case
    using 3(1) [OF f refl refl flush_stream(1) [OF 3(2) f] r] flush_stream(2) [OF 3(2) f]
    by (metis append.assoc)
qed

section \<open>The counter of queued bytes\<close>

definition queue_size :: "sending list \<Rightarrow> nat" where
  "queue_size q = sum_list (map (length \<circ> fst) q)"

text \<open>
  The counter is what waits, \<open>_sending\<close> is set while something waits, and no packet that waits is empty.
\<close>

definition queue_ok :: "socket \<Rightarrow> bool" where
  "queue_ok s \<longleftrightarrow> kqueueing s = of_nat (queue_size (ksendings s)) \<and> (ksendings s \<noteq> [] \<longrightarrow> ksending s) \<and>
     list_all (\<lambda>x. fst x \<noteq> []) (ksendings s)"

lemma queue_size_simps [simp]:
  "queue_size [] = 0" "queue_size ((d, a, f) # q) = length d + queue_size q" "queue_size (p @ q) = queue_size p + queue_size q"
  by (simp_all add: queue_size_def)

lemma queue_size_0: "list_all (\<lambda>x. fst x \<noteq> []) q \<Longrightarrow> queue_size q = 0 \<longleftrightarrow> q = []"
  by (cases q) auto

lemma queue_ok_push:
  assumes "queue_ok s" "ksending s" "d \<noteq> []"
  shows "queue_ok (queue_sending d a f s)" "queue_size (ksendings (queue_sending d a f s)) = queue_size (ksendings s) + length d"
  using assms by (auto simp: queue_ok_def queue_sending_def)

lemma queue_ok_same: "queue_ok s \<Longrightarrow> same_queue s s' \<Longrightarrow> queue_ok s'"
  by (simp add: queue_ok_def same_queue_def)

lemma queue_ok_clear: "queue_ok s \<Longrightarrow> ksendings s = [] \<Longrightarrow> queue_ok (s\<lparr>ksending := b\<rparr>)"
  by (simp add: queue_ok_def)

lemma write_counts:
  assumes "queue_ok s" "packet \<noteq> []" "Socket_write packet address flags ex s = Some (sent, ex', s')"
  shows "queue_ok s'" "queue_size (ksendings s') \<le> queue_size (ksendings s) + length packet" "honest_log s' \<longrightarrow> honest_log s"
proof -
  have "queue_ok s' \<and> queue_size (ksendings s') \<le> queue_size (ksendings s) + length packet \<and> (honest_log s' \<longrightarrow> honest_log s)"
  proof (cases "ksendings s = []")
    case False
    then have "s' = queue_sending packet address flags s" "ksending s"
      using assms(1,3) by (auto simp: Socket_write_def queue_ok_def)
    then show ?thesis using queue_ok_push [OF assms(1) _ assms(2)] by simp
  next
    case True
    obtain n ex1 s1 where r: "sendTo packet address 0 ex (s\<lparr>ksending := True\<rparr>) = Some (n, ex1, s1)"
      using assms(3) True by (auto simp: Socket_write_def split: option.splits)
    note log = sendTo_log [OF r]
    have ok1: "queue_ok s1" "ksendings s1 = []" "ksending s1"
      using queue_ok_same [OF queue_ok_clear [OF assms(1) True, of True]] log True by (auto simp: same_queue_def)
    have h: "honest_log s1 \<longrightarrow> honest_log s" using log by simp
    show ?thesis
    proof (cases "n < 0")
      case neg: True
      show ?thesis
      proof (cases "must_wait ex1 s1")
        case True
        then have "s' = queue_sending packet address flags s1"
          using assms(3) \<open>ksendings s = []\<close> r neg by (simp add: Socket_write_def)
        then show ?thesis using queue_ok_push [OF ok1(1,3) assms(2)] ok1 h by simp
      next
        case False
        show ?thesis
        proof (cases "ktype s1 = TYPE_STREAM")
          case True
          then obtain b s2 where c: "closeSocket SHUTDOWN_BOTH s1 = Some (b, s2)" and e: "s' = s2\<lparr>ksending := False\<rparr>"
            using assms(3) \<open>ksendings s = []\<close> r neg False by (auto simp: Socket_write_def)
          have "ksendings s2 = []" using closeSocket_log [OF c] ok1 by (simp add: same_queue_def)
          then show ?thesis
            using closeSocket_log [OF c] queue_ok_clear [OF queue_ok_same [OF ok1(1)]] e h by auto
        next
          case False
          then have "s' = s1\<lparr>ksending := False\<rparr>"
            using assms(3) \<open>ksendings s = []\<close> r neg \<open>\<not> must_wait ex1 s1\<close> by (simp add: Socket_write_def)
          then show ?thesis using queue_ok_clear [OF ok1(1,2)] ok1 h by simp
        qed
      qed
    next
      case fine: False
      show ?thesis
      proof (cases "nat n \<ge> length packet")
        case True
        then have "s' = s1\<lparr>ksending := False\<rparr>" using assms(3) \<open>ksendings s = []\<close> r fine by (simp add: Socket_write_def)
        then show ?thesis using queue_ok_clear [OF ok1(1,2)] ok1 h by simp
      next
        case False
        then have "s' = queue_sending (drop (nat n) packet) address flags s1"
          using assms(3) \<open>ksendings s = []\<close> r fine by (auto simp: Socket_write_def)
        then show ?thesis using queue_ok_push [OF ok1(1,3), of "drop (nat n) packet"] False ok1 h by simp
      qed
    qed
  qed
  then show "queue_ok s'" "queue_size (ksendings s') \<le> queue_size (ksendings s) + length packet" "honest_log s' \<longrightarrow> honest_log s"
    by simp_all
qed

text \<open>A flush without error: what is written is what leaves the queue.\<close>

lemma flush_loop_counts:
  "flush_loop q w ex s = Some (True, w', q', None, s') \<Longrightarrow> honest_log s' \<Longrightarrow> list_all (\<lambda>x. fst x \<noteq> []) q \<Longrightarrow>
     same_queue s s' \<and> list_all (\<lambda>x. fst x \<noteq> []) q' \<and> w' = w + of_nat (queue_size q - queue_size q') \<and>
     queue_size q' \<le> queue_size q \<and> honest_log s"
proof (induction q w ex s arbitrary: w' q' s' rule: flush_loop.induct)
  case (1 w ex s)
  then show ?case by simp
next
  case (2 data address flags q w ex s)
  obtain n ex1 s1 where r: "sendTo data address flags ex s = Some (n, ex1, s1)"
    using 2(2) by (auto split: option.splits)
  note log = sendTo_log [OF r]
  show ?case
  proof (cases "n \<ge> 0")
    case pos: True
    have w1: "word_of_int n = (of_nat (nat n) :: u32)" using pos by simp
    show ?thesis
    proof (cases "nat n < length data")
      case True
      then have "Some (True, w + word_of_int n, (drop (nat n) data, address, flags) # q, ex1, s1) = Some (True, w', q', None, s')"
        using 2(2) r pos by simp
      then have e: "s' = s1" "q' = (drop (nat n) data, address, flags) # q" "w' = w + of_nat (nat n)" by (auto simp: w1)
      have "queue_size ((data, address, flags) # q) - queue_size q' = nat n" using True e by simp
      then show ?thesis using e log 2(3,4) True by simp
    next
      case False
      then have l: "flush_loop q (w + word_of_int n) ex1 s1 = Some (True, w', q', None, s')" using 2(2) r pos by simp
      from 2(1) [OF r refl refl pos _ l 2(3)] False 2(4)
      have ih: "same_queue s1 s' \<and> list_all (\<lambda>x. fst x \<noteq> []) q' \<and>
          w' = w + word_of_int n + of_nat (queue_size q - queue_size q') \<and> queue_size q' \<le> queue_size q \<and> honest_log s1" by simp
      then have "nat n = length data" using log pos False by simp
      then have "of_nat (queue_size ((data, address, flags) # q) - queue_size q') = (of_nat (nat n) :: u32) + of_nat (queue_size q - queue_size q')"
        using ih by (simp flip: of_nat_add)
      then show ?thesis using ih log w1 same_queue_trans by auto
    qed
  next
    case neg: False
    show ?thesis
    proof (cases "must_wait ex1 s1")
      case True
      then show ?thesis using 2(2,3,4) r neg log by auto
    next
      case False
      then show ?thesis using 2(2) r neg log by (auto split: if_splits)
    qed
  qed
qed

lemma ucast_of_nat_32: "n < 2 ^ 32 \<Longrightarrow> ucast (of_nat n :: u32) = (of_nat n :: u64)"
  by (simp add: unsigned_of_nat take_bit_nat_eq_self)

lemma flush_counts:
  assumes "queue_ok s" "queue_size (ksendings s) < 2 ^ 32" "Socket_flush False ex s = Some (True, None, s')" "honest_log s'"
  shows "queue_ok s'" "queue_size (ksendings s') \<le> queue_size (ksendings s)" "honest_log s"
    "ksendings s \<noteq> [] \<Longrightarrow> ksendings s' = [] \<Longrightarrow> \<not> ksending s'"
proof -
  obtain fine1 w q ex1 s1 where r: "flush_loop (ksendings s) 0 ex s = Some (fine1, w, q, ex1, s1)"
    using assms(3) by (auto simp: Socket_flush_def split: option.splits)
  have f: "fine1" "ex1 = None" "honest_log s1"
    using assms(3,4) r by (auto simp: Socket_flush_def Let_def split: if_splits)
  then have l: "flush_loop (ksendings s) 0 ex s = Some (True, w, q, None, s1)" using r by simp
  have q0: "list_all (\<lambda>x. fst x \<noteq> []) (ksendings s)" using assms(1) by (simp add: queue_ok_def)
  note log = flush_loop_counts [OF l f(3) q0]
  define gone where "gone = queue_size (ksendings s) - queue_size q"
  have gone: "queue_size (ksendings s) = gone + queue_size q" "gone < 2 ^ 32" using log assms(2) by (auto simp: gone_def)
  have w: "ucast w = (of_nat gone :: u64)" using log ucast_of_nat_32 [OF gone(2)] by (simp add: gone_def)
  have w0: "w = 0 \<longleftrightarrow> gone = 0"
  proof -
    have "w = of_nat gone" using log by (simp add: gone_def)
    then have "unat w = gone" using gone(2) by (simp add: unat_of_nat take_bit_nat_eq_self)
    then show ?thesis by (metis unat_eq_zero)
  qed
  have n: "kqueueing s1 - ucast w = of_nat (queue_size q)"
    using log assms(1) gone(1) w by (simp add: queue_ok_def same_queue_def)
  have z: "(of_nat (queue_size q) :: u64) = 0 \<longleftrightarrow> q = []"
  proof -
    have "queue_size q < 2 ^ 64" using gone assms(2) by simp
    then have "unat (of_nat (queue_size q) :: u64) = queue_size q" by (simp add: unat_of_nat take_bit_nat_eq_self)
    then show ?thesis using queue_size_0 log by (metis unat_eq_zero)
  qed
  have s': "s' = (if w \<noteq> 0 then (if q = [] then s1\<lparr>ksendings := q, kqueueing := of_nat (queue_size q), ksending := False\<rparr>
                              else s1\<lparr>ksendings := q, kqueueing := of_nat (queue_size q)\<rparr>) else s1\<lparr>ksendings := q\<rparr>)"
    using assms(3) l n z by (auto simp: Socket_flush_def Let_def split: if_splits)
  have "queue_ok s'"
  proof (cases "w = 0")
    case True
    then have "queue_size q = queue_size (ksendings s)" using w0 gone by simp
    then have "q = [] \<longleftrightarrow> ksendings s = []" using queue_size_0 log q0 by metis
    then show ?thesis using True s' w0 gone log assms(1) by (auto simp: queue_ok_def same_queue_def)
  next
    case False
    then have "ksendings s \<noteq> []" using w0 gone by auto
    then show ?thesis using s' False log assms(1) by (auto simp: queue_ok_def same_queue_def)
  qed
  moreover have q': "ksendings s' = q" using s' by auto
  ultimately show "queue_ok s'" "queue_size (ksendings s') \<le> queue_size (ksendings s)" "honest_log s"
    using log by simp_all
  show "\<not> ksending s'" if "ksendings s \<noteq> []" "ksendings s' = []"
    using that q' s' w0 gone(1) queue_size_0 [OF q0] by auto
qed

lemma write_honest: "Socket_write packet address flags ex s = Some (sent, ex', s') \<Longrightarrow> honest_log s' \<Longrightarrow> honest_log s"
  by (auto simp: Socket_write_def split: if_splits option.splits dest!: sendTo_log closeSocket_log)

lemma flush_loop_honest: "flush_loop q w ex s = Some (fine, w', q', ex', s') \<Longrightarrow> honest_log s' \<Longrightarrow> honest_log s"
proof (induction q w ex s arbitrary: fine w' q' ex' s' rule: flush_loop.induct)
  case (1 w ex s)
  then show ?case by simp
next
  case (2 data address flags q w ex s)
  obtain n ex1 s1 where r: "sendTo data address flags ex s = Some (n, ex1, s1)"
    using 2(2) by (auto split: option.splits)
  show ?case
  proof (cases "n \<ge> 0 \<and> \<not> nat n < length data")
    case True
    then have "flush_loop q (w + word_of_int n) ex1 s1 = Some (fine, w', q', ex', s')" using 2(2) r by simp
    then show ?thesis using 2(1) [OF r refl refl] True 2(3) sendTo_log [OF r] by blast
  next
    case False
    then show ?thesis using 2(2,3) r sendTo_log [OF r] by (auto split: if_splits dest!: closeSocket_log)
  qed
qed

lemma flush_honest: "Socket_flush deleting ex s = Some (fine, ex', s') \<Longrightarrow> honest_log s' \<Longrightarrow> honest_log s"
  by (auto simp: Socket_flush_def Let_def split: if_splits option.splits dest!: flush_loop_honest)

lemma run_honest: "socket_run ops s = Some (accepted, fine, s') \<Longrightarrow> honest_log s' \<Longrightarrow> honest_log s"
  by (induction ops s arbitrary: accepted fine s' rule: socket_run.induct)
     (auto split: option.splits dest: write_honest flush_honest)

fun op_packet :: "socket_op \<Rightarrow> byte list option" where
  "op_packet (Op_write packet _ _) = Some packet"
| "op_packet Op_flush = None"

definition packets :: "socket_op list \<Rightarrow> byte list list" where
  "packets ops = List.map_filter op_packet ops"

lemma packets_simps [simp]:
  "packets [] = []" "packets (Op_write p a f # ops) = p # packets ops" "packets (Op_flush # ops) = packets ops"
  by (simp_all add: packets_def map_filter_simps)

text \<open>
  C22: Whatever the calls of write and flush, of a stream or of datagrams, while no flush meets an error and no packet is empty,
  the counter of queued bytes is the size of the queue, and \<open>_sending\<close> is set while something waits.
\<close>

theorem socket_counts_queue:
  assumes "socket_run ops s = Some (accepted, True, s')" "queue_ok s" "list_all (\<lambda>p. p \<noteq> []) (packets ops)"
    "queue_size (ksendings s) + length (concat (packets ops)) < 2 ^ 32" "honest_log s'"
  shows "kqueueing s' = of_nat (queue_size (ksendings s')) \<and> (ksendings s' = [] \<or> ksending s')"
proof -
  have "queue_ok s' \<and> honest_log s"
    using assms
  proof (induction ops s arbitrary: accepted s' rule: socket_run.induct)
    case (1 s)
    then show ?case by simp
  next
    case (2 packet address flags ops s)
    obtain sent ex1 s1 accepted1 where w: "Socket_write packet address flags None s = Some (sent, ex1, s1)"
      and r: "socket_run ops s1 = Some (accepted1, True, s')"
      using 2(2) by (auto split: option.splits)
    have p: "packet \<noteq> []" "list_all (\<lambda>p. p \<noteq> []) (packets ops)" using 2(4) by simp_all
    note wc = write_counts [OF 2(3) p(1) w]
    have "queue_size (ksendings s1) + length (concat (packets ops)) < 2 ^ 32" using wc(2) 2(5) by simp
    from 2(1) [OF w refl refl r wc(1) p(2) this 2(6)] wc(3) show ?case by simp
  next
    case (3 ops s)
    obtain s1 where f: "Socket_flush False None s = Some (True, None, s1)"
      and r: "socket_run ops s1 = Some (accepted, True, s')"
      using 3(2) by (auto split: option.splits)
    have h: "honest_log s1" using run_honest [OF r 3(6)] .
    have b: "queue_size (ksendings s) < 2 ^ 32" using 3(5) by simp
    note fc = flush_counts [OF 3(3) b f h]
    have "list_all (\<lambda>p. p \<noteq> []) (packets ops)" "queue_size (ksendings s1) + length (concat (packets ops)) < 2 ^ 32"
      using 3(4,5) fc(2) by simp_all
    from 3(1) [OF f refl refl r fc(1) this 3(6)] fc(3) show ?case by simp
  qed
  then show ?thesis by (auto simp: queue_ok_def)
qed

text \<open>A stream socket that is connected, and its answers.\<close>

definition open_socket :: "socket_type \<Rightarrow> answer list \<Rightarrow> socket" where
  "open_socket type answers =
     (blank_socket type 65536 65536 answers)
       \<lparr>kvalid := True, kpeer := native_address (Sockaddr_in 0x5000 0x0100007F)\<rparr>"

definition example_ops :: "socket_op list" where
  "example_ops = [Op_write [1, 2, 3] (IPImpl_wildcard IPv4) 0, Op_write [4, 5] (IPImpl_wildcard IPv4) 0, Op_flush, Op_flush]"

definition example_answers :: "answer list" where
  "example_answers = [Failed EINTR, ok 2, ok 1, Failed EWOULDBLOCK, ok 1]"

definition run_result :: "(byte list \<times> bool \<times> socket) option \<Rightarrow> byte list \<times> bool \<times> socket" where
  "run_result r = (case r of Some x \<Rightarrow> x | None \<Rightarrow> ([], False, open_socket TYPE_STREAM []))"

lemma example_runs:
  "(case socket_run example_ops (open_socket TYPE_STREAM example_answers) of
      Some (accepted, fine, s) \<Rightarrow>
        accepted = [1, 2, 3, 4, 5] \<and> fine \<and> taken s = [1, 2, 3, 4] \<and> queued s = [5] \<and> kqueueing s = 1 \<and> ksending s \<and> honest_log s
    | None \<Rightarrow> False)"
  by code_simp

lemma example_packets:
  "list_all (\<lambda>p. p \<noteq> []) (packets example_ops)" "length (concat (packets example_ops)) = 5"
  by (simp_all add: example_ops_def)

lemma open_socket_new: "ktype (open_socket t as) = t" "taken (open_socket t as) = []" "queued (open_socket t as) = []"
  "queue_ok (open_socket t as)" "ksendings (open_socket t as) = []"
  by (simp_all add: open_socket_def blank_socket_def taken_def queued_def queue_ok_def)

theorem socket_stream_in_order_witness:
  "case socket_run example_ops (open_socket TYPE_STREAM example_answers) of
     Some (accepted, fine, s) \<Rightarrow> taken s @ queued s = [1, 2, 3, 4, 5] | None \<Rightarrow> False"
proof -
  obtain fine s where r: "socket_run example_ops (open_socket TYPE_STREAM example_answers) = Some ([1, 2, 3, 4, 5], fine, s)"
    using example_runs by (auto split: option.splits)
  from socket_stream_in_order [OF open_socket_new(1) r] show ?thesis using r by (simp add: open_socket_new)
qed

theorem socket_counts_queue_witness:
  "case socket_run example_ops (open_socket TYPE_STREAM example_answers) of
     Some (accepted, fine, s) \<Rightarrow> kqueueing s = of_nat (queue_size (ksendings s)) \<and> (ksendings s = [] \<or> ksending s) | None \<Rightarrow> False"
proof -
  obtain s where r: "socket_run example_ops (open_socket TYPE_STREAM example_answers) = Some ([1, 2, 3, 4, 5], True, s)"
    and h: "honest_log s"
    using example_runs by (auto split: option.splits)
  from socket_counts_queue [OF r open_socket_new(4) example_packets(1) _ h] show ?thesis
    using r by (simp add: open_socket_new example_packets(2))
qed

section \<open>Parameters\<close>

definition number_of :: "num_result \<Rightarrow> int option" where
  "number_of r = (case r of Number n _ \<Rightarrow> Some n | _ \<Rightarrow> None)"

definition or_else :: "'a option \<Rightarrow> 'a option \<Rightarrow> 'a option" where
  "or_else a b = (case a of None \<Rightarrow> b | Some x \<Rightarrow> Some x)"

text \<open>
  The sizes of \<open>processParams\<close>: each its own parameter, or else \<open>bufferSize\<close>. Reading \<open>bufferSize\<close> once is enough.
\<close>

lemma buffer_sizes_priority:
  assumes "\<And>name. processParam onUnfound name prefix p \<noteq> Undefined_Conversion"
  shows "buffer_sizes onUnfound prefix p =
    (let value = (\<lambda>name. number_of (processParam onUnfound name prefix p))
     in Some (or_else (value ''recvBufferSize'') (value ''bufferSize''), or_else (value ''sendBufferSize'') (value ''bufferSize'')))"
  using assms [of "''recvBufferSize''"] assms [of "''sendBufferSize''"] assms [of "''bufferSize''"]
  by (simp add: buffer_sizes_def Let_def number_of_def or_else_def split: num_result.split)

section \<open>What goes wrong\<close>

text \<open>\<open>write\<close> does not give its flags to \<open>sendTo\<close>: they count only for what is queued.\<close>

lemma write_drops_flags:
  assumes "ksendings s = []" "Socket_write packet address flags ex s = Some (int (length packet), ex', s')" "packet \<noteq> []"
  shows "Socket_write packet address other_flags ex s = Some (int (length packet), ex', s')"
  using assms by (auto simp: Socket_write_def split: option.splits if_splits)

text \<open>A datagram that meets an error in \<open>flush\<close> leaves the queue and not the counter, which never comes back to 0.\<close>

lemma datagram_error_counts:
  "(case socket_run [Op_write [1, 2] (IPImpl_wildcard IPv4) 0, Op_flush, Op_write [3] (IPImpl_wildcard IPv4) 0, Op_flush]
           (open_socket TYPE_DATAGRAM [Failed EWOULDBLOCK, Failed ECONNREFUSED, ok 1]) of
      Some (_, _, s) \<Rightarrow> ksendings s = [] \<and> kqueueing s = 2
    | None \<Rightarrow> False)"
  by code_simp

text \<open>
  An empty datagram that waits behind the last bytes clears \<open>_sending\<close> while it stays in the queue: what follows is
  queued and nothing asks for a flush.
\<close>

lemma empty_datagram_stalls:
  "(case socket_run [Op_write [1] (IPImpl_wildcard IPv4) 0, Op_write [] (IPImpl_wildcard IPv4) 0, Op_flush,
                     Op_write [2] (IPImpl_wildcard IPv4) 0]
           (open_socket TYPE_DATAGRAM [Failed EWOULDBLOCK, ok 1, Failed EWOULDBLOCK]) of
      Some (_, fine, s) \<Rightarrow> fine \<and> map fst (ksendings s) = [[], [2]] \<and> \<not> ksending s
    | None \<Rightarrow> False)"
  by code_simp

text \<open>
  The two cases of \<open>select\<close> are swapped: when the time is over the error is the one that \<open>::connect\<close> left, which says
  that it is in progress, and an error of \<open>select\<close> is told as a refused connection.
\<close>

lemma connect_timeout_code:
  assumes "kanswers s = ok 0 # as" "kerrno s = EINPROGRESS" "\<not> is_set (kpeer s)" "timeout \<noteq> 0"
  shows "\<exists>s'. connect_failed address timeout ex s = Some (False, Some (Ex_Socket EINPROGRESS), s')"
  using assms by (simp add: connect_failed_def syscall_def ok_def answered_def SetException_def)

lemma connect_select_error_code:
  assumes "kanswers s = Failed e # as" "kerrno s = EINPROGRESS" "\<not> is_set (kpeer s)" "timeout \<noteq> 0"
  shows "\<exists>s'. connect_failed address timeout ex s = Some (False, Some (Ex_Socket ECONNREFUSED), s')"
  using assms by (simp add: connect_failed_def syscall_def answered_def SetException_def)

text \<open>A group joined on an interface is joined with an address that is never assigned.\<close>

lemma join_unassigned_address:
  assumes "cls ip = IPv4" "interfaceIndex \<noteq> 0" "kex s = None" "kanswers s = ok 0 # ok 0 # as"
  shows "\<exists>s'. joinGroup ip interfaceIndex ex s = Some (True, ex, s') \<and>
    last (klog s') = (Sys_setsockopt IP_ADD_MEMBERSHIP (Group4 (impl_data ip) None), ok 0)"
  using assms by (simp add: joinGroup_def syscall_def setOption_def answered_def ok_def)

end
