(* ===== verification/Io_Sockets.thy ===== *)
theory Io_Sockets
  imports Sockets
begin

text \<open>
  Mona/Net/IOSocket.cpp with epoll: the reception of one socket that is subscribed, and is alive. Three threads share it: the one of
  \<open>run\<close>, which dispatches the events of the system (\<open>icalls\<close> are the calls it has still to do for the last event),
  the one that runs the actions of the socket in order (\<open>ithread\<close>, and \<open>irunning\<close> the loop of \<open>Receive\<close> or \<open>Accept\<close>,
  with its exception), and the one of the handler (\<open>ihandler\<close>, and \<open>ihandling\<close> between \<open>onReceived\<close> or
  \<open>onAccept\<close> and what follows it). Their steps interleave; a step is what is between two accesses to what is shared,
  up to accesses that no other thread can tell apart.
  \<open>ikernel\<close> is what the next calls of \<open>receive\<close> or \<open>accept\<close> answer, and \<open>iready\<close> whether the system has an event to
  tell: it tells each arrival once. The decoder is not modelled. What is received is a value of any type, of
  weight \<open>w\<close>: its size for data, 1 for a connection.
  The lemmas show that what arrives is delivered once and in order, that no event is lost, and how much can wait for the handler.
\<close>

section \<open>State\<close>

datatype io_call = Read "net_error option" | Read_Go "net_error option" | Call_Write "net_error option" | Call_Close "net_error option" | Call_Error net_error

datatype io_action = Receive "net_error option" | Close_Socket "net_error option" | Tell_Error net_error

datatype 'd io_handle = Got "net_error option" 'd bool | Told_Error net_error | Disconnected "net_error option"

datatype 'd incoming = Data 'd | End_Of_Stream | Fault net_error

record 'd io =
  istream :: bool
  ilistening :: bool
  iopened :: bool
  ilimit :: nat
  ireading :: byte
  ireceiving :: u32
  ikernel :: "'d incoming list"
  iready :: bool
  icalls :: "io_call list"
  ithread :: "io_action list"
  irunning :: "net_error option option"
  ihandler :: "'d io_handle list"
  ihandling :: "('d \<times> bool) option"
  ionDisconnection :: bool
  iarrived :: "'d list"
  idelivered :: "'d list"
  ierrors :: "net_error list"
  idisconnections :: nat

text \<open>\<open>ilimit\<close> is \<open>recvBufferSize()\<close>, or \<open>BACKLOG_MAX\<close>.\<close>

definition io_socket :: "bool \<Rightarrow> bool \<Rightarrow> nat \<Rightarrow> 'd io" where
  "io_socket stream listening limit =
     \<lparr>istream = stream, ilistening = listening, iopened = False, ilimit = limit, ireading = 0, ireceiving = 0, ikernel = [],
      iready = False, icalls = [], ithread = [], irunning = None, ihandler = [], ihandling = None,
      ionDisconnection = True, iarrived = [], idelivered = [], ierrors = [], idisconnections = 0\<rparr>"

definition error_list :: "net_error option \<Rightarrow> net_error list" where
  "error_list e = (case e of None \<Rightarrow> [] | Some e \<Rightarrow> [e])"

section \<open>The events of the system\<close>

record epoll_event =
  ein :: bool
  eout :: bool
  eerr :: "net_error option"
  ehup :: bool
  erdhup :: bool

text \<open>The calls for an event; \<open>eerr\<close> is \<open>EPOLLERR\<close> with the value of \<open>SO_ERROR\<close>.\<close>

definition dispatch :: "epoll_event \<Rightarrow> io_call list" where
  "dispatch e =
     (if erdhup e then [Call_Close (eerr e)]
      else
        (let error = eerr e;
             (calls, error) = (if \<not> ehup e \<and> eout e then ([Call_Write error], None) else ([], error));
             (calls, error) = (if \<not> ehup e \<and> ein e then (calls @ [Read error], None) else (calls, error))
         in case error of None \<Rightarrow> calls | Some x \<Rightarrow> calls @ [Call_Error x]))"

definition epoll_tell :: "epoll_event \<Rightarrow> 'd io \<Rightarrow> 'd io option" where
  "epoll_tell e s = (if icalls s = [] then Some (s\<lparr>iready := iready s \<and> \<not> ein e, icalls := dispatch e\<rparr>) else None)"

text \<open>
  \<open>read\<close> tests \<open>_reading\<close>, then counts and queues its action. \<open>write\<close> is below; of what it does, only \<open>_opened\<close> is seen by the
  reception. \<open>close\<close> does nothing for datagrams.
\<close>

definition io_read_check :: "net_error option \<Rightarrow> 'd io \<Rightarrow> 'd io" where
  "io_read_check error s =
     (if ireading s \<noteq> 0 \<and> error = None then s else s\<lparr>icalls := Read_Go error # icalls s\<rparr>)"

definition io_read_go :: "net_error option \<Rightarrow> 'd io \<Rightarrow> 'd io" where
  "io_read_go error s = s\<lparr>ireading := ireading s + 1, ithread := ithread s @ [Receive error]\<rparr>"

definition io_close :: "net_error option \<Rightarrow> 'd io \<Rightarrow> 'd io" where
  "io_close error s = (if \<not> istream s then s else s\<lparr>ithread := ithread s @ [Close_Socket error]\<rparr>)"

definition epoll_call :: "'d io \<Rightarrow> 'd io option" where
  "epoll_call s =
     (case icalls s of
        [] \<Rightarrow> None
      | c # cs \<Rightarrow>
          (let s = s\<lparr>icalls := cs\<rparr>
           in Some (case c of
                Read e \<Rightarrow> io_read_check e s
              | Read_Go e \<Rightarrow> io_read_go e s
              | Call_Write e \<Rightarrow> s\<lparr>iopened := True\<rparr>
              | Call_Close e \<Rightarrow> io_close e s
              | Call_Error e \<Rightarrow> s\<lparr>ithread := ithread s @ [Tell_Error e]\<rparr>)))"

section \<open>The actions\<close>

text \<open>The end of \<open>Action::run\<close>: an exception that is left is told by a handle.\<close>

definition action_end :: "net_error option \<Rightarrow> 'd io \<Rightarrow> 'd io" where
  "action_end ex s =
     (case ex of
        None \<Rightarrow> s\<lparr>irunning := None\<rparr>
      | Some e \<Rightarrow> s\<lparr>irunning := None, ihandler := ihandler s @ [Told_Error e]\<rparr>)"

text \<open>\<open>Close\<close>.\<close>

definition close_process :: "net_error option \<Rightarrow> 'd io \<Rightarrow> 'd io" where
  "close_process error s =
     s\<lparr>ireading := 0xFF,
       ihandler := ihandler s @ [Disconnected (if \<not> iopened s \<and> error = None then Some ECONNREFUSED else error)]\<rparr>"

text \<open>The first lines of the processes of \<open>Receive\<close> and \<open>Accept\<close>: \<open>if (!pSocket->_reading--)\<close>.\<close>

definition receive_begin :: "net_error option \<Rightarrow> 'd io \<Rightarrow> 'd io" where
  "receive_begin error s =
     (let s1 = s\<lparr>ireading := ireading s - 1\<rparr>
      in if ireading s = 0 then action_end error s1 else s1\<lparr>irunning := Some error\<rparr>)"

definition thread_take :: "'d io \<Rightarrow> 'd io option" where
  "thread_take s =
     (if irunning s \<noteq> None then None
      else case ithread s of
        [] \<Rightarrow> None
      | a # as \<Rightarrow>
          (let s = s\<lparr>ithread := as\<rparr>
           in Some (case a of
                Receive e \<Rightarrow> receive_begin e s
              | Close_Socket e \<Rightarrow> close_process e s
              | Tell_Error e \<Rightarrow> action_end (Some e) s)))"

text \<open>The constructor of the handle of \<open>Receive\<close>, and of \<open>Accept\<close>: it stops the loop when too much waits.\<close>

definition push_handle :: "nat \<Rightarrow> net_error option \<Rightarrow> 'd \<Rightarrow> 'd io \<Rightarrow> 'd io" where
  "push_handle weight ex d s =
     (let receiving = ireceiving s + of_nat weight;
          armed = (\<not> unat receiving < ilimit s);
          s = s\<lparr>ireceiving := receiving, ihandler := ihandler s @ [Got ex d armed]\<rparr>
      in if armed then s\<lparr>ireading := ireading s + 1, irunning := None\<rparr> else s\<lparr>irunning := Some None\<rparr>)"

text \<open>One turn of the loop of \<open>Receive\<close>.\<close>

definition receive_turn :: "('d \<Rightarrow> nat) \<Rightarrow> net_error option \<Rightarrow> 'd io \<Rightarrow> 'd io" where
  "receive_turn w ex s =
     (case ikernel s of
        [] \<Rightarrow> s\<lparr>irunning := None\<rparr>
      | Fault e # k \<Rightarrow>
          (if e = ESHUTDOWN then s\<lparr>ikernel := k, ireading := 0xFF, irunning := None\<rparr>
           else action_end (Some e) (s\<lparr>ikernel := k\<rparr>))
      | End_Of_Stream # k \<Rightarrow> action_end ex (s\<lparr>ireading := 0xFF\<rparr>)
      | Data d # k \<Rightarrow>
          (if w d = 0 \<and> istream s then action_end ex (s\<lparr>ireading := 0xFF\<rparr>)
           else push_handle (w d) ex d (s\<lparr>ikernel := k\<rparr>)))"

text \<open>One turn of the loop of \<open>Accept\<close>.\<close>

definition accept_turn :: "net_error option \<Rightarrow> 'd io \<Rightarrow> 'd io" where
  "accept_turn ex s =
     (case ikernel s of
        [] \<Rightarrow> s\<lparr>irunning := None\<rparr>
      | Fault e # k \<Rightarrow> action_end (Some e) (s\<lparr>ikernel := k\<rparr>)
      | End_Of_Stream # k \<Rightarrow> s\<lparr>irunning := None\<rparr>
      | Data d # k \<Rightarrow> push_handle 1 ex d (s\<lparr>ikernel := k\<rparr>))"

definition thread_turn :: "('d \<Rightarrow> nat) \<Rightarrow> 'd io \<Rightarrow> 'd io option" where
  "thread_turn w s =
     (case irunning s of
        None \<Rightarrow> None
      | Some ex \<Rightarrow> Some (if ilistening s then accept_turn ex s else receive_turn w ex s))"

section \<open>The handler\<close>

definition handler_take :: "'d io \<Rightarrow> 'd io option" where
  "handler_take s =
     (if ihandling s \<noteq> None then None
      else case ihandler s of
        [] \<Rightarrow> None
      | h # hs \<Rightarrow>
          (let s = s\<lparr>ihandler := hs\<rparr>
           in Some (case h of
                Got ex d armed \<Rightarrow>
                  s\<lparr>ierrors := ierrors s @ error_list ex, idelivered := idelivered s @ [d], ihandling := Some (d, armed)\<rparr>
              | Told_Error e \<Rightarrow> s\<lparr>ierrors := ierrors s @ [e]\<rparr>
              | Disconnected ex \<Rightarrow>
                  s\<lparr>ierrors := ierrors s @ error_list ex,
                    idisconnections := idisconnections s + (if ionDisconnection s then 1 else 0), ionDisconnection := False\<rparr>)))"

text \<open>What follows \<open>onReceived\<close>, and \<open>onAccept\<close>: the reception starts again, or is left to a handle that follows.\<close>

definition handler_after :: "('d \<Rightarrow> nat) \<Rightarrow> 'd io \<Rightarrow> 'd io option" where
  "handler_after w s =
     (case ihandling s of
        None \<Rightarrow> None
      | Some (d, armed) \<Rightarrow>
          (let receiving = ireceiving s - of_nat (if ilistening s then 1 else w d);
               s = s\<lparr>ireceiving := receiving, ihandling := None\<rparr>
           in Some (if \<not> armed then s
                    else if unat receiving < ilimit s then s\<lparr>ithread := ithread s @ [Receive None]\<rparr>
                    else s\<lparr>ireading := ireading s - 1\<rparr>)))"

section \<open>Runs\<close>

datatype 'd io_label = Arrives "'d incoming" | Epoll epoll_event | Epoll_Call | Thread_Take | Thread_Turn | Handler_Take | Handler_After

definition arrives :: "'d incoming \<Rightarrow> 'd io \<Rightarrow> 'd io" where
  "arrives x s =
     s\<lparr>ikernel := ikernel s @ [x], iready := True,
       iarrived := iarrived s @ (case x of Data d \<Rightarrow> [d] | _ \<Rightarrow> [])\<rparr>"

fun io_do :: "('d \<Rightarrow> nat) \<Rightarrow> 'd io_label \<Rightarrow> 'd io \<Rightarrow> 'd io option" where
  "io_do w (Arrives x) s = Some (arrives x s)"
| "io_do w (Epoll e) s = epoll_tell e s"
| "io_do w Epoll_Call s = epoll_call s"
| "io_do w Thread_Take s = thread_take s"
| "io_do w Thread_Turn s = thread_turn w s"
| "io_do w Handler_Take s = handler_take s"
| "io_do w Handler_After s = handler_after w s"

fun io_run :: "('d \<Rightarrow> nat) \<Rightarrow> 'd io_label list \<Rightarrow> 'd io \<Rightarrow> 'd io option" where
  "io_run w [] s = Some s"
| "io_run w (l # ls) s = (case io_do w l s of None \<Rightarrow> None | Some s \<Rightarrow> io_run w ls s)"

section \<open>What waits\<close>

text \<open>What waits for the handler, in order, with whether its handle starts the reception again.\<close>

fun got :: "'d io_handle \<Rightarrow> ('d \<times> bool) list" where
  "got (Got _ d armed) = [(d, armed)]"
| "got _ = []"

definition waiting :: "'d io \<Rightarrow> ('d \<times> bool) list" where
  "waiting s = (case ihandling s of None \<Rightarrow> [] | Some x \<Rightarrow> [x]) @ concat (map got (ihandler s))"

fun load :: "('d \<Rightarrow> nat) \<Rightarrow> ('d \<times> bool) list \<Rightarrow> nat" where
  "load v [] = 0"
| "load v ((d, a) # p) = v d + load v p"

definition armed_count :: "('d \<times> bool) list \<Rightarrow> nat" where
  "armed_count p = length (filter snd p)"

lemma armed_count_simps [simp]:
  "armed_count [] = 0" "armed_count ((d, a) # p) = (if a then 1 else 0) + armed_count p" "armed_count (p @ q) = armed_count p + armed_count q"
  by (simp_all add: armed_count_def)

lemma load_append [simp]: "load v (p @ q) = load v p + load v q"
  by (induction v p rule: load.induct) auto

text \<open>Whatever the end of what waits, it is over \<open>L\<close> by at most \<open>B\<close> for each of its handles that are armed.\<close>

fun bounded :: "('d \<Rightarrow> nat) \<Rightarrow> nat \<Rightarrow> nat \<Rightarrow> ('d \<times> bool) list \<Rightarrow> bool" where
  "bounded v L B [] = True"
| "bounded v L B ((d, a) # p) \<longleftrightarrow> v d + load v p \<le> L + armed_count ((d, a) # p) * B \<and> bounded v L B p"

lemma bounded_load: "bounded v L B p \<Longrightarrow> load v p \<le> L + armed_count p * B"
  by (cases p) auto

lemma bounded_snoc:
  "bounded v L B p \<Longrightarrow> v d \<le> B \<Longrightarrow> a \<or> load v p + v d \<le> L \<Longrightarrow> bounded v L B (p @ [(d, a)])"
proof (induction v L B p rule: bounded.induct)
  case (2 v L B x b p)
  then show ?case by (auto simp: algebra_simps)
qed auto

definition reads :: "io_call list \<Rightarrow> nat" where
  "reads cs = length (filter (\<lambda>c. c = Read None) cs)"

definition goes :: "io_call list \<Rightarrow> nat" where
  "goes cs = length (filter (\<lambda>c. c = Read_Go None) cs)"

lemma reads_simps [simp]:
  "reads [] = 0" "reads (c # cs) = (if c = Read None then 1 else 0) + reads cs"
  "goes [] = 0" "goes (c # cs) = (if c = Read_Go None then 1 else 0) + goes cs"
  by (simp_all add: reads_def goes_def)

text \<open>What will read again: the actions that wait or run, the handles that are armed, and a call that is decided.\<close>

definition tokens :: "'d io \<Rightarrow> nat" where
  "tokens s = length (ithread s) + (if irunning s = None then 0 else 1) + armed_count (waiting s) + goes (icalls s)"

definition weight :: "('d \<Rightarrow> nat) \<Rightarrow> 'd io \<Rightarrow> 'd \<Rightarrow> nat" where
  "weight w s d = (if ilistening s then 1 else w d)"

text \<open>Neither errors nor ends, and nothing of weight 0 or over \<open>B\<close>.\<close>

fun quiet_label :: "('d \<Rightarrow> nat) \<Rightarrow> nat \<Rightarrow> 'd io_label \<Rightarrow> bool" where
  "quiet_label v B (Arrives (Data d)) = (0 < v d \<and> v d \<le> B)"
| "quiet_label v B (Arrives _) = False"
| "quiet_label v B (Epoll e) = (eerr e = None \<and> \<not> ehup e \<and> \<not> erdhup e)"
| "quiet_label v B _ = True"

definition io_quiet :: "('d \<Rightarrow> nat) \<Rightarrow> nat \<Rightarrow> 'd io \<Rightarrow> bool" where
  "io_quiet v B s \<longleftrightarrow>
     list_all (\<lambda>x. case x of Data d \<Rightarrow> 0 < v d \<and> v d \<le> B | _ \<Rightarrow> False) (ikernel s) \<and>
     list_all (\<lambda>c. c = Read None \<or> c = Read_Go None \<or> c = Call_Write None) (icalls s) \<and>
     list_all (\<lambda>a. a = Receive None) (ithread s) \<and>
     irunning s \<in> {None, Some None} \<and>
     list_all (\<lambda>h. case h of Got ex d _ \<Rightarrow> ex = None | _ \<Rightarrow> False) (ihandler s)"

definition io_inv :: "('d \<Rightarrow> nat) \<Rightarrow> nat \<Rightarrow> 'd io \<Rightarrow> bool" where
  "io_inv v B s \<longleftrightarrow> io_quiet v B s \<and>
     reads (icalls s) + goes (icalls s) \<le> 1 \<and> tokens s \<le> 2 \<and>
     ireading s = of_nat (length (ithread s) + armed_count (waiting s)) \<and>
     ireceiving s = of_nat (load v (waiting s)) \<and>
     bounded v (ilimit s - 1) B (waiting s) \<and>
     (ikernel s \<noteq> [] \<longrightarrow> iready s \<or> reads (icalls s) > 0 \<or> tokens s > 0)"

lemma byte_small: "n \<le> 2 \<Longrightarrow> (of_nat n :: byte) = 0 \<longleftrightarrow> n = 0"
proof -
  assume "n \<le> 2"
  then have "unat (of_nat n :: byte) = n" by (simp add: unat_of_nat take_bit_nat_eq_self)
  then show ?thesis by (metis unat_eq_zero)
qed

lemma u32_load: "ireceiving s = of_nat (load v p) \<Longrightarrow> load v p < 2 ^ 32 \<Longrightarrow> unat (ireceiving s) = load v p"
  by (simp add: unat_of_nat take_bit_nat_eq_self)

lemma dispatch_quiet:
  assumes "eerr e = None" "\<not> ehup e" "\<not> erdhup e"
  shows "dispatch e = (if eout e then [Call_Write None] else []) @ (if ein e then [Read None] else [])"
  using assms by (simp add: dispatch_def)

text \<open>Every step keeps it.\<close>

lemma inv_arrives:
  assumes "io_inv v B s" "quiet_label v B (Arrives x)"
  shows "io_inv v B (arrives x s)"
  using assms by (cases x) (auto simp: io_inv_def io_quiet_def arrives_def waiting_def tokens_def)

lemma inv_epoll:
  assumes "io_inv v B s" "quiet_label v B (Epoll e)" "epoll_tell e s = Some s'"
  shows "io_inv v B s'"
proof -
  have c: "icalls s = []" and s': "s' = s\<lparr>iready := iready s \<and> \<not> ein e, icalls := dispatch e\<rparr>"
    using assms(3) by (auto simp: epoll_tell_def split: if_splits)
  have d: "dispatch e = (if eout e then [Call_Write None] else []) @ (if ein e then [Read None] else [])"
    by (rule dispatch_quiet) (use assms(2) in simp_all)
  have w: "waiting s' = waiting s" by (simp add: s' waiting_def)
  have "list_all (\<lambda>c. c = Read None \<or> c = Read_Go None \<or> c = Call_Write None) (dispatch e)" "goes (dispatch e) = 0"
    "reads (dispatch e) = (if ein e then 1 else 0)"
    by (simp_all add: d)
  then show ?thesis using assms(1) c unfolding io_inv_def io_quiet_def tokens_def w by (auto simp: s')
qed

lemma inv_call:
  assumes "io_inv v B s" "epoll_call s = Some s'"
  shows "io_inv v B s'"
proof -
  obtain c cs where c: "icalls s = c # cs" using assms(2) by (auto simp: epoll_call_def split: list.splits)
  then consider "c = Read None" | "c = Read_Go None" | "c = Call_Write None"
    using assms(1) by (auto simp: io_inv_def io_quiet_def)
  then show ?thesis
  proof cases
    case 1
    have n: "length (ithread s) + armed_count (waiting s) \<le> 2" using assms(1) by (simp add: io_inv_def tokens_def)
    show ?thesis
    proof (cases "ireading s = 0")
      case True
      then have "length (ithread s) + armed_count (waiting s) = 0" using assms(1) byte_small [OF n] by (simp add: io_inv_def)
      moreover have s': "s' = s\<lparr>icalls := Read_Go None # cs\<rparr>"
        using assms(2) c 1 True by (simp add: epoll_call_def io_read_check_def Let_def)
      moreover have "waiting s' = waiting s" by (simp add: s' waiting_def)
      ultimately show ?thesis using assms(1) c 1 by (auto simp: io_inv_def io_quiet_def tokens_def)
    next
      case False
      then have "length (ithread s) + armed_count (waiting s) > 0"
        by (rule_tac ccontr) (use assms(1) in \<open>simp add: io_inv_def\<close>)
      then have t: "tokens s > 0" by (auto simp: tokens_def)
      have s': "s' = s\<lparr>icalls := cs\<rparr>" using assms(2) c 1 False by (simp add: epoll_call_def io_read_check_def Let_def)
      have "waiting s' = waiting s" "tokens s' = tokens s" by (simp_all add: s' c 1 waiting_def tokens_def)
      then show ?thesis using assms(1) c 1 t by (auto simp: io_inv_def io_quiet_def s')
    qed
  next
    case 2
    then have s': "s' = s\<lparr>icalls := cs, ireading := ireading s + 1, ithread := ithread s @ [Receive None]\<rparr>"
      using assms(2) c by (simp add: epoll_call_def io_read_go_def Let_def)
    have "waiting s' = waiting s" "tokens s' = tokens s" by (simp_all add: s' c 2 waiting_def tokens_def)
    then show ?thesis using assms(1) c 2 by (auto simp: io_inv_def io_quiet_def s')
  next
    case 3
    then have s': "s' = s\<lparr>icalls := cs, iopened := True\<rparr>" using assms(2) c by (simp add: epoll_call_def Let_def)
    have "waiting s' = waiting s" "tokens s' = tokens s" by (simp_all add: s' c 3 waiting_def tokens_def)
    then show ?thesis using assms(1) c 3 by (auto simp: io_inv_def io_quiet_def s')
  qed
qed

lemma inv_take:
  assumes "io_inv v B s" "thread_take s = Some s'"
  shows "io_inv v B s'"
proof -
  obtain as where a: "ithread s = Receive None # as" "irunning s = None"
    using assms by (auto simp: thread_take_def io_inv_def io_quiet_def split: list.splits if_splits)
  have n: "length (ithread s) + armed_count (waiting s) \<le> 2" using assms(1) by (simp add: io_inv_def tokens_def)
  have "ireading s \<noteq> 0" using assms(1) a byte_small [OF n] by (simp add: io_inv_def)
  then show ?thesis using assms a
    by (auto simp: io_inv_def io_quiet_def thread_take_def receive_begin_def waiting_def tokens_def)
qed

lemma inv_turn:
  assumes "io_inv v B s" "thread_turn w s = Some s'" "v = weight w s" "0 < ilimit s" "ilimit s + 2 * B < 2 ^ 32"
  shows "io_inv v B s'"
proof -
  have r: "irunning s = Some None" using assms by (auto simp: thread_turn_def io_inv_def io_quiet_def)
  have n: "armed_count (waiting s) < 2" using assms(1) r by (simp add: io_inv_def tokens_def)
  show ?thesis
  proof (cases "ikernel s")
    case Nil
    then have "s' = s\<lparr>irunning := None\<rparr>"
      using assms(2) r by (auto simp: thread_turn_def accept_turn_def receive_turn_def split: if_splits)
    then show ?thesis using assms(1) Nil r by (auto simp: io_inv_def io_quiet_def waiting_def tokens_def)
  next
    case (Cons x k)
    then obtain d where d: "ikernel s = Data d # k" "0 < v d" "v d \<le> B"
      using assms(1) by (cases x) (auto simp: io_inv_def io_quiet_def)
    have s': "s' = push_handle (v d) None d (s\<lparr>ikernel := k\<rparr>)"
      using assms(2) r d assms(3) by (auto simp: thread_turn_def accept_turn_def receive_turn_def weight_def split: if_splits)
    define p where "p = waiting s"
    have b: "bounded v (ilimit s - 1) B p" "ireceiving s = of_nat (load v p)" using assms(1) by (simp_all add: io_inv_def p_def)
    have "load v p \<le> ilimit s - 1 + armed_count p * B" by (rule bounded_load [OF b(1)])
    moreover have "armed_count p * B \<le> B" using n by (cases "armed_count p") (auto simp: p_def)
    ultimately have l: "load v p + v d < 2 ^ 32" using assms(4,5) d(3) by linarith
    then have u: "unat (ireceiving s + of_nat (v d)) = load v p + v d"
      using b(2) by (simp add: unat_of_nat take_bit_nat_eq_self flip: of_nat_add)
    define armed where "armed = (\<not> load v p + v d < ilimit s)"
    define s2 where "s2 = s\<lparr>ikernel := k, ireceiving := ireceiving s + of_nat (v d), ihandler := ihandler s @ [Got None d armed]\<rparr>"
    have s2: "s' = (if armed then s2\<lparr>ireading := ireading s + 1, irunning := None\<rparr> else s2\<lparr>irunning := Some None\<rparr>)"
      using u by (simp add: s' push_handle_def Let_def armed_def s2_def)
    have w2: "waiting s' = p @ [(d, armed)]" by (simp add: s2 s2_def waiting_def p_def)
    have "bounded v (ilimit s - 1) B (p @ [(d, armed)])"
      by (rule bounded_snoc [OF b(1) d(3)]) (use assms(4) in \<open>auto simp: armed_def\<close>)
    then show ?thesis
      using assms(1) d r w2 b(2) unfolding s2 s2_def
      by (auto simp: io_inv_def io_quiet_def tokens_def p_def)
  qed
qed

lemma inv_handler_take:
  assumes "io_inv v B s" "handler_take s = Some s'"
  shows "io_inv v B s'"
proof -
  have n: "ihandling s = None" using assms(2) by (cases "ihandling s") (auto simp: handler_take_def)
  obtain x hs where x: "ihandler s = x # hs" using assms(2) n by (auto simp: handler_take_def split: list.splits)
  then obtain d a where "x = Got None d a" using assms(1) by (cases x) (auto simp: io_inv_def io_quiet_def)
  then have h: "ihandler s = Got None d a # hs" "ihandling s = None" using x n by simp_all
  then have s': "s' = s\<lparr>ihandler := hs, idelivered := idelivered s @ [d], ihandling := Some (d, a)\<rparr>"
    using assms(2) by (auto simp: handler_take_def error_list_def)
  then have "waiting s' = waiting s" using h by (simp add: waiting_def)
  then show ?thesis using assms(1) h by (auto simp: io_inv_def io_quiet_def tokens_def s')
qed

lemma inv_handler_after:
  assumes "io_inv v B s" "handler_after w s = Some s'" "v = weight w s" "0 < ilimit s" "ilimit s + 2 * B < 2 ^ 32"
  shows "io_inv v B s'"
proof -
  obtain d a where h: "ihandling s = Some (d, a)" using assms(2) by (auto simp: handler_after_def split: option.splits)
  define p where "p = concat (map got (ihandler s))"
  have w: "waiting s = (d, a) # p" using h by (simp add: waiting_def p_def)
  have b: "bounded v (ilimit s - 1) B p" "ireceiving s = of_nat (v d + load v p)" "armed_count p \<le> 2"
    using assms(1) by (auto simp: io_inv_def w tokens_def)
  have "load v p \<le> ilimit s - 1 + armed_count p * B" by (rule bounded_load [OF b(1)])
  moreover have "armed_count p * B \<le> 2 * B" using b(3) by (rule mult_le_mono1)
  ultimately have l: "load v p < 2 ^ 32" using assms(4,5) by linarith
  have rc: "ireceiving s - of_nat (if ilistening s then 1 else w d) = of_nat (load v p)"
    using b(2) by (simp add: assms(3) weight_def)
  have u: "unat (of_nat (load v p) :: u32) = load v p" using l by (simp add: unat_of_nat take_bit_nat_eq_self)
  define s2 where "s2 = s\<lparr>ireceiving := of_nat (load v p), ihandling := None\<rparr>"
  have s': "s' = (if \<not> a then s2 else if load v p < ilimit s then s2\<lparr>ithread := ithread s @ [Receive None]\<rparr>
                  else s2\<lparr>ireading := ireading s - 1\<rparr>)"
    using assms(2) h rc u by (auto simp: handler_after_def Let_def s2_def)
  have more': "\<not> load v p < ilimit s \<Longrightarrow> armed_count p > 0"
    using bounded_load [OF b(1)] assms(4) by (cases "armed_count p") auto
  have w': "waiting s' = p" by (simp add: s' s2_def waiting_def p_def)
  show ?thesis
    using assms(1) b w w' h more' unfolding s' s2_def
    by (auto simp: io_inv_def io_quiet_def tokens_def)
qed

lemma io_do_fixed: "io_do w l s = Some s' \<Longrightarrow> ilistening s' = ilistening s \<and> ilimit s' = ilimit s \<and> istream s' = istream s"
  by (cases l)
     (auto simp: arrives_def epoll_tell_def epoll_call_def io_read_check_def io_read_go_def io_close_def thread_take_def receive_begin_def
        action_end_def close_process_def thread_turn_def accept_turn_def receive_turn_def push_handle_def handler_take_def handler_after_def Let_def
      split: if_splits list.splits option.splits io_call.splits io_action.splits io_handle.splits incoming.splits)

lemma inv_do:
  assumes "io_inv (weight w s) B s" "quiet_label (weight w s) B l" "io_do w l s = Some s'" "0 < ilimit s" "ilimit s + 2 * B < 2 ^ 32"
  shows "io_inv (weight w s) B s'"
  using assms
  by (cases l) (auto intro: inv_arrives inv_epoll inv_call inv_take inv_turn inv_handler_take inv_handler_after)

lemma inv_run:
  assumes "io_inv (weight w s) B s" "list_all (quiet_label (weight w s) B) ls" "io_run w ls s = Some s'" "0 < ilimit s" "ilimit s + 2 * B < 2 ^ 32"
  shows "io_inv (weight w s) B s' \<and> ilistening s' = ilistening s \<and> ilimit s' = ilimit s"
  using assms
proof (induction ls arbitrary: s)
  case (Cons l ls)
  obtain s1 where d: "io_do w l s = Some s1" and r: "io_run w ls s1 = Some s'" using Cons.prems(3) by (auto split: option.splits)
  have k: "weight w s1 = weight w s" "ilimit s1 = ilimit s" "ilistening s1 = ilistening s"
    using io_do_fixed [OF d] by (auto simp: weight_def)
  have "quiet_label (weight w s) B l" using Cons.prems(2) by simp
  from inv_do [OF Cons.prems(1) this d Cons.prems(4,5)]
  show ?case using Cons.IH [of s1] r k Cons.prems(2,4,5) by simp
qed simp

lemma inv_new: "io_inv v B (io_socket stream listening limit)"
  by (simp add: io_inv_def io_quiet_def io_socket_def waiting_def tokens_def)

section \<open>Order\<close>

definition io_datas :: "'d incoming list \<Rightarrow> 'd list" where
  "io_datas k = concat (map (\<lambda>x. case x of Data d \<Rightarrow> [d] | _ \<Rightarrow> []) k)"

definition in_order :: "'d io \<Rightarrow> bool" where
  "in_order s \<longleftrightarrow> idelivered s @ map fst (concat (map got (ihandler s))) @ io_datas (ikernel s) = iarrived s"

lemma io_datas_simps [simp]:
  "io_datas [] = []" "io_datas (Data d # k) = d # io_datas k" "io_datas (End_Of_Stream # k) = io_datas k"
  "io_datas (Fault e # k) = io_datas k" "io_datas (k @ [x]) = io_datas k @ (case x of Data d \<Rightarrow> [d] | _ \<Rightarrow> [])"
  by (auto simp: io_datas_def)

lemma order_do: "io_do w l s = Some s' \<Longrightarrow> in_order s \<Longrightarrow> in_order s'"
  by (cases l)
     (auto simp: in_order_def arrives_def epoll_tell_def epoll_call_def io_read_check_def io_read_go_def io_close_def thread_take_def receive_begin_def
        action_end_def close_process_def thread_turn_def accept_turn_def receive_turn_def push_handle_def handler_take_def handler_after_def Let_def
      split: if_splits list.splits option.splits io_call.splits io_action.splits io_handle.splits incoming.splits)

text \<open>
  C25: Whatever the events, the errors and the interleaving of the three threads, what is delivered, then what waits for
  the handler, then what the system still has, is what arrived, in order, each once.
\<close>

theorem io_in_order:
  "case io_run w ls (io_socket stream listening limit) of
     Some s \<Rightarrow> idelivered s @ map fst (concat (map got (ihandler s))) @ io_datas (ikernel s) = iarrived s
   | None \<Rightarrow> True"
proof -
  have "in_order s'" if "io_run w ls s = Some s'" "in_order s" for s s' :: "'a io"
    using that by (induction ls arbitrary: s) (auto split: option.splits dest: order_do)
  moreover have "in_order (io_socket stream listening limit)" by (simp add: in_order_def io_socket_def)
  ultimately show ?thesis by (auto simp: in_order_def split: option.split)
qed

section \<open>How much waits\<close>

text \<open>
  C24: While the system tells data and readiness only, no error, no hang-up and no end of the stream (an error is read
  without the test of the counter, \<open>two_actions_read\<close>), what is received and not yet handled is under the limit of the socket, or over it by at most two
  receptions, and its counter is exact.
\<close>

theorem io_backpressure:
  assumes "io_run w ls (io_socket stream listening limit) = Some s"
    "list_all (quiet_label (if listening then (\<lambda>_. 1) else w) B) ls" "0 < limit" "limit + 2 * B < 2 ^ 32"
  shows "unat (ireceiving s) = load (if listening then (\<lambda>_. 1) else w) (waiting s) \<and> unat (ireceiving s) < limit + 2 * B"
proof -
  define v where "v = (if listening then (\<lambda>_. 1) else w)"
  let ?new = "io_socket stream listening limit :: 'a io"
  have v: "weight w ?new = v" by (auto simp: weight_def io_socket_def v_def)
  have l: "ilimit ?new = limit" by (simp add: io_socket_def)
  have q: "list_all (quiet_label v B) ls" using assms(2) by (simp add: v_def)
  have "io_inv v B s \<and> ilistening s = ilistening ?new \<and> ilimit s = ilimit ?new"
    using inv_run [of w ?new B ls s, unfolded v l] inv_new [of v B stream listening limit] assms(1,3,4) q l by simp
  then have i: "io_inv v B s" "ilimit s = limit" by (simp_all add: l)
  then have b: "bounded v (limit - 1) B (waiting s)" "ireceiving s = of_nat (load v (waiting s))" "armed_count (waiting s) \<le> 2"
    by (auto simp: io_inv_def tokens_def)
  have "load v (waiting s) \<le> limit - 1 + armed_count (waiting s) * B" by (rule bounded_load [OF b(1)])
  moreover have "armed_count (waiting s) * B \<le> 2 * B" using b(3) by (rule mult_le_mono1)
  ultimately have "load v (waiting s) < limit + 2 * B" using assms(3) by linarith
  then show ?thesis using u32_load [OF b(2)] assms(4) by (simp add: v_def)
qed

section \<open>No event is lost\<close>

definition handle_work :: "'d io_handle \<Rightarrow> nat" where
  "handle_work h = (case h of Got _ _ True \<Rightarrow> 4 | _ \<Rightarrow> 2)"

definition call_work :: "io_call \<Rightarrow> nat" where
  "call_work c = (case c of Read _ \<Rightarrow> 4 | Read_Go _ \<Rightarrow> 3 | _ \<Rightarrow> 1)"

definition io_work :: "'d io \<Rightarrow> nat" where
  "io_work s =
     (if iready s then 6 else 0) + sum_list (map call_work (icalls s)) + 4 * length (ikernel s) + 2 * length (ithread s) +
     (if irunning s = None then 0 else 1) + sum_list (map handle_work (ihandler s)) +
     (case ihandling s of None \<Rightarrow> 0 | Some (_, armed) \<Rightarrow> if armed then 3 else 1)"

text \<open>The steps of the program, and of the system that tells an arrival.\<close>

fun own_label :: "'d io_label \<Rightarrow> 'd io \<Rightarrow> bool" where
  "own_label (Arrives _) s = False"
| "own_label (Epoll e) s = (iready s \<and> ein e)"
| "own_label _ s = True"

fun own_run :: "('d \<Rightarrow> nat) \<Rightarrow> 'd io_label list \<Rightarrow> 'd io \<Rightarrow> 'd io option" where
  "own_run w [] s = Some s"
| "own_run w (l # ls) s =
     (if own_label l s then (case io_do w l s of None \<Rightarrow> None | Some s \<Rightarrow> own_run w ls s) else None)"

lemma work_do:
  assumes "io_inv v B s" "quiet_label v B l" "own_label l s" "io_do w l s = Some s'" "v = weight w s"
  shows "io_work s' < io_work s"
proof (cases l)
  case (Epoll e)
  then show ?thesis using assms
    by (auto simp: epoll_tell_def io_work_def dispatch_quiet call_work_def split: if_splits)
next
  case Epoll_Call
  then obtain c cs where c: "icalls s = c # cs" using assms(4) by (auto simp: epoll_call_def split: list.splits)
  then consider "c = Read None" | "c = Read_Go None" | "c = Call_Write None"
    using assms(1) by (auto simp: io_inv_def io_quiet_def)
  then show ?thesis
  proof cases
    case 1
    then have "s' = io_read_check None (s\<lparr>icalls := cs\<rparr>)" using assms(4) c Epoll_Call by (simp add: epoll_call_def Let_def)
    then show ?thesis using c 1 by (simp add: io_read_check_def io_work_def call_work_def)
  next
    case 2
    then have "s' = io_read_go None (s\<lparr>icalls := cs\<rparr>)" using assms(4) c Epoll_Call by (simp add: epoll_call_def Let_def)
    then show ?thesis using c 2 by (simp add: io_read_go_def io_work_def call_work_def)
  next
    case 3
    then have "s' = s\<lparr>icalls := cs, iopened := True\<rparr>" using assms(4) c Epoll_Call by (simp add: epoll_call_def Let_def)
    then show ?thesis using c 3 by (simp add: io_work_def call_work_def)
  qed
next
  case Thread_Take
  then obtain as where a: "ithread s = Receive None # as" "irunning s = None"
    using assms(1,4) by (auto simp: thread_take_def io_inv_def io_quiet_def split: list.splits if_splits)
  then show ?thesis using assms(4) Thread_Take
    by (cases "ireading s = 0") (auto simp: thread_take_def receive_begin_def action_end_def io_work_def Let_def)
next
  case Thread_Turn
  then have r: "irunning s = Some None" using assms(1,4) by (auto simp: thread_turn_def io_inv_def io_quiet_def)
  show ?thesis
  proof (cases "ikernel s")
    case Nil
    then show ?thesis using assms(4) r Thread_Turn
      by (auto simp: thread_turn_def accept_turn_def receive_turn_def io_work_def split: if_splits)
  next
    case (Cons x k)
    then obtain d where d: "ikernel s = Data d # k" "0 < v d"
      using assms(1) by (cases x) (auto simp: io_inv_def io_quiet_def)
    have "s' = push_handle (v d) None d (s\<lparr>ikernel := k\<rparr>)"
      using assms(4,5) r d Thread_Turn by (auto simp: thread_turn_def accept_turn_def receive_turn_def weight_def split: if_splits)
    then show ?thesis using d r by (auto simp: push_handle_def Let_def io_work_def handle_work_def)
  qed
next
  case Handler_Take
  have n: "ihandling s = None" using assms(4) Handler_Take by (cases "ihandling s") (auto simp: handler_take_def)
  obtain x hs where x: "ihandler s = x # hs" using assms(4) n Handler_Take by (auto simp: handler_take_def split: list.splits)
  then obtain d a where "x = Got None d a" using assms(1) by (cases x) (auto simp: io_inv_def io_quiet_def)
  then show ?thesis using assms(4) x n Handler_Take by (auto simp: handler_take_def io_work_def handle_work_def)
next
  case Handler_After
  then obtain d a where h: "ihandling s = Some (d, a)" using assms(4) by (auto simp: handler_after_def split: option.splits)
  define s1 where "s1 = s\<lparr>ireceiving := ireceiving s - of_nat (if ilistening s then 1 else w d), ihandling := None\<rparr>"
  have "s' = (if \<not> a then s1 else if unat (ireceiving s1) < ilimit s1 then s1\<lparr>ithread := ithread s1 @ [Receive None]\<rparr>
              else s1\<lparr>ireading := ireading s1 - 1\<rparr>)"
    using assms(4) h Handler_After by (auto simp: handler_after_def Let_def s1_def)
  moreover have "io_work s1 + (if a then 3 else 1) = io_work s" using h by (simp add: io_work_def s1_def)
  moreover have "io_work (s1\<lparr>ithread := ithread s1 @ [Receive None]\<rparr>) = io_work s1 + 2" "io_work (s1\<lparr>ireading := ireading s1 - 1\<rparr>) = io_work s1"
    by (simp_all add: io_work_def)
  ultimately show ?thesis by (cases a) simp_all
qed (use assms in auto)

lemma own_run_work:
  assumes "io_inv (weight w s) B s" "list_all (quiet_label (weight w s) B) ls" "own_run w ls s = Some s'" "0 < ilimit s" "ilimit s + 2 * B < 2 ^ 32"
  shows "length ls + io_work s' \<le> io_work s \<and> io_inv (weight w s) B s' \<and> ilistening s' = ilistening s \<and> ilimit s' = ilimit s"
  using assms
proof (induction ls arbitrary: s)
  case (Cons l ls)
  obtain s1 where o': "own_label l s" and d: "io_do w l s = Some s1" and r: "own_run w ls s1 = Some s'"
    using Cons.prems(3) by (auto split: option.splits if_splits)
  have k: "weight w s1 = weight w s" "ilimit s1 = ilimit s" "ilistening s1 = ilistening s"
    using io_do_fixed [OF d] by (auto simp: weight_def)
  have q: "quiet_label (weight w s) B l" using Cons.prems(2) by simp
  have "io_work s1 < io_work s" by (rule work_do [OF Cons.prems(1) q o' d refl])
  with inv_do [OF Cons.prems(1) q d Cons.prems(4,5)]
  show ?case using Cons.IH [of s1] r k Cons.prems(2,4,5) by simp
qed simp

text \<open>No thread has anything to do, and the system has nothing to tell.\<close>

definition at_rest :: "'d io \<Rightarrow> bool" where
  "at_rest s \<longleftrightarrow> \<not> iready s \<and> icalls s = [] \<and> ithread s = [] \<and> irunning s = None \<and> ihandler s = [] \<and> ihandling s = None"

lemma not_at_rest:
  assumes "\<not> at_rest s"
  obtains l where "own_label l s" "io_do w l s \<noteq> None" "\<And>v B. quiet_label v B l"
proof -
  have "(\<exists>l. own_label l s \<and> io_do w l s \<noteq> None \<and> (\<forall>v B. quiet_label v B l))"
  proof (cases "icalls s = [] \<and> iready s")
    case True
    then show ?thesis
      by (intro exI [of _ "Epoll \<lparr>ein = True, eout = False, eerr = None, ehup = False, erdhup = False\<rparr>"])
         (simp add: epoll_tell_def)
  next
    case False
    then consider "icalls s \<noteq> []" | "irunning s \<noteq> None" | "irunning s = None" "ithread s \<noteq> []" | "ihandling s \<noteq> None"
      | "ihandling s = None" "ihandler s \<noteq> []"
      using assms False unfolding at_rest_def by metis
    then show ?thesis
    proof cases
      case 1 then show ?thesis by (intro exI [of _ Epoll_Call]) (auto simp: epoll_call_def Let_def split: list.split)
    next
      case 2 then show ?thesis by (intro exI [of _ Thread_Turn]) (auto simp: thread_turn_def)
    next
      case 3 then show ?thesis by (intro exI [of _ Thread_Take]) (auto simp: thread_take_def Let_def split: list.split)
    next
      case 4 then show ?thesis by (intro exI [of _ Handler_After]) (auto simp: handler_after_def Let_def)
    next
      case 5 then show ?thesis by (intro exI [of _ Handler_Take]) (auto simp: handler_take_def Let_def split: list.split)
    qed
  qed
  then show thesis using that by blast
qed

text \<open>
  C23: While the system tells data and readiness only, no error, no hang-up and no end of the stream (see \<open>last_bytes_lost\<close>),
  no arrival is lost by the counter \<open>_reading\<close>: from whatever state, the steps of the program are at most \<open>io_work\<close>, however they interleave, and when none is left all that arrived is delivered, in order.
\<close>

theorem io_delivers:
  assumes "io_run w ls (io_socket stream listening limit) = Some s"
    "list_all (quiet_label (if listening then (\<lambda>_. 1) else w) B) (ls @ ls')" "0 < limit" "limit + 2 * B < 2 ^ 32"
    "own_run w ls' s = Some s'"
  shows "length ls' \<le> io_work s \<and> (if at_rest s' then idelivered s' = iarrived s' else \<exists>l. own_label l s' \<and> io_do w l s' \<noteq> None)"
proof -
  define v where "v = (if listening then (\<lambda>_. 1) else w)"
  let ?new = "io_socket stream listening limit :: 'a io"
  have v: "weight w ?new = v" by (auto simp: weight_def io_socket_def v_def)
  have l: "ilimit ?new = limit" by (simp add: io_socket_def)
  have q: "list_all (quiet_label v B) ls" "list_all (quiet_label v B) ls'" using assms(2) by (simp_all add: v_def)
  have "io_inv v B s \<and> ilistening s = ilistening ?new \<and> ilimit s = ilimit ?new"
    using inv_run [of w ?new B ls s, unfolded v l] inv_new [of v B stream listening limit] assms(1,3,4) q(1) l by simp
  then have i: "io_inv v B s" "ilimit s = limit" "weight w s = v"
    by (auto simp: weight_def v_def io_socket_def)
  have o': "length ls' + io_work s' \<le> io_work s \<and> io_inv v B s'"
    using own_run_work [of w s B ls' s'] i q(2) assms(3,4,5) by simp
  have order: "in_order s'"
  proof -
    have run: "in_order b" if "own_run w xs a = Some b" "in_order a" for xs and a b :: "'a io"
      using that by (induction xs arbitrary: a) (auto split: option.splits if_splits dest: order_do)
    have "in_order s" using io_in_order [of w ls stream listening limit] assms(1) by (simp add: in_order_def)
    then show ?thesis using run assms(5) by blast
  qed
  show ?thesis
  proof (cases "at_rest s'")
    case True
    then have "ikernel s' = []" using o' by (auto simp: at_rest_def io_inv_def tokens_def waiting_def)
    then show ?thesis using order True o' by (simp add: in_order_def at_rest_def)
  next
    case False
    obtain l' where "own_label l' s'" "io_do w l' s' \<noteq> None" by (rule not_at_rest [OF False])
    then show ?thesis using False o' by auto
  qed
qed

section \<open>Sending\<close>

text \<open>\<open>write\<close>: \<open>_opened\<close>, and whether a \<open>Send\<close> is queued. The first event is the connection.\<close>

definition io_write :: "bool \<Rightarrow> net_error option \<Rightarrow> socket \<Rightarrow> bool \<times> bool" where
  "io_write opened error s =
     (if \<not> opened then (True, True)
      else if error = None \<and> \<not> ksending s then (opened, False)
      else (opened, True))"

datatype send_handle = Flush_Handle "sock_ex option" | Error_Handle sock_ex

text \<open>The process of \<open>Send\<close> with the end of \<open>run\<close>: the handles that are queued.\<close>

definition send_process :: "net_error option \<Rightarrow> socket \<Rightarrow> (send_handle list \<times> socket) option" where
  "send_process error s =
     (case Socket_flush False (map_option Ex_Socket error) s of
        None \<Rightarrow> None
      | Some (fine, ex, s) \<Rightarrow>
          Some (if \<not> fine then [Error_Handle (case ex of None \<Rightarrow> Ex_Socket No_Error | Some e \<Rightarrow> e)]
                else if kqueueing s = 0 then [Flush_Handle ex]
                else (case ex of None \<Rightarrow> [] | Some e \<Rightarrow> [Error_Handle e]), s))"

text \<open>What the handler tells: \<open>onError\<close>, and whether \<open>onFlush\<close>.\<close>

definition send_handle_run :: "send_handle \<Rightarrow> socket \<Rightarrow> sock_ex option \<times> bool" where
  "send_handle_run h s =
     (case h of Error_Handle e \<Rightarrow> (Some e, False) | Flush_Handle ex \<Rightarrow> (ex, kqueueing s = 0))"

lemma sendTo_all:
  assumes "kex s = None" "kanswers s = ok (length data) # rest"
  shows "\<exists>s'. sendTo data address flags ex s = Some (int (length data), ex, s') \<and> kanswers s' = rest \<and> (honest_log s' \<longleftrightarrow> honest_log s)"
  using assms by (auto simp: sendTo_def retry.simps [of _ s] answered_def ok_def Let_def honest_log_def)

lemma flush_loop_all:
  "kex s = None \<Longrightarrow> kanswers s = map (\<lambda>x. ok (length (fst x))) q @ rest \<Longrightarrow>
     \<exists>w' s'. flush_loop q w ex s = Some (True, w', [], ex, s') \<and> kanswers s' = rest \<and> (honest_log s' \<longleftrightarrow> honest_log s)"
proof (induction q arbitrary: w s)
  case (Cons x q)
  obtain data address flags where x: "x = (data, address, flags)" by (cases x)
  obtain s1 where r: "sendTo data address flags ex s = Some (int (length data), ex, s1)"
    and a: "kanswers s1 = map (\<lambda>x. ok (length (fst x))) q @ rest" and h: "honest_log s1 \<longleftrightarrow> honest_log s"
    using sendTo_all [OF Cons.prems(1), of data _ address flags ex] Cons.prems(2) x by auto
  have "kex s1 = None" using sendTo_log [OF r] Cons.prems(1) by (simp add: same_queue_def)
  from Cons.IH [OF this a] show ?case by (simp add: x r h)
qed simp

text \<open>
  C26: While something waits, an event of the system that the socket can be written queues a flush; when the system
  takes all, the queue is sent, in order, \<open>_sending\<close> is cleared and \<open>onFlush\<close> is told.
\<close>

theorem io_write_flushes:
  assumes "ktype s = TYPE_STREAM" "kex s = None" "queue_ok s" "ksendings s \<noteq> []" "queue_size (ksendings s) < 2 ^ 32" "honest_log s"
    "kanswers s = map (\<lambda>x. ok (length (fst x))) (ksendings s) @ rest"
  shows "io_write True None s = (True, True) \<and>
    (\<exists>s'. send_process None s = Some ([Flush_Handle None], s') \<and> send_handle_run (Flush_Handle None) s' = (None, True) \<and>
       ksendings s' = [] \<and> \<not> ksending s' \<and> taken s' = taken s @ queued s \<and> kanswers s' = rest)"
proof -
  obtain w s1 where l: "flush_loop (ksendings s) 0 None s = Some (True, w, [], None, s1)" and a: "kanswers s1 = rest"
    and h1: "honest_log s1" using flush_loop_all [OF assms(2,7)] assms(6) by blast
  obtain s' where f: "Socket_flush False None s = Some (True, None, s')" and q: "ksendings s' = []" "kanswers s' = rest"
    and h: "honest_log s'"
    using l a h1 by (cases "w = 0"; cases "kqueueing s1 - ucast w = 0") (auto simp: Socket_flush_def Let_def)
  have t: "taken s' = taken s @ queued s" using flush_stream(2) [OF assms(1) f] q by (simp add: queued_def)
  have ok': "queue_ok s'" by (rule flush_counts(1) [OF assms(3,5) f h])
  then have k: "kqueueing s' = 0" using q by (simp add: queue_ok_def)
  have "\<not> ksending s'" by (rule flush_counts(4) [OF assms(3,5) f h assms(4) q(1)])
  moreover have "ksending s" using assms(3,4) by (simp add: queue_ok_def)
  ultimately show ?thesis using f k q t by (simp add: io_write_def send_process_def send_handle_run_def)
qed

section \<open>Examples\<close>

definition in_event :: epoll_event where
  "in_event = \<lparr>ein = True, eout = False, eerr = None, ehup = False, erdhup = False\<rparr>"

text \<open>Two arrivals; the second one is read while the first one waits, and is over the limit of 4 bytes.\<close>

definition example_before :: "byte list io_label list" where
  "example_before = [Arrives (Data [1, 2, 3]), Epoll in_event, Epoll_Call, Epoll_Call, Arrives (Data [4, 5]), Thread_Take, Thread_Turn, Thread_Turn]"

definition example_after :: "byte list io_label list" where
  "example_after = [Epoll in_event, Epoll_Call, Handler_Take, Handler_After, Handler_Take, Handler_After, Thread_Take, Thread_Turn]"

lemma example_io:
  "(case io_run length example_before (io_socket True False 4) of
      Some s \<Rightarrow> unat (ireceiving s) = 5 \<and>
        (case own_run length example_after s of
           Some s' \<Rightarrow> at_rest s' \<and> idelivered s' = [[1, 2, 3], [4, 5]] \<and> iarrived s' = [[1, 2, 3], [4, 5]] | None \<Rightarrow> False)
    | None \<Rightarrow> False)"
  by code_simp

lemma example_quiet:
  "list_all (quiet_label (if False then (\<lambda>_. 1) else length) 3) (example_before @ example_after)"
  by (simp add: example_before_def example_after_def in_event_def)

theorem io_backpressure_witness:
  "case io_run length example_before (io_socket True False 4) of
     Some s \<Rightarrow> unat (ireceiving s) = load length (waiting s) \<and> unat (ireceiving s) < 4 + 2 * 3
   | None \<Rightarrow> False"
proof -
  obtain s where r: "io_run length example_before (io_socket True False 4) = Some s"
    using example_io by (auto split: option.splits)
  have "list_all (quiet_label (if False then (\<lambda>_. 1) else length) 3) example_before" using example_quiet by simp
  from io_backpressure [OF r this] show ?thesis using r by simp
qed

theorem io_delivers_witness:
  "case io_run length example_before (io_socket True False 4) of
     Some s \<Rightarrow> length example_after \<le> io_work s \<and>
       (case own_run length example_after s of Some s' \<Rightarrow> idelivered s' = iarrived s' | None \<Rightarrow> False)
   | None \<Rightarrow> False"
proof -
  obtain s s' where r: "io_run length example_before (io_socket True False 4) = Some s" "own_run length example_after s = Some s'"
    and a: "at_rest s'"
    using example_io by (auto split: option.splits)
  from io_delivers [OF r(1) example_quiet _ _ r(2)] a show ?thesis using r by simp
qed

definition example_waiting :: socket where
  "example_waiting = (open_socket TYPE_STREAM [ok 2, ok 1])
     \<lparr>ksendings := [([1, 2], IPImpl_wildcard IPv4, 0), ([3], IPImpl_wildcard IPv4, 0)], kqueueing := 3, ksending := True\<rparr>"

theorem io_write_flushes_witness:
  "io_write True None example_waiting = (True, True) \<and>
    (\<exists>s'. send_process None example_waiting = Some ([Flush_Handle None], s') \<and> taken s' = [1, 2, 3])"
proof -
  let ?s = example_waiting
  have a: "ktype ?s = TYPE_STREAM" "kex ?s = None" "queue_ok ?s" "ksendings ?s \<noteq> []" "queue_size (ksendings ?s) < 2 ^ 32" "honest_log ?s"
    "taken ?s = []" "queued ?s = [1, 2, 3]"
    by (simp_all add: example_waiting_def open_socket_def blank_socket_def queue_ok_def honest_log_def taken_def queued_def)
  have k: "kanswers ?s = map (\<lambda>x. ok (length (fst x))) (ksendings ?s) @ []"
    by (simp add: example_waiting_def open_socket_def blank_socket_def numeral_2_eq_2)
  from io_write_flushes [OF a(1-6) k] show ?thesis by (auto simp: a(7,8))
qed

section \<open>What goes wrong\<close>

text \<open>
  The last bytes and the end of a stream told by one event: the event is taken as a disconnection, which blocks the
  reception, and the bytes are never read.
\<close>

lemma last_bytes_lost:
  "(case io_run length
           [Epoll (in_event\<lparr>ein := False, eout := True\<rparr>), Epoll_Call, Arrives (Data [1, 2, 3]), Arrives End_Of_Stream,
            Epoll (in_event\<lparr>erdhup := True\<rparr>), Epoll_Call, Thread_Take, Handler_Take] (io_socket True False 4) of
      Some s \<Rightarrow> at_rest s \<and> idelivered s = [] \<and> idisconnections s = 1 \<and> ireading s = 0xFF
    | None \<Rightarrow> False)"
  by code_simp

text \<open>The error of an event is forgotten when there is nothing to receive.\<close>

lemma event_error_lost:
  "(case io_run length
           [Epoll (in_event\<lparr>eerr := Some ECONNREFUSED\<rparr>), Epoll_Call, Epoll_Call, Thread_Take, Thread_Turn] (io_socket True False 4) of
      Some s \<Rightarrow> at_rest s \<and> ierrors s = []
    | None \<Rightarrow> False)"
  by code_simp

text \<open>A counter that is not 0 with an empty queue, which a datagram in error leaves, never tells \<open>onFlush\<close> again.\<close>

lemma no_flush_after_error:
  "ksendings s = [] \<Longrightarrow> kqueueing s \<noteq> 0 \<Longrightarrow> send_process None s = Some ([], s)"
  by (simp add: send_process_def Socket_flush_def)

text \<open>
  The test of \<open>_reading\<close> by an action is never what its comment says, that another action waits: two actions both read.
\<close>

lemma two_actions_read:
  "(case io_run length
           [Epoll (in_event\<lparr>eerr := Some ECONNREFUSED\<rparr>), Epoll_Call, Epoll_Call,
            Epoll (in_event\<lparr>eerr := Some ECONNREFUSED\<rparr>), Epoll_Call, Epoll_Call, Thread_Take] (io_socket True False 4 :: byte list io) of
      Some s \<Rightarrow> length (ithread s) = 1 \<and> irunning s \<noteq> None
    | None \<Rightarrow> False)"
  by code_simp

end
