(* ===== verification/Tcp_Clients.thy ===== *)
theory Tcp_Clients
  imports Sockets Stream_Data
begin

text \<open>
  Mona/Net/TCPClient.cpp, TCPServer.cpp and UDPSocket.cpp: who has a socket, when it is subscribed to IOSocket, and what is told to
  the user. A new socket and the answer of \<open>io.subscribe\<close> with its exception are parameters of the calls that may need
  them; a socket has a number, its identity. What is told is a history; the functions of the user do not call the object back.
  None is a call of the system that has not returned.
  The lemmas show that a disconnection is told once, with its address, and what a disconnection leaves.
\<close>

section \<open>TCPClient\<close>

datatype told = Told_Socket_Error "sock_ex option" | Told_Too_Long | Told_Data | Told_Socket_Flush | Told_Disconnected IPImpl

type_synonym subscription = "bool \<times> sock_ex option"

record 's tcp_client =
  csocket :: "(nat \<times> socket) option"
  cconnected :: bool
  csubscribed :: bool
  cstream :: "'s \<times> byte list option"
  ctold :: "told list"
  cmade :: nat

definition TCPClient :: "'s \<Rightarrow> 's tcp_client" where
  "TCPClient parser =
     \<lparr>csocket = None, cconnected = False, csubscribed = False, cstream = (parser, None), ctold = [], cmade = 0\<rparr>"

definition tell :: "told \<Rightarrow> 's tcp_client \<Rightarrow> 's tcp_client" where
  "tell t c = c\<lparr>ctold := ctold c @ [t]\<rparr>"

text \<open>\<open>socket()\<close>.\<close>

definition client_socket :: "nat \<times> socket \<Rightarrow> subscription \<Rightarrow> 's tcp_client \<Rightarrow> 's tcp_client" where
  "client_socket new sub c =
     (if csocket c \<noteq> None then c
      else
        (let c = c\<lparr>csocket := Some new, csubscribed := fst sub, cmade := cmade c + 1\<rparr>
         in if \<not> fst sub \<or> snd sub \<noteq> None then tell (Told_Socket_Error (snd sub)) c else c))"

definition client_disconnect :: "'s tcp_client \<Rightarrow> 's tcp_client" where
  "client_disconnect c =
     (case csocket c of
        None \<Rightarrow> c
      | Some (_, s) \<Rightarrow>
          (let c = c\<lparr>cconnected := False, csubscribed := False, csocket := None\<rparr>
           in if \<not> is_set (kpeer s) then c
              else tell (Told_Disconnected (kpeer s)) (c\<lparr>cstream := clearStreamData (cstream c)\<rparr>)))"

definition client_connect ::
  "nat \<times> socket \<Rightarrow> subscription \<Rightarrow> IPImpl \<Rightarrow> sock_ex option \<Rightarrow> 's tcp_client \<Rightarrow> (bool \<times> sock_ex option \<times> 's tcp_client) option" where
  "client_connect new sub address ex c =
     (let c = client_socket new sub c
      in case csocket c of
           None \<Rightarrow> None
         | Some (i, s) \<Rightarrow>
             (case Socket_connect address 0 ex s of
                None \<Rightarrow> None
              | Some (fine, ex, s) \<Rightarrow>
                  (let c = c\<lparr>csocket := Some (i, s)\<rparr>
                   in Some (if \<not> fine then (False, ex, client_disconnect c)
                            else (True, if ex_code ex = EWOULDBLOCK then None else ex, c)))))"

text \<open>\<open>connect\<close> with a socket that is connected; \<open>sub\<close> is the answer of its subscription.\<close>

definition client_attach ::
  "nat \<times> socket \<Rightarrow> subscription \<Rightarrow> sock_ex option \<Rightarrow> 's tcp_client \<Rightarrow> (bool \<times> sock_ex option \<times> 's tcp_client) option" where
  "client_attach new sub ex c =
     (case new of (i, s) \<Rightarrow>
        if \<not> is_set (kpeer s) then Some (False, SetException ENOTCONN s, c)
        else
          (let attach = (if \<not> fst sub then Some (False, snd sub, c)
                         else Some (True, (if snd sub = None then ex else snd sub),
                                    c\<lparr>csubscribed := True, csocket := Some (i, s), cmade := cmade c + 1\<rparr>))
           in case csocket c of
                None \<Rightarrow> attach
              | Some (j, t) \<Rightarrow>
                  if i = j then client_connect new sub (kpeer t) ex c
                  else if is_set (kpeer t) then Some (False, SetException EISCONN t, c)
                  else attach))"

text \<open>\<open>_onReceived\<close> and \<open>_onFlush\<close>, which a subscribed socket calls.\<close>

definition client_received :: "'s parser \<Rightarrow> byte list \<Rightarrow> 's tcp_client \<Rightarrow> 's tcp_client option" where
  "client_received parse packet c =
     (case csocket c of
        None \<Rightarrow> None
      | Some (i, s) \<Rightarrow>
          (case addStreamData parse (nat (krecvsize s)) packet (cstream c) of
             (fine, st) \<Rightarrow>
               (let c = tell Told_Data (c\<lparr>cconnected := True, cstream := st\<rparr>)
                in if fine then Some c
                   else map_option (\<lambda>(_, s). tell Told_Too_Long (c\<lparr>csocket := Some (i, s)\<rparr>)) (Socket_shutdown SHUTDOWN_RECV s))))"

definition client_flushed :: "'s tcp_client \<Rightarrow> 's tcp_client" where
  "client_flushed c = tell Told_Socket_Flush (c\<lparr>cconnected := True\<rparr>)"

definition client_send :: "byte list \<Rightarrow> u32 \<Rightarrow> sock_ex option \<Rightarrow> 's tcp_client \<Rightarrow> (bool \<times> sock_ex option \<times> 's tcp_client) option" where
  "client_send packet flags ex c =
     (case csocket c of
        None \<Rightarrow> Some (False, Some (Ex_Socket ENOTCONN), c)
      | Some (i, s) \<Rightarrow>
          (if \<not> is_set (kpeer s) then Some (False, Some (Ex_Socket ENOTCONN), c)
           else map_option (\<lambda>(sent, ex, s). (sent \<noteq> -1, ex, c\<lparr>csocket := Some (i, s)\<rparr>))
                  (Socket_write packet (IPImpl_wildcard IPv4) flags ex s)))"

definition connecting :: "'s tcp_client \<Rightarrow> bool" where
  "connecting c \<longleftrightarrow> (case csocket c of None \<Rightarrow> False | Some (_, s) \<Rightarrow> \<not> cconnected c \<and> is_set (kpeer s))"

section \<open>TCPServer\<close>

record tcp_server =
  vsocket :: "socket option"
  vsubscribed :: bool

definition TCPServer :: tcp_server where
  "TCPServer = \<lparr>vsocket = None, vsubscribed = False\<rparr>"

definition server_stop :: "tcp_server \<Rightarrow> tcp_server" where
  "server_stop v = v\<lparr>vsubscribed := False, vsocket := None\<rparr>"

definition server_running :: "tcp_server \<Rightarrow> bool" where
  "server_running v \<longleftrightarrow> (case vsocket v of None \<Rightarrow> False | Some s \<Rightarrow> klistening s)"

definition server_start ::
  "int \<Rightarrow> socket \<Rightarrow> subscription \<Rightarrow> IPImpl \<Rightarrow> sock_ex option \<Rightarrow> tcp_server \<Rightarrow> (bool \<times> sock_ex option \<times> tcp_server) option" where
  "server_start somaxconn new sub address ex v =
     (let s = (case vsocket v of None \<Rightarrow> new | Some s \<Rightarrow> s)
      in case Socket_bind address ex s of
           None \<Rightarrow> None
         | Some (False, ex, s) \<Rightarrow> Some (False, ex, server_stop (v\<lparr>vsocket := Some s\<rparr>))
         | Some (True, ex, s) \<Rightarrow>
             (case Socket_listen somaxconn ex s of
                None \<Rightarrow> None
              | Some (False, ex, s) \<Rightarrow> Some (False, ex, server_stop (v\<lparr>vsocket := Some s\<rparr>))
              | Some (True, ex, s) \<Rightarrow>
                  (let v = v\<lparr>vsocket := Some s, vsubscribed := fst sub\<rparr>; ex = (if snd sub = None then ex else snd sub)
                   in Some (if fst sub then (True, ex, v) else (False, ex, server_stop v)))))"

section \<open>UDPSocket\<close>

record udp_socket =
  usocket :: "socket option"
  usubscribed :: bool
  utold :: "told list"

definition UDPSocket :: udp_socket where
  "UDPSocket = \<lparr>usocket = None, usubscribed = False, utold = []\<rparr>"

definition udp_socket_get :: "socket \<Rightarrow> subscription \<Rightarrow> udp_socket \<Rightarrow> udp_socket" where
  "udp_socket_get new sub u =
     (if usocket u \<noteq> None then u
      else
        (let u = u\<lparr>usocket := Some new, usubscribed := fst sub\<rparr>
         in if \<not> fst sub \<or> snd sub \<noteq> None then u\<lparr>utold := utold u @ [Told_Socket_Error (snd sub)]\<rparr> else u))"

definition udp_close :: "udp_socket \<Rightarrow> udp_socket" where
  "udp_close u = u\<lparr>usubscribed := False, usocket := None\<rparr>"

definition udp_connect ::
  "socket \<Rightarrow> subscription \<Rightarrow> IPImpl \<Rightarrow> sock_ex option \<Rightarrow> udp_socket \<Rightarrow> (bool \<times> sock_ex option \<times> udp_socket) option" where
  "udp_connect new sub address ex u =
     (let u = udp_socket_get new sub u
      in case usocket u of
           None \<Rightarrow> None
         | Some s \<Rightarrow>
             map_option (\<lambda>(fine, ex, s). (fine, ex, if fine then u\<lparr>usocket := Some s\<rparr> else udp_close u)) (Socket_connect address 0 ex s))"

definition udp_bind ::
  "socket \<Rightarrow> subscription \<Rightarrow> IPImpl \<Rightarrow> sock_ex option \<Rightarrow> udp_socket \<Rightarrow> (bool \<times> sock_ex option \<times> udp_socket) option" where
  "udp_bind new sub address ex u =
     (let u = udp_socket_get new sub u
      in case usocket u of
           None \<Rightarrow> None
         | Some s \<Rightarrow>
             map_option (\<lambda>(fine, ex, s). (fine, ex, if fine then u\<lparr>usocket := Some s\<rparr> else udp_close u)) (Socket_bind address ex s))"

definition udp_disconnect :: "udp_socket \<Rightarrow> udp_socket option" where
  "udp_disconnect u =
     (case usocket u of
        None \<Rightarrow> Some u
      | Some s \<Rightarrow>
          map_option (\<lambda>(fine, ex, s).
            (let u = u\<lparr>usocket := Some s\<rparr>
             in if \<not> fine \<or> ex \<noteq> None then u\<lparr>utold := utold u @ [Told_Socket_Error ex]\<rparr> else u))
            (Socket_connect (IPImpl_wildcard IPv4) 0 None s))"

definition udp_send ::
  "socket \<Rightarrow> subscription \<Rightarrow> byte list \<Rightarrow> IPImpl \<Rightarrow> u32 \<Rightarrow> sock_ex option \<Rightarrow> udp_socket \<Rightarrow> (bool \<times> sock_ex option \<times> udp_socket) option" where
  "udp_send new sub packet address flags ex u =
     (let u = udp_socket_get new sub u
      in case usocket u of
           None \<Rightarrow> None
         | Some s \<Rightarrow>
             map_option (\<lambda>(sent, ex, s). (sent \<noteq> -1, ex, u\<lparr>usocket := Some s\<rparr>)) (Socket_write packet address flags ex s))"

section \<open>Disconnections\<close>

text \<open>What the user and IOSocket call; the calls of IOSocket come only from a socket that is subscribed.\<close>

datatype tcp_op =
  Tcp_Connect "nat \<times> socket" subscription IPImpl | Tcp_Attach "nat \<times> socket" subscription | Tcp_Disconnect
| Tcp_Send "byte list" u32 | Tcp_Received "byte list" | Tcp_Flushed | Tcp_Disconnected

fun tcp_do :: "'s parser \<Rightarrow> tcp_op \<Rightarrow> 's tcp_client \<Rightarrow> 's tcp_client option" where
  "tcp_do parse (Tcp_Connect new sub address) c = map_option (\<lambda>(_, _, c). c) (client_connect new sub address None c)"
| "tcp_do parse (Tcp_Attach new sub) c = map_option (\<lambda>(_, _, c). c) (client_attach new sub None c)"
| "tcp_do parse Tcp_Disconnect c = Some (client_disconnect c)"
| "tcp_do parse (Tcp_Send packet flags) c = map_option (\<lambda>(_, _, c). c) (client_send packet flags None c)"
| "tcp_do parse (Tcp_Received packet) c = (if csubscribed c then client_received parse packet c else Some c)"
| "tcp_do parse Tcp_Flushed c = (if csubscribed c then Some (client_flushed c) else Some c)"
| "tcp_do parse Tcp_Disconnected c = (if csubscribed c then Some (client_disconnect c) else Some c)"

fun tcp_run :: "'s parser \<Rightarrow> tcp_op list \<Rightarrow> 's tcp_client \<Rightarrow> 's tcp_client option" where
  "tcp_run parse [] c = Some c"
| "tcp_run parse (x # xs) c = (case tcp_do parse x c of None \<Rightarrow> None | Some c \<Rightarrow> tcp_run parse xs c)"

fun is_disconnected :: "told \<Rightarrow> bool" where
  "is_disconnected (Told_Disconnected _) = True"
| "is_disconnected _ = False"

definition disconnections :: "'s tcp_client \<Rightarrow> nat" where
  "disconnections c = length (filter is_disconnected (ctold c))"

definition tcp_ok :: "'s tcp_client \<Rightarrow> bool" where
  "tcp_ok c \<longleftrightarrow> disconnections c + (if csocket c = None then 0 else 1) \<le> cmade c \<and>
     (csocket c = None \<longrightarrow> \<not> cconnected c \<and> \<not> csubscribed c)"

lemma ok_set_socket: "tcp_ok c \<Longrightarrow> csocket c \<noteq> None \<Longrightarrow> tcp_ok (c\<lparr>csocket := Some x\<rparr>)"
  by (auto simp: tcp_ok_def disconnections_def)

lemma ok_tell: "tcp_ok c \<Longrightarrow> \<not> is_disconnected t \<Longrightarrow> tcp_ok (tell t c)"
  by (simp add: tcp_ok_def disconnections_def tell_def)

lemma ok_socket: "tcp_ok c \<Longrightarrow> tcp_ok (client_socket new sub c) \<and> csocket (client_socket new sub c) \<noteq> None"
  by (auto simp: client_socket_def Let_def tcp_ok_def disconnections_def tell_def)

lemma ok_disconnect: "tcp_ok c \<Longrightarrow> tcp_ok (client_disconnect c)"
  by (auto simp: client_disconnect_def Let_def tcp_ok_def disconnections_def tell_def split: option.split)

lemma ok_connect:
  assumes "tcp_ok c" "client_connect new sub address ex c = Some (fine, ex', c')"
  shows "tcp_ok c'"
proof -
  define c1 where "c1 = client_socket new sub c"
  obtain i s where s: "csocket c1 = Some (i, s)" using ok_socket [OF assms(1)] by (fastforce simp: c1_def)
  obtain fine1 ex1 s1 where r: "Socket_connect address 0 ex s = Some (fine1, ex1, s1)"
    using assms(2) s by (auto simp: client_connect_def Let_def c1_def [symmetric] split: option.splits)
  have "tcp_ok (c1\<lparr>csocket := Some (i, s1)\<rparr>)"
    by (rule ok_set_socket) (use ok_socket [OF assms(1), of new sub] s in \<open>simp_all add: c1_def\<close>)
  then show ?thesis
    using assms(2) s r ok_disconnect by (auto simp: client_connect_def Let_def c1_def [symmetric] split: if_splits)
qed

lemma ok_attach:
  assumes "tcp_ok c" "client_attach new sub ex c = Some (fine, ex', c')"
  shows "tcp_ok c'"
proof -
  obtain i s where n: "new = (i, s)" by (cases new)
  show ?thesis
  proof (cases "\<exists>t. csocket c = Some (i, t)")
    case True
    then show ?thesis using assms n
      by (auto simp: client_attach_def Let_def split: if_splits intro: ok_connect [OF assms(1)])
  next
    case False
    have "tcp_ok (c\<lparr>csubscribed := True, csocket := Some (i, s), cmade := cmade c + 1\<rparr>)"
      using assms(1) by (auto simp: tcp_ok_def disconnections_def)
    then show ?thesis using assms n False
      by (auto simp: client_attach_def Let_def split: if_splits option.splits)
  qed
qed

lemma ok_send: "tcp_ok c \<Longrightarrow> client_send packet flags ex c = Some (fine, ex', c') \<Longrightarrow> tcp_ok c'"
  by (auto simp: client_send_def intro!: ok_set_socket split: option.splits if_splits)

lemma ok_received:
  assumes "tcp_ok c" "client_received parse packet c = Some c'"
  shows "tcp_ok c'"
proof -
  obtain i s where s: "csocket c = Some (i, s)" using assms(2) by (auto simp: client_received_def split: option.splits)
  obtain fine st where r: "addStreamData parse (nat (krecvsize s)) packet (cstream c) = (fine, st)" by (metis surj_pair)
  define c1 where "c1 = tell Told_Data (c\<lparr>cconnected := True, cstream := st\<rparr>)"
  have k: "tcp_ok c1" "csocket c1 \<noteq> None" using assms(1) s by (auto simp: c1_def tcp_ok_def disconnections_def tell_def)
  have "c' = c1 \<or> (\<exists>y. c' = tell Told_Too_Long (c1\<lparr>csocket := Some y\<rparr>))"
    using assms(2) s r by (auto simp: client_received_def Let_def c1_def split: if_splits)
  then show ?thesis using k ok_tell ok_set_socket by force
qed

lemma ok_flushed: "tcp_ok c \<Longrightarrow> csubscribed c \<Longrightarrow> tcp_ok (client_flushed c)"
  by (auto simp: client_flushed_def tcp_ok_def disconnections_def tell_def)

lemma ok_do: "tcp_ok c \<Longrightarrow> tcp_do parse x c = Some c' \<Longrightarrow> tcp_ok c'"
  by (cases x)
     (auto split: if_splits intro: ok_connect ok_attach ok_disconnect ok_send ok_received ok_flushed)

text \<open>
  C27: Whatever is called, and whatever fails, a client tells at most one disconnection for each socket it has had, and
  one less while it has a socket; without socket it is neither connected nor subscribed.
\<close>

theorem tcp_disconnects_once:
  assumes "tcp_run parse xs (TCPClient parser) = Some c"
  shows "disconnections c + (if csocket c = None then 0 else 1) \<le> cmade c \<and> (csocket c = None \<longrightarrow> \<not> cconnected c \<and> \<not> csubscribed c)"
proof -
  have "tcp_ok c'" if "tcp_run parse xs c0 = Some c'" "tcp_ok c0" for xs c0 c'
    using that by (induction xs arbitrary: c0) (auto split: option.splits dest: ok_do)
  moreover have "tcp_ok (TCPClient parser)" by (simp add: tcp_ok_def TCPClient_def disconnections_def)
  ultimately show ?thesis using assms by (auto simp: tcp_ok_def)
qed

text \<open>
  A disconnection of a client that has a peer is told with its address and forgets the stream, and a second one does nothing.
\<close>

lemma disconnect_tells:
  assumes "csocket c = Some (i, s)" "is_set (kpeer s)"
  shows "ctold (client_disconnect c) = ctold c @ [Told_Disconnected (kpeer s)] \<and> snd (cstream (client_disconnect c)) = None \<and>
    csocket (client_disconnect c) = None \<and> client_disconnect (client_disconnect c) = client_disconnect c"
  using assms by (cases "cstream c") (simp add: client_disconnect_def tell_def clearStreamData_def)

definition example_address :: IPImpl where
  "example_address = native_address (Sockaddr_in 0x5000 0x0100007F)"

definition example_new :: "nat \<times> socket" where
  "example_new = (0, (blank_socket TYPE_STREAM 65536 65536 [Failed EINPROGRESS])\<lparr>kvalid := True\<rparr>)"

definition example_parser :: "unit parser" where
  "example_parser s bytes = (s, 0, False)"

definition example_calls :: "tcp_op list" where
  "example_calls =
     [Tcp_Connect example_new (True, None) example_address, Tcp_Flushed, Tcp_Received [1, 2], Tcp_Disconnected, Tcp_Disconnect]"

lemma example_client:
  "(case tcp_run example_parser example_calls (TCPClient ()) of
      Some c \<Rightarrow> cmade c = 1 \<and> disconnections c = 1 \<and> csocket c = None | None \<Rightarrow> False)"
  by code_simp

theorem tcp_disconnects_once_witness:
  "case tcp_run example_parser example_calls (TCPClient ()) of
     Some c \<Rightarrow> disconnections c \<le> cmade c \<and> \<not> cconnected c \<and> \<not> csubscribed c | None \<Rightarrow> False"
proof -
  obtain c where r: "tcp_run example_parser example_calls (TCPClient ()) = Some c" and n: "csocket c = None"
    using example_client by (auto split: option.splits)
  from tcp_disconnects_once [OF r] n show ?thesis by (simp add: r)
qed

section \<open>What goes wrong\<close>

text \<open>A client that is connected and is asked to connect to another address loses its connection.\<close>

lemma connect_elsewhere_disconnects:
  assumes "csocket c = Some (i, s)" "ktype s = TYPE_STREAM" "kex s = None" "is_set (kpeer s)" "kanswers s = Failed EISCONN # as"
    "\<not> socketaddress_equal (kpeer s) address"
  shows "\<exists>c'. client_connect new sub address ex c = Some (False, Some (Ex_Socket EISCONN), c') \<and>
    csocket c' = None \<and> ctold c' = ctold c @ [Told_Disconnected (kpeer s)]"
  using assms
  by (simp add: client_connect_def client_socket_def Socket_connect_def syscall_def answered_def connect_failed_def
      SetException_def client_disconnect_def tell_def Let_def ex_code_def)

end
