(* ===== verification/Rates.thy ===== *)
theory Rates
  imports Complex_Main Prelude
begin

text \<open>
  Mona/Timing/Time.h and Stopwatch.h, Mona/Util/ByteRate.h and LostRate.h, Mona/Net/Congestion.cpp: what is measured
  between two instants. The clock is a parameter of the calls, in milliseconds. A \<open>double\<close> is a rational: its rounding
  is not modelled. The calls of one object follow each other.
  The lemmas show that a byte rate counts every byte in one window, and since when a queue is congested.
\<close>

section \<open>Time\<close>

definition Time_elapsed :: "int \<Rightarrow> int \<Rightarrow> int" where
  "Time_elapsed now time = now - time"

definition isElapsed :: "int \<Rightarrow> int \<Rightarrow> int \<Rightarrow> bool" where
  "isElapsed now duration time \<longleftrightarrow> Time_elapsed now time > duration"

section \<open>Stopwatch\<close>

record stopwatch =
  wstart :: int
  welapsed :: int
  wrunning :: bool

text \<open>The constructor assigns \<open>_elapsed\<close> only: \<open>start\<close> and \<open>running\<close> are what the memory holds.\<close>

definition Stopwatch :: "int \<Rightarrow> bool \<Rightarrow> stopwatch" where
  "Stopwatch junk_start junk_running = \<lparr>wstart = junk_start, welapsed = 0, wrunning = junk_running\<rparr>"

definition Stopwatch_start :: "int \<Rightarrow> stopwatch \<Rightarrow> stopwatch" where
  "Stopwatch_start now w = w\<lparr>wrunning := True, wstart := now\<rparr>"

definition Stopwatch_restart :: "int \<Rightarrow> stopwatch \<Rightarrow> stopwatch" where
  "Stopwatch_restart now w = Stopwatch_start now (w\<lparr>welapsed := 0\<rparr>)"

definition Stopwatch_stop :: "int \<Rightarrow> stopwatch \<Rightarrow> stopwatch" where
  "Stopwatch_stop now w = w\<lparr>wrunning := False, welapsed := welapsed w + (now - wstart w)\<rparr>"

definition Stopwatch_elapsed :: "int \<Rightarrow> stopwatch \<Rightarrow> int" where
  "Stopwatch_elapsed now w = (if wrunning w then now - wstart w else welapsed w)"

section \<open>ByteRate and LostRate\<close>

record byte_rate =
  rbytes :: u64
  rrate :: rat
  rtime :: int
  rdelta :: int

definition ByteRate :: "nat \<Rightarrow> int \<Rightarrow> byte_rate" where
  "ByteRate delta now = \<lparr>rbytes = 0, rrate = 0, rtime = now, rdelta = int delta * 1000\<rparr>"

definition ByteRate_add :: "u32 \<Rightarrow> byte_rate \<Rightarrow> byte_rate" where
  "ByteRate_add bytes r = r\<lparr>rbytes := rbytes r + ucast bytes\<rparr>"

definition ByteRate_assign :: "u32 \<Rightarrow> byte_rate \<Rightarrow> byte_rate" where
  "ByteRate_assign bytes r = r\<lparr>rbytes := ucast bytes\<rparr>"

definition rate_compute :: "int \<Rightarrow> byte_rate \<Rightarrow> byte_rate" where
  "rate_compute now r =
     (let elapsed = now - rtime r; r = r\<lparr>rtime := now\<rparr>
      in if elapsed \<le> rdelta r then r\<lparr>rtime := rtime r - elapsed\<rparr>
         else r\<lparr>rrate := of_nat (unat (rbytes r)) * 1000 / of_int elapsed, rbytes := 0\<rparr>)"

definition ByteRate_exact :: "int \<Rightarrow> byte_rate \<Rightarrow> rat \<times> byte_rate" where
  "ByteRate_exact now r = (let r = rate_compute now r in (rrate r, r))"

definition ByteRate_value :: "int \<Rightarrow> byte_rate \<Rightarrow> nat \<times> byte_rate" where
  "ByteRate_value now r = (let r = rate_compute now r in (nat \<lfloor>rrate r\<rfloor>, r))"

text \<open>The byte rate and the lost rate; both are computed at the same instant.\<close>

definition LostRate_value :: "int \<Rightarrow> byte_rate \<Rightarrow> byte_rate \<Rightarrow> rat \<times> byte_rate \<times> byte_rate" where
  "LostRate_value now bytes lostBytes =
     (case ByteRate_exact now lostBytes of
        (lost, lostBytes) \<Rightarrow>
          if lost \<noteq> 0 then
            (case ByteRate_exact now bytes of (rate, bytes) \<Rightarrow> (lost / (lost + rate), bytes, lostBytes))
          else (0, bytes, lostBytes))"

section \<open>Congestion\<close>

record congestion =
  clast :: u64
  csince :: int

definition Congestion :: congestion where
  "Congestion = \<lparr>clast = 0, csince = 0\<rparr>"

definition Congestion_value :: "int \<Rightarrow> u32 \<Rightarrow> congestion \<Rightarrow> u32" where
  "Congestion_value now duration c =
     (if csince c = 0 then 0
      else
        (let elapsed = (word_of_int (Time_elapsed now (csince c)) :: u64)
         in if elapsed > ucast duration then (if elapsed > 0xFFFFFFFF then 0xFFFFFFFF else ucast elapsed) else 0))"

definition Congestion_assign :: "int \<Rightarrow> u64 \<Rightarrow> congestion \<Rightarrow> congestion" where
  "Congestion_assign now queueing c =
     (let congested = (queueing \<noteq> 0 \<and> queueing > clast c); c = c\<lparr>clast := queueing\<rparr>
      in if congested then (if csince c = 0 then c\<lparr>csince := now\<rparr> else c) else c\<lparr>csince := 0\<rparr>)"

section \<open>Every byte is in one window\<close>

text \<open>Bytes, and reads of the rate; the answer is what the windows that were published counted.\<close>

datatype rate_op = Bytes u32 | Rate_Read int

fun rate_run :: "rate_op list \<Rightarrow> byte_rate \<Rightarrow> rat \<times> byte_rate" where
  "rate_run [] r = (0, r)"
| "rate_run (Bytes n # ops) r = rate_run ops (ByteRate_add n r)"
| "rate_run (Rate_Read now # ops) r =
     (let r' = rate_compute now r;
          counted = (if rtime r' = rtime r then 0 else rrate r' * of_int (rtime r' - rtime r) / 1000)
      in case rate_run ops r' of (later, r'') \<Rightarrow> (counted + later, r''))"

fun op_bytes :: "rate_op \<Rightarrow> nat" where
  "op_bytes (Bytes n) = unat n"
| "op_bytes (Rate_Read _) = 0"

lemma rate_compute_cases:
  assumes "0 \<le> rdelta r"
  shows "(now - rtime r \<le> rdelta r \<and> rate_compute now r = r) \<or>
    (now - rtime r > rdelta r \<and> rtime (rate_compute now r) = now \<and> rtime r < now \<and> rbytes (rate_compute now r) = 0 \<and>
     rdelta (rate_compute now r) = rdelta r \<and>
     rrate (rate_compute now r) * of_int (now - rtime r) / 1000 = of_nat (unat (rbytes r)))"
proof (cases "now - rtime r \<le> rdelta r")
  case True
  then show ?thesis by (simp add: rate_compute_def Let_def)
next
  case False
  then have n: "rtime r < now" "(of_int (now - rtime r) :: rat) \<noteq> 0" using assms by auto
  have "rrate (rate_compute now r) = of_nat (unat (rbytes r)) * 1000 / of_int (now - rtime r)"
    using False by (simp add: rate_compute_def Let_def)
  then have "rrate (rate_compute now r) * of_int (now - rtime r) / 1000 = of_nat (unat (rbytes r))"
    using n by (simp add: field_simps)
  then show ?thesis using False n by (simp add: rate_compute_def Let_def)
qed

lemma rate_run_counts:
  "0 \<le> rdelta r \<Longrightarrow> unat (rbytes r) + sum_list (map op_bytes ops) < 2 ^ 64 \<Longrightarrow> rate_run ops r = (windows, r') \<Longrightarrow>
     windows + of_nat (unat (rbytes r')) = of_nat (unat (rbytes r) + sum_list (map op_bytes ops))"
proof (induction ops r arbitrary: windows rule: rate_run.induct)
  case (1 r)
  then show ?case by simp
next
  case (2 n ops r)
  have "unat n < 2 ^ LENGTH(32)" by (rule unsigned_less)
  then have u: "unat (ucast n :: u64) = unat n" by (simp add: unsigned_ucast_eq take_bit_nat_eq_self)
  have "unat (rbytes (ByteRate_add n r)) = unat (rbytes r) + unat n"
    using 2(3) u by (simp add: ByteRate_add_def unat_word_ariths)
  moreover have "rdelta (ByteRate_add n r) = rdelta r" by (simp add: ByteRate_add_def)
  ultimately show ?case using 2 by (simp add: add.assoc)
next
  case (3 now ops r)
  define r1 where "r1 = rate_compute now r"
  obtain sum1 where s: "rate_run ops r1 = (sum1, r')" using 3(4) by (auto simp: r1_def Let_def split: prod.splits)
  consider (kept) "r1 = r" | (new) "rtime r1 = now" "rtime r < now" "rbytes r1 = 0" "rdelta r1 = rdelta r"
      "rrate r1 * of_int (now - rtime r) / 1000 = of_nat (unat (rbytes r))"
    using rate_compute_cases [OF 3(2), of now] by (auto simp: r1_def)
  then show ?case
  proof cases
    case kept
    then have "windows = sum1" using 3(4) s by (simp add: r1_def Let_def)
    then show ?thesis using 3(1) [OF r1_def refl _ _ s] 3(2,3) kept by simp
  next
    case new
    then have "windows = of_nat (unat (rbytes r)) + sum1" using 3(4) s by (auto simp: r1_def [symmetric] Let_def)
    then show ?thesis using 3(1) [OF r1_def refl _ _ s] 3(2,3) new by simp
  qed
qed

text \<open>
  The windows of a byte rate share the bytes: what the published rates stand for, with the bytes that wait for
  the next window, are all the bytes, none lost and none twice, whenever the rate is read.
\<close>

theorem byte_rate_counts:
  assumes "sum_list (map op_bytes ops) < 2 ^ 64" "rate_run ops (ByteRate delta now) = (windows, r)"
  shows "windows + of_nat (unat (rbytes r)) = of_nat (sum_list (map op_bytes ops))"
  using rate_run_counts [OF _ _ assms(2)] assms(1) by (simp add: ByteRate_def)

theorem byte_rate_counts_witness:
  "case rate_run [Bytes 500, Rate_Read 900, Bytes 1500, Rate_Read 2000, Bytes 7] (ByteRate 1 0) of
     (windows, r) \<Rightarrow> windows + of_nat (unat (rbytes r)) = 2007"
proof -
  obtain windows r where r: "rate_run [Bytes 500, Rate_Read 900, Bytes 1500, Rate_Read 2000, Bytes 7] (ByteRate 1 0) = (windows, r)"
    by (metis surj_pair)
  from byte_rate_counts [OF _ this] show ?thesis using r by simp
qed

lemma lost_rate_fraction:
  assumes "0 \<le> rrate bytes" "0 \<le> rrate lostBytes" "0 \<le> rdelta bytes" "0 \<le> rdelta lostBytes"
  shows "0 \<le> fst (LostRate_value now bytes lostBytes) \<and> fst (LostRate_value now bytes lostBytes) \<le> 1"
proof -
  have pos: "0 \<le> rrate (rate_compute now r)" if "0 \<le> rrate r" "0 \<le> rdelta r" for r
    using that by (auto simp: rate_compute_def Let_def simp del: of_nat_unat intro!: divide_nonneg_nonneg)
  show ?thesis
    using pos [OF assms(1,3)] pos [OF assms(2,4)]
    by (auto simp: LostRate_value_def ByteRate_exact_def Let_def divide_le_eq_1)
qed

section \<open>Since when a queue is congested\<close>

text \<open>Sizes of the queue at their instants, the last one first.\<close>

fun congestion_run :: "(int \<times> u64) list \<Rightarrow> congestion" where
  "congestion_run [] = Congestion"
| "congestion_run ((now, q) # h) = Congestion_assign now q (congestion_run h)"

text \<open>The first instant of the growths that are last, if the last size is a growth.\<close>

definition last_size :: "(int \<times> u64) list \<Rightarrow> u64" where
  "last_size h = (case h of [] \<Rightarrow> 0 | (_, q) # _ \<Rightarrow> q)"

fun growing_since :: "(int \<times> u64) list \<Rightarrow> int option" where
  "growing_since [] = None"
| "growing_since ((now, q) # h) =
     (if q > last_size h then (case growing_since h of None \<Rightarrow> Some now | Some t \<Rightarrow> Some t) else None)"

lemma growing_since_time: "growing_since h = Some t \<Longrightarrow> t \<in> fst ` set h"
  by (induction h arbitrary: t rule: growing_since.induct) (auto split: if_splits option.splits)

lemma congestion_since:
  "list_all (\<lambda>(now, _). now > 0) h \<Longrightarrow>
     clast (congestion_run h) = last_size h \<and> csince (congestion_run h) = (case growing_since h of None \<Rightarrow> 0 | Some t \<Rightarrow> t)"
proof (induction h rule: congestion_run.induct)
  case 1
  then show ?case by (simp add: Congestion_def last_size_def)
next
  case (2 now q h)
  have "t > 0" if "growing_since h = Some t" for t
    using growing_since_time [OF that] 2(2) by (auto simp: list_all_iff)
  then show ?case using 2
    by (auto simp: Congestion_assign_def Let_def last_size_def [of "_ # _"] split: option.splits)
qed

text \<open>
  A queue is told congested exactly when its size has only grown, at each assignment, since an instant that is over the duration
  ago; what is told is that time, at most \<open>2^32 - 1\<close>.
\<close>

theorem congestion_exact:
  assumes "list_all (\<lambda>(t, _). 0 < t \<and> t \<le> now) h" "now < 2 ^ 63"
  shows "unat (Congestion_value now duration (congestion_run h)) =
    (case growing_since h of
       None \<Rightarrow> 0
     | Some t \<Rightarrow> if nat (now - t) > unat duration then min (nat (now - t)) (2 ^ 32 - 1) else 0)"
proof -
  have "list_all (\<lambda>(t, _). t > 0) h" using assms(1) by (auto simp: list_all_iff)
  from congestion_since [OF this] have c: "csince (congestion_run h) = (case growing_since h of None \<Rightarrow> 0 | Some t \<Rightarrow> t)" by simp
  show ?thesis
  proof (cases "growing_since h")
    case None
    then show ?thesis using c by (simp add: Congestion_value_def)
  next
    case (Some t)
    then have t: "0 < t" "t \<le> now" using growing_since_time [OF Some] assms(1) by (auto simp: list_all_iff)
    define e where "e = nat (now - t)"
    have e: "e < 2 ^ 64" using assms(2) t by (simp add: e_def)
    have "(word_of_int (now - t) :: u64) = of_nat e" using t by (simp add: e_def del: of_int_diff)
    then have w: "(word_of_int now - word_of_int t :: u64) = of_nat e" by simp
    have ue: "unat (of_nat e :: u64) = e" using e by (simp add: unat_of_nat take_bit_nat_eq_self)
    have ud: "unat (ucast duration :: u64) = unat duration"
    proof -
      have "unat duration < 2 ^ LENGTH(32)" by (rule unsigned_less)
      then show ?thesis by (simp add: unsigned_ucast_eq take_bit_nat_eq_self)
    qed
    have gt: "(of_nat e :: u64) > ucast duration \<longleftrightarrow> e > unat duration" by (simp only: word_less_nat_alt ue ud)
    have big: "(of_nat e :: u64) > 0xFFFFFFFF \<longleftrightarrow> e > 0xFFFFFFFF" by (simp only: word_less_nat_alt ue) simp
    have small: "unat (ucast (of_nat e :: u64) :: u32) = e" if "\<not> e > 0xFFFFFFFF"
      using that ue by (simp add: unsigned_ucast_eq take_bit_nat_eq_self)
    show ?thesis
      using c Some t gt big small by (auto simp: Congestion_value_def Let_def Time_elapsed_def w e_def [symmetric] min_def)
  qed
qed

theorem congestion_exact_witness:
  "unat (Congestion_value 9000 3000 (congestion_run [(5000, 30), (4000, 20), (3000, 10), (2000, 15), (1000, 12)])) = 5000"
proof -
  have "list_all (\<lambda>(t, _ :: u64). 0 < t \<and> t \<le> 9000) [(5000 :: int, 30), (4000, 20), (3000, 10), (2000, 15), (1000, 12)]" by simp
  from congestion_exact [OF this] show ?thesis by (simp add: last_size_def)
qed

section \<open>What goes wrong\<close>

text \<open>While it runs a stopwatch forgets what it had measured before it was stopped.\<close>

lemma stopwatch_forgets:
  "Stopwatch_elapsed 250 (Stopwatch_start 200 (Stopwatch_stop 100 (Stopwatch_start 0 (Stopwatch t b)))) = 50"
  "Stopwatch_elapsed 250 (Stopwatch_stop 250 (Stopwatch_start 200 (Stopwatch_stop 100 (Stopwatch_start 0 (Stopwatch t b))))) = 150"
  by (simp_all add: Stopwatch_elapsed_def Stopwatch_start_def Stopwatch_stop_def Stopwatch_def)

text \<open>A new stopwatch runs when the memory of its flag holds true.\<close>

lemma stopwatch_uninitialised: "Stopwatch_elapsed now (Stopwatch t b) = (if b then now - t else 0)"
  by (simp add: Stopwatch_elapsed_def Stopwatch_def)

end
