(* ===== verification/Events.thy ===== *)
theory Events
  imports Prelude
begin

text \<open>
  Mona/Util/Event.h: an event has a shared cell that holds a function, and an event that is assigned to another one
  gives it a function that calls its cell through a weak pointer. The cells are a list, an event is an entry of \<open>evs\<close>
  with its cell (None for a null event); a cell lives while an event has it. A call answers the function that runs in the
  end, None inside when the result is the default one, and is None when it calls itself for ever. FATAL_ERROR is None of
  the other operations. The functions of the user are values, which do not assign events while they run.
  The lemmas show that an assigned event always does what the other one does, now and after any change, and when calls end.
\<close>

section \<open>Operations\<close>

datatype 'f event_function = Empty | Lambda 'f | Weak_Call "nat option"

record 'f event_store =
  evs :: "(nat \<times> nat option) list"
  cells :: "'f event_function list"

definition no_events :: "'f event_store" where
  "no_events = \<lparr>evs = [], cells = []\<rparr>"

definition event_cell :: "nat \<Rightarrow> 'f event_store \<Rightarrow> nat option" where
  "event_cell e s = (case map_of (evs s) e of Some (Some k) \<Rightarrow> Some k | _ \<Rightarrow> None)"

definition cell_alive :: "nat \<Rightarrow> 'f event_store \<Rightarrow> bool" where
  "cell_alive k s \<longleftrightarrow> Some k \<in> snd ` set (evs s)"

definition cell_function :: "nat \<Rightarrow> 'f event_store \<Rightarrow> 'f event_function" where
  "cell_function k s = (if k < length (cells s) then cells s ! k else Empty)"

text \<open>The constructors of the event \<open>e\<close>, which is not used: null, empty, of a function, of another event, of a temporary event.\<close>

definition Event_null :: "nat \<Rightarrow> 'f event_store \<Rightarrow> 'f event_store" where
  "Event_null e s = s\<lparr>evs := (e, None) # evs s\<rparr>"

definition Event_of :: "'f event_function \<Rightarrow> nat \<Rightarrow> 'f event_store \<Rightarrow> 'f event_store" where
  "Event_of f e s = \<lparr>evs = (e, Some (length (cells s))) # evs s, cells = cells s @ [f]\<rparr>"

definition Event_new :: "nat \<Rightarrow> 'f event_store \<Rightarrow> 'f event_store" where
  "Event_new = Event_of Empty"

definition Event_lambda :: "'f \<Rightarrow> nat \<Rightarrow> 'f event_store \<Rightarrow> 'f event_store" where
  "Event_lambda f = Event_of (Lambda f)"

definition Event_copy :: "nat \<Rightarrow> nat \<Rightarrow> 'f event_store \<Rightarrow> 'f event_store" where
  "Event_copy other e s = Event_of (Weak_Call (event_cell other s)) e s"

definition Event_share :: "nat \<Rightarrow> nat \<Rightarrow> 'f event_store \<Rightarrow> 'f event_store" where
  "Event_share other e s = s\<lparr>evs := (e, event_cell other s) # evs s\<rparr>"

definition Event_delete :: "nat \<Rightarrow> 'f event_store \<Rightarrow> 'f event_store" where
  "Event_delete e s = s\<lparr>evs := filter (\<lambda>x. fst x \<noteq> e) (evs s)\<rparr>"

text \<open>What an assignment needs: a cell, and no function in it.\<close>

definition free_cell :: "nat \<Rightarrow> 'f event_store \<Rightarrow> nat option" where
  "free_cell e s =
     (case event_cell e s of
        None \<Rightarrow> None
      | Some k \<Rightarrow> (case cell_function k s of Empty \<Rightarrow> Some k | _ \<Rightarrow> None))"

definition set_cell :: "nat \<Rightarrow> 'f event_function \<Rightarrow> 'f event_store \<Rightarrow> 'f event_store" where
  "set_cell k f s = s\<lparr>cells := (cells s)[k := f]\<rparr>"

definition assign_function :: "nat \<Rightarrow> 'f \<Rightarrow> 'f event_store \<Rightarrow> 'f event_store option" where
  "assign_function e f s = map_option (\<lambda>k. set_cell k (Lambda f) s) (free_cell e s)"

definition assign_event :: "nat \<Rightarrow> nat \<Rightarrow> 'f event_store \<Rightarrow> 'f event_store option" where
  "assign_event e other s = map_option (\<lambda>k. set_cell k (Weak_Call (event_cell other s)) s) (free_cell e s)"

definition assign_temporary :: "nat \<Rightarrow> nat \<Rightarrow> 'f event_store \<Rightarrow> 'f event_store option" where
  "assign_temporary e other s =
     map_option (\<lambda>_. s\<lparr>evs := map (\<lambda>x. if fst x = e then (e, event_cell other s) else x) (evs s)\<rparr>) (free_cell e s)"

definition unsubscribe :: "nat \<Rightarrow> 'f event_store \<Rightarrow> 'f event_store" where
  "unsubscribe e s = (case event_cell e s of None \<Rightarrow> s | Some k \<Rightarrow> set_cell k Empty s)"

text \<open>The call of a cell, through its weak pointers, then of an event.\<close>

partial_function (option) call_cell :: "'f event_store \<Rightarrow> nat \<Rightarrow> 'f option option" where
  "call_cell s k =
     (if \<not> cell_alive k s then Some None
      else case cell_function k s of
        Empty \<Rightarrow> Some None
      | Lambda f \<Rightarrow> Some (Some f)
      | Weak_Call None \<Rightarrow> Some None
      | Weak_Call (Some j) \<Rightarrow> call_cell s j)"

definition Event_call :: "nat \<Rightarrow> 'f event_store \<Rightarrow> 'f option option" where
  "Event_call e s = (case event_cell e s of None \<Rightarrow> Some None | Some k \<Rightarrow> call_cell s k)"

section \<open>What a call does\<close>

definition events_ok :: "'f event_store \<Rightarrow> bool" where
  "events_ok s \<longleftrightarrow> distinct (map fst (evs s)) \<and> (\<forall>(e, c) \<in> set (evs s). \<forall>k. c = Some k \<longrightarrow> k < length (cells s))"

lemma event_cell_alive: "event_cell e s = Some k \<Longrightarrow> cell_alive k s"
  by (auto simp: event_cell_def cell_alive_def image_iff split: option.splits dest!: map_of_SomeD intro: bexI [rotated])

lemma event_cell_bound: "events_ok s \<Longrightarrow> event_cell e s = Some k \<Longrightarrow> k < length (cells s)"
  by (auto simp: events_ok_def event_cell_def split: option.splits dest!: map_of_SomeD)

text \<open>
  An event assigned from another one does what the other one does in any later state where its cell still has what
  was assigned: also what the other one was assigned since, and nothing once the other one is deleted.
\<close>

lemma call_forwards:
  assumes "event_cell e s = Some k" "cell_function k s = Weak_Call (Some j)" "event_cell other s = Some j"
  shows "Event_call e s = Event_call other s"
  using assms event_cell_alive [OF assms(1)] by (simp add: Event_call_def call_cell.simps [of s k])

lemma call_dead:
  assumes "event_cell e s = Some k" "cell_function k s = Weak_Call (Some j)" "\<not> cell_alive j s"
  shows "Event_call e s = Some None"
  using assms event_cell_alive [OF assms(1)] by (simp add: Event_call_def call_cell.simps [of s k] call_cell.simps [of s j])

lemma assign_event_calls:
  assumes "events_ok s" "assign_event e other s = Some s'" "e \<noteq> other" "event_cell other s \<noteq> event_cell e s"
  shows "Event_call e s' = Event_call other s'"
proof -
  obtain k where k: "free_cell e s = Some k" and s': "s' = set_cell k (Weak_Call (event_cell other s)) s"
    using assms(2) by (auto simp: assign_event_def)
  then have ek: "event_cell e s = Some k" by (auto simp: free_cell_def split: option.splits event_function.splits)
  have b: "k < length (cells s)" by (rule event_cell_bound [OF assms(1) ek])
  have e: "event_cell x s' = event_cell x s" for x by (simp add: s' set_cell_def event_cell_def)
  have f: "cell_function k s' = Weak_Call (event_cell other s)" using b by (simp add: s' set_cell_def cell_function_def)
  show ?thesis
  proof (cases "event_cell other s")
    case None
    then show ?thesis using e ek f event_cell_alive [of e s' k] by (simp add: Event_call_def call_cell.simps [of s' k])
  next
    case (Some j)
    then show ?thesis using call_forwards [of e s' k j other] e ek f by simp
  qed
qed

text \<open>
  A rank of the cells that decreases along the weak pointers: then every call returns. The rank can be the order of the assignments when
  an event is only assigned from events that have their function.
\<close>

lemma call_returns:
  assumes "\<And>k j. cell_function k s = Weak_Call (Some j) \<Longrightarrow> rank j < (rank k :: nat)"
  shows "\<exists>r. call_cell s k = Some r"
proof (induction "rank k" arbitrary: k rule: less_induct)
  case less
  show ?case
  proof (cases "cell_function k s")
    case (Weak_Call c)
    then show ?thesis using less assms by (cases c) (auto simp: call_cell.simps [of s k])
  qed (simp_all add: call_cell.simps [of s k])
qed

section \<open>What goes wrong\<close>

text \<open>Two events assigned from each other: a call never returns.\<close>

lemma cell_cycle:
  assumes "call_cell s k = Some r" "k \<in> C" "\<And>k. k \<in> C \<Longrightarrow> cell_alive k s \<and> (\<exists>j\<in>C. cell_function k s = Weak_Call (Some j))"
  shows False
proof -
  have "t = s \<longrightarrow> k \<in> C \<longrightarrow> False" if "call_cell t k = Some r" for t k r
  proof (rule call_cell.raw_induct [where P = "\<lambda>t k r. t = s \<longrightarrow> k \<in> C \<longrightarrow> False", OF _ that])
    fix call t k r
    assume ih: "\<And>t k r. call t k = Some r \<Longrightarrow> t = s \<longrightarrow> k \<in> C \<longrightarrow> False"
      and b: "(if \<not> cell_alive k t then Some None
        else case cell_function k t of Empty \<Rightarrow> Some None | Lambda f \<Rightarrow> Some (Some f)
             | Weak_Call None \<Rightarrow> Some None | Weak_Call (Some j) \<Rightarrow> call t j) = Some r"
    show "t = s \<longrightarrow> k \<in> C \<longrightarrow> False"
    proof (intro impI)
      assume t: "t = s" "k \<in> C"
      then obtain j where "cell_alive k s" "j \<in> C" "cell_function k s = Weak_Call (Some j)" using assms(3) by blast
      then show False using ih [of t j r] b t by simp
    qed
  qed
  then show False using assms(1,2) by blast
qed

lemma mutual_events_never_return:
  "(case assign_event 0 1 (Event_new 1 (Event_new 0 no_events)) of
      None \<Rightarrow> False
    | Some s \<Rightarrow> (case assign_event 1 0 s of None \<Rightarrow> False | Some s \<Rightarrow> Event_call 0 (s :: nat event_store) = None))"
proof -
  let ?s = "\<lparr>evs = [(1, Some 1), (0, Some 0)], cells = [Weak_Call (Some 1), Weak_Call (Some 0)]\<rparr> :: nat event_store"
  have c: "cell_alive k ?s \<and> (\<exists>j\<in>{0, 1}. cell_function k ?s = Weak_Call (Some j))" if "k \<in> {0, 1}" for k
    using that by (auto simp: cell_alive_def cell_function_def)
  have "call_cell ?s 0 \<noteq> Some r" for r
    using cell_cycle [of ?s 0 r "{0, 1}", OF _ _ c] by auto
  then have "Event_call 0 ?s = None" by (cases "call_cell ?s 0") (auto simp: Event_call_def event_cell_def)
  then show ?thesis
    by (simp add: assign_event_def free_cell_def event_cell_def Event_new_def Event_of_def no_events_def cell_function_def set_cell_def)
qed

end
