(* ===== verification/Persistent.thy ===== *)
theory Persistent
  imports Paths "HOL-Library.AList"
begin

text \<open>
  Mona/Disk/PersistentData.h and PersistentData.cpp: values kept in a tree of folders, each in a file whose name is the
  digest of its bytes. The tree is the file system below the folder of the database (None when that folder does not
  exist); a folder is listed with its files first. The digest (OpenSSL) is a parameter, and so is the trouble that the system may
  have with one entry. The path of a value goes through \<open>Resolve\<close> (Paths).
  The lemmas show that what is stored is what is loaded, in all cases but those at the end.
\<close>

section \<open>The file system\<close>

datatype tree = Dir (tfiles: "(string \<times> byte list) list") (tsubs: "(string \<times> tree) list")

fun tree_at :: "string list \<Rightarrow> tree \<Rightarrow> tree option" where
  "tree_at [] t = Some t"
| "tree_at (n # ns) t = (case map_of (tsubs t) n of None \<Rightarrow> None | Some t' \<Rightarrow> tree_at ns t')"

text \<open>What is done to one folder; \<open>f\<close> answers None when the folder is deleted.\<close>

fun tree_update :: "string list \<Rightarrow> (tree \<Rightarrow> tree option) \<Rightarrow> tree \<Rightarrow> tree option" where
  "tree_update [] f t = f t"
| "tree_update (n # ns) f (Dir fs ss) =
     (case map_of ss n of
        None \<Rightarrow> Some (Dir fs ss)
      | Some t \<Rightarrow>
          (case tree_update ns f t of
             None \<Rightarrow> Some (Dir fs (AList.delete n ss))
           | Some t' \<Rightarrow> Some (Dir fs (AList.update n t' ss))))"

text \<open>\<open>CreateDirectory\<close> with its parents: None when a file has the name of a folder.\<close>

fun tree_create :: "string list \<Rightarrow> tree \<Rightarrow> tree option" where
  "tree_create [] t = Some t"
| "tree_create (n # ns) (Dir fs ss) =
     (if n \<in> fst ` set fs then None
      else map_option (\<lambda>t. Dir fs (AList.update n t ss)) (tree_create ns (case map_of ss n of Some t \<Rightarrow> t | None \<Rightarrow> Dir [] [])))"

text \<open>The folder of a resolved path; the system reads a dot as the folder itself.\<close>

definition folder_of :: "string \<Rightarrow> string list" where
  "folder_of path = rev (snd (normal (comps path)))"

section \<open>Entries\<close>

record entry =
  epath :: string
  edata :: "byte list option"
  eclearing :: bool

definition Entry_add :: "string \<Rightarrow> byte list option \<Rightarrow> entry" where
  "Entry_add path data = \<lparr>epath = path, edata = data, eclearing = False\<rparr>"

text \<open>The constructor of \<open>remove\<close> (a path) and of \<open>clear\<close> (NULL, which is then assigned to a \<open>std::string\<close>).\<close>

definition Entry_remove :: "string option \<Rightarrow> entry option" where
  "Entry_remove path =
     (let clearing = (path \<noteq> None)
      in if \<not> clearing then None else Some \<lparr>epath = [], edata = None, eclearing = clearing\<rparr>)"

definition newEntry :: "bool \<Rightarrow> entry \<Rightarrow> entry list \<Rightarrow> entry list" where
  "newEntry disableTransaction e entries = (if disableTransaction then entries else entries @ [e])"

datatype trouble = No_Trouble | No_Directory | No_File | Short_Write nat

definition is_digest :: "string \<Rightarrow> bool" where
  "is_digest n \<longleftrightarrow> length n = 32 \<and> list_all (\<lambda>c. \<not> (\<not> isxdigit c \<or> code c > code (CHR ''9'') \<and> isupper c)) n"

text \<open>The files of a folder that stay: those that are not digests, and the new one.\<close>

definition kept_files :: "string \<Rightarrow> (string \<times> byte list) list \<Rightarrow> (string \<times> byte list) list" where
  "kept_files name fs = filter (\<lambda>(n, _). n = name \<or> \<not> is_digest n) fs"

definition entry_path :: "string \<Rightarrow> string" where
  "entry_path path = (if path = [] \<or> \<not> is_slash (hd path) then CHR ''/'' # path else path)"

text \<open>\<open>processEntry\<close>: whether there is an exception, and the tree; None when \<open>Resolve\<close> does not answer.\<close>

definition store_value :: "(byte list \<Rightarrow> string) \<Rightarrow> trouble \<Rightarrow> string list \<Rightarrow> byte list \<Rightarrow> tree option \<Rightarrow> bool \<times> tree option" where
  "store_value md5 trouble d data root =
     (if trouble = No_Directory then (True, root)
      else case tree_create d (case root of None \<Rightarrow> Dir [] [] | Some t \<Rightarrow> t) of
        None \<Rightarrow> (True, root)
      | Some t \<Rightarrow>
          (let name = md5 data;
               written = (case trouble of Short_Write n \<Rightarrow> take n data | _ \<Rightarrow> data)
           in if trouble = No_File \<or> (case tree_at d t of None \<Rightarrow> False | Some u \<Rightarrow> name \<in> fst ` set (tsubs u)) then (True, Some t)
              else ((case trouble of Short_Write _ \<Rightarrow> True | _ \<Rightarrow> False),
                    tree_update d (\<lambda>u. Some (Dir (kept_files name (AList.update name written (tfiles u))) (tsubs u))) t)))"

definition remove_value :: "string list \<Rightarrow> tree option \<Rightarrow> tree option" where
  "remove_value d root =
     (case root of
        None \<Rightarrow> None
      | Some t \<Rightarrow>
          tree_update d (\<lambda>u. let kept = kept_files [] (tfiles u)
                             in if kept = [] \<and> tsubs u = [] then None else Some (Dir kept (tsubs u))) t)"

definition processEntry ::
  "(byte list \<Rightarrow> string) \<Rightarrow> string list \<Rightarrow> trouble \<Rightarrow> entry \<Rightarrow> tree option \<Rightarrow> (bool \<times> tree option) option" where
  "processEntry md5 dirs trouble e root =
     (if eclearing e then Some (False, None)
      else case Resolve dirs (entry_path (epath e)) of
        Some (Some path) \<Rightarrow>
          (let d = folder_of path
           in Some (case edata e of
                Some data \<Rightarrow> store_value md5 trouble d data root
              | None \<Rightarrow> (False, remove_value d root)))
      | _ \<Rightarrow> None)"

text \<open>The entries that the thread has taken; after an exception it stops.\<close>

fun run_entries ::
  "(byte list \<Rightarrow> string) \<Rightarrow> string list \<Rightarrow> (trouble \<times> entry) list \<Rightarrow> tree option \<Rightarrow> (bool \<times> tree option) option" where
  "run_entries md5 dirs [] root = Some (False, root)"
| "run_entries md5 dirs ((trouble, e) # es) root =
     (case processEntry md5 dirs trouble e root of
        None \<Rightarrow> None
      | Some (True, root) \<Rightarrow> Some (True, root)
      | Some (False, root) \<Rightarrow> run_entries md5 dirs es root)"

section \<open>Loading\<close>

text \<open>The files of a folder: those that stay, and the values.\<close>

definition loaded_files :: "(byte list \<Rightarrow> string) \<Rightarrow> (string \<times> byte list) list \<Rightarrow> (string \<times> byte list) list" where
  "loaded_files md5 fs = filter (\<lambda>(n, b). length n \<noteq> 32 \<or> md5 b = n \<or> \<not> is_digest n) fs"

definition file_values :: "(byte list \<Rightarrow> string) \<Rightarrow> string \<Rightarrow> (string \<times> byte list) list \<Rightarrow> (string \<times> byte list) list" where
  "file_values md5 path fs = map (\<lambda>(n, b). (path, b)) (filter (\<lambda>(n, b). length n = 32 \<and> md5 b = n) fs)"

text \<open>\<open>loadDirectory\<close>: the folder, None when it is deleted, and the calls of \<open>forEach\<close>.\<close>

fun loadDirectory :: "(byte list \<Rightarrow> string) \<Rightarrow> string \<Rightarrow> tree \<Rightarrow> tree option \<times> (string \<times> byte list) list" where
  "loadDirectory md5 path (Dir fs ss) =
     (let files = loaded_files md5 fs;
          loaded = map (\<lambda>(n, t). (n, loadDirectory md5 (path @ CHR ''/'' # n) t)) ss;
          subs = concat (map (\<lambda>(n, r). case fst r of None \<Rightarrow> [] | Some t \<Rightarrow> [(n, t)]) loaded);
          values = file_values md5 path fs @ concat (map (\<lambda>(n, r). snd r) loaded)
      in (if files = [] \<and> subs = [] then None else Some (Dir files subs), values))"

definition load_database :: "(byte list \<Rightarrow> string) \<Rightarrow> tree option \<Rightarrow> tree option \<times> (string \<times> byte list) list" where
  "load_database md5 root = (case root of None \<Rightarrow> (None, []) | Some t \<Rightarrow> loadDirectory md5 [] t)"

section \<open>The database as a map\<close>

text \<open>A folder has no file, or one whose name is the digest of its bytes; no folder has the name of a digest.\<close>

fun tree_ok :: "(byte list \<Rightarrow> string) \<Rightarrow> tree \<Rightarrow> bool" where
  "tree_ok md5 (Dir fs ss) \<longleftrightarrow>
     length fs \<le> 1 \<and> list_all (\<lambda>(n, b). n = md5 b) fs \<and> distinct (map fst ss) \<and>
     list_all (\<lambda>x. \<not> is_digest (fst x) \<and> tree_ok md5 (snd x)) ss"

definition folder_value :: "tree \<Rightarrow> byte list option" where
  "folder_value t = (case tfiles t of [(_, b)] \<Rightarrow> Some b | _ \<Rightarrow> None)"

definition database :: "tree option \<Rightarrow> string list \<Rightarrow> byte list option" where
  "database root d =
     (case root of None \<Rightarrow> None | Some t \<Rightarrow> (case tree_at d t of None \<Rightarrow> None | Some u \<Rightarrow> folder_value u))"

definition root_ok :: "(byte list \<Rightarrow> string) \<Rightarrow> tree option \<Rightarrow> bool" where
  "root_ok md5 root \<longleftrightarrow> (case root of None \<Rightarrow> True | Some t \<Rightarrow> tree_ok md5 t)"

lemma tree_ok_sub: "tree_ok md5 (Dir fs ss) \<Longrightarrow> map_of ss n = Some t \<Longrightarrow> tree_ok md5 t \<and> \<not> is_digest n"
  by (auto simp: list_all_iff dest!: map_of_SomeD)

lemma tree_ok_empty [simp]: "tree_ok md5 (Dir [] [])"
  by simp

lemma tree_ok_files: "tree_ok md5 (Dir fs ss) \<Longrightarrow> fs = [] \<or> (\<exists>b. fs = [(md5 b, b)])"
  by (cases fs) auto

lemma tree_ok_set:
  assumes "tree_ok md5 (Dir fs ss)" "tree_ok md5 t" "\<not> is_digest n"
  shows "tree_ok md5 (Dir fs (AList.update n t ss))"
proof -
  have "list_all (\<lambda>x. \<not> is_digest (fst x) \<and> tree_ok md5 (snd x)) (AList.update n t ss)"
    using assms by (induction ss) auto
  then show ?thesis using assms(1) by (simp add: distinct_update)
qed

lemma tree_ok_delete: "tree_ok md5 (Dir fs ss) \<Longrightarrow> tree_ok md5 (Dir fs (AList.delete n ss))"
  by (auto simp: list_all_iff AList.delete_eq intro: distinct_map_filter)

text \<open>Creating a folder changes no value.\<close>

lemma tree_create_ok:
  assumes "tree_ok md5 t" "list_all (\<lambda>n. \<not> is_digest n) d" "\<And>b. is_digest (md5 b)"
  shows "\<exists>t' u. tree_create d t = Some t' \<and> tree_ok md5 t' \<and> tree_at d t' = Some u \<and> tree_ok md5 u \<and>
    (\<forall>e. database (Some t') e = database (Some t) e)"
  using assms(1,2)
proof (induction d arbitrary: t)
  case Nil
  then show ?case by simp
next
  case (Cons n ns)
  obtain fs ss where t: "t = Dir fs ss" by (cases t)
  define s where "s = (case map_of ss n of Some t \<Rightarrow> t | None \<Rightarrow> Dir [] [])"
  have s: "tree_ok md5 s" using tree_ok_sub [of md5 fs ss n] Cons.prems(1) by (auto simp: s_def t split: option.split)
  obtain s' u where i: "tree_create ns s = Some s'" "tree_ok md5 s'" "tree_at ns s' = Some u" "tree_ok md5 u"
    "\<forall>e. database (Some s') e = database (Some s) e"
    using Cons.IH [OF s] Cons.prems(2) by auto
  have "n \<notin> fst ` set fs" using tree_ok_files [OF Cons.prems(1) [unfolded t]] assms(3) Cons.prems(2) by auto
  then have c: "tree_create (n # ns) t = Some (Dir fs (AList.update n s' ss))" using i(1) by (simp add: t s_def [symmetric])
  have ok: "tree_ok md5 (Dir fs (AList.update n s' ss))"
    by (rule tree_ok_set [OF Cons.prems(1) [unfolded t] i(2)]) (use Cons.prems(2) in simp)
  have "database (Some (Dir fs (AList.update n s' ss))) e = database (Some t) e" for e
  proof (cases e)
    case (Cons m ms)
    show ?thesis
    proof (cases "m = n")
      case True
      then show ?thesis using i(5) [rule_format, of ms] Cons
        by (cases "map_of ss n"; cases ms) (auto simp: database_def t s_def update_conv folder_value_def split: option.splits)
    next
      case False
      then show ?thesis using Cons by (simp add: database_def t update_conv)
    qed
  qed (simp add: database_def t folder_value_def)
  then show ?case using c ok i(3,4) by (auto simp: update_conv)
qed

text \<open>A change of one folder is a change of one value.\<close>

lemma tree_update_ok:
  assumes "tree_ok md5 t" "tree_at d t = Some u" "f u = Some u'" "tree_ok md5 u'" "tsubs u' = tsubs u"
  shows "\<exists>t'. tree_update d f t = Some t' \<and> tree_ok md5 t' \<and>
    (\<forall>e. database (Some t') e = (if e = d then folder_value u' else database (Some t) e))"
  using assms(1,2)
proof (induction d arbitrary: t)
  case Nil
  have "database (Some u') e = (if e = [] then folder_value u' else database (Some u) e)" for e
    using assms(5) by (cases e) (simp_all add: database_def)
  then show ?case using Nil assms(3,4) by auto
next
  case (Cons n ns)
  obtain fs ss where t: "t = Dir fs ss" by (cases t)
  obtain s where s: "map_of ss n = Some s" "tree_at ns s = Some u" using Cons.prems(2) by (auto simp: t split: option.splits)
  have sok: "tree_ok md5 s" "\<not> is_digest n" using tree_ok_sub [OF Cons.prems(1) [unfolded t] s(1)] by simp_all
  obtain s' where i: "tree_update ns f s = Some s'" "tree_ok md5 s'"
    "\<forall>e. database (Some s') e = (if e = ns then folder_value u' else database (Some s) e)"
    using Cons.IH [OF sok(1) s(2)] by blast
  have ok: "tree_ok md5 (Dir fs (AList.update n s' ss))"
    by (rule tree_ok_set [OF Cons.prems(1) [unfolded t] i(2) sok(2)])
  have "database (Some (Dir fs (AList.update n s' ss))) e = (if e = n # ns then folder_value u' else database (Some t) e)" for e
  proof (cases e)
    case (Cons m ms)
    show ?thesis
    proof (cases "m = n")
      case True
      then show ?thesis using i(3) [rule_format, of ms] Cons s by (auto simp: database_def t update_conv)
    next
      case False
      then show ?thesis using Cons by (simp add: database_def t update_conv)
    qed
  qed (simp add: database_def t folder_value_def)
  then show ?case using ok i(1) s by (auto simp: t)
qed

lemma tree_delete_ok:
  assumes "tree_ok md5 t" "tree_at d t = Some u" "f u = None" "tsubs u = []"
  shows "root_ok md5 (tree_update d f t) \<and> (\<forall>e. database (tree_update d f t) e = (if e = d then None else database (Some t) e))"
  using assms(1,2)
proof (induction d arbitrary: t)
  case Nil
  have "database (Some u) e = None" if "e \<noteq> []" for e using assms(4) that by (cases e) (simp_all add: database_def)
  then show ?case using Nil assms(3) by (auto simp: root_ok_def database_def)
next
  case (Cons n ns)
  obtain fs ss where t: "t = Dir fs ss" by (cases t)
  obtain s where s: "map_of ss n = Some s" "tree_at ns s = Some u" using Cons.prems(2) by (auto simp: t split: option.splits)
  have sok: "tree_ok md5 s" "\<not> is_digest n" using tree_ok_sub [OF Cons.prems(1) [unfolded t] s(1)] by simp_all
  note i = Cons.IH [OF sok(1) s(2)]
  have e0: "database (Some t) (n # ms) = database (Some s) ms" for ms using s by (simp add: database_def t)
  show ?case
  proof (cases "tree_update ns f s")
    case None
    have ok: "tree_ok md5 (Dir fs (AList.delete n ss))" by (rule tree_ok_delete [OF Cons.prems(1) [unfolded t]])
    have "database (Some s) ms = None" if "ms \<noteq> ns" for ms
    proof -
      have "database None ms = database (Some s) ms" using i that None by metis
      then show ?thesis by (simp add: database_def)
    qed
    then have "database (Some (Dir fs (AList.delete n ss))) e = (if e = n # ns then None else database (Some t) e)" for e
      using e0 by (cases e) (auto simp: database_def t delete_conv folder_value_def split: option.splits)
    then show ?thesis using ok s None by (auto simp: t root_ok_def)
  next
    case (Some s')
    have ok: "tree_ok md5 (Dir fs (AList.update n s' ss))"
      by (rule tree_ok_set [OF Cons.prems(1) [unfolded t] _ sok(2)]) (use i Some in \<open>simp add: root_ok_def\<close>)
    have "database (Some s') ms = (if ms = ns then None else database (Some s) ms)" for ms using i Some by simp
    then have "database (Some (Dir fs (AList.update n s' ss))) e = (if e = n # ns then None else database (Some t) e)" for e
      using e0 by (cases e) (auto simp: database_def t update_conv folder_value_def split: option.splits)
    then show ?thesis using ok s Some by (auto simp: t root_ok_def)
  qed
qed

lemma update_same: "map_of ss n = Some t \<Longrightarrow> AList.update n t ss = ss"
  by (induction ss) (auto split: if_splits)

lemma update_absent: "tree_at d t = None \<Longrightarrow> tree_update d f t = Some t"
proof (induction d arbitrary: t)
  case (Cons n ns)
  obtain fs ss where t: "t = Dir fs ss" by (cases t)
  then show ?case using Cons
    by (auto simp: update_same split: option.splits)
qed simp

text \<open>Storing and removing are changes of the map.\<close>

lemma store_value_ok:
  assumes "root_ok md5 root" "list_all (\<lambda>n. \<not> is_digest n) d" "\<And>b. is_digest (md5 b)"
  shows "\<exists>t. store_value md5 No_Trouble d data root = (False, Some t) \<and> tree_ok md5 t \<and>
    database (Some t) = (database root)(d := Some data)"
proof -
  define t0 where "t0 = (case root of None \<Rightarrow> Dir [] [] | Some t \<Rightarrow> t)"
  have t0: "tree_ok md5 t0" using assms(1) by (auto simp: t0_def root_ok_def split: option.splits)
  have d0: "database (Some t0) e = database root e" for e
    by (cases e) (auto simp: t0_def database_def folder_value_def split: option.splits)
  obtain t1 u where c: "tree_create d t0 = Some t1" "tree_ok md5 t1" "tree_at d t1 = Some u" "tree_ok md5 u"
    "\<forall>e. database (Some t1) e = database (Some t0) e"
    using tree_create_ok [OF t0 assms(2,3)] by blast
  obtain fs ss where u: "u = Dir fs ss" by (cases u)
  let ?u = "Dir (kept_files (md5 data) (AList.update (md5 data) data fs)) ss"
  have fs: "kept_files (md5 data) (AList.update (md5 data) data fs) = [(md5 data, data)]"
    using tree_ok_files [OF c(4) [unfolded u]] assms(3) by (auto simp: kept_files_def)
  have sub: "md5 data \<notin> fst ` set ss" using c(4) assms(3) [of data] by (auto simp: u list_all_iff)
  have ok: "tree_ok md5 ?u" using c(4) by (simp add: u fs)
  define f where "f u = Some (Dir (kept_files (md5 data) (AList.update (md5 data) data (tfiles u))) (tsubs u))" for u
  have f: "f u = Some ?u" "tsubs ?u = tsubs u" by (simp_all add: f_def u)
  obtain t2 where t2: "tree_update d f t1 = Some t2" "tree_ok md5 t2"
    "\<forall>e. database (Some t2) e = (if e = d then folder_value ?u else database (Some t1) e)"
    using tree_update_ok [where f = f, OF c(2,3) f(1) ok f(2)] by blast
  have "store_value md5 No_Trouble d data root = (False, tree_update d f t1)"
    using c(1,3) sub by (auto simp: store_value_def t0_def [symmetric] Let_def u f_def [abs_def])
  then show ?thesis using t2 c(5) d0 fs by (auto simp: folder_value_def)
qed

lemma remove_value_ok:
  assumes "root_ok md5 root" "\<And>b. is_digest (md5 b)"
  shows "root_ok md5 (remove_value d root) \<and> database (remove_value d root) = (database root)(d := None)"
proof (cases root)
  case None
  then show ?thesis by (auto simp: remove_value_def root_ok_def database_def)
next
  case (Some t)
  define f where "f u = (let kept = kept_files [] (tfiles u) in if kept = [] \<and> tsubs u = [] then None else Some (Dir kept (tsubs u)))" for u
  have r: "remove_value d root = tree_update d f t" by (simp add: remove_value_def Some f_def [abs_def])
  have ok: "tree_ok md5 t" using assms(1) Some by (simp add: root_ok_def)
  show ?thesis
  proof (cases "tree_at d t")
    case None
    then show ?thesis using r Some assms(1) update_absent [OF None] by (auto simp: database_def)
  next
    case at: (Some u)
    have uok: "tree_ok md5 u" using ok at
    proof (induction d arbitrary: t)
      case (Cons n ns)
      obtain fs ss where t: "t = Dir fs ss" by (cases t)
      obtain s where s: "map_of ss n = Some s" "tree_at ns s = Some u" using Cons.prems(2) by (auto simp: t split: option.splits)
      then show ?case using Cons.IH tree_ok_sub [OF Cons.prems(1) [unfolded t] s(1)] by blast
    qed simp
    obtain fs ss where u: "u = Dir fs ss" by (cases u)
    have "md5 b \<noteq> []" for b using assms(2) [of b] by (auto simp: is_digest_def)
    then have k: "kept_files [] fs = []"
      using tree_ok_files [OF uok [unfolded u]] assms(2) by (auto simp: kept_files_def)
    show ?thesis
    proof (cases "ss = []")
      case True
      then have "f u = None" "tsubs u = []" using k by (simp_all add: f_def u)
      from tree_delete_ok [where f = f, OF ok at this] show ?thesis using r Some by (auto simp: fun_eq_iff)
    next
      case False
      then have f: "f u = Some (Dir [] ss)" "tsubs (Dir [] ss) = tsubs u" using k by (simp_all add: f_def u)
      have "tree_ok md5 (Dir [] ss)" using uok by (simp add: u)
      from tree_update_ok [where f = f, OF ok at f(1) this f(2)] show ?thesis
        using r Some by (auto simp: root_ok_def folder_value_def)
    qed
  qed
qed

section \<open>Loading gives the map\<close>

definition path_text :: "string list \<Rightarrow> string" where
  "path_text d = concat (map (\<lambda>n. CHR ''/'' # n) d)"

lemma path_text_simps [simp]: "path_text [] = []" "path_text (n # ns) = CHR ''/'' # n @ path_text ns"
  by (simp_all add: path_text_def)

definition map_values :: "string \<Rightarrow> (string list \<Rightarrow> byte list option) \<Rightarrow> (string \<times> byte list) set" where
  "map_values path m = {(path @ path_text d, b) | d b. m d = Some b}"

lemma database_Dir:
  "database (Some (Dir fs ss)) d =
     (case d of [] \<Rightarrow> folder_value (Dir fs ss) | n # ns \<Rightarrow> database (map_of ss n) ns)"
  by (auto simp: database_def split: list.split option.split)

lemma database_empty: "database (Some (Dir [] [])) = database None"
proof
  fix d
  show "database (Some (Dir [] [])) d = database None d" by (cases d) (simp_all add: database_def folder_value_def)
qed

definition kept_subs :: "(string \<times> tree option \<times> 'a) list \<Rightarrow> (string \<times> tree) list" where
  "kept_subs rs = concat (map (\<lambda>(n, r). case fst r of None \<Rightarrow> [] | Some t \<Rightarrow> [(n, t)]) rs)"

lemma kept_subs_names: "fst ` set (kept_subs rs) \<subseteq> fst ` set rs"
proof
  fix n
  assume "n \<in> fst ` set (kept_subs rs)"
  then obtain x where "(n, x) \<in> set rs" by (auto simp: kept_subs_def split: option.splits)
  then show "n \<in> fst ` set rs" by (metis fst_conv imageI)
qed

lemma kept_subs_map:
  "distinct (map fst ss) \<Longrightarrow>
     distinct (map fst (kept_subs (map (\<lambda>(n, t). (n, g n t)) ss))) \<and>
     map_of (kept_subs (map (\<lambda>(n, t). (n, g n t)) ss)) n = (case map_of ss n of None \<Rightarrow> None | Some t \<Rightarrow> fst (g n t))"
proof (induction ss)
  case Nil
  then show ?case by (simp add: kept_subs_def)
next
  case (Cons x ss)
  obtain m t where x: "x = (m, t)" by (cases x)
  have names: "fst ` set (kept_subs (map (\<lambda>(n, t). (n, g n t)) ss)) \<subseteq> fst ` set ss"
    using kept_subs_names [of "map (\<lambda>(n, t). (n, g n t)) ss"] by (simp add: image_image case_prod_unfold)
  have m: "m \<notin> fst ` set ss" using Cons.prems by (simp add: x)
  then have "map_of ss m = None" by (simp add: map_of_eq_None_iff)
  moreover have "m \<notin> fst ` set (kept_subs (map (\<lambda>(n, t). (n, g n t)) ss))" using m names by blast
  ultimately show ?case using Cons
    by (cases "fst (g m t)") (auto simp: x kept_subs_def split: option.split)
qed

declare loadDirectory.simps [simp del]

lemma load_values:
  assumes "tree_ok md5 t" "\<And>b. is_digest (md5 b)"
  shows "set (snd (loadDirectory md5 path t)) = map_values path (database (Some t)) \<and>
    root_ok md5 (fst (loadDirectory md5 path t)) \<and> database (fst (loadDirectory md5 path t)) = database (Some t)"
  using assms
proof (induction md5 path t rule: loadDirectory.induct)
  case (1 md5 path fs ss)
  note digest = 1(3)
  define L where "L n t = loadDirectory md5 (path @ CHR ''/'' # n) t" for n t
  have sub: "set (snd (L n t)) = map_values (path @ CHR ''/'' # n) (database (Some t)) \<and> root_ok md5 (fst (L n t)) \<and>
      database (fst (L n t)) = database (Some t) \<and> \<not> is_digest n" if "(n, t) \<in> set ss" for n t
    using 1 that digest by (auto simp: L_def list_all_iff)
  have dist: "distinct (map fst ss)" using 1(2) by simp
  define K where "K = kept_subs (map (\<lambda>(n, t). (n, L n t)) ss)"
  have load: "loadDirectory md5 path (Dir fs ss) =
      (if loaded_files md5 fs = [] \<and> K = [] then None else Some (Dir (loaded_files md5 fs) K),
       file_values md5 path fs @ concat (map (\<lambda>(n, t). snd (L n t)) ss))"
    by (simp add: loadDirectory.simps K_def kept_subs_def L_def Let_def comp_def case_prod_unfold)
  have len: "length (md5 b) = 32" for b using digest [of b] unfolding is_digest_def by blast
  have files: "loaded_files md5 fs = fs" "set (file_values md5 path fs) = (case folder_value (Dir fs ss) of None \<Rightarrow> {} | Some b \<Rightarrow> {(path, b)})"
    using tree_ok_files [OF 1(2)] by (elim disjE exE; simp add: loaded_files_def file_values_def folder_value_def len)+
  have K: "distinct (map fst K)" "map_of K n = (case map_of ss n of None \<Rightarrow> None | Some t \<Rightarrow> fst (L n t))" for n
    using kept_subs_map [OF dist, of L] by (simp_all add: K_def)
  have db: "database (Some (Dir fs K)) = database (Some (Dir fs ss))"
  proof
    fix d
    show "database (Some (Dir fs K)) d = database (Some (Dir fs ss)) d"
      using sub by (cases d) (auto simp: database_Dir folder_value_def K(2) split: option.split dest!: map_of_SomeD)
  qed
  have kok: "\<not> is_digest n \<and> tree_ok md5 t" if "(n, t) \<in> set K" for n t
  proof -
    have "map_of K n = Some t" using that K(1) by simp
    then obtain u where "map_of ss n = Some u" "fst (L n u) = Some t" unfolding K(2) by (auto split: option.splits)
    then show ?thesis using sub [of n u] by (auto simp: root_ok_def dest: map_of_SomeD)
  qed
  have ok: "root_ok md5 (fst (loadDirectory md5 path (Dir fs ss)))"
    using 1(2) K(1) kok by (auto simp: load files root_ok_def list_all_iff)
  have "database (fst (loadDirectory md5 path (Dir fs ss))) = database (Some (Dir fs ss))"
    using db database_empty by (auto simp: load files)
  moreover have "set (snd (loadDirectory md5 path (Dir fs ss))) = map_values path (database (Some (Dir fs ss)))"
  proof (intro set_eqI iffI)
    fix x
    assume "x \<in> set (snd (loadDirectory md5 path (Dir fs ss)))"
    then consider b where "folder_value (Dir fs ss) = Some b" "x = (path, b)" | n t where "(n, t) \<in> set ss" "x \<in> set (snd (L n t))"
      by (auto simp: load files split: option.splits)
    then show "x \<in> map_values path (database (Some (Dir fs ss)))"
    proof cases
      case (1 b)
      then show ?thesis by (auto simp: map_values_def database_Dir intro!: exI [of _ "[]"])
    next
      case (2 n t)
      then obtain d b where d: "x = (path @ path_text (n # d), b)" "database (Some t) d = Some b"
        using sub [OF 2(1)] by (auto simp: map_values_def)
      have "map_of ss n = Some t" using 2(1) dist by simp
      then show ?thesis using d by (auto simp: map_values_def database_Dir intro!: exI [of _ "n # d"])
    qed
  next
    fix x
    assume "x \<in> map_values path (database (Some (Dir fs ss)))"
    then obtain d b where d: "x = (path @ path_text d, b)" "database (Some (Dir fs ss)) d = Some b" by (auto simp: map_values_def)
    show "x \<in> set (snd (loadDirectory md5 path (Dir fs ss)))"
    proof (cases d)
      case Nil
      then show ?thesis using d by (simp add: load files database_Dir)
    next
      case (Cons n ns)
      then obtain t where t: "map_of ss n = Some t" "database (Some t) ns = Some b"
        using d(2) by (cases "map_of ss n") (auto simp: database_Dir database_def)
      then have m: "(n, t) \<in> set ss" by (simp add: map_of_SomeD)
      have "x \<in> set (snd (L n t))" using sub [OF m] t d(1) Cons by (auto simp: map_values_def intro!: exI [of _ ns])
      then show ?thesis using m by (auto simp: load)
    qed
  qed
  ultimately show ?case using ok by blast
qed

section \<open>The folder of a path\<close>

lemma splits_slash_free: "w \<in> set (splits s) \<Longrightarrow> slash_free w"
proof (induction s arbitrary: w)
  case (Cons c s)
  obtain v vs where v: "splits s = v # vs" by (cases "splits s") auto
  have i: "slash_free x" if "x = v \<or> x \<in> set vs" for x using Cons.IH [of x] that by (auto simp: v)
  show ?case
  proof (cases "is_slash c")
    case True
    then show ?thesis using Cons.prems i by (auto simp: v slash_free_def)
  next
    case False
    then show ?thesis using Cons.prems i [of v] i [of w] by (auto simp: v slash_free_def)
  qed
qed (simp add: slash_free_def)

lemma comps_names: "names_ok (comps p)"
  using splits_slash_free by (auto simp: names_ok_def comps_def)

lemma normal_names: "w \<in> set (snd (normal ws)) \<Longrightarrow> w \<in> set ws \<and> w \<noteq> ''.'' \<and> w \<noteq> ''..''"
proof (induction ws arbitrary: w rule: rev_induct)
  case Nil
  then show ?case by (simp add: normal_def)
next
  case (snoc x ws)
  obtain up ns where n: "normal ws = (up, ns)" by fastforce
  then show ?case using snoc by (auto simp: normal_snoc push_def split: if_splits list.splits)
qed

lemma normal_plain: "\<forall>w \<in> set ws. w \<noteq> ''.'' \<and> w \<noteq> ''..'' \<Longrightarrow> normal ws = (0, rev ws)"
proof (induction ws rule: rev_induct)
  case Nil
  then show ?case by (simp add: normal_def)
next
  case (snoc x ws)
  then show ?case by (simp add: normal_snoc push_def)
qed

lemma comps_joined: "names_ok ws \<Longrightarrow> comps (joined ws) = ws"
proof (induction ws)
  case Nil
  then show ?case by (simp add: comps_def)
next
  case (Cons w ws)
  then have w: "w \<noteq> []" "\<forall>c \<in> set w. \<not> is_slash c" "names_ok ws" by (auto simp: names_ok_def slash_free_def)
  have "is_slash (CHR ''/'')" by (simp add: is_slash_def)
  then show ?case using Cons.IH [OF w(3)] w(1,2) comps_word [OF w(2)] by (simp add: comps_append)
qed

text \<open>The names that a path leaves, the root first.\<close>

definition path_names :: "string \<Rightarrow> string list" where
  "path_names p = rev (snd (normal (comps p)))"

lemma folder_of_resolved:
  assumes "names_ok ds" "IsAbsolute p"
  shows "\<exists>path. Resolve (dirs_of ds) p = Some (Some path) \<and> folder_of path = path_names p"
proof -
  define ws where "ws = path_names p"
  have ws: "names_ok ws" "\<forall>w \<in> set ws. w \<noteq> ''.'' \<and> w \<noteq> ''..''"
    using normal_names comps_names [of p] by (auto simp: ws_def path_names_def names_ok_def)
  have sl: "is_slash (CHR ''/'')" by (simp add: is_slash_def)
  have c0: "comps (CHR ''/'' # s) = comps s" for s using comps_append [OF sl, of "[]" s] by (simp add: comps_def)
  have n: "normal_path ds p = CHR ''/'' # joined ws @ resolved_tail (type_of p) ws"
    using assms(2) by (simp add: normal_path_def ws_def path_names_def case_prod_unfold Let_def)
  have "snd (normal (comps (joined ws @ resolved_tail (type_of p) ws))) = rev ws"
  proof (cases "ws = []")
    case True
    have "comps ''.'' = [''.'']" "comps [] = []" by (simp_all add: comps_def is_slash_def)
    then show ?thesis using True by (simp add: resolved_tail_def normal_def push_def)
  next
    case False
    have "comps (joined ws @ ''/'') = ws" using comps_append [OF sl, of "joined ws" "[]"] comps_joined [OF ws(1)] by (simp add: comps_def)
    then show ?thesis using False comps_joined [OF ws(1)] normal_plain [OF ws(2)] by (simp add: resolved_tail_def)
  qed
  then have "folder_of (normal_path ds p) = ws" by (simp add: folder_of_def n c0)
  then show ?thesis using Resolve_normal [OF assms(1)] assms(2) by (simp add: ws_def)
qed

section \<open>The database keeps its values\<close>

text \<open>A value to store, or NULL data to remove what the path has.\<close>

definition entry_ok :: "string \<Rightarrow> bool" where
  "entry_ok p \<longleftrightarrow> (p = [] \<or> hd p \<noteq> CHR 0x5C) \<and> list_all (\<lambda>n. \<not> is_digest n) (path_names p)"

lemma path_names_entry: "path_names (entry_path p) = path_names p"
proof -
  have "is_slash (CHR ''/'')" by (simp add: is_slash_def)
  from comps_append [OF this, of "[]" p] show ?thesis by (simp add: entry_path_def path_names_def comps_def)
qed

definition add_all :: "(string \<times> byte list option) list \<Rightarrow> (trouble \<times> entry) list" where
  "add_all vs = map (\<lambda>(p, b). (No_Trouble, Entry_add p b)) vs"

lemma run_entries_ok:
  assumes "names_ok ds" "\<And>b. is_digest (md5 b)" "root_ok md5 root" "list_all (\<lambda>(p, _). entry_ok p) vs"
  shows "\<exists>root'. run_entries md5 (dirs_of ds) (add_all vs) root = Some (False, root') \<and> root_ok md5 root' \<and>
    database root' = fold (\<lambda>(p, b) m. m(path_names p := b)) vs (database root)"
  using assms(3,4)
proof (induction vs arbitrary: root)
  case Nil
  then show ?case by (simp add: add_all_def)
next
  case (Cons v vs)
  obtain p b where v: "v = (p, b)" by (cases v)
  have p: "entry_ok p" using Cons.prems(2) by (simp add: v)
  then have "IsAbsolute (entry_path p)" by (auto simp: entry_ok_def entry_path_def IsAbsolute_def is_slash_def)
  then obtain path where r: "Resolve (dirs_of ds) (entry_path p) = Some (Some path)" "folder_of path = path_names p"
    using folder_of_resolved [OF assms(1)] path_names_entry by metis
  obtain root1 where e: "processEntry md5 (dirs_of ds) No_Trouble (Entry_add p b) root = Some (False, root1)" "root_ok md5 root1"
    "database root1 = (database root)(path_names p := b)"
  proof (cases b)
    case None
    then show thesis
      using that [of "remove_value (path_names p) root"] remove_value_ok [OF Cons.prems(1) assms(2)] r
      by (simp add: processEntry_def Entry_add_def)
  next
    case (Some data)
    obtain t where "store_value md5 No_Trouble (path_names p) data root = (False, Some t)" "tree_ok md5 t"
      "database (Some t) = (database root)(path_names p := Some data)"
      using store_value_ok [OF Cons.prems(1) _ assms(2)] p by (auto simp: entry_ok_def)
    then show thesis using that [of "Some t"] r Some by (simp add: processEntry_def Entry_add_def root_ok_def)
  qed
  show ?case using Cons.IH [OF e(2)] Cons.prems(2) e(1,3) by (simp add: v add_all_def)
qed

text \<open>
  C29: Values stored by \<open>add\<close>, in any order and any number of times, at paths written in any way, are what a load of the
  database tells: the last value of every path that has one, at the path in normal form; \<open>add\<close> of NULL data removes one
  (\<open>remove\<close> does something else, \<open>remove_clears_all\<close>). No call of the system fails, a digest is 32 hexadecimal characters,
  no folder of a path is named as a digest, and no path begins with a backslash.
\<close>

theorem database_back:
  assumes "\<And>b. is_digest (md5 b)" "names_ok ds" "list_all (\<lambda>(p, _). entry_ok p) vs"
  shows "\<exists>root. run_entries md5 (dirs_of ds) (add_all vs) None = Some (False, root) \<and>
    set (snd (load_database md5 root)) = map_values [] (fold (\<lambda>(p, b) m. m(path_names p := b)) vs (\<lambda>_. None))"
proof -
  have "root_ok md5 None" "database None = (\<lambda>_. None)" by (simp_all add: root_ok_def database_def fun_eq_iff)
  then obtain root where r: "run_entries md5 (dirs_of ds) (add_all vs) None = Some (False, root)" "root_ok md5 root"
    "database root = fold (\<lambda>(p, b) m. m(path_names p := b)) vs (\<lambda>_. None)"
    using run_entries_ok [OF assms(2,1) \<open>root_ok md5 None\<close> assms(3)] by auto
  have "set (snd (load_database md5 root)) = map_values [] (database root)"
    using load_values [of md5, OF _ assms(1)] r(2)
    by (cases root) (auto simp: load_database_def root_ok_def map_values_def database_def)
  then show ?thesis using r by auto
qed

text \<open>A digest to evaluate with.\<close>

definition parity_digest :: "byte list \<Rightarrow> string" where
  "parity_digest b = replicate 31 (CHR ''0'') @ [if even (length b) then CHR ''a'' else CHR ''b'']"

lemma parity_digest_ok: "is_digest (parity_digest b)"
proof -
  have "isxdigit (CHR ''0'')" "isxdigit (CHR ''a'')" "isxdigit (CHR ''b'')" "\<not> isupper (CHR ''a'')" "\<not> isupper (CHR ''b'')"
    "\<not> code (CHR ''9'') < code (CHR ''0'')" by (simp_all add: isxdigit_iff isupper_iff code_def)
  then show ?thesis by (simp add: parity_digest_def is_digest_def list_all_iff)
qed

definition some_values :: "(string \<times> byte list option) list" where
  "some_values = [(''/a/./b'', Some [1]), (''a//b/../c'', Some [2, 3]), (''a/b/'', None)]"

theorem database_back_witness:
  "\<exists>root. run_entries parity_digest (dirs_of [''home'']) (add_all some_values) None = Some (False, root) \<and>
    set (snd (load_database parity_digest root)) = {(''/a/c'', [2, 3])}"
proof -
  have ds: "names_ok [''home'']" by code_simp
  have ok: "list_all (\<lambda>(p, _). entry_ok p) some_values" by code_simp
  have "path_names ''/a/./b'' = [''a'', ''b'']" "path_names ''a//b/../c'' = [''a'', ''c'']" "path_names ''a/b/'' = [''a'', ''b'']"
    by code_simp+
  then have "map_values [] (fold (\<lambda>(p, b) m. m(path_names p := b)) some_values (\<lambda>_. None)) = {(''/a/c'', [2, 3])}"
    by (auto simp: map_values_def some_values_def intro!: exI [of _ "[''a'', ''c'']"])
  then show ?thesis using database_back [of parity_digest "[''home'']" some_values, OF parity_digest_ok ds ok] by simp
qed

section \<open>What is lost\<close>

text \<open>The test of the constructor is inverted: \<open>remove\<close> deletes the whole database, and \<open>clear\<close> reads NULL.\<close>

lemma remove_clears_all:
  "\<exists>e. Entry_remove (Some path) = Some e \<and> processEntry md5 dirs trouble e root = Some (False, None)"
  by (simp add: Entry_remove_def processEntry_def)

lemma clear_undefined: "Entry_remove None = None"
  by (simp add: Entry_remove_def)

text \<open>A write that fails leaves a short file, and the old value is deleted all the same: the next load finds nothing.\<close>

lemma write_failure_loses_value:
  assumes "\<And>b. is_digest (md5 b)" "md5 old \<noteq> md5 data" "md5 (take n data) \<noteq> md5 data"
    "root = Some (Dir [] [(f, Dir [(md5 old, old)] [])])"
  shows "snd (load_database md5 root) = [(CHR ''/'' # f, old)]"
    and "fst (store_value md5 (Short_Write n) [f] data root)"
    and "snd (load_database md5 (snd (store_value md5 (Short_Write n) [f] data root))) = []"
proof -
  have len: "length (md5 b) = 32" for b using assms(1) [of b] unfolding is_digest_def by blast
  show "snd (load_database md5 root) = [(CHR ''/'' # f, old)]"
    by (simp add: assms(4) load_database_def loadDirectory.simps file_values_def len Let_def)
  show "fst (store_value md5 (Short_Write n) [f] data root)"
    by (simp add: assms(4) store_value_def Let_def)
  show "snd (load_database md5 (snd (store_value md5 (Short_Write n) [f] data root))) = []"
    using assms(2,3)
    by (simp add: assms(4) store_value_def load_database_def loadDirectory.simps file_values_def kept_files_def len assms(1) Let_def)
qed

text \<open>The thread has taken all the entries when one fails: those that follow are not stored.\<close>

lemma entries_after_error_lost:
  assumes "processEntry md5 dirs trouble e root = Some (True, root')"
  shows "run_entries md5 dirs ((trouble, e) # es) root = Some (True, root')"
  using assms by simp

end
