(* ===== verification/Spec2Isabelle.thy ===== *)
theory Spec2Isabelle
  imports Wire_Messages Insertion_Map Bit_Reader Utils Crypto Date_Text Double_Dates IpAddr Xml_Documents Xml_Reads Timers
    Ini_Files Path_Objects Urls Thread_Queues Stream_Data Help_Texts Io_Sockets Tcp_Clients Rates Events Persistent
begin

text \<open>
  MonaCPP: a C++ library for servers (memory, formats, times, network, threads, files), below src/Mona. This
  development models its own logic for a little-endian POSIX host (the branches of epoll; not Windows, not kqueue)
  and proves what makes its parts correct, and where they are not. The systems and the libraries under it are
  parameters of the definitions. File names below are under src/Mona.

  How the parts fit. Every byte that goes out is written by BinaryWriter behind a Buffer, whose memory is given by the
  allocator and its pool; every byte that comes in is a Packet, cut by StreamData into the messages of a parser and read by
  BinaryReader or BitReader. A server waits in IOSocket, which turns the events of the system into actions of a
  thread of a pool (ThreadQueue) and these into calls of the handler's thread; TCPClient, TCPServer and UDPSocket
  sit on top of Socket. URL, FileSystem, Parameters, Options and XMLParser read what users write; Date, Timezone and
  Timer keep times; PersistentData keeps values in folders through the path algebra.

  Theories, with what each one models and shows.

  Shared:
  \<^item> Prelude: bytes, words, memory images, the collections \<open>wire\<close> and \<open>mem\<close>.
  \<^item> Std_Map: \<open>std::map\<close> as an ordered list, under the locale \<open>strict_weak_order\<close>, which every comparison of the
    code that is one interprets (the keys of parameters, addresses, instants).

  Memory:
  \<^item> Bytes_Order (Memory/Bytes.h): byte orders, sizes of 7-bit numbers. Flips are involutions and images round-trip.
  \<^item> Allocator (Memory/Buffer.cpp, BufferPool.cpp): the allocator and the pool on a heap of blocks; the locale
    \<open>buffer_allocator\<close> is the contract that \<open>acquire\<close> and \<open>release\<close> use, interpreted on the plain allocator and on the pool.
    Acquire and release never fail and keep the pool well formed.
  \<^item> Buffers (Memory/Buffer.cpp): the growable buffer; the locale \<open>byte_sink\<close>, what writers need of it. The operations refine
    sequences of bytes.
  \<^item> Packets (Memory/Packet.cpp) and Stream_Data (Net/StreamData.h): shared views on an explicit store, streams cut into packets.
    Assignment keeps the bytes alive; the cutting does not matter for an incremental parser.

  Formats and texts:
  \<^item> Binary_Writer, Binary_Reader, Wire_Messages (Format/BinaryWriter.cpp, BinaryReader.cpp): typed fields in both byte orders.
    The locale \<open>codec\<close> is a pair of a write and a read. Messages round-trip, and the cursor stays inside on any bytes.
  \<^item> Bit_Reader (Format/BitReader.cpp): the bits of a block in order.
  \<^item> Ascii (Mona.cpp), Strings and Text_Codecs (Format/String.cpp): classes, comparison, splitting, numbers, hexadecimal, percent codes.
  \<^item> Utils (Util/Util.cpp): Base64 round trip, distances, random generator. Crypto (Math/Crypto.cpp): rotations, the Internet
    checksum, CRC32, whose table is the division by the polynomial and which detects bursts.
  \<^item> Xml, Xml_Documents, Xml_Reads (Format/XMLParser.cpp): the parser of events, resumed at any byte. Events nest, a parse
    returns, a printed document gives its events, and no byte outside of the packet is read when the packet does not end on a bracket.
  \<^item> Params, Param_Texts, Ini_Files (Util/Parameters.cpp): the map that tells its changes, pairs, queries and ini files.
  \<^item> Paths, Path_Objects (Disk/FileSystem.cpp, Path.cpp) and Urls (Format/URL.cpp): the last name of a path, its
    extension, its normal form; the path and the query of a request. The specification is a stack of components (\<open>normal\<close>).
  \<^item> Cli, Help_Texts (Application/Option.h, Options.cpp, HelpFormatter.cpp): the command line and the help.

  Times:
  \<^item> Calendar, Dates, Double_Dates, Date_Text (Timing/Date.cpp): the civil calendar from and to a time, the setters, the division in double
    precision, printing and parsing by format. Timezones (Timing/Timezone.cpp): TZ strings, database files, rules.
  \<^item> Timers (Timing/Timer.cpp): the slots of timers refine a schedule, one instant for each timer.
  \<^item> Rates (Timing/Stopwatch.h, Util/ByteRate.h, LostRate.h, Net/Congestion.cpp): measures between two instants.

  Network and threads:
  \<^item> IpImpl, IpAddr (Net/IPAddress.cpp, SocketAddress.cpp): addresses as shared objects in a store; the steps of threads that share
    an object interleave, \<open>addr()\<close> in two steps, as the code tests before its lock.
  \<^item> Sockets (Net/Socket.cpp): options, connection, and the queue of sends over any answers of the system.
  \<^item> Io_Sockets (Net/IOSocket.cpp): the three threads of a reception as interleaved steps. Order, no loss, back-pressure, progress.
  \<^item> Tcp_Clients (Net/TCPClient.cpp, TCPServer.cpp, UDPSocket.cpp): who has a socket and what the user is told.
  \<^item> Thread_Queues (Threading/Signal.cpp, Thread.cpp, ThreadQueue.cpp, ThreadPool.h, Handler.cpp): the thread of a queue and its
    callers as interleaved steps. Runners run once and in order, no wake-up is lost, a queue ends.
  \<^item> Events (Util/Event.h): shared cells and weak calls. An assigned event does what the other one does.

  Files:
  \<^item> Persistent (Disk/PersistentData.cpp): entries processed into a tree of folders, and what a load tells.

  Conventions. An object is a record, an enumeration a datatype, an integer a word or an integer with its casts written out; a pointer
  into a text or a block is an index. An exception is a value of the result. FATAL_ERROR, a call of the standard library that throws or is
  undefined, and an access outside of memory are None, or a fault value. What is shared between threads is one record and a relation
  or a function of labelled steps, a step being what is between two accesses to shared state; a call that blocks is
  a step that is not enabled. A lemma about a defect of the code computes
  the behaviour on a concrete input.

  Bounds. Loops of the code that may not end (\<open>resolve_loop\<close>, \<open>timer_raise\<close>, \<open>xml_run\<close>, \<open>xml_loop_rd\<close>, \<open>call_cell\<close>) are
  \<open>partial_function\<close>, and the properties about them prove that they return; all other recursion is total. There is no fuel:
  the threads are bounded by measures (\<open>thread_steps\<close> for a queue, \<open>io_work\<close> for a socket), which are proved enough. The
  system answers a socket from a list of answers, of any length. Sizes of texts, packets and maps are below \<open>2 ^ 31\<close> or \<open>2 ^ 32\<close>
  where a header says so. Times of dates are integers: \<open>update_fields_is_double\<close> shows that below \<open>2 ^ 53\<close> milliseconds the code's
  division in double precision is the same. The level of \<open>GetFile\<close> is a natural number: \<open>GetFile_level16\<close> shows the same of its 16 bits
  for paths of less than 65535 characters. Values of \<open>double\<close> in Rates are rationals.

  Not modelled. The system and other libraries: file input and output (Disk/File, IOFile, FileWatcher; listings, creation and
  deletion in FileSystem), processes, consoles and logs, the resolution of names, OpenSSL (TLS, DiffieHellman, hashes), SRT, proxies, the
  shell of applications. In what is modelled: the table of subscriptions, the decoder and the start and stop of the thread of
  IOSocket, the runners of TCPClient that send from another thread, the collector's timing in BufferPool, the
  overloads of String that go to \<open>sprintf\<close>, priorities and names of threads, the texts of errors. Exceptions.h carries these texts.
  Format/Value.h is commented out at this commit. The JSON library is vendored.
\<close>

end
